(* ===== verification/Prelude.thy ===== *)
theory Prelude
  imports Main "HOL-Library.Word" "HOL-Library.Signed_Division"
begin

text \<open>
  Shared vocabulary of the development.

  \<^item> Types: bytes and machine words, addresses, IEEE doubles as their bit patterns, and the
    result type of fallible functions (\<open>Inl\<close> an error code, \<open>Inr\<close> the outputs).
  \<^item> \<open>GgError\<close> and \<open>gg_strerror\<close> (\<open>include/gg/error.h\<close>, \<open>src/error.c\<close>).
  \<^item> String literals as byte lists.
  \<^item> Generic lemmas on lists, sums and words, and the \<open>named_theorems\<close> collections that the
    component theories fill and that their proofs use.

  The model describes a release build: \<open>CMakeLists.txt\<close> defines \<open>NDEBUG\<close> for every
  configuration but Debug, so an \<open>assert\<close> has no effect on the computed values. Sizes
  (\<open>size_t\<close>) are natural numbers; fixed-width fields whose wrap-around matters are words.
\<close>

unbundle bit_operations_syntax

named_theorems gg_defs \<open>definitions unfolded by component proofs\<close>
named_theorems gg_len \<open>length facts of buffers, packets and encodings\<close>

section \<open>Types\<close>

type_synonym byte = "8 word"
type_synonym u8 = "8 word"
type_synonym u16 = "16 word"
type_synonym u32 = "32 word"
type_synonym u64 = "64 word"
type_synonym ptr = nat
type_synonym f64 = "64 word"

definition UINT32_MAX :: nat where
  "UINT32_MAX = 2 ^ 32 - 1"

section \<open>Error codes\<close>

datatype GgError =
    GG_ERR_OK
  | GG_ERR_FAILURE
  | GG_ERR_RETRY
  | GG_ERR_BUSY
  | GG_ERR_FATAL
  | GG_ERR_INVALID
  | GG_ERR_UNSUPPORTED
  | GG_ERR_PARSE
  | GG_ERR_RANGE
  | GG_ERR_NOMEM
  | GG_ERR_NOCONN
  | GG_ERR_NODATA
  | GG_ERR_NOENTRY
  | GG_ERR_CONFIG
  | GG_ERR_REMOTE
  | GG_ERR_EXPECTED
  | GG_ERR_TIMEOUT
  | GG_ERR_UNAUTHORIZED
  | GG_ERR_CONFLICT

fun gg_strerror :: "GgError \<Rightarrow> string" where
  "gg_strerror GG_ERR_OK = ''OK''"
| "gg_strerror GG_ERR_FAILURE = ''FAILURE''"
| "gg_strerror GG_ERR_RETRY = ''RETRY''"
| "gg_strerror GG_ERR_BUSY = ''BUSY''"
| "gg_strerror GG_ERR_FATAL = ''FATAL''"
| "gg_strerror GG_ERR_INVALID = ''INVALID''"
| "gg_strerror GG_ERR_UNSUPPORTED = ''UNSUPPORTED''"
| "gg_strerror GG_ERR_PARSE = ''PARSE''"
| "gg_strerror GG_ERR_RANGE = ''RANGE''"
| "gg_strerror GG_ERR_NOMEM = ''NOMEM''"
| "gg_strerror GG_ERR_NOCONN = ''NOCONN''"
| "gg_strerror GG_ERR_NODATA = ''NODATA''"
| "gg_strerror GG_ERR_NOENTRY = ''NOENTRY''"
| "gg_strerror GG_ERR_CONFIG = ''CONFIG''"
| "gg_strerror GG_ERR_REMOTE = ''REMOTE''"
| "gg_strerror GG_ERR_EXPECTED = ''EXPECTED''"
| "gg_strerror GG_ERR_TIMEOUT = ''TIMEOUT''"
| "gg_strerror GG_ERR_UNAUTHORIZED = ''UNAUTHORIZED''"
| "gg_strerror GG_ERR_CONFLICT = ''CONFLICT''"

type_synonym 'a res = "GgError + 'a"

section \<open>Byte strings\<close>

definition bytes_of :: "string \<Rightarrow> byte list" where
  "bytes_of s = map (\<lambda>c. of_char c) s"

definition chr :: "char \<Rightarrow> byte" where
  "chr c = of_char c"

declare chr_def [simp]

section \<open>Lists, sums and words\<close>

lemma bytes_of_simps [simp]:
  "bytes_of [] = []"
  "bytes_of (c # s) = chr c # bytes_of s"
  by (simp_all add: bytes_of_def chr_def)

lemma length_bytes_of [simp]: "length (bytes_of s) = length s"
  by (simp add: bytes_of_def)

lemma unat_2_power: "k < LENGTH('a) \<Longrightarrow> unat (2 ^ k :: 'a::len word) = 2 ^ k"
  by (metis of_nat_numeral of_nat_power take_bit_of_exp unsigned_of_nat mult_1_right of_nat_1 
       take_bit_eq_mod mod_less power_strict_increasing one_less_numeral_iff semiring_norm(76))

lemma unat_bound: "unat (x :: 'a::len word) < 2 ^ LENGTH('a)"
  by simp

lemma unat_eq: "unat x = unat (y :: 'a::len word) \<longleftrightarrow> x = y"
  by (simp add: word_unat_eq_iff)

lemma list_split_at: "n \<le> length xs \<Longrightarrow> \<exists>ys zs. xs = ys @ zs \<and> length ys = n"
  by (rule exI [of _ "take n xs"], rule exI [of _ "drop n xs"]) simp

lemma take_append_exact [simp]: "length xs = n \<Longrightarrow> take n (xs @ ys) = xs"
  by simp

lemma drop_append_exact [simp]: "length xs = n \<Longrightarrow> drop n (xs @ ys) = ys"
  by simp

text \<open>Overwriting \<open>length bs\<close> bytes of a memory block at offset \<open>off\<close> (\<open>memcpy\<close> into it).\<close>

definition mem_write :: "byte list \<Rightarrow> nat \<Rightarrow> byte list \<Rightarrow> byte list" where
  "mem_write block off bs = take off block @ bs @ drop (off + length bs) block"

lemma length_mem_write [simp]:
  "off + length bs \<le> length block \<Longrightarrow> length (mem_write block off bs) = length block"
  by (simp add: mem_write_def)

lemma take_mem_write [simp]:
  "n \<le> off \<Longrightarrow> off \<le> length block \<Longrightarrow> take n (mem_write block off bs) = take n block"
  by (simp add: mem_write_def)

lemma take_mem_write_end:
  "off \<le> length block \<Longrightarrow> take (off + length bs) (mem_write block off bs) = take off block @ bs"
  by (simp add: mem_write_def)

lemma drop_mem_write [simp]:
  "off + length bs \<le> n \<Longrightarrow> off + length bs \<le> length block \<Longrightarrow>
   drop n (mem_write block off bs) = drop n block"
  by (simp add: mem_write_def)

lemma mem_write_Nil [simp]: "mem_write block off [] = block"
  by (simp add: mem_write_def)

lemma mem_write_mem_write:
  "p \<le> length b \<Longrightarrow> mem_write (mem_write b p xs) (p + length xs) ys = mem_write b p (xs @ ys)"
  by (simp add: mem_write_def ac_simps)

end
