(* ===== verification/Buffer.thy ===== *)
theory Buffer
  imports Prelude
begin

text \<open>
  Buffers (\<open>include/gg/buffer.h\<close>, \<open>src/buffer.c\<close>) and the reader and writer abstractions
  (\<open>priv_include/gg/io.h\<close>).

  A \<open>GgBuffer\<close> is an address and the bytes visible through it; the C field \<open>len\<close> is the
  length of that byte list. A buffer writer writes through a cursor into a block of
  memory, so its state is the block and the position of the cursor.

  Lemmas: the substring contract that \<open>buffer.h\<close> states for CBMC, prefix, suffix and
  substring tests against their list meanings, exact behaviour of the decimal parser
  \<open>gg_str_to_int64\<close> on every input, and the effect of writing through a buffer writer.
\<close>

section \<open>The type\<close>

record GgBuffer =
  data :: ptr
  mem :: "byte list"

abbreviation len :: "GgBuffer \<Rightarrow> nat" where
  "len b \<equiv> length (mem b)"

text \<open>The address of a string literal is not observed by any modelled function.\<close>

definition GG_STR :: "string \<Rightarrow> GgBuffer" where
  "GG_STR s = \<lparr>data = 1, mem = bytes_of s\<rparr>"

lemma mem_GG_STR [simp]: "mem (GG_STR s) = bytes_of s"
  by (simp add: GG_STR_def)

section \<open>Operations\<close>

definition gg_buffer_from_null_term :: "ptr \<Rightarrow> byte list \<Rightarrow> GgBuffer" where
  \<comment> \<open>the memory at \<open>str\<close>, up to the first NUL (\<open>strlen\<close>)\<close>
  "gg_buffer_from_null_term str memory = \<lparr>data = str, mem = takeWhile (\<lambda>c. c \<noteq> 0) memory\<rparr>"

definition gg_buffer_eq :: "GgBuffer \<Rightarrow> GgBuffer \<Rightarrow> bool" where
  "gg_buffer_eq buf1 buf2 =
     (if len buf1 = len buf2
      then (if len buf1 = 0 then True else mem buf1 = mem buf2)
      else False)"

definition gg_buffer_has_prefix :: "GgBuffer \<Rightarrow> GgBuffer \<Rightarrow> bool" where
  "gg_buffer_has_prefix buf prefix =
     (if len prefix \<le> len buf then take (len prefix) (mem buf) = mem prefix else False)"

definition gg_buffer_has_suffix :: "GgBuffer \<Rightarrow> GgBuffer \<Rightarrow> bool" where
  "gg_buffer_has_suffix buf suffix =
     (if len suffix \<le> len buf then drop (len buf - len suffix) (mem buf) = mem suffix else False)"

definition gg_buffer_substr :: "GgBuffer \<Rightarrow> nat \<Rightarrow> nat \<Rightarrow> GgBuffer" where
  "gg_buffer_substr buf start end =
     (let start_trunc = (if start < len buf then start else len buf);
          end_trunc = (if end < len buf then end else len buf)
      in \<lparr>data = data buf + start_trunc,
          mem = take (if end_trunc \<ge> start_trunc then end_trunc - start_trunc else 0)
                  (drop start_trunc (mem buf))\<rparr>)"

text \<open>A call with \<open>end = SIZE_MAX\<close>: the end is clamped to the length.\<close>

definition SIZE_MAX :: nat where
  "SIZE_MAX = 2 ^ 64 - 1"

definition gg_buffer_rest :: "GgBuffer \<Rightarrow> nat \<Rightarrow> GgBuffer" where
  "gg_buffer_rest buf start = gg_buffer_substr buf start (len buf)"

definition gg_buffer_remove_prefix :: "GgBuffer \<Rightarrow> GgBuffer \<Rightarrow> bool \<times> GgBuffer" where
  "gg_buffer_remove_prefix buf prefix =
     (if gg_buffer_has_prefix buf prefix then (True, gg_buffer_rest buf (len prefix))
      else (False, buf))"

definition gg_buffer_remove_suffix :: "GgBuffer \<Rightarrow> GgBuffer \<Rightarrow> bool \<times> GgBuffer" where
  "gg_buffer_remove_suffix buf suffix =
     (if gg_buffer_has_suffix buf suffix
      then (True, gg_buffer_substr buf 0 (len buf - len suffix))
      else (False, buf))"

text \<open>\<open>memmem\<close>: the first offset at which the needle occurs.\<close>

fun memmem :: "byte list \<Rightarrow> byte list \<Rightarrow> nat option" where
  "memmem hay needle =
     (if take (length needle) hay = needle then Some 0
      else case hay of [] \<Rightarrow> None | _ # rest \<Rightarrow> map_option Suc (memmem rest needle))"

definition gg_buffer_contains :: "GgBuffer \<Rightarrow> GgBuffer \<Rightarrow> nat option" where
  \<comment> \<open>\<open>Some start\<close> for true, with the index written to \<open>*start\<close>\<close>
  "gg_buffer_contains buf substring =
     (if len substring = 0 then Some 0 else memmem (mem buf) (mem substring))"

section \<open>Decimal integers\<close>

definition INT64_MAX :: int where "INT64_MAX = 2 ^ 63 - 1"
definition INT64_MIN :: int where "INT64_MIN = - (2 ^ 63)"

definition mult_overflow_int64 :: "int \<Rightarrow> int \<Rightarrow> bool" where
  "mult_overflow_int64 a b =
     (if b = 0 then False
      else if b > 0 then a > INT64_MAX sdiv b \<or> a < INT64_MIN sdiv b
      else a < INT64_MAX sdiv b \<or> a > INT64_MIN sdiv b)"

definition add_overflow_int64 :: "int \<Rightarrow> int \<Rightarrow> bool" where
  "add_overflow_int64 a b = (if b > 0 then a > INT64_MAX - b else a < INT64_MIN - b)"

fun str_to_int64_loop :: "int \<Rightarrow> int \<Rightarrow> byte list \<Rightarrow> int res" where
  "str_to_int64_loop sign ret [] = Inr ret"
| "str_to_int64_loop sign ret (c # cs) =
     (if c < chr CHR ''0'' \<or> c > chr CHR ''9'' then Inl GG_ERR_INVALID
      else if mult_overflow_int64 ret 10 then Inl GG_ERR_RANGE
      else if add_overflow_int64 (ret * 10) (sign * (uint c - 48)) then Inl GG_ERR_RANGE
      else str_to_int64_loop sign (ret * 10 + sign * (uint c - 48)) cs)"

definition gg_str_to_int64 :: "GgBuffer \<Rightarrow> int res" where
  "gg_str_to_int64 str =
     (let neg = (len str \<ge> 1 \<and> mem str ! 0 = chr CHR ''-'');
          i = (if neg then 1 else 0);
          sign = (if neg then - 1 else 1)
      in if i = len str then Inl GG_ERR_INVALID
         else str_to_int64_loop sign 0 (drop i (mem str)))"

section \<open>Writers and readers\<close>

text \<open>
  A writer is a function on the state its context points to, a reader one that fills a
  buffer of a given length: it returns the bytes read (at most that many). \<open>None\<close> is the
  NULL function pointer.
\<close>

type_synonym 's GgWriter = "('s \<Rightarrow> byte list \<Rightarrow> GgError \<times> 's) option"
type_synonym 's GgReader = "('s \<Rightarrow> nat \<Rightarrow> byte list res \<times> 's) option"

fun gg_writer_call :: "'s GgWriter \<Rightarrow> 's \<Rightarrow> byte list \<Rightarrow> GgError \<times> 's" where
  "gg_writer_call None s buf = ((if length buf = 0 then GG_ERR_OK else GG_ERR_FAILURE), s)"
| "gg_writer_call (Some write) s buf = write s buf"

definition write_then :: "'s GgWriter \<Rightarrow> 's \<Rightarrow> byte list \<Rightarrow> ('s \<Rightarrow> GgError \<times> 's) \<Rightarrow> GgError \<times> 's" where
  \<comment> \<open>a call of the writer that returns on an error\<close>
  "write_then out s bs next =
     (case gg_writer_call out s bs of (ret, s') \<Rightarrow> if ret \<noteq> GG_ERR_OK then (ret, s') else next s')"

fun gg_reader_call :: "'s GgReader \<Rightarrow> 's \<Rightarrow> nat \<Rightarrow> byte list res \<times> 's" where
  "gg_reader_call None s n = (Inr [], s)"
| "gg_reader_call (Some read) s n = read s n"

definition gg_reader_call_exact :: "'s GgReader \<Rightarrow> 's \<Rightarrow> nat \<Rightarrow> byte list res \<times> 's" where
  "gg_reader_call_exact reader s n =
     (case gg_reader_call reader s n of
        (Inl e, s') \<Rightarrow> (Inl e, s')
      | (Inr bs, s') \<Rightarrow> (if length bs = n then Inr bs else Inl GG_ERR_FAILURE, s'))"

definition gg_buf_copy :: "GgBuffer \<Rightarrow> GgBuffer \<Rightarrow> GgError \<times> GgBuffer" where
  "gg_buf_copy source target =
     (if len source = 0 then (GG_ERR_OK, target\<lparr>mem := []\<rparr>)
      else if len target < len source then (GG_ERR_NOMEM, target)
      else (GG_ERR_OK, target\<lparr>mem := mem source\<rparr>))"

record buf_cursor =
  block :: "byte list"
  pos :: nat

definition cursor_buf :: "buf_cursor \<Rightarrow> GgBuffer" where
  \<comment> \<open>the buffer that the context of a buffer writer points to, addresses relative to the block\<close>
  "cursor_buf c = \<lparr>data = pos c, mem = drop (pos c) (block c)\<rparr>"

definition buf_write :: "buf_cursor \<Rightarrow> byte list \<Rightarrow> GgError \<times> buf_cursor" where
  "buf_write c buf =
     (case gg_buf_copy \<lparr>data = 0, mem = buf\<rparr> (cursor_buf c) of (ret, target_copy) \<Rightarrow>
        if ret \<noteq> GG_ERR_OK then (ret, c)
        else (GG_ERR_OK,
              c\<lparr>block := mem_write (block c) (pos c) (mem target_copy),
                pos := data (gg_buffer_rest (cursor_buf c) (length buf))\<rparr>))"

definition gg_buf_writer :: "buf_cursor GgWriter" where
  "gg_buf_writer = Some buf_write"

section \<open>Lemmas: substrings\<close>

lemma mem_substr [simp]:
  "mem (gg_buffer_substr b s e) = take (e - s) (drop s (mem b))"
  by (auto simp: gg_buffer_substr_def Let_def)

lemma mem_rest [simp]: "mem (gg_buffer_rest b s) = drop s (mem b)"
  by (simp add: gg_buffer_rest_def)

lemma data_substr: "data (gg_buffer_substr b s e) = data b + min s (len b)"
  by (simp add: gg_buffer_substr_def Let_def min_def)

lemma data_rest: "data (gg_buffer_rest b s) = data b + min s (len b)"
  by (simp add: gg_buffer_rest_def data_substr)

lemma substr_SIZE_MAX: "len b \<le> SIZE_MAX \<Longrightarrow> gg_buffer_substr b s SIZE_MAX = gg_buffer_rest b s"
  by (auto simp: gg_buffer_rest_def gg_buffer_substr_def Let_def)

lemma gg_buffer_eq_iff [simp]: "gg_buffer_eq a b \<longleftrightarrow> mem a = mem b"
  by (auto simp: gg_buffer_eq_def)

lemma has_prefix_iff: "gg_buffer_has_prefix b p \<longleftrightarrow> (\<exists>t. mem b = mem p @ t)"
  by (auto simp: gg_buffer_has_prefix_def)
     (metis append_take_drop_id)

lemma has_suffix_iff: "gg_buffer_has_suffix b s \<longleftrightarrow> (\<exists>t. mem b = t @ mem s)"
  by (auto simp: gg_buffer_has_suffix_def)
     (metis append_take_drop_id)

lemma cursor_buf_simps [simp]:
  "data (cursor_buf c) = pos c" "mem (cursor_buf c) = drop (pos c) (block c)"
  by (simp_all add: cursor_buf_def)

lemma buf_write_eq:
  assumes "pos c \<le> length (block c)"
  shows "buf_write c bs =
     (if pos c + length bs \<le> length (block c)
      then (GG_ERR_OK, c\<lparr>block := mem_write (block c) (pos c) bs, pos := pos c + length bs\<rparr>)
      else (GG_ERR_NOMEM, c))"
  using assms by (auto simp: buf_write_def gg_buf_copy_def data_rest)

section \<open>Lemmas: search\<close>

lemma memmem_Nil: "memmem [] needle = (if needle = [] then Some 0 else None)"
  by (subst memmem.simps) auto

lemma memmem_Cons:
  "memmem (a # hay) needle =
     (if take (length needle) (a # hay) = needle then Some 0 else map_option Suc (memmem hay needle))"
  by (subst memmem.simps) simp

declare memmem.simps [simp del]

lemma memmem_Some_iff:
  "memmem hay needle = Some i \<longleftrightarrow>
     i \<le> length hay \<and> take (length needle) (drop i hay) = needle \<and>
     (\<forall>j < i. take (length needle) (drop j hay) \<noteq> needle)"
proof (induction hay arbitrary: i)
  case Nil
  then show ?case by (auto simp: memmem_Nil)
next
  case (Cons a hay)
  show ?case
  proof (cases "take (length needle) (a # hay) = needle")
    case True
    then show ?thesis by (cases i) (auto simp: memmem_Cons)
  next
    case False
    then show ?thesis
      by (cases i) (auto simp: memmem_Cons Cons.IH less_Suc_eq_0_disj)
  qed
qed

lemma memmem_None_iff:
  "memmem hay needle = None \<longleftrightarrow> (\<forall>j \<le> length hay. take (length needle) (drop j hay) \<noteq> needle)"
proof (induction hay)
  case Nil
  then show ?case by (auto simp: memmem_Nil)
next
  case (Cons a hay)
  have "(\<forall>j \<le> Suc n. P j) \<longleftrightarrow> P 0 \<and> (\<forall>j \<le> n. P (Suc j))" for n and P :: "nat \<Rightarrow> bool"
    by (metis Suc_le_mono not0_implies_Suc zero_le)
  then show ?case by (simp add: memmem_Cons Cons.IH)
qed

section \<open>Lemmas: decimal integers\<close>

definition is_digit :: "byte \<Rightarrow> bool" where
  "is_digit c \<longleftrightarrow> 48 \<le> c \<and> c \<le> 57"

definition int64_range :: "int \<Rightarrow> bool" where
  "int64_range v \<longleftrightarrow> INT64_MIN \<le> v \<and> v \<le> INT64_MAX"

definition dec_value :: "byte list \<Rightarrow> int" where
  "dec_value ds = foldl (\<lambda>v c. v * 10 + (uint c - 48)) 0 ds"

definition int_literal :: "byte list \<Rightarrow> bool" where
  "int_literal bs = (let ds = (if bs \<noteq> [] \<and> hd bs = chr CHR ''-'' then tl bs else bs)
                     in ds \<noteq> [] \<and> list_all is_digit ds)"

definition int_value :: "byte list \<Rightarrow> int" where
  "int_value bs = (if bs \<noteq> [] \<and> hd bs = chr CHR ''-'' then - dec_value (tl bs) else dec_value bs)"

lemmas int64_consts = INT64_MAX_def INT64_MIN_def int64_range_def

lemma mult_overflow_10 [simp]:
  "mult_overflow_int64 a 10 \<longleftrightarrow> \<not> (- 922337203685477580 \<le> a \<and> a \<le> 922337203685477580)"
  by (auto simp: mult_overflow_int64_def int64_consts signed_divide_int_def)

lemma mult_overflow_10_range: "\<not> mult_overflow_int64 a 10 \<longleftrightarrow> int64_range (a * 10)"
  by (auto simp: int64_consts)

lemma add_overflow_range:
  "int64_range a \<Longrightarrow> int64_range b \<Longrightarrow> \<not> add_overflow_int64 a b \<longleftrightarrow> int64_range (a + b)"
  by (auto simp: add_overflow_int64_def int64_consts)

lemma digit_bounds: "is_digit c \<Longrightarrow> 0 \<le> uint c - 48 \<and> uint c - 48 \<le> 9"
  by (simp add: is_digit_def word_le_def)

lemma digit_guard: "c < chr CHR ''0'' \<or> c > chr CHR ''9'' \<longleftrightarrow> \<not> is_digit c"
  by (auto simp: is_digit_def not_le)

definition int_fold :: "int \<Rightarrow> int \<Rightarrow> byte list \<Rightarrow> int" where
  "int_fold sign a cs = foldl (\<lambda>v c. v * 10 + sign * (uint c - 48)) a cs"

lemma int_fold_simps [simp]:
  "int_fold sign a [] = a"
  "int_fold sign a (c # cs) = int_fold sign (a * 10 + sign * (uint c - 48)) cs"
  by (simp_all add: int_fold_def)

lemma int_fold_sign: "int_fold (- 1) (- a) cs = - int_fold 1 a cs"
proof (induction cs arbitrary: a)
  case (Cons c cs)
  have "- a * 10 + - 1 * (uint c - 48) = - (a * 10 + 1 * (uint c - 48))" by simp
  then show ?case by (simp only: int_fold_simps Cons.IH)
qed simp

lemma int_fold_mono:
  assumes "sign = 1 \<or> sign = - 1" "list_all is_digit cs" "0 \<le> sign * a"
  shows "sign * a \<le> sign * int_fold sign a cs"
  using assms
proof (induction cs arbitrary: a)
  case (Cons c cs)
  let ?a = "a * 10 + sign * (uint c - 48)"
  have d: "0 \<le> uint c - 48" using Cons.prems(2) digit_bounds by simp
  have "sign * ?a = sign * a * 10 + (uint c - 48)" using Cons.prems(1) by auto
  then have "sign * a \<le> sign * ?a" using Cons.prems(3) d by linarith
  moreover have "sign * ?a \<le> sign * int_fold sign ?a cs"
    using Cons.IH [of ?a] Cons.prems calculation by auto
  ultimately show ?case by simp
qed simp

lemma int_fold_range:
  assumes "sign = 1 \<or> sign = - 1" "list_all is_digit cs" "0 \<le> sign * a"
    and "int64_range (int_fold sign a cs)"
  shows "int64_range a"
  using int_fold_mono [OF assms(1-3)] assms(1,3,4) by (auto simp: int64_consts)

text \<open>Step by step the checks reject exactly the values that leave the range.\<close>

lemma str_to_int64_loop_digits:
  assumes "sign = 1 \<or> sign = - 1" "list_all is_digit cs" "0 \<le> sign * ret" "int64_range ret"
  shows "str_to_int64_loop sign ret cs =
     (if int64_range (int_fold sign ret cs) then Inr (int_fold sign ret cs) else Inl GG_ERR_RANGE)"
  using assms
proof (induction cs arbitrary: ret)
  case Nil
  then show ?case by simp
next
  case (Cons c cs)
  let ?d = "sign * (uint c - 48)"
  let ?r = "ret * 10 + ?d"
  have dig: "is_digit c" and digs: "list_all is_digit cs" using Cons.prems by auto
  have d: "0 \<le> uint c - 48" "uint c - 48 \<le> 9" using digit_bounds [OF dig] by auto
  have dr: "int64_range ?d" using d Cons.prems(1) by (auto simp: int64_consts)
  have s10: "0 \<le> sign * (ret * 10)" and sr: "0 \<le> sign * ?r"
    using Cons.prems(1,3) d by (auto simp: algebra_simps)
  show ?case
  proof (cases "int64_range ?r")
    case True
    then have "int64_range (ret * 10)" using s10 d Cons.prems(1) by (auto simp: int64_consts)
    then have "\<not> mult_overflow_int64 ret 10" "\<not> add_overflow_int64 (ret * 10) ?d"
      using True dr by (simp_all only: mult_overflow_10_range add_overflow_range not_not)
    then show ?thesis
      using Cons.IH [OF Cons.prems(1) digs sr True] dig by (simp only: str_to_int64_loop.simps
          digit_guard int_fold_simps if_False not_not not_True_eq_False)
  next
    case False
    then have "mult_overflow_int64 ret 10 \<or> add_overflow_int64 (ret * 10) ?d"
      using dr mult_overflow_10_range add_overflow_range by blast
    moreover have "\<not> int64_range (int_fold sign ?r cs)"
      using False int_fold_range [OF Cons.prems(1) digs sr] by blast
    ultimately show ?thesis using dig
      by (auto simp only: str_to_int64_loop.simps digit_guard int_fold_simps if_True if_False
          split: if_splits)
  qed
qed

lemma str_to_int64_loop_nondigit:
  "\<not> list_all is_digit cs \<Longrightarrow>
   str_to_int64_loop sign ret cs \<in> {Inl GG_ERR_INVALID, Inl GG_ERR_RANGE}"
  by (induction cs arbitrary: ret) (auto simp: digit_guard [simplified])

lemma int_fold_dec_value: "int_fold 1 0 ds = dec_value ds" "int_fold (- 1) 0 ds = - dec_value ds"
  using int_fold_sign [of 0 ds] by (simp_all add: int_fold_def dec_value_def)

lemma gg_str_to_int64_minus:
  "mem str = chr CHR ''-'' # ds \<Longrightarrow>
   gg_str_to_int64 str = (if ds = [] then Inl GG_ERR_INVALID else str_to_int64_loop (- 1) 0 ds)"
  by (auto simp: gg_str_to_int64_def Let_def)

lemma gg_str_to_int64_plain:
  assumes "mem str = [] \<or> hd (mem str) \<noteq> chr CHR ''-''"
  shows "gg_str_to_int64 str =
     (if mem str = [] then Inl GG_ERR_INVALID else str_to_int64_loop 1 0 (mem str))"
proof (cases "mem str")
  case (Cons c cs)
  then show ?thesis using assms
    by (simp add: gg_str_to_int64_def Let_def del: str_to_int64_loop.simps)
qed (simp add: gg_str_to_int64_def)

lemma gg_str_to_int64_literal:
  assumes "int_literal (mem str)"
  shows "gg_str_to_int64 str =
     (if int64_range (int_value (mem str)) then Inr (int_value (mem str)) else Inl GG_ERR_RANGE)"
proof -
  have r0: "int64_range 0" by (simp add: int64_consts)
  show ?thesis
  proof (cases "mem str \<noteq> [] \<and> hd (mem str) = chr CHR ''-''")
    case True
    then obtain ds where m: "mem str = chr CHR ''-'' # ds" by (cases "mem str") auto
    then have "list_all is_digit ds" "ds \<noteq> []" using assms by (auto simp: int_literal_def)
    then show ?thesis using m str_to_int64_loop_digits [of "- 1" ds 0] r0
      by (simp add: gg_str_to_int64_minus int_value_def int_fold_dec_value)
  next
    case False
    then have "list_all is_digit (mem str)" "mem str \<noteq> []"
      using assms by (auto simp: int_literal_def Let_def split: if_splits)
    then show ?thesis using False str_to_int64_loop_digits [of 1 "mem str" 0] r0
      by (simp add: gg_str_to_int64_plain int_value_def int_fold_dec_value)
  qed
qed

lemma gg_str_to_int64_not_literal:
  assumes "\<not> int_literal (mem str)"
  shows "gg_str_to_int64 str \<in> {Inl GG_ERR_INVALID, Inl GG_ERR_RANGE}"
proof (cases "mem str \<noteq> [] \<and> hd (mem str) = chr CHR ''-''")
  case True
  then obtain ds where m: "mem str = chr CHR ''-'' # ds" by (cases "mem str") auto
  then show ?thesis using assms str_to_int64_loop_nondigit [of ds "- 1" 0]
    by (auto simp: gg_str_to_int64_minus int_literal_def)
next
  case False
  then show ?thesis using assms str_to_int64_loop_nondigit [of "mem str" 1 0]
    by (auto simp: gg_str_to_int64_plain int_literal_def Let_def simp del: insert_iff)
qed

section \<open>Properties\<close>

text \<open>
  C37: \<open>gg_str_to_int64\<close> succeeds exactly on an optional minus sign followed by at least one
  decimal digit whose value fits in 64 signed bits, and then returns that value; a literal
  whose value does not fit is \<open>GG_ERR_RANGE\<close>, anything else \<open>GG_ERR_INVALID\<close> or
  \<open>GG_ERR_RANGE\<close>. (No intermediate value ever leaves the 64-bit range: the overflow
  checks decide exactly.)
\<close>

theorem gg_str_to_int64_correct:
  "(gg_str_to_int64 str = Inr v \<longleftrightarrow>
      int_literal (mem str) \<and> v = int_value (mem str) \<and> int64_range v) \<and>
   (int_literal (mem str) \<and> \<not> int64_range (int_value (mem str)) \<longrightarrow>
      gg_str_to_int64 str = Inl GG_ERR_RANGE) \<and>
   (\<not> int_literal (mem str) \<longrightarrow>
      gg_str_to_int64 str \<in> {Inl GG_ERR_INVALID, Inl GG_ERR_RANGE})"
  using gg_str_to_int64_literal [of str] gg_str_to_int64_not_literal [of str]
  by (cases "int_literal (mem str)") auto

theorem gg_str_to_int64_correct_witness:
  "gg_str_to_int64 (GG_STR ''-9223372036854775808'') = Inr (- 9223372036854775808) \<and>
   gg_str_to_int64 (GG_STR ''9223372036854775808'') = Inl GG_ERR_RANGE \<and>
   gg_str_to_int64 (GG_STR ''12a'') \<in> {Inl GG_ERR_INVALID, Inl GG_ERR_RANGE}"
  using gg_str_to_int64_correct [of "GG_STR ''-9223372036854775808''" "- 9223372036854775808"]
    gg_str_to_int64_correct [of "GG_STR ''9223372036854775808''" 0]
    gg_str_to_int64_correct [of "GG_STR ''12a''" 0]
  by (simp add: int_literal_def int_value_def dec_value_def is_digit_def int64_consts)

text \<open>
  \<open>gg_buffer_substr\<close> meets the contract \<open>buffer.h\<close> states for it: the result lies inside
  the input (its end does not pass the end of the input), starts at \<open>data + start\<close> when
  \<open>start\<close> is in range, and has length \<open>end - start\<close> when \<open>end\<close> is in range; its bytes are
  those of the overlap of the range with the input.
\<close>

theorem gg_buffer_substr_contract:
  assumes "start < end"
  shows "data buf \<le> data (gg_buffer_substr buf start end) \<and>
     data (gg_buffer_substr buf start end) + len (gg_buffer_substr buf start end) \<le> data buf + len buf \<and>
     (start \<le> len buf \<longrightarrow> data (gg_buffer_substr buf start end) = data buf + start) \<and>
     (end \<le> len buf \<longrightarrow> len (gg_buffer_substr buf start end) = end - start) \<and>
     mem (gg_buffer_substr buf start end) = drop start (take end (mem buf))"
  using assms by (auto simp: data_substr drop_take)

theorem gg_buffer_substr_contract_witness:
  "data (gg_buffer_substr (GG_STR ''hello'') 1 3) = 2 \<and>
   len (gg_buffer_substr (GG_STR ''hello'') 1 3) = 2 \<and>
   mem (gg_buffer_substr (GG_STR ''hello'') 1 9) = bytes_of ''ello''"
  using gg_buffer_substr_contract [of 1 3 "GG_STR ''hello''"]
    gg_buffer_substr_contract [of 1 9 "GG_STR ''hello''"]
  by (simp add: GG_STR_def)

end
