(* ===== verification/Object.thy ===== *)
theory Object
  imports Buffer
begin

text \<open>
  Generic objects (\<open>include/gg/types.h\<close>, \<open>include/gg/object.h\<close>, \<open>src/object.c\<close>,
  \<open>src/list.c\<close>) and key-value maps (\<open>include/gg/map.h\<close>, \<open>src/map.c\<close>).

  A \<open>GgObject\<close> is modelled as the tree it denotes: lists and maps carry the address of
  their array and the elements stored there. The byte layout of \<open>GgObject\<close> and \<open>GgKV\<close>
  is the subject of the theory \<open>Object_Layout\<close>. A pointer to a value of a map
  (\<open>GgObject **result\<close>) is the index of the pair in the map.

  Lemmas: the lookup functions against \<open>map_of\<close> and path lookup, and what a successful
  \<open>gg_map_validate\<close> guarantees for every schema entry.
\<close>

section \<open>Types\<close>

datatype GgObjectType =
    GG_TYPE_NULL
  | GG_TYPE_BOOLEAN
  | GG_TYPE_I64
  | GG_TYPE_F64
  | GG_TYPE_BUF
  | GG_TYPE_LIST
  | GG_TYPE_MAP

datatype GgObject =
    OBJ_NULL
  | OBJ_BOOLEAN bool
  | OBJ_I64 u64
  | OBJ_F64 f64
  | OBJ_BUF GgBuffer
  | OBJ_LIST ptr "GgObject list"
  | OBJ_MAP ptr "(GgBuffer \<times> GgObject) list"

type_synonym GgKV = "GgBuffer \<times> GgObject"
type_synonym GgList = "ptr \<times> GgObject list"
type_synonym GgMap = "ptr \<times> GgKV list"

definition UINT16_MAX :: nat where
  "UINT16_MAX = 65535"

definition GG_MAX_OBJECT_DEPTH :: nat where
  "GG_MAX_OBJECT_DEPTH = 15"

definition GG_MAX_OBJECT_SUBOBJECTS :: nat where
  "GG_MAX_OBJECT_SUBOBJECTS = 255"

section \<open>Objects\<close>

fun gg_obj_type :: "GgObject \<Rightarrow> GgObjectType" where
  "gg_obj_type OBJ_NULL = GG_TYPE_NULL"
| "gg_obj_type (OBJ_BOOLEAN _) = GG_TYPE_BOOLEAN"
| "gg_obj_type (OBJ_I64 _) = GG_TYPE_I64"
| "gg_obj_type (OBJ_F64 _) = GG_TYPE_F64"
| "gg_obj_type (OBJ_BUF _) = GG_TYPE_BUF"
| "gg_obj_type (OBJ_LIST _ _) = GG_TYPE_LIST"
| "gg_obj_type (OBJ_MAP _ _) = GG_TYPE_MAP"

text \<open>Constructors of sized values keep at most \<open>UINT16_MAX\<close> elements (\<open>length_err\<close>).\<close>

definition gg_obj_buf :: "GgBuffer \<Rightarrow> GgObject" where
  "gg_obj_buf value =
     OBJ_BUF (if len value > UINT16_MAX then value\<lparr>mem := take UINT16_MAX (mem value)\<rparr> else value)"

definition gg_obj_list :: "GgList \<Rightarrow> GgObject" where
  "gg_obj_list value =
     OBJ_LIST (fst value)
       (if length (snd value) > UINT16_MAX then take UINT16_MAX (snd value) else snd value)"

definition gg_obj_map :: "GgMap \<Rightarrow> GgObject" where
  "gg_obj_map value =
     OBJ_MAP (fst value)
       (if length (snd value) > UINT16_MAX then take UINT16_MAX (snd value) else snd value)"

definition gg_kv :: "GgBuffer \<Rightarrow> GgObject \<Rightarrow> GgKV" where
  "gg_kv key val =
     ((if len key > UINT16_MAX then key\<lparr>mem := take UINT16_MAX (mem key)\<rparr> else key), val)"

text \<open>
  The accessors have the tag as a precondition; every caller tests it first, so a model of
  a caller matches on the constructor. Where no test precedes, the total versions below
  return an empty value for other tags.
\<close>

fun gg_obj_into_buf :: "GgObject \<Rightarrow> GgBuffer" where
  "gg_obj_into_buf (OBJ_BUF b) = b"
| "gg_obj_into_buf _ = \<lparr>data = 0, mem = []\<rparr>"

fun gg_obj_into_list :: "GgObject \<Rightarrow> GgList" where
  "gg_obj_into_list (OBJ_LIST p xs) = (p, xs)"
| "gg_obj_into_list _ = (0, [])"

fun gg_obj_into_map :: "GgObject \<Rightarrow> GgMap" where
  "gg_obj_into_map (OBJ_MAP p kvs) = (p, kvs)"
| "gg_obj_into_map _ = (0, [])"

fun gg_list_type_check :: "GgObject list \<Rightarrow> GgObjectType \<Rightarrow> GgError" where
  "gg_list_type_check [] type = GG_ERR_OK"
| "gg_list_type_check (elem # rest) type =
     (if gg_obj_type elem \<noteq> type then GG_ERR_PARSE else gg_list_type_check rest type)"

section \<open>Maps\<close>

fun gg_map_get_from :: "nat \<Rightarrow> GgKV list \<Rightarrow> GgBuffer \<Rightarrow> nat option" where
  "gg_map_get_from i [] key = None"
| "gg_map_get_from i (pair # rest) key =
     (if gg_buffer_eq key (fst pair) then Some i else gg_map_get_from (Suc i) rest key)"

definition gg_map_get :: "GgKV list \<Rightarrow> GgBuffer \<Rightarrow> nat option" where
  \<comment> \<open>\<open>Some i\<close> for true with \<open>*result\<close> the value of pair \<open>i\<close>; \<open>None\<close> for false with \<open>*result = NULL\<close>\<close>
  "gg_map_get pairs key = gg_map_get_from 0 pairs key"

datatype path_result =
    Path_found "nat list"  \<comment> \<open>true; the indices of the pairs along the path\<close>
  | Path_null              \<comment> \<open>false, \<open>*result\<close> set to NULL\<close>
  | Path_untouched         \<comment> \<open>false, \<open>*result\<close> not written\<close>

fun path_cons :: "nat \<Rightarrow> path_result \<Rightarrow> path_result" where
  "path_cons i (Path_found is) = Path_found (i # is)"
| "path_cons i r = r"

fun gg_map_get_path :: "GgKV list \<Rightarrow> GgBuffer list \<Rightarrow> path_result" where
  "gg_map_get_path current [] = Path_untouched" \<comment> \<open>excluded by the assertion \<open>path.len >= 1\<close>\<close>
| "gg_map_get_path current [key] =
     (case gg_map_get current key of Some i \<Rightarrow> Path_found [i] | None \<Rightarrow> Path_null)"
| "gg_map_get_path current (key # path) =
     (case gg_map_get current key of
        None \<Rightarrow> Path_untouched
      | Some i \<Rightarrow>
          (case snd (current ! i) of
             OBJ_MAP _ inner \<Rightarrow> path_cons i (gg_map_get_path inner path)
           | _ \<Rightarrow> Path_untouched))"

datatype GgPresence = GG_REQUIRED | GG_OPTIONAL | GG_MISSING

record GgMapSchemaEntry =
  sch_key :: GgBuffer
  sch_required :: GgPresence
  sch_type :: GgObjectType

fun gg_map_validate :: "GgKV list \<Rightarrow> GgMapSchemaEntry list \<Rightarrow> GgError \<times> nat option list" where
  \<comment> \<open>the second component lists the values written to \<open>*entry->value\<close>, in schema order, up
     to the entry that failed\<close>
  "gg_map_validate pairs [] = (GG_ERR_OK, [])"
| "gg_map_validate pairs (entry # entries) =
     (case gg_map_get pairs (sch_key entry) of
        None \<Rightarrow>
          (if sch_required entry = GG_REQUIRED then (GG_ERR_NOENTRY, [])
           else (case gg_map_validate pairs entries of (e, vs) \<Rightarrow> (e, None # vs)))
      | Some i \<Rightarrow>
          (if sch_required entry = GG_MISSING then (GG_ERR_PARSE, [])
           else if sch_type entry \<noteq> GG_TYPE_NULL \<and> sch_type entry \<noteq> gg_obj_type (snd (pairs ! i))
           then (GG_ERR_PARSE, [])
           else (case gg_map_validate pairs entries of (e, vs) \<Rightarrow> (e, Some i # vs))))"

section \<open>Lemmas: lookup\<close>

abbreviation keys :: "GgKV list \<Rightarrow> byte list list" where
  "keys pairs \<equiv> map (\<lambda>kv. mem (fst kv)) pairs"

text \<open>The map a list of pairs denotes: the first pair with a key wins.\<close>

definition map_val :: "GgKV list \<Rightarrow> byte list \<Rightarrow> GgObject option" where
  "map_val pairs = map_of (map (\<lambda>kv. (mem (fst kv), snd kv)) pairs)"

lemma map_val_simps [simp]:
  "map_val [] k = None"
  "map_val (kv # pairs) k = (if k = mem (fst kv) then Some (snd kv) else map_val pairs k)"
  by (simp_all add: map_val_def)

lemma gg_map_get_from_shift:
  "gg_map_get_from (Suc n) pairs key = map_option Suc (gg_map_get_from n pairs key)"
  by (induction pairs arbitrary: n) auto

lemma gg_map_get_Nil [simp]: "gg_map_get [] key = None"
  by (simp add: gg_map_get_def)

lemma gg_map_get_Cons [simp]:
  "gg_map_get (kv # pairs) key =
     (if mem key = mem (fst kv) then Some 0 else map_option Suc (gg_map_get pairs key))"
  by (simp add: gg_map_get_def gg_map_get_from_shift)

lemma gg_map_get_Some_iff:
  "gg_map_get pairs key = Some i \<longleftrightarrow>
     i < length pairs \<and> mem (fst (pairs ! i)) = mem key \<and>
     (\<forall>j < i. mem (fst (pairs ! j)) \<noteq> mem key)"
proof (induction pairs arbitrary: i)
  case Nil
  then show ?case by auto
next
  case (Cons kv pairs)
  then show ?case by (cases i) (auto simp: less_Suc_eq_0_disj)
qed

lemma gg_map_get_None_iff: "gg_map_get pairs key = None \<longleftrightarrow> mem key \<notin> set (keys pairs)"
  by (induction pairs) auto

lemma gg_map_get_val:
  "map_option (\<lambda>i. snd (pairs ! i)) (gg_map_get pairs key) = map_val pairs (mem key)"
proof (induction pairs)
  case (Cons kv pairs)
  have "map_option (\<lambda>i. snd ((kv # pairs) ! i)) (map_option Suc (gg_map_get pairs key)) =
        map_option (\<lambda>i. snd (pairs ! i)) (gg_map_get pairs key)"
    by (simp add: option.map_comp comp_def)
  with Cons.IH show ?case by simp
qed simp

lemma map_val_None_iff: "map_val pairs k = None \<longleftrightarrow> k \<notin> set (keys pairs)"
  by (induction pairs) auto

text \<open>Path lookup over the denoted nested maps.\<close>

fun val_path :: "GgKV list \<Rightarrow> byte list list \<Rightarrow> GgObject option" where
  "val_path pairs [] = None"
| "val_path pairs [k] = map_val pairs k"
| "val_path pairs (k # ks) =
     (case map_val pairs k of Some (OBJ_MAP _ inner) \<Rightarrow> val_path inner ks | _ \<Rightarrow> None)"

fun path_val :: "GgKV list \<Rightarrow> nat list \<Rightarrow> GgObject option" where
  "path_val pairs [] = None"
| "path_val pairs [i] = (if i < length pairs then Some (snd (pairs ! i)) else None)"
| "path_val pairs (i # is) =
     (if i < length pairs
      then case snd (pairs ! i) of OBJ_MAP _ inner \<Rightarrow> path_val inner is | _ \<Rightarrow> None
      else None)"

definition path_result_val :: "GgKV list \<Rightarrow> path_result \<Rightarrow> GgObject option" where
  "path_result_val pairs r = (case r of Path_found is \<Rightarrow> path_val pairs is | _ \<Rightarrow> None)"

lemma gg_map_get_path_nonempty:
  "gg_map_get_path pairs path = Path_found is \<Longrightarrow> is \<noteq> []"
proof (induction pairs path arbitrary: "is" rule: gg_map_get_path.induct)
  case (3 current key k path)
  then show ?case
    by (auto split: option.splits GgObject.splits elim!: path_cons.elims)
qed (auto split: option.splits)

lemma path_result_val_cons:
  assumes "i < length current" "snd (current ! i) = OBJ_MAP p inner"
    and "\<And>is. r = Path_found is \<Longrightarrow> is \<noteq> []"
  shows "path_result_val current (path_cons i r) = path_result_val inner r"
proof (cases r)
  case (Path_found "is")
  with assms show ?thesis by (cases "is") (auto simp: path_result_val_def)
qed (simp_all add: path_result_val_def)

lemma gg_map_get_path_val:
  "path_result_val pairs (gg_map_get_path pairs path) = val_path pairs (map mem path)"
proof (induction pairs path rule: gg_map_get_path.induct)
  case (1 current)
  then show ?case by (simp add: path_result_val_def)
next
  case (2 current key)
  show ?case
    using gg_map_get_val [of current key] gg_map_get_Some_iff [of current key]
    by (cases "gg_map_get current key") (auto simp: path_result_val_def)
next
  case (3 current key k path)
  show ?case
  proof (cases "gg_map_get current key")
    case None
    then show ?thesis using gg_map_get_val [of current key]
      by (simp add: path_result_val_def)
  next
    case (Some i)
    then have v: "map_val current (mem key) = Some (snd (current ! i))"
      using gg_map_get_val [of current key] by simp
    have i: "i < length current" using Some by (simp add: gg_map_get_Some_iff)
    show ?thesis
    proof (cases "snd (current ! i)")
      case (OBJ_MAP p inner)
      then show ?thesis
        using Some v 3 [OF Some OBJ_MAP] gg_map_get_path_nonempty [of inner "k # path"]
        by (simp add: path_result_val_cons [OF i OBJ_MAP])
    qed (use Some v in \<open>simp_all add: path_result_val_def\<close>)
  qed
qed

section \<open>Lemmas: schema validation\<close>

text \<open>What one schema entry demands of a map, given the value the entry received.\<close>

definition entry_ok :: "GgKV list \<Rightarrow> GgMapSchemaEntry \<Rightarrow> nat option \<Rightarrow> bool" where
  "entry_ok pairs entry v =
     (v = gg_map_get pairs (sch_key entry) \<and>
      (case v of
         None \<Rightarrow> sch_required entry \<noteq> GG_REQUIRED
       | Some i \<Rightarrow> sch_required entry \<noteq> GG_MISSING \<and>
           (sch_type entry = GG_TYPE_NULL \<or> gg_obj_type (snd (pairs ! i)) = sch_type entry)))"

lemma gg_map_validate_Cons_ok:
  "gg_map_validate pairs (entry # schema) = (GG_ERR_OK, ws) \<longleftrightarrow>
     (\<exists>v vs. ws = v # vs \<and> entry_ok pairs entry v \<and> gg_map_validate pairs schema = (GG_ERR_OK, vs))"
proof (cases "gg_map_get pairs (sch_key entry)")
  case None
  then show ?thesis
    by (cases "gg_map_validate pairs schema") (auto simp: entry_ok_def)
next
  case (Some i)
  then show ?thesis
    by (cases "gg_map_validate pairs schema") (auto simp: entry_ok_def)
qed

lemma gg_map_validate_ok_iff:
  "gg_map_validate pairs schema = (GG_ERR_OK, vs) \<longleftrightarrow> list_all2 (entry_ok pairs) schema vs"
proof (induction schema arbitrary: vs)
  case (Cons entry schema)
  show ?case unfolding gg_map_validate_Cons_ok by (cases vs) (auto simp: Cons.IH)
qed auto

lemma gg_map_validate_error:
  "fst (gg_map_validate pairs schema) \<in> {GG_ERR_OK, GG_ERR_NOENTRY, GG_ERR_PARSE}"
  by (induction schema) (auto split: option.splits prod.splits)

section \<open>Properties\<close>

text \<open>
  \<open>gg_map_validate\<close> returns \<open>GG_ERR_OK\<close> exactly when every schema entry is met: the value
  stored for it is the one \<open>gg_map_get\<close> finds (NULL when absent), a required key is present,
  a key declared missing is absent, and a present key has the declared type unless the
  entry's type is \<open>GG_TYPE_NULL\<close>. The only other results are \<open>GG_ERR_NOENTRY\<close> and
  \<open>GG_ERR_PARSE\<close>.
\<close>

theorem gg_map_validate_correct:
  "(gg_map_validate pairs schema = (GG_ERR_OK, vs) \<longleftrightarrow> list_all2 (entry_ok pairs) schema vs) \<and>
   fst (gg_map_validate pairs schema) \<in> {GG_ERR_OK, GG_ERR_NOENTRY, GG_ERR_PARSE}"
  by (simp only: gg_map_validate_ok_iff gg_map_validate_error simp_thms)

text \<open>
  Path lookup agrees with nested lookup in the denoted maps: \<open>gg_map_get_path\<close> finds a
  value exactly when each key but the last leads to a map and the last key is in the
  innermost one, and it is the value of the first pair with that key at each level.
\<close>

theorem gg_map_get_path_correct:
  "path_result_val pairs (gg_map_get_path pairs path) = val_path pairs (map mem path)"
  by (rule gg_map_get_path_val)

text \<open>
  a lookup that fails before the last key of the path leaves \<open>*result\<close> unwritten, although
  \<open>map.h\<close> says that it is set to the found value or NULL.
\<close>

theorem gg_map_get_path_result_unwritten:
  "gg_map_get_path [] (key # k # path) = Path_untouched \<and>
   gg_map_get_path [(key, OBJ_NULL)] (key # k # path) = Path_untouched \<and>
   gg_map_get_path [] [key] = Path_null"
  by simp

end
