(* ===== verification/Vector.thy ===== *)
theory Vector
  imports Object
begin

text \<open>
  Bounded vectors over caller-supplied arrays (\<open>priv_include/gg/vector.h\<close>, \<open>src/vector.c\<close>).

  A vector is the array it is laid over, the number of elements in use and the capacity. The
  four vector types of the code differ in their element type only, so they are instances of
  one polymorphic record; the operations are written out per type, as in the code.

  The locale \<open>bounded_append\<close> states the contract of an operation that appends elements to a
  vector (all of them or none) and proves what a chain of such operations does; every push
  and append operation of the component interprets it.
\<close>

section \<open>Vectors\<close>

record 'a vec =
  vec_addr :: ptr
  vec_array :: "'a list"
  vec_len :: nat
  vec_capacity :: nat

type_synonym GgObjVec = "GgObject vec"
type_synonym GgKVVec = "GgKV vec"
type_synonym GgByteVec = "byte vec"
type_synonym GgBufVec = "GgBuffer vec"

definition size_minus :: "nat \<Rightarrow> nat \<Rightarrow> nat" where
  \<comment> \<open>subtraction of \<open>size_t\<close> values\<close>
  "size_minus a b = (a + 2 ^ 64 - b) mod 2 ^ 64"

definition array_write :: "'a list \<Rightarrow> nat \<Rightarrow> 'a list \<Rightarrow> 'a list" where
  \<comment> \<open>\<open>memcpy\<close> of elements into an array\<close>
  "array_write xs i ys = take i xs @ ys @ drop (i + length ys) xs"

definition vec_put :: "'a vec \<Rightarrow> 'a list \<Rightarrow> 'a vec" where
  "vec_put v ys = v\<lparr>vec_array := array_write (vec_array v) (vec_len v) ys, vec_len := vec_len v + length ys\<rparr>"

section \<open>Operations\<close>

definition gg_obj_vec_push :: "GgObjVec \<Rightarrow> GgObject \<Rightarrow> GgError \<times> GgObjVec" where
  "gg_obj_vec_push v obj =
     (if vec_len v \<ge> vec_capacity v then (GG_ERR_NOMEM, v)
      else (GG_ERR_OK, v\<lparr>vec_array := (vec_array v)[vec_len v := obj], vec_len := vec_len v + 1\<rparr>))"

definition gg_obj_vec_chain_push :: "GgError \<Rightarrow> GgObjVec \<Rightarrow> GgObject \<Rightarrow> GgError \<times> GgObjVec" where
  "gg_obj_vec_chain_push err v obj = (if err = GG_ERR_OK then gg_obj_vec_push v obj else (err, v))"

definition gg_obj_vec_pop :: "GgObjVec \<Rightarrow> GgError \<times> GgObjVec \<times> GgObject option" where
  \<comment> \<open>the last component is what is written through \<open>out\<close>, if it is not NULL\<close>
  "gg_obj_vec_pop v =
     (if vec_len v = 0 then (GG_ERR_RANGE, v, None)
      else (GG_ERR_OK, v\<lparr>vec_len := vec_len v - 1\<rparr>, Some (vec_array v ! (vec_len v - 1))))"

definition gg_obj_vec_append :: "GgObjVec \<Rightarrow> GgList \<Rightarrow> GgError \<times> GgObjVec" where
  "gg_obj_vec_append v lst =
     (if size_minus (vec_capacity v) (vec_len v) < length (snd lst) then (GG_ERR_NOMEM, v)
      else (GG_ERR_OK,
            v\<lparr>vec_array := (if length (snd lst) > 0 then array_write (vec_array v) (vec_len v) (snd lst) else vec_array v),
              vec_len := vec_len v + length (snd lst)\<rparr>))"

definition gg_obj_vec_chain_append :: "GgError \<Rightarrow> GgObjVec \<Rightarrow> GgList \<Rightarrow> GgError \<times> GgObjVec" where
  "gg_obj_vec_chain_append err v lst = (if err = GG_ERR_OK then gg_obj_vec_append v lst else (err, v))"

definition gg_kv_vec_push :: "GgKVVec \<Rightarrow> GgKV \<Rightarrow> GgError \<times> GgKVVec" where
  "gg_kv_vec_push v kv =
     (if vec_len v \<ge> vec_capacity v then (GG_ERR_NOMEM, v)
      else (GG_ERR_OK, v\<lparr>vec_array := (vec_array v)[vec_len v := kv], vec_len := vec_len v + 1\<rparr>))"

definition gg_byte_vec_init :: "GgBuffer \<Rightarrow> GgByteVec" where
  "gg_byte_vec_init buf = \<lparr>vec_addr = data buf, vec_array = mem buf, vec_len = 0, vec_capacity = len buf\<rparr>"

definition gg_byte_vec_push :: "GgByteVec \<Rightarrow> byte \<Rightarrow> GgError \<times> GgByteVec" where
  "gg_byte_vec_push v b =
     (if vec_len v \<ge> vec_capacity v then (GG_ERR_NOMEM, v)
      else (GG_ERR_OK, v\<lparr>vec_array := (vec_array v)[vec_len v := b], vec_len := vec_len v + 1\<rparr>))"

definition gg_byte_vec_chain_push :: "GgError \<Rightarrow> GgByteVec \<Rightarrow> byte \<Rightarrow> GgError \<times> GgByteVec" where
  "gg_byte_vec_chain_push err v b = (if err = GG_ERR_OK then gg_byte_vec_push v b else (err, v))"

definition gg_byte_vec_append :: "GgByteVec \<Rightarrow> byte list \<Rightarrow> GgError \<times> GgByteVec" where
  "gg_byte_vec_append v bs =
     (if size_minus (vec_capacity v) (vec_len v) < length bs then (GG_ERR_NOMEM, v)
      else (GG_ERR_OK,
            v\<lparr>vec_array := (if length bs > 0 then array_write (vec_array v) (vec_len v) bs else vec_array v),
              vec_len := vec_len v + length bs\<rparr>))"

definition gg_byte_vec_chain_append :: "GgError \<Rightarrow> GgByteVec \<Rightarrow> byte list \<Rightarrow> GgError \<times> GgByteVec" where
  "gg_byte_vec_chain_append err v bs = (if err = GG_ERR_OK then gg_byte_vec_append v bs else (err, v))"

definition gg_byte_vec_remaining_capacity :: "GgByteVec \<Rightarrow> GgBuffer" where
  "gg_byte_vec_remaining_capacity v =
     \<lparr>data = vec_addr v + vec_len v,
      mem = take (size_minus (vec_capacity v) (vec_len v)) (drop (vec_len v) (vec_array v))\<rparr>"

definition byte_vec_write :: "GgByteVec \<Rightarrow> byte list \<Rightarrow> GgError \<times> GgByteVec" where
  "byte_vec_write target buf = gg_byte_vec_append target buf"

definition gg_byte_vec_writer :: "GgByteVec GgWriter" where
  "gg_byte_vec_writer = Some byte_vec_write"

definition vec_buf :: "GgByteVec \<Rightarrow> GgBuffer" where
  \<comment> \<open>the field \<open>buf\<close> of a byte vector\<close>
  "vec_buf v = \<lparr>data = vec_addr v, mem = take (vec_len v) (vec_array v)\<rparr>"

definition gg_buf_vec_push :: "GgBufVec \<Rightarrow> GgBuffer \<Rightarrow> GgError \<times> GgBufVec" where
  "gg_buf_vec_push v buf =
     (if vec_len v \<ge> vec_capacity v then (GG_ERR_NOMEM, v)
      else (GG_ERR_OK, v\<lparr>vec_array := (vec_array v)[vec_len v := buf], vec_len := vec_len v + 1\<rparr>))"

definition gg_buf_vec_chain_push :: "GgError \<Rightarrow> GgBufVec \<Rightarrow> GgBuffer \<Rightarrow> GgError \<times> GgBufVec" where
  "gg_buf_vec_chain_push err v buf = (if err = GG_ERR_OK then gg_buf_vec_push v buf else (err, v))"

fun gg_buf_vec_append_list :: "GgBufVec \<Rightarrow> GgObject list \<Rightarrow> GgError \<times> GgBufVec" where
  "gg_buf_vec_append_list v [] = (GG_ERR_OK, v)"
| "gg_buf_vec_append_list v (item # items) =
     (if gg_obj_type item \<noteq> GG_TYPE_BUF then (GG_ERR_INVALID, v)
      else (case gg_buf_vec_push v (gg_obj_into_buf item) of (ret, v') \<Rightarrow>
              if ret \<noteq> GG_ERR_OK then (ret, v') else gg_buf_vec_append_list v' items))"

definition gg_buf_vec_chain_append_list :: "GgError \<Rightarrow> GgBufVec \<Rightarrow> GgObject list \<Rightarrow> GgError \<times> GgBufVec" where
  "gg_buf_vec_chain_append_list err v items =
     (if err = GG_ERR_OK then gg_buf_vec_append_list v items else (err, v))"

section \<open>Invariant and contents\<close>

definition vec_inv :: "'a vec \<Rightarrow> bool" where
  "vec_inv v \<longleftrightarrow> vec_len v \<le> vec_capacity v \<and> vec_capacity v \<le> length (vec_array v) \<and> vec_capacity v < 2 ^ 64"

definition vec_contents :: "'a vec \<Rightarrow> 'a list" where
  "vec_contents v = take (vec_len v) (vec_array v)"

lemma size_minus_le: "b \<le> a \<Longrightarrow> a < 2 ^ 64 \<Longrightarrow> size_minus a b = a - b"
proof -
  assume *: "b \<le> a" "a < 2 ^ 64"
  then have "a + 2 ^ 64 - b = (a - b) + 2 ^ 64" by simp
  then show ?thesis using * unfolding size_minus_def by (simp only: mod_add_self2) simp
qed

lemma array_write_Nil [simp]: "array_write xs i [] = xs"
  by (simp add: array_write_def)

lemma array_write_single: "i < length xs \<Longrightarrow> xs[i := y] = array_write xs i [y]"
  by (simp add: array_write_def upd_conv_take_nth_drop)

lemma vec_put_simps [simp]:
  "vec_len (vec_put v ys) = vec_len v + length ys"
  "vec_capacity (vec_put v ys) = vec_capacity v"
  "vec_addr (vec_put v ys) = vec_addr v"
  by (simp_all add: vec_put_def)

lemma vec_put_Nil [simp]: "vec_put v [] = v"
  by (simp add: vec_put_def)

lemma vec_inv_put: "vec_inv v \<Longrightarrow> vec_len v + length ys \<le> vec_capacity v \<Longrightarrow> vec_inv (vec_put v ys)"
  by (auto simp: vec_inv_def vec_put_def array_write_def)

lemma vec_contents_put: "vec_inv v \<Longrightarrow> vec_contents (vec_put v ys) = vec_contents v @ ys"
  by (simp add: vec_inv_def vec_put_def vec_contents_def array_write_def)

lemma vec_put_put: "vec_inv v \<Longrightarrow> vec_put (vec_put v xs) ys = vec_put v (xs @ ys)"
  by (simp add: vec_inv_def vec_put_def array_write_def add_ac)

lemma drop_put:
  "vec_inv v \<Longrightarrow> vec_len v + length ys \<le> vec_capacity v \<Longrightarrow>
   drop (vec_len v + length ys) (vec_array (vec_put v ys)) = drop (vec_len v + length ys) (vec_array v)"
  by (simp add: vec_inv_def vec_put_def array_write_def)

section \<open>The contract of an appending operation\<close>

locale bounded_append =
  fixes app :: "'a vec \<Rightarrow> 'b \<Rightarrow> GgError \<times> 'a vec" and elems :: "'b \<Rightarrow> 'a list"
  assumes app_ok: "vec_inv v \<Longrightarrow> vec_len v + length (elems x) \<le> vec_capacity v \<Longrightarrow>
      app v x = (GG_ERR_OK, vec_put v (elems x))"
    and app_full: "vec_inv v \<Longrightarrow> vec_len v + length (elems x) > vec_capacity v \<Longrightarrow> app v x = (GG_ERR_NOMEM, v)"
begin

lemma app_inv: "vec_inv v \<Longrightarrow> vec_inv (snd (app v x))"
  by (cases "vec_len v + length (elems x) \<le> vec_capacity v") (simp_all add: app_ok app_full vec_inv_put)

text \<open>The prefix of the operands that fits.\<close>

fun fitting :: "nat \<Rightarrow> 'b list \<Rightarrow> 'b list" where
  "fitting n [] = []"
| "fitting n (x # xs) = (if length (elems x) \<le> n then x # fitting (n - length (elems x)) xs else [])"

lemma fitting_all: "length (concat (map elems xs)) \<le> n \<Longrightarrow> fitting n xs = xs"
  by (induction xs arbitrary: n) auto

lemma fitting_length: "length (concat (map elems (fitting n xs))) \<le> n"
proof (induction xs arbitrary: n)
  case (Cons x xs)
  from Cons [of "n - length (elems x)"] show ?case by (cases "length (elems x) \<le> n") simp_all
qed simp

lemma fitting_cases:
  "fitting n xs = xs \<or>
   (\<exists>k < length xs. fitting n xs = take k xs \<and> n < length (concat (map elems (take k xs))) + length (elems (xs ! k)))"
proof (induction xs arbitrary: n)
  case (Cons x xs)
  show ?case
  proof (cases "length (elems x) \<le> n")
    case True
    from Cons [of "n - length (elems x)"] show ?thesis
    proof (elim disjE exE conjE)
      fix k assume "k < length xs" "fitting (n - length (elems x)) xs = take k xs"
        "n - length (elems x) < length (concat (map elems (take k xs))) + length (elems (xs ! k))"
      then show ?thesis using True by (intro disjI2 exI [of _ "Suc k"]) auto
    qed (use True in simp)
  qed (intro disjI2 exI [of _ 0], auto)
qed simp

lemma fitting_eq_iff: "fitting n xs = xs \<longleftrightarrow> length (concat (map elems xs)) \<le> n"
  using fitting_all fitting_length by metis

fun chain :: "GgError \<Rightarrow> 'a vec \<Rightarrow> 'b list \<Rightarrow> GgError \<times> 'a vec" where
  "chain err v [] = (err, v)"
| "chain err v (x # xs) = (case (if err = GG_ERR_OK then app v x else (err, v)) of (err', v') \<Rightarrow> chain err' v' xs)"

lemma chain_error: "err \<noteq> GG_ERR_OK \<Longrightarrow> chain err v xs = (err, v)"
  by (induction xs) auto

lemma chain_spec:
  "vec_inv v \<Longrightarrow> chain GG_ERR_OK v xs =
    (let ys = fitting (vec_capacity v - vec_len v) xs
     in ((if ys = xs then GG_ERR_OK else GG_ERR_NOMEM), vec_put v (concat (map elems ys))))"
proof (induction xs arbitrary: v)
  case (Cons x xs)
  show ?case
  proof (cases "vec_len v + length (elems x) \<le> vec_capacity v")
    case True
    have "vec_capacity v - (vec_len v + length (elems x)) = vec_capacity v - vec_len v - length (elems x)" by simp
    then show ?thesis
      using True Cons.IH [OF vec_inv_put [OF Cons.prems True]] Cons.prems
      by (auto simp: app_ok vec_put_put Let_def)
  next
    case False
    moreover from this Cons.prems have "\<not> length (elems x) \<le> vec_capacity v - vec_len v"
      by (auto simp: vec_inv_def)
    ultimately show ?thesis using Cons.prems by (simp add: app_full chain_error Let_def)
  qed
qed simp

end

lemmas push_defs = gg_obj_vec_push_def gg_kv_vec_push_def gg_byte_vec_push_def gg_buf_vec_push_def
lemmas append_defs = gg_obj_vec_append_def gg_byte_vec_append_def

lemma push_eq_put:
  "vec_inv v \<Longrightarrow> vec_len v < vec_capacity v \<Longrightarrow>
   v\<lparr>vec_array := (vec_array v)[vec_len v := x], vec_len := Suc (vec_len v)\<rparr> = vec_put v [x]"
  by (simp add: vec_inv_def vec_put_def array_write_single)

interpretation obj_push: bounded_append gg_obj_vec_push "\<lambda>x. [x]"
  by unfold_locales (auto simp: push_defs push_eq_put)

interpretation kv_push: bounded_append gg_kv_vec_push "\<lambda>x. [x]"
  by unfold_locales (auto simp: push_defs push_eq_put)

interpretation byte_push: bounded_append gg_byte_vec_push "\<lambda>x. [x]"
  by unfold_locales (auto simp: push_defs push_eq_put)

interpretation buf_push: bounded_append gg_buf_vec_push "\<lambda>x. [x]"
  by unfold_locales (auto simp: push_defs push_eq_put)

interpretation obj_append: bounded_append gg_obj_vec_append snd
  by unfold_locales (auto simp: append_defs size_minus_le vec_inv_def vec_put_def)

interpretation byte_append: bounded_append gg_byte_vec_append "\<lambda>bs. bs"
  by unfold_locales (auto simp: append_defs size_minus_le vec_inv_def vec_put_def)

section \<open>Properties\<close>

lemma fold_byte_chain:
  "fold (\<lambda>bs (err, v). gg_byte_vec_chain_append err v bs) bss (err, v) = byte_append.chain err v bss"
proof (induction bss arbitrary: err v)
  case (Cons bs bss)
  then show ?case by (cases "gg_byte_vec_append v bs") (simp add: gg_byte_vec_chain_append_def)
qed simp

text \<open>
  A chain of appends to a byte vector (the idiom \<open>gg_byte_vec_chain_append(&err, &vec, ..)\<close>)
  fails only for lack of capacity: if all pieces fit together the error stays
  \<open>GG_ERR_OK\<close> and the contents grow by their concatenation; otherwise the error is
  \<open>GG_ERR_NOMEM\<close>, and the contents grow by whole pieces, a proper prefix of the chain. Bytes of
  the array behind the contents, and the array's capacity, are not touched.
\<close>
theorem gg_byte_vec_chain_append_correct:
  assumes "vec_inv v"
    and "fold (\<lambda>bs (err, v). gg_byte_vec_chain_append err v bs) bss (GG_ERR_OK, v) = (err, v')"
  shows "vec_inv v' \<and> vec_capacity v' = vec_capacity v \<and>
    drop (vec_len v') (vec_array v') = drop (vec_len v') (vec_array v) \<and>
    (if vec_len v + length (concat bss) \<le> vec_capacity v
     then err = GG_ERR_OK \<and> vec_contents v' = vec_contents v @ concat bss
     else err = GG_ERR_NOMEM \<and> (\<exists>n < length bss. vec_contents v' = vec_contents v @ concat (take n bss) \<and>
            vec_len v' + length (bss ! n) > vec_capacity v))"
proof -
  let ?ys = "byte_append.fitting (vec_capacity v - vec_len v) bss"
  have r: "err = (if ?ys = bss then GG_ERR_OK else GG_ERR_NOMEM)" "v' = vec_put v (concat ?ys)"
    using assms byte_append.chain_spec [OF assms(1), of bss] by (auto simp: fold_byte_chain Let_def)
  have len: "vec_len v + length (concat ?ys) \<le> vec_capacity v"
    using byte_append.fitting_length [of "vec_capacity v - vec_len v" bss] assms(1)
    by (auto simp: vec_inv_def)
  have all: "?ys = bss \<longleftrightarrow> vec_len v + length (concat bss) \<le> vec_capacity v"
    using byte_append.fitting_eq_iff [of "vec_capacity v - vec_len v" bss] assms(1)
    by (auto simp: vec_inv_def)
  note part = byte_append.fitting_cases [of "vec_capacity v - vec_len v" bss]
  show ?thesis
    using r all part len assms(1) vec_inv_put [OF assms(1) len] drop_put [OF assms(1) len]
    by (auto simp: vec_contents_put)
qed

theorem gg_byte_vec_chain_append_correct_witness:
  "fst (fold (\<lambda>bs (err, v). gg_byte_vec_chain_append err v bs) [[1, 2], [3, 4, 5], [6]]
     (GG_ERR_OK, gg_byte_vec_init \<lparr>data = 0, mem = [0, 0, 0, 0]\<rparr>)) = GG_ERR_NOMEM"
proof -
  let ?v = "gg_byte_vec_init \<lparr>data = 0, mem = [0, 0, 0, 0]\<rparr>"
  let ?bss = "[[1, 2], [3, 4, 5], [6]] :: byte list list"
  have inv: "vec_inv ?v" by (simp add: vec_inv_def gg_byte_vec_init_def)
  obtain err v' where r: "fold (\<lambda>bs (err, v). gg_byte_vec_chain_append err v bs) ?bss (GG_ERR_OK, ?v) = (err, v')"
    by (meson surj_pair)
  have "err = GG_ERR_NOMEM"
    using gg_byte_vec_chain_append_correct [OF inv r] by (simp add: gg_byte_vec_init_def)
  then show ?thesis unfolding r by simp
qed

text \<open>
  Appending a list of objects to a vector of buffers stops at the first element that is not a
  buffer (\<open>GG_ERR_INVALID\<close>) or does not fit (\<open>GG_ERR_NOMEM\<close>), whichever comes first, and keeps
  the buffers before it; it succeeds exactly if all elements are buffers and fit.
\<close>
theorem gg_buf_vec_append_list_correct:
  assumes "vec_inv v"
    and "gg_buf_vec_append_list v items = (err, v')"
  shows "vec_inv v' \<and> (\<exists>n \<le> length items.
    vec_contents v' = vec_contents v @ map gg_obj_into_buf (take n items) \<and>
    list_all (\<lambda>x. gg_obj_type x = GG_TYPE_BUF) (take n items) \<and>
    (err = GG_ERR_OK \<and> n = length items \<or>
     err = GG_ERR_INVALID \<and> n < length items \<and> gg_obj_type (items ! n) \<noteq> GG_TYPE_BUF \<or>
     err = GG_ERR_NOMEM \<and> n < length items \<and> gg_obj_type (items ! n) = GG_TYPE_BUF \<and>
       vec_len v + n = vec_capacity v))"
  using assms
proof (induction v items rule: gg_buf_vec_append_list.induct)
  case (2 v x xs)
  let ?b = "gg_obj_into_buf x"
  consider "gg_obj_type x \<noteq> GG_TYPE_BUF"
    | "gg_obj_type x = GG_TYPE_BUF" "vec_len v = vec_capacity v"
    | "gg_obj_type x = GG_TYPE_BUF" "vec_len v + length [?b] \<le> vec_capacity v"
    using 2(2) by (cases "vec_len v = vec_capacity v") (auto simp: vec_inv_def)
  then show ?case
  proof cases
    case 3
    note push = buf_push.app_ok [OF 2(2) 3(2)]
    have "gg_buf_vec_append_list (vec_put v [?b]) xs = (err, v')" using 2(3) 3(1) push by simp
    from 2(1) [OF _ push [symmetric] _ vec_inv_put [OF 2(2) 3(2)] this] 3(1) obtain n
      where n: "vec_inv v'" "n \<le> length xs"
        "vec_contents v' = vec_contents (vec_put v [?b]) @ map gg_obj_into_buf (take n xs)"
        "list_all (\<lambda>x. gg_obj_type x = GG_TYPE_BUF) (take n xs)"
        "err = GG_ERR_OK \<and> n = length xs \<or>
         err = GG_ERR_INVALID \<and> n < length xs \<and> gg_obj_type (xs ! n) \<noteq> GG_TYPE_BUF \<or>
         err = GG_ERR_NOMEM \<and> n < length xs \<and> gg_obj_type (xs ! n) = GG_TYPE_BUF \<and>
           vec_len (vec_put v [?b]) + n = vec_capacity (vec_put v [?b])"
      by blast
    then show ?thesis using 3(1) 2(2) by (intro conjI exI [of _ "Suc n"]) (auto simp: vec_contents_put)
  next
    case 2
    then show ?thesis using 2(1) "2.prems" by (auto simp: gg_buf_vec_push_def intro: exI [of _ 0])
  qed (use 2 in auto)
qed auto

theorem gg_buf_vec_append_list_correct_witness:
  "fst (gg_buf_vec_append_list
     \<lparr>vec_addr = 0, vec_array = replicate 3 \<lparr>data = 0, mem = []\<rparr>, vec_len = 0, vec_capacity = 3\<rparr>
     [gg_obj_buf (GG_STR ''a''), OBJ_NULL]) = GG_ERR_INVALID"
proof -
  let ?v = "\<lparr>vec_addr = 0, vec_array = replicate 3 \<lparr>data = 0, mem = []\<rparr>, vec_len = 0, vec_capacity = 3\<rparr> :: GgBufVec"
  let ?items = "[gg_obj_buf (GG_STR ''a''), OBJ_NULL]"
  have inv: "vec_inv ?v" by (simp add: vec_inv_def)
  obtain err v' where r: "gg_buf_vec_append_list ?v ?items = (err, v')" by (meson surj_pair)
  obtain n where n: "n \<le> Suc (Suc 0)" "list_all (\<lambda>x. gg_obj_type x = GG_TYPE_BUF) (take n ?items)"
    "err = GG_ERR_OK \<and> n = Suc (Suc 0) \<or> err = GG_ERR_INVALID \<or> err = GG_ERR_NOMEM \<and> n = 3"
    using gg_buf_vec_append_list_correct [OF inv r] by auto
  then have "err = GG_ERR_INVALID" by auto
  then show ?thesis unfolding r by simp
qed

end
