(* ===== verification/Object_Visit.thy ===== *)
theory Object_Visit
  imports Object
begin

text \<open>
  Non-recursive traversal of objects (\<open>priv_include/gg/object_visit.h\<close>,
  \<open>priv_include/gg/object_iter.h\<close>, \<open>src/object_visit.c\<close>).

  The C code keeps a stack of levels in fixed arrays and loops; handlers may rewrite the
  object, list, map or key they are called on. In the model an object pointer is a path
  from the root object, the stack is the list of levels \<open>0..index\<close> with the current level
  first, and a handler returns the value it leaves behind its object pointer. The loop is
  a partial function into \<open>option\<close>: \<open>None\<close> would mean that it never returns.

  The locale \<open>visit_handlers\<close> states what the loop needs of its handlers (a list or map
  handler leaves a list or map that is not longer); under it the loop returns and computes
  the recursive traversal \<open>visit_obj\<close>. The components that use the traversal interpret it.
\<close>

section \<open>Handlers\<close>

record 'c GgObjectVisitHandlers =
  on_null :: "('c \<Rightarrow> GgError \<times> 'c) option"
  on_bool :: "('c \<Rightarrow> bool \<Rightarrow> GgError \<times> 'c) option"
  on_i64 :: "('c \<Rightarrow> u64 \<Rightarrow> GgError \<times> 'c) option"
  on_f64 :: "('c \<Rightarrow> f64 \<Rightarrow> GgError \<times> 'c) option"
  on_buf :: "('c \<Rightarrow> GgBuffer \<Rightarrow> GgObject \<Rightarrow> GgError \<times> 'c \<times> GgObject) option"
  on_list :: "('c \<Rightarrow> GgList \<Rightarrow> GgObject \<Rightarrow> GgError \<times> 'c \<times> GgObject) option"
  cont_list :: "('c \<Rightarrow> GgError \<times> 'c) option"
  end_list :: "('c \<Rightarrow> GgError \<times> 'c) option"
  on_map :: "('c \<Rightarrow> GgMap \<Rightarrow> GgObject \<Rightarrow> GgError \<times> 'c \<times> GgObject) option"
  on_map_key :: "('c \<Rightarrow> GgBuffer \<Rightarrow> GgKV \<Rightarrow> GgError \<times> 'c \<times> GgKV) option"
  cont_map :: "('c \<Rightarrow> GgError \<times> 'c) option"
  end_map :: "('c \<Rightarrow> GgError \<times> 'c) option"

definition no_handlers :: "'c GgObjectVisitHandlers" where
  "no_handlers =
     \<lparr>on_null = None, on_bool = None, on_i64 = None, on_f64 = None, on_buf = None, on_list = None,
      cont_list = None, end_list = None, on_map = None, on_map_key = None, cont_map = None,
      end_map = None\<rparr>"

text \<open>\<open>TRY_HANDLER\<close>: a NULL handler succeeds and changes nothing.\<close>

fun call0 :: "('c \<Rightarrow> GgError \<times> 'c) option \<Rightarrow> 'c \<Rightarrow> GgError \<times> 'c" where
  "call0 None c = (GG_ERR_OK, c)"
| "call0 (Some f) c = f c"

fun call1 :: "('c \<Rightarrow> 'v \<Rightarrow> GgError \<times> 'c) option \<Rightarrow> 'c \<Rightarrow> 'v \<Rightarrow> GgError \<times> 'c" where
  "call1 None c v = (GG_ERR_OK, c)"
| "call1 (Some f) c v = f c v"

fun call2 :: "('c \<Rightarrow> 'v \<Rightarrow> 'o \<Rightarrow> GgError \<times> 'c \<times> 'o) option \<Rightarrow> 'c \<Rightarrow> 'v \<Rightarrow> 'o \<Rightarrow> GgError \<times> 'c \<times> 'o" where
  "call2 None c v obj = (GG_ERR_OK, c, obj)"
| "call2 (Some f) c v obj = f c v obj"

section \<open>Objects behind paths\<close>

fun child :: "GgObject \<Rightarrow> nat \<Rightarrow> GgObject" where
  "child (OBJ_LIST p xs) i = xs ! i"
| "child (OBJ_MAP p kvs) i = snd (kvs ! i)"
| "child obj i = obj"

fun set_child :: "GgObject \<Rightarrow> nat \<Rightarrow> GgObject \<Rightarrow> GgObject" where
  "set_child (OBJ_LIST p xs) i c = OBJ_LIST p (xs[i := c])"
| "set_child (OBJ_MAP p kvs) i c = OBJ_MAP p (kvs[i := (fst (kvs ! i), c)])"
| "set_child obj i c = obj"

fun set_pair :: "GgObject \<Rightarrow> nat \<Rightarrow> GgKV \<Rightarrow> GgObject" where
  "set_pair (OBJ_MAP p kvs) i kv = OBJ_MAP p (kvs[i := kv])"
| "set_pair obj i kv = obj"

fun get_at :: "GgObject \<Rightarrow> nat list \<Rightarrow> GgObject" where
  "get_at obj [] = obj"
| "get_at obj (i # path) = get_at (child obj i) path"

fun set_at :: "GgObject \<Rightarrow> nat list \<Rightarrow> GgObject \<Rightarrow> GgObject" where
  "set_at obj [] new = new"
| "set_at obj (i # path) new = set_child obj i (set_at (child obj i) path new)"

section \<open>The loop\<close>

datatype IterLevelState = LEVEL_DEFAULT | LEVEL_LIST | LEVEL_MAP

record IterLevel =
  lv_obj :: "nat list"
  lv_state :: IterLevelState
  lv_elem_index :: nat

record 'c visit_state =
  levels :: "IterLevel list"
  subobjects :: nat
  root :: GgObject
  ctx :: 'c

type_synonym 'c visit_result = "GgError \<times> 'c \<times> GgObject"

definition leave_level :: "'c visit_state \<Rightarrow> 'c visit_state + 'c visit_result" where
  \<comment> \<open>the end of the loop body: return at level 0, else go one level up\<close>
  "leave_level s =
     (case levels s of
        l # m # ls \<Rightarrow> Inl (s\<lparr>levels := m # ls\<rparr>)
      | _ \<Rightarrow> Inr (GG_ERR_OK, ctx s, root s))"

definition after_scalar :: "'c visit_state \<Rightarrow> GgError \<times> 'c \<Rightarrow> 'c visit_state + 'c visit_result" where
  "after_scalar s r =
     (if fst r \<noteq> GG_ERR_OK then Inr (fst r, snd r, root s) else leave_level (s\<lparr>ctx := snd r\<rparr>))"

definition enter_level :: "'c visit_state \<Rightarrow> 'c visit_state + 'c visit_result" where
  \<comment> \<open>\<open>state.index += 1\<close>, the depth check, and the new level for element \<open>cur_index\<close>\<close>
  "enter_level s =
     (case levels s of
        [] \<Rightarrow> Inr (GG_ERR_OK, ctx s, root s)
      | l # ls \<Rightarrow>
          if Suc (length ls) = GG_MAX_OBJECT_DEPTH then Inr (GG_ERR_RANGE, ctx s, root s)
          else Inl (s\<lparr>levels :=
                 \<lparr>lv_obj = lv_obj l @ [lv_elem_index l], lv_state = LEVEL_DEFAULT, lv_elem_index = 0\<rparr>
                 # l\<lparr>lv_elem_index := (lv_elem_index l + 1) mod 256\<rparr> # ls\<rparr>))"

definition visit_step :: "'c GgObjectVisitHandlers \<Rightarrow> 'c visit_state \<Rightarrow> 'c visit_state + 'c visit_result" where
  "visit_step h s =
     (case levels s of
        [] \<Rightarrow> Inr (GG_ERR_OK, ctx s, root s)
      | l # ls \<Rightarrow>
     (let cur_obj = get_at (root s) (lv_obj l); cur_index = lv_elem_index l in
      case lv_state l of
        LEVEL_DEFAULT \<Rightarrow>
          (case cur_obj of
             OBJ_NULL \<Rightarrow> after_scalar s (call0 (on_null h) (ctx s))
           | OBJ_BOOLEAN b \<Rightarrow> after_scalar s (call1 (on_bool h) (ctx s) b)
           | OBJ_I64 v \<Rightarrow> after_scalar s (call1 (on_i64 h) (ctx s) v)
           | OBJ_F64 v \<Rightarrow> after_scalar s (call1 (on_f64 h) (ctx s) v)
           | OBJ_BUF v \<Rightarrow>
               (case call2 (on_buf h) (ctx s) v cur_obj of (e, c, obj) \<Rightarrow>
                  after_scalar (s\<lparr>root := set_at (root s) (lv_obj l) obj\<rparr>) (e, c))
           | OBJ_LIST p xs \<Rightarrow>
               if length xs > GG_MAX_OBJECT_SUBOBJECTS - subobjects s
               then Inr (GG_ERR_RANGE, ctx s, root s)
               else
                 (case call2 (on_list h) (ctx s) (p, xs) cur_obj of (e, c, obj) \<Rightarrow>
                    if e \<noteq> GG_ERR_OK then Inr (e, c, set_at (root s) (lv_obj l) obj)
                    else Inl (s\<lparr>subobjects := (subobjects s + length xs) mod 256, ctx := c,
                                root := set_at (root s) (lv_obj l) obj,
                                levels := l\<lparr>lv_state := LEVEL_LIST\<rparr> # ls\<rparr>))
           | OBJ_MAP p kvs \<Rightarrow>
               if length kvs > (GG_MAX_OBJECT_SUBOBJECTS - subobjects s) div 2
               then Inr (GG_ERR_RANGE, ctx s, root s)
               else
                 (case call2 (on_map h) (ctx s) (p, kvs) cur_obj of (e, c, obj) \<Rightarrow>
                    if e \<noteq> GG_ERR_OK then Inr (e, c, set_at (root s) (lv_obj l) obj)
                    else Inl (s\<lparr>subobjects := (subobjects s + length kvs * 2) mod 256, ctx := c,
                                root := set_at (root s) (lv_obj l) obj,
                                levels := l\<lparr>lv_state := LEVEL_MAP\<rparr> # ls\<rparr>)))
      | LEVEL_LIST \<Rightarrow>
          (if cur_index = length (snd (gg_obj_into_list cur_obj))
           then after_scalar s (call0 (end_list h) (ctx s))
           else
             (case (if cur_index \<noteq> 0 then call0 (cont_list h) (ctx s) else (GG_ERR_OK, ctx s)) of
                (e, c) \<Rightarrow>
                  if e \<noteq> GG_ERR_OK then Inr (e, c, root s)
                  else enter_level (s\<lparr>ctx := c\<rparr>)))
      | LEVEL_MAP \<Rightarrow>
          (let kvs = snd (gg_obj_into_map cur_obj) in
           if cur_index = length kvs
           then after_scalar s (call0 (end_map h) (ctx s))
           else
             (case (if cur_index \<noteq> 0 then call0 (cont_map h) (ctx s) else (GG_ERR_OK, ctx s)) of
                (e, c) \<Rightarrow>
                  if e \<noteq> GG_ERR_OK then Inr (e, c, root s)
                  else
                    (case call2 (on_map_key h) c (fst (kvs ! cur_index)) (kvs ! cur_index) of
                       (e, c, kv) \<Rightarrow>
                         let r = set_at (root s) (lv_obj l) (set_pair cur_obj cur_index kv) in
                         if e \<noteq> GG_ERR_OK then Inr (e, c, r)
                         else enter_level (s\<lparr>ctx := c, root := r\<rparr>))))))"

partial_function (option) visit_loop ::
  "'c GgObjectVisitHandlers \<Rightarrow> 'c visit_state \<Rightarrow> 'c visit_result option" where
  "visit_loop h s = (case visit_step h s of Inr r \<Rightarrow> Some r | Inl s' \<Rightarrow> visit_loop h s')"

definition gg_obj_visit ::
  "'c GgObjectVisitHandlers \<Rightarrow> 'c \<Rightarrow> GgObject \<Rightarrow> 'c visit_result option" where
  \<comment> \<open>the error code, the context and the object afterwards\<close>
  "gg_obj_visit h c obj =
     visit_loop h
       \<lparr>levels = [\<lparr>lv_obj = [], lv_state = LEVEL_DEFAULT, lv_elem_index = 0\<rparr>],
        subobjects = 0, root = obj, ctx = c\<rparr>"

section \<open>The recursive traversal\<close>

type_synonym 'c rec_result = "GgError \<times> nat \<times> 'c \<times> GgObject"

function (sequential)
  visit_obj :: "'c GgObjectVisitHandlers \<Rightarrow> nat \<Rightarrow> nat \<Rightarrow> 'c \<Rightarrow> GgObject \<Rightarrow> 'c rec_result" and
  visit_items :: "'c GgObjectVisitHandlers \<Rightarrow> nat \<Rightarrow> nat \<Rightarrow> 'c \<Rightarrow> GgObject \<Rightarrow> nat \<Rightarrow> 'c rec_result" and
  visit_pairs :: "'c GgObjectVisitHandlers \<Rightarrow> nat \<Rightarrow> nat \<Rightarrow> 'c \<Rightarrow> GgObject \<Rightarrow> nat \<Rightarrow> 'c rec_result"
where
  "visit_obj h d s c (OBJ_LIST p xs) =
     (if length xs > GG_MAX_OBJECT_SUBOBJECTS - s then (GG_ERR_RANGE, s, c, OBJ_LIST p xs)
      else (case call2 (on_list h) c (p, xs) (OBJ_LIST p xs) of (e, c, obj) \<Rightarrow>
              if e \<noteq> GG_ERR_OK then (e, s + length xs, c, obj)
              else visit_items h d (s + length xs) c obj 0))"
| "visit_obj h d s c (OBJ_MAP p kvs) =
     (if 2 * length kvs > GG_MAX_OBJECT_SUBOBJECTS - s then (GG_ERR_RANGE, s, c, OBJ_MAP p kvs)
      else (case call2 (on_map h) c (p, kvs) (OBJ_MAP p kvs) of (e, c, obj) \<Rightarrow>
              if e \<noteq> GG_ERR_OK then (e, s + 2 * length kvs, c, obj)
              else visit_pairs h d (s + 2 * length kvs) c obj 0))"
| "visit_obj h d s c (OBJ_BUF v) =
     (case call2 (on_buf h) c v (OBJ_BUF v) of (e, c, obj) \<Rightarrow> (e, s, c, obj))"
| "visit_obj h d s c OBJ_NULL = (case call0 (on_null h) c of (e, c) \<Rightarrow> (e, s, c, OBJ_NULL))"
| "visit_obj h d s c (OBJ_BOOLEAN b) =
     (case call1 (on_bool h) c b of (e, c) \<Rightarrow> (e, s, c, OBJ_BOOLEAN b))"
| "visit_obj h d s c (OBJ_I64 v) = (case call1 (on_i64 h) c v of (e, c) \<Rightarrow> (e, s, c, OBJ_I64 v))"
| "visit_obj h d s c (OBJ_F64 v) = (case call1 (on_f64 h) c v of (e, c) \<Rightarrow> (e, s, c, OBJ_F64 v))"
| "visit_items h d s c (OBJ_LIST p xs) i =
     (if i \<ge> length xs then (case call0 (end_list h) c of (e, c) \<Rightarrow> (e, s, c, OBJ_LIST p xs))
      else (case (if i \<noteq> 0 then call0 (cont_list h) c else (GG_ERR_OK, c)) of (e, c) \<Rightarrow>
        if e \<noteq> GG_ERR_OK then (e, s, c, OBJ_LIST p xs)
        else if Suc d \<ge> GG_MAX_OBJECT_DEPTH then (GG_ERR_RANGE, s, c, OBJ_LIST p xs)
        else (case visit_obj h (Suc d) s c (xs ! i) of (e, s, c, x) \<Rightarrow>
          if e \<noteq> GG_ERR_OK then (e, s, c, OBJ_LIST p (xs[i := x]))
          else visit_items h d s c (OBJ_LIST p (xs[i := x])) (Suc i))))"
| "visit_items h d s c obj i = (GG_ERR_OK, s, c, obj)"
| "visit_pairs h d s c (OBJ_MAP p kvs) i =
     (if i \<ge> length kvs then (case call0 (end_map h) c of (e, c) \<Rightarrow> (e, s, c, OBJ_MAP p kvs))
      else (case (if i \<noteq> 0 then call0 (cont_map h) c else (GG_ERR_OK, c)) of (e, c) \<Rightarrow>
        if e \<noteq> GG_ERR_OK then (e, s, c, OBJ_MAP p kvs)
        else (case call2 (on_map_key h) c (fst (kvs ! i)) (kvs ! i) of (e, c, kv) \<Rightarrow>
          if e \<noteq> GG_ERR_OK then (e, s, c, OBJ_MAP p (kvs[i := kv]))
          else if Suc d \<ge> GG_MAX_OBJECT_DEPTH then (GG_ERR_RANGE, s, c, OBJ_MAP p (kvs[i := kv]))
          else (case visit_obj h (Suc d) s c (snd kv) of (e, s, c, x) \<Rightarrow>
            if e \<noteq> GG_ERR_OK then (e, s, c, OBJ_MAP p (kvs[i := (fst kv, x)]))
            else visit_pairs h d s c (OBJ_MAP p (kvs[i := (fst kv, x)])) (Suc i)))))"
| "visit_pairs h d s c obj i = (GG_ERR_OK, s, c, obj)"
  by pat_completeness auto
termination
  by (relation "measures
       [\<lambda>x. GG_MAX_OBJECT_DEPTH - (case x of Inl (h, d, _) \<Rightarrow> d
                                   | Inr (Inl (h, d, _)) \<Rightarrow> d | Inr (Inr (h, d, _)) \<Rightarrow> d),
        \<lambda>x. (case x of Inl _ \<Rightarrow> 1 | _ \<Rightarrow> 0),
        \<lambda>x. (case x of Inl _ \<Rightarrow> 0
             | Inr (Inl (h, d, s, c, obj, i)) \<Rightarrow> length (snd (gg_obj_into_list obj)) - i
             | Inr (Inr (h, d, s, c, obj, i)) \<Rightarrow> length (snd (gg_obj_into_map obj)) - i)]")
     auto

section \<open>Lemmas: paths\<close>

fun path_ok :: "GgObject \<Rightarrow> nat list \<Rightarrow> bool" where
  "path_ok obj [] = True"
| "path_ok (OBJ_LIST p xs) (i # path) = (i < length xs \<and> path_ok (xs ! i) path)"
| "path_ok (OBJ_MAP p kvs) (i # path) = (i < length kvs \<and> path_ok (snd (kvs ! i)) path)"
| "path_ok obj (i # path) = False"

lemma get_at_append: "get_at obj (p @ q) = get_at (get_at obj p) q"
  by (induction p arbitrary: obj) auto

lemma set_at_append: "set_at obj (p @ q) new = set_at obj p (set_at (get_at obj p) q new)"
  by (induction p arbitrary: obj) auto

lemma path_ok_append: "path_ok obj (p @ q) \<longleftrightarrow> path_ok obj p \<and> path_ok (get_at obj p) q"
  by (induction obj p rule: path_ok.induct) auto

lemma get_set_at [simp]: "path_ok obj p \<Longrightarrow> get_at (set_at obj p new) p = new"
  by (induction obj p rule: path_ok.induct) auto

lemma set_set_at [simp]: "path_ok obj p \<Longrightarrow> set_at (set_at obj p a) p b = set_at obj p b"
  by (induction obj p rule: path_ok.induct) auto

lemma path_ok_set_at [simp]: "path_ok obj p \<Longrightarrow> path_ok (set_at obj p new) p"
  by (induction obj p rule: path_ok.induct) auto

lemma set_get_at [simp]: "path_ok obj p \<Longrightarrow> set_at obj p (get_at obj p) = obj"
proof (induction obj p rule: path_ok.induct)
  case (3 p kvs i path)
  then have "(fst (kvs ! i), snd (kvs ! i)) = kvs ! i" by simp
  with 3 show ?case by (simp add: list_update_id)
qed auto

section \<open>Lemmas: the loop\<close>

text \<open>What happens once the current level is done.\<close>

definition resume :: "'c GgObjectVisitHandlers \<Rightarrow> IterLevel list \<Rightarrow> nat \<Rightarrow> 'c \<Rightarrow> GgObject \<Rightarrow> 'c visit_result option" where
  "resume h ls s c r =
     (if ls = [] then Some (GG_ERR_OK, c, r)
      else visit_loop h \<lparr>levels = ls, subobjects = s, root = r, ctx = c\<rparr>)"

lemma run_after_scalar:
  "(case after_scalar \<lparr>levels = l # ls, subobjects = s, root = r, ctx = c\<rparr> ec of
      Inr res \<Rightarrow> Some res | Inl s' \<Rightarrow> visit_loop h s') =
   (if fst ec = GG_ERR_OK then resume h ls s (snd ec) r else Some (fst ec, snd ec, r))"
  by (cases ls) (auto simp: after_scalar_def leave_level_def resume_def)

lemma run_enter_level:
  assumes "Suc (length ls) \<le> GG_MAX_OBJECT_DEPTH"
  shows "(case enter_level \<lparr>levels = l # ls, subobjects = s, root = r, ctx = c\<rparr> of
      Inr res \<Rightarrow> Some res | Inl s' \<Rightarrow> visit_loop h s') =
   (if Suc (length ls) \<ge> GG_MAX_OBJECT_DEPTH then Some (GG_ERR_RANGE, c, r)
    else visit_loop h
      \<lparr>levels = \<lparr>lv_obj = lv_obj l @ [lv_elem_index l], lv_state = LEVEL_DEFAULT, lv_elem_index = 0\<rparr>
                # l\<lparr>lv_elem_index := (lv_elem_index l + 1) mod 256\<rparr> # ls,
       subobjects = s, root = r, ctx = c\<rparr>)"
  using assms by (auto simp: enter_level_def)

text \<open>The current level done with result \<open>res\<close> of the recursive traversal.\<close>

definition after :: "'c GgObjectVisitHandlers \<Rightarrow> IterLevel list \<Rightarrow> nat list \<Rightarrow> GgObject \<Rightarrow> 'c rec_result \<Rightarrow> 'c visit_result option" where
  "after h ls path r res =
     (case res of (e, s, c, obj) \<Rightarrow>
        if e = GG_ERR_OK then resume h ls s c (set_at r path obj)
        else Some (e, c, set_at r path obj))"

declare visit_items.simps [simp del] visit_pairs.simps [simp del]

lemmas visit_items_list = visit_items.simps(1)
lemmas visit_pairs_map = visit_pairs.simps(1)

lemma visit_items_other: "gg_obj_type obj \<noteq> GG_TYPE_LIST \<Longrightarrow> visit_items h d s c obj i = (GG_ERR_OK, s, c, obj)"
  by (cases obj) (auto simp: visit_items.simps)

lemma visit_pairs_other: "gg_obj_type obj \<noteq> GG_TYPE_MAP \<Longrightarrow> visit_pairs h d s c obj i = (GG_ERR_OK, s, c, obj)"
  by (cases obj) (auto simp: visit_pairs.simps)

lemma subobjects_bound:
  "s \<le> GG_MAX_OBJECT_SUBOBJECTS \<Longrightarrow> fst (snd (visit_obj h d s c obj)) \<le> GG_MAX_OBJECT_SUBOBJECTS"
  "s \<le> GG_MAX_OBJECT_SUBOBJECTS \<Longrightarrow> fst (snd (visit_items h d s c obj i)) \<le> GG_MAX_OBJECT_SUBOBJECTS"
  "s \<le> GG_MAX_OBJECT_SUBOBJECTS \<Longrightarrow> fst (snd (visit_pairs h d s c obj i)) \<le> GG_MAX_OBJECT_SUBOBJECTS"
proof (induction h d s c obj and h d s c obj i and h d s c obj i
    rule: visit_obj_visit_items_visit_pairs.induct)
  case (8 h d s c p xs i)
  then show ?case by (subst visit_items_list) (auto split: prod.split)
next
  case (10 h d s c p kvs i)
  then show ?case by (subst visit_pairs_map) (auto split: prod.split)
qed (auto simp: visit_items_other visit_pairs_other split: prod.splits)

locale visit_handlers =
  fixes h :: "'c GgObjectVisitHandlers"
  assumes on_list_shape:
      "call2 (on_list h) c (p, xs) (OBJ_LIST p xs) = (GG_ERR_OK, c', obj) \<Longrightarrow>
       \<exists>p' xs'. obj = OBJ_LIST p' xs' \<and> length xs' \<le> length xs"
    and on_map_shape:
      "call2 (on_map h) c (p, kvs) (OBJ_MAP p kvs) = (GG_ERR_OK, c', obj) \<Longrightarrow>
       \<exists>p' kvs'. obj = OBJ_MAP p' kvs' \<and> length kvs' \<le> length kvs"
begin

abbreviation run_level :: "IterLevelState \<Rightarrow> nat \<Rightarrow> IterLevel list \<Rightarrow> nat list \<Rightarrow> nat \<Rightarrow> 'c \<Rightarrow> GgObject \<Rightarrow> 'c visit_result option" where
  "run_level st i ls path s c r \<equiv>
     visit_loop h \<lparr>levels = \<lparr>lv_obj = path, lv_state = st, lv_elem_index = i\<rparr> # ls,
                   subobjects = s, root = r, ctx = c\<rparr>"

definition level_ok :: "nat \<Rightarrow> IterLevel list \<Rightarrow> nat \<Rightarrow> GgObject \<Rightarrow> nat list \<Rightarrow> GgObject \<Rightarrow> bool" where
  "level_ok d ls s r path obj =
     (length ls = d \<and> Suc d \<le> GG_MAX_OBJECT_DEPTH \<and> s \<le> GG_MAX_OBJECT_SUBOBJECTS \<and>
      path_ok r path \<and> get_at r path = obj)"

lemma level_ok_set: "level_ok d ls s r path obj \<Longrightarrow> set_at r path obj = r"
  by (auto simp: level_ok_def)

lemma run_scalar:
  assumes "level_ok d ls s r path obj"
    and "visit_step h \<lparr>levels = \<lparr>lv_obj = path, lv_state = LEVEL_DEFAULT, lv_elem_index = 0\<rparr> # ls,
            subobjects = s, root = r, ctx = c\<rparr> =
         after_scalar \<lparr>levels = \<lparr>lv_obj = path, lv_state = LEVEL_DEFAULT, lv_elem_index = 0\<rparr> # ls,
            subobjects = s, root = r, ctx = c\<rparr> ec"
  shows "run_level LEVEL_DEFAULT 0 ls path s c r = after h ls path r (fst ec, s, snd ec, obj)"
  using assms by (subst visit_loop.simps) (auto simp: run_after_scalar after_def level_ok_def)

lemma run_obj_list:
  assumes ok: "level_ok d ls s r path (OBJ_LIST p xs)"
    and items: "\<And>c' p' xs'. length xs \<le> GG_MAX_OBJECT_SUBOBJECTS - s \<Longrightarrow>
       call2 (on_list h) c (p, xs) (OBJ_LIST p xs) = (GG_ERR_OK, c', OBJ_LIST p' xs') \<Longrightarrow>
       level_ok d ls (s + length xs) (set_at r path (OBJ_LIST p' xs')) path (OBJ_LIST p' xs') \<Longrightarrow>
       length xs' \<le> GG_MAX_OBJECT_SUBOBJECTS \<Longrightarrow>
       run_level LEVEL_LIST 0 ls path (s + length xs) c' (set_at r path (OBJ_LIST p' xs')) =
         after h ls path (set_at r path (OBJ_LIST p' xs'))
           (visit_items h d (s + length xs) c' (OBJ_LIST p' xs') 0)"
  shows "run_level LEVEL_DEFAULT 0 ls path s c r =
         after h ls path r (visit_obj h d s c (OBJ_LIST p xs))"
proof -
  obtain e c' obj where call: "call2 (on_list h) c (p, xs) (OBJ_LIST p xs) = (e, c', obj)"
    by (cases "call2 (on_list h) c (p, xs) (OBJ_LIST p xs)")
  show ?thesis
  proof (cases "length xs \<le> GG_MAX_OBJECT_SUBOBJECTS - s \<and> e = GG_ERR_OK")
    case True
    then obtain p' xs' where obj: "obj = OBJ_LIST p' xs'" "length xs' \<le> length xs"
      using call on_list_shape by blast
    have fits: "s + length xs \<le> 255" and lim: "length xs' \<le> GG_MAX_OBJECT_SUBOBJECTS"
      using True ok obj(2) by (auto simp: level_ok_def GG_MAX_OBJECT_SUBOBJECTS_def)
    have "level_ok d ls (s + length xs) (set_at r path obj) path obj"
      using ok fits by (auto simp: level_ok_def GG_MAX_OBJECT_SUBOBJECTS_def)
    then have "run_level LEVEL_LIST 0 ls path (s + length xs) c' (set_at r path obj) =
       after h ls path (set_at r path obj) (visit_items h d (s + length xs) c' obj 0)"
      using items [of c' p' xs'] True call obj lim by simp
    then show ?thesis
      using True call ok fits
      by (subst visit_loop.simps)
         (auto simp: visit_step_def level_ok_def after_def split: prod.splits)
  next
    case False
    then show ?thesis using call ok level_ok_set [OF ok]
      by (subst visit_loop.simps)
         (auto simp: visit_step_def level_ok_def after_def split: if_splits)
  qed
qed

lemma run_obj_map:
  assumes ok: "level_ok d ls s r path (OBJ_MAP p kvs)"
    and pairs: "\<And>c' p' kvs'. 2 * length kvs \<le> GG_MAX_OBJECT_SUBOBJECTS - s \<Longrightarrow>
       call2 (on_map h) c (p, kvs) (OBJ_MAP p kvs) = (GG_ERR_OK, c', OBJ_MAP p' kvs') \<Longrightarrow>
       level_ok d ls (s + 2 * length kvs) (set_at r path (OBJ_MAP p' kvs')) path (OBJ_MAP p' kvs') \<Longrightarrow>
       length kvs' \<le> GG_MAX_OBJECT_SUBOBJECTS \<Longrightarrow>
       run_level LEVEL_MAP 0 ls path (s + 2 * length kvs) c' (set_at r path (OBJ_MAP p' kvs')) =
         after h ls path (set_at r path (OBJ_MAP p' kvs'))
           (visit_pairs h d (s + 2 * length kvs) c' (OBJ_MAP p' kvs') 0)"
  shows "run_level LEVEL_DEFAULT 0 ls path s c r =
         after h ls path r (visit_obj h d s c (OBJ_MAP p kvs))"
proof -
  obtain e c' obj where call: "call2 (on_map h) c (p, kvs) (OBJ_MAP p kvs) = (e, c', obj)"
    by (cases "call2 (on_map h) c (p, kvs) (OBJ_MAP p kvs)")
  have half: "length kvs > (GG_MAX_OBJECT_SUBOBJECTS - s) div 2 \<longleftrightarrow>
              2 * length kvs > GG_MAX_OBJECT_SUBOBJECTS - s" by auto
  show ?thesis
  proof (cases "2 * length kvs \<le> GG_MAX_OBJECT_SUBOBJECTS - s \<and> e = GG_ERR_OK")
    case True
    then obtain p' kvs' where obj: "obj = OBJ_MAP p' kvs'" "length kvs' \<le> length kvs"
      using call on_map_shape by blast
    have fits: "s + 2 * length kvs \<le> 255" and lim: "length kvs' \<le> GG_MAX_OBJECT_SUBOBJECTS"
      using True ok obj(2) by (auto simp: level_ok_def GG_MAX_OBJECT_SUBOBJECTS_def)
    have "level_ok d ls (s + 2 * length kvs) (set_at r path obj) path obj"
      using ok fits by (auto simp: level_ok_def GG_MAX_OBJECT_SUBOBJECTS_def)
    then have "run_level LEVEL_MAP 0 ls path (s + 2 * length kvs) c' (set_at r path obj) =
       after h ls path (set_at r path obj) (visit_pairs h d (s + 2 * length kvs) c' obj 0)"
      using pairs [of c' p' kvs'] True call obj lim by simp
    then show ?thesis
      using True call ok fits
      by (subst visit_loop.simps)
         (auto simp: visit_step_def level_ok_def after_def half mult.commute split: prod.splits)
  next
    case False
    then show ?thesis using call ok level_ok_set [OF ok]
      by (subst visit_loop.simps)
         (auto simp: visit_step_def level_ok_def after_def half split: if_splits)
  qed
qed

text \<open>One element: the nested level runs, then this level goes on with the next one.\<close>

lemma level_ok_item:
  assumes "level_ok d ls s r path (OBJ_LIST p xs)" "i < length xs" "Suc d < GG_MAX_OBJECT_DEPTH"
    and "length ls' = Suc d"
  shows "level_ok (Suc d) ls' s r (path @ [i]) (xs ! i)"
  using assms by (auto simp: level_ok_def path_ok_append get_at_append)

lemma run_items_step:
  assumes ok: "level_ok d ls s r path (OBJ_LIST p xs)"
    and i: "i < length xs" and lim: "length xs \<le> GG_MAX_OBJECT_SUBOBJECTS"
    and cont: "(if i \<noteq> 0 then call0 (cont_list h) c else (GG_ERR_OK, c)) = (GG_ERR_OK, c1)"
    and d: "\<not> Suc d \<ge> GG_MAX_OBJECT_DEPTH"
    and inner: "run_level LEVEL_DEFAULT 0
        (\<lparr>lv_obj = path, lv_state = LEVEL_LIST, lv_elem_index = Suc i\<rparr> # ls) (path @ [i]) s c1 r =
      after h (\<lparr>lv_obj = path, lv_state = LEVEL_LIST, lv_elem_index = Suc i\<rparr> # ls) (path @ [i]) r
        (visit_obj h (Suc d) s c1 (xs ! i))"
  shows "run_level LEVEL_LIST i ls path s c r =
    (case visit_obj h (Suc d) s c1 (xs ! i) of (e, s, c, x) \<Rightarrow>
       if e \<noteq> GG_ERR_OK then Some (e, c, set_at r path (OBJ_LIST p (xs[i := x])))
       else run_level LEVEL_LIST (Suc i) ls path s c (set_at r path (OBJ_LIST p (xs[i := x]))))"
proof -
  have ls: "length ls = d" "path_ok r path" "get_at r path = OBJ_LIST p xs"
    using ok by (auto simp: level_ok_def)
  have m: "Suc i mod 256 = Suc i" using i lim by (simp add: GG_MAX_OBJECT_SUBOBJECTS_def)
  have set1: "set_at r (path @ [i]) x = set_at r path (OBJ_LIST p (xs[i := x]))" for x
    using ls by (simp add: set_at_append)
  have "run_level LEVEL_LIST i ls path s c r =
    run_level LEVEL_DEFAULT 0
      (\<lparr>lv_obj = path, lv_state = LEVEL_LIST, lv_elem_index = Suc i\<rparr> # ls) (path @ [i]) s c1 r"
    using ls i cont d m
    by (subst visit_loop.simps, cases "i = 0") (auto simp: visit_step_def run_enter_level Let_def)
  also have "\<dots> = (case visit_obj h (Suc d) s c1 (xs ! i) of (e, s, c, x) \<Rightarrow>
       if e \<noteq> GG_ERR_OK then Some (e, c, set_at r path (OBJ_LIST p (xs[i := x])))
       else run_level LEVEL_LIST (Suc i) ls path s c (set_at r path (OBJ_LIST p (xs[i := x]))))"
    unfolding inner after_def resume_def set1 by (auto split: prod.splits)
  finally show ?thesis .
qed

lemma run_pairs_step:
  assumes ok: "level_ok d ls s r path (OBJ_MAP p kvs)"
    and i: "i < length kvs" and lim: "length kvs \<le> GG_MAX_OBJECT_SUBOBJECTS"
    and cont: "(if i \<noteq> 0 then call0 (cont_map h) c else (GG_ERR_OK, c)) = (GG_ERR_OK, c1)"
    and keyc: "call2 (on_map_key h) c1 (fst (kvs ! i)) (kvs ! i) = (GG_ERR_OK, c2, kv)"
    and d: "\<not> Suc d \<ge> GG_MAX_OBJECT_DEPTH"
    and inner: "run_level LEVEL_DEFAULT 0
        (\<lparr>lv_obj = path, lv_state = LEVEL_MAP, lv_elem_index = Suc i\<rparr> # ls) (path @ [i]) s c2
        (set_at r path (OBJ_MAP p (kvs[i := kv]))) =
      after h (\<lparr>lv_obj = path, lv_state = LEVEL_MAP, lv_elem_index = Suc i\<rparr> # ls) (path @ [i])
        (set_at r path (OBJ_MAP p (kvs[i := kv]))) (visit_obj h (Suc d) s c2 (snd kv))"
  shows "run_level LEVEL_MAP i ls path s c r =
    (case visit_obj h (Suc d) s c2 (snd kv) of (e, s, c, x) \<Rightarrow>
       if e \<noteq> GG_ERR_OK then Some (e, c, set_at r path (OBJ_MAP p (kvs[i := (fst kv, x)])))
       else run_level LEVEL_MAP (Suc i) ls path s c (set_at r path (OBJ_MAP p (kvs[i := (fst kv, x)]))))"
proof -
  let ?r = "set_at r path (OBJ_MAP p (kvs[i := kv]))"
  have ls: "length ls = d" "path_ok r path" "get_at r path = OBJ_MAP p kvs"
    using ok by (auto simp: level_ok_def)
  have m: "Suc i mod 256 = Suc i" using i lim by (simp add: GG_MAX_OBJECT_SUBOBJECTS_def)
  have set1: "set_at ?r (path @ [i]) x = set_at r path (OBJ_MAP p (kvs[i := (fst kv, x)]))" for x
    using ls i by (simp add: set_at_append)
  have "run_level LEVEL_MAP i ls path s c r =
    run_level LEVEL_DEFAULT 0
      (\<lparr>lv_obj = path, lv_state = LEVEL_MAP, lv_elem_index = Suc i\<rparr> # ls) (path @ [i]) s c2 ?r"
    using ls i cont keyc d m
    by (subst visit_loop.simps, cases "i = 0") (auto simp: visit_step_def run_enter_level Let_def)
  also have "\<dots> = (case visit_obj h (Suc d) s c2 (snd kv) of (e, s, c, x) \<Rightarrow>
       if e \<noteq> GG_ERR_OK then Some (e, c, set_at r path (OBJ_MAP p (kvs[i := (fst kv, x)])))
       else run_level LEVEL_MAP (Suc i) ls path s c (set_at r path (OBJ_MAP p (kvs[i := (fst kv, x)]))))"
    unfolding inner after_def resume_def set1 by (auto split: prod.splits)
  finally show ?thesis .
qed

text \<open>The branches of a list or map level that do not enter an element.\<close>

lemma run_items_stop:
  assumes ok: "level_ok d ls s r path (OBJ_LIST p xs)" and i: "i \<le> length xs"
    and stop: "i = length xs \<or>
      (\<exists>e c1. (if i \<noteq> 0 then call0 (cont_list h) c else (GG_ERR_OK, c)) = (e, c1) \<and>
        (e \<noteq> GG_ERR_OK \<or> Suc d \<ge> GG_MAX_OBJECT_DEPTH))"
  shows "run_level LEVEL_LIST i ls path s c r =
         after h ls path r (visit_items h d s c (OBJ_LIST p xs) i)"
proof (cases "i = length xs")
  case True
  then show ?thesis using ok level_ok_set [OF ok]
    by (subst visit_loop.simps)
       (auto simp: visit_step_def visit_items_list run_after_scalar after_def level_ok_def Let_def
         split: prod.splits)
next
  case False
  then obtain e c1 where "(if i \<noteq> 0 then call0 (cont_list h) c else (GG_ERR_OK, c)) = (e, c1)"
      "e \<noteq> GG_ERR_OK \<or> Suc d \<ge> GG_MAX_OBJECT_DEPTH"
    using stop by blast
  then show ?thesis using False i ok level_ok_set [OF ok]
    by (subst visit_loop.simps, cases "i = 0")
       (auto simp: visit_step_def visit_items_list run_enter_level after_def level_ok_def Let_def)
qed

lemma run_pairs_stop:
  assumes ok: "level_ok d ls s r path (OBJ_MAP p kvs)" and i: "i \<le> length kvs"
    and stop: "i = length kvs \<or>
      (\<exists>e c1 e2 c2 kv. (if i \<noteq> 0 then call0 (cont_map h) c else (GG_ERR_OK, c)) = (e, c1) \<and>
        call2 (on_map_key h) c1 (fst (kvs ! i)) (kvs ! i) = (e2, c2, kv) \<and>
        (e \<noteq> GG_ERR_OK \<or> e2 \<noteq> GG_ERR_OK \<or> Suc d \<ge> GG_MAX_OBJECT_DEPTH))"
  shows "run_level LEVEL_MAP i ls path s c r =
         after h ls path r (visit_pairs h d s c (OBJ_MAP p kvs) i)"
proof (cases "i = length kvs")
  case True
  then show ?thesis using ok level_ok_set [OF ok]
    by (subst visit_loop.simps)
       (auto simp: visit_step_def visit_pairs_map run_after_scalar after_def level_ok_def Let_def
         split: prod.splits)
next
  case False
  then obtain e c1 e2 c2 kv where
      "(if i \<noteq> 0 then call0 (cont_map h) c else (GG_ERR_OK, c)) = (e, c1)"
      "call2 (on_map_key h) c1 (fst (kvs ! i)) (kvs ! i) = (e2, c2, kv)"
      "e \<noteq> GG_ERR_OK \<or> e2 \<noteq> GG_ERR_OK \<or> Suc d \<ge> GG_MAX_OBJECT_DEPTH"
    using stop by blast
  then show ?thesis using False i ok level_ok_set [OF ok]
    by (subst visit_loop.simps, cases "i = 0")
       (auto simp: visit_step_def visit_pairs_map run_enter_level after_def level_ok_def Let_def)
qed

lemma run_items:
  assumes ok: "level_ok d ls s r path (OBJ_LIST p xs)"
    and i: "i \<le> length xs" and lim: "length xs \<le> GG_MAX_OBJECT_SUBOBJECTS"
    and inner: "\<And>c1 ls'. i < length xs \<Longrightarrow>
      (if i \<noteq> 0 then call0 (cont_list h) c else (GG_ERR_OK, c)) = (GG_ERR_OK, c1) \<Longrightarrow>
      \<not> Suc d \<ge> GG_MAX_OBJECT_DEPTH \<Longrightarrow> level_ok (Suc d) ls' s r (path @ [i]) (xs ! i) \<Longrightarrow>
      run_level LEVEL_DEFAULT 0 ls' (path @ [i]) s c1 r =
        after h ls' (path @ [i]) r (visit_obj h (Suc d) s c1 (xs ! i))"
    and tail: "\<And>c1 s' c2 x. i < length xs \<Longrightarrow>
      (if i \<noteq> 0 then call0 (cont_list h) c else (GG_ERR_OK, c)) = (GG_ERR_OK, c1) \<Longrightarrow>
      \<not> Suc d \<ge> GG_MAX_OBJECT_DEPTH \<Longrightarrow>
      visit_obj h (Suc d) s c1 (xs ! i) = (GG_ERR_OK, s', c2, x) \<Longrightarrow>
      level_ok d ls s' (set_at r path (OBJ_LIST p (xs[i := x]))) path (OBJ_LIST p (xs[i := x])) \<Longrightarrow>
      run_level LEVEL_LIST (Suc i) ls path s' c2 (set_at r path (OBJ_LIST p (xs[i := x]))) =
        after h ls path (set_at r path (OBJ_LIST p (xs[i := x])))
          (visit_items h d s' c2 (OBJ_LIST p (xs[i := x])) (Suc i))"
  shows "run_level LEVEL_LIST i ls path s c r =
         after h ls path r (visit_items h d s c (OBJ_LIST p xs) i)"
proof -
  obtain e c1 where cont: "(if i \<noteq> 0 then call0 (cont_list h) c else (GG_ERR_OK, c)) = (e, c1)"
    by (cases "if i \<noteq> 0 then call0 (cont_list h) c else (GG_ERR_OK, c)")
  show ?thesis
  proof (cases "i = length xs \<or> e \<noteq> GG_ERR_OK \<or> Suc d \<ge> GG_MAX_OBJECT_DEPTH")
    case True
    then show ?thesis using run_items_stop [OF ok i] cont by blast
  next
    case False
    then have i': "i < length xs" and d: "\<not> Suc d \<ge> GG_MAX_OBJECT_DEPTH" and e: "e = GG_ERR_OK"
      using i by auto
    note cont1 = cont [unfolded e]
    let ?ls = "\<lparr>lv_obj = path, lv_state = LEVEL_LIST, lv_elem_index = Suc i\<rparr> # ls"
    have okd: "length ls = d" "path_ok r path" "Suc d \<le> GG_MAX_OBJECT_DEPTH" "s \<le> GG_MAX_OBJECT_SUBOBJECTS"
      using ok by (auto simp: level_ok_def)
    have "level_ok (Suc d) ?ls s r (path @ [i]) (xs ! i)"
      using level_ok_item [OF ok i'] d okd by simp
    note step = run_items_step [OF ok i' lim cont1 d inner [OF i' cont1 d this]]
    obtain e2 s' c2 x where v: "visit_obj h (Suc d) s c1 (xs ! i) = (e2, s', c2, x)"
      by (cases "visit_obj h (Suc d) s c1 (xs ! i)")
    have s': "s' \<le> GG_MAX_OBJECT_SUBOBJECTS"
      using subobjects_bound(1) [OF okd(4), of h "Suc d" c1 "xs ! i"] v by simp
    have vi: "visit_items h d s c (OBJ_LIST p xs) i =
        (if e2 \<noteq> GG_ERR_OK then (e2, s', c2, OBJ_LIST p (xs[i := x]))
         else visit_items h d s' c2 (OBJ_LIST p (xs[i := x])) (Suc i))"
      by (subst visit_items_list) (use cont1 i' d v in simp)
    show ?thesis
    proof (cases "e2 = GG_ERR_OK")
      case True
      have "level_ok d ls s' (set_at r path (OBJ_LIST p (xs[i := x]))) path (OBJ_LIST p (xs[i := x]))"
        using okd s' by (simp add: level_ok_def)
      from tail [OF i' cont1 d v [unfolded True] this] True v vi okd show ?thesis
        unfolding step by (simp add: after_def split: prod.splits)
    next
      case False
      with v vi okd show ?thesis
        unfolding step by (simp add: after_def)
    qed
  qed
qed

lemma run_pairs:
  assumes ok: "level_ok d ls s r path (OBJ_MAP p kvs)"
    and i: "i \<le> length kvs" and lim: "length kvs \<le> GG_MAX_OBJECT_SUBOBJECTS"
    and inner: "\<And>c1 c2 kv ls'. i < length kvs \<Longrightarrow>
      (if i \<noteq> 0 then call0 (cont_map h) c else (GG_ERR_OK, c)) = (GG_ERR_OK, c1) \<Longrightarrow>
      call2 (on_map_key h) c1 (fst (kvs ! i)) (kvs ! i) = (GG_ERR_OK, c2, kv) \<Longrightarrow>
      \<not> Suc d \<ge> GG_MAX_OBJECT_DEPTH \<Longrightarrow>
      level_ok (Suc d) ls' s (set_at r path (OBJ_MAP p (kvs[i := kv]))) (path @ [i]) (snd kv) \<Longrightarrow>
      run_level LEVEL_DEFAULT 0 ls' (path @ [i]) s c2 (set_at r path (OBJ_MAP p (kvs[i := kv]))) =
        after h ls' (path @ [i]) (set_at r path (OBJ_MAP p (kvs[i := kv])))
          (visit_obj h (Suc d) s c2 (snd kv))"
    and tail: "\<And>c1 c2 kv s' c3 x. i < length kvs \<Longrightarrow>
      (if i \<noteq> 0 then call0 (cont_map h) c else (GG_ERR_OK, c)) = (GG_ERR_OK, c1) \<Longrightarrow>
      call2 (on_map_key h) c1 (fst (kvs ! i)) (kvs ! i) = (GG_ERR_OK, c2, kv) \<Longrightarrow>
      \<not> Suc d \<ge> GG_MAX_OBJECT_DEPTH \<Longrightarrow>
      visit_obj h (Suc d) s c2 (snd kv) = (GG_ERR_OK, s', c3, x) \<Longrightarrow>
      level_ok d ls s' (set_at r path (OBJ_MAP p (kvs[i := (fst kv, x)]))) path
        (OBJ_MAP p (kvs[i := (fst kv, x)])) \<Longrightarrow>
      run_level LEVEL_MAP (Suc i) ls path s' c3 (set_at r path (OBJ_MAP p (kvs[i := (fst kv, x)]))) =
        after h ls path (set_at r path (OBJ_MAP p (kvs[i := (fst kv, x)])))
          (visit_pairs h d s' c3 (OBJ_MAP p (kvs[i := (fst kv, x)])) (Suc i))"
  shows "run_level LEVEL_MAP i ls path s c r =
         after h ls path r (visit_pairs h d s c (OBJ_MAP p kvs) i)"
proof -
  obtain e c1 where cont: "(if i \<noteq> 0 then call0 (cont_map h) c else (GG_ERR_OK, c)) = (e, c1)"
    by (cases "if i \<noteq> 0 then call0 (cont_map h) c else (GG_ERR_OK, c)")
  obtain ek c2 kv where keyc: "call2 (on_map_key h) c1 (fst (kvs ! i)) (kvs ! i) = (ek, c2, kv)"
    by (cases "call2 (on_map_key h) c1 (fst (kvs ! i)) (kvs ! i)")
  show ?thesis
  proof (cases "i = length kvs \<or> e \<noteq> GG_ERR_OK \<or> ek \<noteq> GG_ERR_OK \<or> Suc d \<ge> GG_MAX_OBJECT_DEPTH")
    case True
    then show ?thesis using run_pairs_stop [OF ok i] cont keyc by blast
  next
    case False
    then have i': "i < length kvs" and d: "\<not> Suc d \<ge> GG_MAX_OBJECT_DEPTH"
      and e: "e = GG_ERR_OK" "ek = GG_ERR_OK"
      using i by auto
    note cont1 = cont [unfolded e] and keyc1 = keyc [unfolded e]
    let ?ls = "\<lparr>lv_obj = path, lv_state = LEVEL_MAP, lv_elem_index = Suc i\<rparr> # ls"
    have okd: "length ls = d" "path_ok r path" "Suc d \<le> GG_MAX_OBJECT_DEPTH" "s \<le> GG_MAX_OBJECT_SUBOBJECTS"
      using ok by (auto simp: level_ok_def)
    have "level_ok (Suc d) ?ls s (set_at r path (OBJ_MAP p (kvs[i := kv]))) (path @ [i]) (snd kv)"
      using d okd i' by (simp add: level_ok_def path_ok_append get_at_append)
    note step = run_pairs_step [OF ok i' lim cont1 keyc1 d inner [OF i' cont1 keyc1 d this]]
    obtain e2 s' c3 x where v: "visit_obj h (Suc d) s c2 (snd kv) = (e2, s', c3, x)"
      by (cases "visit_obj h (Suc d) s c2 (snd kv)")
    have s': "s' \<le> GG_MAX_OBJECT_SUBOBJECTS"
      using subobjects_bound(1) [OF okd(4), of h "Suc d" c2 "snd kv"] v by simp
    have vp: "visit_pairs h d s c (OBJ_MAP p kvs) i =
        (if e2 \<noteq> GG_ERR_OK then (e2, s', c3, OBJ_MAP p (kvs[i := (fst kv, x)]))
         else visit_pairs h d s' c3 (OBJ_MAP p (kvs[i := (fst kv, x)])) (Suc i))"
      by (subst visit_pairs_map) (use cont1 keyc1 i' d v in simp)
    show ?thesis
    proof (cases "e2 = GG_ERR_OK")
      case True
      have "level_ok d ls s' (set_at r path (OBJ_MAP p (kvs[i := (fst kv, x)]))) path
              (OBJ_MAP p (kvs[i := (fst kv, x)]))"
        using okd s' by (simp add: level_ok_def)
      from tail [OF i' cont1 keyc1 d v [unfolded True] this] True v vp okd show ?thesis
        unfolding step by (simp add: after_def split: prod.splits)
    next
      case False
      with v vp okd show ?thesis
        unfolding step by (simp add: after_def)
    qed
  qed
qed

text \<open>The loop computes the recursive traversal.\<close>

lemma run_eq:
  "g = h \<Longrightarrow> level_ok d ls s r path obj \<Longrightarrow>
     run_level LEVEL_DEFAULT 0 ls path s c r = after h ls path r (visit_obj g d s c obj)"
  "g = h \<Longrightarrow> level_ok d ls s r path obj \<Longrightarrow> gg_obj_type obj = GG_TYPE_LIST \<Longrightarrow>
     i \<le> length (snd (gg_obj_into_list obj)) \<Longrightarrow>
     length (snd (gg_obj_into_list obj)) \<le> GG_MAX_OBJECT_SUBOBJECTS \<Longrightarrow>
     run_level LEVEL_LIST i ls path s c r = after h ls path r (visit_items g d s c obj i)"
  "g = h \<Longrightarrow> level_ok d ls s r path obj \<Longrightarrow> gg_obj_type obj = GG_TYPE_MAP \<Longrightarrow>
     i \<le> length (snd (gg_obj_into_map obj)) \<Longrightarrow>
     length (snd (gg_obj_into_map obj)) \<le> GG_MAX_OBJECT_SUBOBJECTS \<Longrightarrow>
     run_level LEVEL_MAP i ls path s c r = after h ls path r (visit_pairs g d s c obj i)"
proof (induction g d s c obj and g d s c obj i and g d s c obj i
    arbitrary: ls r path and ls r path and ls r path
    rule: visit_obj_visit_items_visit_pairs.induct)
  case (1 g d s c p xs)
  show ?case unfolding 1(2)
    by (rule run_obj_list [OF 1(3)], rule 1(1) [unfolded 1(2)]) (auto simp: 1(2))
next
  case (2 g d s c p kvs)
  show ?case unfolding 2(2)
    by (rule run_obj_map [OF 2(3)], rule 2(1) [unfolded 2(2)]) (auto simp: 2(2))
next
  case (3 g d s c v)
  obtain e c' obj where "call2 (on_buf h) c v (OBJ_BUF v) = (e, c', obj)"
    by (cases "call2 (on_buf h) c v (OBJ_BUF v)")
  then show ?case using 3
    by (subst visit_loop.simps)
       (auto simp: visit_step_def level_ok_def run_after_scalar after_def split: prod.splits)
next
  case (4 g d s c)
  then show ?case
    by (subst run_scalar [where ec = "call0 (on_null h) c"])
       (auto simp: visit_step_def level_ok_def split: prod.splits)
next
  case (5 g d s c b)
  then show ?case
    by (subst run_scalar [where ec = "call1 (on_bool h) c b"])
       (auto simp: visit_step_def level_ok_def split: prod.splits)
next
  case (6 g d s c v)
  then show ?case
    by (subst run_scalar [where ec = "call1 (on_i64 h) c v"])
       (auto simp: visit_step_def level_ok_def split: prod.splits)
next
  case (7 g d s c v)
  then show ?case
    by (subst run_scalar [where ec = "call1 (on_f64 h) c v"])
       (auto simp: visit_step_def level_ok_def split: prod.splits)
next
  case (8 g d s c p xs i)
  note g = 8(3) and ih1 = 8(1) [unfolded 8(3)] and ih2 = 8(2) [unfolded 8(3)]
  show ?case unfolding g
  proof (rule run_items [OF 8(4)])
    show "i \<le> length xs" "length xs \<le> GG_MAX_OBJECT_SUBOBJECTS" using 8 by auto
    fix c1 s' c2 x
    assume a: "i < length xs" "\<not> Suc d \<ge> GG_MAX_OBJECT_DEPTH"
      "(if i \<noteq> 0 then call0 (cont_list h) c else (GG_ERR_OK, c)) = (GG_ERR_OK, c1)"
      "visit_obj h (Suc d) s c1 (xs ! i) = (GG_ERR_OK, s', c2, x)"
      "level_ok d ls s' (set_at r path (OBJ_LIST p (xs[i := x]))) path (OBJ_LIST p (xs[i := x]))"
    show "run_level LEVEL_LIST (Suc i) ls path s' c2 (set_at r path (OBJ_LIST p (xs[i := x]))) =
        after h ls path (set_at r path (OBJ_LIST p (xs[i := x])))
          (visit_items h d s' c2 (OBJ_LIST p (xs[i := x])) (Suc i))"
      by (rule ih2 [OF _ a(3) [symmetric] _ _ a(4) [symmetric] refl refl _ refl a(5)])
         (use a 8(7) in auto)
  qed (rule ih1; use 8(4-7) in force)
next
  case (10 g d s c p kvs i)
  note g = 10(3) and ih1 = 10(1) [unfolded 10(3)] and ih2 = 10(2) [unfolded 10(3)]
  show ?case unfolding g
  proof (rule run_pairs [OF 10(4)])
    show "i \<le> length kvs" "length kvs \<le> GG_MAX_OBJECT_SUBOBJECTS" using 10 by auto
    fix c1 c2 kv s' c3 x
    assume a: "i < length kvs" "\<not> Suc d \<ge> GG_MAX_OBJECT_DEPTH"
      "(if i \<noteq> 0 then call0 (cont_map h) c else (GG_ERR_OK, c)) = (GG_ERR_OK, c1)"
      "call2 (on_map_key h) c1 (fst (kvs ! i)) (kvs ! i) = (GG_ERR_OK, c2, kv)"
      "visit_obj h (Suc d) s c2 (snd kv) = (GG_ERR_OK, s', c3, x)"
      "level_ok d ls s' (set_at r path (OBJ_MAP p (kvs[i := (fst kv, x)]))) path
         (OBJ_MAP p (kvs[i := (fst kv, x)]))"
    show "run_level LEVEL_MAP (Suc i) ls path s' c3
          (set_at r path (OBJ_MAP p (kvs[i := (fst kv, x)]))) =
        after h ls path (set_at r path (OBJ_MAP p (kvs[i := (fst kv, x)])))
          (visit_pairs h d s' c3 (OBJ_MAP p (kvs[i := (fst kv, x)])) (Suc i))"
      by (rule ih2 [OF _ a(3) [symmetric] _ a(4) [symmetric] refl _ _ a(5) [symmetric] refl refl _ refl a(6)])
         (use a 10(7) in auto)
  next
    fix c1 c2 kv ls'
    assume a: "i < length kvs" "\<not> Suc d \<ge> GG_MAX_OBJECT_DEPTH"
      "(if i \<noteq> 0 then call0 (cont_map h) c else (GG_ERR_OK, c)) = (GG_ERR_OK, c1)"
      "call2 (on_map_key h) c1 (fst (kvs ! i)) (kvs ! i) = (GG_ERR_OK, c2, kv)"
      "level_ok (Suc d) ls' s (set_at r path (OBJ_MAP p (kvs[i := kv]))) (path @ [i]) (snd kv)"
    show "run_level LEVEL_DEFAULT 0 ls' (path @ [i]) s c2 (set_at r path (OBJ_MAP p (kvs[i := kv]))) =
        after h ls' (path @ [i]) (set_at r path (OBJ_MAP p (kvs[i := kv])))
          (visit_obj h (Suc d) s c2 (snd kv))"
      by (rule ih1 [OF _ a(3) [symmetric] _ a(4) [symmetric] refl _ _ refl a(5)]) (use a in auto)
  qed
qed auto

lemma gg_obj_visit_eq:
  "gg_obj_visit h c obj = Some (case visit_obj h 0 0 c obj of (e, s, c', obj') \<Rightarrow> (e, c', obj'))"
proof -
  have "level_ok 0 [] 0 obj [] obj"
    by (simp add: level_ok_def GG_MAX_OBJECT_DEPTH_def)
  from run_eq(1) [OF refl this] show ?thesis
    by (simp add: gg_obj_visit_def after_def resume_def split: prod.split)
qed

end

section \<open>Traversal without handlers: the limits\<close>

interpretation plain: visit_handlers no_handlers
  by unfold_locales (auto simp: no_handlers_def)

text \<open>Nesting depth (a scalar has depth 1) and number of subobjects, keys included.\<close>

fun obj_depth :: "GgObject \<Rightarrow> nat" where
  "obj_depth (OBJ_LIST p xs) = Suc (foldr max (map obj_depth xs) 0)"
| "obj_depth (OBJ_MAP p kvs) = Suc (foldr max (map (obj_depth \<circ> snd) kvs) 0)"
| "obj_depth _ = 1"

fun obj_subobjects :: "GgObject \<Rightarrow> nat" where
  "obj_subobjects (OBJ_LIST p xs) = length xs + sum_list (map obj_subobjects xs)"
| "obj_subobjects (OBJ_MAP p kvs) = 2 * length kvs + sum_list (map (obj_subobjects \<circ> snd) kvs)"
| "obj_subobjects _ = 0"

definition within_limits :: "nat \<Rightarrow> nat \<Rightarrow> GgObject \<Rightarrow> bool" where
  "within_limits d s obj =
     (d + obj_depth obj \<le> GG_MAX_OBJECT_DEPTH \<and> s + obj_subobjects obj \<le> GG_MAX_OBJECT_SUBOBJECTS)"

text \<open>The elements from index \<open>i\<close> on of a list at depth \<open>d\<close>.\<close>

definition items_within :: "nat \<Rightarrow> nat \<Rightarrow> GgObject list \<Rightarrow> bool" where
  "items_within d s xs =
     ((\<forall>x \<in> set xs. Suc d + obj_depth x \<le> GG_MAX_OBJECT_DEPTH) \<and>
      s + sum_list (map obj_subobjects xs) \<le> GG_MAX_OBJECT_SUBOBJECTS)"

lemma items_within_Nil [simp]: "items_within d s [] \<longleftrightarrow> s \<le> GG_MAX_OBJECT_SUBOBJECTS"
  by (simp add: items_within_def)

lemma items_within_Cons [simp]:
  "items_within d s (x # xs) \<longleftrightarrow>
     within_limits (Suc d) s x \<and> items_within d (s + obj_subobjects x) xs"
  by (auto simp: items_within_def within_limits_def add.assoc)

lemma foldr_max_le: "foldr max xs (0::nat) \<le> n \<longleftrightarrow> (\<forall>x \<in> set xs. x \<le> n)"
  by (induction xs) auto

lemma Suc_foldr_max_le:
  "d + Suc (foldr max xs 0) \<le> n \<longleftrightarrow> Suc d \<le> n \<and> (\<forall>x \<in> set xs. Suc d + x \<le> n)"
  using foldr_max_le [of xs "n - Suc d"] by (cases "Suc d \<le> n") (auto simp: le_diff_conv2)

lemma within_list:
  "Suc d \<le> GG_MAX_OBJECT_DEPTH \<Longrightarrow>
   within_limits d s (OBJ_LIST p xs) \<longleftrightarrow> items_within d (s + length xs) xs"
  by (auto simp: within_limits_def items_within_def Suc_foldr_max_le simp del: add_Suc_right)

lemma within_map:
  "Suc d \<le> GG_MAX_OBJECT_DEPTH \<Longrightarrow>
   within_limits d s (OBJ_MAP p kvs) \<longleftrightarrow> items_within d (s + 2 * length kvs) (map snd kvs)"
  by (auto simp: within_limits_def items_within_def Suc_foldr_max_le comp_def simp del: add_Suc_right)

lemma no_handlers_calls [simp]:
  "call0 (on_null no_handlers) c = (GG_ERR_OK, c)"
  "call1 (on_bool no_handlers) c b = (GG_ERR_OK, c)"
  "call1 (on_i64 no_handlers) c v = (GG_ERR_OK, c)"
  "call1 (on_f64 no_handlers) c v = (GG_ERR_OK, c)"
  "call2 (on_buf no_handlers) c bf obj = (GG_ERR_OK, c, obj)"
  "call2 (on_list no_handlers) c l obj = (GG_ERR_OK, c, obj)"
  "call0 (cont_list no_handlers) c = (GG_ERR_OK, c)"
  "call0 (end_list no_handlers) c = (GG_ERR_OK, c)"
  "call2 (on_map no_handlers) c m obj = (GG_ERR_OK, c, obj)"
  "call2 (on_map_key no_handlers) c k kv = (GG_ERR_OK, c, kv)"
  "call0 (cont_map no_handlers) c = (GG_ERR_OK, c)"
  "call0 (end_map no_handlers) c = (GG_ERR_OK, c)"
  by (simp_all add: no_handlers_def)

lemma drop_cons: "i < length xs \<Longrightarrow> drop i xs = xs ! i # drop (Suc i) xs"
  by (simp add: Cons_nth_drop_Suc)

lemma within_limits_depth: "within_limits d s obj \<Longrightarrow> Suc d \<le> GG_MAX_OBJECT_DEPTH"
  by (cases obj) (auto simp: within_limits_def)

lemma within_limits_subobjects:
  "within_limits d s obj \<Longrightarrow> s + obj_subobjects obj \<le> GG_MAX_OBJECT_SUBOBJECTS"
  by (simp add: within_limits_def)

definition plain_result :: "bool \<Rightarrow> nat \<Rightarrow> 'c \<Rightarrow> GgObject \<Rightarrow> 'c rec_result \<Rightarrow> bool" where
  \<comment> \<open>the traversal succeeded counting up to \<open>s\<close>, or failed with \<open>GG_ERR_RANGE\<close>\<close>
  "plain_result ok s c obj r =
     (if ok then r = (GG_ERR_OK, s, c, obj) else fst r = GG_ERR_RANGE \<and> snd (snd r) = (c, obj))"

lemma visit_plain:
  "h = no_handlers \<Longrightarrow> Suc d \<le> GG_MAX_OBJECT_DEPTH \<Longrightarrow> s \<le> GG_MAX_OBJECT_SUBOBJECTS \<Longrightarrow>
     plain_result (within_limits d s obj) (s + obj_subobjects obj) c obj (visit_obj h d s c obj)"
  "h = no_handlers \<Longrightarrow> Suc d \<le> GG_MAX_OBJECT_DEPTH \<Longrightarrow> s \<le> GG_MAX_OBJECT_SUBOBJECTS \<Longrightarrow>
     plain_result (items_within d s (drop i (snd (gg_obj_into_list obj))))
       (s + sum_list (map obj_subobjects (drop i (snd (gg_obj_into_list obj))))) c obj
       (visit_items h d s c obj i)"
  "h = no_handlers \<Longrightarrow> Suc d \<le> GG_MAX_OBJECT_DEPTH \<Longrightarrow> s \<le> GG_MAX_OBJECT_SUBOBJECTS \<Longrightarrow>
     plain_result (items_within d s (map snd (drop i (snd (gg_obj_into_map obj)))))
       (s + sum_list (map obj_subobjects (map snd (drop i (snd (gg_obj_into_map obj)))))) c obj
       (visit_pairs h d s c obj i)"
proof (induction h d s c obj and h d s c obj i and h d s c obj i
    rule: visit_obj_visit_items_visit_pairs.induct)
  case (1 h d s c p xs)
  then show ?case by (auto simp: within_list plain_result_def items_within_def add.assoc)
next
  case (2 h d s c p kvs)
  then show ?case by (auto simp: within_map plain_result_def items_within_def add.assoc comp_def)
next
  case (8 h d s c p xs i)
  note [simp] = 8(3)
  show ?case
  proof (cases "i < length xs \<and> Suc d < GG_MAX_OBJECT_DEPTH")
    case True
    then have "plain_result (within_limits (Suc d) s (xs ! i)) (s + obj_subobjects (xs ! i)) c (xs ! i)
        (visit_obj no_handlers (Suc d) s c (xs ! i))"
      using 8(1) [of GG_ERR_OK c] 8(5) by simp
    moreover have "within_limits (Suc d) s (xs ! i) \<Longrightarrow>
        plain_result (items_within d (s + obj_subobjects (xs ! i)) (drop (Suc i) xs))
          (s + obj_subobjects (xs ! i) + sum_list (map obj_subobjects (drop (Suc i) xs))) c
          (OBJ_LIST p xs) (visit_items no_handlers d (s + obj_subobjects (xs ! i)) c (OBJ_LIST p xs) (Suc i))"
      using 8(2) [of GG_ERR_OK c GG_ERR_OK _ "s + obj_subobjects (xs ! i)" _ c "xs ! i"]
        within_limits_subobjects True 8(4) calculation by (auto simp: plain_result_def)
    ultimately show ?thesis using True
      by (subst visit_items_list)
         (auto simp: drop_cons plain_result_def add.assoc split: prod.split if_splits)
  next
    case False
    then show ?thesis using 8(5) within_limits_depth [of "Suc d" s "xs ! i"]
      by (subst visit_items_list) (auto simp: plain_result_def drop_cons split: prod.split)
  qed
next
  case (10 h d s c p kvs i)
  note [simp] = 10(3)
  show ?case
  proof (cases "i < length kvs \<and> Suc d < GG_MAX_OBJECT_DEPTH")
    case True
    let ?x = "snd (kvs ! i)"
    have "plain_result (within_limits (Suc d) s ?x) (s + obj_subobjects ?x) c ?x
        (visit_obj no_handlers (Suc d) s c ?x)"
      using 10(1) [of GG_ERR_OK c GG_ERR_OK _ c "kvs ! i"] 10(5) True by simp
    moreover have "within_limits (Suc d) s ?x \<Longrightarrow>
        plain_result (items_within d (s + obj_subobjects ?x) (map snd (drop (Suc i) kvs)))
          (s + obj_subobjects ?x + sum_list (map obj_subobjects (map snd (drop (Suc i) kvs)))) c
          (OBJ_MAP p kvs) (visit_pairs no_handlers d (s + obj_subobjects ?x) c (OBJ_MAP p kvs) (Suc i))"
      using 10(2) [of GG_ERR_OK c GG_ERR_OK _ c "kvs ! i" GG_ERR_OK _ "s + obj_subobjects ?x" _ c ?x]
        within_limits_subobjects True 10(4) calculation by (auto simp: plain_result_def)
    ultimately show ?thesis using True
      by (subst visit_pairs_map)
         (auto simp: drop_cons plain_result_def add.assoc split: prod.split if_splits)
  next
    case False
    then show ?thesis using 10(5) within_limits_depth [of "Suc d" s "snd (kvs ! i)"]
      by (subst visit_pairs_map) (auto simp: plain_result_def drop_cons split: prod.split)
  qed
qed (auto simp: plain_result_def within_limits_def visit_items_other visit_pairs_other)

text \<open>
  With no handlers, \<open>gg_obj_visit\<close> always returns, leaves the context and the object
  alone, and succeeds exactly for objects of depth at most \<open>GG_MAX_OBJECT_DEPTH\<close> with at most
  \<open>GG_MAX_OBJECT_SUBOBJECTS\<close> subobjects (a map counts two per pair); otherwise it returns
  \<open>GG_ERR_RANGE\<close>.
\<close>

theorem gg_obj_visit_limits:
  "gg_obj_visit no_handlers c obj =
     Some (if obj_depth obj \<le> GG_MAX_OBJECT_DEPTH \<and> obj_subobjects obj \<le> GG_MAX_OBJECT_SUBOBJECTS
           then GG_ERR_OK else GG_ERR_RANGE, c, obj)"
  using visit_plain(1) [of no_handlers 0 0 obj c]
  by (auto simp: plain.gg_obj_visit_eq plain_result_def within_limits_def GG_MAX_OBJECT_DEPTH_def
      split: prod.split if_splits)

text \<open>
  C2: Whatever the handlers do to the context, to buffers and to keys, as long as list and map
  handlers do not grow the list or map they are given, the loop over the fixed-size stack
  returns, and its result is that of the recursive traversal \<open>visit_obj\<close>.
\<close>

theorem gg_obj_visit_refines_recursion:
  assumes "\<And>c p xs c' obj. call2 (on_list h) c (p, xs) (OBJ_LIST p xs) = (GG_ERR_OK, c', obj) \<Longrightarrow>
             \<exists>p' xs'. obj = OBJ_LIST p' xs' \<and> length xs' \<le> length xs"
    and "\<And>c p kvs c' obj. call2 (on_map h) c (p, kvs) (OBJ_MAP p kvs) = (GG_ERR_OK, c', obj) \<Longrightarrow>
             \<exists>p' kvs'. obj = OBJ_MAP p' kvs' \<and> length kvs' \<le> length kvs"
  shows "gg_obj_visit h c obj =
           Some (case visit_obj h 0 0 c obj of (e, s, c', obj') \<Rightarrow> (e, c', obj'))"
  using visit_handlers.gg_obj_visit_eq [of h] visit_handlers.intro [of h] assms by blast

theorem gg_obj_visit_refines_recursion_witness:
  "gg_obj_visit (no_handlers\<lparr>on_i64 := Some (\<lambda>c v. (GG_ERR_OK, c + unat v))\<rparr>) (0 :: nat)
       (OBJ_LIST 0 [OBJ_I64 4, OBJ_MAP 0 [(GG_STR ''k'', OBJ_I64 38)]]) =
     Some (GG_ERR_OK, 42, OBJ_LIST 0 [OBJ_I64 4, OBJ_MAP 0 [(GG_STR ''k'', OBJ_I64 38)]])"
  by (subst gg_obj_visit_refines_recursion)
     (auto simp: no_handlers_def visit_items.simps visit_pairs.simps GG_MAX_OBJECT_SUBOBJECTS_def
        GG_MAX_OBJECT_DEPTH_def)

section \<open>Handlers that only reject maps\<close>

text \<open>
  Handlers whose calls succeed, except that a map that fails \<open>okm\<close> may be rejected with
  the error \<open>fe\<close>: the context is updated by \<open>ub\<close>, \<open>ul\<close>, \<open>um\<close> and \<open>uk\<close>, and a map is rewritten
  to \<open>rw kvs\<close>. The remaining parameters are the functions on whole objects that the
  traversal computes: the object it leaves, the number of subobjects it counts, whether it
  accepts the object, and the context it ends with.
\<close>

locale map_check_handlers = visit_handlers h for h :: "'c GgObjectVisitHandlers" +
  fixes ub :: "'c \<Rightarrow> GgBuffer \<Rightarrow> 'c" and ul :: "'c \<Rightarrow> GgObject list \<Rightarrow> 'c"
    and um :: "'c \<Rightarrow> GgKV list \<Rightarrow> 'c" and uk :: "'c \<Rightarrow> GgBuffer \<Rightarrow> 'c"
    and rw :: "GgKV list \<Rightarrow> GgKV list" and okm :: "GgKV list \<Rightarrow> bool" and fe :: GgError
    and ro :: "GgObject \<Rightarrow> GgObject" and cnt :: "GgObject \<Rightarrow> nat"
    and acc :: "GgObject \<Rightarrow> bool" and upd :: "GgObject \<Rightarrow> 'c \<Rightarrow> 'c"
  assumes calls [simp]:
      "call0 (on_null h) c = (GG_ERR_OK, c)" "call1 (on_bool h) c b = (GG_ERR_OK, c)"
      "call1 (on_i64 h) c v = (GG_ERR_OK, c)" "call1 (on_f64 h) c v = (GG_ERR_OK, c)"
      "call2 (on_buf h) c bf (OBJ_BUF bf) = (GG_ERR_OK, ub c bf, OBJ_BUF bf)"
      "call2 (on_list h) c (p, xs) (OBJ_LIST p xs) = (GG_ERR_OK, ul c xs, OBJ_LIST p xs)"
      "call0 (cont_list h) c = (GG_ERR_OK, c)" "call0 (end_list h) c = (GG_ERR_OK, c)"
      "call2 (on_map_key h) c (fst kv) kv = (GG_ERR_OK, uk c (fst kv), kv)"
      "call0 (cont_map h) c = (GG_ERR_OK, c)" "call0 (end_map h) c = (GG_ERR_OK, c)"
    and fe: "fe \<noteq> GG_ERR_OK"
    and map_reject: "length kvs \<le> GG_MAX_OBJECT_SUBOBJECTS \<Longrightarrow> \<not> okm kvs \<Longrightarrow>
      fst (call2 (on_map h) c (p, kvs) (OBJ_MAP p kvs)) = fe"
    and map_call: "length kvs \<le> GG_MAX_OBJECT_SUBOBJECTS \<Longrightarrow> okm kvs \<Longrightarrow>
      call2 (on_map h) c (p, kvs) (OBJ_MAP p kvs) = (GG_ERR_OK, um c kvs, OBJ_MAP p (rw kvs))"
    and ro_rec:
      "ro (OBJ_LIST p xs) = OBJ_LIST p (map ro xs)"
      "ro (OBJ_MAP p kvs) = OBJ_MAP p (map (\<lambda>kv. (fst kv, ro (snd kv))) (rw kvs))"
    and ro_scalar [simp]: "ro OBJ_NULL = OBJ_NULL" "ro (OBJ_BOOLEAN b) = OBJ_BOOLEAN b"
      "ro (OBJ_I64 v) = OBJ_I64 v" "ro (OBJ_F64 v) = OBJ_F64 v" "ro (OBJ_BUF bf) = OBJ_BUF bf"
    and cnt_rec:
      "cnt (OBJ_LIST p xs) = length xs + sum_list (map cnt xs)"
      "cnt (OBJ_MAP p kvs) = 2 * length kvs + sum_list (map (cnt \<circ> snd) (rw kvs))"
    and cnt_scalar [simp]: "cnt OBJ_NULL = 0" "cnt (OBJ_BOOLEAN b) = 0"
      "cnt (OBJ_I64 v) = 0" "cnt (OBJ_F64 v) = 0" "cnt (OBJ_BUF bf) = 0"
    and acc_rec:
      "acc (OBJ_LIST p xs) = list_all acc xs"
      "acc (OBJ_MAP p kvs) = (okm kvs \<and> list_all (acc \<circ> snd) (rw kvs))"
    and acc_scalar [simp]: "acc OBJ_NULL" "acc (OBJ_BOOLEAN b)"
      "acc (OBJ_I64 v)" "acc (OBJ_F64 v)" "acc (OBJ_BUF bf)"
    and upd_rec:
      "upd (OBJ_LIST p xs) c = fold upd xs (ul c xs)"
      "upd (OBJ_MAP p kvs) c = fold (\<lambda>kv c. upd (snd kv) (uk c (fst kv))) (rw kvs) (um c kvs)"
    and upd_scalar [simp]: "upd OBJ_NULL c = c" "upd (OBJ_BOOLEAN b) c = c"
      "upd (OBJ_I64 v) c = c" "upd (OBJ_F64 v) c = c" "upd (OBJ_BUF bf) c = ub c bf"
begin

definition fits :: "nat \<Rightarrow> nat \<Rightarrow> GgObject \<Rightarrow> bool" where
  "fits d s obj =
     (acc obj \<and> d + obj_depth (ro obj) \<le> GG_MAX_OBJECT_DEPTH \<and> s + cnt obj \<le> GG_MAX_OBJECT_SUBOBJECTS)"

definition all_fit :: "nat \<Rightarrow> nat \<Rightarrow> GgObject list \<Rightarrow> bool" where
  "all_fit d s xs =
     (list_all acc xs \<and> (\<forall>x \<in> set xs. Suc d + obj_depth (ro x) \<le> GG_MAX_OBJECT_DEPTH) \<and>
      s + sum_list (map cnt xs) \<le> GG_MAX_OBJECT_SUBOBJECTS)"

lemma all_fit_Nil [simp]: "all_fit d s [] \<longleftrightarrow> s \<le> GG_MAX_OBJECT_SUBOBJECTS"
  by (simp add: all_fit_def)

lemma all_fit_Cons [simp]: "all_fit d s (x # xs) \<longleftrightarrow> fits (Suc d) s x \<and> all_fit d (s + cnt x) xs"
  by (auto simp: all_fit_def fits_def add.assoc)

lemma fits_list:
  "Suc d \<le> GG_MAX_OBJECT_DEPTH \<Longrightarrow> fits d s (OBJ_LIST p xs) \<longleftrightarrow> all_fit d (s + length xs) xs"
  by (auto simp: fits_def all_fit_def ro_rec cnt_rec acc_rec list_all_iff Suc_foldr_max_le comp_def simp del: add_Suc_right)

lemma fits_map:
  "Suc d \<le> GG_MAX_OBJECT_DEPTH \<Longrightarrow>
   fits d s (OBJ_MAP p kvs) \<longleftrightarrow> okm kvs \<and> all_fit d (s + 2 * length kvs) (map snd (rw kvs))"
  by (auto simp: fits_def all_fit_def ro_rec cnt_rec acc_rec list_all_iff Suc_foldr_max_le comp_def simp del: add_Suc_right)

lemma fits_depth: "fits d s obj \<Longrightarrow> Suc d \<le> GG_MAX_OBJECT_DEPTH"
  by (cases "ro obj") (auto simp: fits_def)

lemma fits_cnt: "fits d s obj \<Longrightarrow> s + cnt obj \<le> GG_MAX_OBJECT_SUBOBJECTS"
  by (simp add: fits_def)

definition checked_result :: "bool \<Rightarrow> 'c rec_result \<Rightarrow> 'c rec_result \<Rightarrow> bool" where
  "checked_result ok expected r = (if ok then r = expected else fst r = GG_ERR_RANGE \<or> fst r = fe)"

lemma visit_checked:
  "g = h \<Longrightarrow> Suc d \<le> GG_MAX_OBJECT_DEPTH \<Longrightarrow> s \<le> GG_MAX_OBJECT_SUBOBJECTS \<Longrightarrow>
     checked_result (fits d s obj) (GG_ERR_OK, s + cnt obj, upd obj c, ro obj) (visit_obj g d s c obj)"
  "g = h \<Longrightarrow> Suc d \<le> GG_MAX_OBJECT_DEPTH \<Longrightarrow> s \<le> GG_MAX_OBJECT_SUBOBJECTS \<Longrightarrow>
     gg_obj_type obj = GG_TYPE_LIST \<Longrightarrow>
     (let (p, xs) = gg_obj_into_list obj in
        checked_result (all_fit d s (drop i xs))
          (GG_ERR_OK, s + sum_list (map cnt (drop i xs)), fold upd (drop i xs) c,
           OBJ_LIST p (take i xs @ map ro (drop i xs)))
          (visit_items g d s c obj i))"
  "g = h \<Longrightarrow> Suc d \<le> GG_MAX_OBJECT_DEPTH \<Longrightarrow> s \<le> GG_MAX_OBJECT_SUBOBJECTS \<Longrightarrow>
     gg_obj_type obj = GG_TYPE_MAP \<Longrightarrow>
     (let (p, kvs) = gg_obj_into_map obj in
        checked_result (all_fit d s (map snd (drop i kvs)))
          (GG_ERR_OK, s + sum_list (map (cnt \<circ> snd) (drop i kvs)),
           fold (\<lambda>kv c. upd (snd kv) (uk c (fst kv))) (drop i kvs) c,
           OBJ_MAP p (take i kvs @ map (\<lambda>kv. (fst kv, ro (snd kv))) (drop i kvs)))
          (visit_pairs g d s c obj i))"
proof (induction g d s c obj and g d s c obj i and g d s c obj i
    rule: visit_obj_visit_items_visit_pairs.induct)
  case (1 g d s c p xs)
  then show ?case
    by (auto simp: fits_list checked_result_def all_fit_def ro_rec cnt_rec upd_rec add.assoc)
next
  case (2 g d s c p kvs)
  note [simp] = 2(2)
  show ?case
  proof (cases "2 * length kvs \<le> GG_MAX_OBJECT_SUBOBJECTS - s")
    case True
    then have "length kvs \<le> GG_MAX_OBJECT_SUBOBJECTS" by linarith
    then show ?thesis using 2(1,3,4) True fe map_call [of kvs c p] map_reject [of kvs c p]
      by (cases "okm kvs")
         (auto simp: fits_map checked_result_def ro_rec cnt_rec upd_rec add.assoc comp_def split: prod.split)
  next
    case False
    then show ?thesis using 2(3,4)
      by (auto simp: fits_map checked_result_def all_fit_def split: prod.split)
  qed
next
  case (8 g d s c p xs i)
  note [simp] = 8(3)
  show ?case
  proof (cases "i < length xs \<and> Suc d < GG_MAX_OBJECT_DEPTH")
    case True
    let ?x = "xs ! i" let ?xs = "xs[i := ro ?x]"
    have inner: "checked_result (fits (Suc d) s ?x) (GG_ERR_OK, s + cnt ?x, upd ?x c, ro ?x)
        (visit_obj h (Suc d) s c ?x)"
      using 8(1) [of GG_ERR_OK c] 8(5) True by simp
    moreover have "fits (Suc d) s ?x \<Longrightarrow>
        checked_result (all_fit d (s + cnt ?x) (drop (Suc i) xs))
          (GG_ERR_OK, s + cnt ?x + sum_list (map cnt (drop (Suc i) xs)),
           fold upd (drop (Suc i) xs) (upd ?x c), OBJ_LIST p (take (Suc i) ?xs @ map ro (drop (Suc i) xs)))
          (visit_items h d (s + cnt ?x) (upd ?x c) (OBJ_LIST p ?xs) (Suc i))"
      using 8(2) [of GG_ERR_OK c GG_ERR_OK _ "s + cnt ?x" _ "upd ?x c" "ro ?x"]
        fits_cnt True 8(4) inner by (auto simp: checked_result_def)
    ultimately show ?thesis using True fe
      by (subst visit_items_list)
         (auto simp: drop_cons checked_result_def add.assoc take_Suc_conv_app_nth split: prod.split if_splits)
  next
    case False
    then show ?thesis using 8(5) fits_depth [of "Suc d" s "xs ! i"]
      by (subst visit_items_list) (auto simp: checked_result_def drop_cons split: prod.split)
  qed
next
  case (10 g d s c p kvs i)
  note [simp] = 10(3)
  show ?case
  proof (cases "i < length kvs \<and> Suc d < GG_MAX_OBJECT_DEPTH")
    case True
    let ?kv = "kvs ! i" let ?x = "snd ?kv" let ?c = "uk c (fst ?kv)" let ?kvs = "kvs[i := (fst ?kv, ro ?x)]"
    have inner: "checked_result (fits (Suc d) s ?x) (GG_ERR_OK, s + cnt ?x, upd ?x ?c, ro ?x)
        (visit_obj h (Suc d) s ?c ?x)"
      using 10(1) [of GG_ERR_OK c GG_ERR_OK _ ?c ?kv] 10(5) True by simp
    moreover have "fits (Suc d) s ?x \<Longrightarrow>
        checked_result (all_fit d (s + cnt ?x) (map snd (drop (Suc i) kvs)))
          (GG_ERR_OK, s + cnt ?x + sum_list (map (cnt \<circ> snd) (drop (Suc i) kvs)),
           fold (\<lambda>kv c. upd (snd kv) (uk c (fst kv))) (drop (Suc i) kvs) (upd ?x ?c),
           OBJ_MAP p (take (Suc i) ?kvs @ map (\<lambda>kv. (fst kv, ro (snd kv))) (drop (Suc i) kvs)))
          (visit_pairs h d (s + cnt ?x) (upd ?x ?c) (OBJ_MAP p ?kvs) (Suc i))"
    proof -
      have cont: "(if i \<noteq> 0 then call0 (cont_map h) c else (GG_ERR_OK, c)) = (GG_ERR_OK, c)" by simp
      assume fit: "fits (Suc d) s ?x"
      then have v: "visit_obj h (Suc d) s ?c ?x = (GG_ERR_OK, s + cnt ?x, upd ?x ?c, ro ?x)"
        using inner by (simp add: checked_result_def)
      have "let (p, kvs) = gg_obj_into_map (OBJ_MAP p ?kvs) in
          checked_result (all_fit d (s + cnt ?x) (map snd (drop (Suc i) kvs)))
            (GG_ERR_OK, s + cnt ?x + sum_list (map (cnt \<circ> snd) (drop (Suc i) kvs)),
             fold (\<lambda>kv c. upd (snd kv) (uk c (fst kv))) (drop (Suc i) kvs) (upd ?x ?c),
             OBJ_MAP p (take (Suc i) kvs @ map (\<lambda>kv. (fst kv, ro (snd kv))) (drop (Suc i) kvs)))
            (visit_pairs h d (s + cnt ?x) (upd ?x ?c) (OBJ_MAP p ?kvs) (Suc i))"
        using 10(2) [unfolded 10(3), of GG_ERR_OK c GG_ERR_OK _ ?c ?kv, OF _ cont [symmetric] _ _ refl _ _ v [symmetric] refl refl]
          fits_cnt [OF fit] True 10(4) by (simp add: comp_def)
      then show ?thesis by simp
    qed
    ultimately show ?thesis using True fe
      by (subst visit_pairs_map)
         (auto simp: drop_cons checked_result_def add.assoc take_Suc_conv_app_nth split: prod.split if_splits)
  next
    case False
    then show ?thesis using 10(5) fits_depth [of "Suc d" s "snd (kvs ! i)"]
      by (subst visit_pairs_map) (auto simp: checked_result_def drop_cons split: prod.split)
  qed
qed (auto simp: checked_result_def fits_def)

lemma gg_obj_visit_checked:
  "if acc obj \<and> obj_depth (ro obj) \<le> GG_MAX_OBJECT_DEPTH \<and> cnt obj \<le> GG_MAX_OBJECT_SUBOBJECTS
   then gg_obj_visit h c obj = Some (GG_ERR_OK, upd obj c, ro obj)
   else \<exists>e c' obj'. gg_obj_visit h c obj = Some (e, c', obj') \<and> (e = GG_ERR_RANGE \<or> e = fe)"
  using visit_checked(1) [of h 0 0 obj c] fe
  by (auto simp: gg_obj_visit_eq checked_result_def fits_def GG_MAX_OBJECT_DEPTH_def
      split: prod.split if_splits)

end

end
