(* ===== verification/Json_Encode.thy ===== *)
theory Json_Encode
  imports Vector Object_Visit
begin

text \<open>
  JSON encoding (\<open>priv_include/gg/json_encode.h\<close>, \<open>src/json_encode.c\<close>).

  The encoder is a set of handlers for \<open>gg_obj_visit\<close> that write to a writer; the context of
  the traversal is the state behind the writer. The text that \<open>snprintf\<close> produces for a
  double (\<open>"%#.*g"\<close> with 17 digits) is a parameter \<open>fmt\<close>; \<open>None\<close> is its negative return value.

  The locale \<open>appending_writer\<close> states what an encoder needs of a writer (it appends what
  fits and reports \<open>GG_ERR_NOMEM\<close> otherwise); byte vectors and buffer writers interpret it.
  Lemmas: the traversal returns, succeeds exactly if the object is within the limits of the
  traversal, its numbers fit the conversion buffers and the text fits the writer, and has then
  written \<open>json_text\<close>; integers of 19 characters come out truncated.
\<close>

section \<open>Conversions by \<open>snprintf\<close>\<close>

type_synonym f64_format = "f64 \<Rightarrow> byte list option"

fun nat_digits :: "nat \<Rightarrow> byte list" where
  "nat_digits n = (if n < 10 then [of_nat (48 + n)] else nat_digits (n div 10) @ [of_nat (48 + n mod 10)])"

declare nat_digits.simps [simp del]

definition format_i64 :: "u64 \<Rightarrow> byte list" where
  \<comment> \<open>\<open>PRId64\<close>\<close>
  "format_i64 v = (if sint v < 0 then [45] else []) @ nat_digits (nat \<bar>sint v\<bar>)"

definition hex_digit :: "nat \<Rightarrow> byte" where
  \<comment> \<open>a digit of \<open>%X\<close>\<close>
  "hex_digit n = (if n < 10 then of_nat (48 + n) else of_nat (55 + n))"

definition sprintf_buf :: "nat \<Rightarrow> byte list \<Rightarrow> byte list" where
  \<comment> \<open>a buffer of \<open>n\<close> bytes after \<open>snprintf\<close>: at most \<open>n - 1\<close> characters, then NUL\<close>
  "sprintf_buf n text = take (n - 1) text @ [0]"

section \<open>Handlers\<close>

definition json_encode_on_null :: "'s GgWriter \<Rightarrow> 's \<Rightarrow> GgError \<times> 's" where
  "json_encode_on_null writer s = gg_writer_call writer s (bytes_of ''null'')"

definition json_encode_on_bool :: "'s GgWriter \<Rightarrow> 's \<Rightarrow> bool \<Rightarrow> GgError \<times> 's" where
  "json_encode_on_bool writer s val =
     gg_writer_call writer s (if val then bytes_of ''true'' else bytes_of ''false'')"

definition json_encode_on_i64 :: "'s GgWriter \<Rightarrow> 's \<Rightarrow> u64 \<Rightarrow> GgError \<times> 's" where
  "json_encode_on_i64 writer s val =
     (let encoded = sprintf_buf 19 (format_i64 val); ret_len = length (format_i64 val)
      in if ret_len > 19 then (GG_ERR_NOMEM, s)
         else gg_writer_call writer s (take ret_len encoded))"

definition json_encode_on_f64 :: "f64_format \<Rightarrow> 's GgWriter \<Rightarrow> 's \<Rightarrow> f64 \<Rightarrow> GgError \<times> 's" where
  "json_encode_on_f64 fmt writer s val =
     (case fmt val of
        None \<Rightarrow> (GG_ERR_FAILURE, s)
      | Some text \<Rightarrow>
          (let encoded = sprintf_buf 26 text; ret_len = length text
           in if ret_len > 26 then (GG_ERR_NOMEM, s)
              else gg_writer_call writer s (take ret_len encoded)))"

definition json_write_buf_byte :: "byte \<Rightarrow> 's GgWriter \<Rightarrow> 's \<Rightarrow> GgError \<times> 's" where
  "json_write_buf_byte b writer s =
     (if b = chr CHR 0x22 then gg_writer_call writer s [92, 34]
      else if b = chr CHR 0x5C then gg_writer_call writer s [92, 92]
      else if b \<le> 0x1F then
        (let text = bytes_of [CHR 0x5C, CHR ''u'', CHR ''0'', CHR ''0''] @ [hex_digit (unat b div 16), hex_digit (unat b mod 16)];
             encoded_byte = sprintf_buf 7 text; ret_len = length text
         in if ret_len > 7 then (GG_ERR_NOMEM, s)
            else gg_writer_call writer s (take ret_len encoded_byte))
      else gg_writer_call writer s [b])"

fun json_write_bytes :: "byte list \<Rightarrow> 's GgWriter \<Rightarrow> 's \<Rightarrow> GgError \<times> 's" where
  \<comment> \<open>the loop of \<open>json_encode_on_buf\<close>\<close>
  "json_write_bytes [] writer s = (GG_ERR_OK, s)"
| "json_write_bytes (b # bs) writer s =
     (case json_write_buf_byte b writer s of
        (ret, s') \<Rightarrow> if ret \<noteq> GG_ERR_OK then (ret, s') else json_write_bytes bs writer s')"

definition json_encode_buf :: "'s GgWriter \<Rightarrow> 's \<Rightarrow> GgBuffer \<Rightarrow> GgError \<times> 's" where
  "json_encode_buf writer s val =
     write_then writer s [34] (\<lambda>s1.
     case json_write_bytes (mem val) writer s1 of
       (ret, s2) \<Rightarrow> if ret \<noteq> GG_ERR_OK then (ret, s2) else gg_writer_call writer s2 [34])"

definition json_encode_on_buf :: "'s GgWriter \<Rightarrow> 's \<Rightarrow> GgBuffer \<Rightarrow> GgObject \<Rightarrow> GgError \<times> 's \<times> GgObject" where
  "json_encode_on_buf writer s val obj = (case json_encode_buf writer s val of (ret, s') \<Rightarrow> (ret, s', obj))"

definition json_encode_on_list :: "'s GgWriter \<Rightarrow> 's \<Rightarrow> GgList \<Rightarrow> GgObject \<Rightarrow> GgError \<times> 's \<times> GgObject" where
  "json_encode_on_list writer s val obj =
     (case gg_writer_call writer s (bytes_of ''['') of (ret, s') \<Rightarrow> (ret, s', obj))"

definition json_encode_cont_list :: "'s GgWriter \<Rightarrow> 's \<Rightarrow> GgError \<times> 's" where
  "json_encode_cont_list writer s = gg_writer_call writer s (bytes_of '','')"

definition json_encode_end_list :: "'s GgWriter \<Rightarrow> 's \<Rightarrow> GgError \<times> 's" where
  "json_encode_end_list writer s = gg_writer_call writer s (bytes_of '']'')"

definition json_encode_on_map :: "'s GgWriter \<Rightarrow> 's \<Rightarrow> GgMap \<Rightarrow> GgObject \<Rightarrow> GgError \<times> 's \<times> GgObject" where
  "json_encode_on_map writer s val obj =
     (case gg_writer_call writer s (bytes_of ''{'') of (ret, s') \<Rightarrow> (ret, s', obj))"

definition json_encode_on_map_key :: "'s GgWriter \<Rightarrow> 's \<Rightarrow> GgBuffer \<Rightarrow> GgKV \<Rightarrow> GgError \<times> 's \<times> GgKV" where
  "json_encode_on_map_key writer s k kv =
     (case json_encode_buf writer s k of
        (ret, s1) \<Rightarrow>
          if ret \<noteq> GG_ERR_OK then (ret, s1, kv)
          else (case gg_writer_call writer s1 (bytes_of '':'') of (ret, s2) \<Rightarrow> (ret, s2, kv)))"

definition json_encode_cont_map :: "'s GgWriter \<Rightarrow> 's \<Rightarrow> GgError \<times> 's" where
  "json_encode_cont_map writer s = gg_writer_call writer s (bytes_of '','')"

definition json_encode_end_map :: "'s GgWriter \<Rightarrow> 's \<Rightarrow> GgError \<times> 's" where
  "json_encode_end_map writer s = gg_writer_call writer s (bytes_of ''}'')"

definition json_encode_handlers :: "f64_format \<Rightarrow> 's GgWriter \<Rightarrow> 's GgObjectVisitHandlers" where
  "json_encode_handlers fmt writer =
     \<lparr>on_null = Some (json_encode_on_null writer), on_bool = Some (json_encode_on_bool writer),
      on_i64 = Some (json_encode_on_i64 writer), on_f64 = Some (json_encode_on_f64 fmt writer),
      on_buf = Some (json_encode_on_buf writer), on_list = Some (json_encode_on_list writer),
      cont_list = Some (json_encode_cont_list writer), end_list = Some (json_encode_end_list writer),
      on_map = Some (json_encode_on_map writer), on_map_key = Some (json_encode_on_map_key writer),
      cont_map = Some (json_encode_cont_map writer), end_map = Some (json_encode_end_map writer)\<rparr>"

definition gg_json_encode :: "f64_format \<Rightarrow> GgObject \<Rightarrow> 's GgWriter \<Rightarrow> 's \<Rightarrow> (GgError \<times> 's) option" where
  "gg_json_encode fmt obj writer s =
     map_option (\<lambda>(ret, s', _). (ret, s')) (gg_obj_visit (json_encode_handlers fmt writer) s obj)"

definition obj_read :: "f64_format \<Rightarrow> GgObject option \<Rightarrow> GgBuffer \<Rightarrow> GgBuffer res option" where
  \<comment> \<open>\<open>Inr buf\<close>: success with \<open>*buf = buf\<close>\<close>
  "obj_read fmt obj buf =
     (case obj of
        None \<Rightarrow> Some (Inl GG_ERR_INVALID)
      | Some ob \<Rightarrow>
          map_option (\<lambda>(ret, vec). if ret \<noteq> GG_ERR_OK then Inl ret else Inr (vec_buf vec))
            (gg_json_encode fmt ob gg_byte_vec_writer (gg_byte_vec_init buf)))"

definition gg_json_reader :: "f64_format \<Rightarrow> GgObject \<Rightarrow> 's GgReader" where
  \<comment> \<open>the bytes put into a buffer of length \<open>n\<close>, whatever it held; the traversal always returns
      (lemma \<open>obj_read_returns\<close>), so the case \<open>None\<close> does not arise\<close>
  "gg_json_reader fmt obj =
     Some (\<lambda>s n. (case obj_read fmt (Some obj) \<lparr>data = 1, mem = replicate n 0\<rparr> of
                    Some (Inr buf) \<Rightarrow> Inr (mem buf) | Some (Inl e) \<Rightarrow> Inl e | None \<Rightarrow> Inl GG_ERR_FATAL, s))"

section \<open>The text of an object\<close>

definition encoded_out :: "nat \<Rightarrow> byte list \<Rightarrow> byte list option" where
  "encoded_out n text = (if length text > n then None else Some (take (length text) (sprintf_buf n text)))"

definition json_char :: "byte \<Rightarrow> byte list" where
  "json_char b =
     (if b = 34 then [92, 34] else if b = 92 then [92, 92]
      else if b \<le> 31 then [92, 117, 48, 48, hex_digit (unat b div 16), hex_digit (unat b mod 16)] else [b])"

definition json_string :: "byte list \<Rightarrow> byte list" where
  "json_string bs = [34] @ concat (map json_char bs) @ [34]"

fun json_items :: "bool \<Rightarrow> byte list \<Rightarrow> byte list list \<Rightarrow> byte list" where
  "json_items first close [] = close"
| "json_items first close (t # ts) = (if first then [] else [44]) @ t @ json_items False close ts"

fun json_text :: "f64_format \<Rightarrow> GgObject \<Rightarrow> byte list option" where
  "json_text fmt OBJ_NULL = Some (bytes_of ''null'')"
| "json_text fmt (OBJ_BOOLEAN b) = Some (if b then bytes_of ''true'' else bytes_of ''false'')"
| "json_text fmt (OBJ_I64 v) = encoded_out 19 (format_i64 v)"
| "json_text fmt (OBJ_F64 v) = Option.bind (fmt v) (encoded_out 26)"
| "json_text fmt (OBJ_BUF b) = Some (json_string (mem b))"
| "json_text fmt (OBJ_LIST p xs) =
     map_option (\<lambda>ts. 91 # json_items True [93] ts) (those (map (json_text fmt) xs))"
| "json_text fmt (OBJ_MAP p kvs) =
     map_option (\<lambda>ts. 123 # json_items True [125] ts)
       (those (map (\<lambda>kv. map_option (\<lambda>t. json_string (mem (fst kv)) @ 58 # t) (json_text fmt (snd kv))) kvs))"

section \<open>Writers that append\<close>

locale appending_writer =
  fixes w :: "'s GgWriter" and ok :: "'s \<Rightarrow> bool" and room :: "'s \<Rightarrow> nat" and put :: "'s \<Rightarrow> byte list \<Rightarrow> 's"
  assumes write_fits: "ok s \<Longrightarrow> length bs \<le> room s \<Longrightarrow> gg_writer_call w s bs = (GG_ERR_OK, put s bs)"
    and write_full: "ok s \<Longrightarrow> length bs > room s \<Longrightarrow> fst (gg_writer_call w s bs) = GG_ERR_NOMEM"
    and put_ok: "ok s \<Longrightarrow> length bs \<le> room s \<Longrightarrow> ok (put s bs)"
    and room_put: "ok s \<Longrightarrow> length bs \<le> room s \<Longrightarrow> room (put s bs) = room s - length bs"
    and put_put: "ok s \<Longrightarrow> length as + length bs \<le> room s \<Longrightarrow> put (put s as) bs = put s (as @ bs)"
    and put_Nil: "ok s \<Longrightarrow> put s [] = s"
begin

definition emits :: "'s \<Rightarrow> byte list option \<Rightarrow> GgError \<times> 's \<Rightarrow> bool" where
  \<comment> \<open>the text was written as a whole, or (no text, or no room for it) an error was reported\<close>
  "emits s t r =
     (case t of
        Some bs \<Rightarrow> if length bs \<le> room s then r = (GG_ERR_OK, put s bs) else fst r \<noteq> GG_ERR_OK
      | None \<Rightarrow> fst r \<noteq> GG_ERR_OK)"

lemma emits_call: "ok s \<Longrightarrow> emits s (Some bs) (gg_writer_call w s bs)"
  by (simp add: emits_def write_fits write_full)

lemma emits_seq:
  assumes s: "ok s" and r: "emits s (Some as) r"
    and f: "length as \<le> room s \<Longrightarrow> emits (put s as) (Some bs) (f (put s as))"
  shows "emits s (Some (as @ bs)) (case r of (e, s') \<Rightarrow> if e \<noteq> GG_ERR_OK then (e, s') else f s')"
proof (cases "length as \<le> room s")
  case True
  then have "r = (GG_ERR_OK, put s as)" using r by (simp add: emits_def)
  then show ?thesis using True f [OF True] s by (auto simp: emits_def room_put put_put)
next
  case False
  then show ?thesis using r by (auto simp: emits_def split: prod.split)
qed

lemma emits_write_then:
  assumes "ok s" "length as \<le> room s \<Longrightarrow> emits (put s as) (Some bs) (f (put s as))"
  shows "emits s (Some (as @ bs)) (write_then w s as f)"
  unfolding write_then_def using emits_seq [OF assms(1) emits_call [OF assms(1)], of as bs f] assms(2) by blast

lemma emits_byte: "ok s \<Longrightarrow> emits s (Some (json_char b)) (json_write_buf_byte b w s)"
  using emits_call [of s] by (simp add: json_write_buf_byte_def json_char_def sprintf_buf_def Let_def)

lemma emits_bytes: "ok s \<Longrightarrow> emits s (Some (concat (map json_char bs))) (json_write_bytes bs w s)"
proof (induction bs arbitrary: s)
  case (Cons b bs)
  then show ?case
    using emits_seq [OF Cons.prems emits_byte [OF Cons.prems], of b "concat (map json_char bs)" "json_write_bytes bs w"]
    by (simp add: put_ok)
qed (simp add: emits_def put_Nil)

lemma emits_buf: "ok s \<Longrightarrow> emits s (Some (json_string (mem val))) (json_encode_buf w s val)"
  unfolding json_encode_buf_def json_string_def
  by (intro emits_write_then emits_seq emits_bytes emits_call put_ok)

lemma emits_out:
  "ok s \<Longrightarrow> emits s (encoded_out n text)
     (if length text > n then (GG_ERR_NOMEM, s) else gg_writer_call w s (take (length text) (sprintf_buf n text)))"
  using emits_call [of s] by (simp add: encoded_out_def) (simp add: emits_def)

lemma emits_key:
  assumes "ok s"
  obtains r where "json_encode_on_map_key w s k kv = (fst r, snd r, kv)"
    "emits s (Some (json_string (mem k) @ [58])) r"
proof
  let ?r = "case json_encode_buf w s k of (e, s') \<Rightarrow> if e \<noteq> GG_ERR_OK then (e, s') else gg_writer_call w s' [58]"
  show "emits s (Some (json_string (mem k) @ [58])) ?r"
    by (intro emits_seq emits_buf emits_call put_ok assms)
  show "json_encode_on_map_key w s k kv = (fst ?r, snd ?r, kv)"
    by (auto simp: json_encode_on_map_key_def split: prod.splits)
qed

text \<open>The traversal: \<open>emits\<close> for results that also carry the count of subobjects and the object.\<close>

definition visits :: "bool \<Rightarrow> byte list option \<Rightarrow> nat \<Rightarrow> 's \<Rightarrow> GgObject \<Rightarrow> 's rec_result \<Rightarrow> bool" where
  "visits lim t n s obj r =
     (case t of
        Some bs \<Rightarrow> if lim \<and> length bs \<le> room s then r = (GG_ERR_OK, n, put s bs, obj) else fst r \<noteq> GG_ERR_OK
      | None \<Rightarrow> fst r \<noteq> GG_ERR_OK)"

lemma visits_scalar:
  "emits c t r \<Longrightarrow> visits True t n c obj (case r of (e, c') \<Rightarrow> (e, n, c', obj))"
  by (cases r) (auto simp: visits_def emits_def split: option.splits if_splits)

lemma visits_step:
  assumes c: "ok c" and sep: "emits c (Some sep) r0"
    and inner: "length sep \<le> room c \<Longrightarrow> visits lim1 t1 n1 (put c sep) x r1"
    and rest: "\<And>bs. t1 = Some bs \<Longrightarrow> lim1 \<Longrightarrow> length (sep @ bs) \<le> room c \<Longrightarrow>
      visits lim2 t2 n2 (put c (sep @ bs)) obj r2"
    and r: "fst r0 \<noteq> GG_ERR_OK \<Longrightarrow> fst r \<noteq> GG_ERR_OK"
      "r0 = (GG_ERR_OK, put c sep) \<Longrightarrow> fst r1 \<noteq> GG_ERR_OK \<Longrightarrow> fst r \<noteq> GG_ERR_OK"
      "\<And>bs. r0 = (GG_ERR_OK, put c sep) \<Longrightarrow> r1 = (GG_ERR_OK, n1, put c (sep @ bs), x) \<Longrightarrow> r = r2"
  shows "visits (lim1 \<and> lim2) (Option.bind t1 (\<lambda>a. map_option (\<lambda>b. sep @ a @ b) t2)) n2 c obj r"
proof (cases "length sep \<le> room c")
  case True
  then have r0: "r0 = (GG_ERR_OK, put c sep)" using sep by (simp add: emits_def)
  note inner = inner [OF True]
  show ?thesis
  proof (cases "\<exists>bs. t1 = Some bs \<and> lim1 \<and> length (sep @ bs) \<le> room c")
    case True
    then obtain bs where bs: "t1 = Some bs" "lim1" "length (sep @ bs) \<le> room c" by blast
    then have "r1 = (GG_ERR_OK, n1, put c (sep @ bs), x)"
      using inner c by (simp add: visits_def room_put put_put)
    then have "visits lim2 t2 n2 (put c (sep @ bs)) obj r" using r(3) [OF r0] rest [OF bs] by simp
    then show ?thesis using bs c
      by (cases t2) (auto simp: visits_def room_put put_put split: if_splits)
  next
    case False
    then have "fst r1 \<noteq> GG_ERR_OK"
      using inner c True by (auto simp: visits_def room_put split: option.splits if_splits)
    then have "fst r \<noteq> GG_ERR_OK" by (rule r(2) [OF r0])
    then show ?thesis using False True by (cases t1; cases t2) (auto simp: visits_def)
  qed
next
  case False
  then have "fst r \<noteq> GG_ERR_OK" using sep r(1) by (simp add: emits_def)
  then show ?thesis using False by (cases t1; cases t2) (auto simp: visits_def)
qed

lemma visits_head:
  assumes c: "ok c" and sep: "emits c (Some sep) (e, c1)"
    and rest: "length sep \<le> room c \<Longrightarrow> visits lim t n (put c sep) obj r1"
    and r: "e \<noteq> GG_ERR_OK \<Longrightarrow> fst r \<noteq> GG_ERR_OK"
      "e = GG_ERR_OK \<Longrightarrow> c1 = put c sep \<Longrightarrow> r = r1"
  shows "visits lim (map_option ((@) sep) t) n c obj r"
proof (cases "length sep \<le> room c")
  case True
  then have "e = GG_ERR_OK" "c1 = put c sep" using sep by (auto simp: emits_def)
  then show ?thesis using r(2) rest [OF True] True c
    by (cases t) (auto simp: visits_def room_put put_put split: if_splits)
next
  case False
  then show ?thesis using sep r(1) by (cases t) (auto simp: visits_def emits_def)
qed

lemma visits_cong: "lim = lim' \<Longrightarrow> t = t' \<Longrightarrow> n = n' \<Longrightarrow> visits lim t n c obj r \<Longrightarrow> visits lim' t' n' c obj r"
  by simp

lemma those_Cons: "those (t # ts) = Option.bind t (\<lambda>a. map_option ((#) a) (those ts))"
  by (cases t; cases "those ts") auto

abbreviation enc :: "f64_format \<Rightarrow> 's GgObjectVisitHandlers" where
  "enc fmt \<equiv> json_encode_handlers fmt w"

definition items_text :: "f64_format \<Rightarrow> bool \<Rightarrow> GgObject list \<Rightarrow> byte list option" where
  "items_text fmt first xs = map_option (json_items first [93]) (those (map (json_text fmt) xs))"

definition pair_text :: "f64_format \<Rightarrow> GgKV \<Rightarrow> byte list option" where
  "pair_text fmt kv = map_option (\<lambda>t. json_string (mem (fst kv)) @ 58 # t) (json_text fmt (snd kv))"

definition pairs_text :: "f64_format \<Rightarrow> bool \<Rightarrow> GgKV list \<Rightarrow> byte list option" where
  "pairs_text fmt first kvs = map_option (json_items first [125]) (those (map (pair_text fmt) kvs))"

lemma items_text_Cons:
  "items_text fmt first (x # xs) =
     Option.bind (json_text fmt x) (\<lambda>a. map_option (\<lambda>b. (if first then [] else [44]) @ a @ b) (items_text fmt False xs))"
  by (cases "json_text fmt x"; cases "those (map (json_text fmt) xs)") (auto simp: items_text_def)

lemma pairs_text_Cons:
  "pairs_text fmt first (kv # kvs) =
     Option.bind (json_text fmt (snd kv)) (\<lambda>a. map_option (\<lambda>b.
       ((if first then [] else [44]) @ json_string (mem (fst kv)) @ [58]) @ a @ b) (pairs_text fmt False kvs))"
  by (cases "json_text fmt (snd kv)"; cases "those (map (pair_text fmt) kvs)") (auto simp: pairs_text_def pair_text_def)

lemma json_text_list: "json_text fmt (OBJ_LIST p xs) = map_option ((@) [91]) (items_text fmt True xs)"
  by (simp add: items_text_def option.map_comp comp_def)

lemma json_text_map: "json_text fmt (OBJ_MAP p kvs) = map_option ((@) [123]) (pairs_text fmt True kvs)"
  by (simp add: pairs_text_def option.map_comp comp_def pair_text_def [abs_def])

lemma enc_calls:
  "call0 (on_null (enc fmt)) c = json_encode_on_null w c"
  "call1 (on_bool (enc fmt)) c b = json_encode_on_bool w c b"
  "call1 (on_i64 (enc fmt)) c v = json_encode_on_i64 w c v"
  "call1 (on_f64 (enc fmt)) c d = json_encode_on_f64 fmt w c d"
  "call2 (on_buf (enc fmt)) c bf obj = json_encode_on_buf w c bf obj"
  "call2 (on_list (enc fmt)) c l obj = json_encode_on_list w c l obj"
  "call0 (cont_list (enc fmt)) c = gg_writer_call w c [44]"
  "call0 (end_list (enc fmt)) c = gg_writer_call w c [93]"
  "call2 (on_map (enc fmt)) c mp obj = json_encode_on_map w c mp obj"
  "call2 (on_map_key (enc fmt)) c k kv = json_encode_on_map_key w c k kv"
  "call0 (cont_map (enc fmt)) c = gg_writer_call w c [44]"
  "call0 (end_map (enc fmt)) c = gg_writer_call w c [125]"
  by (simp_all add: json_encode_handlers_def json_encode_cont_list_def json_encode_end_list_def
      json_encode_cont_map_def json_encode_end_map_def)

lemma emits_sep: "ok c \<Longrightarrow> emits c (Some (if i = 0 then [] else [44])) (if i \<noteq> 0 then gg_writer_call w c [44] else (GG_ERR_OK, c))"
  using emits_call [of c "[44]"] by (auto simp: emits_def put_Nil)

lemma emits_f64:
  assumes "ok c"
  shows "emits c (json_text fmt (OBJ_F64 v)) (json_encode_on_f64 fmt w c v)"
proof (cases "fmt v")
  case (Some t)
  then show ?thesis using emits_out [OF assms, of 26 t] by (simp add: json_encode_on_f64_def Let_def)
qed (simp add: json_encode_on_f64_def emits_def)

lemma emits_i64: "ok c \<Longrightarrow> emits c (json_text fmt (OBJ_I64 v)) (json_encode_on_i64 w c v)"
  using emits_out [of c 19 "format_i64 v"] by (simp add: json_encode_on_i64_def Let_def)

lemma visits_scalars:
  assumes "ok c" "Suc d \<le> GG_MAX_OBJECT_DEPTH" "s \<le> GG_MAX_OBJECT_SUBOBJECTS"
    and "gg_obj_type obj \<notin> {GG_TYPE_LIST, GG_TYPE_MAP}"
  shows "visits (within_limits d s obj) (json_text fmt obj) (s + obj_subobjects obj) c obj (visit_obj (enc fmt) d s c obj)"
proof -
  have lim: "within_limits d s obj" "obj_subobjects obj = 0" using assms by (cases obj; simp add: within_limits_def)+
  have "visits True (json_text fmt obj) s c obj (visit_obj (enc fmt) d s c obj)"
  proof (cases obj)
    case (OBJ_F64 v)
    then show ?thesis using visits_scalar [OF emits_f64 [OF assms(1)]] by (simp add: enc_calls del: json_text.simps)
  next
    case (OBJ_I64 v)
    then show ?thesis using visits_scalar [OF emits_i64 [OF assms(1)]] by (simp add: enc_calls del: json_text.simps)
  next
    case (OBJ_BUF v)
    have "visit_obj (enc fmt) d s c obj = (case json_encode_buf w c v of (e, c') \<Rightarrow> (e, s, c', obj))"
      using OBJ_BUF by (auto simp: enc_calls json_encode_on_buf_def split: prod.split)
    then show ?thesis using visits_scalar [OF emits_buf [OF assms(1), of v]] OBJ_BUF by simp
  next
    case (OBJ_BOOLEAN v)
    then show ?thesis using visits_scalar [OF emits_call [OF assms(1)]]
      by (simp add: enc_calls json_encode_on_bool_def del: bytes_of_simps)
  next
    case OBJ_NULL
    then show ?thesis using visits_scalar [OF emits_call [OF assms(1)]]
      by (simp add: enc_calls json_encode_on_null_def del: bytes_of_simps)
  qed (use assms(4) in auto)
  then show ?thesis using lim by simp
qed

lemma visits_list:
  fixes p xs defines "l \<equiv> OBJ_LIST p xs"
  assumes c: "ok c" and d: "Suc d \<le> GG_MAX_OBJECT_DEPTH"
    and items: "\<And>c1. length xs \<le> GG_MAX_OBJECT_SUBOBJECTS - s \<Longrightarrow> ok c1 \<Longrightarrow>
      call2 (on_list (enc fmt)) c (p, xs) l = (GG_ERR_OK, c1, l) \<Longrightarrow>
      visits (items_within d (s + length xs) xs) (items_text fmt True xs)
        (s + length xs + sum_list (map obj_subobjects xs)) c1 l (visit_items (enc fmt) d (s + length xs) c1 l 0)"
  shows "visits (within_limits d s l) (json_text fmt l) (s + obj_subobjects l) c l (visit_obj (enc fmt) d s c l)"
proof -
  obtain e c1 where call: "gg_writer_call w c [91] = (e, c1)" by fastforce
  then have on: "call2 (on_list (enc fmt)) c (p, xs) l = (e, c1, l)"
    by (simp add: enc_calls json_encode_on_list_def)
  show ?thesis
  proof (cases "length xs > GG_MAX_OBJECT_SUBOBJECTS - s")
    case True
    then have "\<not> within_limits d s l" by (auto simp: l_def within_limits_def)
    then show ?thesis using True by (auto simp: l_def visits_def split: option.split)
  next
    case False
    have "visits (items_within d (s + length xs) xs) (map_option ((@) [91]) (items_text fmt True xs))
        (s + length xs + sum_list (map obj_subobjects xs)) c l (visit_obj (enc fmt) d s c l)"
    proof (rule visits_head [OF c])
      show "emits c (Some [91]) (e, c1)" using emits_call [OF c, of "[91]"] call by simp
      assume room: "length ([91] :: byte list) \<le> room c"
      have "e = GG_ERR_OK \<and> c1 = put c [91]" using call write_fits [OF c room] by auto
      then show "visits (items_within d (s + length xs) xs) (items_text fmt True xs)
        (s + length xs + sum_list (map obj_subobjects xs)) (put c [91]) l (visit_items (enc fmt) d (s + length xs) (put c [91]) l 0)"
        using items [OF _ put_ok [OF c room]] on False by simp
    qed (use False on in \<open>auto simp: l_def\<close>)
    then show ?thesis using d by (simp add: l_def json_text_list within_list add.assoc del: json_text.simps visit_obj.simps)
  qed
qed

lemma visits_map:
  fixes p kvs defines "l \<equiv> OBJ_MAP p kvs"
  assumes c: "ok c" and d: "Suc d \<le> GG_MAX_OBJECT_DEPTH"
    and pairs: "\<And>c1. 2 * length kvs \<le> GG_MAX_OBJECT_SUBOBJECTS - s \<Longrightarrow> ok c1 \<Longrightarrow>
      call2 (on_map (enc fmt)) c (p, kvs) l = (GG_ERR_OK, c1, l) \<Longrightarrow>
      visits (items_within d (s + 2 * length kvs) (map snd kvs)) (pairs_text fmt True kvs)
        (s + 2 * length kvs + sum_list (map obj_subobjects (map snd kvs))) c1 l (visit_pairs (enc fmt) d (s + 2 * length kvs) c1 l 0)"
  shows "visits (within_limits d s l) (json_text fmt l) (s + obj_subobjects l) c l (visit_obj (enc fmt) d s c l)"
proof -
  obtain e c1 where call: "gg_writer_call w c [123] = (e, c1)" by fastforce
  then have on: "call2 (on_map (enc fmt)) c (p, kvs) l = (e, c1, l)"
    by (simp add: enc_calls json_encode_on_map_def)
  show ?thesis
  proof (cases "2 * length kvs > GG_MAX_OBJECT_SUBOBJECTS - s")
    case True
    then have "\<not> within_limits d s l" by (auto simp: l_def within_limits_def)
    then show ?thesis using True by (auto simp: l_def visits_def split: option.split)
  next
    case False
    have "visits (items_within d (s + 2 * length kvs) (map snd kvs)) (map_option ((@) [123]) (pairs_text fmt True kvs))
        (s + 2 * length kvs + sum_list (map obj_subobjects (map snd kvs))) c l (visit_obj (enc fmt) d s c l)"
    proof (rule visits_head [OF c])
      show "emits c (Some [123]) (e, c1)" using emits_call [OF c, of "[123]"] call by simp
      assume room: "length ([123] :: byte list) \<le> room c"
      have "e = GG_ERR_OK \<and> c1 = put c [123]" using call write_fits [OF c room] by auto
      then show "visits (items_within d (s + 2 * length kvs) (map snd kvs)) (pairs_text fmt True kvs)
        (s + 2 * length kvs + sum_list (map obj_subobjects (map snd kvs))) (put c [123]) l
        (visit_pairs (enc fmt) d (s + 2 * length kvs) (put c [123]) l 0)"
        using pairs [OF _ put_ok [OF c room]] on False by simp
    qed (use False on in \<open>auto simp: l_def\<close>)
    then show ?thesis using d
      by (simp add: l_def json_text_map within_map add.assoc comp_def del: json_text.simps visit_obj.simps)
  qed
qed

lemma visits_items_step:
  fixes p xs i defines "l \<equiv> OBJ_LIST p xs" and "x \<equiv> xs ! i"
  assumes c: "ok c" and i: "i < length xs" and d: "Suc d < GG_MAX_OBJECT_DEPTH"
    and inner: "\<And>c1. (if i \<noteq> 0 then call0 (cont_list (enc fmt)) c else (GG_ERR_OK, c)) = (GG_ERR_OK, c1) \<Longrightarrow> ok c1 \<Longrightarrow>
      visits (within_limits (Suc d) s x) (json_text fmt x) (s + obj_subobjects x) c1 x (visit_obj (enc fmt) (Suc d) s c1 x)"
    and rest: "\<And>c1 c2. (if i \<noteq> 0 then call0 (cont_list (enc fmt)) c else (GG_ERR_OK, c)) = (GG_ERR_OK, c1) \<Longrightarrow>
      visit_obj (enc fmt) (Suc d) s c1 x = (GG_ERR_OK, s + obj_subobjects x, c2, x) \<Longrightarrow> ok c2 \<Longrightarrow>
      within_limits (Suc d) s x \<Longrightarrow>
      visits (items_within d (s + obj_subobjects x) (drop (Suc i) xs)) (items_text fmt False (drop (Suc i) xs))
        (s + obj_subobjects x + sum_list (map obj_subobjects (drop (Suc i) xs))) c2 l
        (visit_items (enc fmt) d (s + obj_subobjects x) c2 l (Suc i))"
  shows "visits (items_within d s (drop i xs)) (items_text fmt (i = 0) (drop i xs))
    (s + sum_list (map obj_subobjects (drop i xs))) c l (visit_items (enc fmt) d s c l i)"
proof -
  let ?sep = "if i = 0 then [] else [44] :: byte list"
  let ?r0 = "if i \<noteq> 0 then gg_writer_call w c [44] else (GG_ERR_OK, c)"
  let ?v1 = "visit_obj (enc fmt) (Suc d) s (put c ?sep) x"
  have r0: "(if i \<noteq> 0 then call0 (cont_list (enc fmt)) c else (GG_ERR_OK, c)) = ?r0" by (simp add: enc_calls)
  have sep: "emits c (Some ?sep) ?r0" by (rule emits_sep [OF c])
  have sep_ok: "length ?sep \<le> room c \<Longrightarrow> ?r0 = (GG_ERR_OK, put c ?sep)" using sep by (simp add: emits_def)
  have unf: "visit_items (enc fmt) d s c l i =
    (case ?r0 of (e, c) \<Rightarrow> if e \<noteq> GG_ERR_OK then (e, s, c, l) else
      (case visit_obj (enc fmt) (Suc d) s c x of (e, s, c, x') \<Rightarrow>
        if e \<noteq> GG_ERR_OK then (e, s, c, OBJ_LIST p (xs[i := x'])) else visit_items (enc fmt) d s c (OBJ_LIST p (xs[i := x'])) (Suc i)))"
    unfolding l_def x_def by (subst visit_items_list) (use i d r0 in \<open>simp split: prod.split\<close>)
  have self: "OBJ_LIST p (xs[i := x]) = l" by (simp add: l_def x_def)
  have inner': "length ?sep \<le> room c \<Longrightarrow> visits (within_limits (Suc d) s x) (json_text fmt x) (s + obj_subobjects x) (put c ?sep) x ?v1"
    using inner [of "put c ?sep"] sep_ok put_ok [OF c] r0 by simp
  have "visits (within_limits (Suc d) s x \<and> items_within d (s + obj_subobjects x) (drop (Suc i) xs))
      (Option.bind (json_text fmt x) (\<lambda>a. map_option (\<lambda>b. ?sep @ a @ b) (items_text fmt False (drop (Suc i) xs))))
      (s + obj_subobjects x + sum_list (map obj_subobjects (drop (Suc i) xs))) c l (visit_items (enc fmt) d s c l i)"
  proof (rule visits_step [OF c sep inner', where ?r2.0 = "case ?v1 of (e, s, c, x) \<Rightarrow> visit_items (enc fmt) d s c l (Suc i)"])
    fix bs assume bs: "json_text fmt x = Some bs" "within_limits (Suc d) s x" "length (?sep @ bs) \<le> room c"
    then have room: "length ?sep \<le> room c" by simp
    then have "?v1 = (GG_ERR_OK, s + obj_subobjects x, put c (?sep @ bs), x)"
      using inner' [OF room] bs c by (simp add: visits_def room_put put_put)
    then show "visits (items_within d (s + obj_subobjects x) (drop (Suc i) xs)) (items_text fmt False (drop (Suc i) xs))
        (s + obj_subobjects x + sum_list (map obj_subobjects (drop (Suc i) xs))) (put c (?sep @ bs)) l
        (case ?v1 of (e, s, c, x) \<Rightarrow> visit_items (enc fmt) d s c l (Suc i))"
      using rest [of "put c ?sep" "put c (?sep @ bs)"] bs sep_ok [OF room] put_ok [OF c bs(3)] r0 by simp
  qed (auto simp: unf self split: prod.splits)
  then show ?thesis using i unfolding x_def by (simp add: drop_cons items_text_Cons add.assoc)
qed

lemma visits_pairs_step:
  fixes p kvs i fmt defines "l \<equiv> OBJ_MAP p kvs" and "x \<equiv> snd (kvs ! i)"
  defines "r0 c \<equiv> (if i \<noteq> 0 then call0 (cont_map (enc fmt)) c else (GG_ERR_OK, c))"
  assumes c: "ok c" and i: "i < length kvs" and d: "Suc d < GG_MAX_OBJECT_DEPTH"
    and inner: "\<And>c1 c2. r0 c = (GG_ERR_OK, c1) \<Longrightarrow>
      call2 (on_map_key (enc fmt)) c1 (fst (kvs ! i)) (kvs ! i) = (GG_ERR_OK, c2, kvs ! i) \<Longrightarrow> ok c2 \<Longrightarrow>
      visits (within_limits (Suc d) s x) (json_text fmt x) (s + obj_subobjects x) c2 x (visit_obj (enc fmt) (Suc d) s c2 x)"
    and rest: "\<And>c1 c2 c3. r0 c = (GG_ERR_OK, c1) \<Longrightarrow>
      call2 (on_map_key (enc fmt)) c1 (fst (kvs ! i)) (kvs ! i) = (GG_ERR_OK, c2, kvs ! i) \<Longrightarrow>
      visit_obj (enc fmt) (Suc d) s c2 x = (GG_ERR_OK, s + obj_subobjects x, c3, x) \<Longrightarrow> ok c3 \<Longrightarrow>
      within_limits (Suc d) s x \<Longrightarrow>
      visits (items_within d (s + obj_subobjects x) (map snd (drop (Suc i) kvs))) (pairs_text fmt False (drop (Suc i) kvs))
        (s + obj_subobjects x + sum_list (map obj_subobjects (map snd (drop (Suc i) kvs)))) c3 l
        (visit_pairs (enc fmt) d (s + obj_subobjects x) c3 l (Suc i))"
  shows "visits (items_within d s (map snd (drop i kvs))) (pairs_text fmt (i = 0) (drop i kvs))
    (s + sum_list (map obj_subobjects (map snd (drop i kvs)))) c l (visit_pairs (enc fmt) d s c l i)"
proof -
  let ?k = "fst (kvs ! i)"
  let ?sep = "(if i = 0 then [] else [44]) @ json_string (mem ?k) @ [58] :: byte list"
  define key where "key c1 = (case json_encode_on_map_key w c1 ?k (kvs ! i) of (e, c2, kv) \<Rightarrow> (e, c2))" for c1
  let ?r1 = "case r0 c of (e, c1) \<Rightarrow> if e \<noteq> GG_ERR_OK then (e, c1) else key c1"
  let ?v1 = "visit_obj (enc fmt) (Suc d) s (put c ?sep) x"
  have key: "json_encode_on_map_key w c1 ?k (kvs ! i) = (fst (key c1), snd (key c1), kvs ! i) \<and>
      emits c1 (Some (json_string (mem ?k) @ [58])) (key c1)" if ok1: "ok c1" for c1
  proof -
    obtain r where "json_encode_on_map_key w c1 ?k (kvs ! i) = (fst r, snd r, kvs ! i)"
      "emits c1 (Some (json_string (mem ?k) @ [58])) r" using emits_key [OF ok1] by blast
    moreover from this have "key c1 = r" by (simp add: key_def)
    ultimately show ?thesis by simp
  qed
  have emits0: "emits c (Some (if i = 0 then [] else [44])) (r0 c)"
    unfolding r0_def enc_calls by (rule emits_sep [OF c])
  have sep: "emits c (Some ?sep) ?r1"
    by (rule emits_seq [OF c emits0]) (use key put_ok [OF c] in blast)
  have sep_ok: "?r1 = (GG_ERR_OK, put c ?sep)" if "length ?sep \<le> room c" using sep that by (simp add: emits_def)
  have calls: "\<exists>c1. r0 c = (GG_ERR_OK, c1) \<and>
      call2 (on_map_key (enc fmt)) c1 ?k (kvs ! i) = (GG_ERR_OK, put c ?sep, kvs ! i)" if "length ?sep \<le> room c"
  proof -
    have "length (if i = 0 then [] else [44] :: byte list) \<le> room c" using that by simp
    then obtain c1 where "r0 c = (GG_ERR_OK, c1)" "ok c1" using emits0 put_ok [OF c] by (auto simp: emits_def)
    then show ?thesis using sep_ok [OF that] key [of c1] by (simp add: enc_calls)
  qed
  have unf: "visit_pairs (enc fmt) d s c l i =
    (case r0 c of (e, c) \<Rightarrow> if e \<noteq> GG_ERR_OK then (e, s, c, l) else
      (case json_encode_on_map_key w c ?k (kvs ! i) of (e, c, kv) \<Rightarrow>
        if e \<noteq> GG_ERR_OK then (e, s, c, OBJ_MAP p (kvs[i := kv])) else
      (case visit_obj (enc fmt) (Suc d) s c (snd kv) of (e, s, c, x') \<Rightarrow>
        if e \<noteq> GG_ERR_OK then (e, s, c, OBJ_MAP p (kvs[i := (fst kv, x')]))
        else visit_pairs (enc fmt) d s c (OBJ_MAP p (kvs[i := (fst kv, x')])) (Suc i))))"
    unfolding l_def x_def r0_def
    by (subst visit_pairs_map) (use i d in \<open>simp add: enc_calls(10) not_le split: prod.split\<close>)
  have self: "OBJ_MAP p (kvs[i := (fst (kvs ! i), x)]) = l" "OBJ_MAP p (kvs[i := kvs ! i]) = l" by (simp_all add: l_def x_def)
  have inner': "length ?sep \<le> room c \<Longrightarrow> visits (within_limits (Suc d) s x) (json_text fmt x) (s + obj_subobjects x) (put c ?sep) x ?v1"
    using inner calls put_ok [OF c] by blast
  have "visits (within_limits (Suc d) s x \<and> items_within d (s + obj_subobjects x) (map snd (drop (Suc i) kvs)))
      (Option.bind (json_text fmt x) (\<lambda>a. map_option (\<lambda>b. ?sep @ a @ b) (pairs_text fmt False (drop (Suc i) kvs))))
      (s + obj_subobjects x + sum_list (map obj_subobjects (map snd (drop (Suc i) kvs)))) c l (visit_pairs (enc fmt) d s c l i)"
  proof (rule visits_step [OF c sep inner', where ?r2.0 = "case ?v1 of (e, s, c, x) \<Rightarrow> visit_pairs (enc fmt) d s c l (Suc i)"])
    fix bs assume bs: "json_text fmt x = Some bs" "within_limits (Suc d) s x" "length (?sep @ bs) \<le> room c"
    then have room: "length ?sep \<le> room c" by simp
    then have v1: "?v1 = (GG_ERR_OK, s + obj_subobjects x, put c (?sep @ bs), x)"
      using inner' [OF room] bs c by (simp add: visits_def room_put put_put)
    then show "visits (items_within d (s + obj_subobjects x) (map snd (drop (Suc i) kvs))) (pairs_text fmt False (drop (Suc i) kvs))
        (s + obj_subobjects x + sum_list (map obj_subobjects (map snd (drop (Suc i) kvs)))) (put c (?sep @ bs)) l
        (case ?v1 of (e, s, c, x) \<Rightarrow> visit_pairs (enc fmt) d s c l (Suc i))"
      using rest [OF _ _ v1 put_ok [OF c bs(3)] bs(2)] calls [OF room] v1 by auto
  next
    assume "fst ?r1 \<noteq> GG_ERR_OK"
    then show "fst (visit_pairs (enc fmt) d s c l i) \<noteq> GG_ERR_OK"
      by (auto simp: unf key_def split: prod.splits if_splits)
  next
    assume r1: "?r1 = (GG_ERR_OK, put c ?sep)"
    then obtain c1 where c1: "r0 c = (GG_ERR_OK, c1)" "key c1 = (GG_ERR_OK, put c ?sep)"
      by (auto split: prod.splits if_splits)
    then have "ok c1" using emits0 c put_ok [OF c] by (auto simp: emits_def put_Nil [OF c] split: if_splits)
    then have eq: "visit_pairs (enc fmt) d s c l i = (case ?v1 of (e, s, c, x') \<Rightarrow>
        if e \<noteq> GG_ERR_OK then (e, s, c, OBJ_MAP p (kvs[i := (fst (kvs ! i), x')]))
        else visit_pairs (enc fmt) d s c (OBJ_MAP p (kvs[i := (fst (kvs ! i), x')])) (Suc i))"
      using key [of c1] c1 by (simp add: unf x_def)
    show "fst (visit_pairs (enc fmt) d s c l i) \<noteq> GG_ERR_OK" if "fst ?v1 \<noteq> GG_ERR_OK"
      using that by (auto simp: eq split: prod.splits)
    show "visit_pairs (enc fmt) d s c l i = (case ?v1 of (e, s, c, x) \<Rightarrow> visit_pairs (enc fmt) d s c l (Suc i))"
      if "?v1 = (GG_ERR_OK, s + obj_subobjects x, put c (?sep @ bs), x)" for bs
      using that by (simp add: eq self)
  qed
  then show ?thesis using i unfolding x_def by (simp add: drop_cons pairs_text_Cons add.assoc)
qed

lemma visits_fail: "\<not> lim \<Longrightarrow> fst r \<noteq> GG_ERR_OK \<Longrightarrow> visits lim t n c obj r"
  by (auto simp: visits_def split: option.split)

lemma visits_end: "ok c \<Longrightarrow> visits True (Some bs) n c obj (case gg_writer_call w c bs of (e, c') \<Rightarrow> (e, n, c', obj))"
  by (intro visits_scalar emits_call)

lemma visits_all:
  "h = enc fmt \<Longrightarrow> ok c \<Longrightarrow> Suc d \<le> GG_MAX_OBJECT_DEPTH \<Longrightarrow> s \<le> GG_MAX_OBJECT_SUBOBJECTS \<Longrightarrow>
     visits (within_limits d s obj) (json_text fmt obj) (s + obj_subobjects obj) c obj (visit_obj h d s c obj)"
  "h = enc fmt \<Longrightarrow> ok c \<Longrightarrow> Suc d \<le> GG_MAX_OBJECT_DEPTH \<Longrightarrow> s \<le> GG_MAX_OBJECT_SUBOBJECTS \<Longrightarrow>
     obj = OBJ_LIST p xs \<Longrightarrow>
     visits (items_within d s (drop i xs)) (items_text fmt (i = 0) (drop i xs))
       (s + sum_list (map obj_subobjects (drop i xs))) c obj (visit_items h d s c obj i)"
  "h = enc fmt \<Longrightarrow> ok c \<Longrightarrow> Suc d \<le> GG_MAX_OBJECT_DEPTH \<Longrightarrow> s \<le> GG_MAX_OBJECT_SUBOBJECTS \<Longrightarrow>
     obj = OBJ_MAP p kvs \<Longrightarrow>
     visits (items_within d s (map snd (drop i kvs))) (pairs_text fmt (i = 0) (drop i kvs))
       (s + sum_list (map obj_subobjects (map snd (drop i kvs)))) c obj (visit_pairs h d s c obj i)"
proof (induction h d s c obj and h d s c obj i and h d s c obj i arbitrary: and p xs and p kvs
    rule: visit_obj_visit_items_visit_pairs.induct)
  case (1 h d s c p xs)
  show ?case unfolding 1(2)
  proof (rule visits_list [OF 1(3,4)])
    fix c1 assume *: "length xs \<le> GG_MAX_OBJECT_SUBOBJECTS - s" "ok c1"
      "call2 (on_list (enc fmt)) c (p, xs) (OBJ_LIST p xs) = (GG_ERR_OK, c1, OBJ_LIST p xs)"
    show "visits (items_within d (s + length xs) xs) (items_text fmt True xs)
      (s + length xs + sum_list (map obj_subobjects xs)) c1 (OBJ_LIST p xs)
      (visit_items (enc fmt) d (s + length xs) c1 (OBJ_LIST p xs) 0)"
      using 1(1) [of GG_ERR_OK _ c1 "OBJ_LIST p xs" p xs] * 1(2,4,5) by simp
  qed
next
  case (2 h d s c p kvs)
  show ?case unfolding 2(2)
  proof (rule visits_map [OF 2(3,4)])
    fix c1 assume *: "2 * length kvs \<le> GG_MAX_OBJECT_SUBOBJECTS - s" "ok c1"
      "call2 (on_map (enc fmt)) c (p, kvs) (OBJ_MAP p kvs) = (GG_ERR_OK, c1, OBJ_MAP p kvs)"
    show "visits (items_within d (s + 2 * length kvs) (map snd kvs)) (pairs_text fmt True kvs)
      (s + 2 * length kvs + sum_list (map obj_subobjects (map snd kvs))) c1 (OBJ_MAP p kvs)
      (visit_pairs (enc fmt) d (s + 2 * length kvs) c1 (OBJ_MAP p kvs) 0)"
      using 2(1) [of GG_ERR_OK _ c1 "OBJ_MAP p kvs" p kvs] * 2(2,4,5) by simp
  qed
next
  case (8 h d s c p xs i pa xsa)
  note [simp] = 8(3)
  consider "i < length xs" "Suc d < GG_MAX_OBJECT_DEPTH" | "i < length xs" "\<not> Suc d < GG_MAX_OBJECT_DEPTH" | "i \<ge> length xs"
    by linarith
  then show ?case
  proof cases
    case 1
    have eq: "pa = p" "xsa = xs" using 8(7) by simp_all
    show ?thesis unfolding eq 8(3)
    proof (rule visits_items_step [OF 8(4) 1])
      fix c1 assume *: "(if i \<noteq> 0 then call0 (cont_list (enc fmt)) c else (GG_ERR_OK, c)) = (GG_ERR_OK, c1)" 
      show "visits (within_limits (Suc d) s (xs ! i)) (json_text fmt (xs ! i)) (s + obj_subobjects (xs ! i)) c1 (xs ! i)
          (visit_obj (enc fmt) (Suc d) s c1 (xs ! i))" if "ok c1"
        using 8(1) [unfolded 8(3), OF _ * [symmetric]] that 1 8(6) by simp
      fix c2 assume **: "visit_obj (enc fmt) (Suc d) s c1 (xs ! i) = (GG_ERR_OK, s + obj_subobjects (xs ! i), c2, xs ! i)"
        "ok c2" "within_limits (Suc d) s (xs ! i)"
      show "visits (items_within d (s + obj_subobjects (xs ! i)) (drop (Suc i) xs)) (items_text fmt False (drop (Suc i) xs))
          (s + obj_subobjects (xs ! i) + sum_list (map obj_subobjects (drop (Suc i) xs))) c2 (OBJ_LIST p xs)
          (visit_items (enc fmt) d (s + obj_subobjects (xs ! i)) c2 (OBJ_LIST p xs) (Suc i))"
        using 8(2) [unfolded 8(3), OF _ * [symmetric] _ _ ** (1) [symmetric] refl refl, of p xs] **(2,3) 1 8(5)
          within_limits_subobjects by simp
    qed
  next
    case 2
    then have "\<not> items_within d s (drop i xs)"
      using within_limits_depth [of "Suc d" s "xs ! i"] by (auto simp: drop_cons)
    moreover have "fst (visit_items h d s c (OBJ_LIST p xs) i) \<noteq> GG_ERR_OK"
      using 2 by (subst visit_items_list) (auto split: prod.split)
    ultimately show ?thesis using 8(7) by (simp add: visits_fail)
  next
    case 3
    then show ?thesis using 8(6,7) visits_end [OF 8(4), of "[93]" s "OBJ_LIST p xs"]
      by (subst visit_items_list) (auto simp: items_text_def enc_calls)
  qed
next
  case (10 h d s c p kvs i pa kvsa)
  note [simp] = 10(3)
  consider "i < length kvs" "Suc d < GG_MAX_OBJECT_DEPTH" | "i < length kvs" "\<not> Suc d < GG_MAX_OBJECT_DEPTH" | "i \<ge> length kvs"
    by linarith
  then show ?case
  proof cases
    case 1
    let ?x = "snd (kvs ! i)"
    have eq: "pa = p" "kvsa = kvs" using 10(7) by simp_all
    show ?thesis unfolding eq 10(3)
    proof (rule visits_pairs_step [OF 10(4) 1])
      fix c1 c2 assume *: "(if i \<noteq> 0 then call0 (cont_map (enc fmt)) c else (GG_ERR_OK, c)) = (GG_ERR_OK, c1)"
        "call2 (on_map_key (enc fmt)) c1 (fst (kvs ! i)) (kvs ! i) = (GG_ERR_OK, c2, kvs ! i)"
      show "visits (within_limits (Suc d) s ?x) (json_text fmt ?x) (s + obj_subobjects ?x) c2 ?x
          (visit_obj (enc fmt) (Suc d) s c2 ?x)" if "ok c2"
        using 10(1) [unfolded 10(3), OF _ * (1) [symmetric] _ * (2) [symmetric] refl] that 1 10(6) by simp
      fix c3 assume **: "visit_obj (enc fmt) (Suc d) s c2 ?x = (GG_ERR_OK, s + obj_subobjects ?x, c3, ?x)"
        "ok c3" "within_limits (Suc d) s ?x"
      show "visits (items_within d (s + obj_subobjects ?x) (map snd (drop (Suc i) kvs))) (pairs_text fmt False (drop (Suc i) kvs))
          (s + obj_subobjects ?x + sum_list (map obj_subobjects (map snd (drop (Suc i) kvs)))) c3 (OBJ_MAP p kvs)
          (visit_pairs (enc fmt) d (s + obj_subobjects ?x) c3 (OBJ_MAP p kvs) (Suc i))"
        using 10(2) [unfolded 10(3), OF _ * (1) [symmetric] _ * (2) [symmetric] refl _ _ ** (1) [symmetric] refl refl, of p kvs]
          **(2,3) 1 10(5) within_limits_subobjects by simp
    qed
  next
    case 2
    then have "\<not> items_within d s (map snd (drop i kvs))"
      using within_limits_depth [of "Suc d" s "snd (kvs ! i)"] by (auto simp: drop_cons)
    moreover have "fst (visit_pairs h d s c (OBJ_MAP p kvs) i) \<noteq> GG_ERR_OK"
      using 2 by (subst visit_pairs_map) (auto split: prod.split)
    ultimately show ?thesis using 10(7) by (simp add: visits_fail)
  next
    case 3
    then show ?thesis using 10(6,7) visits_end [OF 10(4), of "[125]" s "OBJ_MAP p kvs"]
      by (subst visit_pairs_map) (auto simp: pairs_text_def enc_calls)
  qed
qed (auto intro!: visits_scalars simp del: visit_obj.simps json_text.simps obj_subobjects.simps)

end

lemma gg_byte_vec_write_full: "vec_inv v \<Longrightarrow> length bs > vec_capacity v - vec_len v \<Longrightarrow> fst (gg_byte_vec_append v bs) = GG_ERR_NOMEM"
  using byte_append.app_full [of v bs] by (auto simp: vec_inv_def)

interpretation vec_writer: appending_writer gg_byte_vec_writer vec_inv "\<lambda>v. vec_capacity v - vec_len v" vec_put
proof
  fix v :: GgByteVec and bs :: "byte list"
  assume "vec_inv v" "length bs \<le> vec_capacity v - vec_len v"
  then have "vec_len v + length bs \<le> vec_capacity v" by (auto simp: vec_inv_def)
  then show "gg_writer_call gg_byte_vec_writer v bs = (GG_ERR_OK, vec_put v bs)" "vec_inv (vec_put v bs)"
    using \<open>vec_inv v\<close> by (simp_all add: gg_byte_vec_writer_def byte_vec_write_def byte_append.app_ok vec_inv_put)
qed (auto simp: gg_byte_vec_writer_def byte_vec_write_def gg_byte_vec_write_full vec_put_put)

interpretation buf_writer: appending_writer gg_buf_writer "\<lambda>c. pos c \<le> length (block c)"
  "\<lambda>c. length (block c) - pos c" "\<lambda>c bs. c\<lparr>block := mem_write (block c) (pos c) bs, pos := pos c + length bs\<rparr>"
  by unfold_locales (auto simp: gg_buf_writer_def buf_write_eq mem_write_mem_write)

section \<open>Lemmas: decimal text\<close>

lemma nat_digits_nonempty: "nat_digits n \<noteq> []"
  by (subst nat_digits.simps) simp

lemma nat_digits_Nil: "(n :: nat) < 10 \<Longrightarrow> nat_digits n = [of_nat (48 + n)]"
  by (subst nat_digits.simps) simp

lemma digit_of_nat: "n < 10 \<Longrightarrow> is_digit (of_nat (48 + n)) \<and> uint (of_nat (48 + n) :: byte) = int (48 + n)"
proof -
  assume n: "n < 10"
  then have u: "unat (of_nat (48 + n) :: byte) = 48 + n" by (subst unat_of_nat) simp
  then have "uint (of_nat (48 + n) :: byte) = int (48 + n)" by (subst uint_nat) (simp only:)
  then show ?thesis using n u unfolding is_digit_def word_le_nat_alt by auto
qed

lemma nat_digits_value: "list_all is_digit (nat_digits n) \<and> dec_value (nat_digits n) = int n"
proof (induction n rule: nat_digits.induct)
  case (1 n)
  have "int (n div 10) * 10 + int (n mod 10) = int n" by (simp add: zdiv_int zmod_int)
  with 1 show ?case using digit_of_nat [of "n mod 10"] digit_of_nat [of n]
    by (subst (1 2) nat_digits.simps) (auto simp: dec_value_def)
qed

lemma nat_digits_length_le: "n < 10 ^ Suc k \<Longrightarrow> length (nat_digits n) \<le> Suc k"
proof (induction k arbitrary: n)
  case (Suc k)
  then have "n div 10 < 10 ^ Suc k" by (simp add: less_mult_imp_div_less)
  then show ?case using Suc.IH [of "n div 10"] by (subst nat_digits.simps) simp
qed (simp add: nat_digits.simps)

lemma nat_digits_length_ge: "10 ^ k \<le> n \<Longrightarrow> length (nat_digits n) > k"
proof (induction k arbitrary: n)
  case (Suc k)
  then have "10 ^ k \<le> n div 10" by (simp add: less_eq_div_iff_mult_less_eq)
  moreover have "(1 :: nat) \<le> 10 ^ k" by simp
  then have "n \<ge> 10" using Suc.prems unfolding power_Suc by linarith
  ultimately show ?case using Suc.IH [of "n div 10"] by (subst nat_digits.simps) simp
qed (use nat_digits_nonempty in simp)

lemma sint_bounds: "- (2 ^ 63) \<le> sint (v :: u64)" "sint (v :: u64) < 2 ^ 63"
  using sint_greater_eq [of v] sint_less [of v] by simp_all

lemma format_i64_len:
  "length (format_i64 v) = (if sint v < 0 then 1 else 0) + length (nat_digits (nat \<bar>sint v\<bar>))"
  unfolding format_i64_def by (simp only: length_append) simp

lemma format_i64_length: "length (format_i64 v) \<le> 20"
proof -
  have "nat \<bar>sint v\<bar> < 10 ^ Suc 18" using sint_bounds [of v] by (auto simp: nat_less_iff)
  moreover have "(if sint v < 0 then 1 else 0 :: nat) \<le> 1" by simp
  ultimately show ?thesis unfolding format_i64_len using nat_digits_length_le [of "nat \<bar>sint v\<bar>" 18] by linarith
qed

lemma format_i64_short: "\<bar>sint v\<bar> < 10 ^ 17 \<or> 0 \<le> sint v \<and> sint v < 10 ^ 18 \<Longrightarrow> length (format_i64 v) \<le> 18"
proof -
  assume "\<bar>sint v\<bar> < 10 ^ 17 \<or> 0 \<le> sint v \<and> sint v < 10 ^ 18"
  then consider "nat \<bar>sint v\<bar> < 10 ^ Suc 16" | "sint v \<ge> 0" "nat \<bar>sint v\<bar> < 10 ^ Suc 17"
    by (auto simp: nat_less_iff)
  then show ?thesis
    by cases (use nat_digits_length_le in \<open>fastforce simp: format_i64_len simp del: abs_of_nonneg\<close>)+
qed

lemma format_i64_19: "10 ^ 18 \<le> sint v \<or> - (10 ^ 18) < sint v \<and> sint v \<le> - (10 ^ 17) \<Longrightarrow> length (format_i64 v) = 19"
proof (elim disjE conjE)
  assume "10 ^ 18 \<le> sint v"
  then have "10 ^ 18 \<le> nat \<bar>sint v\<bar>" "nat \<bar>sint v\<bar> < 10 ^ Suc 18" "\<not> sint v < 0"
    using sint_bounds [of v] by (auto simp: le_nat_iff nat_less_iff)
  then show ?thesis using nat_digits_length_le [of "nat \<bar>sint v\<bar>" 18] nat_digits_length_ge [of 18 "nat \<bar>sint v\<bar>"]
    unfolding format_i64_len by (simp del: abs_of_nonneg)
next
  assume "- (10 ^ 18) < sint v" "sint v \<le> - (10 ^ 17)"
  then have "10 ^ 17 \<le> nat \<bar>sint v\<bar>" "nat \<bar>sint v\<bar> < 10 ^ Suc 17" "sint v < 0"
    by (auto simp: le_nat_iff nat_less_iff)
  then show ?thesis using nat_digits_length_le [of "nat \<bar>sint v\<bar>" 17] nat_digits_length_ge [of 17 "nat \<bar>sint v\<bar>"]
    unfolding format_i64_len by (simp del: abs_of_nonneg)
qed

lemma encoded_out_exact: "length t < n \<Longrightarrow> encoded_out n t = Some t"
  by (simp add: encoded_out_def sprintf_buf_def)

lemma encoded_out_cut: "length t = n \<Longrightarrow> n > 0 \<Longrightarrow> encoded_out n t = Some (take (n - 1) t @ [0])"
  by (simp add: encoded_out_def sprintf_buf_def)

section \<open>Properties\<close>

interpretation json_enc: visit_handlers "json_encode_handlers fmt writer" for fmt and writer :: "'s GgWriter"
  by unfold_locales
    (auto simp: json_encode_handlers_def json_encode_on_list_def json_encode_on_map_def split: prod.splits)

lemma gg_json_encode_eq:
  "gg_json_encode fmt obj writer s = Some (case visit_obj (json_encode_handlers fmt writer) 0 0 s obj of (e, n, s', obj') \<Rightarrow> (e, s'))"
  by (simp add: gg_json_encode_def json_enc.gg_obj_visit_eq split: prod.split)

lemma gg_json_encode_vec:
  assumes "vec_inv v"
  shows "\<exists>e v'. gg_json_encode fmt obj gg_byte_vec_writer v = Some (e, v') \<and>
    (case json_text fmt obj of
       Some t \<Rightarrow> if obj_depth obj \<le> GG_MAX_OBJECT_DEPTH \<and> obj_subobjects obj \<le> GG_MAX_OBJECT_SUBOBJECTS \<and>
                  vec_len v + length t \<le> vec_capacity v
                then e = GG_ERR_OK \<and> v' = vec_put v t else e \<noteq> GG_ERR_OK
     | None \<Rightarrow> e \<noteq> GG_ERR_OK)"
proof -
  have eq: "vec_len v + n \<le> vec_capacity v \<longleftrightarrow> n \<le> vec_capacity v - vec_len v" for n
    using assms by (auto simp: vec_inv_def)
  show ?thesis
    using vec_writer.visits_all(1) [OF refl assms, of 0 0 obj fmt] unfolding gg_json_encode_eq eq
    by (auto simp: vec_writer.visits_def within_limits_def GG_MAX_OBJECT_DEPTH_def split: option.splits prod.splits if_splits)
qed

lemma obj_read_returns: "obj_read fmt obj buf \<noteq> None"
  by (cases obj) (simp_all add: obj_read_def gg_json_encode_eq)

lemma obj_read_text:
  assumes "json_text fmt obj = Some t" "obj_depth obj \<le> GG_MAX_OBJECT_DEPTH" "obj_subobjects obj \<le> GG_MAX_OBJECT_SUBOBJECTS"
    and "length t \<le> len buf" "len buf < 2 ^ 64"
  shows "obj_read fmt (Some obj) buf = Some (Inr \<lparr>data = data buf, mem = t\<rparr>)"
proof -
  have inv: "vec_inv (gg_byte_vec_init buf)" using assms(5) by (simp add: vec_inv_def gg_byte_vec_init_def)
  from gg_json_encode_vec [OF inv, of fmt obj] assms(1-4)
  have "gg_json_encode fmt obj gg_byte_vec_writer (gg_byte_vec_init buf) = Some (GG_ERR_OK, vec_put (gg_byte_vec_init buf) t)"
    by (auto simp: gg_byte_vec_init_def)
  then show ?thesis
    using vec_contents_put [OF inv, of t]
    by (simp add: obj_read_def vec_buf_def vec_contents_def gg_byte_vec_init_def)
qed

text \<open>
  C26: Encoding into a byte vector always returns. It succeeds exactly if the object is within the
  limits of the traversal, every number has a text, and the text fits the vector; the vector then
  holds \<open>json_text\<close> behind its previous contents.
\<close>
theorem gg_json_encode_correct:
  assumes "vec_inv v"
  shows "\<exists>e v'. gg_json_encode fmt obj gg_byte_vec_writer v = Some (e, v') \<and>
    (e = GG_ERR_OK \<longleftrightarrow> obj_depth obj \<le> GG_MAX_OBJECT_DEPTH \<and> obj_subobjects obj \<le> GG_MAX_OBJECT_SUBOBJECTS \<and>
       (\<exists>t. json_text fmt obj = Some t \<and> vec_len v + length t \<le> vec_capacity v)) \<and>
    (e = GG_ERR_OK \<longrightarrow> vec_inv v' \<and> Some (vec_contents v') = map_option ((@) (vec_contents v)) (json_text fmt obj))"
proof -
  obtain e v' where r: "gg_json_encode fmt obj gg_byte_vec_writer v = Some (e, v')"
    "case json_text fmt obj of
       Some t \<Rightarrow> if obj_depth obj \<le> GG_MAX_OBJECT_DEPTH \<and> obj_subobjects obj \<le> GG_MAX_OBJECT_SUBOBJECTS \<and>
                  vec_len v + length t \<le> vec_capacity v
                then e = GG_ERR_OK \<and> v' = vec_put v t else e \<noteq> GG_ERR_OK
     | None \<Rightarrow> e \<noteq> GG_ERR_OK" using gg_json_encode_vec [OF assms] by blast
  show ?thesis
    by (intro exI [of _ e] exI [of _ v'] conjI)
      (use r assms in \<open>auto simp: vec_contents_put vec_inv_put split: option.splits if_splits\<close>)
qed

theorem gg_json_encode_correct_witness:
  "\<exists>v'. gg_json_encode (\<lambda>_. None) (OBJ_LIST 0 [OBJ_BOOLEAN True, OBJ_BUF (GG_STR ''a'')]) gg_byte_vec_writer
     (gg_byte_vec_init \<lparr>data = 0, mem = replicate 16 0\<rparr>) = Some (GG_ERR_OK, v') \<and>
   vec_contents v' = [91, 116, 114, 117, 101, 44, 34, 97, 34, 93]"
proof -
  let ?obj = "OBJ_LIST 0 [OBJ_BOOLEAN True, OBJ_BUF (GG_STR ''a'')]"
  let ?v = "gg_byte_vec_init \<lparr>data = 0, mem = replicate 16 0\<rparr>"
  have inv: "vec_inv ?v" by (simp add: vec_inv_def gg_byte_vec_init_def)
  have t: "json_text (\<lambda>_. None) ?obj = Some [91, 116, 114, 117, 101, 44, 34, 97, 34, 93]"
    by (simp add: json_string_def json_char_def)
  obtain e v' where "gg_json_encode (\<lambda>_. None) ?obj gg_byte_vec_writer ?v = Some (e, v')" "e = GG_ERR_OK"
    "Some (vec_contents v') = map_option ((@) (vec_contents ?v)) (json_text (\<lambda>_. None) ?obj)"
    using gg_json_encode_correct [OF inv, of "\<lambda>_. None" ?obj]
    unfolding t by (auto simp: gg_byte_vec_init_def GG_MAX_OBJECT_DEPTH_def GG_MAX_OBJECT_SUBOBJECTS_def)
  then show ?thesis unfolding t by (auto simp: vec_contents_def gg_byte_vec_init_def)
qed

text \<open>
  C38: An integer whose decimal text has 19 characters (from \<open>10 ^ 18\<close> up, or between
  \<open>- (10 ^ 18)\<close> and \<open>- (10 ^ 17)\<close>) is reported as encoded, but the 19-byte conversion buffer has
  room for 18 characters only: the last digit is replaced by a NUL byte. Below
  \<open>- (10 ^ 18)\<close> encoding fails with \<open>GG_ERR_NOMEM\<close>.
\<close>
theorem json_encode_on_i64_truncates:
  "(10 ^ 18 \<le> sint v \<or> - (10 ^ 18) < sint v \<and> sint v \<le> - (10 ^ 17) \<longrightarrow>
      json_encode_on_i64 w s v = gg_writer_call w s (take 18 (format_i64 v) @ [0])) \<and>
   (sint v \<le> - (10 ^ 18) \<longrightarrow> json_encode_on_i64 w s v = (GG_ERR_NOMEM, s)) \<and>
   (- (10 ^ 17) < sint v \<and> sint v < 10 ^ 18 \<longrightarrow> json_encode_on_i64 w s v = gg_writer_call w s (format_i64 v))"
proof (intro conjI impI)
  assume "10 ^ 18 \<le> sint v \<or> - (10 ^ 18) < sint v \<and> sint v \<le> - (10 ^ 17)"
  then show "json_encode_on_i64 w s v = gg_writer_call w s (take 18 (format_i64 v) @ [0])"
    by (simp only: json_encode_on_i64_def Let_def format_i64_19 sprintf_buf_def) simp
next
  assume "sint v \<le> - (10 ^ 18)"
  then have "10 ^ 18 \<le> nat \<bar>sint v\<bar>" "sint v < 0" by (auto simp: le_nat_iff)
  then have "length (format_i64 v) > 19"
    using nat_digits_length_ge [of 18 "nat \<bar>sint v\<bar>"] unfolding format_i64_len by (simp del: abs_of_neg)
  then show "json_encode_on_i64 w s v = (GG_ERR_NOMEM, s)" by (simp add: json_encode_on_i64_def Let_def)
next
  assume "- (10 ^ 17) < sint v \<and> sint v < 10 ^ 18"
  then have "length (format_i64 v) \<le> 18" by (intro format_i64_short) auto
  then show "json_encode_on_i64 w s v = gg_writer_call w s (format_i64 v)"
    by (simp add: json_encode_on_i64_def Let_def sprintf_buf_def)
qed

theorem json_encode_on_i64_truncates_witness:
  "json_encode_on_i64 gg_byte_vec_writer (gg_byte_vec_init \<lparr>data = 0, mem = replicate 20 0\<rparr>) 1000000000000000007 =
     gg_writer_call gg_byte_vec_writer (gg_byte_vec_init \<lparr>data = 0, mem = replicate 20 0\<rparr>) (bytes_of ''100000000000000000'' @ [0])"
proof -
  have "format_i64 1000000000000000007 = bytes_of ''1000000000000000007''"
    by (simp add: format_i64_def nat_digits.simps)
  then show ?thesis
    using json_encode_on_i64_truncates [of 1000000000000000007 gg_byte_vec_writer "gg_byte_vec_init \<lparr>data = 0, mem = replicate 20 0\<rparr>"]
    by simp
qed

end
