(* ===== verification/Json_Parser.thy ===== *)
theory Json_Parser
  imports Buffer
begin

text \<open>
  The JSON recogniser of \<open>src/json_decode.c\<close>: parser combinators and the grammar.

  A \<open>Parser\<close> of the code is a function pointer with a context; the model is a datatype with
  one constructor per function, and \<open>parser_call\<close> interprets it. Parsers refer to the grammar's
  value parser by the constructor \<open>PARSER_JSON_VALUE\<close>, as the code does by a forward
  declaration. The interpreter is a partial function into \<open>option\<close>: \<open>None\<close> would mean that a
  parser runs forever.

  Lemmas: a parser that does not match leaves the buffer alone, one that matches consumes a
  prefix; every parser of the grammar returns on every input.
\<close>

section \<open>Parsers\<close>

datatype JsonType =
    JSON_TYPE_STR
  | JSON_TYPE_NUMBER
  | JSON_TYPE_OBJECT
  | JSON_TYPE_ARRAY
  | JSON_TYPE_TRUE
  | JSON_TYPE_FALSE
  | JSON_TYPE_NULL

record ParseResult =
  json_type :: JsonType
  content :: GgBuffer
  count :: nat

definition PARSE_RESULT_INIT :: ParseResult where
  "PARSE_RESULT_INIT = \<lparr>json_type = JSON_TYPE_NULL, content = \<lparr>data = 0, mem = []\<rparr>, count = 0\<rparr>"

datatype Parser =
    COMB_ONE_OF "Parser list"
  | COMB_SEQUENCE "Parser list"
  | COMB_ZERO_OR_MORE Parser
  | COMB_MAYBE Parser
  | COMB_NESTED Parser
  | COMB_RESULT_VAL JsonType Parser
  | COMB_INCREMENT_COUNT Parser
  | PARSER_CHAR byte
  | PARSER_STR "byte list"
  | PARSER_CHAR_RANGE byte byte
  | PARSER_JSON_STR_CODEPOINT
  | PARSER_JSON_VALUE

section \<open>Grammar\<close>

definition PARSER_DIGIT :: Parser where
  "PARSER_DIGIT = PARSER_CHAR_RANGE 48 57"

definition PARSER_HEX_DIGIT :: Parser where
  "PARSER_HEX_DIGIT = COMB_ONE_OF [PARSER_DIGIT, PARSER_CHAR_RANGE 65 70, PARSER_CHAR_RANGE 97 102]"

definition PARSER_JSON_STR_ESCAPE :: Parser where
  "PARSER_JSON_STR_ESCAPE =
     COMB_SEQUENCE
       [PARSER_CHAR 92,
        COMB_ONE_OF
          [PARSER_CHAR 34, PARSER_CHAR 92, PARSER_CHAR (chr CHR ''/''), PARSER_CHAR (chr CHR ''b''),
           PARSER_CHAR (chr CHR ''f''), PARSER_CHAR (chr CHR ''n''), PARSER_CHAR (chr CHR ''r''),
           PARSER_CHAR (chr CHR ''t''),
           COMB_SEQUENCE
             [PARSER_CHAR (chr CHR ''u''), PARSER_HEX_DIGIT, PARSER_HEX_DIGIT, PARSER_HEX_DIGIT, PARSER_HEX_DIGIT]]]"

definition PARSER_JSON_WHITESPACE :: Parser where
  "PARSER_JSON_WHITESPACE =
     COMB_ZERO_OR_MORE (COMB_ONE_OF [PARSER_CHAR 32, PARSER_CHAR 10, PARSER_CHAR 13, PARSER_CHAR 9])"

definition PARSER_JSON_STR :: Parser where
  "PARSER_JSON_STR =
     COMB_SEQUENCE
       [PARSER_CHAR 34,
        COMB_RESULT_VAL JSON_TYPE_STR
          (COMB_ZERO_OR_MORE (COMB_ONE_OF [PARSER_JSON_STR_CODEPOINT, PARSER_JSON_STR_ESCAPE])),
        PARSER_CHAR 34]"

definition PARSER_INT_PART :: Parser where
  "PARSER_INT_PART =
     COMB_SEQUENCE
       [COMB_MAYBE (PARSER_CHAR (chr CHR ''-'')),
        COMB_ONE_OF
          [PARSER_CHAR (chr CHR ''0''),
           COMB_SEQUENCE [PARSER_CHAR_RANGE 49 57, COMB_ZERO_OR_MORE PARSER_DIGIT]]]"

definition PARSER_FRAC_PART :: Parser where
  "PARSER_FRAC_PART = COMB_SEQUENCE [PARSER_CHAR (chr CHR ''.''), COMB_ZERO_OR_MORE PARSER_DIGIT]"

definition PARSER_EXPONENT :: Parser where
  "PARSER_EXPONENT =
     COMB_SEQUENCE
       [COMB_ONE_OF [PARSER_CHAR (chr CHR ''e''), PARSER_CHAR (chr CHR ''E'')],
        COMB_MAYBE (COMB_ONE_OF [PARSER_CHAR (chr CHR ''+''), PARSER_CHAR (chr CHR ''-'')]),
        PARSER_DIGIT,
        COMB_ZERO_OR_MORE PARSER_DIGIT]"

definition PARSER_JSON_NUMBER :: Parser where
  "PARSER_JSON_NUMBER =
     COMB_RESULT_VAL JSON_TYPE_NUMBER
       (COMB_SEQUENCE [PARSER_INT_PART, COMB_MAYBE PARSER_FRAC_PART, COMB_MAYBE PARSER_EXPONENT])"

definition PARSER_JSON_OBJECT_KV :: Parser where
  "PARSER_JSON_OBJECT_KV =
     COMB_NESTED (COMB_SEQUENCE
       [PARSER_JSON_STR, PARSER_JSON_WHITESPACE, PARSER_CHAR (chr CHR '':''), PARSER_JSON_VALUE])"

definition PARSER_JSON_OBJECT :: Parser where
  "PARSER_JSON_OBJECT =
     COMB_SEQUENCE
       [PARSER_CHAR (chr CHR ''{''),
        PARSER_JSON_WHITESPACE,
        COMB_RESULT_VAL JSON_TYPE_OBJECT
          (COMB_MAYBE (COMB_SEQUENCE
             [COMB_ZERO_OR_MORE (COMB_INCREMENT_COUNT (COMB_SEQUENCE
                [PARSER_JSON_OBJECT_KV, PARSER_CHAR (chr CHR '',''), PARSER_JSON_WHITESPACE])),
              COMB_INCREMENT_COUNT PARSER_JSON_OBJECT_KV])),
        PARSER_CHAR (chr CHR ''}'')]"

definition PARSER_JSON_ARRAY_ELEM :: Parser where
  "PARSER_JSON_ARRAY_ELEM = COMB_NESTED PARSER_JSON_VALUE"

definition PARSER_JSON_ARRAY :: Parser where
  "PARSER_JSON_ARRAY =
     COMB_SEQUENCE
       [PARSER_CHAR (chr CHR ''[''),
        PARSER_JSON_WHITESPACE,
        COMB_RESULT_VAL JSON_TYPE_ARRAY
          (COMB_MAYBE (COMB_SEQUENCE
             [COMB_ZERO_OR_MORE (COMB_INCREMENT_COUNT (COMB_SEQUENCE
                [PARSER_JSON_ARRAY_ELEM, PARSER_CHAR (chr CHR '','')])),
              COMB_INCREMENT_COUNT PARSER_JSON_ARRAY_ELEM])),
        PARSER_CHAR (chr CHR '']'')]"

definition PARSER_JSON_TRUE :: Parser where
  "PARSER_JSON_TRUE = COMB_RESULT_VAL JSON_TYPE_TRUE (PARSER_STR (bytes_of ''true''))"

definition PARSER_JSON_FALSE :: Parser where
  "PARSER_JSON_FALSE = COMB_RESULT_VAL JSON_TYPE_FALSE (PARSER_STR (bytes_of ''false''))"

definition PARSER_JSON_NULL :: Parser where
  "PARSER_JSON_NULL = COMB_RESULT_VAL JSON_TYPE_NULL (PARSER_STR (bytes_of ''null''))"

definition json_value_parser :: Parser where
  \<comment> \<open>what \<open>PARSER_JSON_VALUE\<close> is initialised to\<close>
  "json_value_parser =
     COMB_SEQUENCE
       [PARSER_JSON_WHITESPACE,
        COMB_ONE_OF
          [PARSER_JSON_STR, PARSER_JSON_NUMBER, PARSER_JSON_OBJECT, PARSER_JSON_ARRAY,
           PARSER_JSON_TRUE, PARSER_JSON_FALSE, PARSER_JSON_NULL],
        PARSER_JSON_WHITESPACE]"

section \<open>Running a parser\<close>

definition parser_char_fn :: "byte \<Rightarrow> GgBuffer \<Rightarrow> bool \<times> GgBuffer" where
  "parser_char_fn c buf =
     (if len buf < 1 then (False, buf)
      else if mem buf ! 0 \<noteq> c then (False, buf)
      else (True, gg_buffer_rest buf 1))"

definition parser_str_fn :: "byte list \<Rightarrow> GgBuffer \<Rightarrow> bool \<times> GgBuffer" where
  "parser_str_fn str buf =
     (if len buf < length str then (False, buf)
      else if take (length str) (mem buf) \<noteq> str then (False, buf)
      else (True, gg_buffer_rest buf (length str)))"

definition parser_char_range_fn :: "byte \<Rightarrow> byte \<Rightarrow> GgBuffer \<Rightarrow> bool \<times> GgBuffer" where
  \<comment> \<open>\<open>char\<close> is signed on the supported targets: the comparison is signed\<close>
  "parser_char_range_fn start end buf =
     (if len buf < 1 then (False, buf)
      else if sint (mem buf ! 0) < sint start \<or> sint (mem buf ! 0) > sint end then (False, buf)
      else (True, gg_buffer_rest buf 1))"

definition utf8_len :: "byte \<Rightarrow> nat option" where
  \<comment> \<open>the length announced by the first byte of a code point\<close>
  "utf8_len b =
     (if b AND 0b11000000 = 0b10000000 then None
      else if b AND 0b10000000 = 0 then Some 1
      else if b AND 0b11100000 = 0b11000000 then Some 2
      else if b AND 0b11110000 = 0b11100000 then Some 3
      else if b AND 0b11111000 = 0b11110000 then Some 4
      else None)"

definition parser_json_str_codepoint_fn :: "GgBuffer \<Rightarrow> bool \<times> GgBuffer" where
  "parser_json_str_codepoint_fn buf =
     (if len buf < 1 then (False, buf)
      else if mem buf ! 0 \<le> 0x1F then (False, buf)
      else if mem buf ! 0 = 34 then (False, buf)
      else if mem buf ! 0 = 92 then (False, buf)
      else (case utf8_len (mem buf ! 0) of
              None \<Rightarrow> (False, buf)
            | Some n \<Rightarrow>
                if len buf < n then (False, buf)
                else if \<not> list_all (\<lambda>i. mem buf ! i AND 0b11000000 = 0b10000000) [1..<n] then (False, buf)
                else (True, gg_buffer_rest buf n)))"

definition match_of :: "GgBuffer \<Rightarrow> GgBuffer \<Rightarrow> GgBuffer" where
  \<comment> \<open>the part of the first buffer before the start of the second\<close>
  "match_of buf buf' = buf\<lparr>mem := take (data buf' - data buf) (mem buf)\<rparr>"

type_synonym parse_state = "GgBuffer \<times> ParseResult option"

partial_function (option) parser_call ::
  "Parser \<Rightarrow> GgBuffer \<Rightarrow> ParseResult option \<Rightarrow> (bool \<times> GgBuffer \<times> ParseResult option) option" where
  \<comment> \<open>whether the parser matches, the buffer and \<open>*output\<close> afterwards (\<open>None\<close> for a NULL \<open>output\<close>)\<close>
  "parser_call parser buf out =
     (case parser of
        COMB_ONE_OF ps \<Rightarrow>
          (case ps of
             [] \<Rightarrow> Some (False, buf, out)
           | p # qs \<Rightarrow>
               Option.bind (parser_call p buf out) (\<lambda>r.
               if fst r then Some r else parser_call (COMB_ONE_OF qs) (fst (snd r)) (snd (snd r))))
      | COMB_SEQUENCE ps \<Rightarrow>
          (case ps of
             [] \<Rightarrow> Some (True, buf, out)
           | p # qs \<Rightarrow>
               Option.bind (parser_call p buf out) (\<lambda>r.
               if \<not> fst r then Some (False, buf, snd (snd r))
               else Option.bind (parser_call (COMB_SEQUENCE qs) (fst (snd r)) (snd (snd r))) (\<lambda>r'.
                    if \<not> fst r' then Some (False, buf, snd (snd r')) else Some r')))
      | COMB_ZERO_OR_MORE p \<Rightarrow>
          Option.bind (parser_call p buf out) (\<lambda>r.
          if fst r then parser_call (COMB_ZERO_OR_MORE p) (fst (snd r)) (snd (snd r))
          else Some (True, snd r))
      | COMB_MAYBE p \<Rightarrow> Option.bind (parser_call p buf out) (\<lambda>r. Some (True, snd r))
      | COMB_NESTED p \<Rightarrow> Option.bind (parser_call p buf None) (\<lambda>r. Some (fst r, fst (snd r), out))
      | COMB_RESULT_VAL type p \<Rightarrow>
          Option.bind (parser_call p buf out) (\<lambda>r.
          Some (fst r, fst (snd r),
                if fst r
                then map_option (\<lambda>out. out\<lparr>json_type := type, content := match_of buf (fst (snd r))\<rparr>) (snd (snd r))
                else snd (snd r)))
      | COMB_INCREMENT_COUNT p \<Rightarrow>
          Option.bind (parser_call p buf out) (\<lambda>r.
          Some (fst r, fst (snd r),
                if fst r then map_option (\<lambda>out. out\<lparr>count := count out + 1\<rparr>) (snd (snd r)) else snd (snd r)))
      | PARSER_CHAR c \<Rightarrow> (case parser_char_fn c buf of (b, buf') \<Rightarrow> Some (b, buf', out))
      | PARSER_STR str \<Rightarrow> (case parser_str_fn str buf of (b, buf') \<Rightarrow> Some (b, buf', out))
      | PARSER_CHAR_RANGE start end \<Rightarrow> (case parser_char_range_fn start end buf of (b, buf') \<Rightarrow> Some (b, buf', out))
      | PARSER_JSON_STR_CODEPOINT \<Rightarrow> (case parser_json_str_codepoint_fn buf of (b, buf') \<Rightarrow> Some (b, buf', out))
      | PARSER_JSON_VALUE \<Rightarrow> parser_call json_value_parser buf out)"

section \<open>Equations\<close>

lemma call_one_of_Nil: "parser_call (COMB_ONE_OF []) buf out = Some (False, buf, out)"
  by (subst parser_call.simps) simp

lemma call_one_of_Cons:
  "parser_call (COMB_ONE_OF (p # ps)) buf out =
     Option.bind (parser_call p buf out) (\<lambda>r.
       if fst r then Some r else parser_call (COMB_ONE_OF ps) (fst (snd r)) (snd (snd r)))"
  by (subst parser_call.simps) simp

lemma call_sequence_Nil: "parser_call (COMB_SEQUENCE []) buf out = Some (True, buf, out)"
  by (subst parser_call.simps) simp

lemma call_sequence_Cons:
  "parser_call (COMB_SEQUENCE (p # ps)) buf out =
     Option.bind (parser_call p buf out) (\<lambda>r.
       if \<not> fst r then Some (False, buf, snd (snd r))
       else Option.bind (parser_call (COMB_SEQUENCE ps) (fst (snd r)) (snd (snd r))) (\<lambda>r'.
            if \<not> fst r' then Some (False, buf, snd (snd r')) else Some r'))"
  by (subst parser_call.simps) simp

lemma call_zero_or_more:
  "parser_call (COMB_ZERO_OR_MORE p) buf out =
     Option.bind (parser_call p buf out) (\<lambda>r.
       if fst r then parser_call (COMB_ZERO_OR_MORE p) (fst (snd r)) (snd (snd r)) else Some (True, snd r))"
  by (subst parser_call.simps) simp

lemma call_maybe: "parser_call (COMB_MAYBE p) buf out = Option.bind (parser_call p buf out) (\<lambda>r. Some (True, snd r))"
  by (subst parser_call.simps) simp

lemma call_nested:
  "parser_call (COMB_NESTED p) buf out = Option.bind (parser_call p buf None) (\<lambda>r. Some (fst r, fst (snd r), out))"
  by (subst parser_call.simps) simp

lemma call_result_val:
  "parser_call (COMB_RESULT_VAL type p) buf out =
     Option.bind (parser_call p buf out) (\<lambda>r.
       Some (fst r, fst (snd r),
         if fst r
         then map_option (\<lambda>out. out\<lparr>json_type := type, content := match_of buf (fst (snd r))\<rparr>) (snd (snd r))
         else snd (snd r)))"
  by (subst parser_call.simps) simp

lemma call_increment_count:
  "parser_call (COMB_INCREMENT_COUNT p) buf out =
     Option.bind (parser_call p buf out) (\<lambda>r.
       Some (fst r, fst (snd r),
         if fst r then map_option (\<lambda>out. out\<lparr>count := count out + 1\<rparr>) (snd (snd r)) else snd (snd r)))"
  by (subst parser_call.simps) simp

lemma call_leaf:
  "parser_call (PARSER_CHAR c) buf out = (case parser_char_fn c buf of (b, buf') \<Rightarrow> Some (b, buf', out))"
  "parser_call (PARSER_STR str) buf out = (case parser_str_fn str buf of (b, buf') \<Rightarrow> Some (b, buf', out))"
  "parser_call (PARSER_CHAR_RANGE s e) buf out = (case parser_char_range_fn s e buf of (b, buf') \<Rightarrow> Some (b, buf', out))"
  "parser_call PARSER_JSON_STR_CODEPOINT buf out = (case parser_json_str_codepoint_fn buf of (b, buf') \<Rightarrow> Some (b, buf', out))"
  by (subst parser_call.simps, simp)+

lemma call_value: "parser_call PARSER_JSON_VALUE buf out = parser_call json_value_parser buf out"
  by (subst parser_call.simps) simp

text \<open>The same equations for evaluation: a \<open>case\<close> is only entered once its result is known.\<close>

lemma eval_combinators:
  "parser_call (COMB_ONE_OF (p # ps)) buf out =
     (case parser_call p buf out of None \<Rightarrow> None | Some (m, b, o1) \<Rightarrow> if m then Some (m, b, o1) else parser_call (COMB_ONE_OF ps) b o1)"
  "parser_call (COMB_SEQUENCE (p # ps)) buf out =
     (case parser_call p buf out of None \<Rightarrow> None | Some (m, b, o1) \<Rightarrow>
        if m then (case parser_call (COMB_SEQUENCE ps) b o1 of None \<Rightarrow> None | Some (m2, b2, o2) \<Rightarrow> Some (m2, if m2 then b2 else buf, o2))
        else Some (False, buf, o1))"
  "parser_call (COMB_ZERO_OR_MORE p) buf out =
     (case parser_call p buf out of None \<Rightarrow> None | Some (m, b, o1) \<Rightarrow> if m then parser_call (COMB_ZERO_OR_MORE p) b o1 else Some (True, b, o1))"
  "parser_call (COMB_MAYBE p) buf out =
     (case parser_call p buf out of None \<Rightarrow> None | Some (m, b, o1) \<Rightarrow> Some (True, b, o1))"
  "parser_call (COMB_NESTED p) buf out =
     (case parser_call p buf None of None \<Rightarrow> None | Some (m, b, o1) \<Rightarrow> Some (m, b, out))"
  by (subst parser_call.simps, auto split: option.splits)+

lemmas parser_eval = eval_combinators call_one_of_Nil call_sequence_Nil call_result_val call_increment_count call_leaf call_value
  parser_char_fn_def parser_str_fn_def parser_char_range_fn_def gg_buffer_rest_def gg_buffer_substr_def

lemmas grammar_defs = PARSER_DIGIT_def PARSER_HEX_DIGIT_def PARSER_JSON_STR_ESCAPE_def PARSER_JSON_WHITESPACE_def
  PARSER_JSON_STR_def PARSER_INT_PART_def PARSER_FRAC_PART_def PARSER_EXPONENT_def PARSER_JSON_NUMBER_def
  PARSER_JSON_OBJECT_KV_def PARSER_JSON_OBJECT_def PARSER_JSON_ARRAY_ELEM_def PARSER_JSON_ARRAY_def
  PARSER_JSON_TRUE_def PARSER_JSON_FALSE_def PARSER_JSON_NULL_def json_value_parser_def

section \<open>Big-step rules\<close>

text \<open>
  What a parser that returns has done, as a relation: the rules follow the functions of the
  code, and \<open>parser_call_parses\<close> connects them to the interpreter.
\<close>

inductive parses :: "Parser \<Rightarrow> GgBuffer \<Rightarrow> ParseResult option \<Rightarrow> bool \<times> GgBuffer \<times> ParseResult option \<Rightarrow> bool" where
  one_of_Nil: "parses (COMB_ONE_OF []) buf out (False, buf, out)"
| one_of_here: "parses q buf out (True, b, o1) \<Longrightarrow> parses (COMB_ONE_OF (q # qs)) buf out (True, b, o1)"
| one_of_later: "parses q buf out (False, b, o1) \<Longrightarrow> parses (COMB_ONE_OF qs) b o1 r \<Longrightarrow>
    parses (COMB_ONE_OF (q # qs)) buf out r"
| sequence_Nil: "parses (COMB_SEQUENCE []) buf out (True, buf, out)"
| sequence_fail: "parses q buf out (False, b, o1) \<Longrightarrow> parses (COMB_SEQUENCE (q # qs)) buf out (False, buf, o1)"
| sequence_rest: "parses q buf out (True, b, o1) \<Longrightarrow> parses (COMB_SEQUENCE qs) b o1 (m, b2, o2) \<Longrightarrow>
    parses (COMB_SEQUENCE (q # qs)) buf out (m, if m then b2 else buf, o2)"
| zero_or_more_stop: "parses q buf out (False, b, o1) \<Longrightarrow> parses (COMB_ZERO_OR_MORE q) buf out (True, b, o1)"
| zero_or_more_step: "parses q buf out (True, b, o1) \<Longrightarrow> parses (COMB_ZERO_OR_MORE q) b o1 r \<Longrightarrow>
    parses (COMB_ZERO_OR_MORE q) buf out r"
| maybe: "parses q buf out (m, b, o1) \<Longrightarrow> parses (COMB_MAYBE q) buf out (True, b, o1)"
| nested: "parses q buf None (m, b, o1) \<Longrightarrow> parses (COMB_NESTED q) buf out (m, b, out)"
| result_val: "parses q buf out (m, b, o1) \<Longrightarrow>
    parses (COMB_RESULT_VAL type q) buf out
      (m, b, if m then map_option (\<lambda>out. out\<lparr>json_type := type, content := match_of buf b\<rparr>) o1 else o1)"
| increment_count: "parses q buf out (m, b, o1) \<Longrightarrow>
    parses (COMB_INCREMENT_COUNT q) buf out (m, b, if m then map_option (\<lambda>out. out\<lparr>count := count out + 1\<rparr>) o1 else o1)"
| char: "parser_char_fn c buf = (m, b) \<Longrightarrow> parses (PARSER_CHAR c) buf out (m, b, out)"
| str: "parser_str_fn s buf = (m, b) \<Longrightarrow> parses (PARSER_STR s) buf out (m, b, out)"
| char_range: "parser_char_range_fn s e buf = (m, b) \<Longrightarrow> parses (PARSER_CHAR_RANGE s e) buf out (m, b, out)"
| codepoint: "parser_json_str_codepoint_fn buf = (m, b) \<Longrightarrow> parses PARSER_JSON_STR_CODEPOINT buf out (m, b, out)"
| json_value: "parses json_value_parser buf out r \<Longrightarrow> parses PARSER_JSON_VALUE buf out r"

inductive_cases sequence_True: "parses (COMB_SEQUENCE (q # qs)) buf out (True, b, o1)"
inductive_cases one_of_cases: "parses (COMB_ONE_OF (q # qs)) buf out r"
inductive_cases result_val_True: "parses (COMB_RESULT_VAL type q) buf out (True, b, o1)"
inductive_cases char_True: "parses (PARSER_CHAR c) buf out (True, b, o1)"
inductive_cases value_cases: "parses PARSER_JSON_VALUE buf out r"

section \<open>A match consumes a prefix\<close>

fun consuming :: "Parser \<Rightarrow> bool" where
  \<comment> \<open>a match takes at least one byte\<close>
  "consuming (COMB_ONE_OF ps) = list_all consuming ps"
| "consuming (COMB_SEQUENCE ps) = list_ex consuming ps"
| "consuming (COMB_ZERO_OR_MORE p) = False"
| "consuming (COMB_MAYBE p) = False"
| "consuming (COMB_NESTED p) = consuming p"
| "consuming (COMB_RESULT_VAL type p) = consuming p"
| "consuming (COMB_INCREMENT_COUNT p) = consuming p"
| "consuming (PARSER_STR str) = (str \<noteq> [])"
| "consuming _ = True"

lemma consuming_value: "consuming json_value_parser"
  by (simp add: grammar_defs)

definition consumed :: "bool \<Rightarrow> GgBuffer \<Rightarrow> bool \<Rightarrow> GgBuffer \<Rightarrow> bool" where
  "consumed c buf m buf' =
     (if m then \<exists>k. (c \<longrightarrow> k \<ge> 1) \<and> k \<le> len buf \<and> buf' = \<lparr>data = data buf + k, mem = drop k (mem buf)\<rparr>
      else buf' = buf)"

lemma gg_buffer_rest_eq: "k \<le> len buf \<Longrightarrow> gg_buffer_rest buf k = \<lparr>data = data buf + k, mem = drop k (mem buf)\<rparr>"
  by (simp add: gg_buffer_rest_def gg_buffer_substr_def Let_def)

lemma utf8_len_pos: "utf8_len b = Some n \<Longrightarrow> n \<ge> 1"
  by (auto simp: utf8_len_def split: if_splits)

lemma consumed_leaf:
  "parser_char_fn c buf = (m, buf') \<Longrightarrow> consumed True buf m buf'"
  "parser_str_fn str buf = (m, buf') \<Longrightarrow> consumed (str \<noteq> []) buf m buf'"
  "parser_char_range_fn s e buf = (m, buf') \<Longrightarrow> consumed True buf m buf'"
  "parser_json_str_codepoint_fn buf = (m, buf') \<Longrightarrow> consumed True buf m buf'"
  using utf8_len_pos
  by (auto simp: parser_char_fn_def parser_str_fn_def parser_char_range_fn_def parser_json_str_codepoint_fn_def
      consumed_def gg_buffer_rest_eq Suc_le_eq split: if_splits option.splits)

lemma consumed_trans:
  assumes "consumed c1 buf True buf1" "consumed c2 buf1 True buf2"
  shows "consumed (c1 \<or> c2) buf True buf2"
proof -
  obtain k1 k2 where "k1 \<le> len buf" "buf1 = \<lparr>data = data buf + k1, mem = drop k1 (mem buf)\<rparr>" "c1 \<longrightarrow> k1 \<ge> 1"
    "k2 \<le> len buf1" "buf2 = \<lparr>data = data buf1 + k2, mem = drop k2 (mem buf1)\<rparr>" "c2 \<longrightarrow> k2 \<ge> 1"
    using assms by (auto simp: consumed_def)
  then show ?thesis by (auto simp: consumed_def add_ac intro!: exI [of _ "k1 + k2"])
qed

lemma consumed_refl: "consumed False buf True buf"
  by (auto simp: consumed_def intro: exI [of _ 0])

lemma consumed_mono: "consumed c buf m buf' \<Longrightarrow> (c' \<Longrightarrow> c) \<Longrightarrow> consumed c' buf m buf'"
  by (auto simp: consumed_def)

lemma consumed_False: "consumed c buf False buf' \<longleftrightarrow> buf' = buf"
  by (simp add: consumed_def)

lemma parser_call_parses: "parser_call p buf out = Some r \<Longrightarrow> parses p buf out r"
proof (rule parser_call.raw_induct [where P = parses, rotated], assumption)
  fix call :: "Parser \<Rightarrow> GgBuffer \<Rightarrow> ParseResult option \<Rightarrow> (bool \<times> GgBuffer \<times> ParseResult option) option"
    and p buf out r
  assume IH: "\<And>p buf out r. call p buf out = Some r \<Longrightarrow> parses p buf out r"
  assume eq: "(case p of
        COMB_ONE_OF ps \<Rightarrow>
          (case ps of
             [] \<Rightarrow> Some (False, buf, out)
           | p # qs \<Rightarrow>
               Option.bind (call p buf out) (\<lambda>r.
               if fst r then Some r else call (COMB_ONE_OF qs) (fst (snd r)) (snd (snd r))))
      | COMB_SEQUENCE ps \<Rightarrow>
          (case ps of
             [] \<Rightarrow> Some (True, buf, out)
           | p # qs \<Rightarrow>
               Option.bind (call p buf out) (\<lambda>r.
               if \<not> fst r then Some (False, buf, snd (snd r))
               else Option.bind (call (COMB_SEQUENCE qs) (fst (snd r)) (snd (snd r))) (\<lambda>r'.
                    if \<not> fst r' then Some (False, buf, snd (snd r')) else Some r')))
      | COMB_ZERO_OR_MORE p \<Rightarrow>
          Option.bind (call p buf out) (\<lambda>r.
          if fst r then call (COMB_ZERO_OR_MORE p) (fst (snd r)) (snd (snd r))
          else Some (True, snd r))
      | COMB_MAYBE p \<Rightarrow> Option.bind (call p buf out) (\<lambda>r. Some (True, snd r))
      | COMB_NESTED p \<Rightarrow> Option.bind (call p buf None) (\<lambda>r. Some (fst r, fst (snd r), out))
      | COMB_RESULT_VAL type p \<Rightarrow>
          Option.bind (call p buf out) (\<lambda>r.
          Some (fst r, fst (snd r),
                if fst r
                then map_option (\<lambda>out. out\<lparr>json_type := type, content := match_of buf (fst (snd r))\<rparr>) (snd (snd r))
                else snd (snd r)))
      | COMB_INCREMENT_COUNT p \<Rightarrow>
          Option.bind (call p buf out) (\<lambda>r.
          Some (fst r, fst (snd r),
                if fst r then map_option (\<lambda>out. out\<lparr>count := count out + 1\<rparr>) (snd (snd r)) else snd (snd r)))
      | PARSER_CHAR c \<Rightarrow> (case parser_char_fn c buf of (b, buf') \<Rightarrow> Some (b, buf', out))
      | PARSER_STR str \<Rightarrow> (case parser_str_fn str buf of (b, buf') \<Rightarrow> Some (b, buf', out))
      | PARSER_CHAR_RANGE start end \<Rightarrow> (case parser_char_range_fn start end buf of (b, buf') \<Rightarrow> Some (b, buf', out))
      | PARSER_JSON_STR_CODEPOINT \<Rightarrow> (case parser_json_str_codepoint_fn buf of (b, buf') \<Rightarrow> Some (b, buf', out))
      | PARSER_JSON_VALUE \<Rightarrow> call json_value_parser buf out) = Some r"
  show "parses p buf out r"
  proof (cases p)
    case (COMB_ONE_OF ps)
    then show ?thesis
    proof (cases ps)
      case (Cons q qs)
      then obtain m1 b1 o1 where r1: "call q buf out = Some (m1, b1, o1)"
        using eq COMB_ONE_OF by (cases "call q buf out") auto
      show ?thesis
      proof (cases m1)
        case True
        then have "r = (True, b1, o1)" using eq r1 COMB_ONE_OF Cons by simp
        then show ?thesis using IH [OF r1] True COMB_ONE_OF Cons one_of_here by simp
      next
        case False
        then have "call (COMB_ONE_OF qs) b1 o1 = Some r" using eq r1 COMB_ONE_OF Cons by simp
        from IH [OF this] show ?thesis using IH [OF r1] False COMB_ONE_OF Cons one_of_later by simp
      qed
    qed (use eq one_of_Nil in auto)
  next
    case (COMB_SEQUENCE ps)
    then show ?thesis
    proof (cases ps)
      case (Cons q qs)
      then obtain m1 b1 o1 where r1: "call q buf out = Some (m1, b1, o1)"
        using eq COMB_SEQUENCE by (cases "call q buf out") auto
      show ?thesis
      proof (cases m1)
        case True
        then obtain m2 b2 o2 where r2: "call (COMB_SEQUENCE qs) b1 o1 = Some (m2, b2, o2)"
          using eq r1 COMB_SEQUENCE Cons by (cases "call (COMB_SEQUENCE qs) b1 o1") auto
        then have "r = (m2, if m2 then b2 else buf, o2)" using eq r1 True COMB_SEQUENCE Cons by (cases m2) auto
        then show ?thesis using IH [OF r1] IH [OF r2] True COMB_SEQUENCE Cons sequence_rest by simp
      next
        case False
        then have "r = (False, buf, o1)" using eq r1 COMB_SEQUENCE Cons by simp
        then show ?thesis using IH [OF r1] False COMB_SEQUENCE Cons sequence_fail by simp
      qed
    qed (use eq sequence_Nil in auto)
  next
    case (COMB_ZERO_OR_MORE q)
    then obtain m1 b1 o1 where r1: "call q buf out = Some (m1, b1, o1)" using eq by (cases "call q buf out") auto
    show ?thesis
    proof (cases m1)
      case True
      then have "call (COMB_ZERO_OR_MORE q) b1 o1 = Some r" using eq r1 COMB_ZERO_OR_MORE by simp
      from IH [OF this] show ?thesis using IH [OF r1] True COMB_ZERO_OR_MORE zero_or_more_step by simp
    next
      case False
      then have "r = (True, b1, o1)" using eq r1 COMB_ZERO_OR_MORE by simp
      then show ?thesis using IH [OF r1] False COMB_ZERO_OR_MORE zero_or_more_stop by simp
    qed
  next
    case (COMB_MAYBE q)
    then obtain m1 b1 o1 where "call q buf out = Some (m1, b1, o1)" using eq by (cases "call q buf out") auto
    with IH [OF this] show ?thesis using eq COMB_MAYBE maybe by auto
  next
    case (COMB_NESTED q)
    then obtain m1 b1 o1 where "call q buf None = Some (m1, b1, o1)" using eq by (cases "call q buf None") auto
    with IH [OF this] show ?thesis using eq COMB_NESTED nested by auto
  next
    case (COMB_RESULT_VAL type q)
    then obtain m1 b1 o1 where "call q buf out = Some (m1, b1, o1)" using eq by (cases "call q buf out") auto
    then show ?thesis using eq COMB_RESULT_VAL result_val [OF IH, of q buf out m1 b1 o1 type] by auto
  next
    case (COMB_INCREMENT_COUNT q)
    then obtain m1 b1 o1 where "call q buf out = Some (m1, b1, o1)" using eq by (cases "call q buf out") auto
    then show ?thesis using eq COMB_INCREMENT_COUNT increment_count [OF IH, of q buf out m1 b1 o1] by auto
  next
    case PARSER_JSON_VALUE
    then show ?thesis using eq IH json_value by simp
  qed (use eq char str char_range codepoint in \<open>auto split: prod.splits\<close>)
qed

lemma parses_zero_or_more: "parses p buf out r \<Longrightarrow> p = COMB_ZERO_OR_MORE q \<Longrightarrow> fst r"
  by (induction rule: parses.induct) auto

lemma parses_consumed: "parses p buf out r \<Longrightarrow> consumed (consuming p) buf (fst r) (fst (snd r))"
proof (induction rule: parses.induct)
  case (one_of_later q buf out b o1 qs r)
  then show ?case by (auto simp: consumed_False elim: consumed_mono)
next
  case (sequence_rest q buf out b o1 qs m b2 o2)
  then show ?case using consumed_trans [of "consuming q" buf b "consuming (COMB_SEQUENCE qs)" b2]
    by (cases m) (auto simp: consumed_False)
next
  case (zero_or_more_step q buf out b o1 r)
  then have "consumed (consuming q \<or> False) buf True (fst (snd r))" "fst r"
    using consumed_trans [of "consuming q" buf b False] parses_zero_or_more by auto
  then show ?case using consumed_mono [of _ buf True "fst (snd r)" False] by simp
next
  case (maybe q buf out m b o1)
  then show ?case using consumed_mono [of _ buf True b False] by (cases m) (auto simp: consumed_False consumed_refl)
next
  case (json_value buf out r)
  then show ?case by (simp add: consuming_value)
qed (auto simp: consumed_False consumed_refl dest: consumed_leaf elim: consumed_mono)

lemma parser_call_consumed: "parser_call p buf out = Some r \<Longrightarrow> consumed (consuming p) buf (fst r) (fst (snd r))"
  by (rule parses_consumed [OF parser_call_parses])


section \<open>Every parser of the grammar returns\<close>

fun guarded :: "Parser \<Rightarrow> bool" where
  \<comment> \<open>the value parser is only reached after a byte has been consumed\<close>
  "guarded (COMB_ONE_OF ps) = list_all guarded ps"
| "guarded (COMB_SEQUENCE []) = True"
| "guarded (COMB_SEQUENCE (p # ps)) = (guarded p \<and> (consuming p \<or> guarded (COMB_SEQUENCE ps)))"
| "guarded (COMB_ZERO_OR_MORE p) = guarded p"
| "guarded (COMB_MAYBE p) = guarded p"
| "guarded (COMB_NESTED p) = guarded p"
| "guarded (COMB_RESULT_VAL type p) = guarded p"
| "guarded (COMB_INCREMENT_COUNT p) = guarded p"
| "guarded PARSER_JSON_VALUE = False"
| "guarded _ = True"

fun progress :: "Parser \<Rightarrow> bool" where
  \<comment> \<open>every iteration of a repetition consumes\<close>
  "progress (COMB_ONE_OF ps) = list_all progress ps"
| "progress (COMB_SEQUENCE ps) = list_all progress ps"
| "progress (COMB_ZERO_OR_MORE p) = (progress p \<and> consuming p)"
| "progress (COMB_MAYBE p) = progress p"
| "progress (COMB_NESTED p) = progress p"
| "progress (COMB_RESULT_VAL type p) = progress p"
| "progress (COMB_INCREMENT_COUNT p) = progress p"
| "progress _ = True"

lemma value_guarded: "guarded json_value_parser" and value_progress: "progress json_value_parser"
  by (simp_all add: grammar_defs)

lemma consumed_len:
  "consumed c buf m buf' \<Longrightarrow> len buf' \<le> len buf"
  "consumed c buf True buf' \<Longrightarrow> c \<Longrightarrow> len buf' < len buf"
  by (auto simp: consumed_def split: if_splits)

lemma returns_sequence:
  assumes smaller: "\<And>p b o1. progress p \<Longrightarrow> len b < n \<Longrightarrow> parser_call p b o1 \<noteq> None"
    and each: "\<And>p b o1. p \<in> set ps \<Longrightarrow> (\<not> all \<longrightarrow> guarded p) \<Longrightarrow> len b \<le> n \<Longrightarrow> parser_call p b o1 \<noteq> None"
    and "list_all progress ps" "\<not> all \<longrightarrow> guarded (COMB_SEQUENCE ps)" "len buf \<le> n"
  shows "parser_call (COMB_SEQUENCE ps) buf out \<noteq> None"
  using assms(2-)
proof (induction ps arbitrary: buf out)
  case (Cons p ps)
  obtain m b1 o1 where p: "parser_call p buf out = Some (m, b1, o1)"
    using Cons.prems(1) [of p buf out] Cons.prems(3,4) by auto
  have "parser_call (COMB_SEQUENCE ps) b1 o1 \<noteq> None" if m
  proof (cases "len b1 < n")
    case True
    then show ?thesis using smaller [of "COMB_SEQUENCE ps"] Cons.prems(2) by simp
  next
    case False
    then have "\<not> consuming p" "len b1 \<le> n"
      using parser_call_consumed [OF p] consumed_len [of _ buf] Cons.prems(4) that by fastforce+
    then show ?thesis using Cons.IH [of b1 o1] Cons.prems by auto
  qed
  then show ?case using p by (cases "parser_call (COMB_SEQUENCE ps) b1 o1") (auto simp: call_sequence_Cons)
qed (simp add: call_sequence_Nil)

lemma returns_one_of:
  assumes "\<And>p b o1. p \<in> set ps \<Longrightarrow> len b \<le> n \<Longrightarrow> parser_call p b o1 \<noteq> None" "len buf \<le> n"
  shows "parser_call (COMB_ONE_OF ps) buf out \<noteq> None"
  using assms
proof (induction ps arbitrary: buf out)
  case (Cons p ps)
  obtain m b1 o1 where p: "parser_call p buf out = Some (m, b1, o1)" using Cons.prems by force
  have "len b1 \<le> n" using parser_call_consumed [OF p] consumed_len(1) Cons.prems(2) by fastforce
  then show ?case using p Cons by (auto simp: call_one_of_Cons)
qed (simp add: call_one_of_Nil)

lemma returns_one_level:
  assumes smaller: "\<And>p b o1. progress p \<Longrightarrow> len b < n \<Longrightarrow> parser_call p b o1 \<noteq> None"
    and "\<And>b o1. all \<Longrightarrow> len b \<le> n \<Longrightarrow> parser_call PARSER_JSON_VALUE b o1 \<noteq> None"
    and "progress p" "\<not> all \<longrightarrow> guarded p" "len buf \<le> n"
  shows "parser_call p buf out \<noteq> None"
  using assms(2-)
proof (induction p arbitrary: buf out)
  case (COMB_ONE_OF ps)
  then show ?case by (intro returns_one_of [where n = n]) (auto simp: list_all_iff)
next
  case (COMB_SEQUENCE ps)
  then show ?case by (intro returns_sequence [OF smaller, where all = all]) (auto simp: list_all_iff)
next
  case (COMB_ZERO_OR_MORE p)
  obtain m b1 o1 where p: "parser_call p buf out = Some (m, b1, o1)" using COMB_ZERO_OR_MORE by fastforce
  have "len b1 < n" if m
    using parser_call_consumed [OF p] consumed_len(2) [of _ buf b1] COMB_ZERO_OR_MORE.prems(2,4) that by fastforce
  then show ?case using p smaller [of "COMB_ZERO_OR_MORE p" b1 o1] COMB_ZERO_OR_MORE.prems(2)
    by (subst call_zero_or_more) auto
qed (auto simp: call_maybe call_nested call_result_val call_increment_count call_leaf bind_eq_None_conv
      simp del: not_None_eq split: prod.splits)

lemma parser_call_returns: "progress p \<Longrightarrow> parser_call p buf out \<noteq> None"
proof (induction "len buf" arbitrary: p buf out rule: less_induct)
  case less
  have smaller: "\<And>p b o1. progress p \<Longrightarrow> len b < len buf \<Longrightarrow> parser_call p b o1 \<noteq> None" using less(1) by blast
  have "parser_call PARSER_JSON_VALUE b o1 \<noteq> None" if "len b \<le> len buf" for b o1
    unfolding call_value
    by (rule returns_one_level [OF smaller, where all = False]) (use that value_guarded value_progress in simp_all)
  then have "parser_call PARSER_JSON_VALUE b o1 \<noteq> None" if "len b \<le> len buf" for b o1 using that by blast
  from returns_one_level [OF smaller this, of "len buf" True] show ?case using less(2) by blast
qed

text \<open>
  C30: Recognising a JSON value always terminates, whatever the input: the parser either matches
  and has consumed a non-empty prefix of the buffer, or does not match and leaves the buffer as it
  was.
\<close>
theorem parser_json_value_total:
  "\<exists>m buf' out'. parser_call PARSER_JSON_VALUE buf out = Some (m, buf', out') \<and>
     (if m then \<exists>k. 1 \<le> k \<and> k \<le> len buf \<and> buf' = \<lparr>data = data buf + k, mem = drop k (mem buf)\<rparr> else buf' = buf)"
proof -
  obtain r where r: "parser_call PARSER_JSON_VALUE buf out = Some r"
    using parser_call_returns [of PARSER_JSON_VALUE buf out] by auto
  then show ?thesis using parser_call_consumed [OF r] by (cases r) (auto simp: consumed_def split: if_splits)
qed

section \<open>What a match reports\<close>

fun quiet :: "Parser \<Rightarrow> bool" where
  \<comment> \<open>does not touch the output\<close>
  "quiet (COMB_ONE_OF ps) = list_all quiet ps"
| "quiet (COMB_SEQUENCE ps) = list_all quiet ps"
| "quiet (COMB_ZERO_OR_MORE p) = quiet p"
| "quiet (COMB_MAYBE p) = quiet p"
| "quiet (COMB_RESULT_VAL type p) = False"
| "quiet (COMB_INCREMENT_COUNT p) = False"
| "quiet PARSER_JSON_VALUE = False"
| "quiet _ = True"

lemma parses_quiet: "parses p buf out r \<Longrightarrow> quiet p \<Longrightarrow> snd (snd r) = out"
  by (induction rule: parses.induct) auto

lemma parses_output: "parses p buf out r \<Longrightarrow> snd (snd r) = None \<longleftrightarrow> out = None"
  by (induction rule: parses.induct) auto

lemma parses_one_of:
  "parses p buf out r \<Longrightarrow> p = COMB_ONE_OF ps \<Longrightarrow> fst r \<Longrightarrow> \<exists>q\<in>set ps. \<exists>o1. parses q buf o1 r"
proof (induction arbitrary: ps rule: parses.induct)
  case (one_of_later q buf out b o1 qs r)
  moreover have "b = buf" using parses_consumed [OF one_of_later.hyps(1)] by (simp add: consumed_False)
  ultimately show ?case by auto
qed auto

definition slice :: "GgBuffer \<Rightarrow> nat \<Rightarrow> nat \<Rightarrow> GgBuffer" where
  "slice buf i n = \<lparr>data = data buf + i, mem = take n (drop i (mem buf))\<rparr>"

definition reports :: "nat \<Rightarrow> JsonType \<Rightarrow> GgBuffer \<Rightarrow> GgBuffer \<Rightarrow> ParseResult option \<Rightarrow> bool" where
  \<comment> \<open>the output has the type, and as content a slice of the consumed part, at least \<open>d\<close> bytes in\<close>
  "reports d type buf b out \<longleftrightarrow>
     (\<exists>o1 i n k. out = Some o1 \<and> json_type o1 = type \<and> content o1 = slice buf i n \<and> d \<le> i \<and> i + n \<le> k \<and>
        k \<le> len buf \<and> b = \<lparr>data = data buf + k, mem = drop k (mem buf)\<rparr>)"

lemma reports_weaken: "reports d type buf b out \<Longrightarrow> d' \<le> d \<Longrightarrow> reports d' type buf b out"
proof -
  assume "d' \<le> d"
  then have "d \<le> i \<Longrightarrow> d' \<le> i" for i by simp
  then show "reports d type buf b out \<Longrightarrow> reports d' type buf b out" unfolding reports_def by blast
qed

lemma reports_before:
  assumes "consumed c buf True b1" "reports d type b1 b2 out"
  shows "reports (if c then Suc d else d) type buf b2 out"
proof -
  obtain k1 where k1: "c \<longrightarrow> k1 \<ge> 1" "k1 \<le> len buf" "b1 = \<lparr>data = data buf + k1, mem = drop k1 (mem buf)\<rparr>"
    using assms(1) by (auto simp: consumed_def)
  obtain o1 i n k where "out = Some o1" "json_type o1 = type" "content o1 = slice b1 i n" "d \<le> i" "i + n \<le> k"
    "k \<le> len b1" "b2 = \<lparr>data = data b1 + k, mem = drop k (mem b1)\<rparr>"
    using assms(2) by (auto simp: reports_def)
  with k1 show ?thesis unfolding reports_def
    by - (rule exI [of _ o1], rule exI [of _ "k1 + i"], rule exI [of _ n], rule exI [of _ "k1 + k"],
        auto simp: slice_def add_ac)
qed

lemma reports_after:
  assumes "reports d type buf b1 out" "consumed c b1 True b2"
  shows "reports d type buf b2 out"
proof -
  obtain o1 i n k where o1: "out = Some o1" "json_type o1 = type" "content o1 = slice buf i n" "d \<le> i" "i + n \<le> k"
    "k \<le> len buf" "b1 = \<lparr>data = data buf + k, mem = drop k (mem buf)\<rparr>"
    using assms(1) by (auto simp: reports_def)
  obtain k1 where "k1 \<le> len b1" "b2 = \<lparr>data = data b1 + k1, mem = drop k1 (mem b1)\<rparr>"
    using assms(2) by (auto simp: consumed_def)
  with o1 show ?thesis unfolding reports_def
    by - (rule exI [of _ o1], rule exI [of _ i], rule exI [of _ n], rule exI [of _ "k + k1"], auto simp: add_ac)
qed

lemma result_val_reports:
  assumes "parses (COMB_RESULT_VAL type p) buf out (True, b, o1)" "out \<noteq> None"
  shows "reports 0 type buf b o1"
proof -
  obtain o2 where o2: "parses p buf out (True, b, o2)"
    "o1 = map_option (\<lambda>out. out\<lparr>json_type := type, content := match_of buf b\<rparr>) o2"
    using assms(1) by (cases rule: parses.cases) (auto split: if_splits)
  obtain o3 where "o2 = Some o3" using parses_output [OF o2(1)] assms(2) by auto
  moreover obtain k where "k \<le> len buf" "b = \<lparr>data = data buf + k, mem = drop k (mem buf)\<rparr>"
    using parses_consumed [OF o2(1)] by (auto simp: consumed_def)
  ultimately show ?thesis using o2(2) unfolding reports_def
    by (intro exI [of _ "the o1"] exI [of _ 0] exI [of _ k] exI [of _ k]) (auto simp: match_of_def slice_def)
qed

lemma sequence_parts:
  assumes "parses (COMB_SEQUENCE (q # qs)) buf out (True, b, o2)"
  obtains b1 o1 where "parses q buf out (True, b1, o1)" "consumed (consuming q) buf True b1"
    "parses (COMB_SEQUENCE qs) b1 o1 (True, b, o2)" "consumed (consuming (COMB_SEQUENCE qs)) b1 True b"
    "out \<noteq> None \<longrightarrow> o1 \<noteq> None"
proof -
  obtain b1 o1 where 1: "parses q buf out (True, b1, o1)" "parses (COMB_SEQUENCE qs) b1 o1 (True, b, o2)"
    using assms by (rule sequence_True) (auto split: if_splits)
  show thesis
    by (rule that [OF 1(1) _ 1(2)])
      (use parses_consumed [OF 1(1)] parses_consumed [OF 1(2)] parses_output [OF 1(1)] in auto)
qed

lemma sequence_Nil_output: "parses (COMB_SEQUENCE []) buf out (True, b, o1) \<Longrightarrow> b = buf \<and> o1 = out"
  by (cases rule: parses.cases) auto

lemma sequence_reports:
  assumes "parses (COMB_SEQUENCE (pre @ COMB_RESULT_VAL type p # post)) buf out (True, b, o1)" "out \<noteq> None"
    and "list_all quiet post"
  shows "reports (if list_ex consuming pre then 1 else 0) type buf b o1"
  using assms(1,2)
proof (induction pre arbitrary: buf out)
  case Nil
  then obtain b1 o2 where 1: "parses (COMB_RESULT_VAL type p) buf out (True, b1, o2)"
    "parses (COMB_SEQUENCE post) b1 o2 (True, b, o1)" "consumed (consuming (COMB_SEQUENCE post)) b1 True b"
    by (auto elim: sequence_parts)
  moreover have "o1 = o2" using parses_quiet [OF 1(2)] assms(3) by simp
  ultimately show ?case using result_val_reports Nil.prems(2) reports_after by fastforce
next
  case (Cons q pre)
  then have "parses (COMB_SEQUENCE (q # pre @ COMB_RESULT_VAL type p # post)) buf out (True, b, o1)" by simp
  then obtain b1 o2 where "consumed (consuming q) buf True b1" "o2 \<noteq> None"
    "parses (COMB_SEQUENCE (pre @ COMB_RESULT_VAL type p # post)) b1 o2 (True, b, o1)"
    by (rule sequence_parts) (use Cons.prems(2) in blast)
  then have "reports (if consuming q then Suc (if list_ex consuming pre then 1 else 0) else (if list_ex consuming pre then 1 else 0)) type buf b o1"
    using Cons.IH reports_before by blast
  then show ?case by (rule reports_weaken) auto
qed

definition inner :: "JsonType \<Rightarrow> nat" where
  \<comment> \<open>the bytes that delimit the content on the left\<close>
  "inner type = (if type \<in> {JSON_TYPE_STR, JSON_TYPE_OBJECT, JSON_TYPE_ARRAY} then 1 else 0)"

lemma alternative_reports:
  assumes q: "q \<in> {PARSER_JSON_STR, PARSER_JSON_NUMBER, PARSER_JSON_OBJECT, PARSER_JSON_ARRAY,
      PARSER_JSON_TRUE, PARSER_JSON_FALSE, PARSER_JSON_NULL}"
    and "parses q buf out (True, b, o1)" "out \<noteq> None"
  shows "\<exists>type. reports (inner type) type buf b o1"
proof -
  consider type p where "q = COMB_RESULT_VAL type p" "inner type = 0"
    | pre type p post where "q = COMB_SEQUENCE (pre @ COMB_RESULT_VAL type p # post)" "list_ex consuming pre"
        "list_all quiet post" "inner type = 1"
  proof -
    assume 1: "\<And>type p. q = COMB_RESULT_VAL type p \<Longrightarrow> inner type = 0 \<Longrightarrow> thesis"
      and 2: "\<And>pre type p post. q = COMB_SEQUENCE (pre @ COMB_RESULT_VAL type p # post) \<Longrightarrow> list_ex consuming pre \<Longrightarrow>
        list_all quiet post \<Longrightarrow> inner type = 1 \<Longrightarrow> thesis"
    show thesis using q 1
      by (auto simp: grammar_defs inner_def intro: 2 [unfolded append.simps, of "[_]"] 2 [unfolded append.simps, of "[_, _]"])
  qed
  then show ?thesis
  proof cases
    case 1
    then show ?thesis using result_val_reports [of type p buf out b o1] assms(2,3) by (intro exI [of _ type]) simp
  next
    case 2
    then show ?thesis using sequence_reports [of pre type p post buf out b o1] assms(2,3) by (intro exI [of _ type]) simp
  qed
qed

lemma value_reports:
  assumes "parses PARSER_JSON_VALUE buf out (True, b, o1)" "out \<noteq> None"
  shows "\<exists>type. reports (inner type) type buf b o1"
proof -
  let ?alts = "[PARSER_JSON_STR, PARSER_JSON_NUMBER, PARSER_JSON_OBJECT, PARSER_JSON_ARRAY,
    PARSER_JSON_TRUE, PARSER_JSON_FALSE, PARSER_JSON_NULL]"
  have "parses (COMB_SEQUENCE [PARSER_JSON_WHITESPACE, COMB_ONE_OF ?alts, PARSER_JSON_WHITESPACE]) buf out (True, b, o1)"
    using assms(1) by (auto elim: value_cases simp: json_value_parser_def)
  then obtain b1 o2 where 1: "consumed (consuming PARSER_JSON_WHITESPACE) buf True b1" "out \<noteq> None \<longrightarrow> o2 \<noteq> None"
    "parses (COMB_SEQUENCE [COMB_ONE_OF ?alts, PARSER_JSON_WHITESPACE]) b1 o2 (True, b, o1)"
    by (rule sequence_parts)
  from 1(3) obtain b2 o3 where 2: "parses (COMB_ONE_OF ?alts) b1 o2 (True, b2, o3)"
    "parses (COMB_SEQUENCE [PARSER_JSON_WHITESPACE]) b2 o3 (True, b, o1)"
    "consumed (consuming (COMB_SEQUENCE [PARSER_JSON_WHITESPACE])) b2 True b"
    by (rule sequence_parts)
  have "o1 = o3" using parses_quiet [OF 2(2)] by (simp add: PARSER_JSON_WHITESPACE_def)
  obtain q o4 where "q \<in> set ?alts" "parses q b1 o4 (True, b2, o3)" using parses_one_of [OF 2(1) refl] by auto
  moreover have "o4 \<noteq> None" using parses_output [OF \<open>parses q b1 o4 _\<close>] parses_output [OF 2(1)] 1(2) assms(2) by auto
  ultimately obtain type where "reports (inner type) type b1 b2 o3"
    using alternative_reports [of q b1 o4 b2 o3] by auto
  with \<open>o1 = o3\<close> 2(3) have "reports (inner type) type b1 b o1" using reports_after by blast
  from reports_before [OF 1(1) this] show ?thesis by (auto simp: PARSER_JSON_WHITESPACE_def)
qed

section \<open>Derivations of matches\<close>

text \<open>
  \<open>accepts p t r f\<close>: on \<open>t\<close> followed by \<open>r\<close>, the parser matches and consumes exactly \<open>t\<close>, and
  updates the output by \<open>f\<close> (which depends on the address of \<open>t\<close>). \<open>rejects p bs\<close>: it does not
  match and touches nothing.
\<close>

definition accepts :: "Parser \<Rightarrow> byte list \<Rightarrow> byte list \<Rightarrow> (ptr \<Rightarrow> ParseResult \<Rightarrow> ParseResult) \<Rightarrow> bool" where
  "accepts p t r f \<longleftrightarrow>
     (\<forall>a out. parser_call p \<lparr>data = a, mem = t @ r\<rparr> out = Some (True, \<lparr>data = a + length t, mem = r\<rparr>, map_option (f a) out))"

definition rejects :: "Parser \<Rightarrow> byte list \<Rightarrow> bool" where
  "rejects p bs \<longleftrightarrow> (\<forall>a out. parser_call p \<lparr>data = a, mem = bs\<rparr> out = Some (False, \<lparr>data = a, mem = bs\<rparr>, out))"

abbreviation silent :: "ptr \<Rightarrow> ParseResult \<Rightarrow> ParseResult" where
  "silent \<equiv> \<lambda>_ out. out"

lemma acceptsD:
  "accepts p t r f \<Longrightarrow>
     parser_call p \<lparr>data = a, mem = t @ r\<rparr> out = Some (True, \<lparr>data = a + length t, mem = r\<rparr>, map_option (f a) out)"
  by (simp add: accepts_def)

lemma rejectsD: "rejects p bs \<Longrightarrow> parser_call p \<lparr>data = a, mem = bs\<rparr> out = Some (False, \<lparr>data = a, mem = bs\<rparr>, out)"
  by (simp add: rejects_def)

lemma accepts_seq_Nil: "accepts (COMB_SEQUENCE []) [] r silent"
  by (simp add: accepts_def call_sequence_Nil option.map_ident)

lemma accepts_seq:
  assumes "accepts p t (u @ r) f" "accepts (COMB_SEQUENCE ps) u r g"
  shows "accepts (COMB_SEQUENCE (p # ps)) (t @ u) r (\<lambda>a. g (a + length t) \<circ> f a)"
  using acceptsD [OF assms(1)] acceptsD [OF assms(2)]
  by (simp add: accepts_def call_sequence_Cons option.map_comp add.assoc)

lemma rejects_seq_head: "rejects p bs \<Longrightarrow> rejects (COMB_SEQUENCE (p # ps)) bs"
  using rejectsD [of p bs] by (simp add: rejects_def call_sequence_Cons)

lemma rejects_seq_tail:
  "accepts p t u silent \<Longrightarrow> rejects (COMB_SEQUENCE ps) u \<Longrightarrow> rejects (COMB_SEQUENCE (p # ps)) (t @ u)"
  using acceptsD [of p t u silent] rejectsD [of "COMB_SEQUENCE ps" u]
  by (simp add: rejects_def call_sequence_Cons option.map_ident)

lemma accepts_one_of_here: "accepts p t r f \<Longrightarrow> accepts (COMB_ONE_OF (p # ps)) t r f"
  using acceptsD [of p t r f] by (simp add: accepts_def call_one_of_Cons)

lemma accepts_one_of_later:
  "rejects p (t @ r) \<Longrightarrow> accepts (COMB_ONE_OF ps) t r f \<Longrightarrow> accepts (COMB_ONE_OF (p # ps)) t r f"
  using acceptsD [of "COMB_ONE_OF ps" t r f] rejectsD [of p "t @ r"] by (simp add: accepts_def call_one_of_Cons)

lemma rejects_one_of_Nil: "rejects (COMB_ONE_OF []) bs"
  by (simp add: rejects_def call_one_of_Nil)

lemma rejects_one_of: "rejects p bs \<Longrightarrow> rejects (COMB_ONE_OF ps) bs \<Longrightarrow> rejects (COMB_ONE_OF (p # ps)) bs"
  using rejectsD [of p bs] rejectsD [of "COMB_ONE_OF ps" bs] by (simp add: rejects_def call_one_of_Cons)

lemma accepts_many_stop: "rejects p r \<Longrightarrow> accepts (COMB_ZERO_OR_MORE p) [] r silent"
  using rejectsD [of p r] unfolding accepts_def by (subst call_zero_or_more) (simp add: option.map_ident)

lemma accepts_many:
  assumes "accepts p t (u @ r) f" "accepts (COMB_ZERO_OR_MORE p) u r g"
  shows "accepts (COMB_ZERO_OR_MORE p) (t @ u) r (\<lambda>a. g (a + length t) \<circ> f a)"
  using acceptsD [OF assms(1)] acceptsD [OF assms(2)]
  unfolding accepts_def by (subst call_zero_or_more) (simp add: option.map_comp add.assoc)

lemma accepts_maybe: "accepts p t r f \<Longrightarrow> accepts (COMB_MAYBE p) t r f"
  using acceptsD [of p t r f] by (simp add: accepts_def call_maybe)

lemma accepts_maybe_not: "rejects p r \<Longrightarrow> accepts (COMB_MAYBE p) [] r silent"
  using rejectsD [of p r] by (simp add: accepts_def call_maybe option.map_ident)

lemma accepts_nested: "accepts p t r f \<Longrightarrow> accepts (COMB_NESTED p) t r silent"
  using acceptsD [of p t r f] by (simp add: accepts_def call_nested option.map_ident)

lemma rejects_nested: "rejects p bs \<Longrightarrow> rejects (COMB_NESTED p) bs"
  using rejectsD [of p bs] by (simp add: rejects_def call_nested)

lemma accepts_result_val:
  "accepts p t r f \<Longrightarrow>
   accepts (COMB_RESULT_VAL type p) t r (\<lambda>a out. (f a out)\<lparr>json_type := type, content := \<lparr>data = a, mem = t\<rparr>\<rparr>)"
  using acceptsD [of p t r f] by (simp add: accepts_def call_result_val match_of_def option.map_comp comp_def)

lemma rejects_result_val: "rejects p bs \<Longrightarrow> rejects (COMB_RESULT_VAL type p) bs"
  using rejectsD [of p bs] by (simp add: rejects_def call_result_val)

lemma accepts_count:
  "accepts p t r f \<Longrightarrow> accepts (COMB_INCREMENT_COUNT p) t r (\<lambda>a out. (f a out)\<lparr>count := count (f a out) + 1\<rparr>)"
  using acceptsD [of p t r f] by (simp add: accepts_def call_increment_count option.map_comp comp_def)

lemma rejects_count: "rejects p bs \<Longrightarrow> rejects (COMB_INCREMENT_COUNT p) bs"
  using rejectsD [of p bs] by (simp add: rejects_def call_increment_count)

lemma accepts_char: "accepts (PARSER_CHAR c) [c] r silent"
  by (simp add: accepts_def call_leaf parser_char_fn_def gg_buffer_rest_eq option.map_ident)

lemma rejects_char: "bs = [] \<or> hd bs \<noteq> c \<Longrightarrow> rejects (PARSER_CHAR c) bs"
  by (cases bs) (auto simp: rejects_def call_leaf parser_char_fn_def)

lemma accepts_str: "accepts (PARSER_STR str) str r silent"
  by (simp add: accepts_def call_leaf parser_str_fn_def gg_buffer_rest_eq option.map_ident)

lemma rejects_str: "take (length str) bs \<noteq> str \<Longrightarrow> rejects (PARSER_STR str) bs"
  by (auto simp: rejects_def call_leaf parser_str_fn_def)

definition in_range :: "byte \<Rightarrow> byte \<Rightarrow> byte \<Rightarrow> bool" where
  "in_range s e c \<longleftrightarrow> sint s \<le> sint c \<and> sint c \<le> sint e"

lemma accepts_range: "in_range s e c \<Longrightarrow> accepts (PARSER_CHAR_RANGE s e) [c] r silent"
  by (auto simp: accepts_def call_leaf parser_char_range_fn_def gg_buffer_rest_eq option.map_ident in_range_def)

lemma rejects_range: "bs = [] \<or> \<not> in_range s e (hd bs) \<Longrightarrow> rejects (PARSER_CHAR_RANGE s e) bs"
  by (cases bs) (auto simp: rejects_def call_leaf parser_char_range_fn_def in_range_def)

lemma accepts_value: "accepts json_value_parser t r f \<Longrightarrow> accepts PARSER_JSON_VALUE t r f"
  by (simp add: accepts_def call_value)

lemma rejects_value: "rejects json_value_parser bs \<Longrightarrow> rejects PARSER_JSON_VALUE bs"
  by (simp add: rejects_def call_value)

lemma accepts_cong: "accepts p t r f \<Longrightarrow> t = t' \<Longrightarrow> f = f' \<Longrightarrow> accepts p t' r f'"
  by simp

end
