(* ===== verification/Map_Canonical.thy ===== *)
theory Map_Canonical
  imports Object "HOL-Library.Multiset" "HOL-Library.List_Lexorder"
begin

text \<open>
  Canonical maps (\<open>src/map_canonical.c\<close>): duplicate removal and insertion sort on the array
  of pairs, in place, and the canonicity test.

  The array keeps its length; \<open>len\<close> is the number of pairs in use. Keys are compared as
  unsigned byte strings, so the order is the lexicographic order of the byte lists.

  Lemmas: \<open>prune_duplicates\<close> leaves distinct keys and the same denoted map (the first
  occurrence of a key wins) and overwrites the freed pairs; \<open>sort_keys\<close> is a stable sort;
  together they produce the unique canonical form of the denoted map.
\<close>

section \<open>Operations\<close>

definition swap_pairs :: "GgKV list \<Rightarrow> nat \<Rightarrow> nat \<Rightarrow> GgKV list" where
  "swap_pairs pairs lhs rhs = pairs[lhs := pairs ! rhs, rhs := pairs ! lhs]"

fun key_less_loop :: "byte list \<Rightarrow> byte list \<Rightarrow> bool" where
  "key_less_loop (l # ls) (r # rs) =
     (if l < r then True else if r < l then False else key_less_loop ls rs)"
| "key_less_loop ls rs = (length ls < length rs)"

definition is_key_less :: "GgKV \<Rightarrow> GgKV \<Rightarrow> bool" where
  "is_key_less lhs rhs = key_less_loop (mem (fst lhs)) (mem (fst rhs))"

fun prune_duplicates :: "nat \<Rightarrow> GgKV list \<Rightarrow> nat \<Rightarrow> GgKV list \<times> nat" where
  \<comment> \<open>the loop counter \<open>i\<close>, the array and \<open>val->len\<close>\<close>
  "prune_duplicates 0 pairs n = (pairs, n)"
| "prune_duplicates (Suc k) pairs n =
     (if gg_map_get (take n pairs) (fst (pairs ! k)) = Some k
      then prune_duplicates k pairs n
      else
        (let pairs1 = (if Suc k \<noteq> n then pairs[k := pairs ! (n - 1)] else pairs);
             pairs2 = pairs1[n - 1 := (GG_STR ''<pruned>'', OBJ_NULL)]
         in prune_duplicates k pairs2 (n - 1)))"

fun sift_down :: "nat \<Rightarrow> GgKV list \<Rightarrow> GgKV list" where
  \<comment> \<open>the inner loop, from index \<open>j\<close> towards the front\<close>
  "sift_down 0 pairs = pairs"
| "sift_down (Suc j) pairs =
     (if is_key_less (pairs ! Suc j) (pairs ! j)
      then sift_down j (swap_pairs pairs (Suc j) j)
      else pairs)"

definition sort_keys :: "GgKV list \<Rightarrow> nat \<Rightarrow> GgKV list" where
  "sort_keys pairs n = fold sift_down [0..<n] pairs"

definition gg_map_canonicalize_shallow :: "GgKV list \<Rightarrow> GgKV list" where
  \<comment> \<open>the pairs in use afterwards\<close>
  "gg_map_canonicalize_shallow pairs =
     (case prune_duplicates (length pairs) pairs (length pairs) of
        (pairs', n) \<Rightarrow> take n (sort_keys pairs' n))"

definition gg_map_is_canonical :: "GgKV list \<Rightarrow> bool" where
  "gg_map_is_canonical pairs =
     list_all (\<lambda>i. is_key_less (pairs ! (i - 1)) (pairs ! i)) [1..<length pairs]"

section \<open>Lemmas: key order\<close>

abbreviation key :: "GgKV \<Rightarrow> byte list" where
  "key kv \<equiv> mem (fst kv)"

lemma key_less_loop_less: "key_less_loop ls rs \<longleftrightarrow> ls < rs"
proof (induction ls arbitrary: rs)
  case Nil
  then show ?case by (cases rs) simp_all
next
  case (Cons l ls)
  then show ?case by (cases rs) auto
qed

lemma is_key_less_iff: "is_key_less l r \<longleftrightarrow> key l < key r"
  by (simp add: is_key_less_def key_less_loop_less)

lemma gg_map_is_canonical_iff: "gg_map_is_canonical pairs \<longleftrightarrow> sorted_wrt (<) (keys pairs)"
proof -
  have "sorted_wrt (<) (keys pairs) \<longleftrightarrow>
        (\<forall>i. Suc i < length pairs \<longrightarrow> key (pairs ! i) < key (pairs ! Suc i))"
    by (simp add: sorted_wrt_iff_nth_Suc_transp)
  also have "\<dots> \<longleftrightarrow> (\<forall>i \<in> {1..<length pairs}. key (pairs ! (i - 1)) < key (pairs ! i))"
    (is "(\<forall>i. ?P i) \<longleftrightarrow> (\<forall>i \<in> _. ?Q i)")
  proof
    assume all: "\<forall>i. ?P i"
    show "\<forall>i \<in> {1..<length pairs}. ?Q i"
    proof
      fix i assume "i \<in> {1..<length pairs}"
      then show "?Q i" using all by (cases i) auto
    qed
  next
    assume all: "\<forall>i \<in> {1..<length pairs}. ?Q i"
    show "\<forall>i. ?P i"
    proof (intro allI impI)
      fix i assume "Suc i < length pairs"
      then show "key (pairs ! i) < key (pairs ! Suc i)" using bspec [OF all, of "Suc i"] by simp
    qed
  qed
  finally show ?thesis
    by (simp add: gg_map_is_canonical_def is_key_less_iff list_all_iff)
qed

section \<open>Lemmas: duplicate removal\<close>

lemma map_val_append:
  "map_val (xs @ ys) k = (case map_val xs k of Some v \<Rightarrow> Some v | None \<Rightarrow> map_val ys k)"
  by (induction xs) auto

lemma map_val_distinct:
  "distinct (keys xs) \<Longrightarrow> map_val xs k = Some v \<longleftrightarrow> (\<exists>kv \<in> set xs. key kv = k \<and> snd kv = v)"
  by (induction xs) (auto simp: image_iff)

lemma map_val_perm:
  assumes "distinct (keys xs)" "mset xs = mset ys"
  shows "map_val xs = map_val ys"
proof -
  have "mset (keys xs) = mset (keys ys)" using assms(2) by (metis mset_map)
  then have "distinct (keys ys)" using assms(1) by (metis mset_eq_imp_distinct_iff)
  moreover have "set xs = set ys" using assms(2) by (metis set_mset_mset)
  ultimately show ?thesis
    using assms(1) map_val_distinct by (metis (no_types, lifting) not_None_eq ext)
qed

text \<open>The list of pairs in use after one removal step: the last pair fills the gap.\<close>

definition fill_gap :: "GgKV list \<Rightarrow> GgKV list \<Rightarrow> GgKV list" where
  "fill_gap xs ys = (if ys = [] then xs else xs @ last ys # butlast ys)"

lemma mset_fill_gap: "mset (fill_gap xs ys) = mset xs + mset ys"
  by (cases ys rule: rev_cases) (simp_all add: fill_gap_def)

lemma prune_step_take:
  assumes "pairs = xs @ kv # ys @ zs" "n = Suc (length xs + length ys)"
  shows "take (n - 1) ((if Suc (length xs) \<noteq> n then pairs[length xs := pairs ! (n - 1)] else pairs)
           [n - 1 := p]) = fill_gap xs ys"
proof (cases ys rule: rev_cases)
  case Nil
  then show ?thesis using assms by (simp add: fill_gap_def)
next
  case (snoc us u)
  then have "pairs ! (n - 1) = u" using assms by (simp add: nth_append)
  then show ?thesis using assms snoc by (simp add: fill_gap_def)
qed

text \<open>The loop invariant: processed pairs have unique keys, and the denoted map is unchanged.\<close>

definition prune_inv :: "GgKV list \<Rightarrow> nat \<Rightarrow> GgKV list \<Rightarrow> bool" where
  "prune_inv orig k m =
     (k \<le> length m \<and> map_val m = map_val orig \<and> mset m \<subseteq># mset orig \<and>
      distinct (keys (drop k m)) \<and> set (keys (take k m)) \<inter> set (keys (drop k m)) = {})"

lemma key_in_take:
  "k \<le> length m \<Longrightarrow> x \<in> set (keys (take k m)) \<longleftrightarrow> (\<exists>j < k. key (m ! j) = x)"
  by (auto simp flip: nth_image)

lemma prune_inv_keep:
  assumes "prune_inv orig (Suc k) m" "gg_map_get m (fst (m ! k)) = Some k"
  shows "prune_inv orig k m"
proof -
  have k: "k < length m" using assms(1) by (simp add: prune_inv_def)
  have tk: "take (Suc k) m = take k m @ [m ! k]" and dk: "drop k m = m ! k # drop (Suc k) m"
    using k by (simp_all add: take_Suc_conv_app_nth Cons_nth_drop_Suc)
  have "key (m ! k) \<notin> set (keys (take k m))"
    using assms(2) k key_in_take [of k m "key (m ! k)"] by (simp add: gg_map_get_Some_iff)
  then show ?thesis using assms(1) by (auto simp: prune_inv_def tk dk)
qed

lemma prune_inv_drop:
  assumes "prune_inv orig (Suc k) m" "gg_map_get m (fst (m ! k)) \<noteq> Some k"
  shows "prune_inv orig k (fill_gap (take k m) (drop (Suc k) m))"
proof -
  let ?xs = "take k m" and ?ys = "drop (Suc k) m" and ?kv = "m ! k"
  have k: "k < length m" using assms(1) by (simp add: prune_inv_def)
  have m: "m = ?xs @ ?kv # ?ys" using k by (simp add: id_take_nth_drop)
  have inv: "map_val m = map_val orig" "mset m \<subseteq># mset orig" "distinct (keys ?ys)"
    and dis: "set (keys (?xs @ [?kv])) \<inter> set (keys ?ys) = {}"
    using assms(1) k by (simp_all add: prune_inv_def take_Suc_conv_app_nth)
  have "\<exists>j < k. key (m ! j) = key ?kv"
    using assms(2) k by (auto simp: gg_map_get_Some_iff)
  then have dup: "key ?kv \<in> set (keys ?xs)"
    using k key_in_take [of k m "key ?kv"] by simp
  have dv: "map_val ?xs (key ?kv) \<noteq> None" using dup map_val_None_iff by blast
  have "map_val (?xs @ ?ys) = map_val (?xs @ ?kv # ?ys)"
    using dv by (auto simp: map_val_append fun_eq_iff split: option.splits)
  then have mv: "map_val (?xs @ ?ys) = map_val m" using m by simp
  define g where "g = (if ?ys = [] then [] else last ?ys # butlast ?ys)"
  have fg: "fill_gap ?xs ?ys = ?xs @ g" by (simp add: fill_gap_def g_def)
  have mg: "mset g = mset ?ys"
    by (cases ?ys rule: rev_cases) (simp_all add: g_def)
  have dg: "distinct (keys g)" and sg: "set g = set ?ys"
    using inv(3) mg by (metis mset_eq_imp_distinct_iff mset_map, metis set_mset_mset)
  have "map_val g = map_val ?ys" using map_val_perm [OF dg mg] .
  then have "map_val (?xs @ g) = map_val (?xs @ ?ys)"
    by (intro ext) (simp only: map_val_append)
  then have "map_val (?xs @ g) = map_val orig" using mv inv(1) by simp
  moreover have "mset (?xs @ g) \<subseteq># mset orig"
  proof -
    have "mset m = mset (?xs @ ?kv # ?ys)" using m by simp
    also have "\<dots> = add_mset ?kv (mset (?xs @ g))" using mg by simp
    finally have "mset (?xs @ g) \<subseteq># mset m" by simp
    then show ?thesis using inv(2) by (rule subset_mset.order_trans)
  qed
  ultimately show ?thesis
    using dg dis k sg by (auto simp: prune_inv_def fg)
qed

lemma prune_duplicates_inv:
  assumes "prune_duplicates k pairs n = (pairs', n')"
    and "n \<le> length pairs" "prune_inv orig k (take n pairs)"
  shows "n' \<le> length pairs' \<and> length pairs' = length pairs \<and> n' \<le> n \<and>
         prune_inv orig 0 (take n' pairs')"
  using assms
proof (induction k arbitrary: pairs n)
  case 0
  then show ?case by simp
next
  case (Suc k)
  let ?m = "take n pairs"
  have k: "k < n" using Suc.prems(2,3) by (simp add: prune_inv_def)
  then have mk: "?m ! k = pairs ! k" by simp
  show ?case
  proof (cases "gg_map_get ?m (fst (pairs ! k)) = Some k")
    case True
    then show ?thesis
      using Suc.IH [of pairs n] Suc.prems prune_inv_keep [OF Suc.prems(3)] mk by simp
  next
    case False
    let ?p2 = "(if Suc k \<noteq> n then pairs[k := pairs ! (n - 1)] else pairs)
                 [n - 1 := (GG_STR ''<pruned>'', OBJ_NULL)]"
    have "pairs = take k pairs @ pairs ! k # take (n - Suc k) (drop (Suc k) pairs) @ drop n pairs"
      using k Suc.prems(2)
      by (metis append_take_drop_id drop_drop id_take_nth_drop le_add_diff_inverse2
          less_le_trans Suc_leI add.commute)
    moreover have "length (take k pairs) = k" using k Suc.prems(2) by simp
    moreover have "n = Suc (length (take k pairs) + length (take (n - Suc k) (drop (Suc k) pairs)))"
      using k Suc.prems(2) by simp
    ultimately have "take (n - 1) ?p2 = fill_gap (take k pairs) (take (n - Suc k) (drop (Suc k) pairs))"
      using prune_step_take [of pairs "take k pairs" "pairs ! k"] by metis
    then have "take (n - 1) ?p2 = fill_gap (take k ?m) (drop (Suc k) ?m)"
      using k by (simp add: drop_take min_absorb1)
    then have "prune_inv orig k (take (n - 1) ?p2)"
      using prune_inv_drop [OF Suc.prems(3)] False mk by simp
    moreover have "prune_duplicates k ?p2 (n - 1) = (pairs', n')"
      using Suc.prems(1) False by (simp add: Let_def)
    moreover have l: "length ?p2 = length pairs" by simp
    moreover have "n - 1 \<le> length ?p2" using l Suc.prems(2) by linarith
    ultimately show ?thesis using Suc.IH [of ?p2 "n - 1"] by linarith
  qed
qed

section \<open>Lemmas: insertion sort\<close>

text \<open>Insertion from the right, after the pairs with the same key.\<close>

fun ins_rev :: "GgKV \<Rightarrow> GgKV list \<Rightarrow> GgKV list" where
  "ins_rev x [] = [x]"
| "ins_rev x (y # ys) = (if key x < key y then y # ins_rev x ys else x # y # ys)"

definition ins :: "GgKV \<Rightarrow> GgKV list \<Rightarrow> GgKV list" where
  "ins x xs = rev (ins_rev x (rev xs))"

lemma ins_simps [simp]:
  "ins x [] = [x]"
  "ins x (xs @ [y]) = (if key x < key y then ins x xs @ [y] else xs @ [y, x])"
  by (simp_all add: ins_def)

lemma mset_ins: "mset (ins x xs) = add_mset x (mset xs)"
  by (induction xs rule: rev_induct) auto

lemma length_ins [simp]: "length (ins x xs) = Suc (length xs)"
  by (metis mset_ins size_add_mset size_mset)

lemma set_ins [simp]: "set (ins x xs) = insert x (set xs)"
  by (metis mset_ins set_mset_add_mset_insert set_mset_mset)

lemma sorted_ins: "sorted (keys xs) \<Longrightarrow> sorted (keys (ins x xs))"
  by (induction xs rule: rev_induct) (auto simp: sorted_append)

lemma stable_ins: "filter (\<lambda>kv. key kv = k) (ins x xs) = filter (\<lambda>kv. key kv = k) (xs @ [x])"
  by (induction xs rule: rev_induct) auto

lemma sift_down_ins: "sift_down (length xs) (xs @ x # zs) = ins x xs @ zs"
proof (induction xs arbitrary: zs rule: rev_induct)
  case Nil
  then show ?case by simp
next
  case (snoc y xs)
  have "swap_pairs (xs @ y # x # zs) (Suc (length xs)) (length xs) = xs @ x # y # zs"
    by (simp add: swap_pairs_def nth_append list_update_append)
  then show ?case using snoc.IH [of "y # zs"]
    by (simp add: nth_append is_key_less_iff)
qed

lemma sort_keys_snoc: "sort_keys pairs (Suc n) = sift_down n (sort_keys pairs n)"
  by (simp add: sort_keys_def)

text \<open>After \<open>n\<close> rounds the first \<open>n\<close> pairs are sorted; the others are untouched.\<close>

lemma sort_keys_fold: "n \<le> length pairs \<Longrightarrow> sort_keys pairs n = fold ins (take n pairs) [] @ drop n pairs"
proof (induction n)
  case 0
  then show ?case by (simp add: sort_keys_def)
next
  case (Suc n)
  have len: "length (fold ins xs acc) = length xs + length acc" for xs acc
    by (induction xs arbitrary: acc) auto
  have "drop n pairs = pairs ! n # drop (Suc n) pairs"
    using Suc.prems by (simp add: Cons_nth_drop_Suc)
  then have "sort_keys pairs (Suc n) =
     sift_down n (fold ins (take n pairs) [] @ pairs ! n # drop (Suc n) pairs)"
    using Suc by (simp add: sort_keys_snoc)
  also have "\<dots> = ins (pairs ! n) (fold ins (take n pairs) []) @ drop (Suc n) pairs"
    using sift_down_ins [of "fold ins (take n pairs) []"] len [of "take n pairs" "[]"] Suc.prems
    by simp
  finally show ?case using Suc.prems by (simp add: take_Suc_conv_app_nth)
qed

lemma fold_ins_facts:
  "mset (fold ins xs acc) = mset acc + mset xs"
  "sorted (keys acc) \<Longrightarrow> sorted (keys (fold ins xs acc))"
  "filter (\<lambda>kv. key kv = k) (fold ins xs acc) = filter (\<lambda>kv. key kv = k) (acc @ xs)"
  by (induction xs arbitrary: acc) (auto simp: mset_ins sorted_ins stable_ins)

lemma length_fold_ins [simp]: "length (fold ins xs acc) = length acc + length xs"
  by (induction xs arbitrary: acc) auto

lemma take_sort_keys: "n \<le> length pairs \<Longrightarrow> take n (sort_keys pairs n) = fold ins (take n pairs) []"
  by (simp add: sort_keys_fold)

section \<open>Lemmas: canonical form\<close>

lemma sorted_distinct_keys: "sorted (keys xs) \<Longrightarrow> distinct (keys xs) \<Longrightarrow> sorted_wrt (<) (keys xs)"
  by (simp add: strict_sorted_iff)

lemma prune_inv_init: "prune_inv pairs (length pairs) pairs"
  by (simp add: prune_inv_def)

lemma gg_map_canonicalize_shallow_facts:
  defines "c pairs \<equiv> gg_map_canonicalize_shallow pairs"
  shows "sorted_wrt (<) (keys (c pairs))"
    and "map_val (c pairs) = map_val pairs"
    and "mset (c pairs) \<subseteq># mset pairs"
proof -
  obtain p n where pn: "prune_duplicates (length pairs) pairs (length pairs) = (p, n)"
    by (cases "prune_duplicates (length pairs) pairs (length pairs)")
  then have n: "n \<le> length p" and inv: "prune_inv pairs 0 (take n p)"
    using prune_duplicates_inv [OF pn order.refl, of pairs] prune_inv_init [of pairs] by simp_all
  have c: "c pairs = fold ins (take n p) []"
    by (simp add: c_def gg_map_canonicalize_shallow_def pn take_sort_keys [OF n])
  have ms: "mset (c pairs) = mset (take n p)" using c fold_ins_facts(1) by simp
  have d: "distinct (keys (take n p))" using inv by (simp add: prune_inv_def)
  then have dc: "distinct (keys (c pairs))"
    using ms by (metis mset_eq_imp_distinct_iff mset_map)
  show "sorted_wrt (<) (keys (c pairs))"
    using dc c fold_ins_facts(2) [of "[]"] by (simp add: sorted_distinct_keys)
  show "map_val (c pairs) = map_val pairs"
    using map_val_perm [OF dc ms] inv by (simp add: prune_inv_def)
  show "mset (c pairs) \<subseteq># mset pairs"
    using ms inv by (simp add: prune_inv_def)
qed

lemma canonical_unique:
  assumes "sorted_wrt (<) (keys xs)" "sorted_wrt (<) (keys ys)" "map_val xs = map_val ys"
  shows "map (\<lambda>kv. (key kv, snd kv)) xs = map (\<lambda>kv. (key kv, snd kv)) ys"
proof -
  have d: "distinct (keys xs)" "distinct (keys ys)"
    using assms(1,2) by (simp_all add: strict_sorted_iff)
  have "set (keys xs) = set (keys ys)"
    using assms(3) map_val_None_iff by (metis (no_types, lifting) set_eqI)
  then have k: "keys xs = keys ys"
    using assms(1,2) by (simp add: strict_sorted_equal)
  have v: "map snd zs = map (\<lambda>k. the (map_val zs k)) (keys zs)" if "distinct (keys zs)" for zs
    using that by (induction zs) (auto simp: image_iff)
  have "map snd xs = map snd ys" using v d k assms(3) by metis
  then show ?thesis using k by (simp add: list_eq_iff_nth_eq)
qed

section \<open>Properties\<close>

text \<open>
  C19: \<open>gg_map_canonicalize_shallow\<close> turns any array of pairs into the canonical form of the
  map it denotes: the result passes \<open>gg_map_is_canonical\<close>, every key keeps the value of its
  first occurrence and no key is lost or added, and the pairs are pairs of the input.
\<close>

theorem gg_map_canonicalize_shallow_correct:
  "gg_map_is_canonical (gg_map_canonicalize_shallow pairs) \<and>
   map_val (gg_map_canonicalize_shallow pairs) = map_val pairs \<and>
   mset (gg_map_canonicalize_shallow pairs) \<subseteq># mset pairs"
  using gg_map_canonicalize_shallow_facts [of pairs] by (simp add: gg_map_is_canonical_iff)

text \<open>
  a canonical form is unique: two arrays that pass \<open>gg_map_is_canonical\<close> and denote the same
  map hold the same keys and values in the same order. So canonicalising is idempotent on
  contents, and comparing canonical maps pair by pair decides equality of the maps.
\<close>

theorem gg_map_is_canonical_unique:
  assumes "gg_map_is_canonical xs" "gg_map_is_canonical ys" "map_val xs = map_val ys"
  shows "map (\<lambda>kv. (key kv, snd kv)) xs = map (\<lambda>kv. (key kv, snd kv)) ys"
  using canonical_unique assms unfolding gg_map_is_canonical_iff by blast

theorem gg_map_is_canonical_unique_witness:
  "map (\<lambda>kv. (key kv, snd kv))
     (gg_map_canonicalize_shallow
       [(GG_STR ''b'', OBJ_I64 2), (GG_STR ''a'', OBJ_NULL), (GG_STR ''b'', OBJ_NULL)]) =
   map (\<lambda>kv. (key kv, snd kv)) [(GG_STR ''a'', OBJ_NULL), (GG_STR ''b'', OBJ_I64 2)]"
  (is "map _ (gg_map_canonicalize_shallow ?p) = map _ ?q")
proof (rule gg_map_is_canonical_unique)
  show "gg_map_is_canonical (gg_map_canonicalize_shallow ?p)"
    using gg_map_canonicalize_shallow_facts(1) [of ?p] by (simp add: gg_map_is_canonical_iff)
  show "gg_map_is_canonical ?q"
    by (simp add: gg_map_is_canonical_iff)
  show "map_val (gg_map_canonicalize_shallow ?p) = map_val ?q"
    unfolding gg_map_canonicalize_shallow_facts(2) by (auto simp: fun_eq_iff)
qed

text \<open>
  \<open>sort_keys\<close> sorts the used part of the array by key, permutes it, keeps the relative order
  of pairs with equal keys (the sort is stable, as \<open>object.h\<close> says) and does not touch the
  rest of the array.
\<close>

theorem sort_keys_stable_sort:
  assumes "n \<le> length pairs"
  shows "sorted (keys (take n (sort_keys pairs n))) \<and>
     mset (take n (sort_keys pairs n)) = mset (take n pairs) \<and>
     filter (\<lambda>kv. key kv = k) (take n (sort_keys pairs n)) =
       filter (\<lambda>kv. key kv = k) (take n pairs) \<and>
     drop n (sort_keys pairs n) = drop n pairs"
  using assms take_sort_keys [OF assms] sort_keys_fold [OF assms]
    fold_ins_facts(1) [of "take n pairs" "[]"] fold_ins_facts(2) [of "[]" "take n pairs"]
    fold_ins_facts(3) [of k "take n pairs" "[]"]
  by simp

theorem sort_keys_stable_sort_witness:
  "sorted (keys (take 2 (sort_keys [(GG_STR ''b'', OBJ_NULL), (GG_STR ''a'', OBJ_NULL)] 2)))"
proof -
  have "2 \<le> length [(GG_STR ''b'', OBJ_NULL), (GG_STR ''a'', OBJ_NULL)]" by simp
  from sort_keys_stable_sort [OF this] show ?thesis by blast
qed

end
