(* ===== verification/Object_Canonical.thy ===== *)
theory Object_Canonical
  imports Map_Canonical Object_Visit
begin

text \<open>
  Whole-object operations built on the traversal: canonical form of nested objects
  (\<open>src/object_canonical.c\<close>) and memory usage (the end of \<open>src/object.c\<close>).

  Each operation is a set of handlers for \<open>gg_obj_visit\<close>; the locale \<open>map_check_handlers\<close> of
  \<open>Object_Visit\<close> is interpreted on them and gives their results on whole objects.
\<close>

section \<open>Canonical form\<close>

definition canonicalize_map :: "unit \<Rightarrow> GgMap \<Rightarrow> GgObject \<Rightarrow> GgError \<times> unit \<times> GgObject" where
  "canonicalize_map c val obj =
     (GG_ERR_OK, (), gg_obj_map (fst val, gg_map_canonicalize_shallow (snd val)))"

definition gg_obj_canonicalize :: "GgObject option \<Rightarrow> (GgError \<times> GgObject option) option" where
  \<comment> \<open>the argument is \<open>None\<close> for a NULL pointer; the outer \<open>option\<close> is that of the traversal\<close>
  "gg_obj_canonicalize obj =
     (case obj of
        None \<Rightarrow> Some (GG_ERR_OK, None)
      | Some ob \<Rightarrow>
          map_option (\<lambda>(e, _, ob'). (e, Some ob'))
            (gg_obj_visit (no_handlers\<lparr>on_map := Some canonicalize_map\<rparr>) () ob))"

definition is_map_canonical :: "unit \<Rightarrow> GgMap \<Rightarrow> GgObject \<Rightarrow> GgError \<times> unit \<times> GgObject" where
  "is_map_canonical c val obj =
     (if \<not> gg_map_is_canonical (snd val) then (GG_ERR_FAILURE, (), obj) else (GG_ERR_OK, (), obj))"

definition gg_obj_is_canonical :: "GgObject \<Rightarrow> bool option" where
  "gg_obj_is_canonical obj =
     map_option (\<lambda>(e, _, _). e = GG_ERR_OK)
       (gg_obj_visit (no_handlers\<lparr>on_map := Some is_map_canonical\<rparr>) () obj)"

section \<open>Memory usage\<close>

definition sizeof_ptr :: nat where "sizeof_ptr = 8"

definition sizeof_GgObject :: nat where
  "sizeof_GgObject = (if sizeof_ptr = 4 then 9 else 11)"

definition sizeof_GgKV :: nat where
  "sizeof_GgKV = sizeof_ptr + 2 + sizeof_GgObject"

definition mem_usage_buf :: "nat \<Rightarrow> GgBuffer \<Rightarrow> GgObject \<Rightarrow> GgError \<times> nat \<times> GgObject" where
  "mem_usage_buf measured val obj = (GG_ERR_OK, measured + len val, obj)"

definition mem_usage_list :: "nat \<Rightarrow> GgList \<Rightarrow> GgObject \<Rightarrow> GgError \<times> nat \<times> GgObject" where
  "mem_usage_list measured val obj = (GG_ERR_OK, measured + length (snd val) * sizeof_GgObject, obj)"

definition mem_usage_map :: "nat \<Rightarrow> GgMap \<Rightarrow> GgObject \<Rightarrow> GgError \<times> nat \<times> GgObject" where
  "mem_usage_map measured val obj = (GG_ERR_OK, measured + length (snd val) * sizeof_GgKV, obj)"

definition mem_usage_map_key :: "nat \<Rightarrow> GgBuffer \<Rightarrow> GgKV \<Rightarrow> GgError \<times> nat \<times> GgKV" where
  "mem_usage_map_key measured k kv = (GG_ERR_OK, measured + len k, kv)"

definition mem_usage_handlers :: "nat GgObjectVisitHandlers" where
  "mem_usage_handlers =
     no_handlers\<lparr>on_buf := Some mem_usage_buf, on_map_key := Some mem_usage_map_key,
                 on_map := Some mem_usage_map, on_list := Some mem_usage_list\<rparr>"

definition gg_obj_mem_usage :: "GgObject \<Rightarrow> nat res option" where
  \<comment> \<open>\<open>Inr n\<close>: success with \<open>*size = n\<close>; on an error \<open>*size\<close> is not written\<close>
  "gg_obj_mem_usage obj =
     map_option (\<lambda>(ret, measured, _). if ret = GG_ERR_OK then Inr measured else Inl ret)
       (gg_obj_visit mem_usage_handlers 0 obj)"

section \<open>Specifications on whole objects\<close>

lemma canonicalize_subset: "set (gg_map_canonicalize_shallow kvs) \<subseteq> set kvs"
  using gg_map_canonicalize_shallow_facts(3) [of kvs] set_mset_mono by fastforce

lemma length_canonicalize: "length (gg_map_canonicalize_shallow kvs) \<le> length kvs"
  using gg_map_canonicalize_shallow_facts(3) [of kvs] size_mset_mono by fastforce

lemma subobjects_item: "x \<in> set xs \<Longrightarrow> obj_subobjects x < obj_subobjects (OBJ_LIST p xs)"
  using member_le_sum_list [of "obj_subobjects x" "map obj_subobjects xs"] length_pos_if_in_set [of x xs]
  by (auto simp: less_eq_Suc_le)

lemma subobjects_pair: "kv \<in> set kvs \<Longrightarrow> obj_subobjects (snd kv) < obj_subobjects (OBJ_MAP p kvs)"
  using member_le_sum_list [of "obj_subobjects (snd kv)" "map (obj_subobjects \<circ> snd) kvs"]
    length_pos_if_in_set [of kv kvs]
  by (auto simp: less_eq_Suc_le)

lemma subobjects_canonical_pair:
  "kv \<in> set (gg_map_canonicalize_shallow kvs) \<Longrightarrow>
   obj_subobjects (snd kv) < obj_subobjects (OBJ_MAP p kvs)"
  using canonicalize_subset [of kvs] subobjects_pair by blast

function canon_obj :: "GgObject \<Rightarrow> GgObject" where
  "canon_obj (OBJ_LIST p xs) = OBJ_LIST p (map canon_obj xs)"
| "canon_obj (OBJ_MAP p kvs) =
     OBJ_MAP p (map (\<lambda>kv. (fst kv, canon_obj (snd kv))) (gg_map_canonicalize_shallow kvs))"
| "canon_obj OBJ_NULL = OBJ_NULL"
| "canon_obj (OBJ_BOOLEAN b) = OBJ_BOOLEAN b"
| "canon_obj (OBJ_I64 v) = OBJ_I64 v"
| "canon_obj (OBJ_F64 v) = OBJ_F64 v"
| "canon_obj (OBJ_BUF bf) = OBJ_BUF bf"
  by pat_completeness auto
termination
  by (relation "measure obj_subobjects")
     (auto simp del: obj_subobjects.simps intro: subobjects_item dest: subobjects_canonical_pair)

function canon_subobjects :: "GgObject \<Rightarrow> nat" where
  \<comment> \<open>the subobjects counted while canonicalising: each map before its duplicates are pruned\<close>
  "canon_subobjects (OBJ_LIST p xs) = length xs + sum_list (map canon_subobjects xs)"
| "canon_subobjects (OBJ_MAP p kvs) =
     2 * length kvs + sum_list (map (canon_subobjects \<circ> snd) (gg_map_canonicalize_shallow kvs))"
| "canon_subobjects OBJ_NULL = 0"
| "canon_subobjects (OBJ_BOOLEAN b) = 0"
| "canon_subobjects (OBJ_I64 v) = 0"
| "canon_subobjects (OBJ_F64 v) = 0"
| "canon_subobjects (OBJ_BUF bf) = 0"
  by pat_completeness auto
termination
  by (relation "measure obj_subobjects")
     (auto simp del: obj_subobjects.simps intro: subobjects_item dest: subobjects_canonical_pair)

fun all_maps_canonical :: "GgObject \<Rightarrow> bool" where
  "all_maps_canonical (OBJ_LIST p xs) = list_all all_maps_canonical xs"
| "all_maps_canonical (OBJ_MAP p kvs) =
     (gg_map_is_canonical kvs \<and> list_all (all_maps_canonical \<circ> snd) kvs)"
| "all_maps_canonical _ = True"

fun mem_size :: "GgObject \<Rightarrow> nat" where
  \<comment> \<open>bytes behind the pointers of an object, without sharing\<close>
  "mem_size (OBJ_BUF bf) = len bf"
| "mem_size (OBJ_LIST p xs) = length xs * sizeof_GgObject + sum_list (map mem_size xs)"
| "mem_size (OBJ_MAP p kvs) =
     length kvs * sizeof_GgKV + sum_list (map (\<lambda>kv. len (fst kv) + mem_size (snd kv)) kvs)"
| "mem_size _ = 0"

section \<open>Interpretations\<close>

lemma gg_obj_map_small: "length kvs \<le> GG_MAX_OBJECT_SUBOBJECTS \<Longrightarrow> gg_obj_map (p, kvs) = OBJ_MAP p kvs"
  by (simp add: gg_obj_map_def UINT16_MAX_def GG_MAX_OBJECT_SUBOBJECTS_def)

lemma length_take_canonicalize:
  "length (snd (gg_obj_into_map (gg_obj_map (p, gg_map_canonicalize_shallow kvs)))) \<le> length kvs"
  using length_canonicalize [of kvs] by (simp add: gg_obj_map_def)

lemma fold_id [simp]: "fold (\<lambda>x c. c) xs c = c"
  by (induction xs) auto

lemma fold_add: "fold (\<lambda>x c. c + f x) xs (c :: nat) = c + sum_list (map f xs)"
  by (induction xs arbitrary: c) auto

interpretation canon: map_check_handlers "no_handlers\<lparr>on_map := Some canonicalize_map\<rparr>"
  "\<lambda>c _. c" "\<lambda>c _. c" "\<lambda>c _. c" "\<lambda>c _. c" gg_map_canonicalize_shallow "\<lambda>_. True" GG_ERR_RANGE
  canon_obj canon_subobjects "\<lambda>_. True" "\<lambda>_ c. c"
proof
  fix c c' :: unit and p kvs obj
  assume "call2 (on_map (no_handlers\<lparr>on_map := Some canonicalize_map\<rparr>)) c (p, kvs) (OBJ_MAP p kvs) =
            (GG_ERR_OK, c', obj)"
  then show "\<exists>p' kvs'. obj = OBJ_MAP p' kvs' \<and> length kvs' \<le> length kvs"
    using length_take_canonicalize [of p kvs] by (auto simp: canonicalize_map_def gg_obj_map_def)
next
  fix c :: unit and p and kvs :: "GgKV list"
  assume "length kvs \<le> GG_MAX_OBJECT_SUBOBJECTS"
  then show "call2 (on_map (no_handlers\<lparr>on_map := Some canonicalize_map\<rparr>)) c (p, kvs) (OBJ_MAP p kvs) =
            (GG_ERR_OK, c, OBJ_MAP p (gg_map_canonicalize_shallow kvs))"
    using length_canonicalize [of kvs] by (simp add: canonicalize_map_def gg_obj_map_small)
qed (auto simp: no_handlers_def list_all_iff comp_def)

interpretation is_canon: map_check_handlers "no_handlers\<lparr>on_map := Some is_map_canonical\<rparr>"
  "\<lambda>c _. c" "\<lambda>c _. c" "\<lambda>c _. c" "\<lambda>c _. c" id gg_map_is_canonical GG_ERR_FAILURE
  id obj_subobjects all_maps_canonical "\<lambda>_ c. c"
  by unfold_locales
     (auto simp: no_handlers_def is_map_canonical_def comp_def split: if_splits)

interpretation mem_usage: map_check_handlers mem_usage_handlers
  "\<lambda>c bf. c + len bf" "\<lambda>c xs. c + length xs * sizeof_GgObject"
  "\<lambda>c kvs. c + length kvs * sizeof_GgKV" "\<lambda>c k. c + len k" id "\<lambda>_. True" GG_ERR_RANGE
  id obj_subobjects "\<lambda>_. True" "\<lambda>obj c. c + mem_size obj"
  by unfold_locales
     (auto simp: no_handlers_def mem_usage_handlers_def mem_usage_buf_def mem_usage_list_def
        mem_usage_map_def mem_usage_map_key_def fold_add comp_def list_all_iff add.assoc)

section \<open>Canonicalisation keeps the contents\<close>

text \<open>Contents reached by list indices and keys: a scalar, or the kind and length of a container.\<close>

datatype step = Idx nat | Key "byte list"

datatype contents = Scalar GgObject | List_of nat | Map_of

fun contents_of :: "GgObject \<Rightarrow> contents" where
  "contents_of (OBJ_LIST p xs) = List_of (length xs)"
| "contents_of (OBJ_MAP p kvs) = Map_of"
| "contents_of obj = Scalar obj"

fun obj_at :: "GgObject \<Rightarrow> step list \<Rightarrow> contents option" where
  "obj_at obj [] = Some (contents_of obj)"
| "obj_at (OBJ_LIST p xs) (Idx i # path) = (if i < length xs then obj_at (xs ! i) path else None)"
| "obj_at (OBJ_MAP p kvs) (Key k # path) = (case map_val kvs k of Some v \<Rightarrow> obj_at v path | None \<Rightarrow> None)"
| "obj_at obj (st # path) = None"

lemma map_val_map: "map_val (map (\<lambda>kv. (fst kv, f (snd kv))) kvs) k = map_option f (map_val kvs k)"
  by (induction kvs) auto

lemma contents_canon [simp]: "contents_of (canon_obj obj) = contents_of obj"
  by (cases obj) auto

lemma obj_at_canon: "obj_at (canon_obj obj) path = obj_at obj path"
proof (induction obj path rule: obj_at.induct)
  case (3 p kvs k path)
  then show ?case
    by (cases "map_val kvs k") (auto simp: map_val_map gg_map_canonicalize_shallow_facts(2))
qed auto

lemma keys_map: "keys (map (\<lambda>kv. (fst kv, f (snd kv))) kvs) = keys kvs"
  by (simp add: comp_def)

lemma all_maps_canonical_canon: "all_maps_canonical (canon_obj obj)"
proof (induction obj rule: canon_obj.induct)
  case (2 p kvs)
  then show ?case
    using gg_map_canonicalize_shallow_facts(1) [of kvs]
    by (auto simp: gg_map_is_canonical_iff list_all_iff comp_def)
qed (auto simp: list_all_iff)

section \<open>Properties\<close>

text \<open>
  C18: \<open>gg_obj_canonicalize\<close> always returns. Within the traversal limits it succeeds, every map
  of the resulting object, at any depth, is canonical, and every path of list indices and keys
  leads to the same contents as before; outside the limits it returns \<open>GG_ERR_RANGE\<close>.
\<close>

theorem gg_obj_canonicalize_correct:
  "if obj_depth (canon_obj obj) \<le> GG_MAX_OBJECT_DEPTH \<and> canon_subobjects obj \<le> GG_MAX_OBJECT_SUBOBJECTS
   then \<exists>obj'. gg_obj_canonicalize (Some obj) = Some (GG_ERR_OK, Some obj') \<and>
          all_maps_canonical obj' \<and> (\<forall>path. obj_at obj' path = obj_at obj path)
   else \<exists>obj'. gg_obj_canonicalize (Some obj) = Some (GG_ERR_RANGE, Some obj')"
  using canon.gg_obj_visit_checked [of obj "()"] all_maps_canonical_canon [of obj]
  by (auto simp: gg_obj_canonicalize_def obj_at_canon split: if_splits)

text \<open>
  \<open>gg_obj_is_canonical\<close> decides that an object is within the traversal limits and that all its
  maps, at any depth, are canonical.
\<close>

theorem gg_obj_is_canonical_iff:
  "gg_obj_is_canonical obj =
     Some (obj_depth obj \<le> GG_MAX_OBJECT_DEPTH \<and> obj_subobjects obj \<le> GG_MAX_OBJECT_SUBOBJECTS \<and>
           all_maps_canonical obj)"
  using is_canon.gg_obj_visit_checked [of obj "()"]
  by (auto simp: gg_obj_is_canonical_def split: if_splits)

lemma gg_obj_mem_usage_eq:
  "gg_obj_mem_usage obj =
     Some (if obj_depth obj \<le> GG_MAX_OBJECT_DEPTH \<and> obj_subobjects obj \<le> GG_MAX_OBJECT_SUBOBJECTS
           then Inr (mem_size obj) else Inl GG_ERR_RANGE)"
  using mem_usage.gg_obj_visit_checked [of obj 0]
  by (auto simp: gg_obj_mem_usage_def split: if_splits)

end
