(* ===== verification/Arena.thy ===== *)
theory Arena
  imports Object_Canonical
begin

text \<open>
  Arena allocation (\<open>priv_include/gg/arena.h\<close>, \<open>src/arena.c\<close>).

  The fields \<open>capacity\<close> and \<open>index\<close> are 32-bit words as in the code, so the padding and
  bounds computations are done in modular arithmetic. An arena argument is \<open>None\<close> for the
  NULL pointer. Objects are trees, so copying an array into the arena gives it a new
  address and keeps its elements: \<open>memcpy\<close> is the identity on contents. That is what it does if source
  and target do not overlap, which the code leaves to its callers: an object that is copied must not
  lie in the part of the arena that is still free.

  Lemmas: an allocation is aligned, inside the arena and beyond every earlier allocation;
  an allocation fails exactly when it does not fit; claiming an object into an arena keeps
  its contents, leaves only addresses owned by the arena, and cannot run out of memory if
  the arena has the room that \<open>gg_obj_mem_usage\<close> reports.
\<close>

section \<open>The allocator\<close>

record GgArena =
  arena_mem :: ptr
  capacity :: u32
  index :: u32

definition gg_arena_init :: "GgBuffer \<Rightarrow> GgArena" where
  "gg_arena_init buf =
     \<lparr>arena_mem = data buf,
      capacity = (if len buf \<le> UINT32_MAX then of_nat (len buf) else of_nat UINT32_MAX),
      index = 0\<rparr>"

definition gg_arena_alloc :: "GgArena option \<Rightarrow> nat \<Rightarrow> nat \<Rightarrow> ptr option \<times> GgArena option" where
  "gg_arena_alloc arena sz alignment =
     (case arena of
        None \<Rightarrow> (None, None)
      | Some a \<Rightarrow>
     (let align = (of_nat alignment :: u32);
          pad = (align - (index a AND (align - 1))) AND (align - 1)
      in if pad > capacity a - index a then (None, Some a)
         else
     (let idx = index a + pad
      in if sz > unat (capacity a - idx) then (None, Some a)
         else (Some (arena_mem a + unat idx), Some (a\<lparr>index := idx + of_nat sz\<rparr>)))))"

definition gg_arena_owns :: "GgArena option \<Rightarrow> ptr \<Rightarrow> bool" where
  "gg_arena_owns arena p =
     (case arena of
        None \<Rightarrow> False
      | Some a \<Rightarrow> p \<ge> arena_mem a \<and> p < arena_mem a + unat (capacity a))"

definition gg_arena_resize_last :: "GgArena \<Rightarrow> ptr \<Rightarrow> nat \<Rightarrow> nat \<Rightarrow> GgError \<times> GgArena" where
  "gg_arena_resize_last a p old_size sz =
     (if \<not> gg_arena_owns (Some a) p then (GG_ERR_INVALID, a)
      else
     (let idx = (of_nat (p - arena_mem a) :: u32)
      in if idx > index a then (GG_ERR_INVALID, a)
         else if unat (index a - idx) \<noteq> old_size then (GG_ERR_INVALID, a)
         else if sz > unat (capacity a - idx) then (GG_ERR_NOMEM, a)
         else (GG_ERR_OK, a\<lparr>index := idx + of_nat sz\<rparr>)))"

definition gg_arena_alloc_rest :: "GgArena option \<Rightarrow> (ptr option \<times> nat) \<times> GgArena option" where
  \<comment> \<open>the address and length of the returned buffer\<close>
  "gg_arena_alloc_rest arena =
     (case arena of
        None \<Rightarrow> ((None, 0), None)
      | Some a \<Rightarrow>
          (let remaining = unat (capacity a - index a)
           in case gg_arena_alloc arena (remaining * 1) 1 of (p, arena') \<Rightarrow> ((p, remaining), arena')))"

section \<open>Claiming\<close>

definition gg_arena_claim_buf :: "GgBuffer \<Rightarrow> GgArena option \<Rightarrow> GgError \<times> GgArena option \<times> GgBuffer" where
  "gg_arena_claim_buf buf arena =
     (if gg_arena_owns arena (data buf) then (GG_ERR_OK, arena, buf)
      else if len buf = 0 then (GG_ERR_OK, arena, buf\<lparr>data := 0\<rparr>)
      else
        (case gg_arena_alloc arena (len buf * 1) 1 of
           (None, arena') \<Rightarrow> (GG_ERR_NOMEM, arena', buf)
         | (Some new_mem, arena') \<Rightarrow> (GG_ERR_OK, arena', buf\<lparr>data := new_mem\<rparr>)))"

definition claim_buf :: "GgArena option \<Rightarrow> GgBuffer \<Rightarrow> GgObject \<Rightarrow> GgError \<times> GgArena option \<times> GgObject" where
  "claim_buf arena val obj =
     (case gg_arena_claim_buf val arena of (ret, arena', val') \<Rightarrow> (ret, arena', gg_obj_buf val'))"

definition claim_list :: "GgArena option \<Rightarrow> GgList \<Rightarrow> GgObject \<Rightarrow> GgError \<times> GgArena option \<times> GgObject" where
  "claim_list arena val obj =
     (if gg_arena_owns arena (fst val) then (GG_ERR_OK, arena, obj)
      else if length (snd val) = 0 then (GG_ERR_OK, arena, gg_obj_list (0, []))
      else
        (case gg_arena_alloc arena (length (snd val) * sizeof_GgObject) 1 of
           (None, arena') \<Rightarrow> (GG_ERR_NOMEM, arena', obj)
         | (Some new_mem, arena') \<Rightarrow> (GG_ERR_OK, arena', gg_obj_list (new_mem, snd val))))"

definition claim_map :: "GgArena option \<Rightarrow> GgMap \<Rightarrow> GgObject \<Rightarrow> GgError \<times> GgArena option \<times> GgObject" where
  "claim_map arena val obj =
     (if gg_arena_owns arena (fst val) then (GG_ERR_OK, arena, obj)
      else if length (snd val) = 0 then (GG_ERR_OK, arena, gg_obj_map (0, []))
      else
        (case gg_arena_alloc arena (length (snd val) * sizeof_GgKV) 1 of
           (None, arena') \<Rightarrow> (GG_ERR_NOMEM, arena', obj)
         | (Some new_mem, arena') \<Rightarrow> (GG_ERR_OK, arena', gg_obj_map (new_mem, snd val))))"

definition claim_map_key :: "GgArena option \<Rightarrow> GgBuffer \<Rightarrow> GgKV \<Rightarrow> GgError \<times> GgArena option \<times> GgKV" where
  "claim_map_key arena k kv =
     (case gg_arena_claim_buf k arena of (ret, arena', k') \<Rightarrow> (ret, arena', gg_kv k' (snd kv)))"

text \<open>
  The handlers run over memory that holds the object, so every copy reads what the object has: the new arrays are
  in the free part of the arena, and the object is not (see above).
\<close>

definition claim_handlers :: "GgArena option GgObjectVisitHandlers" where
  "claim_handlers =
     no_handlers\<lparr>on_buf := Some claim_buf, on_list := Some claim_list, on_map := Some claim_map,
                 on_map_key := Some claim_map_key\<rparr>"

definition gg_arena_claim_obj ::
  "GgObject \<Rightarrow> GgArena option \<Rightarrow> (GgError \<times> GgArena option \<times> GgObject) option" where
  "gg_arena_claim_obj obj arena = gg_obj_visit claim_handlers arena obj"

definition claim_bufs_handlers :: "GgArena option GgObjectVisitHandlers" where
  "claim_bufs_handlers = no_handlers\<lparr>on_buf := Some claim_buf, on_map_key := Some claim_map_key\<rparr>"

definition gg_arena_claim_obj_bufs ::
  "GgObject \<Rightarrow> GgArena option \<Rightarrow> (GgError \<times> GgArena option \<times> GgObject) option" where
  "gg_arena_claim_obj_bufs obj arena = gg_obj_visit claim_bufs_handlers arena obj"

section \<open>Lemmas: allocation\<close>

definition arena_inv :: "GgArena \<Rightarrow> bool" where
  "arena_inv a = (index a \<le> capacity a)"

text \<open>The padding: the distance to the next multiple of the alignment.\<close>

definition pad_to :: "nat \<Rightarrow> nat \<Rightarrow> nat" where
  "pad_to k i = (2 ^ k - i mod 2 ^ k) mod 2 ^ k"

lemma pad_to_dvd: "2 ^ k dvd i + pad_to k i"
proof -
  have "i mod 2 ^ k < 2 ^ k" by simp
  then show ?thesis
    unfolding pad_to_def
    by (metis (no_types, lifting) add.commute dvd_eq_mod_eq_0 le_add_diff_inverse2 less_imp_le_nat
        mod_add_left_eq mod_add_right_eq mod_self)
qed

lemma pad_to_less: "pad_to k i < 2 ^ k"
  by (simp add: pad_to_def)

lemma pad_to_0 [simp]: "pad_to 0 i = 0"
  by (simp add: pad_to_def)

lemma pad_word:
  assumes "k < 32"
  shows "unat (((2 ^ k :: u32) - (i AND (2 ^ k - 1))) AND (2 ^ k - 1)) =
         pad_to k (unat i)"
proof -
  have m: "(2 ^ k - 1 :: u32) = mask k"
    by (simp add: mask_eq_exp_minus_1)
  have p: "unat (2 ^ k :: u32) = 2 ^ k"
    using assms by (simp add: unat_2_power)
  have i: "unat (take_bit k i) = unat i mod 2 ^ k"
    by (metis unsigned_take_bit_eq take_bit_eq_mod)
  have "unat (take_bit k i) < 2 ^ k" using i by simp
  then have "unat ((2 ^ k :: u32) - take_bit k i) = 2 ^ k - unat (take_bit k i)"
    by (metis less_imp_le_nat p unat_sub word_le_nat_alt)
  then have "unat (take_bit k ((2 ^ k :: u32) - take_bit k i)) = pad_to k (unat i)"
    by (metis i pad_to_def take_bit_eq_mod unsigned_take_bit_eq)
  then show ?thesis
    by (simp only: m take_bit_eq_mask [symmetric])
qed

lemma gg_arena_alloc_eq:
  assumes inv: "arena_inv a" and k: "k < 32"
  shows "gg_arena_alloc (Some a) sz (2 ^ k) =
    (let idx = unat (index a) + pad_to k (unat (index a))
     in if idx + sz \<le> unat (capacity a)
        then (Some (arena_mem a + idx), Some (a\<lparr>index := of_nat (idx + sz)\<rparr>))
        else (None, Some a))"
proof -
  define pad where "pad = ((2 ^ k :: u32) - (index a AND (2 ^ k - 1))) AND (2 ^ k - 1)"
  have p: "unat pad = pad_to k (unat (index a))" using pad_word [OF k] by (simp add: pad_def)
  have c: "unat (capacity a - index a) = unat (capacity a) - unat (index a)"
    using inv by (simp add: arena_inv_def unat_sub)
  show ?thesis
  proof (cases "pad \<le> capacity a - index a")
    case True
    then have le: "unat (index a) + unat pad \<le> unat (capacity a)"
      using c inv by (simp add: word_le_nat_alt arena_inv_def)
    then have idx: "unat (index a + pad) = unat (index a) + unat pad"
      using unat_bound [of "capacity a"] by (simp add: unat_plus_if')
    then have c2: "unat (capacity a - (index a + pad)) = unat (capacity a) - (unat (index a) + unat pad)"
      using le by (metis unat_sub word_le_nat_alt)
    show ?thesis using True le idx c2
      by (auto simp: gg_arena_alloc_def Let_def p [symmetric] pad_def [symmetric])
  next
    case False
    then have "unat (index a) + unat pad > unat (capacity a)"
      using c by (simp add: word_le_nat_alt not_le)
    then show ?thesis using False
      by (auto simp: gg_arena_alloc_def Let_def p [symmetric] pad_def [symmetric])
  qed
qed

lemma gg_arena_alloc_bytes:
  "arena_inv a \<Longrightarrow> gg_arena_alloc (Some a) sz 1 =
     (if unat (index a) + sz \<le> unat (capacity a)
      then (Some (arena_mem a + unat (index a)), Some (a\<lparr>index := of_nat (unat (index a) + sz)\<rparr>))
      else (None, Some a))"
  using gg_arena_alloc_eq [of a 0 sz] by (simp add: Let_def)

lemma gg_arena_alloc_NULL [simp]: "gg_arena_alloc None sz alignment = (None, None)"
  by (simp add: gg_arena_alloc_def)

lemma unat_index_set: "i \<le> unat (c :: u32) \<Longrightarrow> unat (of_nat i :: u32) = i"
  using unat_bound [of c] by (simp add: unat_of_nat)

lemma arena_inv_set: "i \<le> unat (capacity a) \<Longrightarrow> arena_inv (a\<lparr>index := of_nat i\<rparr>)"
  using unat_index_set [of i "capacity a"] by (simp add: arena_inv_def word_le_nat_alt)

text \<open>A run of allocation requests (size and log of the alignment); the blocks handed out.\<close>

fun alloc_all :: "GgArena option \<Rightarrow> (nat \<times> nat) list \<Rightarrow> (ptr \<times> nat \<times> nat) list \<times> GgArena option" where
  "alloc_all arena [] = ([], arena)"
| "alloc_all arena ((sz, k) # reqs) =
     (case gg_arena_alloc arena sz (2 ^ k) of
        (None, arena') \<Rightarrow> alloc_all arena' reqs
      | (Some p, arena') \<Rightarrow> (case alloc_all arena' reqs of (blocks, a) \<Rightarrow> ((p, sz, k) # blocks, a)))"

definition before :: "ptr \<times> nat \<times> nat \<Rightarrow> ptr \<times> nat \<times> nat \<Rightarrow> bool" where
  \<comment> \<open>the first block ends at or before the start of the second\<close>
  "before b c = (fst b + fst (snd b) \<le> fst c)"

lemma before_iff: "before (p, n, k) c \<longleftrightarrow> p + n \<le> fst c"
  by (simp add: before_def)

definition block_ok :: "GgArena \<Rightarrow> nat \<Rightarrow> ptr \<times> nat \<times> nat \<Rightarrow> bool" where
  "block_ok a lo b =
     (case b of (p, sz, k) \<Rightarrow>
        arena_mem a + lo \<le> p \<and> p + sz \<le> arena_mem a + unat (capacity a) \<and> 2 ^ k dvd p - arena_mem a)"

lemma block_ok_mono: "block_ok a lo b \<Longrightarrow> lo' \<le> lo \<Longrightarrow> block_ok a lo' b"
  by (auto simp: block_ok_def)

lemma block_ok_index [simp]: "block_ok (a\<lparr>index := i\<rparr>) lo b = block_ok a lo b"
  by (simp add: block_ok_def)

lemma alloc_all_blocks:
  assumes "arena_inv a" "\<forall>(sz, k) \<in> set reqs. k < 32" "alloc_all (Some a) reqs = (blocks, arena')"
  shows "list_all (block_ok a (unat (index a))) blocks \<and>
         sorted_wrt before blocks"
  using assms
proof (induction reqs arbitrary: a blocks)
  case (Cons req reqs)
  obtain sz k where req: "req = (sz, k)" by (cases req)
  let ?idx = "unat (index a) + pad_to k (unat (index a))"
  have al: "gg_arena_alloc (Some a) sz (2 ^ k) =
      (if ?idx + sz \<le> unat (capacity a)
       then (Some (arena_mem a + ?idx), Some (a\<lparr>index := of_nat (?idx + sz)\<rparr>)) else (None, Some a))"
    using gg_arena_alloc_eq [of a k sz] Cons.prems req by (simp add: Let_def)
  show ?case
  proof (cases "?idx + sz \<le> unat (capacity a)")
    case True
    obtain bs where bs: "alloc_all (Some (a\<lparr>index := of_nat (?idx + sz)\<rparr>)) reqs = (bs, arena')"
        "blocks = (arena_mem a + ?idx, sz, k) # bs"
      using Cons.prems(3) req al True by (auto split: prod.splits)
    have ih: "list_all (block_ok a (?idx + sz)) bs" "sorted_wrt before bs"
      using Cons.IH [OF arena_inv_set [OF True] _ bs(1)] Cons.prems(2) unat_index_set [OF True]
      by (auto simp: list_all_iff)
    have "list_all (block_ok a (unat (index a))) bs"
      using ih(1) by (auto simp: list_all_iff intro: block_ok_mono)
    then show ?thesis
      using ih True pad_to_dvd [of k "unat (index a)"]
      by (auto simp: bs(2) block_ok_def before_iff list_all_iff add.assoc)
  next
    case False
    then show ?thesis using Cons al req by auto
  qed
qed simp

text \<open>
  Over any run of allocations from an arena, every block handed out lies inside the arena and
  at an offset that is a multiple of its alignment, and the blocks are pairwise disjoint, in
  the order of the requests. The 32-bit padding and bounds arithmetic never wraps to a wrong
  answer.
\<close>

theorem gg_arena_alloc_disjoint:
  assumes "arena_inv a" "\<forall>(sz, k) \<in> set reqs. k < 32" "alloc_all (Some a) reqs = (blocks, arena')"
  shows "(\<forall>(p, sz, k) \<in> set blocks.
            arena_mem a \<le> p \<and> p + sz \<le> arena_mem a + unat (capacity a) \<and> 2 ^ k dvd p - arena_mem a) \<and>
         sorted_wrt before blocks"
  using alloc_all_blocks [OF assms] by (auto simp: list_all_iff block_ok_def)

theorem gg_arena_alloc_disjoint_witness:
  "sorted_wrt before [(100, 3, 0), (104, 4, 2), (108, 2, 1)]"
  by (rule gg_arena_alloc_disjoint [THEN conjunct2, of "gg_arena_init \<lparr>data = 100, mem = replicate 12 0\<rparr>"
        "[(3, 0), (4, 2), (9, 0), (2, 1)]"
        "[(100, 3, 0), (104, 4, 2), (108, 2, 1)]" "Some \<lparr>arena_mem = 100, capacity = 12, index = 10\<rparr>"])
     (simp_all add: gg_arena_init_def arena_inv_def UINT32_MAX_def gg_arena_alloc_def)

text \<open>
  resizing the most recent allocation works exactly like having allocated the new size in the
  first place: it succeeds and moves the end of the allocation, or returns \<open>GG_ERR_NOMEM\<close> and
  changes nothing when the arena is too small.
\<close>

theorem gg_arena_resize_last_correct:
  assumes inv: "arena_inv a" and k: "k < 32" and "0 < sz"
    and al: "gg_arena_alloc (Some a) sz (2 ^ k) = (Some p, Some a')"
  shows "gg_arena_resize_last a' p sz n =
    (case gg_arena_alloc (Some a) n (2 ^ k) of
       (Some _, Some a2) \<Rightarrow> (GG_ERR_OK, a2) | _ \<Rightarrow> (GG_ERR_NOMEM, a'))"
proof -
  let ?idx = "unat (index a) + pad_to k (unat (index a))"
  have fit: "?idx + sz \<le> unat (capacity a)" and p: "p = arena_mem a + ?idx"
    and a': "a' = a\<lparr>index := of_nat (?idx + sz)\<rparr>"
    using al gg_arena_alloc_eq [OF inv k, of sz] by (auto simp: Let_def split: if_splits)
  have idx: "unat (of_nat ?idx :: u32) = ?idx" "unat (of_nat (?idx + sz) :: u32) = ?idx + sz"
    by (rule unat_index_set [of _ "capacity a"]; use fit in simp)+
  have le: "\<not> (of_nat ?idx :: u32) > of_nat (?idx + sz)" "(of_nat ?idx :: u32) \<le> capacity a"
    using idx fit by (auto simp: word_le_nat_alt word_less_nat_alt)
  have d: "unat (of_nat (?idx + sz) - of_nat ?idx :: u32) = sz"
    "unat (capacity a - of_nat ?idx) = unat (capacity a) - ?idx"
    using idx le fit by (simp_all add: unat_sub not_less del: of_nat_add)
  have own: "gg_arena_owns (Some a') p"
    using fit \<open>0 < sz\<close> by (simp add: gg_arena_owns_def a' p)
  have "gg_arena_resize_last a' p sz n =
     (if n > unat (capacity a) - ?idx then (GG_ERR_NOMEM, a')
      else (GG_ERR_OK, a\<lparr>index := of_nat ?idx + of_nat n\<rparr>))"
    using own le(1) d
    unfolding gg_arena_resize_last_def Let_def p a' by (simp del: of_nat_add)
  then show ?thesis
    using fit gg_arena_alloc_eq [OF inv k, of n] by (auto simp: Let_def)
qed

theorem gg_arena_resize_last_correct_witness:
  "gg_arena_resize_last \<lparr>arena_mem = 100, capacity = 12, index = 8\<rparr> 104 4 9 =
     (GG_ERR_NOMEM, \<lparr>arena_mem = 100, capacity = 12, index = 8\<rparr>)"
  by (subst gg_arena_resize_last_correct [of "\<lparr>arena_mem = 100, capacity = 12, index = 3\<rparr>" 2])
     (simp_all add: gg_arena_alloc_def arena_inv_def)

section \<open>Lemmas: claiming\<close>

fun used :: "GgArena option \<Rightarrow> nat" where
  "used None = 0"
| "used (Some a) = unat (index a)"

fun cap :: "GgArena option \<Rightarrow> nat" where
  "cap None = 0"
| "cap (Some a) = unat (capacity a)"

fun opt_inv :: "GgArena option \<Rightarrow> bool" where
  "opt_inv None = True"
| "opt_inv (Some a) = arena_inv a"

text \<open>An operation that may use up to \<open>n\<close> bytes, and reports \<open>GG_ERR_NOMEM\<close> only if they are missing.\<close>

definition claim_step :: "GgArena option \<Rightarrow> nat \<Rightarrow> GgError \<Rightarrow> GgArena option \<Rightarrow> bool" where
  "claim_step ar n e ar' =
     (opt_inv ar' \<and> (ar' = None \<longleftrightarrow> ar = None) \<and>
      gg_arena_owns ar' = gg_arena_owns ar \<and> cap ar' = cap ar \<and>
      used ar \<le> used ar' \<and> used ar' \<le> used ar + n \<and>
      (e = GG_ERR_NOMEM \<longrightarrow> cap ar < used ar + n))"

lemma claim_step_refl: "opt_inv ar \<Longrightarrow> e \<noteq> GG_ERR_NOMEM \<Longrightarrow> claim_step ar n e ar"
  by (simp add: claim_step_def)

lemma claim_step_trans:
  "claim_step ar n GG_ERR_OK ar1 \<Longrightarrow> claim_step ar1 m e ar2 \<Longrightarrow> claim_step ar (n + m) e ar2"
  by (auto simp: claim_step_def)

lemma claim_step_mono: "claim_step ar n e ar' \<Longrightarrow> n \<le> m \<Longrightarrow> claim_step ar m e ar'"
  by (auto simp: claim_step_def)

lemma claim_step_err:
  "claim_step ar n e ar' \<Longrightarrow> e' = e \<or> e' \<noteq> GG_ERR_NOMEM \<Longrightarrow> claim_step ar n e' ar'"
  by (auto simp: claim_step_def)

lemma claim_step_owns: "claim_step ar n e ar' \<Longrightarrow> gg_arena_owns ar' = gg_arena_owns ar"
  by (simp add: claim_step_def)

lemma claim_step_inv: "claim_step ar n e ar' \<Longrightarrow> opt_inv ar'"
  by (simp add: claim_step_def)

lemma alloc_claim_step:
  assumes "opt_inv ar" "gg_arena_alloc ar n 1 = (r, ar')" "0 < n"
  shows "claim_step ar n (if r = None then GG_ERR_NOMEM else GG_ERR_OK) ar'"
    and "r = Some p \<Longrightarrow> gg_arena_owns ar p"
proof -
  have "claim_step ar n (if r = None then GG_ERR_NOMEM else GG_ERR_OK) ar' \<and>
        (r = Some p \<longrightarrow> gg_arena_owns ar p)"
  proof (cases ar)
    case None
    then show ?thesis using assms by (simp add: claim_step_def)
  next
    case (Some a)
    then have inv: "arena_inv a" using assms by simp
    show ?thesis
    proof (cases "unat (index a) + n \<le> unat (capacity a)")
      case True
      have ow: "gg_arena_owns (Some (a\<lparr>index := j\<rparr>)) = gg_arena_owns (Some a)" for j
        by (simp add: gg_arena_owns_def fun_eq_iff)
      from True have "r = Some (arena_mem a + unat (index a))" "ar' = Some (a\<lparr>index := of_nat (unat (index a) + n)\<rparr>)"
        using assms(2) Some gg_arena_alloc_bytes [OF inv, of n] by simp_all
      then show ?thesis
        using Some True \<open>0 < n\<close> arena_inv_set [OF True] unat_index_set [OF True] ow
        by (simp add: claim_step_def gg_arena_owns_def del: of_nat_add)
    next
      case False
      then show ?thesis
        using assms(2) Some inv gg_arena_alloc_bytes [OF inv, of n] by (auto simp: claim_step_def)
    qed
  qed
  then show "claim_step ar n (if r = None then GG_ERR_NOMEM else GG_ERR_OK) ar'"
    and "r = Some p \<Longrightarrow> gg_arena_owns ar p" by simp_all
qed

lemma gg_arena_claim_buf_spec:
  assumes "opt_inv ar" "gg_arena_claim_buf b ar = (e, ar', b')"
  shows "claim_step ar (len b) e ar'" "e = GG_ERR_OK \<or> e = GG_ERR_NOMEM" "mem b' = mem b"
    "e = GG_ERR_OK \<Longrightarrow> gg_arena_owns ar (data b') \<or> mem b' = []"
  using assms alloc_claim_step [OF assms(1), of "len b"]
  by (auto simp: gg_arena_claim_buf_def claim_step_refl split: if_splits prod.splits option.splits)

text \<open>Objects without their addresses, and objects whose parts are all owned.\<close>

fun strip :: "GgObject \<Rightarrow> GgObject" where
  "strip (OBJ_BUF b) = OBJ_BUF (b\<lparr>data := 0\<rparr>)"
| "strip (OBJ_LIST p xs) = OBJ_LIST 0 (map strip xs)"
| "strip (OBJ_MAP p kvs) = OBJ_MAP 0 (map (\<lambda>kv. ((fst kv)\<lparr>data := 0\<rparr>, strip (snd kv))) kvs)"
| "strip obj = obj"

fun claimed :: "bool \<Rightarrow> (ptr \<Rightarrow> bool) \<Rightarrow> GgObject \<Rightarrow> bool" where
  "claimed all ow (OBJ_BUF b) = (ow (data b) \<or> mem b = [])"
| "claimed all ow (OBJ_LIST p xs) = ((all \<longrightarrow> ow p \<or> xs = []) \<and> list_all (claimed all ow) xs)"
| "claimed all ow (OBJ_MAP p kvs) =
     ((all \<longrightarrow> ow p \<or> kvs = []) \<and>
      list_all (\<lambda>kv. (ow (data (fst kv)) \<or> mem (fst kv) = []) \<and> claimed all ow (snd kv)) kvs)"
| "claimed all ow obj = True"

fun bufs_wf :: "GgObject \<Rightarrow> bool" where
  \<comment> \<open>buffer and key lengths fit the 16-bit length field of the representation\<close>
  "bufs_wf (OBJ_BUF b) = (len b \<le> UINT16_MAX)"
| "bufs_wf (OBJ_LIST p xs) = list_all bufs_wf xs"
| "bufs_wf (OBJ_MAP p kvs) = list_all (\<lambda>kv. len (fst kv) \<le> UINT16_MAX \<and> bufs_wf (snd kv)) kvs"
| "bufs_wf obj = True"

fun need :: "nat \<Rightarrow> nat \<Rightarrow> GgObject \<Rightarrow> nat" where
  "need lsz ksz (OBJ_BUF b) = len b"
| "need lsz ksz (OBJ_LIST p xs) = length xs * lsz + sum_list (map (need lsz ksz) xs)"
| "need lsz ksz (OBJ_MAP p kvs) =
     length kvs * ksz + sum_list (map (\<lambda>kv. len (fst kv) + need lsz ksz (snd kv)) kvs)"
| "need lsz ksz obj = 0"

lemma need_mem_size: "need sizeof_GgObject sizeof_GgKV obj = mem_size obj"
  by (induction obj rule: mem_size.induct) (auto cong: map_cong)

lemma need_le: "need 0 0 obj \<le> mem_size obj"
proof (induction obj rule: mem_size.induct)
  case (2 p xs)
  then have "sum_list (map (need 0 0) xs) \<le> sum_list (map mem_size xs)" by (intro sum_list_mono) auto
  then show ?case by simp
next
  case (3 p kvs)
  then have "sum_list (map (\<lambda>kv. len (fst kv) + need 0 0 (snd kv)) kvs)
           \<le> sum_list (map (\<lambda>kv. len (fst kv) + mem_size (snd kv)) kvs)"
    by (intro sum_list_mono) auto
  then show ?case by simp
qed auto

text \<open>
  Handlers that claim every buffer and key and, if \<open>all\<close> holds, the arrays of lists and maps,
  at a cost of \<open>lsz\<close> and \<open>ksz\<close> bytes per element.
\<close>

locale claiming = visit_handlers h for h :: "GgArena option GgObjectVisitHandlers" +
  fixes all :: bool and lsz ksz :: nat
  assumes scalars [simp]:
      "call0 (on_null h) ar = (GG_ERR_OK, ar)" "call1 (on_bool h) ar b = (GG_ERR_OK, ar)"
      "call1 (on_i64 h) ar v = (GG_ERR_OK, ar)" "call1 (on_f64 h) ar v = (GG_ERR_OK, ar)"
      "call0 (cont_list h) ar = (GG_ERR_OK, ar)" "call0 (end_list h) ar = (GG_ERR_OK, ar)"
      "call0 (cont_map h) ar = (GG_ERR_OK, ar)" "call0 (end_map h) ar = (GG_ERR_OK, ar)"
      "call2 (on_buf h) ar bf obj = claim_buf ar bf obj"
      "call2 (on_map_key h) ar k kv = claim_map_key ar k kv"
    and list_call: "opt_inv ar \<Longrightarrow> length xs \<le> GG_MAX_OBJECT_SUBOBJECTS \<Longrightarrow>
      call2 (on_list h) ar (p, xs) (OBJ_LIST p xs) = (e, ar', obj) \<Longrightarrow>
      claim_step ar (length xs * lsz) e ar' \<and> (e = GG_ERR_OK \<or> e = GG_ERR_NOMEM) \<and>
      (e = GG_ERR_OK \<longrightarrow> (\<exists>p'. obj = OBJ_LIST p' xs \<and> (all \<longrightarrow> gg_arena_owns ar p' \<or> xs = [])))"
    and map_call: "opt_inv ar \<Longrightarrow> length kvs \<le> GG_MAX_OBJECT_SUBOBJECTS \<Longrightarrow>
      call2 (on_map h) ar (p, kvs) (OBJ_MAP p kvs) = (e, ar', obj) \<Longrightarrow>
      claim_step ar (length kvs * ksz) e ar' \<and> (e = GG_ERR_OK \<or> e = GG_ERR_NOMEM) \<and>
      (e = GG_ERR_OK \<longrightarrow> (\<exists>p'. obj = OBJ_MAP p' kvs \<and> (all \<longrightarrow> gg_arena_owns ar p' \<or> kvs = [])))"
begin

abbreviation status_ok :: "GgError \<Rightarrow> bool" where
  "status_ok e \<equiv> e = GG_ERR_OK \<or> e = GG_ERR_NOMEM \<or> e = GG_ERR_RANGE"

definition claim_ok :: "nat \<Rightarrow> nat \<Rightarrow> GgArena option \<Rightarrow> GgObject \<Rightarrow> GgArena option rec_result \<Rightarrow> bool" where
  "claim_ok d s ar obj res =
     (case res of (e, s', ar', obj') \<Rightarrow>
        claim_step ar (need lsz ksz obj) e ar' \<and> status_ok e \<and>
        (e = GG_ERR_RANGE \<longrightarrow> \<not> within_limits d s obj) \<and>
        (e = GG_ERR_OK \<longrightarrow>
           s' = s + obj_subobjects obj \<and> strip obj' = strip obj \<and> claimed all (gg_arena_owns ar) obj'))"

definition items_ok :: "nat \<Rightarrow> nat \<Rightarrow> GgArena option \<Rightarrow> ptr \<Rightarrow> GgObject list \<Rightarrow> nat \<Rightarrow> GgArena option rec_result \<Rightarrow> bool" where
  "items_ok d s ar p xs i res =
     (case res of (e, s', ar', obj') \<Rightarrow>
        claim_step ar (sum_list (map (need lsz ksz) (drop i xs))) e ar' \<and> status_ok e \<and>
        (e = GG_ERR_RANGE \<longrightarrow> \<not> items_within d s (drop i xs)) \<and>
        (e = GG_ERR_OK \<longrightarrow>
           s' = s + sum_list (map obj_subobjects (drop i xs)) \<and>
           (\<exists>ys. obj' = OBJ_LIST p (take i xs @ ys) \<and> map strip ys = map strip (drop i xs) \<and>
                 list_all (claimed all (gg_arena_owns ar)) ys)))"

abbreviation need_kv :: "GgKV \<Rightarrow> nat" where
  "need_kv kv \<equiv> len (fst kv) + need lsz ksz (snd kv)"

abbreviation strip_kv :: "GgKV \<Rightarrow> GgKV" where
  "strip_kv kv \<equiv> ((fst kv)\<lparr>data := 0\<rparr>, strip (snd kv))"

abbreviation claimed_kv :: "GgArena option \<Rightarrow> GgKV \<Rightarrow> bool" where
  "claimed_kv ar kv \<equiv>
     (gg_arena_owns ar (data (fst kv)) \<or> mem (fst kv) = []) \<and> claimed all (gg_arena_owns ar) (snd kv)"

definition pairs_ok :: "nat \<Rightarrow> nat \<Rightarrow> GgArena option \<Rightarrow> ptr \<Rightarrow> GgKV list \<Rightarrow> nat \<Rightarrow> GgArena option rec_result \<Rightarrow> bool" where
  "pairs_ok d s ar p kvs i res =
     (case res of (e, s', ar', obj') \<Rightarrow>
        claim_step ar (sum_list (map need_kv (drop i kvs))) e ar' \<and> status_ok e \<and>
        (e = GG_ERR_RANGE \<longrightarrow> \<not> items_within d s (map snd (drop i kvs))) \<and>
        (e = GG_ERR_OK \<longrightarrow>
           s' = s + sum_list (map (obj_subobjects \<circ> snd) (drop i kvs)) \<and>
           (\<exists>ys. obj' = OBJ_MAP p (take i kvs @ ys) \<and> map strip_kv ys = map strip_kv (drop i kvs) \<and>
                 list_all (claimed_kv ar) ys)))"

lemma items_ok_step:
  assumes i: "i < length xs" and x: "claim_ok (Suc d) s ar (xs ! i) (GG_ERR_OK, s1, ar1, x)"
    and rest: "items_ok d s1 ar1 p (xs[i := x]) (Suc i) res"
  shows "items_ok d s ar p xs i res"
proof -
  obtain e s' ar' obj' where res: "res = (e, s', ar', obj')" by (cases res)
  have d: "drop i xs = xs ! i # drop (Suc i) xs" "drop (Suc i) (xs[i := x]) = drop (Suc i) xs"
    "take (Suc i) (xs[i := x]) = take i xs @ [x]"
    using i by (auto simp: drop_cons take_Suc_conv_app_nth)
  have ow: "gg_arena_owns ar1 = gg_arena_owns ar" using x claim_step_owns by (auto simp: claim_ok_def)
  have cs: "claim_step ar (need lsz ksz (xs ! i) + sum_list (map (need lsz ksz) (drop (Suc i) xs))) e ar'"
    using x rest claim_step_trans unfolding claim_ok_def items_ok_def res d by auto
  show ?thesis
    using x rest cs unfolding claim_ok_def items_ok_def res d ow by auto
qed

lemma pairs_ok_step:
  assumes i: "i < length kvs"
    and k: "claim_step ar (len (fst (kvs ! i))) GG_ERR_OK ar0" "mem (fst kv) = mem (fst (kvs ! i))"
      "snd kv = snd (kvs ! i)" "gg_arena_owns ar (data (fst kv)) \<or> mem (fst kv) = []"
    and x: "claim_ok (Suc d) s ar0 (snd kv) (GG_ERR_OK, s1, ar1, x)"
    and rest: "pairs_ok d s1 ar1 p (kvs[i := (fst kv, x)]) (Suc i) res"
  shows "pairs_ok d s ar p kvs i res"
proof -
  obtain e s' ar' obj' where res: "res = (e, s', ar', obj')" by (cases res)
  have d: "drop i kvs = kvs ! i # drop (Suc i) kvs" "drop (Suc i) (kvs[i := (fst kv, x)]) = drop (Suc i) kvs"
    "take (Suc i) (kvs[i := (fst kv, x)]) = take i kvs @ [(fst kv, x)]"
    using i by (auto simp: drop_cons take_Suc_conv_app_nth)
  have ow: "gg_arena_owns ar1 = gg_arena_owns ar" "gg_arena_owns ar0 = gg_arena_owns ar"
    using x k claim_step_owns by (auto simp: claim_ok_def)
  have key: "(fst kv)\<lparr>data := 0\<rparr> = (fst (kvs ! i))\<lparr>data := 0\<rparr>" using k(2) by simp
  have "claim_step ar (len (fst (kvs ! i)) + need lsz ksz (snd kv)) GG_ERR_OK ar1"
    using x k(1) claim_step_trans by (auto simp: claim_ok_def)
  then have cs: "claim_step ar (need_kv (kvs ! i) + sum_list (map need_kv (drop (Suc i) kvs))) e ar'"
    using rest claim_step_trans k(3) unfolding pairs_ok_def res d by auto
  show ?thesis
    using x rest cs k key unfolding claim_ok_def pairs_ok_def res d ow by auto
qed

lemma claim_buf_ok:
  assumes "opt_inv ar" "len b \<le> UINT16_MAX" "claim_buf ar b obj = (e, ar', obj')"
  shows "claim_ok d s ar (OBJ_BUF b) (e, s, ar', obj')"
proof -
  obtain b' where c: "gg_arena_claim_buf b ar = (e, ar', b')" "obj' = gg_obj_buf b'"
    using assms(3) by (auto simp: claim_buf_def split: prod.splits)
  note sp = gg_arena_claim_buf_spec [OF assms(1) c(1)]
  have "gg_obj_buf b' = OBJ_BUF b'" using sp(3) assms(2) by (simp add: gg_obj_buf_def)
  then show ?thesis using sp c(2) by (auto simp: claim_ok_def)
qed

lemma claim_key_spec:
  assumes "opt_inv ar" "len (fst kv) \<le> UINT16_MAX" "claim_map_key ar (fst kv) kv = (e, ar', kv')"
  shows "claim_step ar (len (fst kv)) e ar'" "e = GG_ERR_OK \<or> e = GG_ERR_NOMEM"
    "snd kv' = snd kv" "mem (fst kv') = mem (fst kv)"
    "e = GG_ERR_OK \<Longrightarrow> gg_arena_owns ar (data (fst kv')) \<or> mem (fst kv') = []"
proof -
  obtain k' where c: "gg_arena_claim_buf (fst kv) ar = (e, ar', k')" "kv' = gg_kv k' (snd kv)"
    using assms(3) by (auto simp: claim_map_key_def split: prod.splits)
  note sp = gg_arena_claim_buf_spec [OF assms(1) c(1)]
  have "gg_kv k' (snd kv) = (k', snd kv)" using sp(3) assms(2) by (simp add: gg_kv_def)
  then show "claim_step ar (len (fst kv)) e ar'" "e = GG_ERR_OK \<or> e = GG_ERR_NOMEM"
    "snd kv' = snd kv" "mem (fst kv') = mem (fst kv)"
    "e = GG_ERR_OK \<Longrightarrow> gg_arena_owns ar (data (fst kv')) \<or> mem (fst kv') = []"
    using sp c(2) by auto
qed

lemma items_ok_stop:
  assumes "opt_inv ar" "i \<ge> length xs \<or> Suc d \<ge> GG_MAX_OBJECT_DEPTH"
  shows "items_ok d s ar p xs i (if i \<ge> length xs then GG_ERR_OK else GG_ERR_RANGE, s, ar, OBJ_LIST p xs)"
  using assms within_limits_depth [of "Suc d" s "xs ! i"]
  by (auto simp: items_ok_def claim_step_refl drop_cons)

lemma items_ok_fail:
  assumes i: "i < length xs" and x: "claim_ok (Suc d) s ar (xs ! i) (e, s1, ar1, x)" and "e \<noteq> GG_ERR_OK"
  shows "items_ok d s ar p xs i (e, s1, ar1, obj)"
  using assms claim_step_mono [of ar "need lsz ksz (xs ! i)" e ar1]
  by (auto simp: items_ok_def claim_ok_def drop_cons)

lemma pairs_ok_stop:
  assumes "opt_inv ar" "i \<ge> length kvs"
  shows "pairs_ok d s ar p kvs i (GG_ERR_OK, s, ar, OBJ_MAP p kvs)"
  using assms by (auto simp: pairs_ok_def claim_step_refl)

lemma pairs_ok_fail:
  assumes i: "i < length kvs"
    and k: "claim_step ar (len (fst (kvs ! i))) GG_ERR_OK ar0" "snd kv = snd (kvs ! i)"
    and x: "claim_ok (Suc d) s ar0 (snd kv) (e, s1, ar1, x)" and "e \<noteq> GG_ERR_OK"
  shows "pairs_ok d s ar p kvs i (e, s1, ar1, obj)"
proof -
  have "claim_step ar (need_kv (kvs ! i)) e ar1"
    using x k claim_step_trans by (auto simp: claim_ok_def)
  then have "claim_step ar (need_kv (kvs ! i) + n) e ar1" for n
    by (rule claim_step_mono) simp
  then show ?thesis using assms by (auto simp: pairs_ok_def claim_ok_def drop_cons)
qed

lemma pairs_ok_key:
  assumes i: "i < length kvs" and k: "claim_step ar (len (fst (kvs ! i))) ek ar0"
      "ek = GG_ERR_OK \<or> ek = GG_ERR_NOMEM" "\<not> (ek = GG_ERR_OK \<and> Suc d < GG_MAX_OBJECT_DEPTH)"
  shows "pairs_ok d s ar p kvs i (if ek = GG_ERR_OK then GG_ERR_RANGE else ek, s, ar0, obj)"
proof -
  have "claim_step ar (need_kv (kvs ! i) + n) (if ek = GG_ERR_OK then GG_ERR_RANGE else ek) ar0" for n
    by (rule claim_step_err [OF claim_step_mono [OF k(1)]]) auto
  then show ?thesis
    using i k(2,3) within_limits_depth [of "Suc d" s "snd (kvs ! i)"]
    by (auto simp: pairs_ok_def drop_cons)
qed

lemma claim_list_ok:
  assumes inv: "opt_inv ar" and d: "Suc d \<le> GG_MAX_OBJECT_DEPTH" and s: "s \<le> GG_MAX_OBJECT_SUBOBJECTS"
    and items: "\<And>ar1 p'. length xs \<le> GG_MAX_OBJECT_SUBOBJECTS - s \<Longrightarrow>
      call2 (on_list h) ar (p, xs) (OBJ_LIST p xs) = (GG_ERR_OK, ar1, OBJ_LIST p' xs) \<Longrightarrow> opt_inv ar1 \<Longrightarrow>
      items_ok d (s + length xs) ar1 p' xs 0 (visit_items h d (s + length xs) ar1 (OBJ_LIST p' xs) 0)"
  shows "claim_ok d s ar (OBJ_LIST p xs) (visit_obj h d s ar (OBJ_LIST p xs))"
proof -
  obtain e ar1 obj1 where call: "call2 (on_list h) ar (p, xs) (OBJ_LIST p xs) = (e, ar1, obj1)"
    by (cases "call2 (on_list h) ar (p, xs) (OBJ_LIST p xs)")
  show ?thesis
  proof (cases "length xs \<le> GG_MAX_OBJECT_SUBOBJECTS - s")
    case True
    then have len: "length xs \<le> GG_MAX_OBJECT_SUBOBJECTS" using s by linarith
    note lc = list_call [OF inv len call]
    show ?thesis
    proof (cases "e = GG_ERR_OK")
      case ok: True
      then obtain p' where obj1: "obj1 = OBJ_LIST p' xs" "all \<longrightarrow> gg_arena_owns ar p' \<or> xs = []"
        using lc by blast
      have own: "gg_arena_owns ar1 = gg_arena_owns ar" using lc claim_step_owns by blast
      have "items_ok d (s + length xs) ar1 p' xs 0 (visit_items h d (s + length xs) ar1 (OBJ_LIST p' xs) 0)"
        using items [OF True] call ok obj1 lc claim_step_inv by auto
      moreover obtain e2 s2 ar2 obj2 where
          "visit_items h d (s + length xs) ar1 (OBJ_LIST p' xs) 0 = (e2, s2, ar2, obj2)"
        by (cases "visit_items h d (s + length xs) ar1 (OBJ_LIST p' xs) 0")
      ultimately show ?thesis
        using call True ok obj1 lc d claim_step_trans [of ar "length xs * lsz" ar1]
        by (auto simp: claim_ok_def items_ok_def within_list own)
    next
      case False
      then show ?thesis
        using call True lc claim_step_mono [of ar "length xs * lsz" e ar1]
        by (auto simp: claim_ok_def)
    qed
  next
    case False
    then show ?thesis using inv d
      by (auto simp: claim_ok_def claim_step_refl within_list items_within_def)
  qed
qed

lemma claim_map_ok:
  assumes inv: "opt_inv ar" and d: "Suc d \<le> GG_MAX_OBJECT_DEPTH" and s: "s \<le> GG_MAX_OBJECT_SUBOBJECTS"
    and pairs: "\<And>ar1 p'. 2 * length kvs \<le> GG_MAX_OBJECT_SUBOBJECTS - s \<Longrightarrow>
      call2 (on_map h) ar (p, kvs) (OBJ_MAP p kvs) = (GG_ERR_OK, ar1, OBJ_MAP p' kvs) \<Longrightarrow> opt_inv ar1 \<Longrightarrow>
      pairs_ok d (s + 2 * length kvs) ar1 p' kvs 0 (visit_pairs h d (s + 2 * length kvs) ar1 (OBJ_MAP p' kvs) 0)"
  shows "claim_ok d s ar (OBJ_MAP p kvs) (visit_obj h d s ar (OBJ_MAP p kvs))"
proof -
  obtain e ar1 obj1 where call: "call2 (on_map h) ar (p, kvs) (OBJ_MAP p kvs) = (e, ar1, obj1)"
    by (cases "call2 (on_map h) ar (p, kvs) (OBJ_MAP p kvs)")
  show ?thesis
  proof (cases "2 * length kvs \<le> GG_MAX_OBJECT_SUBOBJECTS - s")
    case True
    then have len: "length kvs \<le> GG_MAX_OBJECT_SUBOBJECTS" using s by linarith
    note lc = map_call [OF inv len call]
    show ?thesis
    proof (cases "e = GG_ERR_OK")
      case ok: True
      then obtain p' where obj1: "obj1 = OBJ_MAP p' kvs" "all \<longrightarrow> gg_arena_owns ar p' \<or> kvs = []"
        using lc by blast
      have own: "gg_arena_owns ar1 = gg_arena_owns ar" using lc claim_step_owns by blast
      have "pairs_ok d (s + 2 * length kvs) ar1 p' kvs 0 (visit_pairs h d (s + 2 * length kvs) ar1 (OBJ_MAP p' kvs) 0)"
        using pairs [OF True] call ok obj1 lc claim_step_inv by auto
      moreover obtain e2 s2 ar2 obj2 where
          "visit_pairs h d (s + 2 * length kvs) ar1 (OBJ_MAP p' kvs) 0 = (e2, s2, ar2, obj2)"
        by (cases "visit_pairs h d (s + 2 * length kvs) ar1 (OBJ_MAP p' kvs) 0")
      ultimately show ?thesis
        using call True ok obj1 lc d claim_step_trans [of ar "length kvs * ksz" ar1]
        by (auto simp: claim_ok_def pairs_ok_def within_map own comp_def)
    next
      case False
      then show ?thesis
        using call True lc claim_step_mono [of ar "length kvs * ksz" e ar1]
        by (auto simp: claim_ok_def)
    qed
  next
    case False
    then show ?thesis using inv d
      by (auto simp: claim_ok_def claim_step_refl within_map items_within_def)
  qed
qed

lemma visit_claims:
  "g = h \<Longrightarrow> opt_inv ar \<Longrightarrow> bufs_wf obj \<Longrightarrow> Suc d \<le> GG_MAX_OBJECT_DEPTH \<Longrightarrow>
     s \<le> GG_MAX_OBJECT_SUBOBJECTS \<Longrightarrow> claim_ok d s ar obj (visit_obj g d s ar obj)"
  "g = h \<Longrightarrow> opt_inv ar \<Longrightarrow> gg_obj_type obj = GG_TYPE_LIST \<Longrightarrow>
     list_all bufs_wf (drop i (snd (gg_obj_into_list obj))) \<Longrightarrow> Suc d \<le> GG_MAX_OBJECT_DEPTH \<Longrightarrow>
     s \<le> GG_MAX_OBJECT_SUBOBJECTS \<Longrightarrow>
     items_ok d s ar (fst (gg_obj_into_list obj)) (snd (gg_obj_into_list obj)) i (visit_items g d s ar obj i)"
  "g = h \<Longrightarrow> opt_inv ar \<Longrightarrow> gg_obj_type obj = GG_TYPE_MAP \<Longrightarrow>
     list_all (\<lambda>kv. len (fst kv) \<le> UINT16_MAX \<and> bufs_wf (snd kv)) (drop i (snd (gg_obj_into_map obj))) \<Longrightarrow>
     Suc d \<le> GG_MAX_OBJECT_DEPTH \<Longrightarrow> s \<le> GG_MAX_OBJECT_SUBOBJECTS \<Longrightarrow>
     pairs_ok d s ar (fst (gg_obj_into_map obj)) (snd (gg_obj_into_map obj)) i (visit_pairs g d s ar obj i)"
proof (induction g d s ar obj and g d s ar obj i and g d s ar obj i
    rule: visit_obj_visit_items_visit_pairs.induct)
  case (1 g d s ar p xs)
  show ?case unfolding 1(2)
  proof (rule claim_list_ok [OF 1(3,5,6)])
    fix ar1 p'
    assume "length xs \<le> GG_MAX_OBJECT_SUBOBJECTS - s" "opt_inv ar1"
      and call: "call2 (on_list h) ar (p, xs) (OBJ_LIST p xs) = (GG_ERR_OK, ar1, OBJ_LIST p' xs)"
    then show "items_ok d (s + length xs) ar1 p' xs 0 (visit_items h d (s + length xs) ar1 (OBJ_LIST p' xs) 0)"
      using 1(1) [unfolded 1(2), OF _ call [symmetric] refl] 1(4-6) by auto
  qed
next
  case (2 g d s ar p kvs)
  show ?case unfolding 2(2)
  proof (rule claim_map_ok [OF 2(3,5,6)])
    fix ar1 p'
    assume "2 * length kvs \<le> GG_MAX_OBJECT_SUBOBJECTS - s" "opt_inv ar1"
      and call: "call2 (on_map h) ar (p, kvs) (OBJ_MAP p kvs) = (GG_ERR_OK, ar1, OBJ_MAP p' kvs)"
    then show "pairs_ok d (s + 2 * length kvs) ar1 p' kvs 0
        (visit_pairs h d (s + 2 * length kvs) ar1 (OBJ_MAP p' kvs) 0)"
      using 2(1) [unfolded 2(2), OF _ call [symmetric] refl] 2(4-6) by auto
  qed
next
  case (3 g d s ar v)
  then show ?case by (auto intro!: claim_buf_ok split: prod.split)
next
  case (8 g d s ar p xs i)
  note [simp] = 8(3)
  show ?case
  proof (cases "i \<ge> length xs \<or> Suc d \<ge> GG_MAX_OBJECT_DEPTH")
    case True
    then show ?thesis using items_ok_stop [OF 8(4) True]
      by (subst visit_items_list) (auto split: if_splits)
  next
    case False
    obtain e s1 ar1 x where v: "visit_obj h (Suc d) s ar (xs ! i) = (e, s1, ar1, x)"
      by (cases "visit_obj h (Suc d) s ar (xs ! i)")
    have x: "claim_ok (Suc d) s ar (xs ! i) (e, s1, ar1, x)"
      using 8(1) [of GG_ERR_OK ar] 8(4-8) False v by (simp add: drop_cons)
    have eq: "visit_items h d s ar (OBJ_LIST p xs) i =
        (if e \<noteq> GG_ERR_OK then (e, s1, ar1, OBJ_LIST p (xs[i := x]))
         else visit_items h d s1 ar1 (OBJ_LIST p (xs[i := x])) (Suc i))"
      using False v by (subst visit_items_list) (cases "i = 0"; simp)
    show ?thesis
    proof (cases "e = GG_ERR_OK")
      case True
      have "opt_inv ar1" "s1 \<le> GG_MAX_OBJECT_SUBOBJECTS"
        using x claim_step_inv subobjects_bound(1) [OF 8(8), of h "Suc d" ar "xs ! i"] v
        by (auto simp: claim_ok_def)
      then have "items_ok d s1 ar1 p (xs[i := x]) (Suc i) (visit_items h d s1 ar1 (OBJ_LIST p (xs[i := x])) (Suc i))"
        using 8(2) [unfolded 8(3), of GG_ERR_OK ar, OF _ _ _ _ v [symmetric] refl refl] True False 8(6,7)
        by (auto simp: drop_cons)
      with items_ok_step [of i xs d s ar s1 ar1 x p] x True False eq show ?thesis by simp
    next
      case err: False
      with items_ok_fail [of i xs d s ar e s1 ar1 x p] x False eq show ?thesis by simp
    qed
  qed
next
  case (10 g d s ar p kvs i)
  note [simp] = 10(3)
  obtain ek ar0 kv where key: "claim_map_key ar (fst (kvs ! i)) (kvs ! i) = (ek, ar0, kv)"
    by (cases "claim_map_key ar (fst (kvs ! i)) (kvs ! i)")
  show ?case
  proof (cases "i < length kvs")
    case True
    then have "len (fst (kvs ! i)) \<le> UINT16_MAX" using 10(6) by (simp add: drop_cons)
    note ks = claim_key_spec [OF 10(4) this key]
    show ?thesis
    proof (cases "ek = GG_ERR_OK \<and> Suc d < GG_MAX_OBJECT_DEPTH")
      case ok: True
      obtain e s1 ar1 x where v: "visit_obj h (Suc d) s ar0 (snd kv) = (e, s1, ar1, x)"
        by (cases "visit_obj h (Suc d) s ar0 (snd kv)")
      have call: "call2 (on_map_key h) ar (fst (kvs ! i)) (kvs ! i) = (GG_ERR_OK, ar0, kv)"
        using key ok by simp
      have x: "claim_ok (Suc d) s ar0 (snd kv) (e, s1, ar1, x)"
        using 10(1) [unfolded 10(3), of GG_ERR_OK ar, OF _ _ _ call [symmetric] refl] 10(4-8) True ok v ks claim_step_inv
        by (auto simp: drop_cons)
      have eq: "visit_pairs h d s ar (OBJ_MAP p kvs) i =
          (if e \<noteq> GG_ERR_OK then (e, s1, ar1, OBJ_MAP p (kvs[i := (fst kv, x)]))
           else visit_pairs h d s1 ar1 (OBJ_MAP p (kvs[i := (fst kv, x)])) (Suc i))"
        using True ok v key by (subst visit_pairs_map) (cases "i = 0"; simp)
      show ?thesis
      proof (cases "e = GG_ERR_OK")
        case e: True
        have "opt_inv ar1" "s1 \<le> GG_MAX_OBJECT_SUBOBJECTS"
          using x claim_step_inv subobjects_bound(1) [OF 10(8), of h "Suc d" ar0 "snd kv"] v
          by (auto simp: claim_ok_def)
        then have "pairs_ok d s1 ar1 p (kvs[i := (fst kv, x)]) (Suc i)
            (visit_pairs h d s1 ar1 (OBJ_MAP p (kvs[i := (fst kv, x)])) (Suc i))"
          using 10(2) [unfolded 10(3), of GG_ERR_OK ar, OF _ _ _ call [symmetric] refl _ _ v [symmetric] refl refl]
            True ok e 10(6,7) by (auto simp: drop_cons)
        with pairs_ok_step [of i kvs ar ar0 kv d s s1 ar1 x p] ks x True ok e eq show ?thesis by simp
      next
        case False
        with pairs_ok_fail [of i kvs ar ar0 kv d s e s1 ar1 x p] ks x True ok eq show ?thesis by simp
      qed
    next
      case False
      let ?e = "if ek = GG_ERR_OK then GG_ERR_RANGE else ek"
      have "visit_pairs h d s ar (OBJ_MAP p kvs) i = (?e, s, ar0, OBJ_MAP p (kvs[i := kv]))"
        using False True key by (subst visit_pairs_map) (cases "i = 0"; cases "ek = GG_ERR_OK"; simp)
      then show ?thesis using pairs_ok_key [OF True ks(1,2) False] by simp
    qed
  next
    case False
    then show ?thesis using pairs_ok_stop [OF 10(4), of kvs i d s p]
      by (subst visit_pairs_map) auto
  qed
qed (auto simp: claim_ok_def claim_step_refl)

lemma gg_obj_visit_claims:
  assumes "opt_inv ar" "bufs_wf obj"
  shows "\<exists>e ar' obj'. gg_obj_visit h ar obj = Some (e, ar', obj') \<and>
    claim_step ar (need lsz ksz obj) e ar' \<and> status_ok e \<and>
    (e = GG_ERR_RANGE \<longrightarrow> \<not> within_limits 0 0 obj) \<and>
    (e = GG_ERR_OK \<longrightarrow> strip obj' = strip obj \<and> claimed all (gg_arena_owns ar) obj')"
  using visit_claims(1) [of h ar obj 0 0] assms
  by (auto simp: gg_obj_visit_eq claim_ok_def GG_MAX_OBJECT_DEPTH_def split: prod.splits)

end

section \<open>Interpretations\<close>

lemma gg_obj_list_small: "length xs \<le> GG_MAX_OBJECT_SUBOBJECTS \<Longrightarrow> gg_obj_list (p, xs) = OBJ_LIST p xs"
  by (simp add: gg_obj_list_def UINT16_MAX_def GG_MAX_OBJECT_SUBOBJECTS_def)

lemma claim_list_call:
  assumes "opt_inv ar" "length xs \<le> GG_MAX_OBJECT_SUBOBJECTS" "claim_list ar (p, xs) (OBJ_LIST p xs) = (e, ar', obj)"
  shows "claim_step ar (length xs * sizeof_GgObject) e ar' \<and> (e = GG_ERR_OK \<or> e = GG_ERR_NOMEM) \<and>
      (e = GG_ERR_OK \<longrightarrow> (\<exists>p'. obj = OBJ_LIST p' xs \<and> (True \<longrightarrow> gg_arena_owns ar p' \<or> xs = [])))"
proof (cases "gg_arena_owns ar p \<or> xs = []")
  case True
  then show ?thesis using assms
    by (auto simp: claim_list_def claim_step_refl gg_obj_list_small split: if_splits)
next
  case False
  then have "0 < length xs * sizeof_GgObject" by (simp add: sizeof_GgObject_def)
  from alloc_claim_step [OF assms(1) _ this] False show ?thesis using assms(2,3)
    by (fastforce simp: claim_list_def gg_obj_list_small split: prod.splits option.splits)
qed

lemma claim_map_call:
  assumes "opt_inv ar" "length kvs \<le> GG_MAX_OBJECT_SUBOBJECTS" "claim_map ar (p, kvs) (OBJ_MAP p kvs) = (e, ar', obj)"
  shows "claim_step ar (length kvs * sizeof_GgKV) e ar' \<and> (e = GG_ERR_OK \<or> e = GG_ERR_NOMEM) \<and>
      (e = GG_ERR_OK \<longrightarrow> (\<exists>p'. obj = OBJ_MAP p' kvs \<and> (True \<longrightarrow> gg_arena_owns ar p' \<or> kvs = [])))"
proof (cases "gg_arena_owns ar p \<or> kvs = []")
  case True
  then show ?thesis using assms
    by (auto simp: claim_map_def claim_step_refl gg_obj_map_small split: if_splits)
next
  case False
  then have "0 < length kvs * sizeof_GgKV" by (simp add: sizeof_GgKV_def)
  from alloc_claim_step [OF assms(1) _ this] False show ?thesis using assms(2,3)
    by (fastforce simp: claim_map_def gg_obj_map_small split: prod.splits option.splits)
qed

interpretation claim_obj: claiming claim_handlers True sizeof_GgObject sizeof_GgKV
proof
  fix ar p xs ar' obj
  assume "call2 (on_list claim_handlers) ar (p, xs) (OBJ_LIST p xs) = (GG_ERR_OK, ar', obj)"
  then show "\<exists>p' xs'. obj = OBJ_LIST p' xs' \<and> length xs' \<le> length xs"
    by (auto simp: claim_handlers_def claim_list_def gg_obj_list_def split: if_splits prod.splits option.splits)
next
  fix ar p kvs ar' obj
  assume "call2 (on_map claim_handlers) ar (p, kvs) (OBJ_MAP p kvs) = (GG_ERR_OK, ar', obj)"
  then show "\<exists>p' kvs'. obj = OBJ_MAP p' kvs' \<and> length kvs' \<le> length kvs"
    by (auto simp: claim_handlers_def claim_map_def gg_obj_map_def split: if_splits prod.splits option.splits)
next
  fix ar p xs e ar' obj
  assume "opt_inv ar" "length xs \<le> GG_MAX_OBJECT_SUBOBJECTS"
    "call2 (on_list claim_handlers) ar (p, xs) (OBJ_LIST p xs) = (e, ar', obj)"
  then show "claim_step ar (length xs * sizeof_GgObject) e ar' \<and> (e = GG_ERR_OK \<or> e = GG_ERR_NOMEM) \<and>
      (e = GG_ERR_OK \<longrightarrow> (\<exists>p'. obj = OBJ_LIST p' xs \<and> (True \<longrightarrow> gg_arena_owns ar p' \<or> xs = [])))"
    using claim_list_call by (simp add: claim_handlers_def)
next
  fix ar p kvs e ar' obj
  assume "opt_inv ar" "length kvs \<le> GG_MAX_OBJECT_SUBOBJECTS"
    "call2 (on_map claim_handlers) ar (p, kvs) (OBJ_MAP p kvs) = (e, ar', obj)"
  then show "claim_step ar (length kvs * sizeof_GgKV) e ar' \<and> (e = GG_ERR_OK \<or> e = GG_ERR_NOMEM) \<and>
      (e = GG_ERR_OK \<longrightarrow> (\<exists>p'. obj = OBJ_MAP p' kvs \<and> (True \<longrightarrow> gg_arena_owns ar p' \<or> kvs = [])))"
    using claim_map_call by (simp add: claim_handlers_def)
qed (auto simp: claim_handlers_def no_handlers_def)

interpretation claim_bufs: claiming claim_bufs_handlers False 0 0
  by unfold_locales (auto simp: claim_bufs_handlers_def no_handlers_def claim_step_refl)

section \<open>Properties of claiming\<close>

text \<open>
  C1: \<open>gg_arena_claim_obj\<close> always returns. If it succeeds, the object has the same contents and
  every non-empty buffer, key, list and map of it lies in the arena. If \<open>gg_obj_mem_usage\<close>
  reports at most the bytes the arena has left, it succeeds, and it never uses more than that.
\<close>

theorem gg_arena_claim_obj_correct:
  assumes inv: "arena_inv a" and wf: "bufs_wf obj"
  shows "\<exists>e a' obj'. gg_arena_claim_obj obj (Some a) = Some (e, Some a', obj') \<and>
    arena_inv a' \<and> capacity a' = capacity a \<and>
    unat (index a') \<le> unat (index a) + mem_size obj \<and>
    (e = GG_ERR_OK \<longrightarrow> strip obj' = strip obj \<and> claimed True (gg_arena_owns (Some a)) obj') \<and>
    (\<forall>n. gg_obj_mem_usage obj = Some (Inr n) \<longrightarrow> unat (index a) + n \<le> unat (capacity a) \<longrightarrow> e = GG_ERR_OK)"
proof -
  obtain e ar' obj' where v: "gg_obj_visit claim_handlers (Some a) obj = Some (e, ar', obj')"
    and cs: "claim_step (Some a) (mem_size obj) e ar'"
    and st: "e = GG_ERR_OK \<or> e = GG_ERR_NOMEM \<or> e = GG_ERR_RANGE"
    and rg: "e = GG_ERR_RANGE \<longrightarrow> \<not> within_limits 0 0 obj"
    and ok: "e = GG_ERR_OK \<longrightarrow> strip obj' = strip obj \<and> claimed True (gg_arena_owns (Some a)) obj'"
    using claim_obj.gg_obj_visit_claims [of "Some a" obj] inv wf by (auto simp: need_mem_size)
  then obtain a' where "ar' = Some a'" by (auto simp: claim_step_def)
  moreover from this cs have "capacity a' = capacity a" by (simp add: claim_step_def unat_eq)
  ultimately show ?thesis
    using v cs st rg ok
    by (auto simp: gg_arena_claim_obj_def claim_step_def gg_obj_mem_usage_eq within_limits_def split: if_splits)
qed

theorem gg_arena_claim_obj_correct_witness:
  "\<exists>a' obj'. gg_arena_claim_obj (OBJ_LIST 7 [OBJ_BUF \<lparr>data = 9, mem = [1, 2, 3]\<rparr>, OBJ_I64 5])
       (Some \<lparr>arena_mem = 1000, capacity = 32, index = 4\<rparr>) = Some (GG_ERR_OK, Some a', obj') \<and>
     unat (index a') \<le> 29 \<and>
     claimed True (gg_arena_owns (Some \<lparr>arena_mem = 1000, capacity = 32, index = 4\<rparr>)) obj'"
proof -
  let ?a = "\<lparr>arena_mem = 1000, capacity = 32, index = 4\<rparr>"
  let ?obj = "OBJ_LIST 7 [OBJ_BUF \<lparr>data = 9, mem = [1, 2, 3]\<rparr>, OBJ_I64 5]"
  have m: "mem_size ?obj = 25" and u: "gg_obj_mem_usage ?obj = Some (Inr 25)"
    by (simp_all add: gg_obj_mem_usage_eq sizeof_GgObject_def sizeof_ptr_def GG_MAX_OBJECT_DEPTH_def
        GG_MAX_OBJECT_SUBOBJECTS_def)
  have "arena_inv ?a" "bufs_wf ?obj" by (simp_all add: arena_inv_def UINT16_MAX_def)
  from gg_arena_claim_obj_correct [OF this, unfolded m u] show ?thesis by force
qed

text \<open>
  \<open>gg_arena_claim_obj_bufs\<close> always returns; on success the object has the same contents and
  every non-empty buffer and key lies in the arena (the arrays of lists and maps are not
  copied), and it cannot run out of memory if \<open>gg_obj_mem_usage\<close> bytes are left.
\<close>

theorem gg_arena_claim_obj_bufs_correct:
  assumes inv: "arena_inv a" and wf: "bufs_wf obj"
  shows "\<exists>e a' obj'. gg_arena_claim_obj_bufs obj (Some a) = Some (e, Some a', obj') \<and>
    arena_inv a' \<and> unat (index a') \<le> unat (index a) + need 0 0 obj \<and>
    (e = GG_ERR_OK \<longrightarrow> strip obj' = strip obj \<and> claimed False (gg_arena_owns (Some a)) obj') \<and>
    (\<forall>n. gg_obj_mem_usage obj = Some (Inr n) \<longrightarrow> unat (index a) + n \<le> unat (capacity a) \<longrightarrow> e = GG_ERR_OK)"
proof -
  obtain e ar' obj' where v: "gg_obj_visit claim_bufs_handlers (Some a) obj = Some (e, ar', obj')"
    and cs: "claim_step (Some a) (need 0 0 obj) e ar'"
    and st: "e = GG_ERR_OK \<or> e = GG_ERR_NOMEM \<or> e = GG_ERR_RANGE"
    and rg: "e = GG_ERR_RANGE \<longrightarrow> \<not> within_limits 0 0 obj"
    and ok: "e = GG_ERR_OK \<longrightarrow> strip obj' = strip obj \<and> claimed False (gg_arena_owns (Some a)) obj'"
    using claim_bufs.gg_obj_visit_claims [of "Some a" obj] inv wf by auto
  then obtain a' where "ar' = Some a'" by (auto simp: claim_step_def)
  then show ?thesis
    using v cs st rg ok need_le [of obj]
    by (auto simp: gg_arena_claim_obj_bufs_def claim_step_def gg_obj_mem_usage_eq within_limits_def split: if_splits)
qed

theorem gg_arena_claim_obj_bufs_correct_witness:
  "\<exists>e a' obj'. gg_arena_claim_obj_bufs (OBJ_BUF \<lparr>data = 9, mem = [1, 2, 3]\<rparr>)
       (Some \<lparr>arena_mem = 1000, capacity = 32, index = 4\<rparr>) = Some (e, Some a', obj') \<and>
     unat (index a') \<le> 7"
  using gg_arena_claim_obj_bufs_correct [of "\<lparr>arena_mem = 1000, capacity = 32, index = 4\<rparr>"
      "OBJ_BUF \<lparr>data = 9, mem = [1, 2, 3]\<rparr>"]
  by (force simp: arena_inv_def UINT16_MAX_def)

end
