(* ===== verification/Json_Decode.thy ===== *)
theory Json_Decode
  imports Json_Parser Arena
begin

text \<open>
  JSON decoding (\<open>priv_include/gg/json_decode.h\<close>, \<open>src/json_decode.c\<close>): unescaping of strings
  in place, numbers, and the construction of objects in an arena.

  The input buffer is modified, so the decoder works on an explicit memory \<open>heap\<close> of bytes, and
  a buffer is a span of addresses; an object that refers to the input carries the address and
  the bytes found there when it was made. The arrays of elements and pairs are allocated in the
  arena; each is a list of as many slots as its allocation holds, a store into a slot it does not
  have is undefined behaviour (the value \<open>None\<close>), and the filled array is part of the object tree.
  Input and arena are separate memory: a store into an array does not change the bytes of the
  input. \<open>strtod\<close> is a parameter: a function of the bytes from the given address on to the value and
  whether it reports \<open>ERANGE\<close>. It does not know where the buffer ends, so it may look at bytes
  behind the input; the model gives it the memory there but does not record what it reads.

  The recursion of \<open>take_json_val\<close> is bounded by a fuel argument that decreases per nesting
  level; \<open>gg_json_decode_destructive\<close> starts it with the length of the input plus one, which is
  enough because the content of a list or object is shorter than its text. Running out of
  fuel, a parser that never returns and a store outside an array are all the value \<open>None\<close>; it is
  shown not to arise.
\<close>

section \<open>Memory\<close>

type_synonym heap = "ptr \<Rightarrow> byte"
type_synonym span = "ptr \<times> nat"

definition view :: "heap \<Rightarrow> span \<Rightarrow> GgBuffer" where
  "view h b = \<lparr>data = fst b, mem = map h [fst b..<fst b + snd b]\<rparr>"

definition span_of :: "GgBuffer \<Rightarrow> span" where
  "span_of buf = (data buf, len buf)"

definition heap_write :: "heap \<Rightarrow> ptr \<Rightarrow> byte list \<Rightarrow> heap" where
  "heap_write h p bs = (\<lambda>a. if p \<le> a \<and> a < p + length bs then bs ! (a - p) else h a)"

definition advance :: "span \<Rightarrow> nat \<Rightarrow> span" where
  \<comment> \<open>\<open>gg_buffer_substr(buf, n, SIZE_MAX)\<close>\<close>
  "advance b n = (fst b + min n (snd b), snd b - n)"

section \<open>Strings\<close>

definition hex_char_to_byte :: "byte \<Rightarrow> byte option" where
  "hex_char_to_byte c =
     (if c \<ge> chr CHR ''0'' \<and> c \<le> chr CHR ''9'' then Some (c - 48)
      else if c \<ge> chr CHR ''A'' \<and> c \<le> chr CHR ''F'' then Some (c - 65 + 10)
      else if c \<ge> chr CHR ''a'' \<and> c \<le> chr CHR ''f'' then Some (c - 97 + 10)
      else None)"

definition get_uint16_from_hex4 :: "heap \<Rightarrow> ptr \<Rightarrow> 16 word option" where
  "get_uint16_from_hex4 h p =
     Option.bind (hex_char_to_byte (h p)) (\<lambda>b0.
     Option.bind (hex_char_to_byte (h (p + 1))) (\<lambda>b1.
     Option.bind (hex_char_to_byte (h (p + 2))) (\<lambda>b2.
     Option.bind (hex_char_to_byte (h (p + 3))) (\<lambda>b3.
     Some (ucast (push_bit 12 (ucast b0 :: u32) OR push_bit 8 (ucast b1) OR push_bit 4 (ucast b2) OR ucast b3))))))"

definition write_codepoint_utf8 :: "u32 \<Rightarrow> byte list option" where
  \<comment> \<open>the bytes written at \<open>*write_ptr\<close>, which is moved behind them\<close>
  "write_codepoint_utf8 code_point =
     (if code_point \<le> 0x7F then Some [ucast code_point]
      else if code_point \<le> 0x7FF
      then Some [0b11000000 + ucast (drop_bit 6 code_point), 0b10000000 + ucast (code_point AND 0b00111111)]
      else if code_point \<le> 0xFFFF
      then Some [0b11100000 + ucast (drop_bit 12 code_point), 0b10000000 + ucast (drop_bit 6 code_point AND 0b00111111),
                 0b10000000 + ucast (code_point AND 0b00111111)]
      else if code_point \<le> 0x1FFFFF
      then Some [0b11110000 + ucast (drop_bit 18 code_point), 0b10000000 + ucast (drop_bit 12 code_point AND 0b00111111),
                 0b10000000 + ucast (drop_bit 6 code_point AND 0b00111111), 0b10000000 + ucast (code_point AND 0b00111111)]
      else None)"

definition str_conv_handle_utf16_escape :: "heap \<Rightarrow> span \<Rightarrow> (byte list \<times> span) option" where
  \<comment> \<open>the bytes written and the rest of the buffer\<close>
  "str_conv_handle_utf16_escape h buf =
     (if snd buf < 6 \<or> h (fst buf) \<noteq> 92 \<or> h (fst buf + 1) \<noteq> chr CHR ''u'' then None
      else
        Option.bind (get_uint16_from_hex4 h (fst buf + 2)) (\<lambda>code_value.
        let buf = advance buf 6 in
        if code_value \<ge> 0xD800 \<and> code_value \<le> 0xDBFF
        then
          (if snd buf < 6 \<or> h (fst buf) \<noteq> 92 \<or> h (fst buf + 1) \<noteq> chr CHR ''u'' then None
           else
             Option.bind (get_uint16_from_hex4 h (fst buf + 2)) (\<lambda>low_surrogate.
             if low_surrogate < 0xDC00 \<or> low_surrogate > 0xDFFF then None
             else
               (let code_point = (push_bit 10 ((ucast code_value :: u32) - 0xD800) + (ucast low_surrogate - 0xDC00)) + 0x10000
                in map_option (\<lambda>bs. (bs, advance buf 6)) (write_codepoint_utf8 code_point))))
        else if code_value \<ge> 0xDC00 \<and> code_value \<le> 0xDFFF then None
        else map_option (\<lambda>bs. (bs, buf)) (write_codepoint_utf8 (ucast code_value))))"

definition str_conv_handle_escape :: "heap \<Rightarrow> span \<Rightarrow> (byte list \<times> span) option" where
  "str_conv_handle_escape h buf =
     (if snd buf < 2 \<or> h (fst buf) \<noteq> 92 then None
      else if h (fst buf + 1) = chr CHR ''u'' then str_conv_handle_utf16_escape h buf
      else
        (let c = h (fst buf + 1) in
         map_option (\<lambda>c. ([c], advance buf 2))
           (if c = 34 \<or> c = 92 \<or> c = chr CHR ''/'' then Some c
            else if c = chr CHR ''b'' then Some 8
            else if c = chr CHR ''f'' then Some 12
            else if c = chr CHR ''n'' then Some 10
            else if c = chr CHR ''r'' then Some 13
            else if c = chr CHR ''t'' then Some 9
            else None)))"

lemma utf16_escape_shorter: "str_conv_handle_utf16_escape h buf = Some (bs, buf') \<Longrightarrow> snd buf' < snd buf"
  by (auto simp: str_conv_handle_utf16_escape_def bind_eq_Some_conv advance_def Let_def split: if_splits)

lemma escape_shorter: "str_conv_handle_escape h buf = Some (bs, buf') \<Longrightarrow> snd buf' < snd buf"
  by (auto simp: str_conv_handle_escape_def advance_def Let_def dest: utf16_escape_shorter split: if_splits)

function unescape_loop :: "heap \<Rightarrow> span \<Rightarrow> ptr \<Rightarrow> heap \<times> ptr option" where
  \<comment> \<open>the memory and, on success, \<open>write_ptr\<close> at the end\<close>
  "unescape_loop h buf write_ptr =
     (if snd buf > 0
      then if h (fst buf) = 92
           then (case str_conv_handle_escape h buf of
                   None \<Rightarrow> (h, None)
                 | Some (bs, buf') \<Rightarrow> unescape_loop (heap_write h write_ptr bs) buf' (write_ptr + length bs))
           else unescape_loop (heap_write h write_ptr [h (fst buf)]) (advance buf 1) (write_ptr + 1)
      else (h, Some write_ptr))"
  by pat_completeness auto
termination
  by (relation "measure (\<lambda>(h, buf, _). snd buf)") (auto simp: advance_def dest: escape_shorter)

declare unescape_loop.simps [simp del]

definition unescape_string :: "heap \<Rightarrow> span \<Rightarrow> heap \<times> span option" where
  \<comment> \<open>the memory and, on success, \<open>*str\<close>\<close>
  "unescape_string h str =
     (case unescape_loop h str (fst str) of
        (h', None) \<Rightarrow> (h', None)
      | (h', Some write_ptr) \<Rightarrow> (h', Some (fst str, write_ptr - fst str)))"

definition decode_json_str :: "heap \<Rightarrow> span \<Rightarrow> bool \<Rightarrow> heap \<times> GgObject option res" where
  \<comment> \<open>the flag says whether \<open>obj\<close> is not NULL; on success, what is written through it\<close>
  "decode_json_str h str want =
     (case unescape_string h str of
        (h', None) \<Rightarrow> (h', Inl GG_ERR_PARSE)
      | (h', Some str') \<Rightarrow> (h', Inr (if want then Some (gg_obj_buf (view h' str')) else None)))"

section \<open>Numbers\<close>

type_synonym strtod_fn = "(nat \<Rightarrow> byte) \<Rightarrow> f64 \<times> bool"

definition decode_json_number :: "strtod_fn \<Rightarrow> heap \<Rightarrow> span \<Rightarrow> bool \<Rightarrow> GgObject option res option" where
  "decode_json_number strtod h str want =
     Option.bind (parser_call PARSER_INT_PART (view h str) None) (\<lambda>(result, buf, _).
     if \<not> result then Some (Inl GG_ERR_PARSE)
     else
       Option.bind (parser_call PARSER_FRAC_PART buf None) (\<lambda>(has_frac_part, buf, _).
       Option.bind (parser_call PARSER_EXPONENT buf None) (\<lambda>(has_exp_part, buf, _).
       if \<not> has_frac_part \<and> \<not> has_exp_part
       then
         Some (case gg_str_to_int64 (view h str) of
                 Inl parse_ret \<Rightarrow> Inl parse_ret
               | Inr val \<Rightarrow> Inr (if want then Some (OBJ_I64 (of_int val)) else None))
       else
         Some (case strtod (\<lambda>i. h (fst str + i)) of (val, erange) \<Rightarrow>
                 if erange then Inl GG_ERR_RANGE
                 else Inr (if want then Some (OBJ_F64 val) else None)))))"

section \<open>Values\<close>

type_synonym json_result = "heap \<times> GgArena \<times> (span \<times> GgObject option) res"
type_synonym json_take = "heap \<Rightarrow> GgArena \<Rightarrow> span \<Rightarrow> bool \<Rightarrow> json_result option"

definition alloc_items :: "GgArena \<Rightarrow> nat \<Rightarrow> bool \<Rightarrow> (ptr \<times> GgArena) option" where
  \<comment> \<open>\<open>GG_ARENA_ALLOCN\<close> for a non-empty result; the address is NULL if nothing is needed\<close>
  "alloc_items arena sz required =
     (if required
      then (case gg_arena_alloc (Some arena) sz 1 of
              (Some p, Some arena') \<Rightarrow> Some (p, arena')
            | _ \<Rightarrow> None)
      else Some (0, arena))"

definition on_slot :: "'a list option \<Rightarrow> nat \<Rightarrow> ('a \<Rightarrow> 'a) \<Rightarrow> 'a list option option" where
  \<comment> \<open>a store into element \<open>i\<close> of an array that was allocated, or none if the pointer to it is NULL. \<open>None\<close>: the
     array has no such element, and the behaviour is undefined\<close>
  "on_slot items i f =
     (case items of
        None \<Rightarrow> Some None
      | Some xs \<Rightarrow> if i < length xs then Some (Some (xs[i := f (xs ! i)])) else None)"

fun array_loop :: "json_take \<Rightarrow> nat \<Rightarrow> nat \<Rightarrow> heap \<Rightarrow> GgArena \<Rightarrow> span \<Rightarrow> GgObject list option \<Rightarrow>
    (heap \<times> GgArena \<times> GgObject list option res) option" where
  \<comment> \<open>\<open>count - i\<close> elements are left, the next one is \<open>items[i]\<close>; \<open>items\<close> is the whole allocated array, or NULL\<close>
  "array_loop take_val 0 i h arena buf items = Some (h, arena, Inr items)"
| "array_loop take_val (Suc k) i h arena buf items =
     Option.bind (take_val h arena buf (items \<noteq> None)) (\<lambda>(h, arena, ret).
     case ret of
       Inl e \<Rightarrow> Some (h, arena, Inl e)
     | Inr (buf, item) \<Rightarrow>
         Option.bind (on_slot items i (\<lambda>x. case item of None \<Rightarrow> x | Some y \<Rightarrow> y)) (\<lambda>items.
         Option.bind (if k \<noteq> 0 then parser_call (PARSER_CHAR (chr CHR '','')) (view h buf) None else Some (True, view h buf, None))
           (\<lambda>(matches, buf, _).
         if \<not> matches then Some (h, arena, Inl GG_ERR_PARSE)
         else array_loop take_val k (Suc i) h arena (span_of buf) items)))"

definition elements :: "nat \<Rightarrow> 'a list option \<Rightarrow> 'a list" where
  \<comment> \<open>the first \<open>cnt\<close> elements of the array behind a pointer\<close>
  "elements cnt items = (case items of None \<Rightarrow> [] | Some xs \<Rightarrow> take cnt xs)"

definition decode_json_array :: "json_take \<Rightarrow> heap \<Rightarrow> GgArena \<Rightarrow> span \<Rightarrow> nat \<Rightarrow> bool \<Rightarrow>
    (heap \<times> GgArena \<times> GgObject option res) option" where
  \<comment> \<open>the allocated bytes hold as many elements as fit; what is in them before does not matter\<close>
  "decode_json_array take_val h arena str cnt want =
     (let sz = cnt * sizeof_GgObject; required = (cnt > 0 \<and> want)
      in case alloc_items arena sz required of
           None \<Rightarrow> Some (h, arena, Inl GG_ERR_NOMEM)
         | Some (p, arena) \<Rightarrow>
             Option.bind (array_loop take_val cnt 0 h arena str
                 (if required then Some (replicate (sz div sizeof_GgObject) OBJ_NULL) else None)) (\<lambda>(h, arena, ret).
             Some (h, arena, map_sum id (\<lambda>items. if want then Some (gg_obj_list (p, elements cnt items)) else None) ret)))"

definition gg_kv_set_key :: "GgBuffer \<Rightarrow> GgKV \<Rightarrow> GgKV" where
  "gg_kv_set_key k kv = ((if len k > UINT16_MAX then k\<lparr>mem := take UINT16_MAX (mem k)\<rparr> else k), snd kv)"

fun object_loop :: "json_take \<Rightarrow> nat \<Rightarrow> nat \<Rightarrow> heap \<Rightarrow> GgArena \<Rightarrow> span \<Rightarrow> GgKV list option \<Rightarrow>
    (heap \<times> GgArena \<times> GgKV list option res) option" where
  "object_loop take_val 0 i h arena buf pairs = Some (h, arena, Inr pairs)"
| "object_loop take_val (Suc k) i h arena buf pairs =
     Option.bind (take_val h arena buf True) (\<lambda>(h, arena, ret).
     case ret of
       Inl e \<Rightarrow> Some (h, arena, Inl e)
     | Inr (buf, key_obj) \<Rightarrow>
     (case key_obj of
        Some (OBJ_BUF k0) \<Rightarrow>
          Option.bind (on_slot pairs i (gg_kv_set_key k0)) (\<lambda>pairs.
          Option.bind (parser_call (PARSER_CHAR (chr CHR '':'')) (view h buf) None) (\<lambda>(matches, buf, _).
          if \<not> matches then Some (h, arena, Inl GG_ERR_PARSE)
          else
            Option.bind (take_val h arena (span_of buf) (pairs \<noteq> None)) (\<lambda>(h, arena, ret).
            case ret of
              Inl e \<Rightarrow> Some (h, arena, Inl e)
            | Inr (buf, item) \<Rightarrow>
                Option.bind (on_slot pairs i (\<lambda>kv. case item of None \<Rightarrow> kv | Some x \<Rightarrow> (fst kv, x))) (\<lambda>pairs.
                Option.bind (if k \<noteq> 0 then parser_call (PARSER_CHAR (chr CHR '','')) (view h buf) None else Some (True, view h buf, None))
                  (\<lambda>(matches, buf, _).
                if \<not> matches then Some (h, arena, Inl GG_ERR_PARSE)
                else object_loop take_val k (Suc i) h arena (span_of buf) pairs)))))
      | _ \<Rightarrow> Some (h, arena, Inl GG_ERR_PARSE)))"

definition decode_json_object :: "json_take \<Rightarrow> heap \<Rightarrow> GgArena \<Rightarrow> span \<Rightarrow> nat \<Rightarrow> bool \<Rightarrow>
    (heap \<times> GgArena \<times> GgObject option res) option" where
  "decode_json_object take_val h arena str cnt want =
     (let sz = cnt * sizeof_GgKV; required = (cnt > 0 \<and> want)
      in case alloc_items arena sz required of
           None \<Rightarrow> Some (h, arena, Inl GG_ERR_NOMEM)
         | Some (p, arena) \<Rightarrow>
             Option.bind (object_loop take_val cnt 0 h arena str
                 (if required then Some (replicate (sz div sizeof_GgKV) (\<lparr>data = 0, mem = []\<rparr>, OBJ_NULL)) else None)) (\<lambda>(h, arena, ret).
             Some (h, arena, map_sum id
               (\<lambda>pairs. if want then Some (gg_obj_map (p, gg_map_canonicalize_shallow (elements cnt pairs))) else None) ret)))"

primrec take_json_val :: "strtod_fn \<Rightarrow> nat \<Rightarrow> json_take" where
  "take_json_val strtod 0 h arena buf want = None"
| "take_json_val strtod (Suc fuel) h arena buf want =
     Option.bind (parser_call PARSER_JSON_VALUE (view h buf) (Some PARSE_RESULT_INIT)) (\<lambda>(matches, buf', out).
     if \<not> matches then Some (h, arena, Inl GG_ERR_PARSE)
     else
       Option.bind out (\<lambda>out.
       let str = span_of (content out); rest = span_of buf';
           done = (\<lambda>h arena ret. (h, arena, map_sum id (\<lambda>ob. (rest, ob)) ret)) in
       case json_type out of
         JSON_TYPE_STR \<Rightarrow> (case decode_json_str h str want of (h, ret) \<Rightarrow> Some (done h arena ret))
       | JSON_TYPE_NUMBER \<Rightarrow> map_option (done h arena) (decode_json_number strtod h str want)
       | JSON_TYPE_TRUE \<Rightarrow> Some (done h arena (Inr (if want then Some (OBJ_BOOLEAN True) else None)))
       | JSON_TYPE_FALSE \<Rightarrow> Some (done h arena (Inr (if want then Some (OBJ_BOOLEAN False) else None)))
       | JSON_TYPE_NULL \<Rightarrow> Some (done h arena (Inr (if want then Some OBJ_NULL else None)))
       | JSON_TYPE_ARRAY \<Rightarrow>
           map_option (\<lambda>(h, arena, ret). done h arena ret)
             (decode_json_array (take_json_val strtod fuel) h arena str (ParseResult.count out) want)
       | JSON_TYPE_OBJECT \<Rightarrow>
           map_option (\<lambda>(h, arena, ret). done h arena ret)
             (decode_json_object (take_json_val strtod fuel) h arena str (ParseResult.count out) want)))"

definition gg_json_decode_destructive :: "strtod_fn \<Rightarrow> heap \<Rightarrow> span \<Rightarrow> GgArena option \<Rightarrow> bool \<Rightarrow>
    (GgError \<times> heap \<times> GgArena option \<times> GgObject option) option" where
  \<comment> \<open>the last component is what is written through \<open>obj\<close>\<close>
  "gg_json_decode_destructive strtod h buf arena want =
     (let arena_copy = (case arena of None \<Rightarrow> \<lparr>arena_mem = 0, capacity = 0, index = 0\<rparr> | Some a \<Rightarrow> a)
      in map_option (\<lambda>(h', arena', ret).
           case ret of
             Inl e \<Rightarrow> (e, h', arena, None)
           | Inr (rest, ob) \<Rightarrow>
               if snd rest > 0 then (GG_ERR_PARSE, h', arena, ob)
               else (GG_ERR_OK, h', if want then map_option (\<lambda>_. arena') arena else arena, ob))
         (take_json_val strtod (snd buf + 1) h arena_copy buf want))"

section \<open>Unescaping in place\<close>

definition frame :: "heap \<Rightarrow> heap \<Rightarrow> span \<Rightarrow> bool" where
  \<comment> \<open>the memory has changed inside the span only\<close>
  "frame h h' s \<longleftrightarrow> (\<forall>a. a < fst s \<or> fst s + snd s \<le> a \<longrightarrow> h' a = h a)"

lemma frame_refl [simp]: "frame h h s"
  by (simp add: frame_def)

lemma frame_trans: "frame h h1 s \<Longrightarrow> frame h1 h2 s \<Longrightarrow> frame h h2 s"
  by (simp add: frame_def)

lemma frame_mono: "frame h h' (p, n) \<Longrightarrow> q \<le> p \<Longrightarrow> p + n \<le> q + m \<Longrightarrow> frame h h' (q, m)"
  by (auto simp: frame_def)

lemma frame_write: "length bs \<le> n \<Longrightarrow> frame h (heap_write h p bs) (p, n)"
  by (auto simp: frame_def heap_write_def)

lemma heap_write_Nil [simp]: "heap_write h p [] = h"
  by (rule ext) (auto simp: heap_write_def)

lemma heap_write_append: "heap_write (heap_write h p xs) (p + length xs) ys = heap_write h p (xs @ ys)"
  by (rule ext) (auto simp: heap_write_def nth_append)

lemma view_cong: "(\<And>a. fst b \<le> a \<Longrightarrow> a < fst b + snd b \<Longrightarrow> h' a = h a) \<Longrightarrow> view h' b = view h b"
  by (auto simp: view_def)

lemma write_codepoint_len: "write_codepoint_utf8 c = Some bs \<Longrightarrow> 1 \<le> length bs \<and> length bs \<le> 4"
  by (auto simp: write_codepoint_utf8_def split: if_splits)

definition escape_ok :: "span \<Rightarrow> byte list \<times> span \<Rightarrow> bool" where
  \<comment> \<open>what an escape writes is not longer than what it reads\<close>
  "escape_ok buf r \<longleftrightarrow> (case r of (bs, buf') \<Rightarrow>
     \<exists>k. 1 \<le> length bs \<and> length bs \<le> k \<and> k \<le> snd buf \<and> buf' = (fst buf + k, snd buf - k))"

lemma utf16_escape_ok: "str_conv_handle_utf16_escape h buf = Some r \<Longrightarrow> escape_ok buf r"
proof -
  assume r: "str_conv_handle_utf16_escape h buf = Some r"
  obtain bs b c n where "r = (bs, b)" "write_codepoint_utf8 c = Some bs" "n = 6 \<or> n = 12" "n \<le> snd buf" "b = advance buf n"
  proof -
    assume that: "\<And>bs b c n. r = (bs, b) \<Longrightarrow> write_codepoint_utf8 c = Some bs \<Longrightarrow> n = 6 \<or> n = 12 \<Longrightarrow> n \<le> snd buf \<Longrightarrow>
      b = advance buf n \<Longrightarrow> thesis"
    show thesis using r
      by (auto simp: str_conv_handle_utf16_escape_def bind_eq_Some_conv Let_def advance_def split: if_splits
          intro: that [where n = 6] that [where n = 12])
  qed
  then show ?thesis using write_codepoint_len [of c bs] by (auto simp: escape_ok_def advance_def)
qed

lemma escape_ok: "str_conv_handle_escape h buf = Some r \<Longrightarrow> escape_ok buf r"
  by (auto simp: str_conv_handle_escape_def Let_def dest: utf16_escape_ok split: if_splits)
    (auto simp: escape_ok_def advance_def)

text \<open>
  The reference: read the escapes from memory that nobody writes to, and collect the output. The
  flag says whether the end was reached.
\<close>

function unescaped :: "heap \<Rightarrow> span \<Rightarrow> byte list \<times> bool" where
  "unescaped h buf =
     (if snd buf = 0 then ([], True)
      else if h (fst buf) = 92
      then (case str_conv_handle_escape h buf of
              None \<Rightarrow> ([], False)
            | Some (bs, buf') \<Rightarrow> apfst ((@) bs) (unescaped h buf'))
      else apfst ((#) (h (fst buf))) (unescaped h (fst buf + 1, snd buf - 1)))"
  by pat_completeness auto
termination
  by (relation "measure (snd \<circ> snd)") (auto dest: escape_shorter)

declare unescaped.simps [simp del]

lemma get_uint16_cong:
  "(\<And>a. p \<le> a \<Longrightarrow> a < p + 4 \<Longrightarrow> h' a = h a) \<Longrightarrow> get_uint16_from_hex4 h' p = get_uint16_from_hex4 h p"
  by (simp add: get_uint16_from_hex4_def)

lemma utf16_escape_cong:
  assumes "\<And>a. fst buf \<le> a \<Longrightarrow> a < fst buf + snd buf \<Longrightarrow> h' a = h a"
  shows "str_conv_handle_utf16_escape h' buf = str_conv_handle_utf16_escape h buf"
proof (cases "snd buf < 6")
  case False
  have 1: "get_uint16_from_hex4 h' (fst buf + 2) = get_uint16_from_hex4 h (fst buf + 2)"
    by (rule get_uint16_cong) (use assms False in simp)
  have 2: "get_uint16_from_hex4 h' (fst (advance buf 6) + 2) = get_uint16_from_hex4 h (fst (advance buf 6) + 2)"
    if "\<not> snd (advance buf 6) < 6"
    by (rule get_uint16_cong) (use assms that in \<open>simp add: advance_def\<close>)
  have 3: "h' (fst buf) = h (fst buf)" "h' (fst buf + 1) = h (fst buf + 1)" using assms False by simp_all
  have 4: "h' (fst (advance buf 6)) = h (fst (advance buf 6))" "h' (fst (advance buf 6) + 1) = h (fst (advance buf 6) + 1)"
    if "\<not> snd (advance buf 6) < 6" using assms that by (simp_all add: advance_def)
  show ?thesis unfolding str_conv_handle_utf16_escape_def 1 3 Let_def
    by (cases "snd (advance buf 6) < 6") (simp_all only: 2 4 simp_thms if_True if_False)
qed (simp add: str_conv_handle_utf16_escape_def)

lemma escape_cong:
  assumes "\<And>a. fst buf \<le> a \<Longrightarrow> a < fst buf + snd buf \<Longrightarrow> h' a = h a"
  shows "str_conv_handle_escape h' buf = str_conv_handle_escape h buf"
proof (cases "snd buf < 2")
  case False
  then have "h' (fst buf) = h (fst buf)" "h' (fst buf + 1) = h (fst buf + 1)" using assms by simp_all
  then show ?thesis unfolding str_conv_handle_escape_def using utf16_escape_cong [OF assms] by simp
qed (simp add: str_conv_handle_escape_def)

lemma unescaped_cong:
  "(\<And>a. fst buf \<le> a \<Longrightarrow> a < fst buf + snd buf \<Longrightarrow> h' a = h a) \<Longrightarrow> unescaped h' buf = unescaped h buf"
proof (induction h buf rule: unescaped.induct)
  case (1 h buf)
  show ?case
  proof (cases "snd buf = 0")
    case False
    then have hd: "h' (fst buf) = h (fst buf)" using 1(3) by simp
    have e: "str_conv_handle_escape h' buf = str_conv_handle_escape h buf" by (rule escape_cong) (rule 1(3))
    show ?thesis
    proof (cases "h (fst buf) = 92")
      case True
      show ?thesis
      proof (cases "str_conv_handle_escape h buf")
        case None
        then show ?thesis using False True hd e by (simp add: unescaped.simps [of _ buf])
      next
        case (Some r)
        obtain bs b where r: "r = (bs, b)" by (cases r)
        have "unescaped h' b = unescaped h b"
          by (rule 1(1) [OF False True Some r [symmetric]]) (use 1(3) escape_ok [OF Some] r in \<open>auto simp: escape_ok_def\<close>)
        then show ?thesis using False True hd e Some r by (simp add: unescaped.simps [of _ buf])
      qed
    next
      case nesc: False
      have "unescaped h' (fst buf + 1, snd buf - 1) = unescaped h (fst buf + 1, snd buf - 1)"
        by (rule 1(2) [OF False nesc]) (use 1(3) in auto)
      then show ?thesis using False nesc hd by (simp add: unescaped.simps [of _ buf])
    qed
  qed (simp add: unescaped.simps)
qed

lemma unescaped_len: "length (fst (unescaped h buf)) \<le> snd buf"
proof (induction h buf rule: unescaped.induct)
  case (1 h buf)
  have "length bs + length (fst (unescaped h b)) \<le> snd buf"
    if "str_conv_handle_escape h buf = Some (bs, b)" "snd buf \<noteq> 0" "h (fst buf) = 92" for bs b
    using 1(1) [OF that(2,3,1) refl] escape_ok [OF that(1)] by (auto simp: escape_ok_def)
  then show ?case using 1(2)
    by (subst unescaped.simps) (auto simp: apfst_def split: prod.splits option.splits)
qed

lemma unescape_loop_unescaped:
  "write_ptr \<le> fst buf \<Longrightarrow>
   unescape_loop h buf write_ptr =
     (case unescaped h buf of (bs, ok) \<Rightarrow>
        (heap_write h write_ptr bs, if ok then Some (write_ptr + length bs) else None))"
proof (induction h buf write_ptr rule: unescape_loop.induct)
  case (1 h buf w)
  let ?goal = "\<lambda>h buf w. unescape_loop h buf w =
     (case unescaped h buf of (bs, ok) \<Rightarrow> (heap_write h w bs, if ok then Some (w + length bs) else None))"
  have step: ?case
    if "unescape_loop h buf w = unescape_loop (heap_write h w bs) b (w + length bs)"
      and "unescaped h buf = apfst ((@) bs) (unescaped h b)" and "?goal (heap_write h w bs) b (w + length bs)"
      and "w + length bs \<le> fst b" for bs b
  proof -
    have "unescaped (heap_write h w bs) b = unescaped h b"
      by (rule unescaped_cong) (use that(4) in \<open>simp add: heap_write_def\<close>)
    then show ?thesis using that(1-3) by (auto simp: heap_write_append apfst_def split: prod.splits)
  qed
  show ?case
  proof (cases "snd buf = 0")
    case True
    then show ?thesis by (simp add: unescape_loop.simps unescaped.simps)
  next
    case False
    show ?thesis
    proof (cases "h (fst buf) = 92")
      case True
      show ?thesis
      proof (cases "str_conv_handle_escape h buf")
        case None
        then show ?thesis using False True by (simp add: unescape_loop.simps [of h buf] unescaped.simps [of h buf])
      next
        case (Some r)
        obtain bs b where r: "r = (bs, b)" by (cases r)
        have le: "w + length bs \<le> fst b" using escape_ok [OF Some] r 1(3) by (auto simp: escape_ok_def)
        show ?thesis
          by (rule step [of bs b, OF _ _ _ le])
            (use False True Some r 1(1) [OF _ True Some] le in \<open>auto simp: unescape_loop.simps [of h buf] unescaped.simps [of h buf]\<close>)
      qed
    next
      case nesc: False
      have le: "w + length [h (fst buf)] \<le> fst (advance buf 1)" using False 1(3) by (simp add: advance_def)
      show ?thesis
        by (rule step [of "[h (fst buf)]" "advance buf 1", OF _ _ _ le])
          (use False nesc 1(2) [OF _ nesc] le in \<open>auto simp: unescape_loop.simps [of h buf] unescaped.simps [of h buf] advance_def split: prod.splits\<close>)
    qed
  qed
qed

text \<open>
  C29: Unescaping a string in place gives what decoding from untouched memory into separate storage
  gives: the write position never overtakes the read position, whatever the string. The bytes of
  the result stand at the start of the string's memory, nothing else is written, and a malformed
  escape is reported.
\<close>
theorem unescape_string_in_place:
  "unescape_string h str =
     (case unescaped h str of (bs, ok) \<Rightarrow>
        (heap_write h (fst str) bs, if ok then Some (fst str, length bs) else None)) \<and>
   length (fst (unescaped h str)) \<le> snd str"
  using unescape_loop_unescaped [of "fst str" str h] unescaped_len [of h str]
  by (auto simp: unescape_string_def split: prod.splits)

section \<open>Arrays as lists of values\<close>

text \<open>
  The values of an array or object in order, without the arrays they are stored in. With an array of the
  right size no store is out of bounds, and the stores fill the array with these values.
\<close>

fun array_items :: "json_take \<Rightarrow> nat \<Rightarrow> heap \<Rightarrow> GgArena \<Rightarrow> span \<Rightarrow> bool \<Rightarrow>
    (heap \<times> GgArena \<times> (GgObject list) res) option" where
  "array_items take_val 0 h arena buf want = Some (h, arena, Inr [])"
| "array_items take_val (Suc k) h arena buf want =
     Option.bind (take_val h arena buf want) (\<lambda>(h, arena, ret).
     case ret of
       Inl e \<Rightarrow> Some (h, arena, Inl e)
     | Inr (buf, item) \<Rightarrow>
         Option.bind (if k \<noteq> 0 then parser_call (PARSER_CHAR (chr CHR '','')) (view h buf) None else Some (True, view h buf, None))
           (\<lambda>(matches, buf, _).
         if \<not> matches then Some (h, arena, Inl GG_ERR_PARSE)
         else
           Option.bind (array_items take_val k h arena (span_of buf) want) (\<lambda>(h, arena, rest).
           Some (h, arena, map_sum id ((@) (case item of None \<Rightarrow> [] | Some x \<Rightarrow> [x])) rest))))"

fun object_pairs :: "json_take \<Rightarrow> nat \<Rightarrow> heap \<Rightarrow> GgArena \<Rightarrow> span \<Rightarrow> bool \<Rightarrow>
    (heap \<times> GgArena \<times> (GgKV list) res) option" where
  "object_pairs take_val 0 h arena buf want = Some (h, arena, Inr [])"
| "object_pairs take_val (Suc k) h arena buf want =
     Option.bind (take_val h arena buf True) (\<lambda>(h, arena, ret).
     case ret of
       Inl e \<Rightarrow> Some (h, arena, Inl e)
     | Inr (buf, key_obj) \<Rightarrow>
     (case key_obj of
        Some (OBJ_BUF k0) \<Rightarrow>
          Option.bind (parser_call (PARSER_CHAR (chr CHR '':'')) (view h buf) None) (\<lambda>(matches, buf, _).
          if \<not> matches then Some (h, arena, Inl GG_ERR_PARSE)
          else
            Option.bind (take_val h arena (span_of buf) want) (\<lambda>(h, arena, ret).
            case ret of
              Inl e \<Rightarrow> Some (h, arena, Inl e)
            | Inr (buf, item) \<Rightarrow>
                Option.bind (if k \<noteq> 0 then parser_call (PARSER_CHAR (chr CHR '','')) (view h buf) None else Some (True, view h buf, None))
                  (\<lambda>(matches, buf, _).
                if \<not> matches then Some (h, arena, Inl GG_ERR_PARSE)
                else
                  Option.bind (object_pairs take_val k h arena (span_of buf) want) (\<lambda>(h, arena, rest).
                  Some (h, arena, map_sum id ((@) (case item of None \<Rightarrow> [] | Some x \<Rightarrow> [gg_kv k0 x])) rest)))))
      | _ \<Rightarrow> Some (h, arena, Inl GG_ERR_PARSE)))"

definition delivers :: "json_take \<Rightarrow> bool" where
  \<comment> \<open>a value that is asked for is stored\<close>
  "delivers f \<longleftrightarrow> (\<forall>h a buf h' a' buf' ob. f h a buf True = Some (h', a', Inr (buf', ob)) \<longrightarrow> ob \<noteq> None)"

lemma deliversD: "delivers f \<Longrightarrow> f h a buf True = Some (h', a', Inr (buf', ob)) \<Longrightarrow> ob \<noteq> None"
  unfolding delivers_def by blast

lemma on_slot_simps [simp]:
  "on_slot None i f = Some None" "i < length xs \<Longrightarrow> on_slot (Some xs) i f = Some (Some (xs[i := f (xs ! i)]))"
  by (simp_all add: on_slot_def)

definition deliver :: "('a \<Rightarrow> 'b) \<Rightarrow> heap \<times> GgArena \<times> 'a res \<Rightarrow> heap \<times> GgArena \<times> 'b res" where
  "deliver g r = (case r of (h, a, ret) \<Rightarrow> (h, a, map_sum id g ret))"

lemma bind_deliver: "Option.bind r (\<lambda>(h, a, ret). Some (h, a, map_sum id g ret)) = map_option (deliver g) r"
  by (cases r) (simp_all add: deliver_def split: prod.split)

lemma deliver_simps [simp]:
  "deliver g (h, a, Inl e) = (h, a, Inl e)" "deliver g (h, a, Inr x) = (h, a, Inr (g x))" "deliver g \<circ> deliver f = deliver (g \<circ> f)"
  by (auto simp: deliver_def sum.map_comp fun_eq_iff split: prod.split)

lemma deliver_Inr: "deliver g r = (h, a, Inr y) \<longleftrightarrow> (\<exists>x. r = (h, a, Inr x) \<and> y = g x)"
  by (cases r; cases "snd (snd r)") (auto simp: deliver_def)

lemma map_deliver_comp: "map_option (deliver g) (map_option (deliver f) r) = map_option (deliver (g \<circ> f)) r"
  by (simp add: option.map_comp)

lemma array_loop_null: "array_loop f k i h a buf None = map_option (deliver (\<lambda>_. None)) (array_items f k h a buf False)"
proof (induction k arbitrary: i h a buf)
  case (Suc k)
  show ?case
    by (auto simp: Suc bind_deliver map_option_bind comp_def map_deliver_comp intro!: bind_option_cong split: sum.splits prod.splits)
qed simp

lemma take_update: "i < length xs \<Longrightarrow> take (Suc i) (xs[i := y]) = take i xs @ [y]"
  by (simp add: take_Suc_conv_app_nth)

lemma update_last: "length xs = Suc i \<Longrightarrow> xs[i := y] = take i xs @ [y]"
  using take_update [of i xs y] by simp

lemma array_loop_stores:
  "delivers f \<Longrightarrow> length xs = i + k \<Longrightarrow>
   array_loop f k i h a buf (Some xs) = map_option (deliver (\<lambda>ys. Some (take i xs @ ys))) (array_items f k h a buf True)"
proof (induction k arbitrary: i h a buf xs)
  case (Suc k)
  have i: "i < length xs" using Suc.prems(2) by simp
  have IH: "array_loop f k (Suc i) h a buf (Some (xs[i := y])) = map_option (deliver (\<lambda>ys. Some ((take i xs @ [y]) @ ys))) (array_items f k h a buf True)"
    for h a buf y using Suc.IH [OF Suc.prems(1), of "xs[i := y]" "Suc i" h a buf] Suc.prems(2) unfolding take_update [OF i] by simp
  show ?case
    by (auto simp: IH i bind_deliver map_option_bind map_deliver_comp dest!: deliversD [OF Suc.prems(1)]
        intro!: bind_option_cong split: sum.splits prod.splits option.splits) (use Suc.prems(2) in \<open>simp_all add: comp_def update_last\<close>)
qed simp

lemma array_items_length: "delivers f \<Longrightarrow> array_items f k h a buf True = Some (h', a', Inr ys) \<Longrightarrow> length ys = k"
proof (induction k arbitrary: h a buf h' a' ys)
  case (Suc k)
  obtain h1 a1 ret where f: "f h a buf True = Some (h1, a1, ret)" using Suc.prems(2) by (auto simp: bind_eq_Some_conv)
  obtain b1 item where ret: "ret = Inr (b1, item)" using Suc.prems(2) f by (cases ret) auto
  obtain y where item: "item = Some y" using deliversD [OF Suc.prems(1)] f ret by blast
  obtain b2 zs where rest: "array_items f k h1 a1 (span_of b2) True = Some (h', a', Inr zs)" and ys: "ys = y # zs"
    using Suc.prems(2) unfolding f ret item
    by (auto simp: f ret item bind_eq_Some_conv bind_deliver deliver_Inr split: if_split_asm)
  show ?case using Suc.IH [OF Suc.prems(1) rest] ys by simp
qed simp

lemma object_loop_null: "object_loop f k i h a buf None = map_option (deliver (\<lambda>_. None)) (object_pairs f k h a buf False)"
proof (induction k arbitrary: i h a buf)
  case (Suc k)
  show ?case
    by (auto simp: Suc bind_deliver map_option_bind comp_def map_deliver_comp intro!: bind_option_cong
        split: sum.splits prod.splits option.splits GgObject.splits)
qed simp

lemma object_loop_stores:
  "delivers f \<Longrightarrow> length xs = i + k \<Longrightarrow>
   object_loop f k i h a buf (Some xs) = map_option (deliver (\<lambda>ys. Some (take i xs @ ys))) (object_pairs f k h a buf True)"
proof (induction k arbitrary: i h a buf xs)
  case (Suc k)
  have i: "i < length xs" using Suc.prems(2) by simp
  have IH: "object_loop f k (Suc i) h a buf (Some (xs[i := y])) = map_option (deliver (\<lambda>ys. Some ((take i xs @ [y]) @ ys))) (object_pairs f k h a buf True)"
    for h a buf y using Suc.IH [OF Suc.prems(1), of "xs[i := y]" "Suc i" h a buf] Suc.prems(2) unfolding take_update [OF i] by simp
  have kv: "(fst (gg_kv_set_key k0 kv), x) = gg_kv k0 x" for k0 kv x by (simp add: gg_kv_set_key_def gg_kv_def)
  show ?case
    by (auto simp: IH i kv bind_deliver map_option_bind map_deliver_comp dest!: deliversD [OF Suc.prems(1)]
        intro!: bind_option_cong split: sum.splits prod.splits option.splits GgObject.splits) (use Suc.prems(2) in \<open>simp_all add: comp_def update_last\<close>)
qed simp

lemma object_pairs_length: "delivers f \<Longrightarrow> object_pairs f k h a buf True = Some (h', a', Inr ys) \<Longrightarrow> length ys = k"
proof (induction k arbitrary: h a buf h' a' ys)
  case (Suc k)
  obtain h1 a1 ret where f: "f h a buf True = Some (h1, a1, ret)" using Suc.prems(2) by (auto simp: bind_eq_Some_conv)
  obtain b1 ko where ret: "ret = Inr (b1, ko)" using Suc.prems(2) f by (cases ret) auto
  obtain k0 where ko: "ko = Some (OBJ_BUF k0)" using Suc.prems(2) f ret by (auto split: option.split_asm GgObject.split_asm)
  obtain b2 o2 where colon: "parser_call (PARSER_CHAR 58) (view h1 b1) None = Some (True, b2, o2)"
    using Suc.prems(2) f ret ko by (auto simp: bind_eq_Some_conv split: if_split_asm)
  obtain h2 a2 ret2 where f2: "f h1 a1 (span_of b2) True = Some (h2, a2, ret2)"
    using Suc.prems(2) by (auto simp: f ret ko colon bind_eq_Some_conv)
  note call = f ret ko colon f2
  obtain b3 item where ret2: "ret2 = Inr (b3, item)" using Suc.prems(2) by (cases ret2) (auto simp: call)
  obtain y where item: "item = Some y" using deliversD [OF Suc.prems(1)] f2 ret2 by blast
  obtain b4 zs where rest: "object_pairs f k h2 a2 (span_of b4) True = Some (h', a', Inr zs)" and ys: "ys = gg_kv k0 y # zs"
    using Suc.prems(2) by (auto simp: call ret2 item bind_eq_Some_conv bind_deliver deliver_Inr split: if_split_asm)
  show ?case using Suc.IH [OF Suc.prems(1) rest] ys by simp
qed simp

lemma elements_simps [simp]: "elements n None = []" "length xs = n \<Longrightarrow> elements n (Some xs) = xs"
  by (simp_all add: elements_def)

lemma deliver_cong:
  "(\<And>h a x. r = Some (h, a, Inr x) \<Longrightarrow> g x = g' x) \<Longrightarrow> map_option (deliver g) r = map_option (deliver g') r"
  by (cases r; cases "snd (snd (the r))") (auto simp: deliver_def split: prod.split)

lemma sizeof_pos: "0 < sizeof_GgObject" "0 < sizeof_GgKV"
  by (simp_all add: sizeof_GgObject_def sizeof_GgKV_def)

lemma decode_json_array_eq:
  assumes "delivers f"
  shows "decode_json_array f h arena str cnt want =
     (case alloc_items arena (cnt * sizeof_GgObject) (cnt > 0 \<and> want) of
        None \<Rightarrow> Some (h, arena, Inl GG_ERR_NOMEM)
      | Some (items, arena) \<Rightarrow>
          Option.bind (array_items f cnt h arena str (cnt > 0 \<and> want)) (\<lambda>(h, arena, ret).
          Some (h, arena, map_sum id (\<lambda>xs. if want then Some (gg_obj_list (items, xs)) else None) ret)))"
proof (cases "cnt > 0 \<and> want")
  case True
  have "map_option (deliver (\<lambda>xs. Some (gg_obj_list (p, elements cnt (Some xs))))) (array_items f cnt h a str True) =
    map_option (deliver (\<lambda>xs. Some (gg_obj_list (p, xs)))) (array_items f cnt h a str True)" for p a
    by (rule deliver_cong) (simp add: array_items_length [OF assms])
  then show ?thesis using True
    by (simp add: decode_json_array_def bind_deliver map_deliver_comp comp_def array_loop_stores [OF assms] sizeof_pos
        split: option.split prod.split)
qed (auto simp: decode_json_array_def bind_deliver map_deliver_comp comp_def array_loop_null Let_def split: option.split prod.split)

lemma decode_json_object_eq:
  assumes "delivers f"
  shows "decode_json_object f h arena str cnt want =
     (case alloc_items arena (cnt * sizeof_GgKV) (cnt > 0 \<and> want) of
        None \<Rightarrow> Some (h, arena, Inl GG_ERR_NOMEM)
      | Some (pairs, arena) \<Rightarrow>
          Option.bind (object_pairs f cnt h arena str (cnt > 0 \<and> want)) (\<lambda>(h, arena, ret).
          Some (h, arena,
            map_sum id (\<lambda>kvs. if want then Some (gg_obj_map (pairs, gg_map_canonicalize_shallow kvs)) else None) ret)))"
proof (cases "cnt > 0 \<and> want")
  case True
  have "map_option (deliver (\<lambda>xs. Some (gg_obj_map (p, gg_map_canonicalize_shallow (elements cnt (Some xs)))))) (object_pairs f cnt h a str True) =
    map_option (deliver (\<lambda>xs. Some (gg_obj_map (p, gg_map_canonicalize_shallow xs)))) (object_pairs f cnt h a str True)" for p a
    by (rule deliver_cong) (simp add: object_pairs_length [OF assms])
  then show ?thesis using True
    by (simp add: decode_json_object_def bind_deliver map_deliver_comp comp_def object_loop_stores [OF assms] sizeof_pos
        split: option.split prod.split)
qed (auto simp: decode_json_object_def bind_deliver map_deliver_comp comp_def object_loop_null Let_def split: option.split prod.split)

lemma decode_json_number_delivers: "decode_json_number strtod h str True \<noteq> Some (Inr None)"
  by (auto simp: decode_json_number_def bind_eq_Some_conv Let_def split: if_splits sum.splits prod.splits option.splits)

lemma decode_json_str_delivers: "snd (decode_json_str h str True) \<noteq> Inr None"
  by (auto simp: decode_json_str_def split: if_splits prod.splits option.splits)

lemma decode_json_array_delivers: "decode_json_array f h a str cnt True \<noteq> Some (h', a', Inr None)"
  by (auto simp: decode_json_array_def bind_deliver deliver_Inr Let_def split: option.splits)

lemma decode_json_object_delivers: "decode_json_object f h a str cnt True \<noteq> Some (h', a', Inr None)"
  by (auto simp: decode_json_object_def bind_deliver deliver_Inr Let_def split: option.splits)

lemma take_json_val_delivers: "delivers (take_json_val strtod fuel)"
  unfolding delivers_def
proof (intro allI impI notI)
  fix h a buf h' a' buf' ob
  assume took: "take_json_val strtod fuel h a buf True = Some (h', a', Inr (buf', ob))" and none: "ob = None"
  then obtain n b out where parse: "fuel = Suc n" "parser_call PARSER_JSON_VALUE (view h buf) (Some PARSE_RESULT_INIT) = Some (True, b, Some out)"
    by (cases fuel) (auto simp: bind_eq_Some_conv split: if_split_asm)
  have result: "map_sum id (\<lambda>ob. (span_of b, ob)) r = Inr (buf', None) \<Longrightarrow> r = Inr None" for r :: "GgObject option res"
    by (cases r) auto
  show False
  proof (cases "json_type out")
    case JSON_TYPE_STR
    then show ?thesis using took none decode_json_str_delivers [of h "span_of (content out)"]
      by (auto simp: parse Let_def dest!: result split: prod.split_asm)
  next
    case JSON_TYPE_NUMBER
    then show ?thesis using took none decode_json_number_delivers [of strtod h "span_of (content out)"]
      by (auto simp: parse Let_def dest!: result)
  next
    case JSON_TYPE_ARRAY
    then show ?thesis using took none
        decode_json_array_delivers [of "take_json_val strtod n" h a "span_of (content out)" "ParseResult.count out" h' a']
      by (auto simp: parse Let_def dest!: result)
  next
    case JSON_TYPE_OBJECT
    then show ?thesis using took none
        decode_json_object_delivers [of "take_json_val strtod n" h a "span_of (content out)" "ParseResult.count out" h' a']
      by (auto simp: parse Let_def dest!: result)
  qed (use took none in \<open>auto simp: parse Let_def\<close>)
qed

section \<open>Every input is decoded or refused\<close>

definition arena_grows :: "GgArena \<Rightarrow> GgArena \<Rightarrow> bool" where
  "arena_grows a a' \<longleftrightarrow> arena_inv a' \<and> arena_mem a' = arena_mem a \<and> capacity a' = capacity a \<and> index a \<le> index a'"

lemma arena_grows_refl: "arena_inv a \<Longrightarrow> arena_grows a a"
  by (simp add: arena_grows_def)

lemma arena_grows_trans: "arena_grows a b \<Longrightarrow> arena_grows b c \<Longrightarrow> arena_grows a c"
  by (auto simp: arena_grows_def)

lemma arena_grows_inv: "arena_grows a b \<Longrightarrow> arena_inv b"
  by (simp add: arena_grows_def)

lemma alloc_items_grows:
  assumes "arena_inv a" "alloc_items a n req = Some (p, a')"
  shows "arena_grows a a'"
proof -
  have "arena_grows a (a\<lparr>index := of_nat (unat (index a) + n)\<rparr>)" if "unat (index a) + n \<le> unat (capacity a)"
    using arena_inv_set [OF that] unat_index_set [OF that] by (simp add: arena_grows_def word_le_nat_alt)
  then show ?thesis using assms gg_arena_alloc_bytes [OF assms(1), of n]
    by (auto simp: alloc_items_def arena_grows_refl split: if_splits)
qed

lemma span_of_view [simp]: "span_of (view h b) = b"
  by (simp add: span_of_def view_def)

lemma len_view [simp]: "len (view h b) = snd b" "data (view h b) = fst b"
  by (simp_all add: view_def)

definition steps_to :: "span \<Rightarrow> nat \<Rightarrow> span" where
  "steps_to buf k = (fst buf + k, snd buf - k)"

lemma span_of_drop: "k \<le> snd b \<Longrightarrow> span_of \<lparr>data = data (view h b) + k, mem = drop k (mem (view h b))\<rparr> = steps_to b k"
  by (simp add: span_of_def steps_to_def)

lemma char_call:
  "\<exists>m b. parser_call (PARSER_CHAR c) (view h buf) None = Some (m, b, None) \<and> (m \<longrightarrow> snd buf \<ge> 1 \<and> span_of b = steps_to buf 1)"
proof -
  obtain m b where 1: "parser_char_fn c (view h buf) = (m, b)" by (cases "parser_char_fn c (view h buf)")
  then have "m \<longrightarrow> snd buf \<ge> 1 \<and> span_of b = steps_to buf 1"
    by (auto simp: parser_char_fn_def gg_buffer_rest_eq span_of_def steps_to_def split: if_splits)
  then show ?thesis using 1 by (auto simp: call_leaf)
qed

lemma number_call: "\<exists>r. decode_json_number strtod h str want = Some r \<and> (case r of Inl e \<Rightarrow> e \<noteq> GG_ERR_OK | Inr ob \<Rightarrow>
   (ob \<noteq> None \<longleftrightarrow> want) \<and> (\<forall>x. ob = Some x \<longrightarrow> all_maps_canonical x))"
proof -
  have p: "progress PARSER_INT_PART" "progress PARSER_FRAC_PART" "progress PARSER_EXPONENT" by (simp_all add: grammar_defs)
  obtain r1 b1 o1 where 1: "parser_call PARSER_INT_PART (view h str) None = Some (r1, b1, o1)"
    using parser_call_returns [OF p(1), of "view h str" None] by auto
  obtain r2 b2 o2 where 2: "parser_call PARSER_FRAC_PART b1 None = Some (r2, b2, o2)"
    using parser_call_returns [OF p(2), of b1 None] by auto
  obtain r3 b3 o3 where 3: "parser_call PARSER_EXPONENT b2 None = Some (r3, b3, o3)"
    using parser_call_returns [OF p(3), of b2 None] by auto
  have "gg_str_to_int64 (view h str) \<noteq> Inl GG_ERR_OK"
    using gg_str_to_int64_literal [of "view h str"] gg_str_to_int64_not_literal [of "view h str"]
    by (cases "int_literal (mem (view h str))") (auto split: if_splits)
  then show ?thesis by (auto simp: decode_json_number_def 1 2 3 split: sum.splits prod.splits)
qed

definition decoded :: "heap \<Rightarrow> GgArena \<Rightarrow> span \<Rightarrow> ('a \<Rightarrow> heap \<Rightarrow> bool) \<Rightarrow> (heap \<times> GgArena \<times> 'a res) option \<Rightarrow> bool" where
  \<comment> \<open>a step returned: it wrote inside its input only, and reported an error or a result that satisfies \<open>Q\<close>\<close>
  "decoded h arena buf Q r \<longleftrightarrow>
     (\<exists>h' arena' ret. r = Some (h', arena', ret) \<and> frame h h' buf \<and> arena_grows arena arena' \<and>
        (case ret of Inl e \<Rightarrow> e \<noteq> GG_ERR_OK | Inr x \<Rightarrow> Q x h'))"

definition object_ok :: "bool \<Rightarrow> GgObject option \<Rightarrow> bool" where
  "object_ok want ob \<longleftrightarrow> (ob \<noteq> None \<longleftrightarrow> want) \<and> (\<forall>x. ob = Some x \<longrightarrow> all_maps_canonical x)"

definition took :: "heap \<Rightarrow> span \<Rightarrow> bool \<Rightarrow> span \<times> GgObject option \<Rightarrow> heap \<Rightarrow> bool" where
  \<comment> \<open>the value is a non-empty prefix of the input, and only that prefix has been written to\<close>
  "took h buf want r h' \<longleftrightarrow>
     (\<exists>k. 1 \<le> k \<and> k \<le> snd buf \<and> fst r = steps_to buf k \<and> frame h h' (fst buf, k)) \<and> object_ok want (snd r)"

definition takes :: "json_take \<Rightarrow> nat \<Rightarrow> bool" where
  "takes f n \<longleftrightarrow> (\<forall>h arena buf want. snd buf \<le> n \<longrightarrow> arena_inv arena \<longrightarrow>
     decoded h arena buf (took h buf want) (f h arena buf want))"

lemma decoded_fail [intro]: "frame h h' buf \<Longrightarrow> arena_grows a a' \<Longrightarrow> e \<noteq> GG_ERR_OK \<Longrightarrow> decoded h a buf Q (Some (h', a', Inl e))"
  by (auto simp: decoded_def)

lemma decoded_map:
  assumes "decoded h a buf Q r" "\<And>x h'. Q x h' \<Longrightarrow> Q' (g x) h'"
  shows "decoded h a buf Q' (Option.bind r (\<lambda>(h, a, ret). Some (h, a, map_sum id g ret)))"
proof -
  obtain h' a' ret where "r = Some (h', a', ret)" "frame h h' buf" "arena_grows a a'"
    "case ret of Inl e \<Rightarrow> e \<noteq> GG_ERR_OK | Inr x \<Rightarrow> Q x h'" using assms(1) by (auto simp: decoded_def)
  then show ?thesis using assms(2) by (cases ret) (simp_all add: decoded_def)
qed

lemma decoded_after:
  \<comment> \<open>continuing behind a part of the input that has been dealt with\<close>
  assumes "decoded h1 a1 buf1 Q r" "buf1 = steps_to buf k" "k \<le> snd buf" "frame h h1 (fst buf, j)" "j \<le> k" "arena_grows a a1"
  shows "decoded h a buf Q r"
proof -
  have "frame h h' buf" if "frame h1 h' buf1" for h'
  proof (cases buf; rule frame_trans)
    fix p n assume buf: "buf = (p, n)"
    show "frame h h1 buf" unfolding buf by (rule frame_mono [OF assms(4)]) (use assms(3,5) buf in auto)
    show "frame h1 h' buf" unfolding buf
      by (rule frame_mono [of _ _ "p + k" "n - k"]) (use that assms(2,3) buf in \<open>auto simp: steps_to_def\<close>)
  qed
  then show ?thesis using assms(1,6) arena_grows_trans unfolding decoded_def by blast
qed

lemma took_steps:
  assumes "took h buf want r h'" "frame h0 h (fst buf0, k)" "buf = steps_to buf0 k" "k \<le> snd buf0"
  obtains k' where "k' \<le> snd buf0" "k < k'" "fst r = steps_to buf0 k'" "frame h0 h' (fst buf0, k')" "object_ok want (snd r)"
proof -
  obtain j where j: "1 \<le> j" "j \<le> snd buf" "fst r = steps_to buf j" "frame h h' (fst buf, j)" "object_ok want (snd r)"
    using assms(1) by (auto simp: took_def)
  have "frame h0 h' (fst buf0, k + j)"
  proof (rule frame_trans)
    show "frame h0 h (fst buf0, k + j)" by (rule frame_mono [OF assms(2)]) simp_all
    show "frame h h' (fst buf0, k + j)" by (rule frame_mono [OF j(4)]) (simp_all add: assms(3) steps_to_def)
  qed
  then show thesis using that [of "k + j"] j assms(3,4) by (auto simp: steps_to_def)
qed

lemma steps_to_steps: "steps_to (steps_to b i) j = steps_to b (i + j)"
  by (simp add: steps_to_def)

lemma steps_to_0 [simp]: "steps_to b 0 = b"
  by (simp add: steps_to_def)

definition items_ok :: "nat \<Rightarrow> bool \<Rightarrow> GgObject list \<Rightarrow> heap \<Rightarrow> bool" where
  "items_ok k want xs h \<longleftrightarrow> list_all all_maps_canonical xs \<and> length xs = (if want then k else 0)"

lemma separator_call:
  "\<exists>m b. (if k \<noteq> (0 :: nat) then parser_call (PARSER_CHAR c) (view h buf) None else Some (True, view h buf, None)) = Some (m, b, None) \<and>
     (m \<longrightarrow> (\<exists>j. j \<le> snd buf \<and> span_of b = steps_to buf j))"
proof (cases "k = 0")
  case True
  then show ?thesis by (intro exI [of _ True] exI [of _ "view h buf"]) (auto intro: exI [of _ 0])
qed (use char_call [of c h buf] in auto)

lemma takes_step:
  \<comment> \<open>taking a value behind the first \<open>i\<close> bytes\<close>
  assumes "takes f n" "snd buf0 \<le> n" "arena_inv a" "buf = steps_to buf0 i" "i \<le> snd buf0" "frame h0 h (fst buf0, i)"
    and "arena_grows a0 a"
  obtains h1 a1 e where "f h a buf want = Some (h1, a1, Inl e)" "e \<noteq> GG_ERR_OK" "frame h0 h1 buf0" "arena_grows a0 a1"
  | h1 a1 ob k where "f h a buf want = Some (h1, a1, Inr (steps_to buf0 k, ob))" "i < k" "k \<le> snd buf0"
      "frame h0 h1 (fst buf0, k)" "object_ok want ob" "arena_grows a0 a1" "arena_inv a1"
proof -
  have "snd buf \<le> n" using assms(2,4) by (simp add: steps_to_def)
  then have 0: "decoded h a buf (took h buf want) (f h a buf want)"
    using assms(1,3) unfolding takes_def by blast
  have "decoded h0 a0 buf0 (took h buf want) (f h a buf want)"
    by (rule decoded_after [OF 0 assms(4,5,6) order_refl assms(7)])
  then obtain h1 a1 ret where 1: "f h a buf want = Some (h1, a1, ret)" "frame h0 h1 buf0" "arena_grows a0 a1"
    "case ret of Inl e \<Rightarrow> e \<noteq> GG_ERR_OK | Inr x \<Rightarrow> took h buf want x h1"
    unfolding decoded_def by blast
  show thesis
  proof (cases ret)
    case (Inl e)
    then show ?thesis using that(1) 1 by simp
  next
    case (Inr x)
    then have "took h buf want x h1" using 1(4) by simp
    then obtain k where "k \<le> snd buf0" "i < k" "fst x = steps_to buf0 k" "frame h0 h1 (fst buf0, k)" "object_ok want (snd x)"
      by (rule took_steps [OF _ assms(6,4,5)])
    then show ?thesis using that(2) [of h1 a1 k "snd x"] 1 Inr arena_grows_inv by (cases x) simp
  qed
qed

lemma array_items_decoded:
  assumes "takes f n" "snd buf \<le> n" "arena_inv arena"
  shows "decoded h arena buf (items_ok k want) (array_items f k h arena buf want)"
  using assms(2,3)
proof (induction k arbitrary: h arena buf)
  case 0
  then show ?case by (auto simp: decoded_def items_ok_def arena_grows_refl)
next
  case (Suc k)
  show ?case
  proof (rule takes_step [OF assms(1) Suc.prems, of buf 0 h h arena want])
    fix h1 a1 e
    assume "f h arena buf want = Some (h1, a1, Inl e)" "e \<noteq> GG_ERR_OK" "frame h h1 buf" "arena_grows arena a1"
    then show ?thesis by auto
  next
    fix h1 a1 ob j
    assume 1: "f h arena buf want = Some (h1, a1, Inr (steps_to buf j, ob))" "0 < j" "j \<le> snd buf"
      "frame h h1 (fst buf, j)" "object_ok want ob" "arena_grows arena a1" "arena_inv a1"
    have f1: "frame h h1 buf" by (cases buf) (use 1(3) in \<open>auto intro: frame_mono [OF 1(4)]\<close>)
    obtain m b where b: "(if k \<noteq> 0 then parser_call (PARSER_CHAR (chr CHR '','')) (view h1 (steps_to buf j)) None
        else Some (True, view h1 (steps_to buf j), None)) = Some (m, b, None)"
      "m \<longrightarrow> (\<exists>i. i \<le> snd (steps_to buf j) \<and> span_of b = steps_to (steps_to buf j) i)"
      using separator_call by blast
    show ?thesis
    proof (cases m)
      case True
      then obtain i where i: "span_of b = steps_to buf (j + i)" "j + i \<le> snd buf"
        using b(2) 1(3) by (auto simp: steps_to_steps) (auto simp: steps_to_def)
      have "decoded h1 a1 (span_of b) (items_ok k want) (array_items f k h1 a1 (span_of b) want)"
        using Suc.IH [of "span_of b" a1 h1] Suc.prems(1) 1(7) i by (simp add: steps_to_def)
      from decoded_after [OF this i 1(4) _ 1(6)]
      have d: "decoded h arena buf (items_ok k want) (array_items f k h1 a1 (span_of b) want)" by simp
      have q: "items_ok (Suc k) want ((case ob of None \<Rightarrow> [] | Some x \<Rightarrow> [x]) @ xs) h'" if "items_ok k want xs h'" for xs h'
        using that 1(5) by (auto simp: items_ok_def object_ok_def split: option.splits)
      show ?thesis using decoded_map [OF d, of "items_ok (Suc k) want" "(@) (case ob of None \<Rightarrow> [] | Some x \<Rightarrow> [x])", OF q] 1(1) b(1) True by (cases "k = 0") simp_all
    qed (use 1(1,6) f1 b(1) in auto)
  qed (use Suc.prems in \<open>simp_all add: arena_grows_refl\<close>)
qed

definition pairs_ok :: "bool \<Rightarrow> GgKV list \<Rightarrow> heap \<Rightarrow> bool" where
  "pairs_ok want kvs h \<longleftrightarrow> list_all (all_maps_canonical \<circ> snd) kvs \<and> (\<not> want \<longrightarrow> kvs = [])"

lemma object_pairs_decoded:
  assumes "takes f n" "snd buf \<le> n" "arena_inv arena"
  shows "decoded h arena buf (pairs_ok want) (object_pairs f k h arena buf want)"
  using assms(2,3)
proof (induction k arbitrary: h arena buf)
  case 0
  then show ?case by (auto simp: decoded_def pairs_ok_def arena_grows_refl)
next
  case (Suc k)
  show ?case
  proof (rule takes_step [OF assms(1) Suc.prems, of buf 0 h h arena True])
    fix h1 a1 e
    assume "f h arena buf True = Some (h1, a1, Inl e)" "e \<noteq> GG_ERR_OK" "frame h h1 buf" "arena_grows arena a1"
    then show ?thesis by auto
  next
    fix h1 a1 ob j
    assume 1: "f h arena buf True = Some (h1, a1, Inr (steps_to buf j, ob))" "0 < j" "j \<le> snd buf"
      "frame h h1 (fst buf, j)" "object_ok True ob" "arena_grows arena a1" "arena_inv a1"
    have f1: "frame h h1 buf" by (cases buf) (use 1(3) in \<open>auto intro: frame_mono [OF 1(4)]\<close>)
    obtain m b where b: "parser_call (PARSER_CHAR (chr CHR '':'')) (view h1 (steps_to buf j)) None = Some (m, b, None)"
      "m \<longrightarrow> snd (steps_to buf j) \<ge> 1 \<and> span_of b = steps_to (steps_to buf j) 1"
      using char_call by blast
    consider (key) k0 where "ob = Some (OBJ_BUF k0)" m | (bad) "\<not> m \<or> (\<forall>k0. ob \<noteq> Some (OBJ_BUF k0))" by blast
    then show ?thesis
    proof cases
      case bad
      then show ?thesis using 1 f1 b by (auto split: option.splits GgObject.splits)
    next
      case key
      then have b1: "span_of b = steps_to buf (j + 1)" "j + 1 \<le> snd buf"
        using b(2) 1(3) by (auto simp: steps_to_def)
      have f2: "frame h h1 (fst buf, j + 1)" by (rule frame_mono [OF 1(4)]) simp_all
      show ?thesis
      proof (rule takes_step [OF assms(1) Suc.prems(1) 1(7) b1 f2 1(6), of want])
        fix h2 a2 e
        assume "f h1 a1 (span_of b) want = Some (h2, a2, Inl e)" "e \<noteq> GG_ERR_OK" "frame h h2 buf" "arena_grows arena a2"
        then show ?thesis using 1(1) b(1) key by auto
      next
        fix h2 a2 ob2 i
        assume 2: "f h1 a1 (span_of b) want = Some (h2, a2, Inr (steps_to buf i, ob2))" "j + 1 < i" "i \<le> snd buf"
          "frame h h2 (fst buf, i)" "object_ok want ob2" "arena_grows arena a2" "arena_inv a2"
        have f2: "frame h h2 buf" by (cases buf) (use 2(3) in \<open>auto intro: frame_mono [OF 2(4)]\<close>)
        obtain m2 b2 where b2: "(if k \<noteq> 0 then parser_call (PARSER_CHAR (chr CHR '','')) (view h2 (steps_to buf i)) None
            else Some (True, view h2 (steps_to buf i), None)) = Some (m2, b2, None)"
          "m2 \<longrightarrow> (\<exists>l. l \<le> snd (steps_to buf i) \<and> span_of b2 = steps_to (steps_to buf i) l)"
          using separator_call by blast
        show ?thesis
        proof (cases m2)
          case False
          then show ?thesis using 1(1) b(1) key 2(1,6) f2 b2(1) by auto
        next
          case True
          then obtain l where l: "span_of b2 = steps_to buf (i + l)" "i + l \<le> snd buf"
            using b2(2) 2(3) by (auto simp: steps_to_steps) (auto simp: steps_to_def)
          have "decoded h2 a2 (span_of b2) (pairs_ok want) (object_pairs f k h2 a2 (span_of b2) want)"
            using Suc.IH [of "span_of b2" a2 h2] Suc.prems(1) 2(7) l by (simp add: steps_to_def)
          from decoded_after [OF this l 2(4) _ 2(6)]
          have d: "decoded h arena buf (pairs_ok want) (object_pairs f k h2 a2 (span_of b2) want)" by simp
          have q: "pairs_ok want ((case ob2 of None \<Rightarrow> [] | Some x \<Rightarrow> [gg_kv k0 x]) @ kvs) h'" if "pairs_ok want kvs h'" for kvs h'
            using that 2(5) by (auto simp: pairs_ok_def object_ok_def gg_kv_def split: option.splits)
          show ?thesis using decoded_map [OF d, of "pairs_ok want" "(@) (case ob2 of None \<Rightarrow> [] | Some x \<Rightarrow> [gg_kv k0 x])", OF q] 1(1) b(1) key 2(1) b2(1) True
            by (cases "k = 0") simp_all
        qed
      qed
    qed
  qed (use Suc.prems in \<open>simp_all add: arena_grows_refl\<close>)
qed

lemma gg_obj_map_canonical:
  assumes "list_all (all_maps_canonical \<circ> snd) kvs"
  shows "all_maps_canonical (gg_obj_map (p, gg_map_canonicalize_shallow kvs))"
proof -
  let ?c = "gg_map_canonicalize_shallow kvs"
  have "set ?c \<subseteq> set kvs" using set_mset_mono [OF gg_map_canonicalize_shallow_facts(3) [of kvs]] by simp
  moreover have "sorted_wrt (<) (keys ?c)" by (rule gg_map_canonicalize_shallow_facts(1))
  then have "sorted_wrt (<) (keys (take n ?c))" for n by (simp add: sorted_wrt_take take_map [symmetric])
  ultimately show ?thesis using assms \<open>sorted_wrt (<) (keys ?c)\<close>
    by (auto simp: gg_obj_map_def gg_map_is_canonical_iff list_all_iff dest!: in_set_takeD)
qed

lemma gg_obj_list_canonical: "list_all all_maps_canonical xs \<Longrightarrow> all_maps_canonical (gg_obj_list (p, xs))"
  by (auto simp: gg_obj_list_def list_all_iff dest!: in_set_takeD)

lemma decode_json_array_decoded:
  assumes "takes f n" "snd str \<le> n" "arena_inv arena" "delivers f"
  shows "decoded h arena str (\<lambda>ob _. object_ok want ob) (decode_json_array f h arena str cnt want)"
proof (cases "alloc_items arena (cnt * sizeof_GgObject) (cnt > 0 \<and> want)")
  case None
  then show ?thesis using assms(3) by (auto simp: decode_json_array_eq [OF assms(4)] arena_grows_refl)
next
  case (Some r)
  obtain p a1 where r: "r = (p, a1)" by (cases r)
  have g: "arena_grows arena a1" using alloc_items_grows [OF assms(3)] Some r by blast
  have "decoded h a1 str (items_ok cnt (cnt > 0 \<and> want)) (array_items f cnt h a1 str (cnt > 0 \<and> want))"
    by (rule array_items_decoded [OF assms(1,2) arena_grows_inv [OF g]])
  from decoded_after [OF this _ _ _ _ g, where buf = str and k = 0 and j = 0 and h = h]
  have "decoded h arena str (items_ok cnt (cnt > 0 \<and> want)) (array_items f cnt h a1 str (cnt > 0 \<and> want))" by simp
  from decoded_map [OF this, of "\<lambda>ob _. object_ok want ob" "\<lambda>xs. if want then Some (gg_obj_list (p, xs)) else None"]
  show ?thesis
    by (simp add: decode_json_array_eq [OF assms(4)] Some r items_ok_def object_ok_def gg_obj_list_canonical)
qed

lemma decode_json_object_decoded:
  assumes "takes f n" "snd str \<le> n" "arena_inv arena" "delivers f"
  shows "decoded h arena str (\<lambda>ob _. object_ok want ob) (decode_json_object f h arena str cnt want)"
proof (cases "alloc_items arena (cnt * sizeof_GgKV) (cnt > 0 \<and> want)")
  case None
  then show ?thesis using assms(3) by (auto simp: decode_json_object_eq [OF assms(4)] arena_grows_refl)
next
  case (Some r)
  obtain p a1 where r: "r = (p, a1)" by (cases r)
  have g: "arena_grows arena a1" using alloc_items_grows [OF assms(3)] Some r by blast
  have "decoded h a1 str (pairs_ok (cnt > 0 \<and> want)) (object_pairs f cnt h a1 str (cnt > 0 \<and> want))"
    by (rule object_pairs_decoded [OF assms(1,2) arena_grows_inv [OF g]])
  from decoded_after [OF this _ _ _ _ g, where buf = str and k = 0 and j = 0 and h = h]
  have "decoded h arena str (pairs_ok (cnt > 0 \<and> want)) (object_pairs f cnt h a1 str (cnt > 0 \<and> want))" by simp
  from decoded_map [OF this, of "\<lambda>ob _. object_ok want ob"
      "\<lambda>kvs. if want then Some (gg_obj_map (p, gg_map_canonicalize_shallow kvs)) else None"]
  show ?thesis
    by (simp add: decode_json_object_eq [OF assms(4)] Some r pairs_ok_def object_ok_def gg_obj_map_canonical)
qed

definition value_parsed :: "span \<Rightarrow> GgBuffer \<Rightarrow> ParseResult \<Rightarrow> bool" where
  \<comment> \<open>the content reported for a value lies in the \<open>k\<close> bytes consumed, behind the opening delimiter\<close>
  "value_parsed buf b out \<longleftrightarrow>
     (\<exists>k i n. 1 \<le> k \<and> k \<le> snd buf \<and> span_of b = steps_to buf k \<and> span_of (content out) = (fst buf + i, n) \<and>
        inner (json_type out) \<le> i \<and> i + n \<le> k)"

lemma value_call:
  obtains b o1 where "parser_call PARSER_JSON_VALUE (view h buf) (Some out0) = Some (False, b, o1)"
  | b out where "parser_call PARSER_JSON_VALUE (view h buf) (Some out0) = Some (True, b, Some out)" "value_parsed buf b out"
proof -
  obtain m b o1 where r: "parser_call PARSER_JSON_VALUE (view h buf) (Some out0) = Some (m, b, o1)"
    using parser_call_returns [of PARSER_JSON_VALUE "view h buf" "Some out0"] by auto
  show thesis
  proof (cases m)
    case False
    then show ?thesis using that(1) r by simp
  next
    case True
    obtain k where k: "1 \<le> k" "k \<le> snd buf" "b = \<lparr>data = data (view h buf) + k, mem = drop k (mem (view h buf))\<rparr>"
      using parser_call_consumed [OF r] True by (auto simp: consumed_def)
    obtain type where "reports (inner type) type (view h buf) b o1"
      using value_reports [OF parser_call_parses [OF r [unfolded eqTrueI [OF True]]]] by auto
    then obtain out i n k' where o: "o1 = Some out" "json_type out = type" "content out = slice (view h buf) i n"
      "inner type \<le> i" "i + n \<le> k'" "k' \<le> snd buf" "b = \<lparr>data = data (view h buf) + k', mem = drop k' (mem (view h buf))\<rparr>"
      unfolding reports_def by auto
    have "k = k'" using k(3) o(7) by simp
    then have "value_parsed buf b out" using k o
      by (auto simp: value_parsed_def span_of_def steps_to_def slice_def intro!: exI [of _ k] exI [of _ i])
    then show ?thesis using that(2) r True o(1) by simp
  qed
qed

lemma decoded_value:
  assumes "decoded h a str (\<lambda>ob _. object_ok want ob) r" "span_of b = steps_to buf k" "1 \<le> k" "k \<le> snd buf"
    and "str = (fst buf + i, n)" "i + n \<le> k"
  shows "decoded h a buf (took h buf want)
    (map_option (\<lambda>(h, arena, ret). (h, arena, map_sum id (\<lambda>ob. (span_of b, ob)) ret)) r)"
proof -
  obtain h' a' ret where 1: "r = Some (h', a', ret)" "frame h h' str" "arena_grows a a'"
    "case ret of Inl e \<Rightarrow> e \<noteq> GG_ERR_OK | Inr x \<Rightarrow> object_ok want x" using assms(1) by (auto simp: decoded_def)
  have "frame h h' (fst buf, k)" using 1(2) assms(5,6) frame_mono [of h h' "fst buf + i" n "fst buf" k] by simp
  moreover from this have "frame h h' buf" using frame_mono [of h h' "fst buf" k "fst buf" "snd buf"] assms(4) by simp
  ultimately show ?thesis using 1 assms(2-4) by (cases ret) (auto simp: decoded_def took_def)
qed

lemma decode_json_str_decoded:
  assumes "arena_inv a"
  shows "decoded h a str (\<lambda>ob _. object_ok want ob) (case decode_json_str h str want of (h, ret) \<Rightarrow> Some (h, a, ret))"
proof -
  obtain bs ok where "unescaped h str = (bs, ok)" by (cases "unescaped h str")
  then have "unescape_string h str = (heap_write h (fst str) bs, if ok then Some (fst str, length bs) else None)"
    "frame h (heap_write h (fst str) bs) str"
    using unescape_loop_unescaped [of "fst str" str h] unescaped_len [of h str] frame_write [of bs "snd str" h "fst str"]
    by (auto simp: unescape_string_def)
  then show ?thesis using assms
    by (auto simp: decode_json_str_def decoded_def arena_grows_refl object_ok_def gg_obj_buf_def)
qed

lemma decoded_unchanged:
  assumes "arena_inv a" "case ret of Inl e \<Rightarrow> e \<noteq> GG_ERR_OK | Inr x \<Rightarrow> Q x h"
  shows "decoded h a buf Q (Some (h, a, ret))"
  using assms by (auto simp: decoded_def arena_grows_refl)

lemma take_json_val_takes: "n < fuel \<Longrightarrow> takes (take_json_val strtod fuel) n"
proof (induction fuel arbitrary: n)
  case (Suc fuel)
  show ?case unfolding takes_def
  proof (intro allI impI)
    fix h arena and buf :: span and want assume n: "snd buf \<le> n" and inv: "arena_inv arena"
    show "decoded h arena buf (took h buf want) (take_json_val strtod (Suc fuel) h arena buf want)"
    proof (rule value_call [of h buf PARSE_RESULT_INIT])
      fix b o1 assume "parser_call PARSER_JSON_VALUE (view h buf) (Some PARSE_RESULT_INIT) = Some (False, b, o1)"
      then show ?thesis using inv by (auto simp: arena_grows_refl)
    next
      fix b out
      assume r: "parser_call PARSER_JSON_VALUE (view h buf) (Some PARSE_RESULT_INIT) = Some (True, b, Some out)"
        and "value_parsed buf b out"
      then obtain k i l where v: "1 \<le> k" "k \<le> snd buf" "span_of b = steps_to buf k"
        "span_of (content out) = (fst buf + i, l)" "inner (json_type out) \<le> i" "i + l \<le> k"
        by (auto simp: value_parsed_def)
      let ?str = "span_of (content out)"
      let ?ok = "\<lambda>r. decoded h arena ?str (\<lambda>ob _. object_ok want ob) r"
      let ?result = "map_option (\<lambda>(h, arena, ret). (h, arena, map_sum id (\<lambda>ob. (span_of b, ob)) ret))"
      have finish: "decoded h arena buf (took h buf want) (?result x)" if "?ok x" for x
        by (rule decoded_value [OF that v(3,1,2,4,6)])
      have sub: "takes (take_json_val strtod fuel) (n - 1) \<and> snd ?str \<le> n - 1" if "inner (json_type out) = 1"
        using Suc.IH [of "n - 1"] Suc.prems v that n by simp
      have scalar: "?ok (Some (h, arena, Inr ob))" if "object_ok want ob" for ob
        using that inv by (auto intro!: decoded_unchanged)
      show ?thesis
      proof (cases "json_type out")
        case JSON_TYPE_STR
        then show ?thesis using finish [OF decode_json_str_decoded [OF inv]]
          by (simp add: r split: prod.splits)
      next
        case JSON_TYPE_NUMBER
        obtain x where x: "decode_json_number strtod h ?str want = Some x"
          "case x of Inl e \<Rightarrow> e \<noteq> GG_ERR_OK | Inr ob \<Rightarrow> (ob \<noteq> None \<longleftrightarrow> want) \<and> (\<forall>x. ob = Some x \<longrightarrow> all_maps_canonical x)"
          using number_call by blast
        then have "?ok (Some (h, arena, x))"
          by (intro decoded_unchanged [OF inv]) (auto simp: object_ok_def split: sum.splits)
        from finish [OF this] show ?thesis using JSON_TYPE_NUMBER x(1) by (simp add: r)
      next
        case JSON_TYPE_OBJECT
        then show ?thesis using finish [OF decode_json_object_decoded [OF conjunct1 [OF sub] conjunct2 [OF sub] inv take_json_val_delivers]]
          by (simp add: r inner_def)
      next
        case JSON_TYPE_ARRAY
        then show ?thesis using finish [OF decode_json_array_decoded [OF conjunct1 [OF sub] conjunct2 [OF sub] inv take_json_val_delivers]]
          by (simp add: r inner_def)
      qed (use finish [OF scalar] in \<open>simp_all add: r object_ok_def\<close>)
    qed
  qed
qed simp

lemma gg_json_decode_result:
  assumes "opt_inv arena"
  shows "\<exists>e h' arena' ob. gg_json_decode_destructive strtod h buf arena want = Some (e, h', arena', ob) \<and>
    frame h h' buf \<and> rel_option arena_grows arena arena' \<and> (e \<noteq> GG_ERR_OK \<or> \<not> want \<longrightarrow> arena' = arena) \<and>
    (e = GG_ERR_OK \<longrightarrow> object_ok want ob)"
proof -
  define a0 where "a0 = (case arena of None \<Rightarrow> \<lparr>arena_mem = 0, capacity = 0, index = 0\<rparr> | Some a \<Rightarrow> a)"
  have inv: "arena_inv a0" using assms by (cases arena) (auto simp: a0_def arena_inv_def)
  have "takes (take_json_val strtod (snd buf + 1)) (snd buf)" by (rule take_json_val_takes) simp
  with inv have "decoded h a0 buf (took h buf want) (take_json_val strtod (snd buf + 1) h a0 buf want)"
    unfolding takes_def by blast
  then obtain h' a' ret where 1: "take_json_val strtod (snd buf + 1) h a0 buf want = Some (h', a', ret)" "frame h h' buf"
    "arena_grows a0 a'" "case ret of Inl e \<Rightarrow> e \<noteq> GG_ERR_OK | Inr x \<Rightarrow> took h buf want x h'"
    unfolding decoded_def by blast
  have d: "gg_json_decode_destructive strtod h buf arena want =
    Some (case ret of
             Inl e \<Rightarrow> (e, h', arena, None)
           | Inr (rest, ob) \<Rightarrow>
               if snd rest > 0 then (GG_ERR_PARSE, h', arena, ob)
               else (GG_ERR_OK, h', if want then map_option (\<lambda>_. a') arena else arena, ob))"
    unfolding gg_json_decode_destructive_def Let_def a0_def [symmetric] 1(1) by simp
  have "rel_option arena_grows arena arena" using assms by (cases arena) (auto simp: arena_grows_refl)
  moreover have "rel_option arena_grows arena (map_option (\<lambda>_. a') arena)"
    using 1(3) by (cases arena) (auto simp: a0_def)
  ultimately show ?thesis using 1(2,4) unfolding d by (cases ret) (auto simp: took_def)
qed

text \<open>
  C27: Decoding returns for every input, every \<open>strtod\<close> and every arena: no element of a list and no pair
  of a map is stored outside the array that was allocated for it in the arena. Apart from these
  arrays it writes to no byte outside the input buffer; the arena stays well-formed and keeps its
  memory, only ever grows, and is exactly as before if an error is reported or no object was asked
  for.
\<close>
theorem gg_json_decode_safe:
  assumes "opt_inv arena"
  shows "\<exists>e h' arena' ob. gg_json_decode_destructive strtod h buf arena want = Some (e, h', arena', ob) \<and>
    frame h h' buf \<and> rel_option arena_grows arena arena' \<and> (e \<noteq> GG_ERR_OK \<or> \<not> want \<longrightarrow> arena' = arena)"
  using gg_json_decode_result [OF assms, of strtod h buf want] by blast

theorem gg_json_decode_safe_witness:
  \<comment> \<open>the text \<open>[true]\<close>, with an arena that has room for the array of one element\<close>
  "\<exists>e h' arena' ob. gg_json_decode_destructive (\<lambda>_. (0, False)) (heap_write (\<lambda>_. 0) 5 [91, 116, 114, 117, 101, 93]) (5, 6)
     (Some \<lparr>arena_mem = 1000, capacity = 64, index = 8\<rparr>) True = Some (e, h', arena', ob) \<and>
   frame (heap_write (\<lambda>_. 0) 5 [91, 116, 114, 117, 101, 93]) h' (5, 6) \<and> rel_option arena_grows (Some \<lparr>arena_mem = 1000, capacity = 64, index = 8\<rparr>) arena'"
proof -
  have "opt_inv (Some \<lparr>arena_mem = 1000, capacity = 64, index = 8\<rparr>)" by (simp add: arena_inv_def)
  from gg_json_decode_safe [OF this, of "\<lambda>_. (0, False)" "heap_write (\<lambda>_. 0) 5 [91, 116, 114, 117, 101, 93]" "(5, 6)" True] show ?thesis by blast
qed

text \<open>
  C28: A decoded object is canonical: if decoding succeeds and an object was asked for, an object is
  delivered, and every map in it, at any depth, has its keys in strictly increasing order.
\<close>
theorem gg_json_decode_canonical:
  assumes "opt_inv arena" "gg_json_decode_destructive strtod h buf arena True = Some (GG_ERR_OK, h', arena', ob)"
  shows "\<exists>x. ob = Some x \<and> all_maps_canonical x"
  using gg_json_decode_result [OF assms(1), of strtod h buf True] assms(2) by (auto simp: object_ok_def)

theorem gg_json_decode_canonical_witness:
  "gg_json_decode_destructive (\<lambda>_. (0, False)) (heap_write (\<lambda>_. 0) 5 [123, 125]) (5, 2)
     (Some \<lparr>arena_mem = 1000, capacity = 64, index = 8\<rparr>) True =
   Some (GG_ERR_OK, heap_write (\<lambda>_. 0) 5 [123, 125], Some \<lparr>arena_mem = 1000, capacity = 64, index = 8\<rparr>, Some (OBJ_MAP 0 [])) \<and>
   all_maps_canonical (OBJ_MAP 0 [])"
proof -
  let ?h = "heap_write (\<lambda>_. 0) 5 [123, 125]" and ?a = "\<lparr>arena_mem = 1000, capacity = 64, index = 8\<rparr> :: GgArena"
  have v: "view ?h (5, 2) = \<lparr>data = 5, mem = [123, 125]\<rparr>"
    by (simp add: view_def heap_write_def upt_conv_Cons numeral_2_eq_2)
  have c: "parser_call PARSER_JSON_VALUE \<lparr>data = 5, mem = [123, 125]\<rparr> (Some PARSE_RESULT_INIT) =
    Some (True, \<lparr>data = 7, mem = []\<rparr>, Some \<lparr>json_type = JSON_TYPE_OBJECT, content = \<lparr>data = 6, mem = []\<rparr>, count = 0\<rparr>)"
    by (simp add: parser_eval grammar_defs PARSE_RESULT_INIT_def match_of_def)
  have m: "gg_map_canonicalize_shallow [] = []" using gg_map_canonicalize_shallow_facts(3) [of "[]"] by simp
  have d: "gg_json_decode_destructive (\<lambda>_. (0, False)) ?h (5, 2) (Some ?a) True =
    Some (GG_ERR_OK, ?h, Some ?a, Some (OBJ_MAP 0 []))"
    by (simp add: gg_json_decode_destructive_def numeral_3_eq_3 v c m span_of_def decode_json_object_def alloc_items_def gg_obj_map_def)
  have "opt_inv (Some ?a)" by (simp add: arena_inv_def)
  from gg_json_decode_canonical [OF this d] d show ?thesis by blast
qed

end
