(* ===== verification/Object_Compare.thy ===== *)
theory Object_Compare
  imports Object_Visit
begin

text \<open>
  Deep comparison of objects (\<open>src/object_compare.c\<close>, \<open>priv_include/gg/object_compare.h\<close>).

  The loop keeps one stack for both objects; a level holds the two objects it compares.
  Neither object changes, so levels hold the objects themselves.

  When a mismatch is found, \<open>print_state\<close> logs the position. For a map on the way it takes the
  pairs of the outermost object (\<open>obj[i - i]\<close>) with the index into the map at level \<open>i - 1\<close>. If there are fewer
  pairs, or the outermost object is no map, this reads memory that is not a pair: the behaviour is
  undefined, and so the result of \<open>gg_obj_eq\<close> is \<open>None\<close>.

  Doubles are bit patterns; \<open>f64_eq\<close> is the IEEE comparison behind the operator \<open>!=\<close>.
\<close>

section \<open>The loop\<close>

definition f64_is_nan :: "f64 \<Rightarrow> bool" where
  "f64_is_nan v = (drop_bit 52 v AND 0x7FF = 0x7FF \<and> v AND 0xFFFFFFFFFFFFF \<noteq> 0)"

definition f64_is_zero :: "f64 \<Rightarrow> bool" where
  "f64_is_zero v = (v AND 0x7FFFFFFFFFFFFFFF = 0)"

definition f64_eq :: "f64 \<Rightarrow> f64 \<Rightarrow> bool" where
  "f64_eq a b = (\<not> f64_is_nan a \<and> \<not> f64_is_nan b \<and> (a = b \<or> f64_is_zero a \<and> f64_is_zero b))"

definition bool_eq :: "bool \<Rightarrow> bool \<Rightarrow> bool" where
  "bool_eq lhs rhs = (if lhs \<noteq> rhs then False else True)"

definition int_eq :: "u64 \<Rightarrow> u64 \<Rightarrow> bool" where
  "int_eq lhs rhs = (if lhs \<noteq> rhs then False else True)"

definition buf_eq :: "GgBuffer \<Rightarrow> GgBuffer \<Rightarrow> bool" where
  "buf_eq lhs rhs = (if \<not> gg_buffer_eq lhs rhs then False else True)"

record eq_level =
  el_lhs :: GgObject
  el_rhs :: GgObject
  el_state :: IterLevelState
  el_index :: nat

record eq_state =
  eq_levels :: "eq_level list"  \<comment> \<open>levels \<open>lhs_state.index\<close> down to 0\<close>
  eq_subobjects :: nat

fun print_levels :: "GgObject \<Rightarrow> eq_level list \<Rightarrow> bool" where
  \<comment> \<open>from level \<open>state->index - 1\<close> down to 0; whether all reads are of pairs that exist\<close>
  "print_levels outermost [] = True"
| "print_levels outermost (l # ls) =
     (case el_state l of
        LEVEL_LIST \<Rightarrow> print_levels outermost ls
      | LEVEL_MAP \<Rightarrow>
          (let pairs = snd (gg_obj_into_map outermost)
           in 1 \<le> el_index l \<and> el_index l - 1 < length pairs \<and> print_levels outermost ls)
      | LEVEL_DEFAULT \<Rightarrow> True)"

definition print_state_ok :: "eq_state \<Rightarrow> bool" where
  "print_state_ok s = (case eq_levels s of [] \<Rightarrow> True | l # ls \<Rightarrow> print_levels (el_lhs (last (l # ls))) ls)"

definition eq_fail :: "eq_state \<Rightarrow> eq_state + bool option" where
  \<comment> \<open>\<open>print_state(&lhs_state); return false;\<close>\<close>
  "eq_fail s = Inr (if print_state_ok s then Some False else None)"

definition eq_leave :: "eq_state \<Rightarrow> eq_state + bool option" where
  "eq_leave s =
     (case eq_levels s of
        l # m # ls \<Rightarrow> Inl (s\<lparr>eq_levels := m # ls\<rparr>)
      | _ \<Rightarrow> Inr (Some True))"

definition eq_enter :: "eq_state \<Rightarrow> GgObject \<Rightarrow> GgObject \<Rightarrow> eq_state + bool option" where
  "eq_enter s lhs rhs =
     (case eq_levels s of
        [] \<Rightarrow> Inr (Some True)
      | l # ls \<Rightarrow>
          if length ls \<ge> GG_MAX_OBJECT_DEPTH - 1 then eq_fail s
          else Inl (s\<lparr>eq_levels :=
                 \<lparr>el_lhs = lhs, el_rhs = rhs, el_state = LEVEL_DEFAULT, el_index = 0\<rparr>
                 # l\<lparr>el_index := (el_index l + 1) mod 256\<rparr> # ls\<rparr>))"

definition eq_step :: "eq_state \<Rightarrow> eq_state + bool option" where
  "eq_step s =
     (case eq_levels s of
        [] \<Rightarrow> Inr (Some True)
      | l # ls \<Rightarrow>
     (let lhs_index = el_index l in
      case el_state l of
        LEVEL_DEFAULT \<Rightarrow>
          (case (el_lhs l, el_rhs l) of
             (OBJ_NULL, OBJ_NULL) \<Rightarrow> eq_leave s
           | (OBJ_BOOLEAN a, OBJ_BOOLEAN b) \<Rightarrow> if \<not> bool_eq a b then eq_fail s else eq_leave s
           | (OBJ_I64 a, OBJ_I64 b) \<Rightarrow> if \<not> int_eq a b then eq_fail s else eq_leave s
           | (OBJ_F64 a, OBJ_F64 b) \<Rightarrow> if \<not> f64_eq a b then Inr (Some False) else eq_leave s
           | (OBJ_BUF a, OBJ_BUF b) \<Rightarrow> if \<not> buf_eq a b then eq_fail s else eq_leave s
           | (OBJ_LIST _ xs, OBJ_LIST _ ys) \<Rightarrow>
               if length xs > GG_MAX_OBJECT_SUBOBJECTS - eq_subobjects s then eq_fail s
               else if length xs \<noteq> length ys then eq_fail s
               else Inl (s\<lparr>eq_subobjects := (eq_subobjects s + length xs) mod 256,
                           eq_levels := l\<lparr>el_state := LEVEL_LIST\<rparr> # ls\<rparr>)
           | (OBJ_MAP _ kvs, OBJ_MAP _ lvs) \<Rightarrow>
               if length kvs > (GG_MAX_OBJECT_SUBOBJECTS - eq_subobjects s) div 2 then eq_fail s
               else if length kvs \<noteq> length lvs then eq_fail s
               else Inl (s\<lparr>eq_subobjects := (eq_subobjects s + length kvs * 2) mod 256,
                           eq_levels := l\<lparr>el_state := LEVEL_MAP\<rparr> # ls\<rparr>)
           | _ \<Rightarrow> eq_fail s)
      | LEVEL_LIST \<Rightarrow>
          (let xs = snd (gg_obj_into_list (el_lhs l)); ys = snd (gg_obj_into_list (el_rhs l)) in
           if lhs_index = length xs then eq_leave s
           else eq_enter s (xs ! lhs_index) (ys ! lhs_index))
      | LEVEL_MAP \<Rightarrow>
          (let kvs = snd (gg_obj_into_map (el_lhs l)); lvs = snd (gg_obj_into_map (el_rhs l)) in
           if lhs_index = length kvs then eq_leave s
           else if \<not> gg_buffer_eq (fst (kvs ! lhs_index)) (fst (lvs ! lhs_index)) then eq_fail s
           else eq_enter s (snd (kvs ! lhs_index)) (snd (lvs ! lhs_index)))))"

partial_function (option) eq_loop :: "eq_state \<Rightarrow> bool option" where
  "eq_loop s = (case eq_step s of Inr r \<Rightarrow> r | Inl s' \<Rightarrow> eq_loop s')"

definition gg_obj_eq :: "GgObject \<Rightarrow> GgObject \<Rightarrow> bool option" where
  "gg_obj_eq lhs rhs =
     eq_loop \<lparr>eq_levels = [\<lparr>el_lhs = lhs, el_rhs = rhs, el_state = LEVEL_DEFAULT, el_index = 0\<rparr>],
              eq_subobjects = 0\<rparr>"

section \<open>Structural equality\<close>

fun same_obj :: "GgObject \<Rightarrow> GgObject \<Rightarrow> bool" where
  "same_obj OBJ_NULL OBJ_NULL = True"
| "same_obj (OBJ_BOOLEAN a) (OBJ_BOOLEAN b) = (a = b)"
| "same_obj (OBJ_I64 a) (OBJ_I64 b) = (a = b)"
| "same_obj (OBJ_F64 a) (OBJ_F64 b) = f64_eq a b"
| "same_obj (OBJ_BUF a) (OBJ_BUF b) = (mem a = mem b)"
| "same_obj (OBJ_LIST p xs) (OBJ_LIST q ys) = list_all2 same_obj xs ys"
| "same_obj (OBJ_MAP p kvs) (OBJ_MAP q lvs) =
     list_all2 (\<lambda>kv lv. mem (fst kv) = mem (fst lv) \<and> same_obj (snd kv) (snd lv)) kvs lvs"
| "same_obj _ _ = False"

text \<open>What is left to check at a level of depth \<open>d\<close>, and the subobjects still to be counted.\<close>

definition pair_ok :: "nat \<Rightarrow> GgObject \<Rightarrow> GgObject \<Rightarrow> bool" where
  "pair_ok d x y = (same_obj x y \<and> d + obj_depth x \<le> GG_MAX_OBJECT_DEPTH)"

fun level_left :: "nat \<Rightarrow> eq_level \<Rightarrow> bool" where
  "level_left d l =
     (case el_state l of
        LEVEL_DEFAULT \<Rightarrow> pair_ok d (el_lhs l) (el_rhs l)
      | LEVEL_LIST \<Rightarrow> list_all2 (pair_ok (Suc d)) (drop (el_index l) (snd (gg_obj_into_list (el_lhs l))))
                       (drop (el_index l) (snd (gg_obj_into_list (el_rhs l))))
      | LEVEL_MAP \<Rightarrow> list_all2 (\<lambda>kv lv. mem (fst kv) = mem (fst lv) \<and> pair_ok (Suc d) (snd kv) (snd lv))
                       (drop (el_index l) (snd (gg_obj_into_map (el_lhs l))))
                       (drop (el_index l) (snd (gg_obj_into_map (el_rhs l)))))"

definition level_count :: "eq_level \<Rightarrow> nat" where
  "level_count l =
     (case el_state l of
        LEVEL_DEFAULT \<Rightarrow> obj_subobjects (el_lhs l)
      | LEVEL_LIST \<Rightarrow> sum_list (map obj_subobjects (drop (el_index l) (snd (gg_obj_into_list (el_lhs l)))))
      | LEVEL_MAP \<Rightarrow> sum_list (map (obj_subobjects \<circ> snd) (drop (el_index l) (snd (gg_obj_into_map (el_lhs l))))))"

fun stack_left :: "eq_level list \<Rightarrow> bool" where
  "stack_left [] = True"
| "stack_left (l # ls) = (level_left (length ls) l \<and> stack_left ls)"

text \<open>The invariant of a level, and a measure that every step decreases.\<close>

fun level_inv :: "eq_level \<Rightarrow> bool" where
  "level_inv l =
     (case el_state l of
        LEVEL_DEFAULT \<Rightarrow> el_index l = 0
      | LEVEL_LIST \<Rightarrow> (let xs = snd (gg_obj_into_list (el_lhs l)); ys = snd (gg_obj_into_list (el_rhs l))
                       in el_index l \<le> length xs \<and> length xs = length ys \<and> length xs \<le> 255)
      | LEVEL_MAP \<Rightarrow> (let xs = snd (gg_obj_into_map (el_lhs l)); ys = snd (gg_obj_into_map (el_rhs l))
                       in el_index l \<le> length xs \<and> length xs = length ys \<and> length xs \<le> 255))"

fun obj_steps :: "GgObject \<Rightarrow> nat" where
  "obj_steps (OBJ_LIST p xs) = 2 + sum_list (map (\<lambda>x. Suc (obj_steps x)) xs)"
| "obj_steps (OBJ_MAP p kvs) = 2 + sum_list (map (\<lambda>kv. Suc (obj_steps (snd kv))) kvs)"
| "obj_steps _ = 2"

definition level_steps :: "eq_level \<Rightarrow> nat" where
  "level_steps l =
     (case el_state l of
        LEVEL_DEFAULT \<Rightarrow> obj_steps (el_lhs l)
      | LEVEL_LIST \<Rightarrow> Suc (sum_list (map (\<lambda>x. Suc (obj_steps x)) (drop (el_index l) (snd (gg_obj_into_list (el_lhs l))))))
      | LEVEL_MAP \<Rightarrow> Suc (sum_list (map (\<lambda>kv. Suc (obj_steps (snd kv))) (drop (el_index l) (snd (gg_obj_into_map (el_lhs l)))))))"

definition eq_inv :: "eq_state \<Rightarrow> bool" where
  "eq_inv s = (eq_levels s \<noteq> [] \<and> length (eq_levels s) \<le> GG_MAX_OBJECT_DEPTH \<and>
     eq_subobjects s \<le> GG_MAX_OBJECT_SUBOBJECTS \<and> list_all level_inv (eq_levels s))"

definition eq_verdict :: "eq_state \<Rightarrow> bool" where
  "eq_verdict s =
     (stack_left (eq_levels s) \<and>
      eq_subobjects s + sum_list (map level_count (eq_levels s)) \<le> GG_MAX_OBJECT_SUBOBJECTS)"

definition eq_measure :: "eq_state \<Rightarrow> nat" where
  "eq_measure s = sum_list (map level_steps (eq_levels s))"

text \<open>A result \<open>r\<close> of a step is right for the state \<open>s\<close>.\<close>

definition step_right :: "eq_state \<Rightarrow> eq_state + bool option \<Rightarrow> bool" where
  "step_right s r =
     (case r of
        Inr r \<Rightarrow> (r = Some True) = eq_verdict s
      | Inl s' \<Rightarrow> eq_inv s' \<and> eq_verdict s' = eq_verdict s \<and> eq_measure s' < eq_measure s)"

lemma step_right_fail [simp]: "step_right s (eq_fail s) \<longleftrightarrow> \<not> eq_verdict s"
  by (simp add: step_right_def eq_fail_def)

lemma eq_loop_right:
  assumes step: "\<And>s. eq_inv s \<Longrightarrow> step_right s (eq_step s)" and "eq_inv s"
  shows "(eq_loop s = Some True) = eq_verdict s"
  using \<open>eq_inv s\<close>
proof (induction "eq_measure s" arbitrary: s rule: less_induct)
  case less
  show ?case
    using step [OF less.prems] less.hyps
    by (subst eq_loop.simps) (auto simp: step_right_def split: sum.splits)
qed

lemma step_right_leave:
  assumes "eq_inv s" "eq_levels s = l # ls" "level_left (length ls) l" "level_count l = 0"
    "level_steps l > 0"
  shows "step_right s (eq_leave s)"
  using assms by (cases ls)
    (auto simp: step_right_def eq_leave_def eq_inv_def eq_verdict_def eq_measure_def)

lemma obj_depth_pos: "0 < obj_depth obj"
  by (cases obj) auto

lemma obj_steps_pos [simp]: "0 < obj_steps obj"
  by (cases obj) auto

lemma level_steps_pos [simp]: "0 < level_steps l"
  by (auto simp: level_steps_def split: IterLevelState.split)

lemma pair_ok_depth: "pair_ok d x y \<Longrightarrow> Suc d \<le> GG_MAX_OBJECT_DEPTH"
  using obj_depth_pos [of x] by (auto simp: pair_ok_def)

lemma pair_ok_list:
  "Suc d \<le> GG_MAX_OBJECT_DEPTH \<Longrightarrow>
   pair_ok d (OBJ_LIST p xs) (OBJ_LIST q ys) \<longleftrightarrow> list_all2 (pair_ok (Suc d)) xs ys"
  by (auto simp: pair_ok_def [abs_def] Suc_foldr_max_le list_all2_conv_all_nth all_set_conv_all_nth
      simp del: add_Suc_right)

lemma pair_ok_map:
  "Suc d \<le> GG_MAX_OBJECT_DEPTH \<Longrightarrow>
   pair_ok d (OBJ_MAP p kvs) (OBJ_MAP q lvs) \<longleftrightarrow>
   list_all2 (\<lambda>kv lv. mem (fst kv) = mem (fst lv) \<and> pair_ok (Suc d) (snd kv) (snd lv)) kvs lvs"
  by (auto simp: pair_ok_def Suc_foldr_max_le list_all2_conv_all_nth all_set_conv_all_nth
      simp del: add_Suc_right)

lemma eq_inv_cons:
  "eq_inv \<lparr>eq_levels = l # ls, eq_subobjects = s\<rparr> \<longleftrightarrow>
     Suc (length ls) \<le> GG_MAX_OBJECT_DEPTH \<and> s \<le> GG_MAX_OBJECT_SUBOBJECTS \<and> level_inv l \<and> list_all level_inv ls"
  by (auto simp: eq_inv_def)

lemma step_mismatch:
  assumes "gg_obj_type x \<noteq> gg_obj_type y"
  shows "step_right \<lparr>eq_levels = \<lparr>el_lhs = x, el_rhs = y, el_state = LEVEL_DEFAULT, el_index = 0\<rparr> # ls,
             eq_subobjects = s\<rparr>
           (eq_step \<lparr>eq_levels = \<lparr>el_lhs = x, el_rhs = y, el_state = LEVEL_DEFAULT, el_index = 0\<rparr> # ls,
             eq_subobjects = s\<rparr>)"
  using assms
  by (cases x; cases y; simp add: eq_step_def step_right_def eq_fail_def eq_verdict_def pair_ok_def)

lemma step_default_list:
  assumes "eq_inv \<lparr>eq_levels = \<lparr>el_lhs = OBJ_LIST p xs, el_rhs = OBJ_LIST q ys,
             el_state = LEVEL_DEFAULT, el_index = 0\<rparr> # ls, eq_subobjects = s\<rparr>" (is "eq_inv ?s")
  shows "step_right ?s (eq_step ?s)"
proof -
  consider (many) "length xs > GG_MAX_OBJECT_SUBOBJECTS - s" | (len) "length xs \<noteq> length ys"
    | (ok) "length xs = length ys" "s + length xs \<le> 255" "(s + length xs) mod 256 = s + length xs"
    using assms by (fastforce simp: eq_inv_cons GG_MAX_OBJECT_SUBOBJECTS_def)
  then show ?thesis
  proof cases
    case many
    then show ?thesis using assms
      by (auto simp: eq_step_def step_right_def eq_fail_def eq_verdict_def level_count_def)
  next
    case len
    then show ?thesis using assms
      by (auto simp: eq_step_def step_right_def eq_fail_def eq_verdict_def pair_ok_def list_all2_lengthD)
  next
    case ok
    then have "\<not> length xs > GG_MAX_OBJECT_SUBOBJECTS - s"
      by (auto simp: GG_MAX_OBJECT_SUBOBJECTS_def)
    then show ?thesis using assms ok
      by (simp add: eq_step_def step_right_def eq_fail_def eq_verdict_def eq_inv_cons eq_measure_def level_steps_def
          level_count_def pair_ok_list GG_MAX_OBJECT_SUBOBJECTS_def add.assoc)
  qed
qed

lemma step_default_map:
  assumes "eq_inv \<lparr>eq_levels = \<lparr>el_lhs = OBJ_MAP p kvs, el_rhs = OBJ_MAP q lvs,
             el_state = LEVEL_DEFAULT, el_index = 0\<rparr> # ls, eq_subobjects = s\<rparr>" (is "eq_inv ?s")
  shows "step_right ?s (eq_step ?s)"
proof -
  consider (many) "length kvs > (GG_MAX_OBJECT_SUBOBJECTS - s) div 2" | (len) "length kvs \<noteq> length lvs"
    | (ok) "length kvs = length lvs" "s + 2 * length kvs \<le> 255" "(s + length kvs * 2) mod 256 = s + 2 * length kvs"
    using assms by (fastforce simp: eq_inv_cons GG_MAX_OBJECT_SUBOBJECTS_def)
  then show ?thesis
  proof cases
    case many
    then have "s + 2 * length kvs > GG_MAX_OBJECT_SUBOBJECTS" by simp
    then show ?thesis using assms many
      by (auto simp: eq_step_def step_right_def eq_fail_def eq_verdict_def level_count_def)
  next
    case len
    then show ?thesis using assms
      by (auto simp: eq_step_def step_right_def eq_fail_def eq_verdict_def pair_ok_def list_all2_lengthD)
  next
    case ok
    then have "\<not> length kvs > (GG_MAX_OBJECT_SUBOBJECTS - s) div 2"
      by (auto simp: GG_MAX_OBJECT_SUBOBJECTS_def)
    then show ?thesis using assms ok
      by (simp add: eq_step_def step_right_def eq_fail_def eq_verdict_def eq_inv_cons eq_measure_def level_steps_def
          level_count_def pair_ok_map GG_MAX_OBJECT_SUBOBJECTS_def add.assoc comp_def mult.commute [of _ 2])
  qed
qed

lemma step_default_scalar:
  assumes inv: "eq_inv \<lparr>eq_levels = \<lparr>el_lhs = x, el_rhs = y, el_state = LEVEL_DEFAULT, el_index = 0\<rparr> # ls,
             eq_subobjects = s\<rparr>" (is "eq_inv ?s")
    and ty: "gg_obj_type x = gg_obj_type y" "gg_obj_type x \<noteq> GG_TYPE_LIST" "gg_obj_type x \<noteq> GG_TYPE_MAP"
  shows "step_right ?s (eq_step ?s)"
proof -
  have "eq_step ?s = (if same_obj x y then eq_leave ?s else if gg_obj_type x = GG_TYPE_F64 then Inr (Some False) else eq_fail ?s)"
    using ty by (cases x; cases y) (simp_all add: eq_step_def bool_eq_def int_eq_def buf_eq_def)
  moreover have "obj_subobjects x = 0" "obj_depth x = 1"
    using ty by (cases x; simp)+
  ultimately show ?thesis
  proof (cases "same_obj x y")
    case True
    have "step_right ?s (eq_leave ?s)"
      using inv True \<open>obj_subobjects x = 0\<close> \<open>obj_depth x = 1\<close>
      by (intro step_right_leave [OF inv]) (auto simp: pair_ok_def eq_inv_cons level_count_def)
    with True \<open>eq_step ?s = _\<close> show ?thesis by simp
  qed (simp add: step_right_def eq_fail_def eq_verdict_def pair_ok_def)
qed

lemma step_enter:
  assumes inv: "eq_inv \<lparr>eq_levels = l # ls, eq_subobjects = s\<rparr>" and i: "el_index l < 255"
    and left: "level_left (length ls) l \<longleftrightarrow>
       pair_ok (Suc (length ls)) x y \<and> level_left (length ls) (l\<lparr>el_index := Suc (el_index l)\<rparr>)"
    and count: "level_count l = obj_subobjects x + level_count (l\<lparr>el_index := Suc (el_index l)\<rparr>)"
    and steps: "level_steps l = Suc (obj_steps x) + level_steps (l\<lparr>el_index := Suc (el_index l)\<rparr>)"
    and inv': "level_inv (l\<lparr>el_index := Suc (el_index l)\<rparr>)"
  shows "step_right \<lparr>eq_levels = l # ls, eq_subobjects = s\<rparr>
           (eq_enter \<lparr>eq_levels = l # ls, eq_subobjects = s\<rparr> x y)"
proof (cases "length ls \<ge> GG_MAX_OBJECT_DEPTH - 1")
  case True
  then have "\<not> pair_ok (Suc (length ls)) x y"
    using pair_ok_depth [of "Suc (length ls)" x y] by auto
  with True show ?thesis
    by (simp add: eq_enter_def step_right_def eq_fail_def eq_verdict_def left del: level_left.simps)
next
  case False
  have "(el_index l + 1) mod 256 = Suc (el_index l)" using i by simp
  with False inv show ?thesis
    by (simp add: eq_enter_def step_right_def eq_fail_def eq_verdict_def left count steps eq_inv_cons inv'
        eq_measure_def level_count_def [of "\<lparr>el_lhs = x, el_rhs = y, el_state = LEVEL_DEFAULT, el_index = 0\<rparr>"]
        level_steps_def [of "\<lparr>el_lhs = x, el_rhs = y, el_state = LEVEL_DEFAULT, el_index = 0\<rparr>"]
        add.assoc del: level_left.simps level_inv.simps) auto
qed

lemma step_nested:
  assumes inv: "eq_inv \<lparr>eq_levels = l # ls, eq_subobjects = s\<rparr>" and st: "el_state l \<noteq> LEVEL_DEFAULT"
  shows "step_right \<lparr>eq_levels = l # ls, eq_subobjects = s\<rparr> (eq_step \<lparr>eq_levels = l # ls, eq_subobjects = s\<rparr>)"
proof (cases "el_state l")
  case LEVEL_LIST
  let ?xs = "snd (gg_obj_into_list (el_lhs l))" and ?ys = "snd (gg_obj_into_list (el_rhs l))"
  have lv: "el_index l \<le> length ?xs" "length ?xs = length ?ys" "length ?xs \<le> 255"
    using inv LEVEL_LIST by (auto simp: eq_inv_cons Let_def)
  show ?thesis
  proof (cases "el_index l = length ?xs")
    case True
    then have "step_right \<lparr>eq_levels = l # ls, eq_subobjects = s\<rparr> (eq_leave \<lparr>eq_levels = l # ls, eq_subobjects = s\<rparr>)"
      using LEVEL_LIST lv by (intro step_right_leave [OF inv]) (auto simp: level_count_def)
    with True LEVEL_LIST show ?thesis by (simp add: eq_step_def)
  next
    case False
    with lv have i: "el_index l < length ?xs" "el_index l < length ?ys" by auto
    have "step_right \<lparr>eq_levels = l # ls, eq_subobjects = s\<rparr>
        (eq_enter \<lparr>eq_levels = l # ls, eq_subobjects = s\<rparr> (?xs ! el_index l) (?ys ! el_index l))"
      using LEVEL_LIST lv i
      by (intro step_enter [OF inv]) (auto simp: level_count_def level_steps_def drop_cons)
    with False LEVEL_LIST show ?thesis by (simp add: eq_step_def Let_def)
  qed
next
  case LEVEL_MAP
  let ?xs = "snd (gg_obj_into_map (el_lhs l))" and ?ys = "snd (gg_obj_into_map (el_rhs l))"
  have lv: "el_index l \<le> length ?xs" "length ?xs = length ?ys" "length ?xs \<le> 255"
    using inv LEVEL_MAP by (auto simp: eq_inv_cons Let_def)
  show ?thesis
  proof (cases "el_index l = length ?xs")
    case True
    then have "step_right \<lparr>eq_levels = l # ls, eq_subobjects = s\<rparr> (eq_leave \<lparr>eq_levels = l # ls, eq_subobjects = s\<rparr>)"
      using LEVEL_MAP lv by (intro step_right_leave [OF inv]) (auto simp: level_count_def)
    with True LEVEL_MAP show ?thesis by (simp add: eq_step_def)
  next
    case False
    with lv have i: "el_index l < length ?xs" "el_index l < length ?ys" by auto
    show ?thesis
    proof (cases "mem (fst (?xs ! el_index l)) = mem (fst (?ys ! el_index l))")
      case True
      have "step_right \<lparr>eq_levels = l # ls, eq_subobjects = s\<rparr>
          (eq_enter \<lparr>eq_levels = l # ls, eq_subobjects = s\<rparr> (snd (?xs ! el_index l)) (snd (?ys ! el_index l)))"
        using LEVEL_MAP lv i True
        by (intro step_enter [OF inv]) (auto simp: level_count_def level_steps_def drop_cons)
      with False True LEVEL_MAP show ?thesis by (simp add: eq_step_def Let_def)
    next
      case keys: False
      with False LEVEL_MAP i show ?thesis
        by (simp add: eq_step_def Let_def step_right_def eq_fail_def eq_verdict_def drop_cons)
    qed
  qed
qed (use st in simp)

lemma step_all:
  assumes "eq_inv s"
  shows "step_right s (eq_step s)"
proof -
  obtain l ls n where s: "s = \<lparr>eq_levels = l # ls, eq_subobjects = n\<rparr>"
    using assms by (cases s; cases "eq_levels s") (auto simp: eq_inv_def)
  show ?thesis
  proof (cases "el_state l = LEVEL_DEFAULT")
    case True
    then obtain x y where l: "l = \<lparr>el_lhs = x, el_rhs = y, el_state = LEVEL_DEFAULT, el_index = 0\<rparr>"
      using assms s by (cases l) (auto simp: eq_inv_cons)
    show ?thesis
    proof (cases "gg_obj_type x = gg_obj_type y")
      case True
      then show ?thesis
        using assms unfolding s l
        by (cases x; cases y) (simp_all add: step_default_list step_default_map step_default_scalar)
    qed (simp add: s l step_mismatch)
  qed (use assms s step_nested in simp)
qed

lemma eq_start_inv: "eq_inv \<lparr>eq_levels = [\<lparr>el_lhs = lhs, el_rhs = rhs, el_state = LEVEL_DEFAULT, el_index = 0\<rparr>], eq_subobjects = 0\<rparr>"
  by (simp add: eq_inv_def GG_MAX_OBJECT_DEPTH_def)

lemma gg_obj_eq_true:
  "gg_obj_eq lhs rhs = Some True \<longleftrightarrow>
     same_obj lhs rhs \<and> obj_depth lhs \<le> GG_MAX_OBJECT_DEPTH \<and> obj_subobjects lhs \<le> GG_MAX_OBJECT_SUBOBJECTS"
  using eq_loop_right [OF step_all eq_start_inv, of lhs rhs]
  by (simp add: gg_obj_eq_def eq_verdict_def pair_ok_def level_count_def)

section \<open>Where the diagnostics are defined\<close>

fun maps_upto :: "nat \<Rightarrow> GgObject \<Rightarrow> bool" where
  \<comment> \<open>every map in the object has at most \<open>n\<close> pairs\<close>
  "maps_upto n (OBJ_LIST p xs) = list_all (maps_upto n) xs"
| "maps_upto n (OBJ_MAP p kvs) = (length kvs \<le> n \<and> list_all (\<lambda>kv. maps_upto n (snd kv)) kvs)"
| "maps_upto n _ = True"

definition diag_inv :: "GgObject \<Rightarrow> eq_state \<Rightarrow> bool" where
  \<comment> \<open>the outermost object is \<open>outermost\<close>, no map has more pairs than it, and parents have been entered\<close>
  "diag_inv outermost s \<longleftrightarrow>
     el_lhs (last (eq_levels s)) = outermost \<and>
     list_all (\<lambda>l. maps_upto (length (snd (gg_obj_into_map outermost))) (el_lhs l)) (eq_levels s) \<and>
     list_all (\<lambda>l. 1 \<le> el_index l) (tl (eq_levels s))"

lemma print_levels_defined:
  "list_all level_inv ls \<Longrightarrow> list_all (\<lambda>l. maps_upto (length (snd (gg_obj_into_map outermost))) (el_lhs l)) ls \<Longrightarrow>
   list_all (\<lambda>l. 1 \<le> el_index l) ls \<Longrightarrow> print_levels outermost ls"
proof (induction ls)
  case (Cons l ls)
  have "length (snd (gg_obj_into_map (el_lhs l))) \<le> length (snd (gg_obj_into_map outermost))"
    using Cons.prems(2) by (cases "el_lhs l") auto
  then show ?case using Cons by (cases "el_state l") (auto simp: Let_def)
qed simp

lemma print_state_ok_defined: "eq_inv s \<Longrightarrow> diag_inv outermost s \<Longrightarrow> print_state_ok s"
  by (cases "eq_levels s") (auto simp: eq_inv_def diag_inv_def print_state_ok_def intro!: print_levels_defined)

lemma eq_fail_Inl [simp]: "eq_fail s \<noteq> Inl s'"
  by (simp add: eq_fail_def)

lemma diag_inv_state:
  "diag_inv outermost \<lparr>eq_levels = l # ls, eq_subobjects = n\<rparr> \<Longrightarrow>
   diag_inv outermost \<lparr>eq_levels = l\<lparr>el_state := st\<rparr> # ls, eq_subobjects = m\<rparr>"
  by (auto simp: diag_inv_def)

lemma eq_leave_diag: "diag_inv outermost s \<Longrightarrow> eq_leave s = Inl s' \<Longrightarrow> diag_inv outermost s'"
  by (auto simp: eq_leave_def diag_inv_def split: list.splits)

lemma eq_enter_diag:
  assumes "diag_inv outermost s" "eq_levels s = l # ls" "el_index l < 255" "maps_upto (length (snd (gg_obj_into_map outermost))) x"
    and "eq_enter s x y = Inl s'"
  shows "diag_inv outermost s'"
  using assms by (auto simp: eq_enter_def diag_inv_def split: if_splits)

lemma maps_upto_nth:
  "maps_upto n obj \<Longrightarrow> i < length (snd (gg_obj_into_list obj)) \<Longrightarrow> maps_upto n (snd (gg_obj_into_list obj) ! i)"
  "maps_upto n obj \<Longrightarrow> i < length (snd (gg_obj_into_map obj)) \<Longrightarrow> maps_upto n (snd (snd (gg_obj_into_map obj) ! i))"
  by (cases obj; simp add: list_all_length)+

lemma eq_step_diag:
  assumes inv: "eq_inv s" and diag: "diag_inv outermost s" and step: "eq_step s = Inl s'"
  shows "diag_inv outermost s'"
proof -
  obtain l ls n where s: "s = \<lparr>eq_levels = l # ls, eq_subobjects = n\<rparr>"
    using inv by (cases s; cases "eq_levels s") (auto simp: eq_inv_def)
  have up: "maps_upto (length (snd (gg_obj_into_map outermost))) (el_lhs l)" using diag by (simp add: s diag_inv_def)
  note diag = diag [unfolded s]
  show ?thesis
  proof (cases "el_state l")
    case LEVEL_DEFAULT
    then show ?thesis using step eq_leave_diag [OF diag] diag_inv_state [OF diag] unfolding s
      by (cases "el_lhs l"; cases "el_rhs l") (auto simp: eq_step_def split: if_splits)
  next
    case LEVEL_LIST
    then show ?thesis using step inv eq_leave_diag [OF diag] eq_enter_diag [OF diag] maps_upto_nth(1) [OF up, of "el_index l"]
      by (auto simp: s eq_step_def eq_inv_cons Let_def split: if_splits)
  next
    case LEVEL_MAP
    then show ?thesis using step inv eq_leave_diag [OF diag] eq_enter_diag [OF diag] maps_upto_nth(2) [OF up, of "el_index l"]
      by (auto simp: s eq_step_def eq_inv_cons Let_def split: if_splits)
  qed
qed

lemma eq_step_defined:
  assumes "eq_inv s" "diag_inv outermost s"
  shows "eq_step s \<noteq> Inr None"
proof -
  have f: "eq_fail s = Inr (Some False)" using print_state_ok_defined [OF assms] by (simp add: eq_fail_def)
  have "eq_leave s \<noteq> Inr None" by (auto simp: eq_leave_def split: list.splits)
  moreover have "eq_enter s x y \<noteq> Inr None" for x y using f by (auto simp: eq_enter_def split: list.splits)
  ultimately show ?thesis using f
  proof (cases "eq_levels s")
    case (Cons l ls)
    with \<open>eq_leave s \<noteq> Inr None\<close> \<open>\<And>x y. eq_enter s x y \<noteq> Inr None\<close> f show ?thesis
      by (cases "el_state l"; cases "el_lhs l"; cases "el_rhs l") (simp_all add: eq_step_def Let_def)
  qed (simp add: eq_step_def)
qed

lemma eq_loop_defined: "eq_inv s \<Longrightarrow> diag_inv outermost s \<Longrightarrow> eq_loop s \<noteq> None"
proof (induction "eq_measure s" arbitrary: s rule: less_induct)
  case less
  show ?case
  proof (cases "eq_step s")
    case (Inl s')
    then have "eq_inv s'" "eq_measure s' < eq_measure s" using step_all [OF less.prems(1)] by (simp_all add: step_right_def)
    then show ?thesis using less.hyps eq_step_diag [OF less.prems Inl] Inl by (subst eq_loop.simps) simp
  next
    case (Inr r)
    then show ?thesis using eq_step_defined [OF less.prems] by (subst eq_loop.simps) (cases r; simp)
  qed
qed

lemma eq_counterexample:
  "gg_obj_eq (OBJ_LIST p [OBJ_MAP q [(k, OBJ_I64 1), (k', OBJ_I64 1)]]) (OBJ_LIST p' [OBJ_MAP q' [(k, OBJ_I64 1), (k', OBJ_I64 2)]]) = None"
  by (simp add: gg_obj_eq_def eq_step_def eq_leave_def eq_enter_def eq_fail_def print_state_ok_def int_eq_def gg_buffer_eq_def
      GG_MAX_OBJECT_SUBOBJECTS_def GG_MAX_OBJECT_DEPTH_def eq_loop.simps Let_def)

section \<open>Properties\<close>

text \<open>
  C33: \<open>gg_obj_eq\<close> returns true exactly if the objects are structurally equal (doubles compared as IEEE
  numbers, maps pair by pair in order) and the left object is within the traversal limits. Otherwise it
  returns false, provided that no map inside the left object has more pairs than the left object itself
  (none, if that is not a map): under this condition the position it logs for a
  mismatch is read from pairs that exist. Without it the behaviour may be undefined, as
  for two lists of one map that differ in the second pair.
\<close>
theorem gg_obj_eq_correct:
  "(gg_obj_eq lhs rhs = Some True \<longleftrightarrow>
      same_obj lhs rhs \<and> obj_depth lhs \<le> GG_MAX_OBJECT_DEPTH \<and> obj_subobjects lhs \<le> GG_MAX_OBJECT_SUBOBJECTS) \<and>
   (maps_upto (length (snd (gg_obj_into_map lhs))) lhs \<longrightarrow> gg_obj_eq lhs rhs \<noteq> None) \<and>
   gg_obj_eq (OBJ_LIST p [OBJ_MAP q [(k, OBJ_I64 1), (k', OBJ_I64 1)]]) (OBJ_LIST p' [OBJ_MAP q' [(k, OBJ_I64 1), (k', OBJ_I64 2)]]) = None"
proof (intro conjI impI)
  let ?s = "\<lparr>eq_levels = [\<lparr>el_lhs = lhs, el_rhs = rhs, el_state = LEVEL_DEFAULT, el_index = 0\<rparr>], eq_subobjects = 0\<rparr>"
  assume "maps_upto (length (snd (gg_obj_into_map lhs))) lhs"
  then have "diag_inv lhs ?s" by (simp add: diag_inv_def)
  then show "gg_obj_eq lhs rhs \<noteq> None" unfolding gg_obj_eq_def by (rule eq_loop_defined [OF eq_start_inv])
qed (simp_all add: gg_obj_eq_true eq_counterexample)

theorem gg_obj_eq_correct_witness:
  "gg_obj_eq (OBJ_MAP 1 [(GG_STR ''a'', OBJ_MAP 2 [(GG_STR ''b'', OBJ_I64 1)])]) (OBJ_MAP 3 [(GG_STR ''a'', OBJ_MAP 4 [(GG_STR ''b'', OBJ_I64 2)])]) =
   Some False"
proof -
  let ?l = "OBJ_MAP 1 [(GG_STR ''a'', OBJ_MAP 2 [(GG_STR ''b'', OBJ_I64 1)])]" and ?r = "OBJ_MAP 3 [(GG_STR ''a'', OBJ_MAP 4 [(GG_STR ''b'', OBJ_I64 2)])]"
  have "gg_obj_eq ?l ?r \<noteq> None" "gg_obj_eq ?l ?r \<noteq> Some True" using gg_obj_eq_correct [of ?l ?r] by simp_all
  then show ?thesis by (cases "gg_obj_eq ?l ?r") auto
qed

end
