(* ===== verification/Json_Text.thy ===== *)
theory Json_Text
  imports Json_Encode Json_Decode Object_Compare
begin

text \<open>
  The texts the JSON encoder writes, seen by the recogniser of the decoder (\<open>src/json_encode.c\<close>,
  \<open>src/json_decode.c\<close>).

  For each kind of value the lemmas derive that the grammar matches its text, consumes exactly
  that text, and reports its type, its content and the number of its elements: strings
  (\<open>accepts_string\<close>, for contents that the decoder takes for UTF-8), numbers (\<open>accepts_number\<close>), and
  lists and maps, which share the locale \<open>items_parser\<close>: what a container needs of the parser of
  its elements. The element parsers of arrays and objects interpret it.
\<close>

section \<open>Recognising values\<close>

definition not_ws :: "byte list \<Rightarrow> bool" where
  "not_ws r \<longleftrightarrow> r = [] \<or> hd r \<notin> {9, 10, 13, 32}"

lemma accepts_ws: "not_ws r \<Longrightarrow> accepts PARSER_JSON_WHITESPACE [] r silent"
  unfolding PARSER_JSON_WHITESPACE_def
  by (intro accepts_many_stop rejects_one_of rejects_one_of_Nil rejects_char) (auto simp: not_ws_def)

abbreviation value_alternatives :: "Parser list" where
  "value_alternatives \<equiv> [PARSER_JSON_STR, PARSER_JSON_NUMBER, PARSER_JSON_OBJECT, PARSER_JSON_ARRAY,
     PARSER_JSON_TRUE, PARSER_JSON_FALSE, PARSER_JSON_NULL]"

lemma accepts_value_ws:
  assumes "accepts (COMB_ONE_OF value_alternatives) t r f" "t \<noteq> []" "not_ws t" "not_ws r"
  shows "accepts PARSER_JSON_VALUE t r f"
proof -
  have t: "not_ws (t @ [] @ r)" using assms(2,3) by (simp add: not_ws_def)
  have "accepts (COMB_SEQUENCE [PARSER_JSON_WHITESPACE]) ([] @ []) r (\<lambda>a. silent (a + length []) \<circ> silent a)"
    by (rule accepts_seq [OF _ accepts_seq_Nil]) (simp add: accepts_ws [OF assms(4)])
  then have "accepts (COMB_SEQUENCE [PARSER_JSON_WHITESPACE]) [] r silent" by (simp add: comp_def)
  from accepts_seq [OF _ this, of "COMB_ONE_OF value_alternatives" t f]
  have "accepts (COMB_SEQUENCE [COMB_ONE_OF value_alternatives, PARSER_JSON_WHITESPACE]) t r f"
    using assms(1) by (simp add: comp_def)
  from accepts_seq [OF _ this, of PARSER_JSON_WHITESPACE "[]" silent] have "accepts json_value_parser t r f"
    using accepts_ws [OF t] by (simp add: comp_def json_value_parser_def)
  then show ?thesis by (rule accepts_value)
qed

lemma rejects_word: "hd bs \<noteq> c \<Longrightarrow> rejects (PARSER_STR (c # cs)) bs"
  by (rule rejects_str) (cases bs; simp)

lemma in_range_digits: "in_range 49 57 c \<Longrightarrow> in_range 48 57 c" "in_range 48 57 48"
  by (simp_all add: in_range_def)

lemma rejects_number: 
  assumes "hd bs \<noteq> 45" "\<not> in_range 48 57 (hd bs)"
  shows "rejects PARSER_JSON_NUMBER bs"
proof -
  have r: "\<not> in_range 49 57 (hd bs)" "hd bs \<noteq> 48" using assms(2) in_range_digits by auto
  have "rejects (COMB_ONE_OF [PARSER_CHAR 48, COMB_SEQUENCE [PARSER_CHAR_RANGE 49 57, COMB_ZERO_OR_MORE PARSER_DIGIT]]) bs"
    by (intro rejects_seq_head rejects_one_of rejects_one_of_Nil rejects_char rejects_range disjI2 r)
  from rejects_seq_tail [OF accepts_maybe_not [OF rejects_char] rejects_seq_head [OF this], of "45"]
  have "rejects PARSER_INT_PART bs" using assms(1) by (simp add: PARSER_INT_PART_def)
  then show ?thesis
    unfolding PARSER_JSON_NUMBER_def by (intro rejects_result_val rejects_seq_head)
qed

lemma rejects_values:
  "hd bs \<noteq> 34 \<Longrightarrow> rejects PARSER_JSON_STR bs"
  "hd bs \<noteq> 123 \<Longrightarrow> rejects PARSER_JSON_OBJECT bs"
  "hd bs \<noteq> 91 \<Longrightarrow> rejects PARSER_JSON_ARRAY bs"
  "hd bs \<noteq> 116 \<Longrightarrow> rejects PARSER_JSON_TRUE bs"
  "hd bs \<noteq> 102 \<Longrightarrow> rejects PARSER_JSON_FALSE bs"
  "hd bs \<noteq> 110 \<Longrightarrow> rejects PARSER_JSON_NULL bs"
  by (simp_all add: PARSER_JSON_STR_def PARSER_JSON_OBJECT_def PARSER_JSON_ARRAY_def PARSER_JSON_TRUE_def
      PARSER_JSON_FALSE_def PARSER_JSON_NULL_def rejects_seq_head rejects_char rejects_result_val rejects_word)

lemma accepts_one_of_nth:
  "i < length ps \<Longrightarrow> accepts (ps ! i) t r f \<Longrightarrow> (\<And>j. j < i \<Longrightarrow> rejects (ps ! j) (t @ r)) \<Longrightarrow>
   accepts (COMB_ONE_OF ps) t r f"
proof (induction ps arbitrary: i)
  case (Cons p ps)
  show ?case
  proof (cases i)
    case 0
    then show ?thesis using Cons.prems(2) by (simp add: accepts_one_of_here)
  next
    case (Suc j)
    have "accepts (COMB_ONE_OF ps) t r f"
      using Cons.IH [of j] Cons.prems Suc Cons.prems(3) [of "Suc _"] by simp
    then show ?thesis using Cons.prems(3) [of 0] Suc by (intro accepts_one_of_later) simp_all
  qed
qed simp

definition text_of_type :: "JsonType \<Rightarrow> byte list \<Rightarrow> bool" where
  \<comment> \<open>the first byte of a text selects the alternative\<close>
  "text_of_type type t \<longleftrightarrow> t \<noteq> [] \<and>
     (case type of
        JSON_TYPE_STR \<Rightarrow> hd t = 34 | JSON_TYPE_NUMBER \<Rightarrow> hd t = 45 \<or> in_range 48 57 (hd t)
      | JSON_TYPE_OBJECT \<Rightarrow> hd t = 123 | JSON_TYPE_ARRAY \<Rightarrow> hd t = 91
      | JSON_TYPE_TRUE \<Rightarrow> hd t = 116 | JSON_TYPE_FALSE \<Rightarrow> hd t = 102 | JSON_TYPE_NULL \<Rightarrow> hd t = 110)"

primrec type_parser :: "JsonType \<Rightarrow> Parser" where
  "type_parser JSON_TYPE_STR = PARSER_JSON_STR"
| "type_parser JSON_TYPE_NUMBER = PARSER_JSON_NUMBER"
| "type_parser JSON_TYPE_OBJECT = PARSER_JSON_OBJECT"
| "type_parser JSON_TYPE_ARRAY = PARSER_JSON_ARRAY"
| "type_parser JSON_TYPE_TRUE = PARSER_JSON_TRUE"
| "type_parser JSON_TYPE_FALSE = PARSER_JSON_FALSE"
| "type_parser JSON_TYPE_NULL = PARSER_JSON_NULL"

lemma hd_types:
  assumes "text_of_type type t"
  shows "not_ws t" "type \<noteq> JSON_TYPE_STR \<Longrightarrow> hd t \<noteq> 34" "type \<noteq> JSON_TYPE_NUMBER \<Longrightarrow> hd t \<noteq> 45 \<and> \<not> in_range 48 57 (hd t)"
    "type \<noteq> JSON_TYPE_OBJECT \<Longrightarrow> hd t \<noteq> 123" "type \<noteq> JSON_TYPE_ARRAY \<Longrightarrow> hd t \<noteq> 91"
    "type \<noteq> JSON_TYPE_TRUE \<Longrightarrow> hd t \<noteq> 116" "type \<noteq> JSON_TYPE_FALSE \<Longrightarrow> hd t \<noteq> 102"
proof -
  have t: "t \<noteq> []" using assms by (simp add: text_of_type_def)
  consider "hd t = 45 \<or> in_range 48 57 (hd t)" "type = JSON_TYPE_NUMBER" | "hd t \<in> {34, 123, 91, 116, 102, 110}" "type \<noteq> JSON_TYPE_NUMBER"
    using assms by (cases type) (auto simp: text_of_type_def)
  note c = this
  show "not_ws t" using c t by cases (auto simp: not_ws_def in_range_def)
  show "type \<noteq> JSON_TYPE_NUMBER \<Longrightarrow> hd t \<noteq> 45 \<and> \<not> in_range 48 57 (hd t)"
    using c by cases (auto simp: in_range_def)
qed (use assms in \<open>cases type; auto simp: text_of_type_def in_range_def\<close>)+

lemma accepts_value_type:
  assumes "text_of_type type t" "accepts (type_parser type) t r f" "not_ws r"
  shows "accepts PARSER_JSON_VALUE t r f"
proof -
  have t: "t \<noteq> []" "hd (t @ r) = hd t" using assms(1) by (auto simp: text_of_type_def)
  let ?i = "(case type of JSON_TYPE_STR \<Rightarrow> 0 | JSON_TYPE_NUMBER \<Rightarrow> 1 | JSON_TYPE_OBJECT \<Rightarrow> 2 | JSON_TYPE_ARRAY \<Rightarrow> 3
    | JSON_TYPE_TRUE \<Rightarrow> 4 | JSON_TYPE_FALSE \<Rightarrow> 5 | JSON_TYPE_NULL \<Rightarrow> 6) :: nat"
  have "rejects (value_alternatives ! j) (t @ r)" if "j < ?i" for j
  proof -
    have "j \<in> {0, 1, 2, 3, 4, 5}" using that by (cases type) auto
    then show ?thesis using that hd_types(2-) [OF assms(1)] t
      by (cases type) (auto intro!: rejects_values rejects_number)
  qed
  then have "accepts (COMB_ONE_OF value_alternatives) t r f"
    by (intro accepts_one_of_nth [of ?i]) (use assms(2) in \<open>cases type; simp\<close>)+
  then show ?thesis using accepts_value_ws t(1) hd_types(1) [OF assms(1)] assms(3) by blast
qed


section \<open>Recognising strings\<close>

fun utf8_ok :: "byte list \<Rightarrow> bool" where
  \<comment> \<open>the byte sequences the decoder takes for UTF-8: lead bytes with as many continuation bytes as they announce\<close>
  "utf8_ok [] = True"
| "utf8_ok (b # bs) =
     (case utf8_len b of
        None \<Rightarrow> False
      | Some n \<Rightarrow> n - 1 \<le> length bs \<and> list_all (\<lambda>c. c AND 0b11000000 = 0b10000000) (take (n - 1) bs) \<and> utf8_ok (drop (n - 1) bs))"

lemma utf8_len_bounds: "utf8_len b = Some n \<Longrightarrow> 1 \<le> n \<and> n \<le> 4"
  by (auto simp: utf8_len_def split: if_splits)

lemma high_bit: "(c :: byte) AND 0b10000000 \<noteq> 0 \<Longrightarrow> c > 0x7F"
proof (rule ccontr)
  assume c: "c AND 0b10000000 \<noteq> 0" "\<not> c > 0x7F"
  have "unat c div 2 ^ 7 = 0" using c(2) by (simp add: not_less word_le_nat_alt)
  then have "\<not> bit (unat c) 7" by (simp add: bit_iff_odd)
  then have "\<not> bit c 7" by (simp add: bit_unsigned_iff)
  then have "c AND 2 ^ 7 = 0" unfolding and_exp_eq_0_iff_not_bit by blast
  then show False using c(1) by simp
qed

lemma continuation_char: "c AND 0b11000000 = 0b10000000 \<Longrightarrow> json_char c = [c]"
proof -
  assume c: "c AND 0b11000000 = 0b10000000"
  have "c AND 0b10000000 = (c AND 0b11000000) AND 0b10000000" by (simp add: and.assoc)
  then have "c > 0x7F" unfolding c by (intro high_bit) simp
  then show ?thesis by (auto simp: json_char_def word_less_nat_alt word_le_nat_alt)
qed

lemma continuation_chars: "list_all (\<lambda>c. c AND 0b11000000 = 0b10000000) cs \<Longrightarrow> concat (map json_char cs) = cs"
  by (induction cs) (simp_all add: continuation_char)

lemma utf8_lead:
  assumes "utf8_len b = Some n"
  shows "n = 1 \<or> json_char b = [b]"
proof (cases "b AND 0b10000000 = 0")
  case True
  then show ?thesis using assms by (auto simp: utf8_len_def split: if_splits)
next
  case False
  then have "b > 0x7F" by (rule high_bit)
  then show ?thesis by (auto simp: json_char_def word_less_nat_alt word_le_nat_alt)
qed

lemma accepts_codepoint:
  assumes "utf8_len b = Some n" "length cs = n - 1" "list_all (\<lambda>c. c AND 0b11000000 = 0b10000000) cs"
    "\<not> b \<le> 0x1F" "b \<noteq> 34" "b \<noteq> 92"
  shows "accepts PARSER_JSON_STR_CODEPOINT (b # cs) r silent"
proof -
  have n: "n = Suc (length cs)" using assms(2) utf8_len_bounds [OF assms(1)] by simp
  have "list_all (\<lambda>i. (b # cs @ r) ! i AND 0b11000000 = 0b10000000) [1..<n]"
    using assms(3) unfolding n by (auto simp: list_all_iff nth_Cons' nth_append)
  then show ?thesis using assms(1,4-) n
    by (simp add: accepts_def call_leaf parser_json_str_codepoint_fn_def gg_buffer_rest_eq option.map_ident)
qed

lemma rejects_codepoint: "hd bs \<in> {34, 92} \<Longrightarrow> rejects PARSER_JSON_STR_CODEPOINT bs"
  by (cases bs) (auto simp: rejects_def call_leaf parser_json_str_codepoint_fn_def)

lemma accepts_seq1: "accepts p t r f \<Longrightarrow> accepts (COMB_SEQUENCE [p]) t r f"
  using accepts_seq [OF _ accepts_seq_Nil, of p t r f] by (simp add: comp_def)

lemma accepts_seq_silent:
  "accepts p t (u @ r) silent \<Longrightarrow> accepts (COMB_SEQUENCE ps) u r silent \<Longrightarrow> accepts (COMB_SEQUENCE (p # ps)) (t @ u) r silent"
  using accepts_seq [of p t u r silent ps silent] by (simp add: comp_def)

lemma accepts_char_seq:
  "accepts (COMB_SEQUENCE ps) u r silent \<Longrightarrow> accepts (COMB_SEQUENCE (PARSER_CHAR c # ps)) (c # u) r silent"
  using accepts_seq_silent [OF accepts_char, of ps u r c] by simp

lemma accepts_hex_digit: "n < 16 \<Longrightarrow> accepts PARSER_HEX_DIGIT [hex_digit n] r silent"
proof -
  assume "n < 16"
  then have "n \<in> {0, 1, 2, 3, 4, 5, 6, 7, 8, 9} \<or> n \<in> {10, 11, 12, 13, 14, 15}" by simp arith
  then consider "in_range 48 57 (hex_digit n)" | "\<not> in_range 48 57 (hex_digit n)" "in_range 65 70 (hex_digit n)"
    by (elim disjE) (auto simp: hex_digit_def in_range_def)
  then show ?thesis unfolding PARSER_HEX_DIGIT_def PARSER_DIGIT_def
    by cases (blast intro: accepts_one_of_here accepts_one_of_later accepts_range, simp add: accepts_one_of_here accepts_one_of_later accepts_range rejects_range)
qed

lemma accepts_hex_digits:
  "list_all (\<lambda>n. n < 16) ns \<Longrightarrow> accepts (COMB_SEQUENCE (replicate (length ns) PARSER_HEX_DIGIT)) (map hex_digit ns) r silent"
proof (induction ns)
  case (Cons n ns)
  then show ?case using accepts_seq_silent [OF accepts_hex_digit, of n _ "map hex_digit ns" r] by simp
qed (simp add: accepts_seq_Nil)

lemma accepts_escape:
  assumes "b \<in> {34, 92} \<or> b \<le> 31"
  shows "accepts PARSER_JSON_STR_ESCAPE (json_char b) r silent"
proof -
  have e: "accepts PARSER_JSON_STR_ESCAPE (92 # t) r silent"
    if "accepts (COMB_ONE_OF
          [PARSER_CHAR 34, PARSER_CHAR 92, PARSER_CHAR 47, PARSER_CHAR 98, PARSER_CHAR 102, PARSER_CHAR 110, PARSER_CHAR 114,
           PARSER_CHAR 116, COMB_SEQUENCE [PARSER_CHAR 117, PARSER_HEX_DIGIT, PARSER_HEX_DIGIT, PARSER_HEX_DIGIT, PARSER_HEX_DIGIT]]) t r silent" for t
    using accepts_char_seq [OF accepts_seq1 [OF that], of 92] by (simp add: PARSER_JSON_STR_ESCAPE_def)
  consider "b = 34" | "b = 92" | "b \<noteq> 34" "b \<noteq> 92" "b \<le> 31" using assms by auto
  then show ?thesis
  proof cases
    case 1
    then show ?thesis using e [OF accepts_one_of_nth [of 0]] accepts_char [of 34 r] by (simp add: json_char_def)
  next
    case 2
    then show ?thesis using e [OF accepts_one_of_nth [of 1]] accepts_char [of 92 r] by (simp add: json_char_def rejects_char)
  next
    case 3
    let ?ns = "[0, 0, unat b div 16, unat b mod 16]"
    have "unat b < 32" using 3(3) by (simp add: word_le_nat_alt)
    then have "list_all (\<lambda>n. n < 16) ?ns" by auto
    from accepts_char_seq [OF accepts_hex_digits [OF this], of 117]
    have "accepts (COMB_SEQUENCE [PARSER_CHAR 117, PARSER_HEX_DIGIT, PARSER_HEX_DIGIT, PARSER_HEX_DIGIT, PARSER_HEX_DIGIT])
      [117, 48, 48, hex_digit (unat b div 16), hex_digit (unat b mod 16)] r silent"
      by (simp add: hex_digit_def [of 0])
    then have "accepts PARSER_JSON_STR_ESCAPE (92 # [117, 48, 48, hex_digit (unat b div 16), hex_digit (unat b mod 16)]) r silent"
      by (intro e accepts_one_of_later rejects_char accepts_one_of_here) simp_all
    then show ?thesis using 3 by (simp add: json_char_def)
  qed
qed

lemma accepts_many_silent:
  "accepts p t (u @ r) silent \<Longrightarrow> accepts (COMB_ZERO_OR_MORE p) u r silent \<Longrightarrow> accepts (COMB_ZERO_OR_MORE p) (t @ u) r silent"
  using accepts_many [of p t u r silent silent] by (simp add: comp_def)

lemma accepts_chars:
  "utf8_ok bs \<Longrightarrow>
   accepts (COMB_ZERO_OR_MORE (COMB_ONE_OF [PARSER_JSON_STR_CODEPOINT, PARSER_JSON_STR_ESCAPE])) (concat (map json_char bs)) (34 # r) silent"
  (is "_ \<Longrightarrow> accepts (COMB_ZERO_OR_MORE ?p) _ _ _")
proof (induction bs rule: utf8_ok.induct)
  case 1
  have "rejects PARSER_JSON_STR_ESCAPE (34 # r)"
    unfolding PARSER_JSON_STR_ESCAPE_def by (intro rejects_seq_head rejects_char) simp
  then show ?case by (auto intro!: accepts_many_stop rejects_one_of rejects_one_of_Nil rejects_codepoint)
next
  case (2 b bs)
  obtain n where n: "utf8_len b = Some n" "n - 1 \<le> length bs" "utf8_ok (drop (n - 1) bs)"
    "list_all (\<lambda>c. c AND 0b11000000 = 0b10000000) (take (n - 1) bs)"
    using 2(2) by (auto split: option.splits)
  let ?u = "concat (map json_char (drop (n - 1) bs))"
  have "concat (map json_char bs) = concat (map json_char (take (n - 1) bs)) @ ?u"
    by (metis append_take_drop_id concat_append map_append)
  then have eq: "concat (map json_char (b # bs)) = (json_char b @ take (n - 1) bs) @ ?u"
    using continuation_chars [OF n(4)] by simp
  have "accepts ?p (json_char b @ take (n - 1) bs) (?u @ 34 # r) silent"
  proof (cases "b \<in> {34, 92} \<or> b \<le> 31")
    case True
    then have "json_char b \<noteq> [b]" by (auto simp: json_char_def)
    then have "n = 1" using utf8_lead [OF n(1)] by simp
    moreover have "hd (json_char b) = 92" "json_char b \<noteq> []" using True by (auto simp: json_char_def)
    ultimately show ?thesis using accepts_escape [OF True]
      by (intro accepts_one_of_later [OF rejects_codepoint] accepts_one_of_here) simp_all
  next
    case False
    then have "json_char b = [b]" by (simp add: json_char_def)
    moreover have "accepts PARSER_JSON_STR_CODEPOINT (b # take (n - 1) bs) (?u @ 34 # r) silent"
      by (rule accepts_codepoint [OF n(1) _ n(4)]) (use False n(2) in auto)
    ultimately show ?thesis by (simp add: accepts_one_of_here)
  qed
  then show ?case unfolding eq using 2(1) [OF n(1,3)] by (intro accepts_many_silent)
qed

lemma accepts_string:
  assumes "utf8_ok bs"
  shows "accepts PARSER_JSON_STR (json_string bs) r
    (\<lambda>a out. out\<lparr>json_type := JSON_TYPE_STR, content := \<lparr>data = a + 1, mem = concat (map json_char bs)\<rparr>\<rparr>)"
proof -
  let ?chars = "COMB_ZERO_OR_MORE (COMB_ONE_OF [PARSER_JSON_STR_CODEPOINT, PARSER_JSON_STR_ESCAPE])"
  note inner = accepts_result_val [OF accepts_chars [OF assms, of r], of JSON_TYPE_STR]
  have "accepts (COMB_SEQUENCE [PARSER_CHAR 34]) [34] r silent" by (intro accepts_seq1 accepts_char)
  from accepts_seq [OF _ this, of "COMB_RESULT_VAL JSON_TYPE_STR ?chars", simplified, OF inner]
  have "accepts (COMB_SEQUENCE [COMB_RESULT_VAL JSON_TYPE_STR ?chars, PARSER_CHAR 34]) (concat (map json_char bs) @ [34]) r
      (\<lambda>a out. out\<lparr>json_type := JSON_TYPE_STR, content := \<lparr>data = a, mem = concat (map json_char bs)\<rparr>\<rparr>)"
    by (simp add: comp_def)
  from accepts_seq [OF accepts_char this, of 34] show ?thesis
    by (simp add: PARSER_JSON_STR_def json_string_def comp_def)
qed


section \<open>Recognising numbers\<close>

definition delim :: "byte list \<Rightarrow> bool" where
  \<comment> \<open>what follows a value: nothing, or one of \<open>,\<close> \<open>:\<close> \<open>]\<close> and \<open>}\<close>\<close>
  "delim r \<longleftrightarrow> r = [] \<or> hd r \<in> {44, 58, 93, 125}"

definition int_part :: "byte list \<Rightarrow> bool" where
  "int_part t \<longleftrightarrow> (let ds = (if t \<noteq> [] \<and> hd t = 45 then tl t else t) in
     ds \<noteq> [] \<and> list_all is_digit ds \<and> (hd ds = 48 \<longrightarrow> tl ds = []))"

definition frac_part :: "byte list \<Rightarrow> bool" where
  "frac_part t \<longleftrightarrow> t \<noteq> [] \<and> hd t = 46 \<and> list_all is_digit (tl t)"

fun exp_part :: "byte list \<Rightarrow> bool" where
  "exp_part (e # s # d # ds) \<longleftrightarrow> e \<in> {69, 101} \<and> s \<in> {43, 45} \<and> list_all is_digit (d # ds)"
| "exp_part _ \<longleftrightarrow> False"

abbreviation no_digit :: "byte list \<Rightarrow> bool" where
  "no_digit r \<equiv> r = [] \<or> \<not> in_range 48 57 (hd r)"

lemma digit_range: "is_digit c \<Longrightarrow> in_range 48 57 c" "is_digit c \<Longrightarrow> c \<noteq> 48 \<Longrightarrow> in_range 49 57 c"
proof -
  assume "is_digit c"
  then have c: "48 \<le> uint c" "uint c \<le> 57" by (simp_all add: is_digit_def word_le_def)
  then have s: "sint c = uint c" by (simp add: sint_uint signed_take_bit_int_eq_self)
  then show "in_range 48 57 c" using c by (simp add: in_range_def)
  assume "c \<noteq> 48"
  then have "uint c \<noteq> uint (48 :: byte)" by (simp only: word_uint_eq_iff not_False_eq_True)
  then show "in_range 49 57 c" using c s by (simp add: in_range_def)
qed

lemma accepts_digits: "list_all is_digit ds \<Longrightarrow> no_digit r \<Longrightarrow> accepts (COMB_ZERO_OR_MORE PARSER_DIGIT) ds r silent"
proof (induction ds)
  case Nil
  then show ?case unfolding PARSER_DIGIT_def by (intro accepts_many_stop rejects_range)
next
  case (Cons d ds)
  have "accepts PARSER_DIGIT [d] (ds @ r) silent"
    using Cons.prems unfolding PARSER_DIGIT_def by (intro accepts_range digit_range) simp
  from accepts_many_silent [OF this] show ?case using Cons by simp
qed

lemma accepts_int_part:
  assumes "int_part t" "no_digit r"
  shows "accepts PARSER_INT_PART t r silent"
proof -
  define sg where "sg = (if hd t = 45 then [45] else [] :: byte list)"
  obtain d ds where t: "t = sg @ d # ds" "is_digit d" "list_all is_digit ds" "d = 48 \<longrightarrow> ds = []"
    using assms(1) by (cases t; cases "tl t") (auto simp: int_part_def sg_def Let_def split: if_splits)
  have "d \<noteq> 45" using t(2) by (auto simp: is_digit_def)
  then have s: "accepts (COMB_MAYBE (PARSER_CHAR 45)) sg ((d # ds) @ r) silent"
    using accepts_maybe [OF accepts_char [of 45]] accepts_maybe_not [OF rejects_char] by (auto simp: sg_def)
  have "accepts (COMB_ONE_OF [PARSER_CHAR 48, COMB_SEQUENCE [PARSER_CHAR_RANGE 49 57, COMB_ZERO_OR_MORE PARSER_DIGIT]]) (d # ds) r silent"
  proof (cases "d = 48")
    case True
    then show ?thesis using t(4) accepts_one_of_here [OF accepts_char] by simp
  next
    case False
    have "accepts (COMB_SEQUENCE [PARSER_CHAR_RANGE 49 57, COMB_ZERO_OR_MORE PARSER_DIGIT]) ([d] @ ds) r silent"
      by (intro accepts_seq_silent accepts_seq1 accepts_range accepts_digits digit_range t assms(2) False)
    then show ?thesis using False by (intro accepts_one_of_later rejects_char accepts_one_of_here) simp_all
  qed
  from accepts_seq_silent [OF s accepts_seq1 [OF this]] show ?thesis by (simp add: PARSER_INT_PART_def t(1))
qed

lemma accepts_frac_part: "frac_part t \<Longrightarrow> no_digit r \<Longrightarrow> accepts PARSER_FRAC_PART t r silent"
  using accepts_char_seq [OF accepts_seq1 [OF accepts_digits], of "tl t" r 46]
  by (cases t) (auto simp: frac_part_def PARSER_FRAC_PART_def)

lemma accepts_exp_part:
  assumes "exp_part t" "no_digit r"
  shows "accepts PARSER_EXPONENT t r silent"
proof -
  obtain e s d ds where t: "t = e # s # d # ds" "e \<in> {69, 101}" "s \<in> {43, 45}" "is_digit d" "list_all is_digit ds"
    using assms(1) by (cases t rule: exp_part.cases) auto
  have e: "accepts (COMB_ONE_OF [PARSER_CHAR 101, PARSER_CHAR 69]) [e] ((s # d # ds) @ r) silent"
    using t(2) accepts_one_of_nth [of 0] accepts_one_of_nth [of 1] accepts_char by (auto simp: rejects_char)
  have s: "accepts (COMB_MAYBE (COMB_ONE_OF [PARSER_CHAR 43, PARSER_CHAR 45])) [s] ((d # ds) @ r) silent"
    using t(3) accepts_one_of_nth [of 0] accepts_one_of_nth [of 1] accepts_char
    by (intro accepts_maybe) (auto simp: rejects_char)
  have "accepts (COMB_SEQUENCE [PARSER_DIGIT, COMB_ZERO_OR_MORE PARSER_DIGIT]) ([d] @ ds) r silent"
    unfolding PARSER_DIGIT_def
    by (intro accepts_seq_silent accepts_seq1 accepts_range digit_range t accepts_digits [unfolded PARSER_DIGIT_def] assms(2))
  from accepts_seq_silent [OF _ this, of _ "[s]"] s
  have "accepts (COMB_SEQUENCE [COMB_MAYBE (COMB_ONE_OF [PARSER_CHAR 43, PARSER_CHAR 45]), PARSER_DIGIT, COMB_ZERO_OR_MORE PARSER_DIGIT])
    (s # d # ds) r silent" by simp
  from accepts_seq_silent [OF e this] show ?thesis by (simp add: PARSER_EXPONENT_def t(1))
qed

lemma delim_facts:
  assumes "delim r"
  shows "not_ws r" "no_digit r" "rejects PARSER_FRAC_PART r" "rejects PARSER_EXPONENT r"
proof -
  show "not_ws r" "no_digit r" using assms by (auto simp: delim_def not_ws_def in_range_def)
  show "rejects PARSER_FRAC_PART r" unfolding PARSER_FRAC_PART_def
    by (intro rejects_seq_head rejects_char) (use assms in \<open>auto simp: delim_def\<close>)
  show "rejects PARSER_EXPONENT r" unfolding PARSER_EXPONENT_def
    by (intro rejects_seq_head rejects_one_of rejects_one_of_Nil rejects_char) (use assms in \<open>auto simp: delim_def\<close>)
qed

text \<open>A number is an integer part, then a fraction and an exponent or nothing.\<close>

definition number_parts :: "byte list \<Rightarrow> byte list \<Rightarrow> byte list \<Rightarrow> bool" where
  "number_parts i fr ex \<longleftrightarrow> int_part i \<and> (fr = [] \<or> frac_part fr) \<and> (ex = [] \<or> exp_part ex)"

lemma exp_part_hd: "exp_part ex \<Longrightarrow> ex \<noteq> [] \<and> hd ex \<in> {69, 101}"
  by (cases ex rule: exp_part.cases) auto

lemma number_steps:
  assumes "number_parts i fr ex" "delim r"
  shows "accepts PARSER_INT_PART i (fr @ ex @ r) silent"
    and "if fr = [] then rejects PARSER_FRAC_PART (ex @ r) else accepts PARSER_FRAC_PART fr (ex @ r) silent"
    and "if ex = [] then rejects PARSER_EXPONENT r else accepts PARSER_EXPONENT ex r silent"
proof -
  have ex: "no_digit (ex @ r)" using assms delim_facts(2) [OF assms(2)] exp_part_hd [of ex]
    by (auto simp: number_parts_def in_range_def)
  moreover have "no_digit (fr @ ex @ r)" using ex assms(1) by (auto simp: number_parts_def frac_part_def in_range_def)
  ultimately show "accepts PARSER_INT_PART i (fr @ ex @ r) silent"
    using assms(1) by (intro accepts_int_part) (auto simp: number_parts_def)
  have "rejects PARSER_FRAC_PART (ex @ r)" if "ex \<noteq> []"
    unfolding PARSER_FRAC_PART_def by (intro rejects_seq_head rejects_char) (use assms(1) exp_part_hd [of ex] that in \<open>auto simp: number_parts_def\<close>)
  then have "rejects PARSER_FRAC_PART (ex @ r)" using delim_facts(3) [OF assms(2)] by (cases "ex = []") auto
  then show "if fr = [] then rejects PARSER_FRAC_PART (ex @ r) else accepts PARSER_FRAC_PART fr (ex @ r) silent"
    using accepts_frac_part [OF _ ex] assms(1) by (auto simp: number_parts_def)
  show "if ex = [] then rejects PARSER_EXPONENT r else accepts PARSER_EXPONENT ex r silent"
    using accepts_exp_part [OF _ delim_facts(2) [OF assms(2)]] delim_facts(4) [OF assms(2)] assms(1)
    by (auto simp add: number_parts_def)
qed

lemma accepts_maybe_either:
  "(if t = [] then rejects p r else accepts p t r silent) \<Longrightarrow> accepts (COMB_MAYBE p) t r silent"
  by (cases "t = []") (auto intro: accepts_maybe accepts_maybe_not)

lemma accepts_number:
  assumes "number_parts i fr ex" "delim r"
  shows "accepts PARSER_JSON_NUMBER (i @ fr @ ex) r (\<lambda>a out. out\<lparr>json_type := JSON_TYPE_NUMBER, content := \<lparr>data = a, mem = i @ fr @ ex\<rparr>\<rparr>)"
  unfolding PARSER_JSON_NUMBER_def
  by (intro accepts_result_val accepts_seq_silent accepts_seq1 accepts_maybe_either)
    (use number_steps [OF assms] in simp_all)

lemma number_text_type: "number_parts i fr ex \<Longrightarrow> text_of_type JSON_TYPE_NUMBER (i @ fr @ ex)"
  by (cases i) (auto simp: number_parts_def int_part_def text_of_type_def Let_def digit_range split: if_splits)


section \<open>Recognising lists and maps\<close>

definition joined :: "byte list list \<Rightarrow> byte list" where
  \<comment> \<open>the texts with commas in between\<close>
  "joined ts = (if ts = [] then [] else concat (map (\<lambda>t. t @ [44]) (butlast ts)) @ last ts)"

lemma joined_simps [simp]: "joined [] = []" "joined [t] = t" "joined (ts @ [t]) = concat (map (\<lambda>t. t @ [44]) ts) @ t"
  by (simp_all add: joined_def)

lemma joined_Cons: "ts \<noteq> [] \<Longrightarrow> joined (t # ts) = t @ 44 # joined ts"
  by (simp add: joined_def)

lemma json_items_joined: "json_items first close ts = (if first \<or> ts = [] then [] else [44]) @ joined ts @ close"
proof (induction ts arbitrary: first)
  case (Cons t ts)
  then show ?case by (cases "ts = []") (simp_all add: joined_Cons)
qed simp

locale items_parser =
  \<comment> \<open>elements of a container: a parser for an element, and one for an element and the comma behind it\<close>
  fixes elem item :: Parser and close :: byte and is_text :: "byte list \<Rightarrow> bool"
  assumes elem_accepts: "is_text t \<Longrightarrow> accepts elem t (close # r) silent"
    and elem_close: "rejects elem (close # r)"
    and item_accepts: "is_text t \<Longrightarrow> not_ws r \<Longrightarrow> accepts item (t @ [44]) r silent"
    and item_last: "is_text t \<Longrightarrow> rejects item (t @ close # r)"
    and item_close: "rejects item (close # r)"
    and text_start: "is_text t \<Longrightarrow> t \<noteq> [] \<and> not_ws t"
    and close_not_ws: "not_ws [close]"
begin

lemma items_accepted:
  "list_all is_text ts \<Longrightarrow> rejects item r \<Longrightarrow> not_ws r \<Longrightarrow>
   accepts (COMB_ZERO_OR_MORE (COMB_INCREMENT_COUNT item)) (concat (map (\<lambda>t. t @ [44]) ts)) r
     (\<lambda>_ out. out\<lparr>count := ParseResult.count out + length ts\<rparr>)"
proof (induction ts)
  case Nil
  then show ?case using accepts_many_stop [OF rejects_count, of item r] by simp
next
  case (Cons t ts)
  have "not_ws (concat (map (\<lambda>t. t @ [44]) ts) @ r)"
    using Cons.prems text_start by (cases ts) (auto simp: not_ws_def)
  then have 1: "accepts item (t @ [44]) (concat (map (\<lambda>t. t @ [44]) ts) @ r) silent"
    using Cons.prems by (intro item_accepts) auto
  show ?case using accepts_many [OF accepts_count [OF 1] Cons.IH] Cons.prems by (simp add: comp_def add_ac)
qed

lemma content_accepted:
  assumes "list_all is_text ts"
  shows "accepts (COMB_MAYBE (COMB_SEQUENCE [COMB_ZERO_OR_MORE (COMB_INCREMENT_COUNT item), COMB_INCREMENT_COUNT elem]))
    (joined ts) (close # r) (\<lambda>_ out. out\<lparr>count := ParseResult.count out + length ts\<rparr>)"
proof (cases ts rule: rev_cases)
  case Nil
  have "rejects (COMB_SEQUENCE [COMB_INCREMENT_COUNT elem]) (close # r)" by (intro rejects_seq_head rejects_count elem_close)
  from accepts_maybe_not [OF rejects_seq_tail [OF accepts_many_stop [OF rejects_count [OF item_close]] this, simplified]]
  show ?thesis by (simp add: Nil)
next
  case (snoc us t)
  then have us: "list_all is_text us" "is_text t" using assms by auto
  have 1: "accepts (COMB_ZERO_OR_MORE (COMB_INCREMENT_COUNT item)) (concat (map (\<lambda>t. t @ [44]) us)) (t @ close # r)
      (\<lambda>_ out. out\<lparr>count := ParseResult.count out + length us\<rparr>)"
    by (rule items_accepted [OF us(1) item_last [OF us(2)]]) (use text_start [OF us(2)] in \<open>auto simp: not_ws_def\<close>)
  have 2: "accepts (COMB_SEQUENCE [COMB_INCREMENT_COUNT elem]) t (close # r) (\<lambda>_ out. out\<lparr>count := ParseResult.count out + 1\<rparr>)"
    by (intro accepts_seq1 accepts_count elem_accepts us)
  show ?thesis using accepts_maybe [OF accepts_seq [OF 1 2]] by (simp add: snoc comp_def)
qed

lemma container_accepted:
  assumes "list_all is_text ts"
  shows "accepts (COMB_SEQUENCE [PARSER_CHAR open, PARSER_JSON_WHITESPACE, COMB_RESULT_VAL type
      (COMB_MAYBE (COMB_SEQUENCE [COMB_ZERO_OR_MORE (COMB_INCREMENT_COUNT item), COMB_INCREMENT_COUNT elem])), PARSER_CHAR close])
    (open # joined ts @ [close]) r
    (\<lambda>a out. out\<lparr>count := ParseResult.count out + length ts, json_type := type, content := \<lparr>data = a + 1, mem = joined ts\<rparr>\<rparr>)"
    (is "accepts (COMB_SEQUENCE [_, _, ?body, _]) _ _ _")
proof -
  have "not_ws (joined ts @ [close] @ r)"
    using assms text_start close_not_ws by (cases ts; cases "tl ts = []") (auto simp: not_ws_def joined_Cons)
  then have ws: "accepts PARSER_JSON_WHITESPACE [] ((joined ts @ [close]) @ r) silent" by (simp add: accepts_ws)
  have "accepts (COMB_SEQUENCE [PARSER_CHAR close]) [close] r silent" by (intro accepts_seq1 accepts_char)
  moreover have "accepts ?body (joined ts) ([close] @ r)
      (\<lambda>a out. out\<lparr>count := ParseResult.count out + length ts, json_type := type, content := \<lparr>data = a, mem = joined ts\<rparr>\<rparr>)"
    using accepts_result_val [OF content_accepted [OF assms]] by simp
  ultimately have "accepts (COMB_SEQUENCE [?body, PARSER_CHAR close]) (joined ts @ [close]) r
      (\<lambda>a out. out\<lparr>count := ParseResult.count out + length ts, json_type := type, content := \<lparr>data = a, mem = joined ts\<rparr>\<rparr>)"
    using accepts_seq [of ?body "joined ts" "[close]" r]
    by (simp add: comp_def)
  from accepts_seq [OF accepts_char accepts_seq [OF ws this, simplified]] show ?thesis by (simp add: comp_def)
qed

end

definition value_text :: "byte list \<Rightarrow> bool" where
  \<comment> \<open>a text that is recognised as a value, whatever comes behind it\<close>
  "value_text t \<longleftrightarrow> t \<noteq> [] \<and> not_ws t \<and> (\<forall>r. delim r \<longrightarrow> (\<exists>f. accepts PARSER_JSON_VALUE t r f))"

definition pair_text :: "byte list \<Rightarrow> bool" where
  "pair_text t \<longleftrightarrow> (\<exists>k u. utf8_ok k \<and> value_text u \<and> t = json_string k @ 58 # u)"

lemma rejects_value_close: "c \<in> {93, 125} \<Longrightarrow> rejects PARSER_JSON_VALUE (c # r)"
proof -
  assume c: "c \<in> {93, 125}"
  have "rejects (COMB_ONE_OF value_alternatives) (c # r)"
    by (intro rejects_one_of rejects_one_of_Nil rejects_values rejects_number) (use c in \<open>auto simp: in_range_def\<close>)
  from rejects_seq_tail [OF accepts_ws rejects_seq_head [OF this]] show ?thesis
    using c by (intro rejects_value) (auto simp: json_value_parser_def not_ws_def)
qed

interpretation array_items: items_parser PARSER_JSON_ARRAY_ELEM "COMB_SEQUENCE [PARSER_JSON_ARRAY_ELEM, PARSER_CHAR 44]" 93 value_text
proof
  fix t r assume t: "value_text t"
  have e: "accepts PARSER_JSON_ARRAY_ELEM t r silent" if "delim r" for r
    using t that unfolding PARSER_JSON_ARRAY_ELEM_def by (auto simp: value_text_def intro: accepts_nested)
  show "accepts PARSER_JSON_ARRAY_ELEM t (93 # r) silent" by (rule e) (simp add: delim_def)
  show "accepts (COMB_SEQUENCE [PARSER_JSON_ARRAY_ELEM, PARSER_CHAR 44]) (t @ [44]) r silent" if "not_ws r"
    by (intro accepts_seq_silent accepts_seq1 accepts_char e) (simp add: delim_def)
  show "rejects (COMB_SEQUENCE [PARSER_JSON_ARRAY_ELEM, PARSER_CHAR 44]) (t @ 93 # r)"
    by (intro rejects_seq_tail rejects_seq_head rejects_char e) (simp_all add: delim_def)
  show "t \<noteq> [] \<and> not_ws t" using t by (simp add: value_text_def)
next
  fix r
  show e: "rejects PARSER_JSON_ARRAY_ELEM (93 # r)"
    unfolding PARSER_JSON_ARRAY_ELEM_def by (intro rejects_nested rejects_value_close) simp
  show "rejects (COMB_SEQUENCE [PARSER_JSON_ARRAY_ELEM, PARSER_CHAR 44]) (93 # r)" by (intro rejects_seq_head e)
qed (simp add: not_ws_def)

interpretation object_items: items_parser PARSER_JSON_OBJECT_KV
  "COMB_SEQUENCE [PARSER_JSON_OBJECT_KV, PARSER_CHAR 44, PARSER_JSON_WHITESPACE]" 125 pair_text
proof
  fix t r assume "pair_text t"
  then obtain k u where t: "utf8_ok k" "value_text u" "t = json_string k @ 58 # u" by (auto simp: pair_text_def)
  have e: "accepts PARSER_JSON_OBJECT_KV t r silent" if r: "delim r" for r
  proof -
    obtain f where u: "accepts PARSER_JSON_VALUE u r f" using t(2) r by (auto simp: value_text_def)
    have 1: "accepts (COMB_SEQUENCE [PARSER_CHAR 58, PARSER_JSON_VALUE]) (58 # u) r (\<lambda>a. f (a + 1))"
      using accepts_seq [OF accepts_char accepts_seq1 [OF u], of 58] by (simp add: comp_def)
    have "accepts PARSER_JSON_WHITESPACE [] ((58 # u) @ r) silent" by (rule accepts_ws) (simp add: not_ws_def)
    from accepts_seq [OF accepts_string [OF t(1)] accepts_seq [OF this 1, simplified]]
    show ?thesis unfolding PARSER_JSON_OBJECT_KV_def by (simp add: t(3) accepts_nested)
  qed
  show "accepts PARSER_JSON_OBJECT_KV t (125 # r) silent" by (rule e) (simp add: delim_def)
  show "accepts (COMB_SEQUENCE [PARSER_JSON_OBJECT_KV, PARSER_CHAR 44, PARSER_JSON_WHITESPACE]) (t @ [44]) r silent" if "not_ws r"
    by (intro accepts_seq_silent accepts_char_seq accepts_seq1 accepts_ws e that) (simp add: delim_def)
  show "rejects (COMB_SEQUENCE [PARSER_JSON_OBJECT_KV, PARSER_CHAR 44, PARSER_JSON_WHITESPACE]) (t @ 125 # r)"
    by (intro rejects_seq_tail rejects_seq_head rejects_char e) (simp_all add: delim_def)
  show "t \<noteq> [] \<and> not_ws t" by (simp add: t(3) json_string_def not_ws_def)
next
  fix r
  show e: "rejects PARSER_JSON_OBJECT_KV (125 # r)"
    unfolding PARSER_JSON_OBJECT_KV_def by (intro rejects_nested rejects_seq_head rejects_values) simp
  show "rejects (COMB_SEQUENCE [PARSER_JSON_OBJECT_KV, PARSER_CHAR 44, PARSER_JSON_WHITESPACE]) (125 # r)" by (intro rejects_seq_head e)
qed (simp add: not_ws_def)

lemmas accepts_array = array_items.container_accepted [of _ 91 JSON_TYPE_ARRAY]
lemmas accepts_object = object_items.container_accepted [of _ 123 JSON_TYPE_OBJECT]

end
