(* ===== verification/Json_Roundtrip.thy ===== *)
theory Json_Roundtrip
  imports Json_Text
begin

text \<open>
  Encoding and decoding (\<open>src/json_encode.c\<close>, \<open>src/json_decode.c\<close>, \<open>src/object_compare.c\<close>): the
  object decoded from the text of an object compares equal to it.

  The theory decodes, on memory that holds the text: escaped strings back to their bytes,
  decimal texts back to their integers, and by induction on the fuel (\<open>decodes_below\<close>) lists
  and maps. \<open>portable\<close> says which objects have a faithful text. Conversion of doubles is a pair of
  parameters, \<open>fmt\<close> for \<open>snprintf\<close> and \<open>strtod\<close>; \<open>f64_faithful\<close> states of a double that the two agree on it.
\<close>

section \<open>Texts in memory\<close>

definition holds :: "heap \<Rightarrow> ptr \<Rightarrow> byte list \<Rightarrow> bool" where
  "holds h p bs \<longleftrightarrow> (\<forall>i < length bs. h (p + i) = bs ! i)"

lemma holds_Nil [simp]: "holds h p []"
  by (simp add: holds_def)

lemma holds_Cons [simp]: "holds h p (b # bs) \<longleftrightarrow> h p = b \<and> holds h (Suc p) bs"
  by (auto simp: holds_def nth_Cons' less_Suc_eq_0_disj)

lemma holds_append [simp]: "holds h p (as @ bs) \<longleftrightarrow> holds h p as \<and> holds h (p + length as) bs"
  by (induction as arbitrary: p) auto

lemma view_holds: "holds h p bs \<Longrightarrow> n = length bs \<Longrightarrow> view h (p, n) = \<lparr>data = p, mem = bs\<rparr>"
  by (auto simp: view_def holds_def intro: nth_equalityI)

lemma holds_view: "view h (p, n) = \<lparr>data = p, mem = bs\<rparr> \<Longrightarrow> holds h p bs \<and> n = length bs"
  by (auto simp: view_def holds_def)

lemma holds_after: "frame h h' (p, n) \<Longrightarrow> p + n \<le> q \<Longrightarrow> holds h q bs \<Longrightarrow> holds h' q bs"
  by (auto simp: holds_def frame_def)

lemma frame_at: "frame h h' (p, n) \<Longrightarrow> p + n \<le> q \<Longrightarrow> h' q = h q"
  by (simp add: frame_def)

lemma heap_write_holds: "holds (heap_write h p bs) p bs"
  by (simp add: holds_def heap_write_def)

section \<open>Strings\<close>

lemma hex_char_digit: "n < 16 \<Longrightarrow> hex_char_to_byte (hex_digit n) = Some (of_nat n)"
proof -
  assume "n < 16"
  then have "n \<in> {0, 1, 2, 3, 4, 5, 6, 7, 8, 9, 10, 11, 12, 13, 14, 15}" by simp arith
  then show ?thesis by (elim insertE emptyE; simp add: hex_digit_def hex_char_to_byte_def)
qed

lemma control_escape:
  assumes "b \<le> 31" "holds h p [92, 117, 48, 48, hex_digit (unat b div 16), hex_digit (unat b mod 16)]" "6 \<le> n"
  shows "str_conv_handle_escape h (p, n) = Some ([b], (p + 6, n - 6))"
proof -
  have b: "unat b < 32" using assms(1) by (simp add: word_le_nat_alt)
  have 0: "hex_char_to_byte 48 = Some 0" using hex_char_digit [of 0] by (simp add: hex_digit_def)
  let ?code = "ucast (push_bit 12 (0 :: u32) OR push_bit 8 0 OR push_bit 4 (ucast (of_nat (unat b div 16) :: byte)) OR
    ucast (of_nat (unat b mod 16) :: byte)) :: 16 word"
  have at: "h (p + i) = [92, 117, 48, 48, hex_digit (unat b div 16), hex_digit (unat b mod 16)] ! i" if "i < 6" for i
    using assms(2) that unfolding holds_def by simp
  have h: "h (p + 2) = 48" "h (p + 2 + 1) = 48" "h (p + 2 + 2) = hex_digit (unat b div 16)" "h (p + 2 + 3) = hex_digit (unat b mod 16)"
    "h p = 92" "h (p + 1) = 117" using at [of 0] at [of 1] at [of 2] at [of "2 + 1"] at [of "2 + 2"] at [of "2 + 3"]
    unfolding add.assoc [symmetric] by simp_all
  have hex: "get_uint16_from_hex4 h (p + 2) = Some ?code"
    using b unfolding get_uint16_from_hex4_def h by (simp add: hex_char_digit 0)
  have "unat b \<in> {0, 1, 2, 3, 4, 5, 6, 7, 8, 9, 10, 11, 12, 13, 14, 15, 16, 17, 18, 19, 20, 21, 22, 23, 24, 25, 26, 27, 28, 29, 30, 31}"
    using b by simp arith
  then have "?code < 0xD800 \<and> write_codepoint_utf8 (ucast ?code) = Some [of_nat (unat b)]"
    by (elim insertE emptyE; simp add: write_codepoint_utf8_def)
  then obtain c where c: "get_uint16_from_hex4 h (p + 2) = Some c" "c < 0xD800" "write_codepoint_utf8 (ucast c) = Some [b]"
    using hex by auto
  have "\<not> 0xD800 \<le> c" "\<not> 0xDC00 \<le> c" using c(2) by (auto simp: not_le intro: less_trans)
  then show ?thesis using assms(3) h(5,6) c(1,3)
    by (simp add: str_conv_handle_escape_def str_conv_handle_utf16_escape_def Let_def advance_def)
qed

lemma unescaped_chars:
  "holds h p (concat (map json_char bs)) \<Longrightarrow> unescaped h (p, length (concat (map json_char bs))) = (bs, True)"
proof (induction bs arbitrary: p)
  case Nil
  then show ?case by (simp add: unescaped.simps)
next
  case (Cons b bs)
  let ?n = "length (concat (map json_char (b # bs)))" and ?m = "length (json_char b)"
  have b: "holds h p (json_char b)" and "holds h (p + ?m) (concat (map json_char bs))" using Cons.prems by simp_all
  then have IH: "unescaped h (p + ?m, length (concat (map json_char bs))) = (bs, True)" using Cons.IH by blast
  consider (plain) "json_char b = [b]" "b \<noteq> 92" | (quoted) "b = 34 \<or> b = 92" "json_char b = [92, b]"
    | (control) "b \<le> 31" "json_char b = [92, 117, 48, 48, hex_digit (unat b div 16), hex_digit (unat b mod 16)]"
    by (cases "b = 34"; cases "b = 92"; cases "b \<le> 31") (simp_all add: json_char_def)
  then show ?case
  proof cases
    case plain
    then show ?thesis using b IH by (subst unescaped.simps) simp
  next
    case quoted
    then have "str_conv_handle_escape h (p, ?n) = Some ([b], (p + ?m, ?n - ?m))"
      using b by (auto simp: str_conv_handle_escape_def advance_def)
    then show ?thesis using quoted b IH by (subst unescaped.simps) simp
  next
    case control
    have "str_conv_handle_escape h (p, ?n) = Some ([b], (p + 6, ?n - 6))"
      by (rule control_escape [OF control(1)]) (use b control(2) in simp_all)
    moreover have "?m = 6" using control(2) by simp
    moreover have "h p = 92" using b control(2) by simp
    ultimately show ?thesis using IH by (subst unescaped.simps) simp
  qed
qed

lemma decode_str_chars:
  assumes "holds h p (concat (map json_char bs))" "length bs \<le> UINT16_MAX"
  obtains h' where "decode_json_str h (p, length (concat (map json_char bs))) True = (h', Inr (Some (OBJ_BUF \<lparr>data = p, mem = bs\<rparr>)))"
    "frame h h' (p, length (concat (map json_char bs)))"
proof
  let ?n = "length (concat (map json_char bs))"
  note u = unescaped_chars [OF assms(1)]
  have "unescape_string h (p, ?n) = (heap_write h p bs, Some (p, length bs))"
    using unescape_loop_unescaped [of p "(p, ?n)" h] u by (simp add: unescape_string_def)
  moreover have "view (heap_write h p bs) (p, length bs) = \<lparr>data = p, mem = bs\<rparr>" by (simp add: view_holds heap_write_holds)
  ultimately show "decode_json_str h (p, ?n) True = (heap_write h p bs, Inr (Some (OBJ_BUF \<lparr>data = p, mem = bs\<rparr>)))"
    using assms(2) by (simp add: decode_json_str_def gg_obj_buf_def)
  show "frame h (heap_write h p bs) (p, ?n)" using unescaped_len [of h "(p, ?n)"] u by (intro frame_write) simp
qed

section \<open>Numbers\<close>

lemma nat_digits_hd: "n > 0 \<Longrightarrow> hd (nat_digits n) \<noteq> 48"
proof (induction n rule: nat_digits.induct)
  case (1 n)
  have "of_nat (48 + n) \<noteq> (48 :: byte)" if "n < 10"
  proof
    assume "of_nat (48 + n) = (48 :: byte)"
    then have "int (48 + n) = uint (48 :: byte)" using digit_of_nat [OF that] by argo
    then show False using 1(2) by simp
  qed
  then show ?case using 1 nat_digits_nonempty [of "n div 10"] by (subst nat_digits.simps) auto
qed

lemma format_i64_parts:
  obtains ds where "format_i64 v = (if sint v < 0 then [45] else []) @ ds" "ds \<noteq> []" "list_all is_digit ds"
    "dec_value ds = \<bar>sint v\<bar>" "hd ds \<noteq> 45" "hd ds = 48 \<longrightarrow> tl ds = []"
proof
  let ?n = "nat \<bar>sint v\<bar>"
  show "format_i64 v = (if sint v < 0 then [45] else []) @ nat_digits ?n" by (simp only: format_i64_def)
  show d: "nat_digits ?n \<noteq> []" "list_all is_digit (nat_digits ?n)" "dec_value (nat_digits ?n) = \<bar>sint v\<bar>"
    using nat_digits_nonempty nat_digits_value [of ?n] by simp_all
  show "hd (nat_digits ?n) \<noteq> 45" using d by (cases "nat_digits ?n") (auto simp: is_digit_def)
  show "hd (nat_digits ?n) = 48 \<longrightarrow> tl (nat_digits ?n) = []"
    using nat_digits_hd [of ?n] nat_digits_Nil [of 0] by (cases "?n = 0") auto
qed

lemma format_i64_number: "number_parts (format_i64 v) [] []"
  by (rule format_i64_parts [of v]) (auto simp: number_parts_def int_part_def)

lemma format_i64_value: "gg_str_to_int64 \<lparr>data = p, mem = format_i64 v\<rparr> = Inr (sint v)"
proof -
  have "int_literal (format_i64 v) \<and> int_value (format_i64 v) = sint v"
    by (rule format_i64_parts [of v]) (auto simp: int_literal_def int_value_def)
  moreover have "int64_range (sint v)" using sint_bounds [of v] by (simp add: int64_range_def int64_consts)
  ultimately show ?thesis using gg_str_to_int64_literal [of "\<lparr>data = p, mem = format_i64 v\<rparr>"] by simp
qed

definition stops :: "byte \<Rightarrow> bool" where
  \<comment> \<open>a byte that does not continue a decimal number\<close>
  "stops c \<longleftrightarrow> \<not> is_digit c \<and> c \<noteq> 69 \<and> c \<noteq> 101"

definition f64_faithful :: "f64_format \<Rightarrow> strtod_fn \<Rightarrow> f64 \<Rightarrow> bool" where
  \<comment> \<open>\<open>snprintf\<close> gives a decimal number with a point that fits the conversion buffer, and \<open>strtod\<close>
      reads it back, whatever stands behind it that is not part of a number\<close>
  "f64_faithful fmt strtod v \<longleftrightarrow>
     (\<exists>i fr ex. fmt v = Some (i @ fr @ ex) \<and> number_parts i fr ex \<and> fr \<noteq> [] \<and> length (i @ fr @ ex) \<le> 25 \<and>
        (\<forall>g. holds g 0 (i @ fr @ ex) \<and> stops (g (length (i @ fr @ ex))) \<longrightarrow> (\<exists>v'. strtod g = (v', False) \<and> f64_eq v v')))"

lemma decode_number_call:
  assumes "number_parts i fr ex" "holds h p (i @ fr @ ex)" "n = length (i @ fr @ ex)"
  shows "decode_json_number strtod h (p, n) True =
    Some (if fr = [] \<and> ex = [] then map_sum id (\<lambda>v. Some (OBJ_I64 (of_int v))) (gg_str_to_int64 \<lparr>data = p, mem = i\<rparr>)
          else (case strtod (\<lambda>j. h (p + j)) of (v, erange) \<Rightarrow> if erange then Inl GG_ERR_RANGE else Inr (Some (OBJ_F64 v))))"
proof -
  have v: "view h (p, n) = \<lparr>data = p, mem = i @ fr @ ex\<rparr>" using assms(2,3) by (rule view_holds)
  have "delim []" by (simp add: delim_def)
  note st = number_steps [OF assms(1) this, simplified]
  have 1: "parser_call PARSER_INT_PART \<lparr>data = p, mem = i @ fr @ ex\<rparr> None = Some (True, \<lparr>data = p + length i, mem = fr @ ex\<rparr>, None)"
    using acceptsD [OF st(1), of p None] by simp
  have 2: "parser_call PARSER_FRAC_PART \<lparr>data = p + length i, mem = fr @ ex\<rparr> None =
      Some (fr \<noteq> [], \<lparr>data = p + length i + length fr, mem = ex\<rparr>, None)"
    using st(2) acceptsD [of PARSER_FRAC_PART fr ex silent "p + length i" None] rejectsD [of PARSER_FRAC_PART ex "p + length i" None]
    by (cases "fr = []") auto
  have 3: "parser_call PARSER_EXPONENT \<lparr>data = p + length i + length fr, mem = ex\<rparr> None =
      Some (ex \<noteq> [], \<lparr>data = p + length i + length fr + length ex, mem = []\<rparr>, None)"
    using st(3) acceptsD [of PARSER_EXPONENT ex "[]" silent "p + length i + length fr" None]
      rejectsD [of PARSER_EXPONENT "[]" "p + length i + length fr" None]
    by (cases "ex = []") auto
  show ?thesis unfolding decode_json_number_def v
    by (auto simp: 1 2 3 split: sum.splits prod.splits)
qed

section \<open>Objects that have a faithful text\<close>

fun portable :: "f64_format \<Rightarrow> strtod_fn \<Rightarrow> GgObject \<Rightarrow> bool" where
  "portable fmt strtod (OBJ_I64 v) \<longleftrightarrow> length (format_i64 v) \<le> 18"
| "portable fmt strtod (OBJ_F64 v) \<longleftrightarrow> f64_faithful fmt strtod v"
| "portable fmt strtod (OBJ_BUF b) \<longleftrightarrow> utf8_ok (mem b) \<and> len b \<le> UINT16_MAX"
| "portable fmt strtod (OBJ_LIST p xs) \<longleftrightarrow> length xs \<le> UINT16_MAX \<and> list_all (portable fmt strtod) xs"
| "portable fmt strtod (OBJ_MAP p kvs) \<longleftrightarrow> length kvs \<le> UINT16_MAX \<and> gg_map_is_canonical kvs \<and>
     list_all (\<lambda>kv. utf8_ok (mem (fst kv)) \<and> len (fst kv) \<le> UINT16_MAX \<and> portable fmt strtod (snd kv)) kvs"
| "portable fmt strtod _ \<longleftrightarrow> True"

fun decoded_size :: "GgObject \<Rightarrow> nat" where
  \<comment> \<open>the bytes of the arrays of a decoded object\<close>
  "decoded_size (OBJ_LIST p xs) = length xs * sizeof_GgObject + sum_list (map decoded_size xs)"
| "decoded_size (OBJ_MAP p kvs) = length kvs * sizeof_GgKV + sum_list (map (\<lambda>kv. decoded_size (snd kv)) kvs)"
| "decoded_size _ = 0"

primrec json_type_of :: "GgObject \<Rightarrow> JsonType" where
  "json_type_of OBJ_NULL = JSON_TYPE_NULL"
| "json_type_of (OBJ_BOOLEAN b) = (if b then JSON_TYPE_TRUE else JSON_TYPE_FALSE)"
| "json_type_of (OBJ_I64 v) = JSON_TYPE_NUMBER"
| "json_type_of (OBJ_F64 v) = JSON_TYPE_NUMBER"
| "json_type_of (OBJ_BUF b) = JSON_TYPE_STR"
| "json_type_of (OBJ_LIST p xs) = JSON_TYPE_ARRAY"
| "json_type_of (OBJ_MAP p kvs) = JSON_TYPE_OBJECT"

primrec items_of :: "GgObject \<Rightarrow> nat" where
  "items_of OBJ_NULL = 0"
| "items_of (OBJ_BOOLEAN b) = 0"
| "items_of (OBJ_I64 v) = 0"
| "items_of (OBJ_F64 v) = 0"
| "items_of (OBJ_BUF b) = 0"
| "items_of (OBJ_LIST p xs) = length xs"
| "items_of (OBJ_MAP p kvs) = length kvs"

definition result_of :: "GgObject \<Rightarrow> byte list \<Rightarrow> ptr \<Rightarrow> ParseResult \<Rightarrow> ParseResult" where
  \<comment> \<open>what the recogniser reports for the text of an object at an address\<close>
  "result_of obj t a out =
     out\<lparr>count := ParseResult.count out + items_of obj, json_type := json_type_of obj,
        content := (if inner (json_type_of obj) = 1 then \<lparr>data = a + 1, mem = butlast (tl t)\<rparr> else \<lparr>data = a, mem = t\<rparr>)\<rparr>"

lemma those_map: "those (map f xs) = Some ts \<longleftrightarrow> list_all2 (\<lambda>x t. f x = Some t) xs ts"
proof (induction xs arbitrary: ts)
  case (Cons x xs)
  then show ?case by (cases ts) (auto split: option.splits)
qed auto

lemma list_all2_right: "list_all2 P xs ys \<Longrightarrow> y \<in> set ys \<Longrightarrow> \<exists>x \<in> set xs. P x y"
  by (induction rule: list_all2_induct) auto

lemma list_text:
  assumes "json_text fmt (OBJ_LIST p xs) = Some t"
  obtains ts where "t = 91 # joined ts @ [93]" "list_all2 (\<lambda>x t. json_text fmt x = Some t) xs ts"
proof -
  obtain ts where ts: "those (map (json_text fmt) xs) = Some ts" "t = 91 # json_items True [93] ts" using assms by auto
  have "list_all2 (\<lambda>x t. json_text fmt x = Some t) xs ts"
    using ts(1) by (simp add: those_map)
  then show thesis using that ts(2) by (simp add: json_items_joined)
qed

definition pair_has_text :: "f64_format \<Rightarrow> GgKV \<Rightarrow> byte list \<Rightarrow> bool" where
  "pair_has_text fmt kv t \<longleftrightarrow> (\<exists>u. json_text fmt (snd kv) = Some u \<and> t = json_string (mem (fst kv)) @ 58 # u)"

lemma map_text:
  assumes "json_text fmt (OBJ_MAP p kvs) = Some t"
  obtains ts where "t = 123 # joined ts @ [125]" "list_all2 (pair_has_text fmt) kvs ts"
proof -
  obtain ts where ts: "those (map (\<lambda>kv. map_option (\<lambda>t. json_string (mem (fst kv)) @ 58 # t) (json_text fmt (snd kv))) kvs) = Some ts"
    "t = 123 # json_items True [125] ts" using assms by auto
  have "list_all2 (pair_has_text fmt) kvs ts"
    using ts(1) unfolding those_map by (rule list_all2_mono) (auto simp: pair_has_text_def)
  then show thesis using that ts(2) by (simp add: json_items_joined)
qed

lemma value_text_accepts:
  assumes "text_of_type type t \<and> (\<forall>r. delim r \<longrightarrow> accepts (type_parser type) t r f)"
  shows "value_text t"
  using assms hd_types(1) [of type t] accepts_value_type [of type t] delim_facts(1)
  unfolding value_text_def text_of_type_def by blast

lemma f64_text:
  assumes "f64_faithful fmt strtod v" "json_text fmt (OBJ_F64 v) = Some t"
  obtains i fr ex where "t = i @ fr @ ex" "number_parts i fr ex" "fr \<noteq> []"
    "\<And>g. holds g 0 t \<Longrightarrow> stops (g (length t)) \<Longrightarrow> \<exists>v'. strtod g = (v', False) \<and> f64_eq v v'"
proof -
  obtain i fr ex where 1: "fmt v = Some (i @ fr @ ex)" "number_parts i fr ex" "fr \<noteq> []" "length (i @ fr @ ex) \<le> 25"
    "\<And>g. holds g 0 (i @ fr @ ex) \<Longrightarrow> stops (g (length (i @ fr @ ex))) \<Longrightarrow> \<exists>v'. strtod g = (v', False) \<and> f64_eq v v'"
    using assms(1) unfolding f64_faithful_def by blast
  then have "t = i @ fr @ ex" using assms(2) encoded_out_exact [of "i @ fr @ ex" 26] by simp
  with that 1 show thesis by blast
qed

lemma i64_text: "length (format_i64 v) \<le> 18 \<Longrightarrow> json_text fmt (OBJ_I64 v) = Some t \<Longrightarrow> t = format_i64 v"
  using encoded_out_exact [of "format_i64 v" 19] by simp

lemma text_accepted:
  assumes "portable fmt strtod obj" "json_text fmt obj = Some t"
  shows "text_of_type (json_type_of obj) t \<and> (\<forall>r. delim r \<longrightarrow> accepts (type_parser (json_type_of obj)) t r (result_of obj t))"
  using assms
proof (induction obj arbitrary: t)
  case OBJ_NULL
  then show ?case using accepts_result_val [OF accepts_str, of JSON_TYPE_NULL "bytes_of ''null''"]
    by (auto simp: text_of_type_def result_of_def inner_def PARSER_JSON_NULL_def)
next
  case (OBJ_BOOLEAN b)
  then show ?case using accepts_result_val [OF accepts_str, of JSON_TYPE_TRUE "bytes_of ''true''"]
      accepts_result_val [OF accepts_str, of JSON_TYPE_FALSE "bytes_of ''false''"]
    by (auto simp: text_of_type_def result_of_def inner_def PARSER_JSON_TRUE_def PARSER_JSON_FALSE_def)
next
  case (OBJ_I64 v)
  then have "t = format_i64 v" using i64_text by simp
  then show ?case using accepts_number [OF format_i64_number] number_text_type [OF format_i64_number [of v]]
    by (simp add: result_of_def inner_def)
next
  case (OBJ_F64 v)
  then obtain i fr ex where "t = i @ fr @ ex" "number_parts i fr ex" using f64_text by (metis portable.simps(2))
  then show ?case using accepts_number [of i fr ex] number_text_type [of i fr ex]
    by (simp add: result_of_def inner_def)
next
  case (OBJ_BUF b)
  then show ?case using accepts_string [of "mem b"]
    by (auto simp: result_of_def inner_def text_of_type_def json_string_def)
next
  case (OBJ_LIST p xs)
  obtain ts where t: "t = 91 # joined ts @ [93]" "list_all2 (\<lambda>x t. json_text fmt x = Some t) xs ts"
    using OBJ_LIST.prems(2) by (rule list_text)
  have "value_text u" if "u \<in> set ts" for u
  proof -
    obtain x where "x \<in> set xs" "json_text fmt x = Some u" using list_all2_right [OF t(2) \<open>u \<in> set ts\<close>] by auto
    then show ?thesis using value_text_accepts [OF OBJ_LIST.IH [of x u]] OBJ_LIST.prems(1) by (auto simp: list_all_iff)
  qed
  then have "list_all value_text ts" by (simp add: list_all_iff)
  from accepts_array [OF this] show ?case using list_all2_lengthD [OF t(2)]
    by (simp add: t(1) result_of_def inner_def text_of_type_def PARSER_JSON_ARRAY_def)
next
  case (OBJ_MAP p kvs)
  obtain ts where t: "t = 123 # joined ts @ [125]" "list_all2 (pair_has_text fmt) kvs ts"
    using OBJ_MAP.prems(2) by (rule map_text)
  have "pair_text u" if "u \<in> set ts" for u
  proof -
    obtain kv where kv: "kv \<in> set kvs" "pair_has_text fmt kv u" using list_all2_right [OF t(2) \<open>u \<in> set ts\<close>] by auto
    then obtain w where w: "json_text fmt (snd kv) = Some w" "u = json_string (mem (fst kv)) @ 58 # w" by (auto simp: pair_has_text_def)
    have "value_text w" using value_text_accepts [OF OBJ_MAP.IH [of kv "snd kv" w]] kv(1) w(1) OBJ_MAP.prems(1)
      by (cases kv) (auto simp: list_all_iff)
    then show ?thesis using w(2) kv(1) OBJ_MAP.prems(1) by (auto simp: pair_text_def list_all_iff)
  qed
  then have "list_all pair_text ts" by (simp add: list_all_iff)
  from accepts_object [OF this] show ?case using list_all2_lengthD [OF t(2)]
    by (simp add: t(1) result_of_def inner_def text_of_type_def PARSER_JSON_OBJECT_def)
qed

section \<open>Decoding a text\<close>

definition has_room :: "GgArena \<Rightarrow> nat \<Rightarrow> bool" where
  "has_room a n \<longleftrightarrow> arena_inv a \<and> unat (index a) + n \<le> unat (capacity a)"

definition bump :: "GgArena \<Rightarrow> nat \<Rightarrow> GgArena" where
  "bump a n = a\<lparr>index := of_nat (unat (index a) + n)\<rparr>"

lemma bump_0 [simp]: "bump a 0 = a"
  by (simp add: bump_def)

lemma bump_bump:
  assumes "has_room a (m + n)"
  shows "has_room a m" "has_room (bump a m) n" "bump (bump a m) n = bump a (m + n)"
proof -
  have le: "unat (index a) + m \<le> unat (capacity a)" using assms by (simp add: has_room_def)
  show "has_room a m" using assms by (simp add: has_room_def)
  show "has_room (bump a m) n" "bump (bump a m) n = bump a (m + n)"
    using assms arena_inv_set [OF le] unat_index_set [OF le] by (simp_all add: has_room_def bump_def add.assoc)
qed

lemma alloc_items_room:
  "has_room a n \<Longrightarrow> (\<not> required \<longrightarrow> n = 0) \<Longrightarrow> \<exists>p. alloc_items a n required = Some (p, bump a n)"
  using gg_arena_alloc_bytes [of a n] by (auto simp: alloc_items_def has_room_def bump_def)

definition ends :: "GgObject \<Rightarrow> byte \<Rightarrow> bool" where
  \<comment> \<open>a byte that may stand behind the text of the object: \<open>strtod\<close> does not know where the text ends\<close>
  "ends obj c \<longleftrightarrow> (case obj of OBJ_F64 v \<Rightarrow> stops c | _ \<Rightarrow> True)"

lemma stops_ends: "stops c \<Longrightarrow> ends obj c"
  by (simp add: ends_def split: GgObject.split)

definition decodes_text :: "json_take \<Rightarrow> GgObject \<Rightarrow> byte list \<Rightarrow> bool" where
  \<comment> \<open>on memory that holds the text and something that ends a value, and with room for the arrays, an equal object
      is returned, the text is consumed, and nothing but the text is written to\<close>
  "decodes_text f obj t \<longleftrightarrow>
     (\<forall>h a p r. holds h p (t @ r) \<longrightarrow> delim r \<longrightarrow> ends obj (h (p + length t)) \<longrightarrow> has_room a (decoded_size obj) \<longrightarrow>
        (\<exists>h' obj'. f h a (p, length (t @ r)) True = Some (h', bump a (decoded_size obj), Inr ((p + length t, length r), Some obj')) \<and>
           frame h h' (p, length t) \<and> same_obj obj obj'))"

lemma decodes_textE:
  assumes "decodes_text f obj t" "holds h p (t @ r)" "delim r" "ends obj (h (p + length t))" "has_room a (decoded_size obj)"
  obtains h' obj' where "f h a (p, length (t @ r)) True = Some (h', bump a (decoded_size obj), Inr ((p + length t, length r), Some obj'))"
    "frame h h' (p, length t)" "same_obj obj obj'"
  using assms unfolding decodes_text_def by blast

lemma separator_stops: "c \<in> {44, 58, 93, 125} \<Longrightarrow> stops c"
  by (auto simp: stops_def is_digit_def)

lemma char_call_holds:
  "holds h p (c # bs) \<Longrightarrow> n = Suc (length bs) \<Longrightarrow>
   parser_call (PARSER_CHAR c) (view h (p, n)) None = Some (True, view h (Suc p, length bs), None)"
  using acceptsD [OF accepts_char [of c bs], of p None] view_holds [of h p "c # bs" n] view_holds [of h "Suc p" bs "length bs"] by simp

lemma frame_join:
  assumes "frame h h1 (p, m)" "frame h1 h2 (p + k, n)" "m \<le> k + n"
  shows "frame h h2 (p, k + n)"
proof (rule frame_trans)
  show "frame h h1 (p, k + n)" by (rule frame_mono [OF assms(1)]) (use assms(3) in simp_all)
  show "frame h1 h2 (p, k + n)" by (rule frame_mono [OF assms(2)]) simp_all
qed

lemma array_items_decodes:
  assumes "list_all2 (decodes_text f) xs ts"
  shows "holds h p (joined ts) \<Longrightarrow> stops (h (p + length (joined ts))) \<Longrightarrow> has_room a (sum_list (map decoded_size xs)) \<Longrightarrow>
    \<exists>h' ys. array_items f (length xs) h a (p, length (joined ts)) True = Some (h', bump a (sum_list (map decoded_size xs)), Inr ys) \<and>
      frame h h' (p, length (joined ts)) \<and> list_all2 same_obj xs ys"
  using assms
proof (induction xs ts arbitrary: h p a rule: list_all2_induct)
  case Nil
  then show ?case by simp
next
  case (Cons x xs t ts)
  note room = bump_bump [OF Cons.prems(3) [simplified]]
  show ?case
  proof (cases "ts = []")
    case True
    then have xs: "xs = []" using Cons(2) by simp
    obtain h1 y where "f h a (p, length (t @ [])) True = Some (h1, bump a (decoded_size x), Inr ((p + length t, length []), Some y))"
      "frame h h1 (p, length t)" "same_obj x y"
      by (rule decodes_textE [OF Cons(1), of h p "[]" a]) (use Cons.prems True room(1) in \<open>simp_all add: delim_def stops_ends\<close>)
    then show ?thesis by (simp add: True xs)
  next
    case False
    then have k: "xs \<noteq> []" using Cons(2) by auto
    let ?r = "44 # joined ts"
    have j: "joined (t # ts) = t @ ?r" by (rule joined_Cons [OF False])
    have h: "holds h p (t @ ?r)" using Cons.prems(1) by (simp add: j)
    then have st: "stops (h (p + length t))" by (simp add: separator_stops)
    obtain h1 y where 1: "f h a (p, length (t @ ?r)) True = Some (h1, bump a (decoded_size x), Inr ((p + length t, length ?r), Some y))"
      "frame h h1 (p, length t)" "same_obj x y"
      by (rule decodes_textE [OF Cons(1) h _ stops_ends [OF st] room(1)]) (simp add: delim_def)
    have r: "holds h1 (p + length t) ?r" by (rule holds_after [OF 1(2)]) (use h in simp_all)
    let ?q = "Suc (p + length t)"
    have "stops (h1 (?q + length (joined ts)))" using Cons.prems(2) frame_at [OF 1(2), of "?q + length (joined ts)"] by (simp add: j add_ac)
    then obtain h2 ys where 2: "array_items f (length xs) h1 (bump a (decoded_size x)) (?q, length (joined ts)) True =
        Some (h2, bump (bump a (decoded_size x)) (sum_list (map decoded_size xs)), Inr ys)"
      "frame h1 h2 (?q, length (joined ts))" "list_all2 same_obj xs ys"
      using Cons(3) [of h1 ?q "bump a (decoded_size x)"] r room(2) by auto
    have c: "parser_call (PARSER_CHAR 44) (view h1 (p + length t, Suc (length (joined ts)))) None = Some (True, view h1 (?q, length (joined ts)), None)"
      by (rule char_call_holds [OF r]) simp
    have "frame h h2 (p, Suc (length t) + length (joined ts))"
      by (rule frame_join [OF 1(2)]) (use 2(2) in simp_all)
    then show ?thesis using 1 2 room(3) c by (simp add: j k)
  qed
qed


definition same_pair :: "GgKV \<Rightarrow> GgKV \<Rightarrow> bool" where
  "same_pair kv lv \<longleftrightarrow> mem (fst kv) = mem (fst lv) \<and> same_obj (snd kv) (snd lv)"

definition decodes_pair :: "json_take \<Rightarrow> GgKV \<Rightarrow> byte list \<Rightarrow> bool" where
  "decodes_pair f kv t \<longleftrightarrow> len (fst kv) \<le> UINT16_MAX \<and> decodes_text f (OBJ_BUF (fst kv)) (json_string (mem (fst kv))) \<and>
     (\<exists>u. decodes_text f (snd kv) u \<and> t = json_string (mem (fst kv)) @ 58 # u)"

lemma decodes_pairE:
  \<comment> \<open>a key, the colon and a value\<close>
  assumes "decodes_pair f kv t" "holds h p (t @ r)" "delim r" "stops (h (p + length t))" "has_room a (decoded_size (snd kv))"
  obtains h1 h2 k0 y q n where "f h a (p, length (t @ r)) True = Some (h1, a, Inr ((q, Suc n), Some (OBJ_BUF k0)))"
    "parser_call (PARSER_CHAR 58) (view h1 (q, Suc n)) None = Some (True, view h1 (Suc q, n), None)"
    "f h1 a (Suc q, n) True = Some (h2, bump a (decoded_size (snd kv)), Inr ((p + length t, length r), Some y))"
    "frame h h2 (p, length t)" "same_pair kv (gg_kv k0 y)"
proof -
  obtain u where u: "len (fst kv) \<le> UINT16_MAX" "decodes_text f (OBJ_BUF (fst kv)) (json_string (mem (fst kv)))"
    "decodes_text f (snd kv) u" "t = json_string (mem (fst kv)) @ 58 # u" using assms(1) by (auto simp: decodes_pair_def)
  let ?s = "json_string (mem (fst kv))"
  let ?q = "p + length ?s" and ?r = "58 # u @ r"
  have h: "holds h p (?s @ ?r)" using assms(2) by (simp add: u(4))
  obtain h1 o1 where 1: "f h a (p, length (?s @ ?r)) True = Some (h1, bump a 0, Inr ((?q, length ?r), Some o1))"
    "frame h h1 (p, length ?s)" "same_obj (OBJ_BUF (fst kv)) o1"
    by (rule decodes_textE [OF u(2) h, of a])
      (use h assms(5) in \<open>auto simp: delim_def separator_stops stops_ends has_room_def\<close>)
  obtain k0 where k0: "o1 = OBJ_BUF k0" "mem k0 = mem (fst kv)" using 1(3) by (cases o1) auto
  have r: "holds h1 ?q ?r" by (rule holds_after [OF 1(2)]) (use h in simp_all)
  have "stops (h1 (Suc ?q + length u))" using assms(4) frame_at [OF 1(2), of "Suc ?q + length u"] by (simp add: u(4) add_ac)
  then obtain h2 y where 2: "f h1 a (Suc ?q, length (u @ r)) True =
      Some (h2, bump a (decoded_size (snd kv)), Inr ((Suc ?q + length u, length r), Some y))"
    "frame h1 h2 (Suc ?q, length u)" "same_obj (snd kv) y"
    using decodes_textE [OF u(3), of h1 "Suc ?q" r a] r assms(3,5) stops_ends by auto
  have "frame h h2 (p, Suc (length ?s) + length u)" by (rule frame_join [OF 1(2)]) (use 2(2) in simp_all)
  then show thesis
    by (intro that [of h1 ?q "length (u @ r)" k0 h2 y])
      (use 1 2 k0 u char_call_holds [OF r] in \<open>simp_all add: same_pair_def gg_kv_def add_ac\<close>)
qed

lemma object_pairs_decodes:
  assumes "list_all2 (decodes_pair f) kvs ts"
  shows "holds h p (joined ts) \<Longrightarrow> stops (h (p + length (joined ts))) \<Longrightarrow>
    has_room a (sum_list (map (\<lambda>kv. decoded_size (snd kv)) kvs)) \<Longrightarrow>
    \<exists>h' lvs. object_pairs f (length kvs) h a (p, length (joined ts)) True =
        Some (h', bump a (sum_list (map (\<lambda>kv. decoded_size (snd kv)) kvs)), Inr lvs) \<and>
      frame h h' (p, length (joined ts)) \<and> list_all2 same_pair kvs lvs"
  using assms
proof (induction kvs ts arbitrary: h p a rule: list_all2_induct)
  case Nil
  then show ?case by simp
next
  case (Cons kv kvs t ts)
  note room = bump_bump [OF Cons.prems(3) [simplified]]
  show ?case
  proof (cases "ts = []")
    case True
    then have kvs: "kvs = []" using Cons(2) by simp
    have "holds h p (t @ [])" using Cons.prems(1) True by simp
    from Cons(1) this obtain h1 h2 k0 y q n where
      "f h a (p, length (t @ [])) True = Some (h1, a, Inr ((q, Suc n), Some (OBJ_BUF k0)))"
      "parser_call (PARSER_CHAR 58) (view h1 (q, Suc n)) None = Some (True, view h1 (Suc q, n), None)"
      "f h1 a (Suc q, n) True = Some (h2, bump a (decoded_size (snd kv)), Inr ((p + length t, length []), Some y))"
      "frame h h2 (p, length t)" "same_pair kv (gg_kv k0 y)"
      by (rule decodes_pairE [OF _ _ _ _ room(1)]) (use Cons.prems(2) True in \<open>simp_all add: delim_def\<close>)
    then show ?thesis by (simp add: True kvs)
  next
    case False
    then have k: "kvs \<noteq> []" using Cons(2) by auto
    let ?r = "44 # joined ts" and ?a = "bump a (decoded_size (snd kv))"
    have j: "joined (t # ts) = t @ ?r" by (rule joined_Cons [OF False])
    have h: "holds h p (t @ ?r)" using Cons.prems(1) by (simp add: j)
    then have st: "stops (h (p + length t))" by (simp add: separator_stops)
    obtain h1 h2 k0 y q n where 1:
      "f h a (p, length (t @ ?r)) True = Some (h1, a, Inr ((q, Suc n), Some (OBJ_BUF k0)))"
      "parser_call (PARSER_CHAR 58) (view h1 (q, Suc n)) None = Some (True, view h1 (Suc q, n), None)"
      "f h1 a (Suc q, n) True = Some (h2, ?a, Inr ((p + length t, length ?r), Some y))"
      "frame h h2 (p, length t)" "same_pair kv (gg_kv k0 y)"
      by (rule decodes_pairE [OF Cons(1) h _ st room(1)]) (simp add: delim_def)
    have r: "holds h2 (p + length t) ?r" by (rule holds_after [OF 1(4)]) (use h in simp_all)
    let ?q = "Suc (p + length t)"
    have "stops (h2 (?q + length (joined ts)))" using Cons.prems(2) frame_at [OF 1(4), of "?q + length (joined ts)"] by (simp add: j add_ac)
    then obtain h3 lvs where 2: "object_pairs f (length kvs) h2 ?a (?q, length (joined ts)) True =
        Some (h3, bump ?a (sum_list (map (\<lambda>kv. decoded_size (snd kv)) kvs)), Inr lvs)"
      "frame h2 h3 (?q, length (joined ts))" "list_all2 same_pair kvs lvs"
      using Cons(3) [of h2 ?q ?a] r room(2) by auto
    have c: "parser_call (PARSER_CHAR 44) (view h2 (p + length t, Suc (length (joined ts)))) None = Some (True, view h2 (?q, length (joined ts)), None)"
      by (rule char_call_holds [OF r]) simp
    have "frame h h3 (p, Suc (length t) + length (joined ts))"
      by (rule frame_join [OF 1(4)]) (use 2(2) in simp_all)
    then show ?thesis using 1 2 room(3) c by (simp add: j k)
  qed
qed

lemma canonicalize_same:
  assumes "gg_map_is_canonical kvs" "list_all2 same_pair kvs lvs"
  shows "list_all2 same_pair kvs (gg_map_canonicalize_shallow lvs)"
proof -
  let ?c = "gg_map_canonicalize_shallow lvs"
  have "keys kvs = keys lvs" using assms(2) by (induction rule: list_all2_induct) (auto simp: same_pair_def)
  then have "sorted_wrt (<) (keys lvs)" using assms(1) by (simp add: gg_map_is_canonical_iff)
  from canonical_unique [OF gg_map_canonicalize_shallow_facts(1) this gg_map_canonicalize_shallow_facts(2)]
  have eq: "map (\<lambda>kv. (mem (fst kv), snd kv)) ?c = map (\<lambda>kv. (mem (fst kv), snd kv)) lvs" .
  have "length ?c = length lvs" using arg_cong [OF eq, of length] by simp
  moreover have "same_pair (kvs ! i) (?c ! i)" if "i < length lvs" for i
    using arg_cong [OF eq, of "\<lambda>zs. zs ! i"] that calculation list_all2_nthD2 [OF assms(2) that] by (simp add: same_pair_def)
  ultimately show ?thesis using list_all2_lengthD [OF assms(2)] by (simp add: list_all2_conv_all_nth)
qed

lemma same_list: "length xs \<le> UINT16_MAX \<Longrightarrow> list_all2 same_obj xs ys \<Longrightarrow> same_obj (OBJ_LIST p xs) (gg_obj_list (q, ys))"
  by (auto simp: gg_obj_list_def dest: list_all2_lengthD)

lemma same_map: "length kvs \<le> UINT16_MAX \<Longrightarrow> list_all2 same_pair kvs lvs \<Longrightarrow> same_obj (OBJ_MAP p kvs) (gg_obj_map (q, lvs))"
  by (auto simp: gg_obj_map_def same_pair_def [abs_def] dest: list_all2_lengthD)

lemma item_shorter: "t \<in> set ts \<Longrightarrow> length t \<le> length (joined ts)"
proof (induction ts)
  case (Cons u ts)
  then show ?case by (cases "ts = []") (auto simp: joined_Cons)
qed simp

lemma value_call_text:
  assumes "portable fmt strtod obj" "json_text fmt obj = Some t" "holds h p (t @ r)" "delim r"
  shows "parser_call PARSER_JSON_VALUE (view h (p, length (t @ r))) (Some PARSE_RESULT_INIT) =
    Some (True, view h (p + length t, length r), Some (result_of obj t p PARSE_RESULT_INIT))"
proof -
  have "accepts PARSER_JSON_VALUE t r (result_of obj t)"
    using text_accepted [OF assms(1,2)] accepts_value_type delim_facts(1) assms(4) by blast
  from acceptsD [OF this, of p "Some PARSE_RESULT_INIT"] show ?thesis
    using view_holds [OF assms(3) refl] view_holds [of h "p + length t" r "length r"] assms(3) by simp
qed

lemma decode_array_text:
  assumes "list_all2 (decodes_text f) xs ts" "length xs \<le> UINT16_MAX" "holds h p (joined ts)" "stops (h (p + length (joined ts)))"
    and "has_room a (decoded_size (OBJ_LIST q xs))" "delivers f"
  obtains h' obj' where "decode_json_array f h a (p, length (joined ts)) (length xs) True =
      Some (h', bump a (decoded_size (OBJ_LIST q xs)), Inr (Some obj'))"
    "frame h h' (p, length (joined ts))" "same_obj (OBJ_LIST q xs) obj'"
proof -
  let ?n = "length xs * sizeof_GgObject" and ?m = "sum_list (map decoded_size xs)"
  note room = bump_bump [OF assms(5) [unfolded decoded_size.simps]]
  obtain i where i: "alloc_items a ?n (length xs > 0 \<and> True) = Some (i, bump a ?n)" using alloc_items_room [OF room(1)] by force
  obtain h' ys where 1: "array_items f (length xs) h (bump a ?n) (p, length (joined ts)) True = Some (h', bump (bump a ?n) ?m, Inr ys)"
    "frame h h' (p, length (joined ts))" "list_all2 same_obj xs ys"
    using array_items_decodes [OF assms(1,3,4) room(2)] by blast
  then have 2: "array_items f (length xs) h (bump a ?n) (p, length (joined ts)) (length xs > 0 \<and> True) = Some (h', bump (bump a ?n) ?m, Inr ys)"
    by (cases xs) auto
  show thesis by (rule that [of h' "gg_obj_list (i, ys)"])
    (use i 1 2 room(3) same_list [OF assms(2)] in \<open>simp_all add: decode_json_array_eq [OF assms(6)]\<close>)
qed

lemma decode_object_text:
  assumes "list_all2 (decodes_pair f) kvs ts" "length kvs \<le> UINT16_MAX" "gg_map_is_canonical kvs"
    and "holds h p (joined ts)" "stops (h (p + length (joined ts)))" "has_room a (decoded_size (OBJ_MAP q kvs))" "delivers f"
  obtains h' obj' where "decode_json_object f h a (p, length (joined ts)) (length kvs) True =
      Some (h', bump a (decoded_size (OBJ_MAP q kvs)), Inr (Some obj'))"
    "frame h h' (p, length (joined ts))" "same_obj (OBJ_MAP q kvs) obj'"
proof -
  let ?n = "length kvs * sizeof_GgKV" and ?m = "sum_list (map (\<lambda>kv. decoded_size (snd kv)) kvs)"
  note room = bump_bump [OF assms(6) [unfolded decoded_size.simps]]
  obtain i where i: "alloc_items a ?n (length kvs > 0 \<and> True) = Some (i, bump a ?n)" using alloc_items_room [OF room(1)] by force
  obtain h' lvs where 1: "object_pairs f (length kvs) h (bump a ?n) (p, length (joined ts)) True = Some (h', bump (bump a ?n) ?m, Inr lvs)"
    "frame h h' (p, length (joined ts))" "list_all2 same_pair kvs lvs"
    using object_pairs_decodes [OF assms(1,4,5) room(2)] by blast
  then have 2: "object_pairs f (length kvs) h (bump a ?n) (p, length (joined ts)) (length kvs > 0 \<and> True) = Some (h', bump (bump a ?n) ?m, Inr lvs)"
    by (cases kvs) auto
  show thesis by (rule that [of h' "gg_obj_map (i, gg_map_canonicalize_shallow lvs)"])
    (use i 1 2 room(3) same_map [OF assms(2) canonicalize_same [OF assms(3)]] in \<open>simp_all add: decode_json_object_eq [OF assms(7)]\<close>)
qed


lemma obj_read_encoded:
  assumes "obj_read fmt (Some obj) buf = Some (Inr encoded)" "len buf < 2 ^ 64"
  obtains t where "json_text fmt obj = Some t" "obj_depth obj \<le> GG_MAX_OBJECT_DEPTH" "obj_subobjects obj \<le> GG_MAX_OBJECT_SUBOBJECTS"
    "encoded = \<lparr>data = data buf, mem = t\<rparr>"
proof -
  have inv: "vec_inv (gg_byte_vec_init buf)" using assms(2) by (simp add: vec_inv_def gg_byte_vec_init_def)
  obtain t where t: "json_text fmt obj = Some t" "obj_depth obj \<le> GG_MAX_OBJECT_DEPTH" "obj_subobjects obj \<le> GG_MAX_OBJECT_SUBOBJECTS"
    "length t \<le> len buf"
    using gg_json_encode_vec [OF inv, of fmt obj] assms(1)
    by (auto simp: obj_read_def gg_byte_vec_init_def split: option.splits if_splits)
  moreover have "encoded = \<lparr>data = data buf, mem = t\<rparr>" using obj_read_text [OF t assms(2)] assms(1) by simp
  ultimately show thesis using that by blast
qed

lemma take_number_text:
  assumes "portable fmt strtod obj" "json_text fmt obj = Some t" "json_type_of obj = JSON_TYPE_NUMBER"
    and "holds h p t" "ends obj (h (p + length t))"
  obtains obj' where "decode_json_number strtod h (p, length t) True = Some (Inr (Some obj'))" "same_obj obj obj'"
proof (cases obj)
  case (OBJ_I64 v)
  then have t: "t = format_i64 v" using i64_text assms(1,2) by simp
  have "decode_json_number strtod h (p, length t) True = Some (Inr (Some (OBJ_I64 (of_int (sint v)))))"
    using decode_number_call [OF format_i64_number, of h p v "length t"] assms(4) by (simp add: t format_i64_value)
  then show thesis using that OBJ_I64 by simp
next
  case (OBJ_F64 v)
  have f: "f64_faithful fmt strtod v" and e: "json_text fmt (OBJ_F64 v) = Some t" using assms(1,2) OBJ_F64 by simp_all
  show thesis
  proof (rule f64_text [OF f e])
    fix i fr ex
    assume t: "t = i @ fr @ ex" "number_parts i fr ex" "fr \<noteq> []"
      and s: "\<And>g. holds g 0 t \<Longrightarrow> stops (g (length t)) \<Longrightarrow> \<exists>v'. strtod g = (v', False) \<and> f64_eq v v'"
    have "holds (\<lambda>j. h (p + j)) 0 t" using assms(4) by (simp add: holds_def)
    then obtain v' where v': "strtod (\<lambda>j. h (p + j)) = (v', False)" "f64_eq v v'" using s assms(5) OBJ_F64 by (auto simp: ends_def)
    have "decode_json_number strtod h (p, length t) True = Some (Inr (Some (OBJ_F64 v')))"
      using decode_number_call [OF t(2), of h p "length t" strtod] assms(4) t v' by simp
    then show thesis using that OBJ_F64 v'(2) by simp
  qed
qed (use assms(3) in \<open>auto split: if_splits\<close>)

text \<open>The recursion: if shorter texts are decoded, so are the elements of a list or map.\<close>

definition decodes_below :: "f64_format \<Rightarrow> strtod_fn \<Rightarrow> json_take \<Rightarrow> nat \<Rightarrow> bool" where
  "decodes_below fmt strtod f n \<longleftrightarrow>
     (\<forall>obj t. portable fmt strtod obj \<longrightarrow> json_text fmt obj = Some t \<longrightarrow> length t < n \<longrightarrow> decodes_text f obj t)"

lemma elements_decoded:
  assumes "decodes_below fmt strtod f n" "list_all (portable fmt strtod) xs" "length (joined ts) < n"
    and "list_all2 (\<lambda>x t. json_text fmt x = Some t) xs ts"
  shows "list_all2 (decodes_text f) xs ts"
  unfolding list_all2_conv_all_nth
proof (intro conjI allI impI)
  show l: "length xs = length ts" using assms(4) by (rule list_all2_lengthD)
  fix i assume i: "i < length xs"
  then have "length (ts ! i) < n" using item_shorter [of "ts ! i" ts] l assms(3) by simp
  then show "decodes_text f (xs ! i) (ts ! i)"
    using assms(1,2) list_all2_nthD [OF assms(4) i] i by (simp add: decodes_below_def list_all_length)
qed

lemma pairs_decoded:
  assumes "decodes_below fmt strtod f n" "length (joined ts) < n" "list_all2 (pair_has_text fmt) kvs ts"
    and "list_all (\<lambda>kv. utf8_ok (mem (fst kv)) \<and> len (fst kv) \<le> UINT16_MAX \<and> portable fmt strtod (snd kv)) kvs"
  shows "list_all2 (decodes_pair f) kvs ts"
  unfolding list_all2_conv_all_nth
proof (intro conjI allI impI)
  show l: "length kvs = length ts" using assms(3) by (rule list_all2_lengthD)
  fix i assume i: "i < length kvs"
  let ?kv = "kvs ! i" and ?u = "ts ! i"
  obtain w where w: "json_text fmt (snd ?kv) = Some w" "?u = json_string (mem (fst ?kv)) @ 58 # w"
    using list_all2_nthD [OF assms(3) i] by (auto simp: pair_has_text_def)
  have k: "portable fmt strtod (OBJ_BUF (fst ?kv))" "portable fmt strtod (snd ?kv)"
    using assms(4) i by (auto simp: list_all_length)
  have "length ?u < n" using item_shorter [of ?u ts] i l assms(2) by simp
  then have "length (json_string (mem (fst ?kv))) < n" "length w < n" using w(2) by simp_all
  then have "decodes_text f (OBJ_BUF (fst ?kv)) (json_string (mem (fst ?kv)))" "decodes_text f (snd ?kv) w"
    using assms(1) k w(1) unfolding decodes_below_def by auto
  then show "decodes_pair f ?kv ?u" using k(1) w(2) by (auto simp: decodes_pair_def)
qed

lemma frame_inside: "frame h h' (Suc p, n) \<Longrightarrow> frame h h' (p, Suc (Suc n))"
  by (erule frame_mono) simp_all

lemma take_list_text:
  assumes "decodes_below fmt strtod (take_json_val strtod fuel) fuel" "length t < Suc fuel"
    and "portable fmt strtod (OBJ_LIST q xs)" "json_text fmt (OBJ_LIST q xs) = Some t"
  shows "decodes_text (take_json_val strtod (Suc fuel)) (OBJ_LIST q xs) t"
  unfolding decodes_text_def
proof (intro allI impI)
  fix h a p r
  assume h: "holds h p (t @ r)" "delim r" and room: "has_room a (decoded_size (OBJ_LIST q xs))"
  obtain ts where t: "t = 91 # joined ts @ [93]" "list_all2 (\<lambda>x t. json_text fmt x = Some t) xs ts"
    using assms(4) by (rule list_text)
  have "list_all2 (decodes_text (take_json_val strtod fuel)) xs ts"
    by (rule elements_decoded [OF assms(1) _ _ t(2)]) (use assms(2,3) t(1) in auto)
  then obtain h' obj' where 1: "decode_json_array (take_json_val strtod fuel) h a (Suc p, length (joined ts)) (length xs) True =
      Some (h', bump a (decoded_size (OBJ_LIST q xs)), Inr (Some obj'))"
    "frame h h' (Suc p, length (joined ts))" "same_obj (OBJ_LIST q xs) obj'"
    by (rule decode_array_text [where h = h and p = "Suc p" and a = a and q = q])
      (use assms(3) h room in \<open>auto simp: t separator_stops take_json_val_delivers\<close>)
  show "\<exists>h' obj'. take_json_val strtod (Suc fuel) h a (p, length (t @ r)) True =
      Some (h', bump a (decoded_size (OBJ_LIST q xs)), Inr ((p + length t, length r), Some obj')) \<and>
      frame h h' (p, length t) \<and> same_obj (OBJ_LIST q xs) obj'"
    using 1 value_call_text [OF assms(3,4) h] frame_inside [OF 1(2)]
    by (simp add: result_of_def inner_def span_of_def t(1) PARSE_RESULT_INIT_def)
qed

lemma take_map_text:
  assumes "decodes_below fmt strtod (take_json_val strtod fuel) fuel" "length t < Suc fuel"
    and "portable fmt strtod (OBJ_MAP q kvs)" "json_text fmt (OBJ_MAP q kvs) = Some t"
  shows "decodes_text (take_json_val strtod (Suc fuel)) (OBJ_MAP q kvs) t"
  unfolding decodes_text_def
proof (intro allI impI)
  fix h a p r
  assume h: "holds h p (t @ r)" "delim r" and room: "has_room a (decoded_size (OBJ_MAP q kvs))"
  obtain ts where t: "t = 123 # joined ts @ [125]" "list_all2 (pair_has_text fmt) kvs ts"
    using assms(4) by (rule map_text)
  have "list_all2 (decodes_pair (take_json_val strtod fuel)) kvs ts"
    by (rule pairs_decoded [OF assms(1) _ t(2)]) (use assms(2,3) t(1) in auto)
  then obtain h' obj' where 1: "decode_json_object (take_json_val strtod fuel) h a (Suc p, length (joined ts)) (length kvs) True =
      Some (h', bump a (decoded_size (OBJ_MAP q kvs)), Inr (Some obj'))"
    "frame h h' (Suc p, length (joined ts))" "same_obj (OBJ_MAP q kvs) obj'"
    by (rule decode_object_text [where h = h and p = "Suc p" and a = a and q = q])
      (use assms(3) h room in \<open>auto simp: t separator_stops take_json_val_delivers\<close>)
  show "\<exists>h' obj'. take_json_val strtod (Suc fuel) h a (p, length (t @ r)) True =
      Some (h', bump a (decoded_size (OBJ_MAP q kvs)), Inr ((p + length t, length r), Some obj')) \<and>
      frame h h' (p, length t) \<and> same_obj (OBJ_MAP q kvs) obj'"
    using 1 value_call_text [OF assms(3,4) h] frame_inside [OF 1(2)]
    by (simp add: result_of_def inner_def span_of_def t(1) PARSE_RESULT_INIT_def)
qed

lemma take_scalar_text:
  assumes p: "portable fmt strtod obj" and e: "json_text fmt obj = Some t" and s: "items_of obj = 0" "decoded_size obj = 0"
    and ty: "json_type_of obj \<notin> {JSON_TYPE_ARRAY, JSON_TYPE_OBJECT}"
  shows "decodes_text (take_json_val strtod (Suc fuel)) obj t"
  unfolding decodes_text_def
proof (intro allI impI)
  fix h a p r
  assume h: "holds h p (t @ r)" "delim r" and st: "ends obj (h (p + length t))"
  note call = value_call_text [OF assms(1,2) h]
  show "\<exists>h' obj'. take_json_val strtod (Suc fuel) h a (p, length (t @ r)) True =
      Some (h', bump a (decoded_size obj), Inr ((p + length t, length r), Some obj')) \<and> frame h h' (p, length t) \<and> same_obj obj obj'"
  proof (cases "json_type_of obj = JSON_TYPE_NUMBER")
    case True
    obtain obj' where "decode_json_number strtod h (p, length t) True = Some (Inr (Some obj'))" "same_obj obj obj'"
      by (rule take_number_text [OF assms(1,2) True, of h p]) (use h st in simp_all)
    then show ?thesis using call True s by (simp add: result_of_def inner_def span_of_def)
  next
    case False
    show ?thesis
    proof (cases obj)
      case (OBJ_BUF b)
      let ?cs = "concat (map json_char (mem b))"
      have t: "t = 34 # ?cs @ [34]" using e OBJ_BUF by (simp add: json_string_def)
      obtain h' where 1: "decode_json_str h (Suc p, length ?cs) True = (h', Inr (Some (OBJ_BUF \<lparr>data = Suc p, mem = mem b\<rparr>)))"
        "frame h h' (Suc p, length ?cs)"
        by (rule decode_str_chars [of h "Suc p" "mem b"]) (use h t assms(1) OBJ_BUF in auto)
      then show ?thesis using call OBJ_BUF frame_inside [OF 1(2)] by (simp add: result_of_def inner_def span_of_def t)
    qed (use call ty False in \<open>auto simp: result_of_def inner_def\<close>)
  qed
qed

lemma take_json_val_text: "decodes_below fmt strtod (take_json_val strtod fuel) fuel"
proof (induction fuel)
  case (Suc fuel)
  show ?case unfolding decodes_below_def
  proof (intro allI impI)
    fix obj t assume p: "portable fmt strtod obj" "json_text fmt obj = Some t" "length t < Suc fuel"
    show "decodes_text (take_json_val strtod (Suc fuel)) obj t"
    proof (cases obj)
      case (OBJ_LIST q xs)
      show ?thesis unfolding OBJ_LIST by (rule take_list_text [OF Suc.IH p(3) p(1,2) [unfolded OBJ_LIST]])
    next
      case (OBJ_MAP q kvs)
      show ?thesis unfolding OBJ_MAP by (rule take_map_text [OF Suc.IH p(3) p(1,2) [unfolded OBJ_MAP]])
    qed (use take_scalar_text [OF p(1,2), of fuel] in \<open>simp_all del: take_json_val.simps\<close>)
  qed
qed (simp add: decodes_below_def)

section \<open>The round trip\<close>

lemma gg_json_decode_text:
  assumes "portable fmt strtod obj" "json_text fmt obj = Some t" "holds h p t" "ends obj (h (p + length t))"
    and "has_room a (decoded_size obj)"
  shows "\<exists>h' obj'. gg_json_decode_destructive strtod h (p, length t) (Some a) True =
      Some (GG_ERR_OK, h', Some (bump a (decoded_size obj)), Some obj') \<and> frame h h' (p, length t) \<and> same_obj obj obj'"
proof -
  have "decodes_text (take_json_val strtod (length t + 1)) obj t"
    using take_json_val_text [of fmt strtod "length t + 1"] assms(1,2) unfolding decodes_below_def by auto
  then obtain h' obj' where "take_json_val strtod (length t + 1) h a (p, length (t @ [])) True =
      Some (h', bump a (decoded_size obj), Inr ((p + length t, length []), Some obj'))" "frame h h' (p, length t)" "same_obj obj obj'"
    by (rule decodes_textE [where h = h and p = p and r = "[]"]) (use assms(3-5) in \<open>simp_all add: delim_def\<close>)
  then show ?thesis by (simp add: gg_json_decode_destructive_def del: take_json_val.simps)
qed

text \<open>
  C3: An object that has been encoded is decoded to an equal object. If the text of a portable
  object has been written to a buffer (by the JSON reader) and the arena has room for the arrays, decoding
  the text in place succeeds, writes to no byte outside the text, takes exactly the size of
  the arrays from the arena, and \<open>gg_obj_eq\<close> finds the result equal to the object that was
  encoded. Portable are the objects with strings and keys in UTF-8 of at most 65535 bytes, maps in
  canonical form, integers of at most 18 characters, and doubles that \<open>snprintf\<close> and \<open>strtod\<close>
  carry over. If the object is a double, the byte behind the text must not continue a number.
\<close>
theorem json_roundtrip:
  assumes "obj_read fmt (Some obj) buf = Some (Inr encoded)" "len buf < 2 ^ 64" "portable fmt strtod obj"
    and "view h (span_of encoded) = encoded" "ends obj (h (data encoded + len encoded))" "has_room a (decoded_size obj)"
  shows "\<exists>h' obj'. gg_json_decode_destructive strtod h (span_of encoded) (Some a) True =
      Some (GG_ERR_OK, h', Some (bump a (decoded_size obj)), Some obj') \<and>
    frame h h' (span_of encoded) \<and> gg_obj_eq obj obj' = Some True"
proof -
  obtain t where t: "json_text fmt obj = Some t" "obj_depth obj \<le> GG_MAX_OBJECT_DEPTH" "obj_subobjects obj \<le> GG_MAX_OBJECT_SUBOBJECTS"
    "encoded = \<lparr>data = data buf, mem = t\<rparr>" using obj_read_encoded [OF assms(1,2)] by blast
  have "holds h (data buf) t" using holds_view [of h "data buf" "length t" t] assms(4) by (simp add: t(4) span_of_def)
  from gg_json_decode_text [OF assms(3) t(1) this _ assms(6)] assms(5) show ?thesis
    using t(2,3) by (auto simp: t(4) span_of_def gg_obj_eq_true)
qed

definition example_strtod :: strtod_fn where
  "example_strtod g = (if g 0 = 49 \<and> g 1 = 46 \<and> g 2 = 53 \<and> stops (g 3) then (0x3FF8000000000000, False) else (0, True))"

definition example_object :: GgObject where
  \<comment> \<open>\<open>{"a":[-7,"\"",1.5]}\<close>\<close>
  "example_object = OBJ_MAP 0 [(GG_STR ''a'', OBJ_LIST 0 [OBJ_I64 (- 7), OBJ_BUF \<lparr>data = 1, mem = [34]\<rparr>, OBJ_F64 0x3FF8000000000000])]"

lemma example_faithful: "f64_faithful (\<lambda>_. Some [49, 46, 53]) example_strtod 0x3FF8000000000000"
proof -
  have "number_parts [49] [46, 53] []" by (simp add: number_parts_def int_part_def frac_part_def is_digit_def)
  moreover have "f64_eq 0x3FF8000000000000 0x3FF8000000000000" by (simp add: f64_eq_def f64_is_nan_def)
  moreover have "example_strtod g = (0x3FF8000000000000, False)" if "holds g 0 [49, 46, 53]" "stops (g 3)" for g
    using that by (simp add: example_strtod_def numeral_2_eq_2)
  ultimately show ?thesis unfolding f64_faithful_def
    by (intro exI [of _ "[49]"] exI [of _ "[46, 53]"] exI [of _ "[]"]) (simp add: numeral_3_eq_3)
qed

lemma example_portable: "portable (\<lambda>_. Some [49, 46, 53]) example_strtod example_object"
  by (simp add: example_object_def example_faithful UINT16_MAX_def gg_map_is_canonical_iff utf8_len_def format_i64_def nat_digits.simps)

theorem json_roundtrip_witness:
  "\<exists>h' obj'. gg_json_decode_destructive example_strtod
      (heap_write (\<lambda>_. 0) 100 [123, 34, 97, 34, 58, 91, 45, 55, 44, 34, 92, 34, 34, 44, 49, 46, 53, 93, 125]) (100, 19)
      (Some \<lparr>arena_mem = 1000, capacity = 64, index = 1\<rparr>) True =
    Some (GG_ERR_OK, h', Some \<lparr>arena_mem = 1000, capacity = 64, index = 55\<rparr>, Some obj') \<and> gg_obj_eq example_object obj' = Some True"
proof -
  let ?fmt = "\<lambda>_. Some [49, 46, 53]" and ?t = "[123, 34, 97, 34, 58, 91, 45, 55, 44, 34, 92, 34, 34, 44, 49, 46, 53, 93, 125] :: byte list"
  let ?buf = "\<lparr>data = 100, mem = replicate 32 0\<rparr>" and ?h = "heap_write (\<lambda>_. 0) 100 ?t"
  let ?a = "\<lparr>arena_mem = 1000, capacity = 64, index = 1\<rparr> :: GgArena"
  have "json_text ?fmt example_object = Some ?t"
    by (simp add: example_object_def json_string_def json_char_def encoded_out_def sprintf_buf_def format_i64_def nat_digits.simps)
  then have 1: "obj_read ?fmt (Some example_object) ?buf = Some (Inr \<lparr>data = 100, mem = ?t\<rparr>)"
    using obj_read_text [of ?fmt example_object ?t ?buf]
    by (simp add: example_object_def GG_MAX_OBJECT_DEPTH_def GG_MAX_OBJECT_SUBOBJECTS_def)
  have s: "span_of \<lparr>data = 100, mem = ?t\<rparr> = (100, 19)" by (simp add: span_of_def)
  have v: "view ?h (span_of \<lparr>data = 100, mem = ?t\<rparr>) = \<lparr>data = 100, mem = ?t\<rparr>"
    unfolding s by (rule view_holds [OF heap_write_holds]) simp
  have e: "ends example_object (?h (data \<lparr>data = 100, mem = ?t\<rparr> + len \<lparr>data = 100, mem = ?t\<rparr>))"
    by (simp add: ends_def example_object_def)
  have d: "decoded_size example_object = 54" by (simp add: example_object_def sizeof_GgObject_def sizeof_GgKV_def sizeof_ptr_def)
  have r: "has_room ?a (decoded_size example_object)" by (simp add: d has_room_def arena_inv_def)
  have b: "bump ?a (decoded_size example_object) = \<lparr>arena_mem = 1000, capacity = 64, index = 55\<rparr>" by (simp add: d bump_def)
  from json_roundtrip [OF 1 _ example_portable v e r] show ?thesis unfolding s b by auto
qed

end
