(* ===== verification/File.thy ===== *)
theory File
  imports Buffer
begin

text \<open>
  Files, directories and sockets (\<open>src/file.c\<close>, \<open>priv_include/gg/file.h\<close>, \<open>src/socket.c\<close>).

  The operating system is an argument: the record \<open>os\<close> has one function per system call, on a
  state \<open>'w\<close> that stands for everything the system keeps. A call gives a value, or the value of
  \<open>errno\<close>. The code repeats interrupted calls, so its loops may run forever; they are partial
  functions into \<open>option\<close>, and \<open>None\<close> means that they do not return. \<open>GG_CLEANUP\<close> is written out at
  every return. \<open>path_comp_buf\<close>, the static buffer for one path component, is filled before each
  use under its mutex, so only its contents at the call appear.
\<close>

section \<open>System calls\<close>

datatype errno = EINTR | EAGAIN | ECONNRESET | EPIPE | EROFS | EINVAL | ENOENT | OTHER nat

type_synonym 'a sys = "errno + 'a"

record 'w os =
  sys_open :: "byte list \<Rightarrow> u32 \<Rightarrow> 'w \<Rightarrow> int sys \<times> 'w"
  sys_openat :: "int \<Rightarrow> byte list \<Rightarrow> u32 \<Rightarrow> u32 \<Rightarrow> 'w \<Rightarrow> int sys \<times> 'w"
  sys_mkdirat :: "int \<Rightarrow> byte list \<Rightarrow> u32 \<Rightarrow> 'w \<Rightarrow> unit sys \<times> 'w"
  sys_close :: "int \<Rightarrow> 'w \<Rightarrow> unit sys \<times> 'w"
  sys_fsync :: "int \<Rightarrow> 'w \<Rightarrow> unit sys \<times> 'w"
  sys_fstat_size :: "int \<Rightarrow> 'w \<Rightarrow> nat sys \<times> 'w"
  sys_read :: "int \<Rightarrow> nat \<Rightarrow> 'w \<Rightarrow> byte list sys \<times> 'w"
  sys_write :: "int \<Rightarrow> byte list \<Rightarrow> 'w \<Rightarrow> nat sys \<times> 'w"
  sys_socket :: "'w \<Rightarrow> int sys \<times> 'w"
  sys_connect :: "int \<Rightarrow> byte list \<Rightarrow> 'w \<Rightarrow> unit sys \<times> 'w"
  sys_set_timeout :: "int \<Rightarrow> bool \<Rightarrow> 'w \<Rightarrow> unit sys \<times> 'w"  \<comment> \<open>\<open>setsockopt\<close>, receive or send\<close>

definition O_RDONLY :: u32 where "O_RDONLY = 0"
definition O_CREAT :: u32 where "O_CREAT = 0x40"
definition O_DIRECTORY :: u32 where "O_DIRECTORY = 0x10000"
definition O_CLOEXEC :: u32 where "O_CLOEXEC = 0x80000"
definition O_PATH :: u32 where "O_PATH = 0x200000"

definition NAME_MAX :: nat where
  "NAME_MAX = 255"

partial_function (option) until_done :: "('w \<Rightarrow> 'a sys \<times> 'w) \<Rightarrow> 'w \<Rightarrow> ('a sys \<times> 'w) option" where
  \<comment> \<open>\<open>do ... while (failed && errno == EINTR)\<close>\<close>
  "until_done call w =
     (case call w of (r, w) \<Rightarrow>
        (case r of
           Inl e \<Rightarrow> if e = EINTR then until_done call w else Some (r, w)
         | Inr _ \<Rightarrow> Some (r, w)))"

section \<open>Descriptors\<close>

definition gg_close :: "'w os \<Rightarrow> int \<Rightarrow> 'w \<Rightarrow> GgError \<times> 'w" where
  "gg_close os fd w =
     (case sys_close os fd w of
        (Inr _, w) \<Rightarrow> (GG_ERR_OK, w)
      | (Inl err, w) \<Rightarrow> (if err = EINTR then GG_ERR_OK else GG_ERR_FAILURE, w))"

definition cleanup_close :: "'w os \<Rightarrow> int \<Rightarrow> 'w \<Rightarrow> 'w" where
  "cleanup_close os fd w = (if fd \<ge> 0 then snd (gg_close os fd w) else w)"

definition gg_fsync :: "'w os \<Rightarrow> int \<Rightarrow> 'w \<Rightarrow> (GgError \<times> 'w) option" where
  "gg_fsync os fd w =
     (case until_done (sys_fsync os fd) w of
        None \<Rightarrow> None
      | Some (Inr _, w) \<Rightarrow> Some (GG_ERR_OK, w)
      | Some (Inl err, w) \<Rightarrow> Some (if err = EROFS \<or> err = EINVAL then GG_ERR_OK else GG_ERR_FAILURE, w))"

definition openat_wrapper :: "'w os \<Rightarrow> int \<Rightarrow> byte list \<Rightarrow> u32 \<Rightarrow> u32 \<Rightarrow> 'w \<Rightarrow> (int sys \<times> 'w) option" where
  "openat_wrapper os dirfd pathname flags mode = until_done (sys_openat os dirfd pathname flags mode)"

definition gg_openat :: "'w os \<Rightarrow> int \<Rightarrow> byte list \<Rightarrow> u32 \<Rightarrow> u32 \<Rightarrow> 'w \<Rightarrow> (int sys \<times> 'w) option" where
  \<comment> \<open>an error is \<open>GG_ERR_FAILURE\<close>, with the given \<open>errno\<close>\<close>
  "gg_openat os dirfd pathname flags mode = until_done (sys_openat os dirfd pathname flags mode)"

definition copy_dir_fd :: "'w os \<Rightarrow> int \<Rightarrow> u32 \<Rightarrow> 'w \<Rightarrow> (int res \<times> 'w) option" where
  "copy_dir_fd os dirfd flags w =
     (case openat_wrapper os dirfd (bytes_of ''.'') (O_CLOEXEC OR O_DIRECTORY OR flags) 0 w of
        None \<Rightarrow> None
      | Some (Inl _, w) \<Rightarrow> Some (Inl GG_ERR_FAILURE, w)
      | Some (Inr fd, w) \<Rightarrow> Some (Inr fd, w))"

definition gg_mkdirat :: "'w os \<Rightarrow> int \<Rightarrow> byte list \<Rightarrow> u32 \<Rightarrow> 'w \<Rightarrow> (GgError \<times> 'w) option" where
  "gg_mkdirat os dirfd pathname mode w =
     (case copy_dir_fd os dirfd O_RDONLY w of
        None \<Rightarrow> None
      | Some (Inl ret, w) \<Rightarrow> Some (ret, w)
      | Some (Inr parent_fd, w) \<Rightarrow>
          (case until_done (sys_mkdirat os parent_fd pathname mode) w of
             None \<Rightarrow> None
           | Some (Inl _, w) \<Rightarrow> Some (GG_ERR_FAILURE, cleanup_close os parent_fd w)
           | Some (Inr _, w) \<Rightarrow>
               (case gg_fsync os parent_fd w of
                  None \<Rightarrow> None
                | Some (ret, w) \<Rightarrow> Some (ret, cleanup_close os parent_fd w))))"

definition gg_dir_openat_mkdir :: "'w os \<Rightarrow> int \<Rightarrow> byte list \<Rightarrow> u32 \<Rightarrow> u32 \<Rightarrow> 'w \<Rightarrow> (int res \<times> 'w) option" where
  "gg_dir_openat_mkdir os dirfd pathname flags mode w =
     (case gg_openat os dirfd pathname flags 0 w of
        None \<Rightarrow> None
      | Some (Inr fd, w) \<Rightarrow> Some (Inr fd, w)
      | Some (Inl err, w) \<Rightarrow>
          if err = ENOENT
          then (case gg_mkdirat os dirfd pathname mode w of
                  None \<Rightarrow> None
                | Some (ret, w) \<Rightarrow>
                    if ret \<noteq> GG_ERR_OK then Some (Inl ret, w)
                    else (case gg_openat os dirfd pathname flags 0 w of
                            None \<Rightarrow> None
                          | Some (Inl _, w) \<Rightarrow> Some (Inl GG_ERR_FAILURE, w)
                          | Some (Inr fd, w) \<Rightarrow> Some (Inr fd, w)))
          else Some (Inl GG_ERR_FAILURE, w))"

section \<open>Paths\<close>

definition split_path_first_comp :: "GgBuffer \<Rightarrow> bool \<times> GgBuffer \<times> GgBuffer" where
  \<comment> \<open>\<open>*comp\<close> and \<open>*rest\<close>\<close>
  "split_path_first_comp path =
     (case List.find (\<lambda>i. mem path ! i = chr CHR ''/'') [0..<len path] of
        Some i \<Rightarrow> (True, gg_buffer_substr path 0 i, gg_buffer_rest path (i + 1))
      | None \<Rightarrow> (False, path, gg_buffer_rest path (len path)))"

definition split_path_last_comp :: "GgBuffer \<Rightarrow> bool \<times> GgBuffer \<times> GgBuffer" where
  \<comment> \<open>\<open>*prefix\<close> and \<open>*comp\<close>\<close>
  "split_path_last_comp path =
     (case List.find (\<lambda>i. mem path ! (i - 1) = chr CHR ''/'') (rev [1..<Suc (len path)]) of
        Some i \<Rightarrow> (True, gg_buffer_substr path 0 (i - 1), gg_buffer_rest path i)
      | None \<Rightarrow> (False, gg_buffer_substr path 0 0, path))"

fun stripped_len :: "byte list \<Rightarrow> nat \<Rightarrow> nat" where
  "stripped_len m 0 = 0"
| "stripped_len m (Suc n) = (if m ! n = chr CHR ''/'' then stripped_len m n else Suc n)"

definition strip_trailing_slashes :: "GgBuffer \<Rightarrow> GgBuffer" where
  "strip_trailing_slashes path = path\<lparr>mem := take (stripped_len (mem path) (len path)) (mem path)\<rparr>"

section \<open>Opening\<close>

definition c_string :: "byte list \<Rightarrow> byte list" where
  \<comment> \<open>what a function sees that is given a null-terminated copy of the bytes\<close>
  "c_string bs = takeWhile (\<lambda>b. b \<noteq> 0) bs"

definition open_comp :: "'w os \<Rightarrow> int \<Rightarrow> byte list \<Rightarrow> u32 \<Rightarrow> bool \<Rightarrow> 'w \<Rightarrow> (int res \<times> 'w) option" where
  \<comment> \<open>one path component below \<open>cur_fd\<close>, created if needed; every error becomes \<open>GG_ERR_FAILURE\<close>\<close>
  "open_comp os cur_fd path_comp_buf flags create w =
     (if create
      then (case gg_dir_openat_mkdir os cur_fd (c_string path_comp_buf) flags 493 w of
              None \<Rightarrow> None
            | Some (Inl _, w) \<Rightarrow> Some (Inl GG_ERR_FAILURE, w)
            | Some (Inr fd, w) \<Rightarrow> Some (Inr fd, w))
      else (case gg_openat os cur_fd (c_string path_comp_buf) flags 0 w of
              None \<Rightarrow> None
            | Some (Inl _, w) \<Rightarrow> Some (Inl GG_ERR_FAILURE, w)
            | Some (Inr fd, w) \<Rightarrow> Some (Inr fd, w)))"

lemma find_upt_Some: "List.find P [m..<n] = Some i \<Longrightarrow> m \<le> i \<and> i < n \<and> P i"
  by (auto simp: find_Some_iff)

lemma split_first_shorter: "split_path_first_comp path = (True, part, rest) \<Longrightarrow> len rest < len path"
  by (auto simp: split_path_first_comp_def gg_buffer_rest_def gg_buffer_substr_def split: option.splits dest!: find_upt_Some)

function dir_loop :: "'w os \<Rightarrow> int \<Rightarrow> GgBuffer \<Rightarrow> bool \<Rightarrow> 'w \<Rightarrow> ((GgBuffer \<times> int) res \<times> 'w) option" where
  \<comment> \<open>the loop over the parents; the last component and \<open>cur_fd\<close> afterwards. An error closes \<open>cur_fd\<close>\<close>
  "dir_loop os cur_fd rest create w =
     (case split_path_first_comp rest of (found, part, rest') \<Rightarrow>
        if \<not> found then Some (Inr (part, cur_fd), w)
        else if len part = 0 then dir_loop os cur_fd rest' create w
        else if len part > NAME_MAX then Some (Inl GG_ERR_RANGE, cleanup_close os cur_fd w)
        else
          (case open_comp os cur_fd (mem part) (O_CLOEXEC OR O_DIRECTORY OR O_PATH) create w of
             None \<Rightarrow> None
           | Some (Inl ret, w) \<Rightarrow> Some (Inl ret, cleanup_close os cur_fd w)
           | Some (Inr new_fd, w) \<Rightarrow> dir_loop os new_fd rest' create (snd (gg_close os cur_fd w))))"
  by pat_completeness auto
termination
  by (relation "measure (\<lambda>(_, _, rest, _). len rest)") (auto dest!: split_first_shorter [OF sym])

declare dir_loop.simps [simp del]

definition gg_dir_openat :: "'w os \<Rightarrow> int \<Rightarrow> GgBuffer \<Rightarrow> u32 \<Rightarrow> bool \<Rightarrow> 'w \<Rightarrow> (int res \<times> 'w) option" where
  "gg_dir_openat os dirfd path flags create w =
     (case copy_dir_fd os dirfd O_PATH w of
        None \<Rightarrow> None
      | Some (Inl ret, w) \<Rightarrow> Some (Inl ret, w)
      | Some (Inr cur_fd, w) \<Rightarrow>
     (case dir_loop os cur_fd (strip_trailing_slashes path) create w of
        None \<Rightarrow> None
      | Some (Inl ret, w) \<Rightarrow> Some (Inl ret, w)
      | Some (Inr (part, cur_fd), w) \<Rightarrow>
          if len part > NAME_MAX then Some (Inl GG_ERR_NOMEM, cleanup_close os cur_fd w)
          else
            (case open_comp os cur_fd (mem part) (O_CLOEXEC OR O_DIRECTORY OR flags) create w of
               None \<Rightarrow> None
             | Some (r, w) \<Rightarrow> Some (r, cleanup_close os cur_fd w))))"

definition gg_dir_open :: "'w os \<Rightarrow> GgBuffer \<Rightarrow> u32 \<Rightarrow> bool \<Rightarrow> 'w \<Rightarrow> (int res \<times> 'w) option" where
  "gg_dir_open os path flags create w =
     (if len path = 0 then Some (Inl GG_ERR_INVALID, w)
      else
     (let absolute = (mem path ! 0 = chr CHR ''/'');
          rel_path = strip_trailing_slashes (if absolute then gg_buffer_rest path 1 else path)
      in if len rel_path = 0
         then if \<not> absolute then Some (Inl GG_ERR_INVALID, w)
              else (case sys_open os (bytes_of ''/'') (O_CLOEXEC OR O_DIRECTORY OR flags) w of
                      (Inl _, w) \<Rightarrow> Some (Inl GG_ERR_FAILURE, w)
                    | (Inr fd, w) \<Rightarrow> Some (Inr fd, w))
         else
           (case sys_open os (bytes_of (if absolute then ''/'' else ''.''))
                   (O_CLOEXEC OR O_DIRECTORY OR (if create then O_RDONLY else O_PATH)) w of
              (Inl _, w) \<Rightarrow> Some (Inl GG_ERR_FAILURE, w)
            | (Inr base_fd, w) \<Rightarrow>
                (case gg_dir_openat os base_fd rel_path flags create w of
                   None \<Rightarrow> None
                 | Some (r, w) \<Rightarrow> Some (r, cleanup_close os base_fd w)))))"

definition gg_file_openat :: "'w os \<Rightarrow> int \<Rightarrow> GgBuffer \<Rightarrow> u32 \<Rightarrow> u32 \<Rightarrow> 'w \<Rightarrow> (int res \<times> 'w) option" where
  "gg_file_openat os dirfd path flags mode w =
     (case split_path_last_comp path of (has_dir, dir, file) \<Rightarrow>
     (case (if has_dir then gg_dir_openat os dirfd dir O_PATH (flags AND O_CREAT > 0) w
            else copy_dir_fd os dirfd O_PATH w) of
        None \<Rightarrow> None
      | Some (Inl ret, w) \<Rightarrow> Some (Inl ret, w)
      | Some (Inr cur_fd, w) \<Rightarrow>
          if len file > NAME_MAX then Some (Inl GG_ERR_NOMEM, cleanup_close os cur_fd w)
          else
            (case gg_openat os cur_fd (c_string (mem file)) (O_CLOEXEC OR flags) mode w of
               None \<Rightarrow> None
             | Some (Inl _, w) \<Rightarrow> Some (Inl GG_ERR_FAILURE, cleanup_close os cur_fd w)
             | Some (Inr fd, w) \<Rightarrow> Some (Inr fd, cleanup_close os cur_fd w))))"

definition with_base_fd ::
  "'w os \<Rightarrow> GgBuffer \<Rightarrow> (int \<Rightarrow> GgBuffer \<Rightarrow> 'w \<Rightarrow> ('a res \<times> 'w) option) \<Rightarrow> 'w \<Rightarrow> ('a res \<times> 'w) option" where
  \<comment> \<open>the common part of \<open>gg_file_open\<close> and \<open>gg_file_read_path\<close>\<close>
  "with_base_fd os path use w =
     (if len path = 0 then Some (Inl GG_ERR_INVALID, w)
      else
     (let absolute = (mem path ! 0 = chr CHR ''/'');
          rel_path = (if absolute then gg_buffer_rest path 1 else path)
      in if len rel_path = 0 then Some (Inl GG_ERR_INVALID, w)
         else
           (case sys_open os (bytes_of (if absolute then ''/'' else ''.'')) (O_CLOEXEC OR O_DIRECTORY OR O_PATH) w of
              (Inl _, w) \<Rightarrow> Some (Inl GG_ERR_FAILURE, w)
            | (Inr base_fd, w) \<Rightarrow>
                (case use base_fd rel_path w of
                   None \<Rightarrow> None
                 | Some (r, w) \<Rightarrow> Some (r, cleanup_close os base_fd w)))))"

definition gg_file_open :: "'w os \<Rightarrow> GgBuffer \<Rightarrow> u32 \<Rightarrow> u32 \<Rightarrow> 'w \<Rightarrow> (int res \<times> 'w) option" where
  "gg_file_open os path flags mode w =
     with_base_fd os path (\<lambda>base_fd rel_path. gg_file_openat os base_fd rel_path flags mode) w"

section \<open>Reading and writing\<close>

definition gg_file_read_partial :: "'w os \<Rightarrow> int \<Rightarrow> nat \<Rightarrow> 'w \<Rightarrow> byte list res \<times> 'w" where
  \<comment> \<open>for a buffer of \<open>n\<close> bytes: the bytes stored at its front; the rest of the buffer is handed back\<close>
  "gg_file_read_partial os fd n w =
     (case sys_read os fd n w of
        (Inl err, w) \<Rightarrow>
          (Inl (if err = EINTR then GG_ERR_RETRY else if err = EAGAIN then GG_ERR_FAILURE
                else if err = ECONNRESET then GG_ERR_NODATA else GG_ERR_FAILURE), w)
      | (Inr bs, w) \<Rightarrow> (if bs = [] then Inl GG_ERR_NODATA else Inr bs, w))"

partial_function (option) read_loop :: "'w os \<Rightarrow> int \<Rightarrow> nat \<Rightarrow> byte list \<Rightarrow> 'w \<Rightarrow> (byte list res \<times> 'w) option" where
  \<comment> \<open>\<open>got\<close> has been stored; the rest of the buffer has room for \<open>n - length got\<close> bytes\<close>
  "read_loop os fd n got w =
     (if n - length got > 0
      then (case gg_file_read_partial os fd (n - length got) w of (r, w) \<Rightarrow>
              (case r of
                 Inl ret \<Rightarrow>
                   if ret = GG_ERR_NODATA then Some (Inr got, w)
                   else if ret = GG_ERR_RETRY then read_loop os fd n got w
                   else Some (Inl ret, w)
               | Inr bs \<Rightarrow> read_loop os fd n (got @ bs) w))
      else Some (Inr got, w))"

definition gg_file_read :: "'w os \<Rightarrow> int \<Rightarrow> nat \<Rightarrow> 'w \<Rightarrow> (byte list res \<times> 'w) option" where
  "gg_file_read os fd n w = read_loop os fd n [] w"

definition gg_file_read_exact :: "'w os \<Rightarrow> int \<Rightarrow> nat \<Rightarrow> 'w \<Rightarrow> (byte list res \<times> 'w) option" where
  "gg_file_read_exact os fd n w =
     (case gg_file_read os fd n w of
        None \<Rightarrow> None
      | Some (Inl ret, w) \<Rightarrow> Some (Inl ret, w)
      | Some (Inr bs, w) \<Rightarrow> Some (if length bs = n then Inr bs else Inl GG_ERR_NODATA, w))"

definition gg_file_write_partial :: "'w os \<Rightarrow> int \<Rightarrow> byte list \<Rightarrow> 'w \<Rightarrow> byte list res \<times> 'w" where
  \<comment> \<open>the rest of the buffer\<close>
  "gg_file_write_partial os fd bs w =
     (case sys_write os fd bs w of
        (Inl err, w) \<Rightarrow>
          (Inl (if err = EINTR then GG_ERR_RETRY else if err = EAGAIN then GG_ERR_FAILURE
                else if err = EPIPE then GG_ERR_NOCONN else if err = ECONNRESET then GG_ERR_NOCONN else GG_ERR_FAILURE), w)
      | (Inr n, w) \<Rightarrow> (Inr (drop n bs), w))"

partial_function (option) gg_file_write :: "'w os \<Rightarrow> int \<Rightarrow> byte list \<Rightarrow> 'w \<Rightarrow> (GgError \<times> 'w) option" where
  "gg_file_write os fd bs w =
     (if length bs > 0
      then (case gg_file_write_partial os fd bs w of (r, w) \<Rightarrow>
              (case r of
                 Inl ret \<Rightarrow> if ret = GG_ERR_RETRY then gg_file_write os fd bs w else Some (ret, w)
               | Inr rest \<Rightarrow> gg_file_write os fd rest w))
      else Some (GG_ERR_OK, w))"

definition gg_file_read_path_at :: "'w os \<Rightarrow> int \<Rightarrow> GgBuffer \<Rightarrow> nat \<Rightarrow> 'w \<Rightarrow> (byte list res \<times> 'w) option" where
  \<comment> \<open>for a buffer of \<open>n\<close> bytes\<close>
  "gg_file_read_path_at os dirfd path n w =
     (case gg_file_openat os dirfd path O_RDONLY 0 w of
        None \<Rightarrow> None
      | Some (Inl ret, w) \<Rightarrow> Some (Inl ret, w)
      | Some (Inr fd, w) \<Rightarrow>
     (case sys_fstat_size os fd w of
        (Inl _, w) \<Rightarrow> Some (Inl GG_ERR_FAILURE, cleanup_close os fd w)
      | (Inr file_size, w) \<Rightarrow>
          if file_size > n then Some (Inl GG_ERR_NOMEM, cleanup_close os fd w)
          else
            (case gg_file_read_exact os fd file_size w of
               None \<Rightarrow> None
             | Some (r, w) \<Rightarrow> Some (r, cleanup_close os fd w))))"

definition gg_file_read_path :: "'w os \<Rightarrow> GgBuffer \<Rightarrow> nat \<Rightarrow> 'w \<Rightarrow> (byte list res \<times> 'w) option" where
  "gg_file_read_path os path n w =
     with_base_fd os path (\<lambda>base_fd rel_path. gg_file_read_path_at os base_fd rel_path n) w"

section \<open>Sockets\<close>

definition gg_socket_read :: "'w os \<Rightarrow> int \<Rightarrow> nat \<Rightarrow> 'w \<Rightarrow> (byte list res \<times> 'w) option" where
  "gg_socket_read os fd n w = gg_file_read_exact os fd n w"

definition gg_socket_write :: "'w os \<Rightarrow> int \<Rightarrow> byte list \<Rightarrow> 'w \<Rightarrow> (GgError \<times> 'w) option" where
  "gg_socket_write os fd bs w = gg_file_write os fd bs w"

definition sizeof_sun_path :: nat where
  "sizeof_sun_path = 108"

definition gg_connect :: "'w os \<Rightarrow> GgBuffer \<Rightarrow> 'w \<Rightarrow> int res \<times> 'w" where
  \<comment> \<open>\<open>sun_path\<close> is zeroed, so the path is null-terminated\<close>
  "gg_connect os path w =
     (if len path \<ge> sizeof_sun_path then (Inl GG_ERR_FAILURE, w)
      else
     (case sys_socket os w of
        (Inl _, w) \<Rightarrow> (Inl GG_ERR_FATAL, w)
      | (Inr sockfd, w) \<Rightarrow>
     (case sys_connect os sockfd (mem path) w of
        (Inl _, w) \<Rightarrow> (Inl GG_ERR_FAILURE, cleanup_close os sockfd w)
      | (Inr _, w) \<Rightarrow>
     (case sys_set_timeout os sockfd True w of
        (Inl _, w) \<Rightarrow> (Inl GG_ERR_FATAL, cleanup_close os sockfd w)
      | (Inr _, w) \<Rightarrow>
     (case sys_set_timeout os sockfd False w of
        (Inl _, w) \<Rightarrow> (Inl GG_ERR_FATAL, cleanup_close os sockfd w)
      | (Inr _, w) \<Rightarrow> (Inr sockfd, w))))))"

definition gg_socket_reader :: "'w os \<Rightarrow> int \<Rightarrow> 'w GgReader" where
  \<comment> \<open>a read that never returns is \<open>GG_ERR_FATAL\<close>; it does not arise when interrupts come to an end\<close>
  "gg_socket_reader os fd =
     Some (\<lambda>w n. case gg_file_read os fd n w of Some r \<Rightarrow> r | None \<Rightarrow> (Inl GG_ERR_FATAL, w))"

definition gg_socket_writer :: "'w os \<Rightarrow> int \<Rightarrow> 'w GgWriter" where
  "gg_socket_writer os fd =
     Some (\<lambda>w bs. case gg_socket_write os fd bs w of Some r \<Rightarrow> r | None \<Rightarrow> (GG_ERR_FATAL, w))"

end
