(* ===== verification/Posix.thy ===== *)
theory Posix
  imports File
begin

text \<open>
  What the file and socket functions promise, for every operating system that keeps the contract
  of POSIX.

  The locale \<open>posix\<close> states that contract for descriptors: a call that opens gives a descriptor that
  was not open, closing removes it, the other calls leave the set of open descriptors alone, and
  signals interrupt only finitely many calls. Its extension \<open>stream_fd\<close> is about one descriptor
  that data can be read from or written to. Both are interpreted on an in-memory system.
\<close>

section \<open>Components of a path\<close>

abbreviation slash :: byte where
  "slash \<equiv> 47"

fun split_slash :: "byte list \<Rightarrow> byte list list" where
  "split_slash [] = [[]]"
| "split_slash (c # cs) =
     (if c = slash then [] # split_slash cs else (case split_slash cs of p # ps \<Rightarrow> (c # p) # ps | [] \<Rightarrow> [[c]]))"

definition comps :: "byte list \<Rightarrow> byte list list" where
  "comps m = filter (\<lambda>p. p \<noteq> []) (split_slash m)"

lemma split_slash_ne [simp]: "split_slash m \<noteq> []"
  by (induction m) (auto split: list.splits)

lemma split_slash_part: "slash \<notin> set p \<Longrightarrow> split_slash p = [p]"
  by (induction p) auto

lemma split_slash_first: "slash \<notin> set p \<Longrightarrow> split_slash (p @ slash # m) = p # split_slash m"
  by (induction p) auto

lemma comps_simps:
  "comps [] = []"
  "slash \<notin> set p \<Longrightarrow> comps p = (if p = [] then [] else [p])"
  "slash \<notin> set p \<Longrightarrow> comps (p @ slash # m) = (if p = [] then comps m else p # comps m)"
  by (simp_all add: comps_def split_slash_part split_slash_first)

lemma split_slash_snoc: "split_slash (m @ [slash]) = split_slash m @ [[]]"
proof (induction m)
  case (Cons c m)
  then show ?case by (cases "split_slash m") simp_all
qed simp

lemma comps_strip: "comps (m @ [slash]) = comps m"
  by (simp add: comps_def split_slash_snoc)

lemma concat_split_slash: "concat (split_slash m) = filter (\<lambda>c. c \<noteq> slash) m"
proof (induction m)
  case (Cons c m)
  then show ?case by (cases "split_slash m") auto
qed simp

lemma comps_ne: "m \<noteq> [] \<Longrightarrow> last m \<noteq> slash \<Longrightarrow> comps m \<noteq> []"
proof
  assume "m \<noteq> []" "last m \<noteq> slash" "comps m = []"
  then have "concat (split_slash m) = []" by (simp add: comps_def filter_empty_conv)
  then have "\<forall>c \<in> set m. c = slash" by (simp add: concat_split_slash filter_empty_conv)
  then show False using \<open>m \<noteq> []\<close> \<open>last m \<noteq> slash\<close> by simp
qed

lemma slash_chr [simp]: "chr CHR ''/'' = slash"
  by code_simp

lemma strip_slashes:
  "n \<le> length m \<Longrightarrow> comps (take (stripped_len m n) m) = comps (take n m)"
  "n \<le> length m \<Longrightarrow> stripped_len m n \<le> n"
  "n \<le> length m \<Longrightarrow> stripped_len m n = 0 \<or> m ! (stripped_len m n - 1) \<noteq> slash"
proof (induction n)
  case (Suc n)
  {
    case 1
    then show ?case using Suc.IH(1) comps_strip [of "take n m"] by (auto simp: take_Suc_conv_app_nth)
  next
    case 2
    then show ?case using Suc.IH(2) by auto
  next
    case 3
    then show ?case using Suc.IH(3) by auto
  }
qed simp_all

lemma mem_path_parts [simp]:
  "mem (gg_buffer_rest b i) = drop i (mem b)" "mem (gg_buffer_substr b 0 i) = take i (mem b)"
  by (auto simp: gg_buffer_rest_def gg_buffer_substr_def)

lemma split_first_cases:
  obtains rest' where "split_path_first_comp path = (False, path, rest')" "slash \<notin> set (mem path)"
  | part rest' where "split_path_first_comp path = (True, part, rest')" "mem path = mem part @ slash # mem rest'" "slash \<notin> set (mem part)"
proof (cases "List.find (\<lambda>i. mem path ! i = slash) [0..<len path]")
  case None
  then have "slash \<notin> set (mem path)" by (auto simp: find_None_iff in_set_conv_nth)
  then show thesis using that(1) None by (auto simp: split_path_first_comp_def)
next
  case (Some i)
  then have i: "i < len path" "mem path ! i = slash" "\<forall>j < i. mem path ! j \<noteq> slash" by (auto simp: find_Some_iff)
  then have "slash \<notin> set (take i (mem path))" "mem path = take i (mem path) @ slash # drop (Suc i) (mem path)"
    using id_take_nth_drop [of i "mem path"] by (auto simp: in_set_conv_nth)
  moreover have "split_path_first_comp path = (True, gg_buffer_substr path 0 i, gg_buffer_rest path (i + 1))"
    using Some by (simp add: split_path_first_comp_def)
  ultimately show thesis using that(2) by simp
qed

section \<open>Walking down the components\<close>

fun open_dirs :: "'w os \<Rightarrow> int \<Rightarrow> byte list list \<Rightarrow> u32 \<Rightarrow> bool \<Rightarrow> 'w \<Rightarrow> (int res \<times> 'w) option" where
  \<comment> \<open>the directories one below the other, from \<open>cur_fd\<close>, which is closed\<close>
  "open_dirs os cur_fd [] flags create w = Some (Inr cur_fd, w)"
| "open_dirs os cur_fd [p] flags create w =
     (if length p > NAME_MAX then Some (Inl GG_ERR_NOMEM, cleanup_close os cur_fd w)
      else (case open_comp os cur_fd p (O_CLOEXEC OR O_DIRECTORY OR flags) create w of
              None \<Rightarrow> None
            | Some (r, w) \<Rightarrow> Some (r, cleanup_close os cur_fd w)))"
| "open_dirs os cur_fd (p # q # ps) flags create w =
     (if length p > NAME_MAX then Some (Inl GG_ERR_RANGE, cleanup_close os cur_fd w)
      else (case open_comp os cur_fd p (O_CLOEXEC OR O_DIRECTORY OR O_PATH) create w of
              None \<Rightarrow> None
            | Some (Inl ret, w) \<Rightarrow> Some (Inl ret, cleanup_close os cur_fd w)
            | Some (Inr new_fd, w) \<Rightarrow> open_dirs os new_fd (q # ps) flags create (snd (gg_close os cur_fd w))))"

definition dir_names :: "byte list \<Rightarrow> byte list list" where
  \<comment> \<open>what is opened for a path: a path without components is opened as the empty name\<close>
  "dir_names m = (if comps m = [] then [[]] else comps m)"

abbreviation dir_finish :: "'w os \<Rightarrow> u32 \<Rightarrow> bool \<Rightarrow> ((GgBuffer \<times> int) res \<times> 'w) option \<Rightarrow> (int res \<times> 'w) option" where
  "dir_finish os flags create r \<equiv>
     (case r of
        None \<Rightarrow> None
      | Some (Inl ret, w) \<Rightarrow> Some (Inl ret, w)
      | Some (Inr (part, cur_fd), w) \<Rightarrow> open_dirs os cur_fd [mem part] flags create w)"

lemma dir_loop_walk:
  assumes "mem rest = [] \<or> last (mem rest) \<noteq> slash"
  shows "dir_finish os flags create (dir_loop os cur_fd rest create w) = open_dirs os cur_fd (dir_names (mem rest)) flags create w"
  using assms
proof (induction os cur_fd rest create w rule: dir_loop.induct)
  case (1 os cur_fd rest create w)
  show ?case
  proof (cases rest rule: split_first_cases)
    case (1 rest')
    then show ?thesis by (subst dir_loop.simps) (simp add: dir_names_def comps_simps)
  next
    case (2 part rest')
    note s = this
    have l: "mem rest' \<noteq> []" "last (mem rest') \<noteq> slash" using "1.prems" s(2) by (auto split: if_splits)
    then obtain q qs where q: "comps (mem rest') = q # qs" using comps_ne by (cases "comps (mem rest')") auto
    show ?thesis
    proof (cases "mem part = []")
      case True
      have "dir_names (mem rest) = dir_names (mem rest')" using comps_simps(3) [OF s(3)] s(2) True by (simp add: dir_names_def)
      then show ?thesis using "1.IH"(1) [OF s(1) [symmetric] refl] l s(1) True
        by (subst dir_loop.simps) simp
    next
      case False
      let ?o = "open_comp os cur_fd (mem part) (O_CLOEXEC OR O_DIRECTORY OR O_PATH) create w"
      have n: "dir_names (mem rest) = mem part # q # qs" "dir_names (mem rest') = q # qs"
        using q s(2,3) False by (simp_all add: dir_names_def comps_simps)
      have IH: "dir_finish os flags create (dir_loop os new_fd rest' create (snd (gg_close os cur_fd w1))) =
          open_dirs os new_fd (q # qs) flags create (snd (gg_close os cur_fd w1))"
        if "?o = Some (Inr new_fd, w1)" "len part \<le> NAME_MAX" for new_fd w1
        using "1.IH"(2) [OF s(1) [symmetric] refl _ _ _ that(1) refl refl] l that(2) False n(2) by simp
      show ?thesis
      proof (cases "?o")
        case (Some rw)
        then obtain r w1 where "?o = Some (r, w1)" by (cases rw) auto
        then show ?thesis using IH n s(1) False by (subst dir_loop.simps) (cases r, simp_all)
      qed (use n s(1) False in \<open>subst dir_loop.simps, simp\<close>)
    qed
  qed
qed

lemma strip_trailing_slashes_names:
  "comps (mem (strip_trailing_slashes path)) = comps (mem path)"
  "mem (strip_trailing_slashes path) = [] \<or> last (mem (strip_trailing_slashes path)) \<noteq> slash"
  using strip_slashes [of "len path" "mem path"]
  by (auto simp: strip_trailing_slashes_def last_conv_nth min_def split: if_splits)

lemma dir_openat_walk:
  "gg_dir_openat os dirfd path flags create w =
     (case copy_dir_fd os dirfd O_PATH w of
        None \<Rightarrow> None
      | Some (Inl ret, w) \<Rightarrow> Some (Inl ret, w)
      | Some (Inr cur_fd, w) \<Rightarrow> open_dirs os cur_fd (dir_names (mem path)) flags create w)"
proof -
  have "dir_finish os flags create (dir_loop os cur_fd (strip_trailing_slashes path) create w) =
    open_dirs os cur_fd (dir_names (mem path)) flags create w" for cur_fd w
    unfolding dir_loop_walk [OF strip_trailing_slashes_names(2)] by (simp add: dir_names_def strip_trailing_slashes_names(1))
  from this [symmetric] show ?thesis unfolding gg_dir_openat_def
    by (auto split: option.splits sum.splits)
qed

section \<open>Descriptors\<close>

locale posix =
  fixes os :: "'w os" and fds :: "'w \<Rightarrow> int set" and interrupts :: "'w \<Rightarrow> nat"
  assumes openat_law: "sys_openat os d p fl m w = (r, w') \<Longrightarrow>
      (case r of Inr fd \<Rightarrow> 0 \<le> fd \<and> fd \<notin> fds w \<and> fds w' = insert fd (fds w) | Inl _ \<Rightarrow> fds w' = fds w) \<and>
      interrupts w' + of_bool (r = Inl EINTR) \<le> interrupts w"
    and open_law: "sys_open os p fl w = (r, w') \<Longrightarrow>
      (case r of Inr fd \<Rightarrow> 0 \<le> fd \<and> fd \<notin> fds w \<and> fds w' = insert fd (fds w) | Inl _ \<Rightarrow> fds w' = fds w) \<and>
      interrupts w' \<le> interrupts w"
    and socket_law: "sys_socket os w = (r, w') \<Longrightarrow>
      (case r of Inr fd \<Rightarrow> 0 \<le> fd \<and> fd \<notin> fds w \<and> fds w' = insert fd (fds w) | Inl _ \<Rightarrow> fds w' = fds w) \<and>
      interrupts w' \<le> interrupts w"
    and close_law: "sys_close os fd w = (r', w') \<Longrightarrow> fds w' = fds w - {fd} \<and> interrupts w' \<le> interrupts w"
    and mkdirat_law: "sys_mkdirat os d p m w = (r', w') \<Longrightarrow>
      fds w' = fds w \<and> interrupts w' + of_bool (r' = Inl EINTR) \<le> interrupts w"
    and fsync_law: "sys_fsync os fd w = (r', w') \<Longrightarrow> fds w' = fds w \<and> interrupts w' + of_bool (r' = Inl EINTR) \<le> interrupts w"
    and fstat_law: "sys_fstat_size os fd w = (sz, w') \<Longrightarrow> fds w' = fds w \<and> interrupts w' \<le> interrupts w"
    and read_law: "sys_read os fd n w = (bytes, w') \<Longrightarrow>
      fds w' = fds w \<and> interrupts w' + of_bool (bytes = Inl EINTR) \<le> interrupts w"
    and write_law: "sys_write os fd bs w = (sz, w') \<Longrightarrow>
      fds w' = fds w \<and> interrupts w' + of_bool (sz = Inl EINTR) \<le> interrupts w \<and>
      (bs \<noteq> [] \<longrightarrow> sz \<noteq> Inr 0)"
    and connect_law: "sys_connect os fd p w = (r', w') \<Longrightarrow> fds w' = fds w \<and> interrupts w' \<le> interrupts w"
    and timeout_law: "sys_set_timeout os fd b w = (r', w') \<Longrightarrow> fds w' = fds w \<and> interrupts w' \<le> interrupts w"
begin

definition keeps :: "'w \<Rightarrow> 'w \<Rightarrow> bool" where
  "keeps w w' \<longleftrightarrow> fds w' = fds w \<and> interrupts w' \<le> interrupts w"

definition owns :: "int set \<Rightarrow> int \<Rightarrow> 'w \<Rightarrow> bool" where
  "owns B fd w \<longleftrightarrow> 0 \<le> fd \<and> fd \<notin> B \<and> fds w = insert fd B"

definition yields :: "int set \<Rightarrow> nat \<Rightarrow> ('e + int) \<Rightarrow> 'w \<Rightarrow> bool" where
  \<comment> \<open>open are the descriptors \<open>B\<close> and the one returned\<close>
  "yields B n r w' \<longleftrightarrow> (case r of Inr fd \<Rightarrow> owns B fd w' | Inl _ \<Rightarrow> fds w' = B) \<and> interrupts w' \<le> n"

abbreviation opens :: "'w \<Rightarrow> ('e + int) \<Rightarrow> 'w \<Rightarrow> bool" where
  "opens w \<equiv> yields (fds w) (interrupts w)"

lemma until_done_total:
  assumes "\<And>w r w'. call w = (r, w') \<Longrightarrow> Q w r w' \<and> interrupts w' + of_bool (r = Inl EINTR) \<le> interrupts w"
    and "\<And>w w1 r w2. Q w (Inl EINTR) w1 \<Longrightarrow> Q w1 r w2 \<Longrightarrow> Q w r w2"
  obtains r w' where "until_done call w = Some (r, w')" "Q w r w'" "interrupts w' \<le> interrupts w" "r \<noteq> Inl EINTR"
proof -
  have "\<exists>r w'. until_done call w = Some (r, w') \<and> Q w r w' \<and> interrupts w' \<le> interrupts w \<and> r \<noteq> Inl EINTR"
  proof (induction w rule: measure_induct_rule [of interrupts])
    case (less w)
    obtain r w' where c: "call w = (r, w')" by (cases "call w")
    note law = assms(1) [OF c]
    show ?case
    proof (cases "r = Inl EINTR")
      case True
      then obtain r2 w2 where "until_done call w' = Some (r2, w2)" "Q w' r2 w2" "interrupts w2 \<le> interrupts w'" "r2 \<noteq> Inl EINTR"
        using less [of w'] law by auto
      then show ?thesis using True c law assms(2) by (subst until_done.simps) fastforce
    next
      case False
      then show ?thesis using c law by (subst until_done.simps) (auto split: sum.splits)
    qed
  qed
  then show thesis using that by blast
qed

lemma until_done_opens:
  assumes "\<And>w r w'. call w = (r, w') \<Longrightarrow>
      (case r of Inr fd \<Rightarrow> 0 \<le> fd \<and> fd \<notin> fds w \<and> fds w' = insert fd (fds w) | Inl _ \<Rightarrow> fds w' = fds w) \<and>
      interrupts w' + of_bool (r = Inl EINTR) \<le> interrupts w"
  obtains r w' where "until_done call w = Some (r, w')" "opens w r w'"
proof -
  let ?Q = "\<lambda>w r w'. case r of Inr fd \<Rightarrow> 0 \<le> fd \<and> fd \<notin> fds w \<and> fds w' = insert fd (fds w) | Inl _ \<Rightarrow> fds w' = fds w"
  show thesis
    by (rule until_done_total [of call ?Q w]) (use assms that in \<open>auto simp: yields_def owns_def split: sum.splits\<close>)
qed

lemma until_done_keeps:
  assumes "\<And>w r w'. call w = (r, w') \<Longrightarrow> fds w' = fds w \<and> interrupts w' + of_bool (r = Inl EINTR) \<le> interrupts w"
  obtains r w' where "until_done call w = Some (r, w')" "keeps w w'"
  by (rule until_done_total [of call "\<lambda>w r w'. fds w' = fds w" w]) (use assms that in \<open>auto simp: keeps_def\<close>)

lemma close_owned: "owns B fd w \<Longrightarrow> fds (snd (gg_close os fd w)) = B \<and> interrupts (snd (gg_close os fd w)) \<le> interrupts w"
  using close_law [of fd w] by (cases "sys_close os fd w") (auto simp: owns_def gg_close_def split: sum.splits)

lemma cleanup_eq_close: "owns B fd w \<Longrightarrow> cleanup_close os fd w = snd (gg_close os fd w)"
  by (simp add: owns_def cleanup_close_def)

lemma cleanup_owned: "owns B fd w \<Longrightarrow> fds (cleanup_close os fd w) = B \<and> interrupts (cleanup_close os fd w) \<le> interrupts w"
  using close_owned by (simp add: cleanup_eq_close)

text \<open>A descriptor that is owned is closed after another call.\<close>

lemma yields_close:
  assumes own: "owns B fd w" and y: "yields (fds w) n r w1"
  shows "yields B n r (snd (gg_close os fd w1))" "cleanup_close os fd w1 = snd (gg_close os fd w1)"
proof -
  have "owns (case r of Inr fd' \<Rightarrow> insert fd' B | Inl _ \<Rightarrow> B) fd w1"
    using own y by (auto simp: yields_def owns_def split: sum.splits)
  from close_owned [OF this] cleanup_eq_close [OF this] own y
  show "yields B n r (snd (gg_close os fd w1))" "cleanup_close os fd w1 = snd (gg_close os fd w1)"
    by (auto simp: yields_def owns_def split: sum.splits)
qed

lemma yields_keeps: "yields B n r w \<Longrightarrow> keeps w w' \<Longrightarrow> yields B n r w'"
  by (auto simp: yields_def keeps_def owns_def split: sum.splits)

lemma openat_opens: obtains r w' where "gg_openat os d p fl m w = Some (r, w')" "opens w r w'"
  unfolding gg_openat_def by (rule until_done_opens [OF openat_law])

lemma copy_dir_fd_opens: obtains r w' where "copy_dir_fd os d fl w = Some (r, w')" "opens w r w'"
proof -
  obtain r w' where "gg_openat os d (bytes_of ''.'') (O_CLOEXEC OR O_DIRECTORY OR fl) 0 w = Some (r, w')" "opens w r w'"
    by (rule openat_opens)
  then show thesis using that by (cases r) (simp_all add: copy_dir_fd_def openat_wrapper_def gg_openat_def yields_def)
qed

lemma fsync_keeps: obtains r w' where "gg_fsync os fd w = Some (r, w')" "keeps w w'"
proof -
  obtain r w' where "until_done (sys_fsync os fd) w = Some (r, w')" "keeps w w'"
    by (rule until_done_keeps [of "sys_fsync os fd" w, OF fsync_law])
  then show thesis using that by (cases r) (simp_all add: gg_fsync_def)
qed

lemma mkdirat_keeps: obtains r w' where "gg_mkdirat os d p m w = Some (r, w')" "keeps w w'"
proof -
  obtain r1 w1 where 1: "copy_dir_fd os d O_RDONLY w = Some (r1, w1)" "opens w r1 w1" by (rule copy_dir_fd_opens)
  show thesis
  proof (cases r1)
    case (Inl e)
    then show thesis using that 1 by (simp add: gg_mkdirat_def yields_def keeps_def)
  next
    case (Inr fd)
    obtain r2 w2 where 2: "until_done (sys_mkdirat os fd p m) w1 = Some (r2, w2)" "keeps w1 w2"
      by (rule until_done_keeps [of "sys_mkdirat os fd p m" w1, OF mkdirat_law])
    obtain r3 w3 where 3: "gg_fsync os fd w2 = Some (r3, w3)" "keeps w2 w3" by (rule fsync_keeps)
    have "owns (fds w) fd w2" "owns (fds w) fd w3" "interrupts w2 \<le> interrupts w" "interrupts w3 \<le> interrupts w"
      using 1(2) 2(2) 3(2) Inr by (auto simp: yields_def keeps_def owns_def)
    then have "keeps w (cleanup_close os fd w2)" "keeps w (cleanup_close os fd w3)"
      using cleanup_owned by (fastforce simp: keeps_def)+
    then show thesis using that 1(1) 2(1) 3(1) Inr by (cases r2) (auto simp: gg_mkdirat_def)
  qed
qed

lemma dir_openat_mkdir_opens: obtains r w' where "gg_dir_openat_mkdir os d p fl m w = Some (r, w')" "opens w r w'"
proof -
  obtain r1 w1 where 1: "gg_openat os d p fl 0 w = Some (r1, w1)" "opens w r1 w1" by (rule openat_opens)
  obtain r2 w2 where 2: "gg_mkdirat os d p m w1 = Some (r2, w2)" "keeps w1 w2" by (rule mkdirat_keeps)
  obtain r3 w3 where 3: "gg_openat os d p fl 0 w2 = Some (r3, w3)" "opens w2 r3 w3" by (rule openat_opens)
  show thesis
  proof (cases r1)
    case (Inl e)
    then have "keeps w w1" "fds w2 = fds w" "interrupts w2 \<le> interrupts w" using 1(2) 2(2) by (auto simp: yields_def keeps_def)
    then show thesis using that 1(1) 2(1) 3 Inl
      by (cases r3; cases "r2 = GG_ERR_OK"; cases "e = ENOENT") (auto simp: gg_dir_openat_mkdir_def yields_def keeps_def)
  qed (use that 1 in \<open>simp add: gg_dir_openat_mkdir_def yields_def\<close>)
qed

lemma open_comp_opens: obtains r w' where "open_comp os d p fl create w = Some (r, w')" "opens w r w'"
proof -
  obtain r1 w1 where 1: "gg_dir_openat_mkdir os d (c_string p) fl 493 w = Some (r1, w1)" "opens w r1 w1" by (rule dir_openat_mkdir_opens)
  obtain r2 w2 where 2: "gg_openat os d (c_string p) fl 0 w = Some (r2, w2)" "opens w r2 w2" by (rule openat_opens)
  show thesis using that 1 2 by (cases r1; cases r2; cases create) (simp_all add: open_comp_def yields_def)
qed

lemma open_dirs_yields:
  "owns B cur_fd w \<Longrightarrow> ps \<noteq> [] \<Longrightarrow> \<exists>r w'. open_dirs os cur_fd ps fl create w = Some (r, w') \<and> yields B (interrupts w) r w'"
proof (induction ps arbitrary: cur_fd w)
  case (Cons p ps)
  note own = Cons.prems(1)
  show ?case
  proof (cases "length p > NAME_MAX")
    case True
    then show ?thesis using cleanup_owned [OF own] by (cases ps) (simp_all add: yields_def)
  next
    case False
    show ?thesis
    proof (cases ps)
      case Nil
      obtain r w1 where o: "open_comp os cur_fd p (O_CLOEXEC OR O_DIRECTORY OR fl) create w = Some (r, w1)" "opens w r w1"
        by (rule open_comp_opens)
      then show ?thesis using Nil False yields_close [OF own o(2)] by simp
    next
      case (Cons q qs)
      obtain r w1 where o: "open_comp os cur_fd p (O_CLOEXEC OR O_DIRECTORY OR O_PATH) create w = Some (r, w1)" "opens w r w1"
        by (rule open_comp_opens)
      note c = yields_close [OF own o(2)]
      show ?thesis
      proof (cases r)
        case (Inl e)
        then show ?thesis using o(1) c Cons False by (simp add: yields_def)
      next
        case (Inr new_fd)
        then have "owns B new_fd (snd (gg_close os cur_fd w1))" "interrupts (snd (gg_close os cur_fd w1)) \<le> interrupts w"
          using c(1) by (simp_all add: yields_def)
        then show ?thesis using Cons.IH [of new_fd "snd (gg_close os cur_fd w1)"] o(1) Cons False Inr
          by (fastforce simp: yields_def)
      qed
    qed
  qed
qed simp

lemma dir_openat_opens: obtains r w' where "gg_dir_openat os d path fl create w = Some (r, w')" "opens w r w'"
proof -
  obtain r w1 where 1: "copy_dir_fd os d O_PATH w = Some (r, w1)" "opens w r w1" by (rule copy_dir_fd_opens)
  show thesis
  proof (cases r)
    case (Inr cur_fd)
    then have "owns (fds w) cur_fd w1" "interrupts w1 \<le> interrupts w" using 1(2) by (simp_all add: yields_def)
    then show thesis using open_dirs_yields [of "fds w" cur_fd w1 "dir_names (mem path)"] that 1(1) Inr
      by (fastforce simp: dir_openat_walk dir_names_def yields_def)
  qed (use that 1 in \<open>simp add: dir_openat_walk yields_def\<close>)
qed

lemma file_openat_opens: obtains r w' where "gg_file_openat os d path fl m w = Some (r, w')" "opens w r w'"
proof -
  obtain has_dir dir name where s: "split_path_last_comp path = (has_dir, dir, name)" by (cases "split_path_last_comp path")
  obtain r w1 where 1: "(if has_dir then gg_dir_openat os d dir O_PATH (fl AND O_CREAT > 0) w else copy_dir_fd os d O_PATH w) = Some (r, w1)"
    "opens w r w1" using dir_openat_opens copy_dir_fd_opens by (metis (full_types))
  show thesis
  proof (cases r)
    case (Inr cur_fd)
    then have own: "owns (fds w) cur_fd w1" "interrupts w1 \<le> interrupts w" using 1(2) by (simp_all add: yields_def)
    obtain r2 w2 where 2: "gg_openat os cur_fd (c_string (mem name)) (O_CLOEXEC OR fl) m w1 = Some (r2, w2)" "opens w1 r2 w2" by (rule openat_opens)
    note c = yields_close [OF own(1) 2(2)] and c1 = cleanup_owned [OF own(1)]
    show thesis using that 1(1) Inr s own 2(1) c c1
      by (cases r2; cases "len name > NAME_MAX") (auto simp: gg_file_openat_def yields_def)
  qed (use that 1 s in \<open>simp add: gg_file_openat_def yields_def\<close>)
qed

lemma with_base_cases:
  assumes "\<And>d p w. \<exists>r w'. use d p w = Some (r, w') \<and> Q w r w'"
  obtains e w' where "with_base_fd os path use w = Some (Inl e, w')" "keeps w w'"
  | d w1 r w2 where "with_base_fd os path use w = Some (r, cleanup_close os d w2)" "owns (fds w) d w1" "interrupts w1 \<le> interrupts w" "Q w1 r w2"
proof -
  let ?a = "mem path ! 0 = slash"
  let ?rel = "if ?a then gg_buffer_rest path 1 else path"
  obtain r w1 where 1: "sys_open os (bytes_of (if ?a then ''/'' else ''.'')) (O_CLOEXEC OR O_DIRECTORY OR O_PATH) w = (r, w1)" by fastforce
  note law = open_law [OF 1]
  have k: "keeps w w" by (simp add: keeps_def)
  show thesis
  proof (cases "mem path = [] \<or> mem ?rel = []")
    case True
    then have "with_base_fd os path use w = Some (Inl GG_ERR_INVALID, w)" by (auto simp: with_base_fd_def Let_def)
    then show thesis using that(1) k by blast
  next
    case False
    note eq = False 1
    show thesis
    proof (cases r)
      case (Inl e)
      then have "with_base_fd os path use w = Some (Inl GG_ERR_FAILURE, w1)" using eq by (auto simp: with_base_fd_def Let_def)
      then show thesis using that(1) law Inl by (auto simp: keeps_def)
    next
      case (Inr fd)
      obtain r2 w2 where 2: "use fd ?rel w1 = Some (r2, w2)" "Q w1 r2 w2" using assms by blast
      have "with_base_fd os path use w = Some (r2, cleanup_close os fd w2)" using eq 2(1) Inr by (auto simp: with_base_fd_def Let_def)
      then show thesis using that(2) 2(2) law Inr by (auto simp: owns_def)
    qed
  qed
qed

lemma file_open_opens: obtains r w' where "gg_file_open os path fl m w = Some (r, w')" "opens w r w'"
proof -
  have "\<exists>r w'. gg_file_openat os d p fl m w = Some (r, w') \<and> opens w r w'" for d p w using file_openat_opens by metis
  then show thesis
  proof (rule with_base_cases [where path = path and w = w])
    fix e w' assume "with_base_fd os path (\<lambda>d p. gg_file_openat os d p fl m) w = Some (Inl e, w')" "keeps w w'"
    then show thesis using that by (simp add: gg_file_open_def yields_def keeps_def)
  next
    fix d w1 r w2
    assume a: "with_base_fd os path (\<lambda>d p. gg_file_openat os d p fl m) w = Some (r, cleanup_close os d w2)"
      "owns (fds w) d w1" "interrupts w1 \<le> interrupts w" "opens w1 r w2"
    show thesis using that a(1,3) yields_close [OF a(2,4)] by (simp add: gg_file_open_def yields_def)
  qed
qed

lemma dir_open_opens: obtains r w' where "gg_dir_open os path fl create w = Some (r, w')" "opens w r w'"
proof -
  let ?a = "mem path ! 0 = slash"
  let ?rel = "strip_trailing_slashes (if ?a then gg_buffer_rest path 1 else path)"
  obtain r w1 where 1: "sys_open os (bytes_of ''/'') (O_CLOEXEC OR O_DIRECTORY OR fl) w = (r, w1)" by fastforce
  obtain r2 w2 where 2: "sys_open os (bytes_of (if ?a then ''/'' else ''.''))
      (O_CLOEXEC OR O_DIRECTORY OR (if create then O_RDONLY else O_PATH)) w = (r2, w2)" by fastforce
  note laws = open_law [OF 1] open_law [OF 2]
  consider "mem path = [] \<or> mem ?rel = [] \<and> \<not> ?a" | "mem path \<noteq> []" "mem ?rel = []" ?a | "mem path \<noteq> []" "mem ?rel \<noteq> []" by blast
  then show thesis
  proof cases
    case 1
    then have "gg_dir_open os path fl create w = Some (Inl GG_ERR_INVALID, w)" by (auto simp: gg_dir_open_def Let_def)
    then show thesis using that by (simp add: yields_def)
  next
    case 2
    then have "gg_dir_open os path fl create w = Some (case r of Inl _ \<Rightarrow> Inl GG_ERR_FAILURE | Inr fd \<Rightarrow> Inr fd, w1)"
      using 1 by (auto simp: gg_dir_open_def Let_def split: sum.splits)
    then show thesis using that laws(1) by (auto simp: yields_def owns_def split: sum.splits)
  next
    case 3
    show thesis
    proof (cases r2)
      case (Inl e)
      then have "gg_dir_open os path fl create w = Some (Inl GG_ERR_FAILURE, w2)" using 2 3 by (simp add: gg_dir_open_def Let_def)
      then show thesis using that laws(2) Inl by (simp add: yields_def)
    next
      case (Inr fd)
      then have own: "owns (fds w) fd w2" "interrupts w2 \<le> interrupts w" using laws(2) by (simp_all add: owns_def)
      obtain r3 w3 where o: "gg_dir_openat os fd ?rel fl create w2 = Some (r3, w3)" "opens w2 r3 w3" by (rule dir_openat_opens)
      have "gg_dir_open os path fl create w = Some (r3, cleanup_close os fd w3)" using 2 3 Inr o(1) by (simp add: gg_dir_open_def Let_def)
      then show thesis using that yields_close [OF own(1) o(2)] own(2) by (simp add: yields_def)
    qed
  qed
qed

lemma connect_opens: "opens w (fst (gg_connect os path w)) (snd (gg_connect os path w))"
proof -
  obtain r w1 where 1: "sys_socket os w = (r, w1)" by fastforce
  note law = socket_law [OF 1]
  show ?thesis
  proof (cases r)
    case (Inr fd)
    obtain r2 w2 where 2: "sys_connect os fd (mem path) w1 = (r2, w2)" by fastforce
    obtain r3 w3 where 3: "sys_set_timeout os fd True w2 = (r3, w3)" by fastforce
    obtain r4 w4 where 4: "sys_set_timeout os fd False w3 = (r4, w4)" by fastforce
    have own: "owns (fds w) fd w2" "owns (fds w) fd w3" "owns (fds w) fd w4"
      and i: "interrupts w2 \<le> interrupts w" "interrupts w3 \<le> interrupts w" "interrupts w4 \<le> interrupts w"
      using law connect_law [OF 2] timeout_law [OF 3] timeout_law [OF 4] Inr by (auto simp: owns_def)
    show ?thesis using 1 2 3 4 Inr own(3) i cleanup_owned [OF own(1)] cleanup_owned [OF own(2)] cleanup_owned [OF own(3)]
      by (cases r2; cases r3; cases r4) (auto simp: gg_connect_def yields_def)
  qed (use 1 law in \<open>auto simp: gg_connect_def yields_def\<close>)
qed

lemma keeps_trans: "keeps w w1 \<Longrightarrow> keeps w1 w2 \<Longrightarrow> keeps w w2"
  by (simp add: keeps_def)

lemma read_loop_total:
  assumes full: "\<And>got w. n \<le> length got \<Longrightarrow> Q got w (Inr got) w"
    and eof: "\<And>got w w1. length got < n \<Longrightarrow> sys_read os fd (n - length got) w = (Inr [], w1) \<Longrightarrow> Q got w (Inr got) w1"
    and error: "\<And>got w w1 e. length got < n \<Longrightarrow> sys_read os fd (n - length got) w = (Inl e, w1) \<Longrightarrow> e \<noteq> EINTR \<Longrightarrow>
      Q got w (if e = ECONNRESET then Inr got else Inl GG_ERR_FAILURE) w1"
    and intr: "\<And>got w w1 r w2. length got < n \<Longrightarrow> sys_read os fd (n - length got) w = (Inl EINTR, w1) \<Longrightarrow> Q got w1 r w2 \<Longrightarrow> Q got w r w2"
    and data: "\<And>got w w1 bs r w2. length got < n \<Longrightarrow> sys_read os fd (n - length got) w = (Inr bs, w1) \<Longrightarrow> bs \<noteq> [] \<Longrightarrow>
      Q (got @ bs) w1 r w2 \<Longrightarrow> Q got w r w2"
  shows "\<exists>r w'. read_loop os fd n got w = Some (r, w') \<and> Q got w r w'"
proof (induction "n - length got + interrupts w" arbitrary: got w rule: less_induct)
  case less
  obtain r w1 where r: "sys_read os fd (n - length got) w = (r, w1)" by fastforce
  note law = read_law [OF r]
  show ?case
  proof (cases "length got < n")
    case True
    have u: "read_loop os fd n got w = (case r of
        Inl e \<Rightarrow> if e = EINTR then read_loop os fd n got w1 else Some (if e = ECONNRESET then Inr got else Inl GG_ERR_FAILURE, w1)
      | Inr bs \<Rightarrow> if bs = [] then Some (Inr got, w1) else read_loop os fd n (got @ bs) w1)"
      using r True by (subst read_loop.simps) (auto simp: gg_file_read_partial_def split: sum.splits)
    consider "r = Inl EINTR" | e where "r = Inl e" "e \<noteq> EINTR" | "r = Inr []" | bs where "r = Inr bs" "bs \<noteq> []"
      by (cases r; cases "projr r") auto
    then show ?thesis
    proof cases
      case 1
      then have "n - length got + interrupts w1 < n - length got + interrupts w" using law by simp
      from less [OF this] obtain r2 w2 where "read_loop os fd n got w1 = Some (r2, w2)" "Q got w1 r2 w2" by auto
      then show ?thesis using 1 r u intr [OF True] by simp
    next
      case (2 e)
      then show ?thesis using r u error [OF True] by simp
    next
      case 3
      then show ?thesis using r u eof [OF True] by simp
    next
      case (4 bs)
      then have "n - length (got @ bs) + interrupts w1 < n - length got + interrupts w"
        using law True by (cases bs) auto
      from less [OF this] obtain r2 w2 where "read_loop os fd n (got @ bs) w1 = Some (r2, w2)" "Q (got @ bs) w1 r2 w2" by auto
      then show ?thesis using 4 r u data [OF True] by simp
    qed
  qed (use full in \<open>subst read_loop.simps, simp\<close>)
qed

lemma write_total:
  assumes nil: "\<And>w. Q [] w GG_ERR_OK w"
    and error: "\<And>bs w w1 e. bs \<noteq> [] \<Longrightarrow> sys_write os fd bs w = (Inl e, w1) \<Longrightarrow> e \<noteq> EINTR \<Longrightarrow>
      Q bs w (if e = EPIPE \<or> e = ECONNRESET then GG_ERR_NOCONN else GG_ERR_FAILURE) w1"
    and intr: "\<And>bs w w1 r w2. bs \<noteq> [] \<Longrightarrow> sys_write os fd bs w = (Inl EINTR, w1) \<Longrightarrow> Q bs w1 r w2 \<Longrightarrow> Q bs w r w2"
    and data: "\<And>bs w w1 n r w2. bs \<noteq> [] \<Longrightarrow> sys_write os fd bs w = (Inr n, w1) \<Longrightarrow> 0 < n \<Longrightarrow> Q (drop n bs) w1 r w2 \<Longrightarrow> Q bs w r w2"
  shows "\<exists>r w'. gg_file_write os fd bs w = Some (r, w') \<and> Q bs w r w'"
proof (induction "length bs + interrupts w" arbitrary: bs w rule: less_induct)
  case less
  obtain r w1 where r: "sys_write os fd bs w = (r, w1)" by fastforce
  note law = write_law [OF r]
  show ?case
  proof (cases "bs = []")
    case False
    have u: "gg_file_write os fd bs w = (case r of
        Inl e \<Rightarrow> if e = EINTR then gg_file_write os fd bs w1
                 else Some (if e = EPIPE \<or> e = ECONNRESET then GG_ERR_NOCONN else GG_ERR_FAILURE, w1)
      | Inr n \<Rightarrow> gg_file_write os fd (drop n bs) w1)"
      using r False by (subst gg_file_write.simps) (auto simp: gg_file_write_partial_def split: sum.splits)
    consider "r = Inl EINTR" | e where "r = Inl e" "e \<noteq> EINTR" | n where "r = Inr n" "0 < n"
      using law False by (cases r) auto
    then show ?thesis
    proof cases
      case 1
      then obtain r2 w2 where "gg_file_write os fd bs w1 = Some (r2, w2)" "Q bs w1 r2 w2" using less [of bs w1] law by auto
      then show ?thesis using 1 r u intr [OF False] by simp
    next
      case (2 e)
      then show ?thesis using r u error [OF False] by simp
    next
      case (3 n)
      then have "length (drop n bs) + interrupts w1 < length bs + interrupts w" using law False by (cases bs) auto
      from less [OF this] obtain r2 w2 where "gg_file_write os fd (drop n bs) w1 = Some (r2, w2)" "Q (drop n bs) w1 r2 w2" by auto
      then show ?thesis using 3 r u data [OF False] by simp
    qed
  qed (use nil in \<open>subst gg_file_write.simps, simp\<close>)
qed

lemma file_read_exact_keeps: obtains r w' where "gg_file_read_exact os fd n w = Some (r, w')" "keeps w w'"
proof -
  have "\<exists>r w'. read_loop os fd n [] w = Some (r, w') \<and> keeps w w'"
    by (rule read_loop_total [where Q = "\<lambda>got w r w'. keeps w w'"]) (auto simp: keeps_def dest!: read_law)
  then obtain r w' where "gg_file_read os fd n w = Some (r, w')" "keeps w w'" by (auto simp: gg_file_read_def)
  then show thesis using that by (cases r) (auto simp: gg_file_read_exact_def)
qed

lemma file_read_path_at_keeps: obtains r w' where "gg_file_read_path_at os d path n w = Some (r, w')" "keeps w w'"
proof -
  obtain r w1 where 1: "gg_file_openat os d path O_RDONLY 0 w = Some (r, w1)" "opens w r w1" by (rule file_openat_opens)
  show thesis
  proof (cases r)
    case (Inr fd)
    obtain sz w2 where 2: "sys_fstat_size os fd w1 = (sz, w2)" by fastforce
    obtain r3 w3 where 3: "gg_file_read_exact os fd (projr sz) w2 = Some (r3, w3)" "keeps w2 w3" by (rule file_read_exact_keeps)
    have own: "owns (fds w) fd w2" "owns (fds w) fd w3" and i: "interrupts w2 \<le> interrupts w" "interrupts w3 \<le> interrupts w"
      using 1(2) Inr fstat_law [OF 2] 3(2) by (auto simp: yields_def owns_def keeps_def)
    then have "keeps w (cleanup_close os fd w2)" "keeps w (cleanup_close os fd w3)"
      using cleanup_owned [OF own(1)] cleanup_owned [OF own(2)] by (auto simp: keeps_def)
    then show thesis using that 1(1) Inr 2 3(1) by (cases sz; cases "n < projr sz") (simp_all add: gg_file_read_path_at_def)
  qed (use that 1 in \<open>simp add: gg_file_read_path_at_def yields_def keeps_def\<close>)
qed

lemma file_read_path_keeps: obtains r w' where "gg_file_read_path os path n w = Some (r, w')" "keeps w w'"
proof -
  have "\<exists>r w'. gg_file_read_path_at os d p n w = Some (r, w') \<and> keeps w w'" for d p w using file_read_path_at_keeps by metis
  then show thesis
  proof (rule with_base_cases [where path = path and w = w])
    fix d w1 r w2
    assume a: "with_base_fd os path (\<lambda>d p. gg_file_read_path_at os d p n) w = Some (r, cleanup_close os d w2)"
      "owns (fds w) d w1" "interrupts w1 \<le> interrupts w" "keeps w1 w2"
    have "owns (fds w) d w2" using a(2,4) by (simp add: owns_def keeps_def)
    then show thesis using that a(1,3,4) cleanup_owned by (fastforce simp: gg_file_read_path_def keeps_def)
  qed (use that in \<open>simp add: gg_file_read_path_def\<close>)
qed

end

section \<open>Streams\<close>

locale stream_fd = posix os fds interrupts for os :: "'w os" and fds interrupts +
  fixes fd :: int and incoming outgoing :: "'w \<Rightarrow> byte list"
  assumes stream_read: "sys_read os fd n w = (bytes, w') \<Longrightarrow> 0 < n \<Longrightarrow>
      (case bytes of
         Inr bs \<Rightarrow> length bs \<le> n \<and> incoming w = bs @ incoming w' \<and> (bs = [] \<longrightarrow> incoming w = [])
       | Inl e \<Rightarrow> e = EINTR \<and> incoming w' = incoming w)"
    and stream_write: "sys_write os fd bs w = (sz, w') \<Longrightarrow>
      (case sz of Inr n \<Rightarrow> n \<le> length bs \<and> outgoing w' = outgoing w @ take n bs | Inl _ \<Rightarrow> outgoing w' = outgoing w)"
begin

lemma file_read_stream:
  obtains w' where "gg_file_read os fd n w = Some (Inr (take n (incoming w)), w')" "incoming w' = drop n (incoming w)"
proof -
  let ?Q = "\<lambda>got w r w'. r = Inr (got @ take (n - length got) (incoming w)) \<and> incoming w' = drop (n - length got) (incoming w)"
  have "\<exists>r w'. read_loop os fd n [] w = Some (r, w') \<and> ?Q [] w r w'"
    by (rule read_loop_total) (fastforce dest!: stream_read)+
  then show thesis using that by (auto simp: gg_file_read_def)
qed

lemma file_write_stream:
  obtains e k w' where "gg_file_write os fd bs w = Some (e, w')" "outgoing w' = outgoing w @ take k bs"
    "e = GG_ERR_OK \<Longrightarrow> outgoing w' = outgoing w @ bs" "e \<in> {GG_ERR_OK, GG_ERR_NOCONN, GG_ERR_FAILURE}"
proof -
  let ?Q = "\<lambda>bs w e w'. \<exists>k. outgoing w' = outgoing w @ take k bs \<and> (e = GG_ERR_OK \<longrightarrow> outgoing w' = outgoing w @ bs) \<and>
    e \<in> {GG_ERR_OK, GG_ERR_NOCONN, GG_ERR_FAILURE}"
  have "\<exists>e w'. gg_file_write os fd bs w = Some (e, w') \<and> ?Q bs w e w'"
  proof (rule write_total)
    fix bs w w1 n r w2
    assume "sys_write os fd bs w = (Inr n, w1)" and q: "?Q (drop n bs) w1 r w2"
    then have o: "n \<le> length bs" "outgoing w1 = outgoing w @ take n bs" using stream_write by fastforce+
    from q obtain k where k: "outgoing w2 = outgoing w1 @ take k (drop n bs)"
      "r = GG_ERR_OK \<longrightarrow> outgoing w2 = outgoing w1 @ drop n bs" "r \<in> {GG_ERR_OK, GG_ERR_NOCONN, GG_ERR_FAILURE}" by blast
    show "?Q bs w r w2" using k o by (intro exI [of _ "n + k"]) (simp add: take_add)
  qed (force dest!: stream_write)+
  then show thesis using that by metis
qed

lemma socket_reader_stream:
  obtains w' where "gg_reader_call (gg_socket_reader os fd) w n = (Inr (take n (incoming w)), w')" "incoming w' = drop n (incoming w)"
  using file_read_stream [of n w] that by (metis (no_types, lifting) gg_reader_call.simps(2) gg_socket_reader_def option.simps(5))

end

section \<open>An in-memory system\<close>

text \<open>
  Directories by their absolute paths, one byte stream in each direction, and descriptors for
  directories; a number of calls that will be interrupted, and the largest piece a read or
  write transfers at a time, and a clock.
\<close>

record memsys =
  m_fds :: "(int \<times> byte list list) list"
  m_dirs :: "byte list list list"
  m_in :: "byte list"
  m_out :: "byte list"
  m_eintr :: nat
  m_piece :: nat
  m_clock :: int  \<comment> \<open>nanoseconds\<close>

definition fresh_fd :: "memsys \<Rightarrow> int" where
  "fresh_fd w = fold max (map fst (m_fds w)) 0 + 1"

definition m_open_dir :: "byte list list \<Rightarrow> memsys \<Rightarrow> int sys \<times> memsys" where
  "m_open_dir p w =
     (if p \<in> set (m_dirs w) then (Inr (fresh_fd w), w\<lparr>m_fds := (fresh_fd w, p) # m_fds w\<rparr>) else (Inl ENOENT, w))"

definition m_interruptible :: "(memsys \<Rightarrow> 'a sys \<times> memsys) \<Rightarrow> memsys \<Rightarrow> 'a sys \<times> memsys" where
  "m_interruptible call w = (if m_eintr w > 0 then (Inl EINTR, w\<lparr>m_eintr := m_eintr w - 1\<rparr>) else call w)"

definition memory_os :: "memsys os" where
  "memory_os =
     \<lparr>sys_open = (\<lambda>p _. m_open_dir []),
      sys_openat = (\<lambda>d p _ _. m_interruptible (\<lambda>w.
        case map_of (m_fds w) d of
          None \<Rightarrow> (Inl (OTHER 9), w)
        | Some q \<Rightarrow> m_open_dir (if p = bytes_of ''.'' then q else q @ [p]) w)),
      sys_mkdirat = (\<lambda>d p _. m_interruptible (\<lambda>w.
        case map_of (m_fds w) d of
          None \<Rightarrow> (Inl (OTHER 9), w)
        | Some q \<Rightarrow> if p = [] then (Inl ENOENT, w) else (Inr (), w\<lparr>m_dirs := (q @ [p]) # m_dirs w\<rparr>))),
      sys_close = (\<lambda>fd w. (Inr (), w\<lparr>m_fds := filter (\<lambda>x. fst x \<noteq> fd) (m_fds w)\<rparr>)),
      sys_fsync = (\<lambda>_. m_interruptible (\<lambda>w. (Inr (), w))),
      sys_fstat_size = (\<lambda>_ w. (Inr (length (m_in w)), w)),
      sys_read = (\<lambda>_ n. m_interruptible (\<lambda>w.
        let k = min n (Suc (m_piece w)) in (Inr (take k (m_in w)), w\<lparr>m_in := drop k (m_in w)\<rparr>))),
      sys_write = (\<lambda>_ bs. m_interruptible (\<lambda>w.
        let k = min (length bs) (Suc (m_piece w)) in (Inr k, w\<lparr>m_out := m_out w @ take k bs\<rparr>))),
      sys_socket = (\<lambda>w. (Inr (fresh_fd w), w\<lparr>m_fds := (fresh_fd w, []) # m_fds w\<rparr>)),
      sys_connect = (\<lambda>_ _ w. (Inr (), w)),
      sys_set_timeout = (\<lambda>_ _ w. (Inr (), w))\<rparr>"

abbreviation mem_fds :: "memsys \<Rightarrow> int set" where
  "mem_fds w \<equiv> fst ` set (m_fds w)"

lemma fold_max_ge: "(x :: int) \<le> fold max xs x \<and> (\<forall>y \<in> set xs. y \<le> fold max xs x)"
proof (induction xs arbitrary: x)
  case (Cons a xs)
  from Cons [of "max a x"] show ?case by auto
qed simp

lemma fresh_fd: "0 \<le> fresh_fd w" "fresh_fd w \<notin> mem_fds w"
  using fold_max_ge [of 0 "map fst (m_fds w)"] by (force simp: fresh_fd_def)+

interpretation memory: stream_fd memory_os mem_fds m_eintr fd m_in m_out for fd
proof
  fix w w' :: memsys and bytes fd n assume "sys_read memory_os fd n w = (bytes, w')" "0 < n"
  then show "case bytes of Inr bs \<Rightarrow> length bs \<le> n \<and> m_in w = bs @ m_in w' \<and> (bs = [] \<longrightarrow> m_in w = [])
    | Inl e \<Rightarrow> e = EINTR \<and> m_in w' = m_in w"
    by (auto simp: memory_os_def m_interruptible_def Let_def split: if_splits)
next
  fix w w' :: memsys and sz fd bs assume "sys_write memory_os fd bs w = (sz, w')"
  then show "case sz of Inr n \<Rightarrow> n \<le> length bs \<and> m_out w' = m_out w @ take n bs | Inl _ \<Rightarrow> m_out w' = m_out w"
    by (auto simp: memory_os_def m_interruptible_def Let_def split: if_splits)
qed (auto simp: memory_os_def m_interruptible_def m_open_dir_def Let_def fresh_fd min_def split: if_splits option.splits)

section \<open>Properties\<close>

definition balanced :: "('w \<Rightarrow> int set) \<Rightarrow> 'w \<Rightarrow> ('e + int) \<Rightarrow> 'w \<Rightarrow> bool" where
  \<comment> \<open>the open descriptors before and after a call that gives one\<close>
  "balanced fds w r w' \<longleftrightarrow> (case r of Inr fd \<Rightarrow> fd \<notin> fds w \<and> fds w' = insert fd (fds w) | Inl _ \<Rightarrow> fds w' = fds w)"

text \<open>
  C21: \<open>gg_dir_openat\<close> resolves a path by its components: leading, trailing and repeated slashes
  make no difference, and the directories are opened one below the other in the order of the path,
  each descriptor being closed once the next one is open.
\<close>
theorem gg_dir_openat_components:
  "gg_dir_openat os dirfd path flags create w =
     (case copy_dir_fd os dirfd O_PATH w of
        None \<Rightarrow> None
      | Some (Inl ret, w) \<Rightarrow> Some (Inl ret, w)
      | Some (Inr cur_fd, w) \<Rightarrow> open_dirs os cur_fd (dir_names (mem path)) flags create w)"
  by (rule dir_openat_walk)

text \<open>
  C20: No descriptor leaks and no function hangs, as long as signals interrupt finitely many
  calls: opening a directory, a file or a socket returns, and afterwards exactly the descriptors
  open before and the returned one are open, on every error path as well; reading a whole
  file leaves the set of open descriptors as it was.
\<close>
theorem descriptors_balanced:
  assumes "posix os fds interrupts"
  shows "(\<exists>r w'. gg_dir_open os path flags create w = Some (r, w') \<and> balanced fds w r w') \<and>
    (\<exists>r w'. gg_file_open os path flags mode w = Some (r, w') \<and> balanced fds w r w') \<and>
    (\<exists>r w'. gg_file_read_path os path n w = Some (r, w') \<and> fds w' = fds w) \<and>
    balanced fds w (fst (gg_connect os path w)) (snd (gg_connect os path w))"
proof (intro conjI)
  note b = balanced_def posix.yields_def [OF assms] posix.owns_def [OF assms]
  obtain r w' where "gg_dir_open os path flags create w = Some (r, w')" "posix.yields fds interrupts (fds w) (interrupts w) r w'"
    by (rule posix.dir_open_opens [OF assms])
  then show "\<exists>r w'. gg_dir_open os path flags create w = Some (r, w') \<and> balanced fds w r w'" by (auto simp: b split: sum.splits)
  obtain r w' where "gg_file_open os path flags mode w = Some (r, w')" "posix.yields fds interrupts (fds w) (interrupts w) r w'"
    by (rule posix.file_open_opens [OF assms])
  then show "\<exists>r w'. gg_file_open os path flags mode w = Some (r, w') \<and> balanced fds w r w'" by (auto simp: b split: sum.splits)
  obtain r w' where "gg_file_read_path os path n w = Some (r, w')" "posix.keeps fds interrupts w w'"
    by (rule posix.file_read_path_keeps [OF assms])
  then show "\<exists>r w'. gg_file_read_path os path n w = Some (r, w') \<and> fds w' = fds w" by (auto simp: posix.keeps_def [OF assms])
  show "balanced fds w (fst (gg_connect os path w)) (snd (gg_connect os path w))"
    using posix.connect_opens [OF assms, of w path] by (auto simp: b split: sum.splits)
qed

text \<open>
  C22: Reading and writing through a descriptor does not depend on how the system splits the data or
  how often it is interrupted: a read gives the next bytes of the stream, as many as asked for
  unless the stream ends, and a write that succeeds has written all bytes in order. A write that
  fails has written a beginning of the bytes.
\<close>
theorem gg_file_read_write_stream:
  assumes "stream_fd os fds interrupts fd incoming outgoing"
  shows "(\<exists>w'. gg_file_read os fd n w = Some (Inr (take n (incoming w)), w') \<and> incoming w' = drop n (incoming w)) \<and>
    (\<exists>e k w'. gg_file_write os fd bs w = Some (e, w') \<and> outgoing w' = outgoing w @ take k bs \<and>
       (e = GG_ERR_OK \<longrightarrow> outgoing w' = outgoing w @ bs) \<and> e \<in> {GG_ERR_OK, GG_ERR_NOCONN, GG_ERR_FAILURE})"
  using stream_fd.file_read_stream [OF assms, of n w] stream_fd.file_write_stream [OF assms, of bs w] by metis

section \<open>Concrete instances\<close>

definition memory_start :: memsys where
  "memory_start = \<lparr>m_fds = [(0, [])], m_dirs = [[]], m_in = [1, 2, 3, 4, 5], m_out = [], m_eintr = 2, m_piece = 1, m_clock = 0\<rparr>"

theorem descriptors_balanced_witness:
  "\<exists>r w'. gg_dir_open memory_os (GG_STR ''/a//b/'') O_RDONLY True memory_start = Some (r, w') \<and> balanced mem_fds memory_start r w'"
  using descriptors_balanced [OF memory.posix_axioms, of "GG_STR ''/a//b/''" O_RDONLY True memory_start 0 0] by blast

theorem gg_file_read_write_stream_witness:
  "(\<exists>w'. gg_file_read memory_os 0 4 memory_start = Some (Inr [1, 2, 3, 4], w') \<and> m_in w' = [5]) \<and>
   (\<exists>e w'. gg_file_write memory_os 0 [7, 8, 9] memory_start = Some (e, w') \<and> (e = GG_ERR_OK \<longrightarrow> m_out w' = [7, 8, 9]))"
  using gg_file_read_write_stream [OF memory.stream_fd_axioms, of 0 4 memory_start "[7, 8, 9]"]
  by (auto simp: memory_start_def)

end
