(* ===== verification/Crc32.thy ===== *)
theory Crc32
  imports Buffer
begin

text \<open>
  The CRC of EventStream packets (\<open>src/crc32.c\<close>, \<open>src/crc32.h\<close>).

  The model is the portable variant of the code: a table computed by \<open>make_crc_table\<close>, one
  table step per byte, and the running CRC kept in complemented form. The reference is the
  bitwise CRC with the reversed polynomial.

  Lemmas: a table step is eight bitwise steps; the running CRC of a concatenation is that of
  the parts in sequence; a CRC step is injective in the register and in the byte, so an
  error inside a single byte is always detected.
\<close>

section \<open>The code\<close>

definition crc_bit :: "u32 \<Rightarrow> u32" where
  \<comment> \<open>the body of the inner loop of \<open>make_crc_table\<close>\<close>
  "crc_bit c = (if c AND 1 \<noteq> 0 then 0xEDB88320 XOR drop_bit 1 c else drop_bit 1 c)"

definition make_crc_table :: "u32 list" where
  "make_crc_table = map (\<lambda>n. (crc_bit ^^ 8) (of_nat n)) [0..<256]"

definition crc_step :: "u32 \<Rightarrow> byte \<Rightarrow> u32" where
  "crc_step crc b = (make_crc_table ! unat ((crc XOR ucast b) AND 0xFF)) XOR drop_bit 8 crc"

definition gg_update_crc :: "u32 \<Rightarrow> GgBuffer \<Rightarrow> u32" where
  "gg_update_crc crc buf = NOT (foldl crc_step (NOT crc) (mem buf))"

section \<open>Bitwise reference\<close>

definition crc_byte :: "u32 \<Rightarrow> byte \<Rightarrow> u32" where
  "crc_byte crc b = (crc_bit ^^ 8) (crc XOR ucast b)"

lemma and_1_ne_0: "(c :: u32) AND 1 \<noteq> 0 \<longleftrightarrow> bit c 0"
  by (simp add: and_one_eq odd_iff_mod_2_eq_one [symmetric] bit_0)

lemma crc_bit_xor: "crc_bit (a XOR b) = crc_bit a XOR crc_bit b"
  by (auto simp: crc_bit_def and_1_ne_0 bit_xor_iff drop_bit_xor xor.assoc xor.left_commute xor.commute)

lemma crc_bits_xor: "(crc_bit ^^ n) (a XOR b) = (crc_bit ^^ n) a XOR (crc_bit ^^ n) b"
  by (induction n) (simp_all add: crc_bit_xor)

lemma crc_bits_high: "take_bit n c = 0 \<Longrightarrow> (crc_bit ^^ n) c = drop_bit n (c :: u32)"
proof (induction n arbitrary: c)
  case (Suc n)
  have odd: "\<not> bit c 0" using Suc.prems
    by (metis bit_take_bit_iff bit_0_eq bot_apply bot_bool_def zero_less_Suc)
  have low: "take_bit n (drop_bit 1 c) = 0"
    using Suc.prems by (simp add: take_bit_drop_bit)
  have "(crc_bit ^^ Suc n) c = (crc_bit ^^ n) (crc_bit c)" by (simp add: funpow_swap1)
  also have "crc_bit c = drop_bit 1 c" using odd by (simp add: crc_bit_def and_1_ne_0)
  also have "(crc_bit ^^ n) (drop_bit 1 c) = drop_bit n (drop_bit 1 c)" by (rule Suc.IH [OF low])
  finally show ?case by simp
qed simp

lemma crc_step_byte: "crc_step crc b = crc_byte crc b"
proof -
  let ?x = "crc XOR ucast b :: u32"
  let ?lo = "take_bit 8 ?x" and ?hi = "?x XOR take_bit 8 ?x"
  have lo: "?x AND 0xFF = ?lo" by (simp add: take_bit_eq_mask mask_eq_exp_minus_1)
  have "unat ?lo < 256"
    using take_bit_nat_less_exp [of 8 "unat ?x"]
    by (simp add: unsigned_take_bit_eq del: take_bit_xor)
  then have tab: "make_crc_table ! unat ?lo = (crc_bit ^^ 8) ?lo"
    by (simp add: make_crc_table_def)
  have hi: "take_bit 8 ?hi = 0" by (simp add: take_bit_xor)
  have "drop_bit 8 ?hi = drop_bit 8 crc"
    by (rule bit_eqI) (auto simp: bit_simps dest: bit_imp_le_length)
  then have "(crc_bit ^^ 8) ?hi = drop_bit 8 crc" using crc_bits_high [OF hi] by simp
  moreover have "?x = ?lo XOR ?hi" by (simp add: xor.left_commute)
  ultimately have "(crc_bit ^^ 8) ?x = (crc_bit ^^ 8) ?lo XOR drop_bit 8 crc"
    by (metis crc_bits_xor)
  then show ?thesis by (simp only: crc_step_def crc_byte_def lo tab)
qed

section \<open>Injectivity\<close>

lemma xor_left_cancel: "(m :: u32) XOR a = m XOR b \<longleftrightarrow> a = b"
proof
  assume "m XOR a = m XOR b"
  then have "m XOR (m XOR a) = m XOR (m XOR b)" by (rule arg_cong)
  then show "a = b" by (simp add: xor.assoc [symmetric])
qed simp

lemma xor_right_cancel: "(a :: u32) XOR m = b XOR m \<longleftrightarrow> a = b"
  by (simp add: xor.commute [of _ m] xor_left_cancel)

lemma crc_bit_inj: "crc_bit a = crc_bit b \<Longrightarrow> a = b"
proof -
  assume eq: "crc_bit a = crc_bit b"
  have top: "bit (crc_bit c) 31 \<longleftrightarrow> bit c 0" for c
    using bit_imp_le_length [of c 32] by (auto simp: crc_bit_def and_1_ne_0 bit_simps)
  have low: "bit a 0 \<longleftrightarrow> bit b 0" using eq top by metis
  have "drop_bit 1 a = drop_bit 1 b"
    using eq low by (auto simp: crc_bit_def and_1_ne_0 xor_left_cancel split: if_splits)
  then have "bit a n = bit b n" for n
    using low by (cases n) (auto simp: bit_drop_bit_eq dest: arg_cong [where f = "\<lambda>w. bit w (n - 1)"])
  then show "a = b" by (simp add: bit_eq_iff)
qed

lemma crc_bits_inj: "(crc_bit ^^ n) a = (crc_bit ^^ n) b \<Longrightarrow> a = b"
  by (induction n) (auto dest: crc_bit_inj)

lemma crc_step_inj_crc: "crc_step a x = crc_step b x \<Longrightarrow> a = b"
proof -
  assume "crc_step a x = crc_step b x"
  then have "a XOR ucast x = b XOR ucast x"
    unfolding crc_step_byte crc_byte_def by (rule crc_bits_inj)
  then show "a = b" by (simp only: xor_right_cancel)
qed

lemma crc_step_inj_byte: "crc_step a x = crc_step a y \<Longrightarrow> x = y"
proof -
  assume "crc_step a x = crc_step a y"
  then have "a XOR ucast x = a XOR ucast y"
    unfolding crc_step_byte crc_byte_def by (rule crc_bits_inj)
  then have "(ucast x :: u32) = ucast y"
    by (simp only: xor_left_cancel)
  then have "unat (ucast x :: u32) = unat (ucast y :: u32)" by simp
  then have "unat x = unat y"
    using unat_bound [of x] unat_bound [of y] by (simp add: unsigned_ucast_eq take_bit_eq_mod)
  then show "x = y" by (simp add: unat_eq)
qed

lemma foldl_crc_inj: "foldl crc_step a xs = foldl crc_step b xs \<Longrightarrow> a = b"
  by (induction xs arbitrary: a b) (auto dest: crc_step_inj_crc)

section \<open>Properties\<close>

lemma gg_update_crc_append:
  "gg_update_crc crc \<lparr>data = p, mem = xs @ ys\<rparr> =
   gg_update_crc (gg_update_crc crc \<lparr>data = q, mem = xs\<rparr>) \<lparr>data = r, mem = ys\<rparr>"
  by (simp add: gg_update_crc_def)

lemma gg_update_crc_cong: "mem a = mem b \<Longrightarrow> gg_update_crc crc a = gg_update_crc crc b"
  by (simp add: gg_update_crc_def)

text \<open>
  C31: the table-driven CRC is the bitwise CRC with the reversed polynomial \<open>0xEDB88320\<close>: register
  complemented on entry and exit, and eight shift steps per byte.
\<close>

theorem gg_update_crc_bitwise:
  "gg_update_crc crc buf =
     NOT (foldl (\<lambda>c b. (crc_bit ^^ 8) (c XOR ucast b)) (NOT crc) (mem buf))"
proof -
  have "crc_step = (\<lambda>c b. (crc_bit ^^ 8) (c XOR ucast b))"
    by (simp add: fun_eq_iff crc_step_byte crc_byte_def)
  then show ?thesis by (simp add: gg_update_crc_def)
qed

text \<open>
  the CRC detects every corruption of a single byte: two inputs that differ in exactly one
  byte have different CRCs.
\<close>

theorem gg_update_crc_detects_byte_error:
  assumes "x \<noteq> y"
  shows "gg_update_crc crc \<lparr>data = p, mem = pre @ [x] @ post\<rparr> \<noteq>
         gg_update_crc crc \<lparr>data = q, mem = pre @ [y] @ post\<rparr>"
proof
  assume "gg_update_crc crc \<lparr>data = p, mem = pre @ [x] @ post\<rparr> =
          gg_update_crc crc \<lparr>data = q, mem = pre @ [y] @ post\<rparr>"
  then have "foldl crc_step (crc_step (foldl crc_step (NOT crc) pre) x) post =
             foldl crc_step (crc_step (foldl crc_step (NOT crc) pre) y) post"
    by (simp add: gg_update_crc_def)
  then show False using assms foldl_crc_inj crc_step_inj_byte by blast
qed

theorem gg_update_crc_detects_byte_error_witness:
  "gg_update_crc 0 \<lparr>data = 0, mem = [1, 2, 3]\<rparr> \<noteq> gg_update_crc 0 \<lparr>data = 0, mem = [1, 7, 3]\<rparr>"
  using gg_update_crc_detects_byte_error [of 2 7 0 0 "[1]" "[3]" 0] by simp

end
