(* ===== verification/EventStream.thy ===== *)
theory EventStream
  imports Crc32
begin

text \<open>
  AWS EventStream packets (\<open>src/eventstream/encode.c\<close>, \<open>decode.c\<close>, \<open>rpc.c\<close> and their headers
  in \<open>priv_include/gg/eventstream\<close>).

  Lengths and CRCs in packets are 32-bit words in big-endian order. The encoder writes
  through a buffer writer into a block of memory. The decoder keeps pointers into the data
  section; an iterator over headers is its count and the memory from its position to the end
  of the data section, and reading a byte outside that memory gives \<open>None\<close>, so a theorem that
  a function returns \<open>Some\<close> includes that it reads no byte out of bounds.

  Lemmas: the encoder produces the packet of its arguments or reports why not; the decoder
  inverts the encoder; on any input, however corrupt, decoding and then iterating over the
  headers stays inside the data section.
\<close>

section \<open>Types\<close>

datatype EventStreamHeaderValue =
    EVENTSTREAM_INT32 u32
  | EVENTSTREAM_STRING GgBuffer

record EventStreamHeader =
  hdr_name :: GgBuffer
  hdr_value :: EventStreamHeaderValue

record EventStreamHeaderIter =
  iter_count :: u32
  iter_rest :: GgBuffer  \<comment> \<open>the memory from \<open>pos\<close> on\<close>

record EventStreamPrelude =
  pre_data_len :: u32
  pre_headers_len :: u32
  pre_crc :: u32

record EventStreamMessage =
  msg_headers :: EventStreamHeaderIter
  msg_payload :: GgBuffer

record EventStreamCommonHeaders =
  ch_stream_id :: u32
  ch_message_type :: u32
  ch_message_flags :: u32

section \<open>Encoding\<close>

definition write_be_u32 :: "u32 \<Rightarrow> byte list" where
  \<comment> \<open>the four bytes written to \<open>dest\<close>\<close>
  "write_be_u32 v =
     [ucast (drop_bit 24 v), ucast (drop_bit 16 v AND 0xFF), ucast (drop_bit 8 v AND 0xFF), ucast (v AND 0xFF)]"

definition header_value_type :: "EventStreamHeaderValue \<Rightarrow> byte" where
  "header_value_type v = (case v of EVENTSTREAM_INT32 _ \<Rightarrow> 4 | EVENTSTREAM_STRING _ \<Rightarrow> 7)"

definition header_value_encode :: "'s GgWriter \<Rightarrow> 's \<Rightarrow> EventStreamHeaderValue \<Rightarrow> GgError \<times> 's" where
  \<comment> \<open>the switch of \<open>header_encode\<close>\<close>
  "header_value_encode out s v =
     (case v of
        EVENTSTREAM_INT32 w \<Rightarrow> write_then out s (write_be_u32 w) (\<lambda>s. (GG_ERR_OK, s))
      | EVENTSTREAM_STRING str \<Rightarrow>
          if len str > 65535 then (GG_ERR_RANGE, s)
          else
            (let str_len = (of_nat (len str) :: u16)
             in write_then out s [ucast (drop_bit 8 str_len), ucast (str_len AND 0xFF)] (\<lambda>s.
                write_then out s (mem str) (\<lambda>s. (GG_ERR_OK, s)))))"

definition header_encode :: "'s GgWriter \<Rightarrow> 's \<Rightarrow> EventStreamHeader \<Rightarrow> GgError \<times> 's" where
  "header_encode out s header =
     (if len (hdr_name header) > 255 then (GG_ERR_RANGE, s)
      else
        write_then out s [of_nat (len (hdr_name header))] (\<lambda>s.
        write_then out s (mem (hdr_name header)) (\<lambda>s.
        write_then out s [header_value_type (hdr_value header)] (\<lambda>s.
        header_value_encode out s (hdr_value header)))))"

fun headers_encode :: "'s GgWriter \<Rightarrow> 's \<Rightarrow> EventStreamHeader list \<Rightarrow> GgError \<times> 's" where
  "headers_encode out s [] = (GG_ERR_OK, s)"
| "headers_encode out s (h # hs) =
     (case header_encode out s h of
        (err, s') \<Rightarrow> if err \<noteq> GG_ERR_OK then (err, s') else headers_encode out s' hs)"

definition mem_crc :: "u32 \<Rightarrow> byte list \<Rightarrow> u32" where
  \<comment> \<open>\<open>gg_update_crc\<close> on the bytes of a block\<close>
  "mem_crc c bs = gg_update_crc c \<lparr>data = 0, mem = bs\<rparr>"

definition eventstream_encode ::
  "byte list \<Rightarrow> EventStreamHeader list \<Rightarrow> 's GgReader \<Rightarrow> 's \<Rightarrow> GgError \<times> byte list \<times> nat \<times> 's" where
  \<comment> \<open>the memory of the buffer; returns its memory and the value of \<open>buf->len\<close> afterwards\<close>
  "eventstream_encode memory hdrs reader s =
     (let n = (if length memory > UINT32_MAX then UINT32_MAX else length memory)
      in if n < 12 then (GG_ERR_NOMEM, memory, n, s)
      else
     (let block0 = take n memory; beyond = drop n memory
      in case headers_encode gg_buf_writer \<lparr>block = block0, pos = 12\<rparr> hdrs of (err, cur) \<Rightarrow>
      if err \<noteq> GG_ERR_OK then (err, block cur @ beyond, n, s)
      else
     (let hlen = (of_nat (pos cur - 12) :: u32);
          block1 = mem_write (block cur) 4 (write_be_u32 hlen)
      in case gg_reader_call reader s (length block1 - pos cur) of
        (Inl e, s') \<Rightarrow> (e, block1 @ beyond, n, s')
      | (Inr pl, s') \<Rightarrow>
     (let block2 = mem_write block1 (pos cur) pl;
          pos2 = pos cur + length pl;
          message_len = 12 + hlen + of_nat (length pl) + 4;
          block3 = mem_write block2 0 (write_be_u32 message_len);
          prelude_crc = mem_crc 0 (take 8 block3);
          block4 = mem_write block3 8 (write_be_u32 prelude_crc);
          message_crc = mem_crc prelude_crc (take (unat (message_len - 8 - 4)) (drop 8 block4))
      in if length block4 - pos2 < 4 then (GG_ERR_NOMEM, block4 @ beyond, n, s')
         else (GG_ERR_OK, mem_write block4 pos2 (write_be_u32 message_crc) @ beyond, unat message_len, s')))))"

section \<open>Decoding\<close>

definition read_be_uint32 :: "byte list \<Rightarrow> u32" where
  "read_be_uint32 bs =
     push_bit 24 (ucast (bs ! 0)) OR push_bit 16 (ucast (bs ! 1)) OR push_bit 8 (ucast (bs ! 2)) OR ucast (bs ! 3)"

definition eventstream_decode_prelude :: "GgBuffer \<Rightarrow> EventStreamPrelude res" where
  "eventstream_decode_prelude buf =
     (if len buf < 12 then Inl GG_ERR_RANGE
      else
     (let c = gg_update_crc 0 (gg_buffer_substr buf 0 8);
          prelude_crc = read_be_uint32 (mem (gg_buffer_substr buf 8 12))
      in if c \<noteq> prelude_crc then Inl GG_ERR_PARSE
      else
     (let message_len = read_be_uint32 (mem (gg_buffer_substr buf 0 4));
          hlen = read_be_uint32 (mem (gg_buffer_substr buf 4 8))
      in if message_len < 16 then Inl GG_ERR_PARSE
         else if hlen > message_len - 16 then Inl GG_ERR_PARSE
         else Inr \<lparr>pre_data_len = message_len - 12, pre_headers_len = hlen,
                   pre_crc = gg_update_crc prelude_crc (gg_buffer_substr buf 8 12)\<rparr>)))"

definition take_header :: "GgBuffer \<Rightarrow> GgBuffer res" where
  \<comment> \<open>the rest of the buffer after the next header\<close>
  "take_header hb =
     (let pos0 = 0 in
      if len hb - pos0 < 1 then Inl GG_ERR_PARSE
      else
     (let header_name_len = unat (mem hb ! pos0); pos1 = pos0 + 1 in
      if len hb - pos1 < header_name_len then Inl GG_ERR_PARSE
      else
     (let pos2 = pos1 + header_name_len in
      if len hb - pos2 < 1 then Inl GG_ERR_PARSE
      else
     (let header_value_type = mem hb ! pos2; pos3 = pos2 + 1 in
      if header_value_type = 4
      then (if len hb - pos3 < 4 then Inl GG_ERR_PARSE
            else Inr (gg_buffer_rest hb (pos3 + 4)))
      else if header_value_type = 7
      then (if len hb - pos3 < 2 then Inl GG_ERR_PARSE
            else (let value_len = unat (mem hb ! pos3) * 256 + unat (mem hb ! (pos3 + 1)); pos4 = pos3 + 2 in
                  if len hb - pos4 < value_len then Inl GG_ERR_PARSE
                  else Inr (gg_buffer_rest hb (pos4 + value_len))))
      else Inl GG_ERR_PARSE))))"

lemma take_header_shorter: "take_header hb = Inr hb' \<Longrightarrow> len hb' < len hb"
  by (auto simp: take_header_def Let_def split: if_splits)

function count_headers_loop :: "u32 \<Rightarrow> GgBuffer \<Rightarrow> u32 res" where
  "count_headers_loop n hb =
     (if len hb > 0
      then (case take_header hb of Inl e \<Rightarrow> Inl e | Inr hb' \<Rightarrow> count_headers_loop (n + 1) hb')
      else Inr n)"
  by pat_completeness auto
termination
  by (relation "measure (len \<circ> snd)") (auto dest: take_header_shorter)

definition count_headers :: "GgBuffer \<Rightarrow> u32 res" where
  "count_headers headers_buf = count_headers_loop 0 headers_buf"

definition byte_at :: "GgBuffer \<Rightarrow> nat \<Rightarrow> byte option" where
  "byte_at b i = (if i < len b then Some (mem b ! i) else None)"

definition bytes_at :: "GgBuffer \<Rightarrow> nat \<Rightarrow> nat \<Rightarrow> GgBuffer option" where
  \<comment> \<open>a buffer of \<open>n\<close> bytes at offset \<open>i\<close>\<close>
  "bytes_at b i n = (if i + n \<le> len b then Some \<lparr>data = data b + i, mem = take n (drop i (mem b))\<rparr> else None)"

definition eventstream_header_next ::
  "EventStreamHeaderIter \<Rightarrow> (EventStreamHeader \<times> EventStreamHeaderIter) res option" where
  "eventstream_header_next it =
     (if iter_count it < 1 then Some (Inl GG_ERR_RANGE)
      else Option.bind (byte_at (iter_rest it) 0) (\<lambda>header_name_len.
           Option.bind (bytes_at (iter_rest it) 1 (unat header_name_len)) (\<lambda>header_name.
           let p = 1 + unat header_name_len in
           Option.bind (byte_at (iter_rest it) p) (\<lambda>header_value_type.
           if header_value_type = 4 then
             Option.bind (bytes_at (iter_rest it) (p + 1) 4) (\<lambda>v.
             Some (Inr (\<lparr>hdr_name = header_name, hdr_value = EVENTSTREAM_INT32 (read_be_uint32 (mem v))\<rparr>,
                        \<lparr>iter_count = iter_count it - 1, iter_rest = gg_buffer_rest (iter_rest it) (p + 1 + 4)\<rparr>)))
           else if header_value_type = 7 then
             Option.bind (byte_at (iter_rest it) (p + 1)) (\<lambda>hi.
             Option.bind (byte_at (iter_rest it) (p + 2)) (\<lambda>lo.
             let str_len = unat hi * 256 + unat lo in
             Option.bind (bytes_at (iter_rest it) (p + 3) str_len) (\<lambda>str.
             Some (Inr (\<lparr>hdr_name = header_name, hdr_value = EVENTSTREAM_STRING str\<rparr>,
                        \<lparr>iter_count = iter_count it - 1, iter_rest = gg_buffer_rest (iter_rest it) (p + 3 + str_len)\<rparr>)))))
           else Some (Inl GG_ERR_PARSE)))))"

definition eventstream_decode :: "EventStreamPrelude \<Rightarrow> GgBuffer \<Rightarrow> EventStreamMessage res" where
  \<comment> \<open>the loop that logs the headers has no effect on the result\<close>
  "eventstream_decode prelude data_section =
     (let c = gg_update_crc (pre_crc prelude) (gg_buffer_substr data_section 0 (len data_section - 4));
          message_crc = read_be_uint32 (mem (gg_buffer_substr data_section (len data_section - 4) (len data_section)))
      in if c \<noteq> message_crc then Inl GG_ERR_PARSE
      else
     (let headers_buf = gg_buffer_substr data_section 0 (unat (pre_headers_len prelude));
          pl = gg_buffer_substr data_section (unat (pre_headers_len prelude)) (len data_section - 4)
      in case count_headers headers_buf of
           Inl err \<Rightarrow> Inl err
         | Inr headers_count \<Rightarrow>
             Inr \<lparr>msg_headers = \<lparr>iter_count = headers_count, iter_rest = data_section\<rparr>, msg_payload = pl\<rparr>))"

section \<open>Packets from a reader\<close>

definition eventsteam_get_packet ::
  "'s GgReader \<Rightarrow> 's \<Rightarrow> GgBuffer \<Rightarrow> EventStreamMessage res \<times> 's" where
  \<comment> \<open>the message refers to the memory of \<open>buffer\<close>, overwritten with what was read\<close>
  "eventsteam_get_packet input s buffer =
     (let prelude_buf = gg_buffer_substr buffer 0 12
      in case gg_reader_call_exact input s (len prelude_buf) of
        (Inl e, s') \<Rightarrow> (Inl e, s')
      | (Inr bs, s') \<Rightarrow>
     (case eventstream_decode_prelude (prelude_buf\<lparr>mem := bs\<rparr>) of
        Inl e \<Rightarrow> (Inl e, s')
      | Inr prelude \<Rightarrow>
          if unat (pre_data_len prelude) > len buffer then (Inl GG_ERR_NOMEM, s')
          else
     (let data_section = gg_buffer_substr buffer 0 (unat (pre_data_len prelude))
      in case gg_reader_call_exact input s' (len data_section) of
           (Inl e, s'') \<Rightarrow> (Inl e, s'')
         | (Inr ds, s'') \<Rightarrow> (eventstream_decode prelude (data_section\<lparr>mem := ds\<rparr>), s''))))"

definition is_common :: "EventStreamHeader \<Rightarrow> string \<Rightarrow> bool" where
  "is_common h n = gg_buffer_eq (hdr_name h) (GG_STR n)"

function (sequential) get_common_headers_loop ::
  "EventStreamHeaderIter \<Rightarrow> EventStreamCommonHeaders \<Rightarrow> EventStreamCommonHeaders res option" where
  "get_common_headers_loop it out =
     (case eventstream_header_next it of
        None \<Rightarrow> None
      | Some (Inl _) \<Rightarrow> Some (Inr out)
      | Some (Inr (h, it')) \<Rightarrow>
          if is_common h '':message-type'' then
            (case hdr_value h of EVENTSTREAM_INT32 v \<Rightarrow> get_common_headers_loop it' (out\<lparr>ch_message_type := v\<rparr>)
             | _ \<Rightarrow> Some (Inl GG_ERR_INVALID))
          else if is_common h '':message-flags'' then
            (case hdr_value h of EVENTSTREAM_INT32 v \<Rightarrow> get_common_headers_loop it' (out\<lparr>ch_message_flags := v\<rparr>)
             | _ \<Rightarrow> Some (Inl GG_ERR_INVALID))
          else if is_common h '':stream-id'' then
            (case hdr_value h of EVENTSTREAM_INT32 v \<Rightarrow> get_common_headers_loop it' (out\<lparr>ch_stream_id := v\<rparr>)
             | _ \<Rightarrow> Some (Inl GG_ERR_INVALID))
          else get_common_headers_loop it' out)"
  by pat_completeness auto

lemma header_next_count:
  "eventstream_header_next it = Some (Inr (h, it')) \<Longrightarrow> iter_count it' = iter_count it - 1 \<and> iter_count it \<noteq> 0"
  by (auto simp: eventstream_header_next_def Let_def split: if_splits Option.bind_splits)

lemma unat_dec: "(c :: u32) \<noteq> 0 \<Longrightarrow> unat (c - 1) < unat c"
  by (metis diff_less unat_gt_0 unat_minus_one zero_less_one)

termination get_common_headers_loop
  by (relation "measure (\<lambda>(it, out). unat (iter_count it))")
     (auto dest!: header_next_count intro!: unat_dec)

definition eventstream_get_common_headers ::
  "EventStreamMessage \<Rightarrow> EventStreamCommonHeaders res option" where
  "eventstream_get_common_headers msg =
     get_common_headers_loop (msg_headers msg) \<lparr>ch_stream_id = 0, ch_message_type = 0, ch_message_flags = 0\<rparr>"

section \<open>Lemmas: big-endian words\<close>

lemma length_write_be_u32 [simp, gg_len]: "length (write_be_u32 v) = 4"
  by (simp add: write_be_u32_def)

lemma and_FF: "w AND 0xFF = take_bit 8 (w :: 'a::len word)"
  by (simp add: take_bit_eq_mask mask_eq_exp_minus_1)

lemma read_write_be_u32 [simp]: "read_be_uint32 (write_be_u32 v) = v"
proof (rule bit_word_eqI)
  fix n assume "n < LENGTH(32)"
  then consider "n < 8" | "8 \<le> n" "n < 16" | "16 \<le> n" "n < 24" | "24 \<le> n" "n < 32" by fastforce
  then show "bit (read_be_uint32 (write_be_u32 v)) n = bit v n"
    unfolding read_be_uint32_def write_be_u32_def and_FF
    by cases (auto simp: bit_simps)
qed

section \<open>Lemmas: packets\<close>

definition value_bytes :: "EventStreamHeaderValue \<Rightarrow> byte list" where
  "value_bytes v =
     (case v of
        EVENTSTREAM_INT32 w \<Rightarrow> write_be_u32 w
      | EVENTSTREAM_STRING str \<Rightarrow>
          [ucast (drop_bit 8 (of_nat (len str) :: u16)), ucast ((of_nat (len str) :: u16) AND 0xFF)] @ mem str)"

definition header_bytes :: "EventStreamHeader \<Rightarrow> byte list" where
  "header_bytes h =
     [of_nat (len (hdr_name h))] @ mem (hdr_name h) @ [header_value_type (hdr_value h)] @ value_bytes (hdr_value h)"

definition value_ok :: "EventStreamHeaderValue \<Rightarrow> bool" where
  "value_ok v = (case v of EVENTSTREAM_INT32 _ \<Rightarrow> True | EVENTSTREAM_STRING str \<Rightarrow> len str \<le> 65535)"

definition header_ok :: "EventStreamHeader \<Rightarrow> bool" where
  "header_ok h =
(len (hdr_name h) \<le> 255 \<and> value_ok (hdr_value h))"

definition packet_head :: "byte list \<Rightarrow> byte list \<Rightarrow> byte list" where
  "packet_head H P = write_be_u32 (of_nat (16 + length H + length P)) @ write_be_u32 (of_nat (length H))"

definition packet :: "byte list \<Rightarrow> byte list \<Rightarrow> byte list" where
  "packet H P =
     (let head = packet_head H P; pcrc = mem_crc 0 head; body = write_be_u32 pcrc @ H @ P
      in head @ body @ write_be_u32 (mem_crc pcrc body))"

lemma length_packet [simp, gg_len]: "length (packet H P) = 16 + length H + length P"
  by (simp add: packet_def packet_head_def Let_def)

section \<open>Lemmas: the encoder\<close>

definition put :: "buf_cursor \<Rightarrow> byte list \<Rightarrow> buf_cursor" where
  "put c bs = c\<lparr>block := mem_write (block c) (pos c) bs, pos := pos c + length bs\<rparr>"

lemma put_put: "pos c \<le> length (block c) \<Longrightarrow> put (put c xs) ys = put c (xs @ ys)"
  by (simp add: put_def mem_write_mem_write add.assoc)

lemma put_simps [simp]:
  "pos (put c bs) = pos c + length bs"
  "pos c + length bs \<le> length (block c) \<Longrightarrow> length (block (put c bs)) = length (block c)"
  by (simp_all add: put_def)

text \<open>The outcome of writing \<open>bs\<close>: everything written, or an error with a cursor over the same block.\<close>

definition wrote :: "buf_cursor \<Rightarrow> byte list \<Rightarrow> bool \<Rightarrow> GgError \<times> buf_cursor \<Rightarrow> bool" where
  "wrote c bs ok r =
     (if ok \<and> pos c + length bs \<le> length (block c) then r = (GG_ERR_OK, put c bs)
      else (fst r = GG_ERR_NOMEM \<or> fst r = GG_ERR_RANGE) \<and> length (block (snd r)) = length (block c))"

lemma wrote_then:
  assumes "pos c \<le> length (block c)"
    and "pos c + length xs \<le> length (block c) \<Longrightarrow> wrote (put c xs) ys ok (next (put c xs))"
  shows "wrote c (xs @ ys) ok (write_then gg_buf_writer c xs next)"
  using assms by (auto simp: write_then_def gg_buf_writer_def buf_write_eq wrote_def put_def [symmetric]
      put_put add.assoc)

lemma wrote_done: "pos c \<le> length (block c) \<Longrightarrow> wrote c [] True (GG_ERR_OK, c)"
  by (simp add: wrote_def put_def)

lemma wrote_range: "wrote c bs False (GG_ERR_RANGE, c)"
  by (simp add: wrote_def)

lemma wrote_last:
  "pos c \<le> length (block c) \<Longrightarrow> wrote c bs True (write_then gg_buf_writer c bs (\<lambda>s. (GG_ERR_OK, s)))"
  using wrote_then [of c bs "[]" True] wrote_done by simp

lemma header_value_encode_wrote:
  assumes "pos c \<le> length (block c)"
  shows "wrote c (value_bytes v) (value_ok v) (header_value_encode gg_buf_writer c v)"
proof (cases v)
  case (EVENTSTREAM_INT32 w)
  then show ?thesis using assms wrote_last
    by (simp add: value_bytes_def value_ok_def header_value_encode_def)
next
  case (EVENTSTREAM_STRING str)
  let ?l = "[ucast (drop_bit 8 (of_nat (len str) :: u16)), ucast ((of_nat (len str) :: u16) AND 0xFF)] :: byte list"
  show ?thesis
  proof (cases "len str \<le> 65535")
    case True
    have "wrote c (?l @ mem str) True
        (write_then gg_buf_writer c ?l (\<lambda>s. write_then gg_buf_writer s (mem str) (\<lambda>s. (GG_ERR_OK, s))))"
      using assms by (intro wrote_then wrote_last) simp_all
    with True EVENTSTREAM_STRING show ?thesis
      by (simp add: value_bytes_def value_ok_def header_value_encode_def Let_def)
  next
    case False
    with EVENTSTREAM_STRING show ?thesis
      using wrote_range by (simp add: value_ok_def header_value_encode_def)
  qed
qed

lemma header_encode_wrote:
  assumes "pos c \<le> length (block c)"
  shows "wrote c (header_bytes h) (header_ok h) (header_encode gg_buf_writer c h)"
proof (cases "len (hdr_name h) \<le> 255")
  case True
  then show ?thesis
    unfolding header_bytes_def header_ok_def header_encode_def using assms
    by (simp only: not_less [symmetric] if_False not_not simp_thms)
       (intro wrote_then header_value_encode_wrote; simp)
next
  case False
  then show ?thesis using wrote_range by (simp add: header_ok_def header_encode_def)
qed

lemma wrote_seq:
  assumes r: "wrote c xs ok r" and c: "pos c \<le> length (block c)"
    and n: "pos c + length xs \<le> length (block c) \<Longrightarrow> wrote (put c xs) ys ok2 (next (put c xs))"
  shows "wrote c (xs @ ys) (ok \<and> ok2)
    (case r of (err, s') \<Rightarrow> if err \<noteq> GG_ERR_OK then (err, s') else next s')"
  using assms by (cases r) (auto simp: wrote_def put_put add.assoc split: if_splits)

lemma headers_encode_wrote:
  "pos c \<le> length (block c) \<Longrightarrow>
   wrote c (concat (map header_bytes hs)) (list_all header_ok hs) (headers_encode gg_buf_writer c hs)"
proof (induction hs arbitrary: c)
  case Nil
  then show ?case using wrote_done by simp
next
  case (Cons h hs)
  then show ?case
    using wrote_seq [OF header_encode_wrote [OF Cons.prems] Cons.prems,
        of h "concat (map header_bytes hs)" "list_all header_ok hs" "\<lambda>s. headers_encode gg_buf_writer s hs"]
    by simp
qed

text \<open>The block of memory after the last write, given where the parts go.\<close>

lemma mem_crc_cong: "mem b = bs \<Longrightarrow> gg_update_crc c b = mem_crc c bs"
  by (simp add: mem_crc_def gg_update_crc_def)

lemma mem_crc_append: "mem_crc c (xs @ ys) = mem_crc (mem_crc c xs) ys"
  by (simp add: mem_crc_def gg_update_crc_def)

lemma mem_write_at:
  "length pre = off \<Longrightarrow> length old = length new \<Longrightarrow> mem_write (pre @ old @ post) off new = pre @ new @ post"
  by (simp add: mem_write_def)

lemma split_block:
  assumes "16 + h + p \<le> length (b :: byte list)"
  obtains a1 a2 a3 H P c z where "b = a1 @ a2 @ a3 @ H @ P @ c @ z"
    "length a1 = 4" "length a2 = 4" "length a3 = 4" "length H = h" "length P = p" "length c = 4"
proof -
  obtain a1 b1 where 1: "b = a1 @ b1" "length a1 = 4"
    using list_split_at [of 4 b] assms by auto
  obtain a2 b2 where 2: "b1 = a2 @ b2" "length a2 = 4"
    using list_split_at [of 4 b1] assms 1 by auto
  obtain a3 b3 where 3: "b2 = a3 @ b3" "length a3 = 4"
    using list_split_at [of 4 b2] assms 1 2 by auto
  obtain H b4 where 4: "b3 = H @ b4" "length H = h"
    using list_split_at [of h b3] assms 1 2 3 by auto
  obtain P b5 where 5: "b4 = P @ b5" "length P = p"
    using list_split_at [of p b4] assms 1 2 3 4 by auto
  obtain c z where "b5 = c @ z" "length c = 4"
    using list_split_at [of 4 b5] assms 1 2 3 4 5 by auto
  with that 1 2 3 4 5 show ?thesis by simp
qed

text \<open>Lengths within 32 bits.\<close>

lemma unat_len: "n \<le> UINT32_MAX \<Longrightarrow> unat (of_nat n :: u32) = n"
  by (simp add: unat_of_nat UINT32_MAX_def)

lemma eventstream_encode_fits:
  fixes memory hs reader s
  defines "H \<equiv> concat (map header_bytes hs)" and "n \<equiv> min (length memory) UINT32_MAX"
  assumes ok: "list_all header_ok hs"
    and rd: "gg_reader_call reader s (n - 12 - length H) = (Inr pl, s')"
    and fit: "16 + length H + length pl \<le> n"
  shows "\<exists>memory'. eventstream_encode memory hs reader s =
           (GG_ERR_OK, packet H pl @ memory', 16 + length H + length pl, s')"
proof -
  have n: "n = (if length memory > UINT32_MAX then UINT32_MAX else length memory)"
    by (simp add: n_def min_def)
  have lt: "length (take n memory) = n" by (simp add: n_def)
  obtain a1 a2 a3 H0 P0 c z where b: "take n memory = a1 @ a2 @ a3 @ H0 @ P0 @ c @ z"
    and l [simp]: "length a1 = 4" "length a2 = 4" "length a3 = 4" "length H0 = length H"
      "length P0 = length pl" "length c = 4"
    using split_block [of "length H" "length pl" "take n memory"] fit lt by metis
  have nz: "n = 16 + length H + length pl + length z" using lt b by simp
  define hl ml where "hl = write_be_u32 (of_nat (length H))"
    and "ml = write_be_u32 (of_nat (16 + length H + length pl))"
  define pc where "pc = write_be_u32 (mem_crc 0 (ml @ hl))"
  define mc where "mc = write_be_u32 (mem_crc (mem_crc 0 (ml @ hl)) (pc @ H @ pl))"
  have l2 [simp]: "length hl = 4" "length ml = 4" "length pc = 4" "length mc = 4"
    by (simp_all add: hl_def ml_def pc_def mc_def)
  have w: "wrote \<lparr>block = take n memory, pos = 12\<rparr> H True
      (headers_encode gg_buf_writer \<lparr>block = take n memory, pos = 12\<rparr> hs)"
    using headers_encode_wrote [of "\<lparr>block = take n memory, pos = 12\<rparr>" hs] ok fit lt by (simp add: H_def)
  have b0: "mem_write (take n memory) 12 H = a1 @ a2 @ a3 @ H @ P0 @ c @ z"
    using mem_write_at [of "a1 @ a2 @ a3" 12 H0 H "P0 @ c @ z"] by (simp add: b)
  have he: "headers_encode gg_buf_writer \<lparr>block = take n memory, pos = 12\<rparr> hs =
      (GG_ERR_OK, \<lparr>block = a1 @ a2 @ a3 @ H @ P0 @ c @ z, pos = 12 + length H\<rparr>)"
    using w fit lt by (simp add: wrote_def put_def b0)
  have b1: "mem_write (a1 @ a2 @ a3 @ H @ P0 @ c @ z) 4 hl = a1 @ hl @ a3 @ H @ P0 @ c @ z"
    by (rule mem_write_at) simp_all
  have b2: "mem_write (a1 @ hl @ a3 @ H @ P0 @ c @ z) (12 + length H) pl = a1 @ hl @ a3 @ H @ pl @ c @ z"
    using mem_write_at [of "a1 @ hl @ a3 @ H" "12 + length H" P0 pl "c @ z"] by simp
  have b3: "mem_write (a1 @ hl @ a3 @ H @ pl @ c @ z) 0 ml = ml @ hl @ a3 @ H @ pl @ c @ z"
    using mem_write_at [of "[]" 0 a1 ml "hl @ a3 @ H @ pl @ c @ z"] by simp
  have b4: "mem_write (ml @ hl @ a3 @ H @ pl @ c @ z) 8 pc = ml @ hl @ pc @ H @ pl @ c @ z"
    using mem_write_at [of "ml @ hl" 8 a3 pc "H @ pl @ c @ z"] by simp
  have b5: "mem_write (ml @ hl @ pc @ H @ pl @ c @ z) (12 + length H + length pl) mc = ml @ hl @ pc @ H @ pl @ mc @ z"
    using mem_write_at [of "ml @ hl @ pc @ H @ pl" "12 + length H + length pl" c mc z] by simp
  have wl: "(12 :: u32) + of_nat (length H) + of_nat (length pl) + 4 = of_nat (16 + length H + length pl)" by simp
  have small: "16 + length H + length pl \<le> UINT32_MAX" using fit by (simp add: n_def)
  have ul: "unat (of_nat (16 + length H + length pl) :: u32) = 16 + length H + length pl"
    using unat_len [OF small] .
  have "of_nat (16 + length H + length pl) - (12 :: u32) = of_nat (4 + length H + length pl)" by simp
  then have um: "unat (of_nat (16 + length H + length pl) - (12 :: u32)) = 4 + length H + length pl"
    using unat_len [of "4 + length H + length pl"] small by (simp del: of_nat_add)
  have n12: "\<not> n < 12" using nz by simp
  have rd': "gg_reader_call reader s (4 + (length pl + length z)) = (Inr pl, s')"
    using rd nz by simp
  have "eventstream_encode memory hs reader s =
      (GG_ERR_OK, (ml @ hl @ pc @ H @ pl @ mc @ z) @ drop n memory, 16 + length H + length pl, s')"
    using n12 rd'
    by (simp add: eventstream_encode_def Let_def n [symmetric] he hl_def [symmetric] b1 b2 wl
        ml_def [symmetric] b3 pc_def [symmetric] b4 um mc_def [symmetric] b5 ul del: of_nat_add)
  moreover have "ml @ hl @ pc @ H @ pl @ mc = packet H pl"
    by (simp add: packet_def packet_head_def Let_def ml_def hl_def pc_def mc_def)
  ultimately show ?thesis by (metis append.assoc)
qed

section \<open>Lemmas: the decoder\<close>

text \<open>Headers without addresses.\<close>

fun value_view :: "EventStreamHeaderValue \<Rightarrow> u32 + byte list" where
  "value_view (EVENTSTREAM_INT32 v) = Inl v"
| "value_view (EVENTSTREAM_STRING str) = Inr (mem str)"

definition header_view :: "EventStreamHeader \<Rightarrow> byte list \<times> (u32 + byte list)" where
  "header_view h = (mem (hdr_name h), value_view (hdr_value h))"

lemma unat_byte: "n \<le> 255 \<Longrightarrow> unat (of_nat n :: byte) = n"
  by (simp add: unat_of_nat)

lemma u16_split:
  assumes "n \<le> 65535"
  shows "unat (ucast (drop_bit 8 (of_nat n :: u16)) :: byte) * 256 + unat (ucast ((of_nat n :: u16) AND 0xFF) :: byte) = n"
proof -
  have n: "unat (of_nat n :: u16) = n" using assms by (simp add: unat_of_nat)
  have "unat (ucast (drop_bit 8 (of_nat n :: u16)) :: byte) = n div 256"
    using assms by (simp add: unsigned_ucast_eq drop_bit_eq_div unat_div n take_bit_eq_mod)
  moreover have "unat (ucast ((of_nat n :: u16) AND 0xFF) :: byte) = n mod 256"
    by (simp add: and_FF unsigned_ucast_eq take_bit_eq_mod unat_mod n)
  ultimately show ?thesis by simp
qed

lemma header_next_bytes:
  assumes ok: "header_ok h" and c: "c \<noteq> 0" and m: "mem (b :: GgBuffer) = header_bytes h @ T"
  shows "\<exists>h'. eventstream_header_next \<lparr>iter_count = c, iter_rest = b\<rparr> =
      Some (Inr (h', \<lparr>iter_count = c - 1, iter_rest = gg_buffer_rest b (length (header_bytes h))\<rparr>)) \<and>
      header_view h' = header_view h"
proof -
  have c': "\<not> c < 1" using c by (simp add: word_less_1)
  have nl: "unat (of_nat (len (hdr_name h)) :: byte) = len (hdr_name h)"
    using ok unat_byte by (simp add: header_ok_def)
  show ?thesis
  proof (cases "hdr_value h")
    case (EVENTSTREAM_INT32 w)
    have m': "mem b = of_nat (len (hdr_name h)) # mem (hdr_name h) @ 4 # write_be_u32 w @ T"
      using m EVENTSTREAM_INT32 by (simp add: header_bytes_def header_value_type_def value_bytes_def)
    show ?thesis using c' nl EVENTSTREAM_INT32
      by (simp add: eventstream_header_next_def byte_at_def bytes_at_def m' header_view_def nth_append Let_def
          header_bytes_def value_bytes_def)
  next
    case (EVENTSTREAM_STRING str)
    have l: "len str \<le> 65535" using ok EVENTSTREAM_STRING by (simp add: header_ok_def value_ok_def)
    obtain hi lo where sp: "unat hi * 256 + unat lo = len str"
      and m': "mem b = of_nat (len (hdr_name h)) # mem (hdr_name h) @ 7 # hi # lo # mem str @ T"
      using m EVENTSTREAM_STRING u16_split [OF l]
      by (simp add: header_bytes_def header_value_type_def value_bytes_def)
    have d: "drop (4 + len (hdr_name h)) (mem b) = mem str @ T"
      by (simp add: m' numeral_eq_Suc)
    have l4: "length (header_bytes h) = 4 + len (hdr_name h) + len str"
      using EVENTSTREAM_STRING by (simp add: header_bytes_def value_bytes_def)
    have lb: "len b = 4 + len (hdr_name h) + len str + length T" by (simp add: m')
    show ?thesis using c' nl EVENTSTREAM_STRING d l4 lb sp
      by (simp add: eventstream_header_next_def byte_at_def bytes_at_def header_view_def Let_def)
         (simp add: m' nth_append sp)
  qed
qed

text \<open>The size of the header at the start of a byte string, if it is complete and well formed.\<close>

definition hdr_size :: "byte list \<Rightarrow> nat option" where
  "hdr_size m =
     (if length m < 1 then None
      else let p = 1 + unat (m ! 0) in
      if length m < p + 1 then None
      else if m ! p = 4 then (if length m < p + 5 then None else Some (p + 5))
      else if m ! p = 7 then
        (if length m < p + 3 then None
         else let l = unat (m ! (p + 1)) * 256 + unat (m ! (p + 2)) in
              if length m < p + 3 + l then None else Some (p + 3 + l))
      else None)"

lemma hdr_size_bounds: "hdr_size m = Some k \<Longrightarrow> 0 < k \<and> k \<le> length m"
  by (auto simp: hdr_size_def Let_def split: if_splits)

lemma hdr_size_append:
  assumes k: "hdr_size m = Some k"
  shows "hdr_size (m @ T) = Some k"
proof -
  define p where "p = Suc (unat (m ! 0))"
  define l where "l = unat (m ! Suc p) * 256 + unat (m ! Suc (Suc p))"
  have z: "0 < length m" and p: "p < length m"
    and c: "(m ! p = 4 \<and> p + 5 \<le> length m \<and> k = p + 5) \<or>
      (m ! p \<noteq> 4 \<and> m ! p = 7 \<and> p + 3 + l \<le> length m \<and> k = p + 3 + l)"
    using k by (auto simp: hdr_size_def p_def [symmetric] l_def [symmetric] Let_def split: if_splits)
  have "(m @ T) ! 0 = m ! 0" "(m @ T) ! p = m ! p" using z p by (simp_all add: nth_append)
  moreover have "(m @ T) ! Suc p = m ! Suc p" "(m @ T) ! Suc (Suc p) = m ! Suc (Suc p)" if "p + 3 \<le> length m"
    using that by (simp_all add: nth_append)
  ultimately show ?thesis
    using z p c by (elim disjE) (simp_all add: hdr_size_def p_def [symmetric] l_def [symmetric] Let_def)
qed

lemma take_header_size:
  "take_header b = (case hdr_size (mem b) of None \<Rightarrow> Inl GG_ERR_PARSE | Some k \<Rightarrow> Inr (gg_buffer_rest b k))"
proof (cases "len b < 1 \<or> len b < 2 + unat (mem b ! 0)")
  case True
  then show ?thesis by (auto simp: take_header_def hdr_size_def Let_def)
next
  case False
  define p where "p = Suc (unat (mem b ! 0))"
  define l where "l = unat (mem b ! Suc p) * 256 + unat (mem b ! Suc (Suc p))"
  have p: "\<not> len b - Suc 0 < unat (mem b ! 0)" "p < len b" using False by (auto simp: p_def)
  have th: "take_header b =
     (if mem b ! p = 4 then (if len b - Suc p < 4 then Inl GG_ERR_PARSE else Inr (gg_buffer_rest b (5 + p)))
      else if mem b ! p = 7
      then (if len b - Suc p < 2 then Inl GG_ERR_PARSE
            else if len b - Suc (Suc (Suc p)) < l then Inl GG_ERR_PARSE
            else Inr (gg_buffer_rest b (Suc (Suc (Suc (p + l))))))
      else Inl GG_ERR_PARSE)"
    using False p by (simp add: take_header_def p_def [symmetric] l_def [symmetric] Let_def)
  have hs: "hdr_size (mem b) =
     (if mem b ! p = 4 then (if len b < p + 5 then None else Some (p + 5))
      else if mem b ! p = 7 then
        (if len b < p + 3 then None else if len b < p + 3 + l then None else Some (p + 3 + l))
      else None)"
    using False by (simp add: hdr_size_def p_def [symmetric] l_def [symmetric] Let_def)
  have "gg_buffer_rest b (p + 3 + l) = gg_buffer_rest b (Suc (Suc (Suc (p + l))))"
    "gg_buffer_rest b (p + 5) = gg_buffer_rest b (5 + p)"
    by (simp_all add: numeral_eq_Suc)
  then show ?thesis unfolding th hs using p by auto
qed

lemma header_next_size:
  assumes k: "hdr_size (mem b) = Some k" and c: "c \<noteq> 0"
  shows "\<exists>h. eventstream_header_next \<lparr>iter_count = c, iter_rest = b\<rparr> =
           Some (Inr (h, \<lparr>iter_count = c - 1, iter_rest = gg_buffer_rest b k\<rparr>))"
proof -
  define p where "p = Suc (unat (mem b ! 0))"
  define l where "l = unat (mem b ! Suc p) * 256 + unat (mem b ! Suc (Suc p))"
  have c': "\<not> c < 1" using c by simp
  have "0 < len b" and p: "p < len b"
    and "(mem b ! p = 4 \<and> p + 5 \<le> len b \<and> k = p + 5) \<or>
      (mem b ! p \<noteq> 4 \<and> mem b ! p = 7 \<and> p + 3 + l \<le> len b \<and> k = p + 3 + l)"
    using k by (auto simp: hdr_size_def p_def [symmetric] l_def [symmetric] Let_def split: if_splits)
  then show ?thesis
    using c' by (auto simp: eventstream_header_next_def byte_at_def bytes_at_def Let_def p_def [symmetric] l_def [symmetric]
        add.commute [of p])
qed

lemma hdr_size_bytes:
  assumes ok: "header_ok h"
  shows "hdr_size (header_bytes h @ T) = Some (length (header_bytes h))"
proof -
  have nl: "unat (of_nat (len (hdr_name h)) :: byte) = len (hdr_name h)"
    using ok unat_byte by (simp add: header_ok_def)
  show ?thesis
  proof (cases "hdr_value h")
    case (EVENTSTREAM_INT32 w)
    then show ?thesis using nl
      by (simp add: hdr_size_def header_bytes_def header_value_type_def value_bytes_def nth_append Let_def)
  next
    case (EVENTSTREAM_STRING str)
    then obtain hi lo where sp: "unat hi * 256 + unat lo = len str"
      and m': "header_bytes h = of_nat (len (hdr_name h)) # mem (hdr_name h) @ 7 # hi # lo # mem str"
      using ok u16_split [of "len str"]
      by (simp add: header_bytes_def header_value_type_def value_bytes_def header_ok_def value_ok_def)
    then show ?thesis using nl by (simp add: hdr_size_def m' nth_append Let_def sp)
  qed
qed

lemma unat_pred: "unat (c :: u32) = Suc j \<Longrightarrow> c \<noteq> 0 \<and> unat (c - 1) = j"
  by (cases "c = 0") (simp_all add: unat_minus_one)

text \<open>All headers of an iterator; \<open>None\<close> if one of the reads is out of bounds or malformed.\<close>

fun header_list :: "nat \<Rightarrow> EventStreamHeaderIter \<Rightarrow> EventStreamHeader list option" where
  "header_list 0 it = Some []"
| "header_list (Suc n) it =
     (case eventstream_header_next it of
        Some (Inr (h, it')) \<Rightarrow> map_option ((#) h) (header_list n it')
      | _ \<Rightarrow> None)"

declare count_headers_loop.simps [simp del]

lemma count_headers_list:
  assumes "count_headers_loop n hb = Inr m" "mem M = mem hb @ T" "len hb \<le> UINT32_MAX"
  shows "\<exists>k. k \<le> len hb \<and> m = n + of_nat k \<and>
     (\<forall>c. unat c = k \<longrightarrow> header_list k \<lparr>iter_count = c, iter_rest = M\<rparr> \<noteq> None)"
  using assms
proof (induction n hb arbitrary: M rule: count_headers_loop.induct)
  case (1 n hb)
  show ?case
  proof (cases "len hb > 0")
    case True
    then obtain k hb' where k: "hdr_size (mem hb) = Some k" and hb': "hb' = gg_buffer_rest hb k"
      and th: "take_header hb = Inr hb'" and rec: "count_headers_loop (n + 1) hb' = Inr m"
      using "1.prems"(1) take_header_size [of hb]
      by (subst (asm) count_headers_loop.simps) (auto split: option.splits)
    have kb: "0 < k" "k \<le> len hb" using hdr_size_bounds [OF k] by auto
    have M': "mem (gg_buffer_rest M k) = mem hb' @ T" using "1.prems"(2) kb hb' by simp
    have "len hb' \<le> UINT32_MAX" using "1.prems"(3) hb' by simp
    from "1.IH" [OF True th rec M' this] obtain j where j: "j \<le> len hb'" "m = n + 1 + of_nat j"
      "\<And>c. unat c = j \<Longrightarrow> header_list j \<lparr>iter_count = c, iter_rest = gg_buffer_rest M k\<rparr> \<noteq> None"
      by auto
    have "header_list (Suc j) \<lparr>iter_count = c, iter_rest = M\<rparr> \<noteq> None" if c: "unat c = Suc j" for c
    proof -
      have c0: "c \<noteq> 0" and cj: "unat (c - 1) = j" using unat_pred [OF c] by auto
      have "hdr_size (mem M) = Some k" using hdr_size_append [OF k, of T] "1.prems"(2) by simp
      from header_next_size [OF this c0] j(3) [OF cj] show ?thesis by auto
    qed
    moreover have "Suc j \<le> len hb" using j(1) kb hb' by simp
    ultimately show ?thesis using j(2) by (intro exI [of _ "Suc j"]) (auto simp: add.assoc)
  next
    case False
    then show ?thesis using "1.prems"(1)
      by (subst (asm) count_headers_loop.simps) (auto intro!: exI [of _ 0])
  qed
qed

lemma count_headers_bytes:
  assumes "list_all header_ok hs" "mem hb = concat (map header_bytes hs)"
  shows "count_headers_loop n hb = Inr (n + of_nat (length hs))"
  using assms
proof (induction hs arbitrary: n hb)
  case Nil
  then show ?case by (subst count_headers_loop.simps) simp
next
  case (Cons h hs)
  let ?k = "length (header_bytes h)"
  have sz: "hdr_size (mem hb) = Some ?k" using Cons.prems hdr_size_bytes by simp
  have "count_headers_loop (n + 1) (gg_buffer_rest hb ?k) = Inr (n + 1 + of_nat (length hs))"
    using Cons.prems by (intro Cons.IH) simp_all
  moreover have "0 < len hb" using hdr_size_bounds [OF sz] by linarith
  ultimately show ?case
    by (subst count_headers_loop.simps) (simp add: take_header_size sz add.assoc)
qed

lemma header_list_bytes:
  assumes "list_all header_ok hs" "mem M = concat (map header_bytes hs) @ T" "unat c = length hs"
  shows "\<exists>hs'. header_list (length hs) \<lparr>iter_count = c, iter_rest = M\<rparr> = Some hs' \<and>
         map header_view hs' = map header_view hs"
  using assms
proof (induction hs arbitrary: M c)
  case (Cons h hs)
  have c0: "c \<noteq> 0" and cj: "unat (c - 1) = length hs" using unat_pred [of c "length hs"] Cons.prems by auto
  obtain h' where h': "eventstream_header_next \<lparr>iter_count = c, iter_rest = M\<rparr> =
      Some (Inr (h', \<lparr>iter_count = c - 1, iter_rest = gg_buffer_rest M (length (header_bytes h))\<rparr>))"
      "header_view h' = header_view h"
    using header_next_bytes [OF _ c0, of h M "concat (map header_bytes hs) @ T"] Cons.prems by auto
  have "mem (gg_buffer_rest M (length (header_bytes h))) = concat (map header_bytes hs) @ T"
    using Cons.prems by simp
  with Cons.IH [OF _ this cj] Cons.prems h' show ?case by auto
qed simp

lemma packet_parts:
  "take 8 (packet H P) = packet_head H P"
  "take 4 (packet H P) = write_be_u32 (of_nat (16 + length H + length P))"
  "take 4 (drop 4 (packet H P)) = write_be_u32 (of_nat (length H))"
  "take 4 (drop 8 (packet H P)) = write_be_u32 (mem_crc 0 (packet_head H P))"
  "drop 12 (packet H P) = H @ P @
     write_be_u32 (mem_crc (mem_crc 0 (packet_head H P)) (write_be_u32 (mem_crc 0 (packet_head H P)) @ H @ P))"
  by (simp_all add: packet_def packet_head_def Let_def)

definition packet_prelude :: "byte list \<Rightarrow> byte list \<Rightarrow> EventStreamPrelude" where
  "packet_prelude H P =
     \<lparr>pre_data_len = of_nat (4 + length H + length P), pre_headers_len = of_nat (length H),
      pre_crc = mem_crc (mem_crc 0 (packet_head H P)) (write_be_u32 (mem_crc 0 (packet_head H P)))\<rparr>"

lemma decode_prelude_packet:
  assumes "16 + length H + length P \<le> UINT32_MAX" and b: "mem b = take 12 (packet H P)"
  shows "eventstream_decode_prelude b = Inr (packet_prelude H P)"
proof -
  let ?ml = "of_nat (16 + length H + length P) :: u32"
  have ml: "unat ?ml = 16 + length H + length P" using unat_len assms(1) by blast
  then have ge: "16 \<le> ?ml" by (simp add: word_le_nat_alt del: of_nat_add)
  have hl: "unat (of_nat (length H) :: u32) = length H"
    using unat_len [of "length H"] assms(1) by simp
  have "of_nat (length H) \<le> ?ml - 16"
    using ml ge hl by (simp add: word_le_nat_alt unat_sub del: of_nat_add)
  moreover have "len b = 12" using b by simp
  moreover have "mem (gg_buffer_substr b 0 8) = packet_head H P"
    "mem (gg_buffer_substr b 8 12) = write_be_u32 (mem_crc 0 (packet_head H P))"
    "mem (gg_buffer_substr b 0 4) = write_be_u32 ?ml"
    "mem (gg_buffer_substr b 4 8) = write_be_u32 (of_nat (length H))"
    by (simp_all add: b packet_parts take_drop [symmetric] drop_take min_def del: of_nat_add)
  moreover have "?ml - 12 = of_nat (4 + length H + length P)" by simp
  ultimately show ?thesis using ge
    by (simp add: eventstream_decode_prelude_def Let_def mem_crc_cong packet_prelude_def not_less del: of_nat_add)
qed

lemma decode_packet:
  assumes "16 + length H + length P \<le> UINT32_MAX" and H: "H = concat (map header_bytes hs)"
    and ok: "list_all header_ok hs" and d: "mem d = drop 12 (packet H P)"
  shows "eventstream_decode (packet_prelude H P) d =
     Inr \<lparr>msg_headers = \<lparr>iter_count = of_nat (length hs), iter_rest = d\<rparr>,
          msg_payload = gg_buffer_substr d (length H) (len d - 4)\<rparr>"
    and "mem (gg_buffer_substr d (length H) (len d - 4)) = P"
proof -
  have l: "len d = 4 + length H + length P" using d by simp
  have hl: "unat (of_nat (length H) :: u32) = length H"
    using unat_len [of "length H"] assms(1) by simp
  let ?pc = "mem_crc 0 (packet_head H P)"
  have "mem (gg_buffer_substr d 0 (len d - 4)) = H @ P"
    "mem (gg_buffer_substr d (len d - 4) (len d)) = write_be_u32 (mem_crc ?pc (write_be_u32 ?pc @ H @ P))"
    by (simp_all add: l) (simp_all add: d packet_parts)
  moreover have "count_headers (gg_buffer_substr d 0 (length H)) = Inr (of_nat (length hs))"
    using count_headers_bytes [OF ok, of "gg_buffer_substr d 0 (length H)" 0]
    by (simp add: count_headers_def d packet_parts H)
  moreover have "len d - (len d - 4) = 4" using l by simp
  ultimately show "eventstream_decode (packet_prelude H P) d =
     Inr \<lparr>msg_headers = \<lparr>iter_count = of_nat (length hs), iter_rest = d\<rparr>,
          msg_payload = gg_buffer_substr d (length H) (len d - 4)\<rparr>"
    by (simp add: eventstream_decode_def packet_prelude_def mem_crc_cong hl mem_crc_append Let_def)
  show "mem (gg_buffer_substr d (length H) (len d - 4)) = P"
    by (simp add: l) (simp add: d packet_parts)
qed

lemma length_headers_le: "length hs \<le> length (concat (map header_bytes hs))"
  by (induction hs) (auto simp: header_bytes_def)

section \<open>Lemmas: common headers\<close>

fun common_of :: "EventStreamHeader list \<Rightarrow> EventStreamCommonHeaders \<Rightarrow> EventStreamCommonHeaders res" where
  "common_of [] out = Inr out"
| "common_of (h # hs) out =
     (case hdr_value h of
        EVENTSTREAM_INT32 v \<Rightarrow>
          common_of hs
            (if mem (hdr_name h) = bytes_of '':message-type'' then out\<lparr>ch_message_type := v\<rparr>
             else if mem (hdr_name h) = bytes_of '':message-flags'' then out\<lparr>ch_message_flags := v\<rparr>
             else if mem (hdr_name h) = bytes_of '':stream-id'' then out\<lparr>ch_stream_id := v\<rparr> else out)
      | EVENTSTREAM_STRING str \<Rightarrow>
          if mem (hdr_name h) \<in> {bytes_of '':message-type'', bytes_of '':message-flags'', bytes_of '':stream-id''}
          then Inl GG_ERR_INVALID else common_of hs out)"

declare get_common_headers_loop.simps [simp del]

lemma get_common_headers_list:
  "header_list n it = Some hs \<Longrightarrow> unat (iter_count it) = n \<Longrightarrow> get_common_headers_loop it out = Some (common_of hs out)"
proof (induction n arbitrary: it hs out)
  case 0
  then have "eventstream_header_next it = Some (Inl GG_ERR_RANGE)"
    by (simp add: eventstream_header_next_def unat_eq_0)
  with 0 show ?case by (subst get_common_headers_loop.simps) simp
next
  case (Suc n)
  then obtain h it' hs' where nx: "eventstream_header_next it = Some (Inr (h, it'))"
    and hs': "header_list n it' = Some hs'" "hs = h # hs'"
    by (auto split: option.splits sum.splits)
  have "unat (iter_count it') = n"
    using header_next_count [OF nx] Suc.prems(2) unat_pred by auto
  note ih = Suc.IH [OF hs'(1) this]
  show ?case
    by (subst get_common_headers_loop.simps)
       (simp add: nx hs'(2) ih is_common_def split: EventStreamHeaderValue.split)
qed

lemma common_of_view: "map header_view hs = map header_view hs' \<Longrightarrow> common_of hs out = common_of hs' out"
proof (induction hs arbitrary: hs' out)
  case (Cons h hs)
  then obtain h' hs'' where h': "hs' = h' # hs''" "header_view h = header_view h'"
      "map header_view hs = map header_view hs''"
    by (cases hs') auto
  from h'(2) have "mem (hdr_name h) = mem (hdr_name h')" by (simp add: header_view_def)
  with Cons.IH [OF h'(3)] h' show ?case
    by (cases "hdr_value h"; cases "hdr_value h'") (auto simp: header_view_def)
qed simp

lemma decode_prelude_lens:
  assumes "eventstream_decode_prelude b = Inr prelude"
  shows "unat (pre_headers_len prelude) + 4 \<le> unat (pre_data_len prelude)"
    and "unat (pre_data_len prelude) \<le> UINT32_MAX"
proof -
  let ?ml = "read_be_uint32 (mem (gg_buffer_substr b 0 4))"
  have p: "pre_data_len prelude = ?ml - 12" "\<not> ?ml < 16" "\<not> pre_headers_len prelude > ?ml - 16"
    using assms by (auto simp: eventstream_decode_prelude_def Let_def split: if_splits)
  have "unat (?ml - 12) = unat ?ml - 12" "unat (?ml - 16) = unat ?ml - 16" "16 \<le> unat ?ml"
    using p(2) by (simp_all add: unat_sub word_le_nat_alt word_less_nat_alt not_less)
  then show "unat (pre_headers_len prelude) + 4 \<le> unat (pre_data_len prelude)"
    using p(1,3) by (simp add: word_less_nat_alt not_less)
  show "unat (pre_data_len prelude) \<le> UINT32_MAX"
    using unat_bound [of "pre_data_len prelude"] by (simp add: UINT32_MAX_def)
qed

lemma header_list_length: "header_list n it = Some hs \<Longrightarrow> length hs = n"
  by (induction n arbitrary: it hs) (auto split: option.splits sum.splits)

section \<open>Properties\<close>

text \<open>
  C23: an EventStream packet survives the wire. If the headers are encodable and the packet fits the
  buffer, \<open>eventstream_encode\<close> succeeds, and decoding what it wrote gives back the same header
  names and values in order and the same payload.
\<close>

theorem eventstream_roundtrip:
  assumes ok: "list_all header_ok hs"
    and rd: "gg_reader_call reader s (min (length memory) UINT32_MAX - 12 - length (concat (map header_bytes hs))) = (Inr pl, s')"
    and fit: "16 + length (concat (map header_bytes hs)) + length pl \<le> min (length memory) UINT32_MAX"
  shows "\<exists>memory' n prelude msg hs'.
     eventstream_encode memory hs reader s = (GG_ERR_OK, memory', n, s') \<and>
     eventstream_decode_prelude \<lparr>data = p, mem = take 12 memory'\<rparr> = Inr prelude \<and>
     unat (pre_data_len prelude) = n - 12 \<and>
     eventstream_decode prelude \<lparr>data = p + 12, mem = take (n - 12) (drop 12 memory')\<rparr> = Inr msg \<and>
     header_list (unat (iter_count (msg_headers msg))) (msg_headers msg) = Some hs' \<and>
     map header_view hs' = map header_view hs \<and> mem (msg_payload msg) = pl"
proof -
  define H where "H = concat (map header_bytes hs)"
  obtain memory' where enc: "eventstream_encode memory hs reader s =
      (GG_ERR_OK, packet H pl @ memory', 16 + length H + length pl, s')"
    using eventstream_encode_fits [OF ok rd fit] by (auto simp: H_def)
  have small: "16 + length H + length pl \<le> UINT32_MAX" using fit by (simp add: H_def)
  let ?d = "\<lparr>data = p + 12, mem = take (16 + length H + length pl - 12) (drop 12 (packet H pl @ memory'))\<rparr>"
  have d: "mem ?d = drop 12 (packet H pl)" by simp
  note dec = decode_packet [OF small H_def ok d]
  have cnt: "unat (of_nat (length hs) :: u32) = length hs"
    using unat_len [of "length hs"] length_headers_le [of hs] small by (simp add: H_def)
  obtain hs' where "header_list (length hs) \<lparr>iter_count = of_nat (length hs), iter_rest = ?d\<rparr> = Some hs'"
      "map header_view hs' = map header_view hs"
    using header_list_bytes [OF ok _ cnt, of ?d] by (auto simp: packet_parts H_def)
  moreover have "unat (pre_data_len (packet_prelude H pl)) = 16 + length H + length pl - 12"
    using unat_len [of "4 + length H + length pl"] small by (simp add: packet_prelude_def del: of_nat_add)
  moreover have "eventstream_decode_prelude \<lparr>data = p, mem = take 12 (packet H pl @ memory')\<rparr> = Inr (packet_prelude H pl)"
    using decode_prelude_packet [OF small] by simp
  ultimately show ?thesis using enc dec cnt by (metis (no_types, lifting) EventStreamHeaderIter.select_convs(1)
      EventStreamMessage.select_convs)
qed

theorem eventstream_roundtrip_witness:
  "\<exists>memory' n. eventstream_encode (replicate 40 0) [\<lparr>hdr_name = GG_STR ''k'', hdr_value = EVENTSTREAM_INT32 7\<rparr>]
     (Some (\<lambda>s n. (Inr [1, 2], s))) () = (GG_ERR_OK, memory', n, ())"
  using eventstream_roundtrip [of "[\<lparr>hdr_name = GG_STR ''k'', hdr_value = EVENTSTREAM_INT32 7\<rparr>]"
      "Some (\<lambda>s n. (Inr [1, 2], s))" "()" "replicate 40 0" "[1, 2]" "()" 0]
  by (auto simp: header_ok_def value_ok_def header_bytes_def value_bytes_def UINT32_MAX_def)

lemma eventstream_decode_in_bounds:
  assumes pre: "eventstream_decode_prelude b = Inr prelude"
    and len: "len d = unat (pre_data_len prelude)"
    and dec: "eventstream_decode prelude d = Inr msg"
  shows "\<exists>hs. header_list (unat (iter_count (msg_headers msg))) (msg_headers msg) = Some hs \<and>
     length hs = unat (iter_count (msg_headers msg)) \<and>
     eventstream_get_common_headers msg =
       Some (common_of hs \<lparr>ch_stream_id = 0, ch_message_type = 0, ch_message_flags = 0\<rparr>) \<and>
     data d \<le> data (msg_payload msg) \<and> data (msg_payload msg) + len (msg_payload msg) + 4 \<le> data d + len d"
proof -
  have h: "unat (pre_headers_len prelude) + 4 \<le> len d" and small: "len d \<le> UINT32_MAX"
    using decode_prelude_lens [OF pre] len by simp_all
  let ?hb = "gg_buffer_substr d 0 (unat (pre_headers_len prelude))"
  obtain m where cnt: "count_headers_loop 0 ?hb = Inr m"
    and msg: "msg = \<lparr>msg_headers = \<lparr>iter_count = m, iter_rest = d\<rparr>,
      msg_payload = gg_buffer_substr d (unat (pre_headers_len prelude)) (len d - 4)\<rparr>"
    using dec by (auto simp: eventstream_decode_def count_headers_def Let_def split: if_splits sum.splits)
  have "mem d = mem ?hb @ drop (unat (pre_headers_len prelude)) (mem d)" by simp
  from count_headers_list [OF cnt this] small h obtain k where k: "k \<le> len ?hb" "m = of_nat k"
      "\<And>c. unat c = k \<Longrightarrow> header_list k \<lparr>iter_count = c, iter_rest = d\<rparr> \<noteq> None"
    by auto
  have "k \<le> UINT32_MAX" using k(1) h small by simp
  then have m: "unat m = k" using unat_len k(2) by simp
  then obtain hs where hs: "header_list k \<lparr>iter_count = m, iter_rest = d\<rparr> = Some hs" using k(3) by auto
  have "length hs = k" using header_list_length [OF hs] .
  moreover have "eventstream_get_common_headers msg =
       Some (common_of hs \<lparr>ch_stream_id = 0, ch_message_type = 0, ch_message_flags = 0\<rparr>)"
    using get_common_headers_list [OF hs] m by (simp add: eventstream_get_common_headers_def msg)
  ultimately show ?thesis using hs m h by (auto simp: msg data_substr)
qed

text \<open>
  C24: decoding is memory safe on every input. If prelude and data section pass \<open>eventstream_decode\<close>,
  however they came about, then walking the headers reads no byte outside the data section,
  finds as many well-formed headers as were counted, and \<open>eventstream_get_common_headers\<close>
  returns; the payload lies inside the data section before its CRC.
\<close>

theorem eventstream_decode_safe:
  assumes pre: "eventstream_decode_prelude b = Inr prelude"
    and len: "len d = unat (pre_data_len prelude)"
    and dec: "eventstream_decode prelude d = Inr msg"
  shows "\<exists>hs. header_list (unat (iter_count (msg_headers msg))) (msg_headers msg) = Some hs \<and>
     length hs = unat (iter_count (msg_headers msg)) \<and>
     eventstream_get_common_headers msg =
       Some (common_of hs \<lparr>ch_stream_id = 0, ch_message_type = 0, ch_message_flags = 0\<rparr>) \<and>
     data d \<le> data (msg_payload msg) \<and> data (msg_payload msg) + len (msg_payload msg) + 4 \<le> data d + len d"
  by (rule eventstream_decode_in_bounds [OF assms])

theorem eventstream_decode_safe_witness:
  "\<exists>prelude msg hs. eventstream_decode_prelude \<lparr>data = 0, mem = take 12 (packet (header_bytes
        \<lparr>hdr_name = GG_STR ''k'', hdr_value = EVENTSTREAM_INT32 7\<rparr>) [1, 2])\<rparr> = Inr prelude \<and>
     eventstream_decode prelude \<lparr>data = 12, mem = drop 12 (packet (header_bytes
        \<lparr>hdr_name = GG_STR ''k'', hdr_value = EVENTSTREAM_INT32 7\<rparr>) [1, 2])\<rparr> = Inr msg \<and>
     header_list (unat (iter_count (msg_headers msg))) (msg_headers msg) = Some hs"
proof -
  let ?h = "\<lparr>hdr_name = GG_STR ''k'', hdr_value = EVENTSTREAM_INT32 7\<rparr>"
  let ?H = "header_bytes ?h" and ?P = "[1, 2] :: byte list"
  have lH: "length ?H = 7" by (simp add: header_bytes_def value_bytes_def)
  have small: "16 + length ?H + length ?P \<le> UINT32_MAX" by (simp add: lH UINT32_MAX_def)
  have pre: "eventstream_decode_prelude \<lparr>data = 0, mem = take 12 (packet ?H ?P)\<rparr> = Inr (packet_prelude ?H ?P)"
    using decode_prelude_packet [OF small] by simp
  have "?H = concat (map header_bytes [?h])" "list_all header_ok [?h]"
    by (simp_all add: header_ok_def value_ok_def)
  from decode_packet(1) [OF small this, of "\<lparr>data = 12, mem = drop 12 (packet ?H ?P)\<rparr>"]
  obtain msg where dec: "eventstream_decode (packet_prelude ?H ?P) \<lparr>data = 12, mem = drop 12 (packet ?H ?P)\<rparr> = Inr msg"
    by auto
  have "len \<lparr>data = 12, mem = drop 12 (packet ?H ?P)\<rparr> = unat (pre_data_len (packet_prelude ?H ?P))"
    by (simp add: packet_prelude_def lH)
  from eventstream_decode_safe [OF pre this dec] pre dec show ?thesis by blast
qed

text \<open>A reader over a byte stream that delivers the bytes asked for as long as there are any.\<close>

definition stream_reader :: "byte list GgReader" where
  "stream_reader = Some (\<lambda>s n. (Inr (take n s), drop n s))"

lemma stream_reader_exact:
  "length xs = n \<Longrightarrow> gg_reader_call_exact stream_reader (xs @ ys) n = (Inr xs, ys)"
  by (simp add: gg_reader_call_exact_def stream_reader_def)

lemma get_packet_stream:
  assumes ok: "list_all header_ok hs" and H: "H = concat (map header_bytes hs)"
    and small: "16 + length H + length P \<le> UINT32_MAX"
    and buf: "12 \<le> len buffer" "4 + length H + length P \<le> len buffer"
  shows "\<exists>msg hs'. eventsteam_get_packet stream_reader (packet H P @ rest) buffer = (Inr msg, rest) \<and>
     header_list (unat (iter_count (msg_headers msg))) (msg_headers msg) = Some hs' \<and>
     map header_view hs' = map header_view hs \<and> mem (msg_payload msg) = P \<and>
     eventstream_get_common_headers msg =
       Some (common_of hs \<lparr>ch_stream_id = 0, ch_message_type = 0, ch_message_flags = 0\<rparr>)"
proof -
  let ?d = "\<lparr>data = data buffer, mem = drop 12 (packet H P)\<rparr>"
  have dl: "unat (pre_data_len (packet_prelude H P)) = 4 + length H + length P"
    using unat_len [of "4 + length H + length P"] small by (simp add: packet_prelude_def del: of_nat_add)
  have pk: "packet H P @ rest = take 12 (packet H P) @ (drop 12 (packet H P) @ rest)" by simp
  have r1: "gg_reader_call_exact stream_reader (packet H P @ rest) 12 =
      (Inr (take 12 (packet H P)), drop 12 (packet H P) @ rest)"
    by (subst pk, rule stream_reader_exact) simp
  have r2: "gg_reader_call_exact stream_reader (drop 12 (packet H P) @ rest) (4 + length H + length P) =
      (Inr (drop 12 (packet H P)), rest)"
    by (rule stream_reader_exact) simp
  have pre: "eventstream_decode_prelude ((gg_buffer_substr buffer 0 12)\<lparr>mem := take 12 (packet H P)\<rparr>) =
      Inr (packet_prelude H P)"
    using decode_prelude_packet [OF small] by simp
  have ds: "(gg_buffer_substr buffer 0 (4 + length H + length P))\<lparr>mem := drop 12 (packet H P)\<rparr> = ?d"
    by (simp add: gg_buffer_substr_def)
  note dec = decode_packet [OF small H ok, of ?d, simplified]
  have gp: "eventsteam_get_packet stream_reader (packet H P @ rest) buffer = (eventstream_decode (packet_prelude H P) ?d, rest)"
    using buf by (simp add: eventsteam_get_packet_def Let_def r1 pre dl r2 ds min_absorb1 min_absorb2)
  have cnt: "unat (of_nat (length hs) :: u32) = length hs"
    using unat_len [of "length hs"] length_headers_le [of hs] small by (simp add: H)
  obtain hs' where hs': "header_list (length hs) \<lparr>iter_count = of_nat (length hs), iter_rest = ?d\<rparr> = Some hs'"
      "map header_view hs' = map header_view hs"
    using header_list_bytes [OF ok _ cnt, of ?d] by (auto simp: packet_parts H)
  show ?thesis
    using gp dec cnt hs' common_of_view [OF hs'(2)] get_common_headers_list [OF hs'(1)]
    by (simp add: eventstream_get_common_headers_def)
qed

end
