(* ===== verification/Ipc_Client.thy ===== *)
theory Ipc_Client
  imports EventStream Json_Encode Json_Decode
begin

text \<open>
  The IPC client (\<open>src/ipc/client.c\<close>, \<open>include/gg/ipc/client_raw.h\<close>, \<open>priv_include/gg/ipc/client_priv.h\<close>):
  the table of streams, subscription handles, requests, and the dispatch of incoming packets.

  The static variables of the file are the record \<open>ipc\<close>. A call of \<open>ggipc_subscribe\<close> keeps its
  \<open>ResponseHandlerCtx\<close> on its stack and the table points to it, so the frames of the calls in
  progress are part of the state, by address; following a pointer to a frame that is gone is
  the value \<open>None\<close>. Function pointers are addresses; what the functions at these addresses do,
  the socket and the environment are the arguments \<open>ipc_env\<close>. A callback works on the whole
  state, because it may call \<open>ggipc_close_subscription\<close> (the mutex is recursive).

  Every function here runs with \<open>stream_state_mtx\<close> held, and \<open>ggipc_subscribe\<close> releases it only
  while it waits. So an execution is an interleaving of: the part of \<open>ggipc_subscribe\<close> before
  the wait, its two ways out of the wait, the dispatch of a packet, and \<open>ggipc_close_subscription\<close>.
\<close>

section \<open>State\<close>

record StreamHandler =
  sh_fn :: "ptr option"
  sh_ctx :: ptr
  sh_aux_ctx :: ptr

record ResponseHandlerCtx =
  rc_ready :: bool
  rc_ret :: GgError
  rc_result_callback :: "ptr option"
  rc_error_callback :: "ptr option"
  rc_response_ctx :: ptr
  rc_sub_callback :: "ptr option"
  rc_sub_callback_ctx :: ptr
  rc_sub_callback_aux_ctx :: ptr
  rc_stream_index :: nat  \<comment> \<open>the variable \<open>stream_index\<close> of the same stack frame\<close>

record 'w ipc =
  ipc_conn_fd :: int
  stream_state_id :: "u32 list"
  stream_state_generation :: "u16 list"
  stream_state_handler :: "StreamHandler list"
  next_stream_id :: u32
  calls :: "ptr \<Rightarrow> ResponseHandlerCtx option"
  world :: 'w  \<comment> \<open>the sockets and everything the callbacks work on\<close>

record 'w ipc_env =
  sock_write :: "int \<Rightarrow> byte list \<Rightarrow> 'w \<Rightarrow> GgError \<times> 'w"
  sock_reader :: "int \<Rightarrow> 'w GgReader"
  sock_connect :: "GgBuffer \<Rightarrow> 'w \<Rightarrow> int res \<times> 'w"
  sock_close :: "int \<Rightarrow> 'w \<Rightarrow> 'w"
  epoll_add :: "int \<Rightarrow> 'w \<Rightarrow> GgError \<times> 'w"
  extra_header_handler :: "EventStreamHeaderIter \<Rightarrow> GgError"  \<comment> \<open>a weak symbol\<close>
  f64_text :: f64_format
  strtod_of :: strtod_fn
  recv_mem_at :: ptr
  decode_mem_at :: ptr
  memory_around :: "'w \<Rightarrow> heap"  \<comment> \<open>what is in memory around the packet that is handled\<close>
  result_cb :: "ptr \<Rightarrow> ptr \<Rightarrow> GgMap \<Rightarrow> 'w ipc \<Rightarrow> GgError \<times> 'w ipc"
  error_cb :: "ptr \<Rightarrow> ptr \<Rightarrow> GgBuffer \<Rightarrow> GgBuffer \<Rightarrow> 'w ipc \<Rightarrow> GgError \<times> 'w ipc"
  sub_cb :: "ptr \<Rightarrow> ptr \<Rightarrow> ptr \<Rightarrow> u32 \<Rightarrow> GgBuffer \<Rightarrow> GgMap \<Rightarrow> 'w ipc \<Rightarrow> GgError \<times> 'w ipc"

definition GG_IPC_MAX_STREAMS :: nat where
  "GG_IPC_MAX_STREAMS = 16"

definition GG_IPC_MAX_MSG_LEN :: nat where
  "GG_IPC_MAX_MSG_LEN = 10000"

definition EVENTSTREAM_APPLICATION_MESSAGE :: u32 where
  "EVENTSTREAM_APPLICATION_MESSAGE = 0"

definition EVENTSTREAM_APPLICATION_ERROR :: u32 where
  "EVENTSTREAM_APPLICATION_ERROR = 1"

definition EVENTSTREAM_CONNECT :: u32 where
  "EVENTSTREAM_CONNECT = 4"

definition EVENTSTREAM_CONNECT_ACK :: u32 where
  "EVENTSTREAM_CONNECT_ACK = 5"

definition EVENTSTREAM_CONNECTION_ACCEPTED :: u32 where
  "EVENTSTREAM_CONNECTION_ACCEPTED = 1"

definition EVENTSTREAM_TERMINATE_STREAM :: u32 where
  "EVENTSTREAM_TERMINATE_STREAM = 2"

lemmas es_consts = EVENTSTREAM_APPLICATION_MESSAGE_def EVENTSTREAM_APPLICATION_ERROR_def EVENTSTREAM_CONNECT_def
  EVENTSTREAM_CONNECT_ACK_def EVENTSTREAM_CONNECTION_ACCEPTED_def EVENTSTREAM_TERMINATE_STREAM_def

definition no_handler :: StreamHandler where
  "no_handler = \<lparr>sh_fn = None, sh_ctx = 0, sh_aux_ctx = 0\<rparr>"

definition ipc_init :: "'w \<Rightarrow> 'w ipc" where
  \<comment> \<open>the initial values of the static variables\<close>
  "ipc_init w =
     \<lparr>ipc_conn_fd = - 1, stream_state_id = replicate GG_IPC_MAX_STREAMS 0,
      stream_state_generation = replicate GG_IPC_MAX_STREAMS 0,
      stream_state_handler = replicate GG_IPC_MAX_STREAMS no_handler, next_stream_id = 1, calls = (\<lambda>_. None), world = w\<rparr>"

section \<open>Stream table\<close>

definition validate_handle :: "'w ipc \<Rightarrow> u32 \<Rightarrow> nat res" where
  "validate_handle s handle =
     (let handle_index = (ucast (handle AND 0xFFFF) :: u16) - 1;
          handle_generation = (ucast (drop_bit 16 handle) :: u16)
      in if unat handle_index \<ge> GG_IPC_MAX_STREAMS then Inl GG_ERR_INVALID
         else if handle_generation \<noteq> stream_state_generation s ! unat handle_index then Inl GG_ERR_NOENTRY
         else Inr (unat handle_index))"

definition get_current_handle :: "'w ipc \<Rightarrow> nat \<Rightarrow> u32" where
  "get_current_handle s idx = push_bit 16 (ucast (stream_state_generation s ! idx)) OR (of_nat idx + 1)"

definition get_stream_index_from_id :: "'w ipc \<Rightarrow> u32 \<Rightarrow> nat option" where
  "get_stream_index_from_id s stream_id =
     (if sint stream_id \<le> 0 then None
      else List.find (\<lambda>i. stream_state_id s ! i = stream_id) [0..<GG_IPC_MAX_STREAMS])"

definition claim_stream_index :: "'w ipc \<Rightarrow> (nat \<times> 'w ipc) option" where
  "claim_stream_index s =
     (case List.find (\<lambda>i. stream_state_id s ! i = 0) [0..<GG_IPC_MAX_STREAMS] of
        None \<Rightarrow> None
      | Some i \<Rightarrow>
          Some (i, s\<lparr>stream_state_generation := (stream_state_generation s)[i := stream_state_generation s ! i + 1],
                     stream_state_id := (stream_state_id s)[i := - 1]\<rparr>))"

definition set_stream_index :: "nat \<Rightarrow> u32 \<Rightarrow> StreamHandler \<Rightarrow> 'w ipc \<Rightarrow> 'w ipc" where
  "set_stream_index idx stream_id handler s =
     s\<lparr>stream_state_id := (stream_state_id s)[idx := stream_id],
       stream_state_handler := (stream_state_handler s)[idx := handler]\<rparr>"

definition clear_stream_index :: "nat \<Rightarrow> 'w ipc \<Rightarrow> 'w ipc" where
  "clear_stream_index idx s =
     s\<lparr>stream_state_generation := (stream_state_generation s)[idx := stream_state_generation s ! idx + 1],
       stream_state_id := (stream_state_id s)[idx := 0],
       stream_state_handler := (stream_state_handler s)[idx := no_handler]\<rparr>"

section \<open>Sending\<close>

definition ipc_send_packet :: "'w ipc_env \<Rightarrow> int \<Rightarrow> EventStreamHeader list \<Rightarrow> unit GgReader \<Rightarrow> 'w \<Rightarrow> GgError \<times> 'w" where
  \<comment> \<open>\<open>ipc_send_mem\<close> starts zeroed; what an earlier packet left in it is overwritten\<close>
  "ipc_send_packet env conn hdrs payload w =
     (case eventstream_encode (replicate GG_IPC_MAX_MSG_LEN 0) hdrs payload () of
        (ret, memory, n, _) \<Rightarrow>
          if ret \<noteq> GG_ERR_OK then (ret, w) else sock_write env conn (take n memory) w)"

definition connected :: "'w ipc \<Rightarrow> bool" where
  "connected s \<longleftrightarrow> ipc_conn_fd s \<ge> 0"

definition int32_header :: "string \<Rightarrow> u32 \<Rightarrow> EventStreamHeader" where
  "int32_header name v = \<lparr>hdr_name = GG_STR name, hdr_value = EVENTSTREAM_INT32 v\<rparr>"

definition string_header :: "string \<Rightarrow> GgBuffer \<Rightarrow> EventStreamHeader" where
  "string_header name v = \<lparr>hdr_name = GG_STR name, hdr_value = EVENTSTREAM_STRING v\<rparr>"

definition close_stream :: "'w ipc_env \<Rightarrow> nat \<Rightarrow> 'w ipc \<Rightarrow> 'w ipc" where
  "close_stream env idx s =
     (let stream_id = stream_state_id s ! idx;
          hdrs = [int32_header '':message-type'' EVENTSTREAM_APPLICATION_MESSAGE,
                  int32_header '':message-flags'' EVENTSTREAM_TERMINATE_STREAM,
                  int32_header '':stream-id'' stream_id]
      in clear_stream_index idx (s\<lparr>world := snd (ipc_send_packet env (ipc_conn_fd s) hdrs None (world s))\<rparr>))"

section \<open>Connecting\<close>

definition recv_buffer :: "'w ipc_env \<Rightarrow> GgBuffer" where
  "recv_buffer env = \<lparr>data = recv_mem_at env, mem = replicate GG_IPC_MAX_MSG_LEN 0\<rparr>"

definition connect_handshake :: "'w ipc_env \<Rightarrow> int \<Rightarrow> GgObject \<Rightarrow> 'w \<Rightarrow> (GgError \<times> 'w) option" where
  \<comment> \<open>from the connect packet to the registration of the socket\<close>
  "connect_handshake env conn payload w =
     (let hdrs = [int32_header '':message-type'' EVENTSTREAM_CONNECT, int32_header '':message-flags'' 0,
                  int32_header '':stream-id'' 0, string_header '':version'' (GG_STR ''0.1.0'')]
      in case ipc_send_packet env conn hdrs (gg_json_reader (f64_text env) payload) w of (ret, w) \<Rightarrow>
         if ret \<noteq> GG_ERR_OK then Some (ret, w)
         else
     (case eventsteam_get_packet (sock_reader env conn) w (recv_buffer env) of
        (Inl ret, w) \<Rightarrow> Some (ret, w)
      | (Inr msg, w) \<Rightarrow>
          Option.bind (eventstream_get_common_headers msg) (\<lambda>res.
          case res of
            Inl ret \<Rightarrow> Some (ret, w)
          | Inr common_headers \<Rightarrow>
              if ch_message_type common_headers \<noteq> EVENTSTREAM_CONNECT_ACK then Some (GG_ERR_FAILURE, w)
              else if ch_message_flags common_headers AND EVENTSTREAM_CONNECTION_ACCEPTED = 0 then Some (GG_ERR_FAILURE, w)
              else if extra_header_handler env (msg_headers msg) \<noteq> GG_ERR_OK
              then Some (extra_header_handler env (msg_headers msg), w)
              else Some (epoll_add env conn w))))"

definition ggipc_connect_with_payload :: "'w ipc_env \<Rightarrow> GgBuffer \<Rightarrow> GgObject \<Rightarrow> 'w ipc \<Rightarrow> (GgError \<times> 'w ipc) option" where
  \<comment> \<open>every error after the connection closes the socket (\<open>cleanup_close\<close>)\<close>
  "ggipc_connect_with_payload env socket_path payload s =
     (case sock_connect env socket_path (world s) of
        (Inl ret, w) \<Rightarrow> Some (ret, s\<lparr>world := w\<rparr>)
      | (Inr conn, w) \<Rightarrow>
          map_option (\<lambda>(ret, w).
            if ret \<noteq> GG_ERR_OK then (ret, s\<lparr>world := sock_close env conn w\<rparr>)
            else (GG_ERR_OK, s\<lparr>world := w, ipc_conn_fd := conn\<rparr>)) (connect_handshake env conn payload w))"

definition ggipc_connect_with_token :: "'w ipc_env \<Rightarrow> GgBuffer \<Rightarrow> GgBuffer \<Rightarrow> 'w ipc \<Rightarrow> (GgError \<times> 'w ipc) option" where
  \<comment> \<open>the address of the compound literal does not matter\<close>
  "ggipc_connect_with_token env socket_path auth_token s =
     ggipc_connect_with_payload env socket_path (gg_obj_map (0, [gg_kv (GG_STR ''authToken'') (gg_obj_buf auth_token)])) s"

definition ggipc_connect :: "'w ipc_env \<Rightarrow> (string \<Rightarrow> GgBuffer option) \<Rightarrow> 'w ipc \<Rightarrow> (GgError \<times> 'w ipc) option" where
  \<comment> \<open>the second argument is \<open>getenv\<close>\<close>
  "ggipc_connect env getenv s =
     (case getenv ''SVCUID'' of
        None \<Rightarrow> Some (GG_ERR_CONFIG, s)
      | Some svcuid \<Rightarrow>
          (case getenv ''AWS_GG_NUCLEUS_DOMAIN_SOCKET_FILEPATH_FOR_COMPONENT'' of
             None \<Rightarrow> Some (GG_ERR_CONFIG, s)
           | Some socket_path \<Rightarrow> ggipc_connect_with_token env socket_path svcuid s))"

section \<open>Responses\<close>

definition memory_of :: "GgBuffer \<Rightarrow> heap \<Rightarrow> heap" where
  \<comment> \<open>the memory that holds a buffer, among whatever else is there\<close>
  "memory_of b around = (\<lambda>a. if data b \<le> a \<and> a < data b + len b then mem b ! (a - data b) else around a)"

definition json_payload :: "'w ipc_env \<Rightarrow> 'w \<Rightarrow> EventStreamMessage \<Rightarrow> GgObject res" where
  \<comment> \<open>\<open>gg_json_decode_destructive\<close> on the payload with an arena over \<open>ipc_recv_decode_mem\<close>. \<open>strtod\<close> is given no
     length and may look at the bytes behind the payload: they are arbitrary, a checksum, the rest of
     earlier packets or other memory. The decoder returns, and with an object on success
     (\<open>Json_Decode\<close>), so the last two cases do not arise\<close>
  "json_payload env w msg =
     (case gg_json_decode_destructive (strtod_of env) (memory_of (iter_rest (msg_headers msg)) (memory_around env w)) (span_of (msg_payload msg))
             (Some (gg_arena_init \<lparr>data = decode_mem_at env, mem = replicate (GG_MAX_OBJECT_SUBOBJECTS * sizeof_GgObject) 0\<rparr>)) True of
        Some (GG_ERR_OK, _, _, Some obj) \<Rightarrow> Inr obj
      | Some (GG_ERR_OK, _, _, None) \<Rightarrow> Inl GG_ERR_FATAL
      | Some (ret, _, _, _) \<Rightarrow> Inl ret
      | None \<Rightarrow> Inl GG_ERR_FATAL)"

definition handle_application_error ::
  "'w ipc_env \<Rightarrow> EventStreamMessage \<Rightarrow> ptr option \<Rightarrow> ptr \<Rightarrow> 'w ipc \<Rightarrow> GgError \<times> 'w ipc" where
  "handle_application_error env msg error_callback response_ctx s =
     (case error_callback of
        None \<Rightarrow> (GG_ERR_REMOTE, s)
      | Some callback \<Rightarrow>
     (case json_payload env (world s) msg of
        Inl ret \<Rightarrow> (ret, s)
      | Inr err_result \<Rightarrow>
          if gg_obj_type err_result \<noteq> GG_TYPE_MAP then (GG_ERR_PARSE, s)
          else
     (let pairs = snd (gg_obj_into_map err_result) in
      case gg_map_validate pairs
             [\<lparr>sch_key = GG_STR ''_errorCode'', sch_required = GG_REQUIRED, sch_type = GG_TYPE_BUF\<rparr>,
              \<lparr>sch_key = GG_STR ''_message'', sch_required = GG_OPTIONAL, sch_type = GG_TYPE_BUF\<rparr>] of
        (ret, objs) \<Rightarrow>
          if ret \<noteq> GG_ERR_OK then (ret, s)
          else
     (let error_code = gg_obj_into_buf (snd (pairs ! the (objs ! 0)));
          message = (case objs ! 1 of None \<Rightarrow> GG_STR '''' | Some i \<Rightarrow> gg_obj_into_buf (snd (pairs ! i)))
      in case error_cb env callback response_ctx error_code message s of
           (ret, s) \<Rightarrow> (if ret = GG_ERR_OK then GG_ERR_REMOTE else ret, s)))))"

definition pass_response_to_user_callback ::
  "'w ipc_env \<Rightarrow> EventStreamCommonHeaders \<Rightarrow> EventStreamMessage \<Rightarrow> ptr option \<Rightarrow> ptr option \<Rightarrow> ptr \<Rightarrow>
   'w ipc \<Rightarrow> GgError \<times> 'w ipc" where
  "pass_response_to_user_callback env common_headers msg result_callback error_callback response_ctx s =
     (if ch_message_type common_headers = EVENTSTREAM_APPLICATION_ERROR
      then handle_application_error env msg error_callback response_ctx s
      else if ch_message_type common_headers \<noteq> EVENTSTREAM_APPLICATION_MESSAGE then (GG_ERR_FAILURE, s)
      else
     (case result_callback of
        None \<Rightarrow> (GG_ERR_OK, s)
      | Some callback \<Rightarrow>
     (case json_payload env (world s) msg of
        Inl ret \<Rightarrow> (ret, s)
      | Inr result \<Rightarrow>
          if gg_obj_type result \<noteq> GG_TYPE_MAP then (GG_ERR_FAILURE, s)
          else result_cb env callback response_ctx (gg_obj_into_map result) s)))"

definition response_handler_inner ::
  "'w ipc_env \<Rightarrow> nat \<Rightarrow> ResponseHandlerCtx \<Rightarrow> EventStreamCommonHeaders \<Rightarrow> EventStreamMessage \<Rightarrow> 'w ipc \<Rightarrow> GgError \<times> 'w ipc" where
  "response_handler_inner env idx call_ctx common_headers msg s =
     (let terminate = ch_message_flags common_headers AND EVENTSTREAM_TERMINATE_STREAM \<noteq> 0 in
      case pass_response_to_user_callback env common_headers msg (rc_result_callback call_ctx) (rc_error_callback call_ctx)
             (rc_response_ctx call_ctx) s of
        (ret, s) \<Rightarrow>
          if ret \<noteq> GG_ERR_OK
          then (ret, if \<not> terminate then close_stream env idx s else clear_stream_index idx s)
          else
            (GG_ERR_OK,
             if terminate then clear_stream_index idx s
             else if rc_sub_callback call_ctx = None then close_stream env idx s
             else set_stream_index idx (ch_stream_id common_headers)
                    \<lparr>sh_fn = rc_sub_callback call_ctx, sh_ctx = rc_sub_callback_ctx call_ctx,
                     sh_aux_ctx = rc_sub_callback_aux_ctx call_ctx\<rparr> s))"

definition response_handler ::
  "'w ipc_env \<Rightarrow> nat \<Rightarrow> ptr \<Rightarrow> EventStreamCommonHeaders \<Rightarrow> EventStreamMessage \<Rightarrow> 'w ipc \<Rightarrow> 'w ipc option" where
  "response_handler env idx p common_headers msg s =
     Option.bind (calls s p) (\<lambda>call_ctx.
     case response_handler_inner env idx call_ctx common_headers msg s of
       (ret, s) \<Rightarrow>
         map_option (\<lambda>call_ctx. s\<lparr>calls := (calls s)(p \<mapsto> call_ctx\<lparr>rc_ret := ret, rc_ready := True\<rparr>)\<rparr>) (calls s p))"

section \<open>Requests\<close>

record ipc_request =
  rq_operation :: GgBuffer
  rq_service_model_type :: GgBuffer
  rq_params :: GgMap
  rq_result_callback :: "ptr option"
  rq_error_callback :: "ptr option"
  rq_response_ctx :: ptr
  rq_sub_callback :: "ptr option"
  rq_sub_callback_ctx :: ptr
  rq_sub_callback_aux_ctx :: ptr

definition call_frame :: "ipc_request \<Rightarrow> nat \<Rightarrow> ResponseHandlerCtx" where
  "call_frame rq idx =
     \<lparr>rc_ready = False, rc_ret = GG_ERR_TIMEOUT, rc_result_callback = rq_result_callback rq,
      rc_error_callback = rq_error_callback rq, rc_response_ctx = rq_response_ctx rq, rc_sub_callback = rq_sub_callback rq,
      rc_sub_callback_ctx = rq_sub_callback_ctx rq, rc_sub_callback_aux_ctx = rq_sub_callback_aux_ctx rq,
      rc_stream_index = idx\<rparr>"

definition request_headers :: "ipc_request \<Rightarrow> u32 \<Rightarrow> EventStreamHeader list" where
  "request_headers rq stream_id =
     [int32_header '':message-type'' EVENTSTREAM_APPLICATION_MESSAGE, int32_header '':message-flags'' 0,
      int32_header '':stream-id'' stream_id, string_header ''operation'' (rq_operation rq),
      string_header ''service-model-type'' (rq_service_model_type rq)]"

definition ggipc_subscribe_send ::
  "'w ipc_env \<Rightarrow> bool \<Rightarrow> ipc_request \<Rightarrow> ptr \<Rightarrow> 'w ipc \<Rightarrow> GgError option \<times> u32 option \<times> 'w ipc" where
  \<comment> \<open>\<open>ggipc_subscribe\<close> up to the wait: the value returned at once (\<open>None\<close>: it waits), what is written
     to \<open>*sub_handle\<close>, the state. The flag says whether it runs on the receive thread; \<open>p\<close> is the
     address of \<open>response_handler_ctx\<close>\<close>
  "ggipc_subscribe_send env on_recv_thread rq p s =
     (if \<not> connected s then (Some GG_ERR_NOCONN, None, s)
      else if on_recv_thread then (Some GG_ERR_INVALID, None, s)
      else
     (case claim_stream_index s of
        None \<Rightarrow> (Some GG_ERR_NOMEM, None, s)
      | Some (stream_index, s) \<Rightarrow>
     (let stream_id = next_stream_id s;
          s = s\<lparr>next_stream_id := stream_id + 1, calls := (calls s)(p \<mapsto> call_frame rq stream_index)\<rparr>;
          s = set_stream_index stream_index stream_id \<lparr>sh_fn = None, sh_ctx = p, sh_aux_ctx = 0\<rparr> s;
          sub_handle = get_current_handle s stream_index
      in case ipc_send_packet env (ipc_conn_fd s) (request_headers rq stream_id)
                (gg_json_reader (f64_text env) (gg_obj_map (rq_params rq))) (world s) of
           (ret, w) \<Rightarrow>
             (let s = s\<lparr>world := w\<rparr>
              in if ret \<noteq> GG_ERR_OK
                 then (Some ret, Some sub_handle, (clear_stream_index stream_index s)\<lparr>calls := (calls s)(p := None)\<rparr>)
                 else (None, Some sub_handle, s)))))"

definition ggipc_subscribe_ready :: "ptr \<Rightarrow> 'w ipc \<Rightarrow> (GgError \<times> 'w ipc) option" where
  \<comment> \<open>the loop is left because \<open>ready\<close> is set; the frame is gone afterwards. \<open>None\<close>: keeps waiting\<close>
  "ggipc_subscribe_ready p s =
     (case calls s p of
        Some call_ctx \<Rightarrow> if rc_ready call_ctx then Some (rc_ret call_ctx, s\<lparr>calls := (calls s)(p := None)\<rparr>) else None
      | None \<Rightarrow> None)"

definition ggipc_subscribe_timeout :: "'w ipc_env \<Rightarrow> ptr \<Rightarrow> 'w ipc \<Rightarrow> (GgError \<times> 'w ipc) option" where
  \<comment> \<open>\<open>pthread_cond_timedwait\<close> has returned \<open>ETIMEDOUT\<close>: \<open>ready\<close> is not looked at again\<close>
  "ggipc_subscribe_timeout env p s =
     (case calls s p of
        Some call_ctx \<Rightarrow>
          (let s = close_stream env (rc_stream_index call_ctx) s in Some (GG_ERR_TIMEOUT, s\<lparr>calls := (calls s)(p := None)\<rparr>))
      | None \<Rightarrow> None)"

definition ggipc_call ::
  "'w ipc_env \<Rightarrow> bool \<Rightarrow> ipc_request \<Rightarrow> ptr \<Rightarrow> 'w ipc \<Rightarrow> GgError option \<times> u32 option \<times> 'w ipc" where
  \<comment> \<open>a subscription without callback\<close>
  "ggipc_call env on_recv_thread rq p s =
     ggipc_subscribe_send env on_recv_thread
       (rq\<lparr>rq_sub_callback := None, rq_sub_callback_ctx := 0, rq_sub_callback_aux_ctx := 0\<rparr>) p s"

section \<open>Receiving\<close>

function (sequential) sub_headers_loop :: "EventStreamHeaderIter \<Rightarrow> GgBuffer \<Rightarrow> GgBuffer \<Rightarrow> (GgBuffer \<times> GgBuffer) res option" where
  \<comment> \<open>the values of the headers \<open>service-model-type\<close> and \<open>:content-type\<close>\<close>
  "sub_headers_loop it service_model_type content_type =
     (case eventstream_header_next it of
        None \<Rightarrow> None
      | Some (Inl _) \<Rightarrow> Some (Inr (service_model_type, content_type))
      | Some (Inr (header, it')) \<Rightarrow>
          if gg_buffer_eq (hdr_name header) (GG_STR ''service-model-type'') then
            (case hdr_value header of
               EVENTSTREAM_STRING str \<Rightarrow> sub_headers_loop it' str content_type
             | _ \<Rightarrow> Some (Inl GG_ERR_INVALID))
          else if gg_buffer_eq (hdr_name header) (GG_STR '':content-type'') then
            (case hdr_value header of
               EVENTSTREAM_STRING str \<Rightarrow> sub_headers_loop it' service_model_type str
             | _ \<Rightarrow> Some (Inl GG_ERR_INVALID))
          else sub_headers_loop it' service_model_type content_type)"
  by pat_completeness auto
termination
  by (relation "measure (\<lambda>(it, _, _). unat (iter_count it))") (auto dest!: header_next_count intro!: unat_dec)

declare sub_headers_loop.simps [simp del]

definition call_sub_callback ::
  "'w ipc_env \<Rightarrow> u32 \<Rightarrow> ptr \<Rightarrow> ptr \<Rightarrow> ptr \<Rightarrow> EventStreamCommonHeaders \<Rightarrow> EventStreamMessage \<Rightarrow> 'w ipc \<Rightarrow> (GgError \<times> 'w ipc) option" where
  "call_sub_callback env handle sub_callback sub_callback_ctx sub_callback_aux_ctx common_headers msg s =
     (if ch_message_type common_headers \<noteq> EVENTSTREAM_APPLICATION_MESSAGE then Some (GG_ERR_FAILURE, s)
      else
        map_option (\<lambda>hdrs.
          case hdrs of
            Inl ret \<Rightarrow> (ret, s)
          | Inr (service_model_type, content_type) \<Rightarrow>
              if \<not> gg_buffer_eq content_type (GG_STR ''application/json'') then (GG_ERR_INVALID, s)
              else
                (case json_payload env (world s) msg of
                   Inl ret \<Rightarrow> if ret = GG_ERR_NOMEM then (GG_ERR_OK, s) else (ret, s)
                 | Inr response \<Rightarrow>
                     if gg_obj_type response \<noteq> GG_TYPE_MAP then (GG_ERR_INVALID, s)
                     else sub_cb env sub_callback sub_callback_ctx sub_callback_aux_ctx handle service_model_type
                            (gg_obj_into_map response) s))
          (sub_headers_loop (msg_headers msg) (GG_STR '''') (GG_STR '''')))"

definition dispatch_message ::
  "'w ipc_env \<Rightarrow> EventStreamCommonHeaders \<Rightarrow> EventStreamMessage \<Rightarrow> 'w ipc \<Rightarrow> (GgError \<times> 'w ipc) option" where
  \<comment> \<open>\<open>dispatch_incoming_packet\<close> behind the reading of the headers\<close>
  "dispatch_message env common_headers msg s =
     (let stream_id = ch_stream_id common_headers in
      if sint stream_id < 0 then Some (GG_ERR_FAILURE, s)
      else
     (case get_stream_index_from_id s stream_id of
        None \<Rightarrow> Some (GG_ERR_OK, s)
      | Some idx \<Rightarrow>
     (let handler = stream_state_handler s ! idx in
      case sh_fn handler of
        None \<Rightarrow> map_option (\<lambda>s. (GG_ERR_OK, s)) (response_handler env idx (sh_ctx handler) common_headers msg s)
      | Some callback \<Rightarrow>
          map_option (\<lambda>(sub_ret, s).
            (GG_ERR_OK,
             if ch_message_flags common_headers AND EVENTSTREAM_TERMINATE_STREAM \<noteq> 0 then clear_stream_index idx s
             else if sub_ret \<noteq> GG_ERR_OK then close_stream env idx s
             else s))
            (call_sub_callback env (get_current_handle s idx) callback (sh_ctx handler) (sh_aux_ctx handler) common_headers msg s))))"

definition dispatch_incoming_packet :: "'w ipc_env \<Rightarrow> int \<Rightarrow> 'w ipc \<Rightarrow> (GgError \<times> 'w ipc) option" where
  \<comment> \<open>\<open>None\<close>: the iteration over the headers leaves the packet, or a pointer to a frame that is gone is followed\<close>
  "dispatch_incoming_packet env conn s =
     (case eventsteam_get_packet (sock_reader env conn) (world s) (recv_buffer env) of
        (Inl ret, w) \<Rightarrow> Some (ret, s\<lparr>world := w\<rparr>)
      | (Inr msg, w) \<Rightarrow>
          Option.bind (eventstream_get_common_headers msg) (\<lambda>res.
          case res of
            Inl ret \<Rightarrow> Some (ret, s\<lparr>world := w\<rparr>)
          | Inr common_headers \<Rightarrow> dispatch_message env common_headers msg (s\<lparr>world := w\<rparr>)))"

definition data_ready_callback :: "'w ipc_env \<Rightarrow> 'w ipc \<Rightarrow> (GgError \<times> 'w ipc) option" where
  "data_ready_callback env s =
     map_option (\<lambda>(ret, s).
       (ret, if ret \<noteq> GG_ERR_OK then s\<lparr>world := sock_close env (ipc_conn_fd s) (world s)\<rparr> else s))
       (dispatch_incoming_packet env (ipc_conn_fd s) s)"

definition ggipc_close_subscription :: "'w ipc_env \<Rightarrow> u32 \<Rightarrow> 'w ipc \<Rightarrow> 'w ipc" where
  "ggipc_close_subscription env handle s =
     (case validate_handle s handle of Inl _ \<Rightarrow> s | Inr idx \<Rightarrow> close_stream env idx s)"

end
