(* ===== verification/Ipc_Streams.thy ===== *)
theory Ipc_Streams
  imports Ipc_Client
begin

text \<open>
  Correctness of the stream table of \<open>Ipc_Client\<close> under every interleaving of its critical sections.

  \<^item> Handles: exactly the current handle of a slot is accepted for it.
  \<^item> \<open>ipc_inv\<close>, the invariant of the table and of the frames of waiting calls, and the step relation
    \<open>ipc_step\<close>. Callbacks are constrained by the locale \<open>callbacks\<close>: what they do to the client is a
    sequence of \<open>ggipc_close_subscription\<close> calls.
  \<^item> No dangling pointer is ever followed, and the iteration over the headers of a packet stays inside it.
  \<^item> The table as a map from stream ids to owners, with at most 16 entries, and the effect of every
    operation on this map.

  The properties that rest on these lemmas are in \<open>Ipc_Properties\<close>.
\<close>

section \<open>Handles\<close>

lemma and_FFFF: "w AND 0xFFFF = take_bit 16 (w :: 'a::len word)"
  by (simp add: take_bit_eq_mask mask_eq_exp_minus_1)

lemma handle_low: "(ucast ((push_bit 16 (ucast (g :: u16) :: u32) OR of_nat j) AND 0xFFFF) :: u16) = of_nat j"
  unfolding and_FFFF by (rule bit_word_eqI) (auto simp: bit_simps)

lemma handle_high:
  assumes "j < 65536"
  shows "(ucast (drop_bit 16 (push_bit 16 (ucast (g :: u16) :: u32) OR of_nat j)) :: u16) = g"
proof -
  have "\<not> bit j (16 + n)" for n
    using assms bit_take_bit_iff [of 16 j "16 + n"] take_bit_nat_eq_self [of j 16] by auto
  then show ?thesis by (auto intro!: bit_word_eqI simp: bit_simps)
qed

lemma handle_parts: "(h :: u32) = push_bit 16 (ucast (ucast (drop_bit 16 h) :: u16)) OR (ucast (ucast (h AND 0xFFFF) :: u16))"
  unfolding and_FFFF by (rule bit_word_eqI) (auto simp: bit_simps)

lemma of_nat_Suc_16: "i < 16 \<Longrightarrow> unat ((of_nat (Suc i) :: u16) - 1) = i"
  by (simp add: unat_of_nat)

lemma validate_handle_iff:
  "validate_handle s h = Inr i \<longleftrightarrow> i < GG_IPC_MAX_STREAMS \<and> h = get_current_handle s i"
proof
  assume *: "i < GG_IPC_MAX_STREAMS \<and> h = get_current_handle s i"
  then have h: "h = push_bit 16 (ucast (stream_state_generation s ! i)) OR of_nat (Suc i)" and i: "i < 16"
    by (simp_all add: get_current_handle_def add.commute GG_IPC_MAX_STREAMS_def)
  then show "validate_handle s h = Inr i" 
    using handle_low [of "stream_state_generation s ! i" "Suc i"] handle_high [of "Suc i" "stream_state_generation s ! i"] of_nat_Suc_16 [OF i]
    by (simp add: validate_handle_def Let_def GG_IPC_MAX_STREAMS_def del: of_nat_Suc)
next
  define l where "l = (ucast (h AND 0xFFFF) :: u16)"
  assume *: "validate_handle s h = Inr i"
  then have i: "i = unat (l - 1)" "i < 16" "ucast (drop_bit 16 h) = stream_state_generation s ! i"
    by (auto simp: validate_handle_def Let_def GG_IPC_MAX_STREAMS_def l_def split: if_splits)
  have "l = of_nat i + 1" unfolding i(1) by simp
  then have "unat (ucast l :: u32) = unat (of_nat i + 1 :: u32)" using i(2)
    by (simp add: unsigned_ucast_eq unat_word_ariths unat_of_nat take_bit_nat_def)
  then have "(ucast l :: u32) = of_nat i + 1" by (rule unat_eq [THEN iffD1])
  then show "i < GG_IPC_MAX_STREAMS \<and> h = get_current_handle s i"
    using i handle_parts [of h] by (simp add: get_current_handle_def l_def GG_IPC_MAX_STREAMS_def)
qed

section \<open>The invariant\<close>

definition pending :: "'w ipc \<Rightarrow> nat \<Rightarrow> ptr \<Rightarrow> bool" where
  \<comment> \<open>slot \<open>i\<close> waits for a response on behalf of the call with frame \<open>p\<close>\<close>
  "pending s i p \<longleftrightarrow> stream_state_id s ! i \<noteq> 0 \<and> sh_fn (stream_state_handler s ! i) = None \<and> sh_ctx (stream_state_handler s ! i) = p"

definition slot_ok :: "'w ipc \<Rightarrow> nat \<Rightarrow> bool" where
  "slot_ok s i \<longleftrightarrow>
     (stream_state_id s ! i = 0 \<longrightarrow> stream_state_handler s ! i = no_handler) \<and>
     (stream_state_id s ! i \<noteq> 0 \<longrightarrow> 0 < sint (stream_state_id s ! i) \<and> sint (stream_state_id s ! i) < sint (next_stream_id s)) \<and>
     (\<forall>p. pending s i p \<longrightarrow> (\<exists>f. calls s p = Some f \<and> \<not> rc_ready f \<and> rc_stream_index f = i))"

definition table_ok :: "'w ipc \<Rightarrow> bool" where
  "table_ok s \<longleftrightarrow>
     length (stream_state_id s) = GG_IPC_MAX_STREAMS \<and> length (stream_state_generation s) = GG_IPC_MAX_STREAMS \<and>
     length (stream_state_handler s) = GG_IPC_MAX_STREAMS \<and> 0 < sint (next_stream_id s)"

definition ipc_inv :: "'w ipc \<Rightarrow> bool" where
  \<comment> \<open>ids in use are positive, distinct and older than the next id; a slot that waits for a response
     points to the frame of a call that is still waiting and that knows the slot\<close>
  "ipc_inv s \<longleftrightarrow>
     table_ok s \<and> (\<forall>i < GG_IPC_MAX_STREAMS. slot_ok s i) \<and>
     (\<forall>i < GG_IPC_MAX_STREAMS. \<forall>j < GG_IPC_MAX_STREAMS.
        stream_state_id s ! i = stream_state_id s ! j \<longrightarrow> stream_state_id s ! i \<noteq> 0 \<longrightarrow> i = j) \<and>
     (\<forall>p f. calls s p = Some f \<longrightarrow> rc_stream_index f < GG_IPC_MAX_STREAMS)"

lemma ipc_inv_world [simp]: "ipc_inv (s\<lparr>world := w\<rparr>) = ipc_inv s"
  by (simp add: ipc_inv_def table_ok_def slot_ok_def pending_def)

lemma ipc_inv_conn [simp]: "ipc_inv (s\<lparr>ipc_conn_fd := c\<rparr>) = ipc_inv s"
  by (simp add: ipc_inv_def table_ok_def slot_ok_def pending_def)

lemma ipc_inv_init: "ipc_inv (ipc_init w)"
  by (auto simp: ipc_inv_def table_ok_def slot_ok_def pending_def ipc_init_def)

lemma ipc_invD:
  assumes "ipc_inv s"
  shows "table_ok s" "i < GG_IPC_MAX_STREAMS \<Longrightarrow> slot_ok s i"
    "i < GG_IPC_MAX_STREAMS \<Longrightarrow> j < GG_IPC_MAX_STREAMS \<Longrightarrow> stream_state_id s ! i = stream_state_id s ! j \<Longrightarrow>
       stream_state_id s ! i \<noteq> 0 \<Longrightarrow> i = j"
    "calls s p = Some f \<Longrightarrow> rc_stream_index f < GG_IPC_MAX_STREAMS"
  using assms unfolding ipc_inv_def by blast+

lemma table_okD:
  assumes "table_ok s"
  shows "length (stream_state_id s) = GG_IPC_MAX_STREAMS" "length (stream_state_generation s) = GG_IPC_MAX_STREAMS"
    "length (stream_state_handler s) = GG_IPC_MAX_STREAMS" "0 < sint (next_stream_id s)"
  using assms unfolding table_ok_def by blast+

lemma pending_frame:
  assumes "ipc_inv s" "i < GG_IPC_MAX_STREAMS" "pending s i p"
  obtains f where "calls s p = Some f" "\<not> rc_ready f" "rc_stream_index f = i"
  using ipc_invD(2) [OF assms(1,2)] assms(3) unfolding slot_ok_def by blast

text \<open>Changing one slot, or the frames.\<close>

definition put_slot :: "nat \<Rightarrow> u32 \<Rightarrow> StreamHandler \<Rightarrow> u16 \<Rightarrow> 'w ipc \<Rightarrow> 'w ipc" where
  "put_slot i ident hdl gen s =
     s\<lparr>stream_state_id := (stream_state_id s)[i := ident], stream_state_handler := (stream_state_handler s)[i := hdl],
       stream_state_generation := (stream_state_generation s)[i := gen]\<rparr>"

lemma clear_put_slot: "clear_stream_index i s = put_slot i 0 no_handler (stream_state_generation s ! i + 1) s"
  by (simp add: clear_stream_index_def put_slot_def)

lemma set_put_slot:
  "i < length (stream_state_generation s) \<Longrightarrow> set_stream_index i ident hdl s = put_slot i ident hdl (stream_state_generation s ! i) s"
  by (simp add: set_stream_index_def put_slot_def)

lemma put_slot_simps [simp]:
  "calls (put_slot i ident hdl gen s) = calls s" "next_stream_id (put_slot i ident hdl gen s) = next_stream_id s"
  "ipc_conn_fd (put_slot i ident hdl gen s) = ipc_conn_fd s" "world (put_slot i ident hdl gen s) = world s"
  "stream_state_id (put_slot i ident hdl gen s) = (stream_state_id s)[i := ident]"
  "stream_state_handler (put_slot i ident hdl gen s) = (stream_state_handler s)[i := hdl]"
  "stream_state_generation (put_slot i ident hdl gen s) = (stream_state_generation s)[i := gen]"
  by (simp_all add: put_slot_def)

lemma put_slot_table [simp]: "table_ok (put_slot i ident hdl gen s) = table_ok s"
  by (simp add: table_ok_def)

lemma ipc_inv_put_slot:
  assumes inv: "ipc_inv s" and i: "i < GG_IPC_MAX_STREAMS"
    and free: "ident = 0 \<Longrightarrow> hdl = no_handler"
    and used: "ident \<noteq> 0 \<Longrightarrow> 0 < sint ident \<and> sint ident < sint (next_stream_id s)"
    and fresh: "\<And>j. ident \<noteq> 0 \<Longrightarrow> j < GG_IPC_MAX_STREAMS \<Longrightarrow> j \<noteq> i \<Longrightarrow> stream_state_id s ! j \<noteq> ident"
    and frame: "ident \<noteq> 0 \<Longrightarrow> sh_fn hdl = None \<Longrightarrow> \<exists>f. calls s (sh_ctx hdl) = Some f \<and> \<not> rc_ready f \<and> rc_stream_index f = i"
  shows "ipc_inv (put_slot i ident hdl gen s)"
proof -
  let ?s = "put_slot i ident hdl gen s"
  note tab = table_okD [OF ipc_invD(1) [OF inv]]
  have "slot_ok ?s j" if "j < GG_IPC_MAX_STREAMS" for j
    using ipc_invD(2) [OF inv that] free used frame i tab
    by (cases "j = i") (auto simp: slot_ok_def pending_def)
  moreover have "stream_state_id ?s ! j = stream_state_id ?s ! k \<longrightarrow> stream_state_id ?s ! j \<noteq> 0 \<longrightarrow> j = k"
    if "j < GG_IPC_MAX_STREAMS" "k < GG_IPC_MAX_STREAMS" for j k
    using ipc_invD(3) [OF inv that] fresh i tab that
    by (cases "j = i"; cases "k = i") auto
  ultimately show ?thesis using ipc_invD(1,4) [OF inv] by (auto simp: ipc_inv_def)
qed

lemma ipc_inv_clear: "ipc_inv s \<Longrightarrow> i < GG_IPC_MAX_STREAMS \<Longrightarrow> ipc_inv (clear_stream_index i s)"
  unfolding clear_put_slot by (rule ipc_inv_put_slot) auto

lemma ipc_inv_close_stream: "ipc_inv s \<Longrightarrow> i < GG_IPC_MAX_STREAMS \<Longrightarrow> ipc_inv (close_stream env i s)"
  by (simp add: close_stream_def Let_def ipc_inv_clear)

lemma ipc_inv_frames:
  assumes inv: "ipc_inv s"
    and "\<And>i q. i < GG_IPC_MAX_STREAMS \<Longrightarrow> pending s i q \<Longrightarrow> fs q = calls s q"
    and "\<And>q f. fs q = Some f \<Longrightarrow> rc_stream_index f < GG_IPC_MAX_STREAMS"
  shows "ipc_inv (s\<lparr>calls := fs\<rparr>)"
proof -
  have "slot_ok (s\<lparr>calls := fs\<rparr>) i" if "i < GG_IPC_MAX_STREAMS" for i
    using ipc_invD(2) [OF inv that] assms(2) [OF that] by (auto simp: slot_ok_def pending_def)
  then show ?thesis using ipc_invD(1,3) [OF inv] assms(3) by (auto simp: ipc_inv_def table_ok_def)
qed

section \<open>What callbacks may do\<close>

inductive user_run :: "'w ipc_env \<Rightarrow> 'w ipc \<Rightarrow> 'w ipc \<Rightarrow> bool" for env where
  user_done: "user_run env s s"
| user_close: "user_run env s s' \<Longrightarrow> user_run env s (ggipc_close_subscription env h s')"
| user_world: "user_run env s s' \<Longrightarrow> user_run env s (s'\<lparr>world := w\<rparr>)"

lemma close_stream_simps [simp]:
  "calls (close_stream env i s) = calls s" "next_stream_id (close_stream env i s) = next_stream_id s"
  "ipc_conn_fd (close_stream env i s) = ipc_conn_fd s"
  "stream_state_id (close_stream env i s) = (stream_state_id s)[i := 0]"
  "stream_state_handler (close_stream env i s) = (stream_state_handler s)[i := no_handler]"
  "stream_state_generation (close_stream env i s) = (stream_state_generation s)[i := stream_state_generation s ! i + 1]"
  by (simp_all add: close_stream_def Let_def clear_put_slot)

lemma clear_stream_index_simps [simp]:
  "calls (clear_stream_index i s) = calls s" "next_stream_id (clear_stream_index i s) = next_stream_id s"
  "ipc_conn_fd (clear_stream_index i s) = ipc_conn_fd s"
  "stream_state_id (clear_stream_index i s) = (stream_state_id s)[i := 0]"
  "stream_state_handler (clear_stream_index i s) = (stream_state_handler s)[i := no_handler]"
  by (simp_all add: clear_put_slot)

lemma close_subscription_cases:
  obtains "ggipc_close_subscription env h s = s"
  | i where "i < GG_IPC_MAX_STREAMS" "h = get_current_handle s i" "ggipc_close_subscription env h s = close_stream env i s"
proof (cases "validate_handle s h")
  case (Inr i)
  then show ?thesis using that(2) [of i] validate_handle_iff [of s h i] by (simp add: ggipc_close_subscription_def)
qed (use that(1) in \<open>simp add: ggipc_close_subscription_def\<close>)

lemma ipc_inv_close_subscription: "ipc_inv s \<Longrightarrow> ipc_inv (ggipc_close_subscription env h s)"
  by (rule close_subscription_cases [of env h s]) (simp_all add: ipc_inv_close_stream)

definition closes_only :: "'w ipc \<Rightarrow> 'w ipc \<Rightarrow> bool" where
  \<comment> \<open>some slots have been cleared, the rest of the table and the frames are as before\<close>
  "closes_only s s' \<longleftrightarrow>
     calls s' = calls s \<and> next_stream_id s' = next_stream_id s \<and> ipc_conn_fd s' = ipc_conn_fd s \<and>
     (\<forall>i < GG_IPC_MAX_STREAMS. stream_state_id s' ! i = 0 \<or>
        stream_state_id s' ! i = stream_state_id s ! i \<and> stream_state_handler s' ! i = stream_state_handler s ! i)"

lemma closes_only_refl [simp]: "closes_only s s" "closes_only s (s\<lparr>world := w\<rparr>)"
  by (simp_all add: closes_only_def)

lemma closes_only_trans: "closes_only s s1 \<Longrightarrow> closes_only s1 s2 \<Longrightarrow> closes_only s s2"
  unfolding closes_only_def by (intro conjI allI impI; metis)

lemma closes_only_close_stream: "table_ok s \<Longrightarrow> i < GG_IPC_MAX_STREAMS \<Longrightarrow> closes_only s (close_stream env i s)"
  unfolding closes_only_def table_ok_def by (auto simp: nth_list_update)

lemma user_run_facts:
  "user_run env s s' \<Longrightarrow> ipc_inv s \<Longrightarrow> ipc_inv s' \<and> closes_only s s'"
proof (induction rule: user_run.induct)
  case (user_close s s' h)
  then have "ipc_inv s'" "closes_only s s'" by simp_all
  moreover have "closes_only s' (ggipc_close_subscription env h s')"
    by (rule close_subscription_cases [of env h s'])
      (simp_all add: closes_only_close_stream ipc_invD(1) [OF \<open>ipc_inv s'\<close>])
  ultimately show ?case using ipc_inv_close_subscription closes_only_trans by blast
qed (auto intro: closes_only_trans)

locale callbacks =
  fixes env :: "'w ipc_env"
  assumes result_run: "user_run env s (snd (result_cb env f c m s))"
    and error_run: "user_run env s (snd (error_cb env f c code message s))"
    and sub_run: "user_run env s (snd (sub_cb env f c aux h smt m s))"
begin

lemma callback_runs:
  "result_cb env f c m s = (e, s') \<Longrightarrow> user_run env s s'"
  "error_cb env f c code message s = (e, s') \<Longrightarrow> user_run env s s'"
  "sub_cb env f c aux h smt m s = (e, s') \<Longrightarrow> user_run env s s'"
  using result_run [of s f c m] error_run [of s f c code message] sub_run [of s f c aux h smt m] by simp_all

lemma application_error_run: "handle_application_error env msg ecb c s = (e, s') \<Longrightarrow> user_run env s s'"
  by (auto simp: handle_application_error_def Let_def split: option.splits sum.splits prod.splits if_splits
      intro: user_done callback_runs(2))

lemma pass_response_run: "pass_response_to_user_callback env ch msg rcb ecb c s = (e, s') \<Longrightarrow> user_run env s s'"
  by (auto simp: pass_response_to_user_callback_def split: option.splits sum.splits if_splits
      intro: user_done callback_runs(1) application_error_run)

lemma sub_callback_run: "call_sub_callback env h f c aux ch msg s = Some (e, s') \<Longrightarrow> user_run env s s'"
  by (cases "sub_headers_loop (msg_headers msg) (GG_STR []) (GG_STR [])"; cases "json_payload env (world s) msg")
    (auto simp: call_sub_callback_def split: if_splits sum.splits prod.splits intro: user_done callback_runs(3))

end

section \<open>Sending keeps the invariant\<close>

lemma sint_Suc: "sint (n :: u32) < 2 ^ 31 - 1 \<Longrightarrow> sint (n + 1) = sint n + 1"
  using sint_greater_eq [of n] by (simp add: signed.order.strict_iff_order sint_word_ariths signed_take_bit_int_eq_self)

lemma find_upt: "List.find P [0..<n] = Some i \<longleftrightarrow> i < n \<and> P i \<and> (\<forall>j < i. \<not> P j)"
  by (auto simp: find_Some_iff)

lemma find_upt_None: "List.find P [0..<n] = None \<longleftrightarrow> (\<forall>j < n. \<not> P j)"
  by (auto simp: find_None_iff)

definition call_opened :: "ipc_request \<Rightarrow> ptr \<Rightarrow> nat \<Rightarrow> 'w ipc \<Rightarrow> 'w ipc" where
  \<comment> \<open>the state in which a request is sent\<close>
  "call_opened rq p i s =
     put_slot i (next_stream_id s) \<lparr>sh_fn = None, sh_ctx = p, sh_aux_ctx = 0\<rparr> (stream_state_generation s ! i + 1)
       (s\<lparr>next_stream_id := next_stream_id s + 1, calls := (calls s)(p \<mapsto> call_frame rq i)\<rparr>)"

lemma claim_stream_index_Some:
  "claim_stream_index s = Some (i, s') \<Longrightarrow>
     i < GG_IPC_MAX_STREAMS \<and> stream_state_id s ! i = 0 \<and> (\<forall>j < i. stream_state_id s ! j \<noteq> 0) \<and>
     s' = s\<lparr>stream_state_generation := (stream_state_generation s)[i := stream_state_generation s ! i + 1],
            stream_state_id := (stream_state_id s)[i := - 1]\<rparr>"
  by (auto simp: claim_stream_index_def find_upt split: option.splits)

lemma claim_stream_index_None: "claim_stream_index s = None \<longleftrightarrow> (\<forall>j < GG_IPC_MAX_STREAMS. stream_state_id s ! j \<noteq> 0)"
  unfolding claim_stream_index_def find_upt_None [symmetric] by (simp split: option.splits)

lemma subscribe_send_cases:
  assumes "table_ok s"
  obtains e where "ggipc_subscribe_send env b rq p s = (Some e, None, s)" "e \<in> {GG_ERR_NOCONN, GG_ERR_INVALID, GG_ERR_NOMEM}"
  | i e w where "i < GG_IPC_MAX_STREAMS" "stream_state_id s ! i = 0"
      "ggipc_subscribe_send env b rq p s =
         (Some e, Some (get_current_handle (call_opened rq p i s) i),
          (clear_stream_index i (call_opened rq p i s\<lparr>world := w\<rparr>))\<lparr>calls := (calls s)(p := None)\<rparr>)"
  | i w where "i < GG_IPC_MAX_STREAMS" "stream_state_id s ! i = 0"
      "ggipc_subscribe_send env b rq p s = (None, Some (get_current_handle (call_opened rq p i s) i), (call_opened rq p i s)\<lparr>world := w\<rparr>)"
proof -
  note tab = table_okD [OF assms]
  show thesis
  proof (cases "connected s \<and> \<not> b \<and> claim_stream_index s \<noteq> None")
    case False
    then consider "\<not> connected s" | "connected s" b | "connected s" "\<not> b" "claim_stream_index s = None" by blast
    then show ?thesis by cases (rule that(1), auto simp: ggipc_subscribe_send_def)+
  next
    case True
    then obtain i s1 where c: "claim_stream_index s = Some (i, s1)" by auto
    then have i: "i < GG_IPC_MAX_STREAMS" "stream_state_id s ! i = 0" by (auto dest: claim_stream_index_Some)
    have o: "set_stream_index i (next_stream_id s1) \<lparr>sh_fn = None, sh_ctx = p, sh_aux_ctx = 0\<rparr>
        (s1\<lparr>next_stream_id := next_stream_id s1 + 1, calls := (calls s1)(p \<mapsto> call_frame rq i)\<rparr>) = call_opened rq p i s"
      using claim_stream_index_Some [OF c] i tab by (auto simp: set_stream_index_def call_opened_def put_slot_def)
    obtain e w where e: "ipc_send_packet env (ipc_conn_fd (call_opened rq p i s)) (request_headers rq (next_stream_id s1))
        (gg_json_reader (f64_text env) (gg_obj_map (rq_params rq))) (world (call_opened rq p i s)) = (e, w)"
      by (meson surj_pair)
    have "(calls (call_opened rq p i s))(p := None) = (calls s)(p := None)" by (auto simp: call_opened_def)
    then show ?thesis using that(2) [OF i, of e w] that(3) [OF i, of w] True c
      by (cases "e = GG_ERR_OK") (auto simp: ggipc_subscribe_send_def o e Let_def)
  qed
qed

lemma ipc_inv_opened:
  assumes inv: "ipc_inv s" and i: "i < GG_IPC_MAX_STREAMS" "stream_state_id s ! i = 0" and p: "calls s p = None"
    and n: "sint (next_stream_id s) < 2 ^ 31 - 1"
  shows "ipc_inv (call_opened rq p i s)"
proof -
  let ?s = "s\<lparr>next_stream_id := next_stream_id s + 1, calls := (calls s)(p \<mapsto> call_frame rq i)\<rparr>"
  note tab = table_okD [OF ipc_invD(1) [OF inv]]
  have no_p: "\<not> pending s j p" if "j < GG_IPC_MAX_STREAMS" for j
    using pending_frame [OF inv that, of p] p by auto
  have "ipc_inv (s\<lparr>calls := (calls s)(p \<mapsto> call_frame rq i)\<rparr>)"
    using inv by (rule ipc_inv_frames) (use no_p ipc_invD(4) [OF inv] i in \<open>auto simp: call_frame_def split: if_splits\<close>)
  then have "ipc_inv ?s"
    unfolding ipc_inv_def table_ok_def slot_ok_def pending_def using sint_Suc [OF n] by simp fastforce
  then show ?thesis unfolding call_opened_def
  proof (rule ipc_inv_put_slot)
    fix j assume "j < GG_IPC_MAX_STREAMS"
    then show "stream_state_id ?s ! j \<noteq> next_stream_id s" using ipc_invD(2) [OF inv] tab(4) by (fastforce simp: slot_ok_def)
  qed (use i tab(4) sint_Suc [OF n] in \<open>auto simp: call_frame_def\<close>)
qed

lemma subscribe_send_inv:
  assumes inv: "ipc_inv s" and p: "calls s p = None" and n: "sint (next_stream_id s) < 2 ^ 31 - 1"
    and r: "ggipc_subscribe_send env b rq p s = (e, h, s')"
  shows "ipc_inv s'"
proof (rule subscribe_send_cases [OF ipc_invD(1) [OF inv], of env b rq p])
  fix i e' w
  assume i: "i < GG_IPC_MAX_STREAMS" "stream_state_id s ! i = 0" and
    "ggipc_subscribe_send env b rq p s = (Some e', Some (get_current_handle (call_opened rq p i s) i),
       (clear_stream_index i (call_opened rq p i s\<lparr>world := w\<rparr>))\<lparr>calls := (calls s)(p := None)\<rparr>)"
  then have s': "s' = (clear_stream_index i (call_opened rq p i s\<lparr>world := w\<rparr>))\<lparr>calls := (calls s)(p := None)\<rparr>" using r by simp
  let ?c = "clear_stream_index i (call_opened rq p i s\<lparr>world := w\<rparr>)"
  have c: "ipc_inv ?c" using ipc_inv_opened [OF inv i p n, of rq] i(1) by (simp add: ipc_inv_clear)
  show ?thesis unfolding s'
  proof (rule ipc_inv_frames [OF c])
    fix j q assume j: "j < GG_IPC_MAX_STREAMS" "pending ?c j q"
    obtain f where "calls ?c q = Some f" "rc_stream_index f = j" using pending_frame [OF c j] by blast
    moreover have "j \<noteq> i" using j i table_okD(1) [OF ipc_invD(1) [OF inv]] by (auto simp: pending_def call_opened_def)
    ultimately show "((calls s)(p := None)) q = calls ?c q" by (auto simp: call_opened_def call_frame_def split: if_splits)
  qed (use ipc_invD(4) [OF inv] in \<open>auto split: if_splits\<close>)
qed (use r inv ipc_inv_opened [OF inv _ _ p n] in auto)

section \<open>Receiving keeps the invariant\<close>

lemma sub_headers_loop_returns:
  "header_list n it = Some hs \<Longrightarrow> unat (iter_count it) = n \<Longrightarrow> sub_headers_loop it a b \<noteq> None"
proof (induction n arbitrary: it hs a b)
  case 0
  then have "eventstream_header_next it = Some (Inl GG_ERR_RANGE)" by (simp add: eventstream_header_next_def unat_eq_0)
  then show ?case by (subst sub_headers_loop.simps) simp
next
  case (Suc n)
  then obtain h it' hs' where h: "eventstream_header_next it = Some (Inr (h, it'))" "header_list n it' = Some hs'"
    by (auto split: option.splits sum.splits prod.splits)
  have "unat (iter_count it') = n" using header_next_count [OF h(1)] Suc.prems(2) by (simp add: unat_minus_one)
  note IH = Suc.IH [OF h(2) this]
  show ?case using IH by (subst sub_headers_loop.simps) (simp add: h(1) del: not_None_eq split: EventStreamHeaderValue.splits)
qed

lemma reader_exact_length: "gg_reader_call_exact rd w n = (Inr bs, w') \<Longrightarrow> length bs = n"
  by (auto simp: gg_reader_call_exact_def split: prod.splits sum.splits if_splits)

lemma packet_headers:
  assumes "eventsteam_get_packet rd w buf = (Inr msg, w')"
  shows "eventstream_get_common_headers msg \<noteq> None" "sub_headers_loop (msg_headers msg) a b \<noteq> None"
proof -
  let ?pre = "gg_buffer_substr buf 0 12"
  obtain bs w1 prelude ds where
    p: "eventstream_decode_prelude (?pre\<lparr>mem := bs\<rparr>) = Inr prelude" and
    l: "unat (pre_data_len prelude) \<le> len buf" and
    ds: "gg_reader_call_exact rd w1 (len (gg_buffer_substr buf 0 (unat (pre_data_len prelude)))) = (Inr ds, w')" and
    d: "eventstream_decode prelude ((gg_buffer_substr buf 0 (unat (pre_data_len prelude)))\<lparr>mem := ds\<rparr>) = Inr msg"
    using assms by (auto simp: eventsteam_get_packet_def Let_def split: prod.splits sum.splits if_splits)
  have "length ds = unat (pre_data_len prelude)" using reader_exact_length [OF ds] l by (simp add: gg_buffer_substr_def Let_def)
  then have "len ((gg_buffer_substr buf 0 (unat (pre_data_len prelude)))\<lparr>mem := ds\<rparr>) = unat (pre_data_len prelude)" by simp
  from eventstream_decode_in_bounds [OF p this d]
  show "eventstream_get_common_headers msg \<noteq> None" "sub_headers_loop (msg_headers msg) a b \<noteq> None"
    using sub_headers_loop_returns [of "unat (iter_count (msg_headers msg))" "msg_headers msg"] by fastforce+
qed

lemma get_stream_index_Some:
  "get_stream_index_from_id s ident = Some i \<Longrightarrow> i < GG_IPC_MAX_STREAMS \<and> stream_state_id s ! i = ident \<and> 0 < sint ident"
  by (auto simp: get_stream_index_from_id_def find_upt split: if_splits)

context callbacks
begin

lemma handler_inner_run:
  assumes inv: "ipc_inv s" and i: "i < GG_IPC_MAX_STREAMS" and "stream_state_id s ! i = ch_stream_id ch" "0 < sint (ch_stream_id ch)"
    and r: "response_handler_inner env i f ch msg s = (ret, s')"
  shows "ipc_inv s' \<and> calls s' = calls s \<and> (\<forall>q. \<not> pending s' i q) \<and>
    ret = fst (pass_response_to_user_callback env ch msg (rc_result_callback f) (rc_error_callback f) (rc_response_ctx f) s)"
proof -
  obtain e s1 where e: "pass_response_to_user_callback env ch msg (rc_result_callback f) (rc_error_callback f) (rc_response_ctx f) s = (e, s1)"
    by (meson surj_pair)
  have s1: "ipc_inv s1" "closes_only s s1" using user_run_facts [OF pass_response_run [OF e] inv] by auto
  note tab = table_okD [OF ipc_invD(1) [OF s1(1)]]
  let ?h = "\<lparr>sh_fn = rc_sub_callback f, sh_ctx = rc_sub_callback_ctx f, sh_aux_ctx = rc_sub_callback_aux_ctx f\<rparr>"
  have cleared: "ipc_inv s2 \<and> calls s2 = calls s \<and> (\<forall>q. \<not> pending s2 i q)"
    if "s2 = close_stream env i s1 \<or> s2 = clear_stream_index i s1" for s2
    using that ipc_inv_close_stream [OF s1(1) i] ipc_inv_clear [OF s1(1) i] s1(2) tab i
    by (auto simp: closes_only_def pending_def)
  have subscribed: "ipc_inv s2 \<and> calls s2 = calls s \<and> (\<forall>q. \<not> pending s2 i q)"
    if "s2 = set_stream_index i (ch_stream_id ch) ?h s1" "rc_sub_callback f \<noteq> None" for s2
  proof -
    have s2: "s2 = put_slot i (ch_stream_id ch) ?h (stream_state_generation s1 ! i) s1"
      using that(1) set_put_slot [of i s1] tab(2) i by simp
    have "ipc_inv s2" unfolding s2
    proof (rule ipc_inv_put_slot [OF s1(1) i])
      show "ch_stream_id ch \<noteq> 0 \<Longrightarrow> 0 < sint (ch_stream_id ch) \<and> sint (ch_stream_id ch) < sint (next_stream_id s1)"
        using ipc_invD(2) [OF inv i] assms(3,4) s1(2) by (auto simp: slot_ok_def closes_only_def)
      show "stream_state_id s1 ! j \<noteq> ch_stream_id ch" if "ch_stream_id ch \<noteq> 0" "j < GG_IPC_MAX_STREAMS" "j \<noteq> i" for j
        using ipc_invD(3) [OF inv that(2) i] that assms(3) s1(2) by (auto simp: closes_only_def)
    qed (use assms(4) that(2) in auto)
    then show ?thesis using s2 s1(2) tab i that(2) by (auto simp: closes_only_def pending_def)
  qed
  show ?thesis using r e cleared subscribed
    by (auto simp: response_handler_inner_def Let_def split: if_splits)
qed

lemma response_handler_returns:
  assumes inv: "ipc_inv s" and i: "i < GG_IPC_MAX_STREAMS" and id: "stream_state_id s ! i = ch_stream_id ch" "0 < sint (ch_stream_id ch)"
    and p: "pending s i p"
  obtains s' f where "response_handler env i p ch msg s = Some s'" "ipc_inv s'" "calls s p = Some f"
    "calls s' = (calls s)(p \<mapsto> f\<lparr>rc_ret := fst (pass_response_to_user_callback env ch msg (rc_result_callback f)
       (rc_error_callback f) (rc_response_ctx f) s), rc_ready := True\<rparr>)"
    "\<And>q. \<not> pending s' i q"
proof -
  obtain f where f: "calls s p = Some f" "\<not> rc_ready f" "rc_stream_index f = i" by (rule pending_frame [OF inv i p])
  obtain ret s1 where r: "response_handler_inner env i f ch msg s = (ret, s1)" by (meson surj_pair)
  note s1 = handler_inner_run [OF inv i id r]
  let ?fs = "(calls s)(p \<mapsto> f\<lparr>rc_ret := ret, rc_ready := True\<rparr>)"
  have "ipc_inv (s1\<lparr>calls := ?fs\<rparr>)"
  proof (rule ipc_inv_frames)
    fix j q assume j: "j < GG_IPC_MAX_STREAMS" "pending s1 j q"
    then obtain g where "calls s1 q = Some g" "rc_stream_index g = j" using s1 pending_frame by blast
    then show "?fs q = calls s1 q" using s1 j f by auto
  qed (use s1 ipc_invD(4) [OF inv] f in \<open>auto split: if_splits\<close>)
  then show thesis using that [of "s1\<lparr>calls := ?fs\<rparr>" f] r s1 f(1)
    unfolding pending_def by (simp add: response_handler_def)
qed

lemma dispatch_message_inv:
  assumes inv: "ipc_inv s" and "sub_headers_loop (msg_headers msg) (GG_STR []) (GG_STR []) \<noteq> None"
  obtains e s' where "dispatch_message env ch msg s = Some (e, s')" "ipc_inv s'"
proof (cases "sint (ch_stream_id ch) < 0 \<or> get_stream_index_from_id s (ch_stream_id ch) = None")
  case True
  then show ?thesis using that [of "if sint (ch_stream_id ch) < 0 then GG_ERR_FAILURE else GG_ERR_OK" s] inv
    by (auto simp: dispatch_message_def Let_def split: if_splits)
next
  case False
  then obtain i where i: "get_stream_index_from_id s (ch_stream_id ch) = Some i" by auto
  then have i': "i < GG_IPC_MAX_STREAMS" "stream_state_id s ! i = ch_stream_id ch" "0 < sint (ch_stream_id ch)"
    using get_stream_index_Some by blast+
  show ?thesis
  proof (cases "sh_fn (stream_state_handler s ! i)")
    case None
    then have "pending s i (sh_ctx (stream_state_handler s ! i))" using i' by (auto simp: pending_def)
    then obtain s' f where "response_handler env i (sh_ctx (stream_state_handler s ! i)) ch msg s = Some s'" "ipc_inv s'"
      by (rule response_handler_returns [OF inv i'])
    then show ?thesis using that [of GG_ERR_OK s'] i False None by (simp add: dispatch_message_def Let_def)
  next
    case (Some fn)
    have "call_sub_callback env (get_current_handle s i) fn (sh_ctx (stream_state_handler s ! i))
        (sh_aux_ctx (stream_state_handler s ! i)) ch msg s \<noteq> None"
      using assms(2) by (simp add: call_sub_callback_def del: not_None_eq)
    then obtain e s1 where c: "call_sub_callback env (get_current_handle s i) fn (sh_ctx (stream_state_handler s ! i))
        (sh_aux_ctx (stream_state_handler s ! i)) ch msg s = Some (e, s1)" by force
    have "ipc_inv s1" using user_run_facts [OF sub_callback_run [OF c] inv] by simp
    then show ?thesis using that i False Some c i'(1)
      by (auto simp: dispatch_message_def Let_def ipc_inv_clear ipc_inv_close_stream)
  qed
qed

lemma data_ready_inv:
  assumes "ipc_inv s"
  obtains e s' where "data_ready_callback env s = Some (e, s')" "ipc_inv s'"
proof -
  obtain m w where g: "eventsteam_get_packet (sock_reader env (ipc_conn_fd s)) (world s) (recv_buffer env) = (m, w)"
    by (meson surj_pair)
  have "\<exists>e s'. dispatch_incoming_packet env (ipc_conn_fd s) s = Some (e, s') \<and> ipc_inv s'"
  proof (cases m)
    case (Inl e)
    then show ?thesis using assms g by (simp add: dispatch_incoming_packet_def)
  next
    case (Inr msg)
    note hs = packet_headers [OF g [unfolded Inr]]
    then obtain r where r: "eventstream_get_common_headers msg = Some r" by auto
    show ?thesis
    proof (cases r)
      case (Inr ch)
      have "ipc_inv (s\<lparr>world := w\<rparr>)" using assms by simp
      then obtain e s' where "dispatch_message env ch msg (s\<lparr>world := w\<rparr>) = Some (e, s')" "ipc_inv s'"
        by (rule dispatch_message_inv [OF _ hs(2)])
      then show ?thesis using g \<open>m = _\<close> r Inr by (simp add: dispatch_incoming_packet_def)
    qed (use assms g \<open>m = _\<close> r in \<open>simp add: dispatch_incoming_packet_def\<close>)
  qed
  then obtain e s' where d: "dispatch_incoming_packet env (ipc_conn_fd s) s = Some (e, s')" "ipc_inv s'" by blast
  let ?s = "if e \<noteq> GG_ERR_OK then s'\<lparr>world := sock_close env (ipc_conn_fd s') (world s')\<rparr> else s'"
  have "data_ready_callback env s = Some (e, ?s)" "ipc_inv ?s"
    using d by (simp_all add: data_ready_callback_def)
  then show thesis by (rule that)
qed

end

section \<open>Executions\<close>

text \<open>
  The critical sections as events. A call of \<open>ggipc_subscribe\<close> is its frame, the handle it has stored
  (if a slot and with it a stream id was claimed) and the value it returned at once.
\<close>

datatype ipc_event =
    Send ptr "u32 option" "GgError option"
  | Ready ptr GgError
  | Timeout ptr
  | Receive GgError
  | Close u32
  | Connect GgError
  | Other

inductive ipc_step :: "'w ipc_env \<Rightarrow> ipc_event \<Rightarrow> 'w ipc \<Rightarrow> 'w ipc \<Rightarrow> bool" for env where
  \<comment> \<open>the frame of a new call does not overlap the frames of calls in progress\<close>
  step_send: "calls s p = None \<Longrightarrow> ggipc_subscribe_send env b rq p s = (e, h, s') \<Longrightarrow> ipc_step env (Send p h e) s s'"
| step_ready: "ggipc_subscribe_ready p s = Some (e, s') \<Longrightarrow> ipc_step env (Ready p e) s s'"
| step_timeout: "ggipc_subscribe_timeout env p s = Some (e, s') \<Longrightarrow> ipc_step env (Timeout p) s s'"
| step_receive: "data_ready_callback env s = Some (e, s') \<Longrightarrow> ipc_step env (Receive e) s s'"
| step_close: "ipc_step env (Close h) s (ggipc_close_subscription env h s)"
| step_connect: "ggipc_connect_with_payload env path pl s = Some (e, s') \<Longrightarrow> ipc_step env (Connect e) s s'"
| step_other: "ipc_step env Other s (s\<lparr>world := w\<rparr>)"

fun takes_id :: "ipc_event \<Rightarrow> bool" where
  "takes_id (Send p h e) = (h \<noteq> None)"
| "takes_id _ = False"

inductive runs :: "'w ipc_env \<Rightarrow> nat \<Rightarrow> 'w ipc \<Rightarrow> bool" for env where
  \<comment> \<open>an execution and the number of stream ids it has given out\<close>
  run_init: "runs env 0 (ipc_init w)"
| run_step: "runs env n s \<Longrightarrow> ipc_step env ev s s' \<Longrightarrow> runs env (if takes_id ev then Suc n else n) s'"

definition reachable :: "'w ipc_env \<Rightarrow> 'w ipc \<Rightarrow> bool" where
  \<comment> \<open>by an execution in which \<open>next_stream_id\<close>, an \<open>int32_t\<close>, has not overflowed: nothing in the code
     prevents it (\<open>stream_ids_overflow\<close> in \<open>Ipc_Properties\<close>)\<close>
  "reachable env s \<longleftrightarrow> (\<exists>n < 2 ^ 31 - 1. runs env n s)"

lemma ready_inv:
  assumes inv: "ipc_inv s" and r: "ggipc_subscribe_ready p s = Some (e, s')"
  shows "ipc_inv s'"
proof -
  obtain f where f: "calls s p = Some f" "rc_ready f" "s' = s\<lparr>calls := (calls s)(p := None)\<rparr>"
    using r by (auto simp: ggipc_subscribe_ready_def split: option.splits if_splits)
  show ?thesis unfolding f(3)
  proof (rule ipc_inv_frames [OF inv])
    fix i q assume "i < GG_IPC_MAX_STREAMS" "pending s i q"
    then obtain g where "calls s q = Some g" "\<not> rc_ready g" using pending_frame [OF inv] by blast
    then show "((calls s)(p := None)) q = calls s q" using f by auto
  qed (use ipc_invD(4) [OF inv] in \<open>auto split: if_splits\<close>)
qed

lemma timeout_inv:
  assumes inv: "ipc_inv s" and r: "ggipc_subscribe_timeout env p s = Some (e, s')"
  shows "ipc_inv s'"
proof -
  obtain f where f: "calls s p = Some f"
      "s' = (close_stream env (rc_stream_index f) s)\<lparr>calls := (calls s)(p := None)\<rparr>"
    using r by (auto simp: ggipc_subscribe_timeout_def Let_def split: option.splits)
  let ?c = "close_stream env (rc_stream_index f) s"
  have i: "rc_stream_index f < GG_IPC_MAX_STREAMS" using ipc_invD(4) [OF inv f(1)] .
  then have c: "ipc_inv ?c" by (rule ipc_inv_close_stream [OF inv])
  show ?thesis unfolding f(2)
  proof (rule ipc_inv_frames [OF c])
    fix j q assume j: "j < GG_IPC_MAX_STREAMS" "pending ?c j q"
    then obtain g where g: "calls s q = Some g" "rc_stream_index g = j" using pending_frame [OF c j] by auto
    have "j \<noteq> rc_stream_index f" using j table_okD(1) [OF ipc_invD(1) [OF inv]] by (auto simp: pending_def)
    then show "((calls s)(p := None)) q = calls ?c q" using f(1) g by auto
  qed (use ipc_invD(4) [OF inv] in \<open>auto split: if_splits\<close>)
qed

lemma connect_inv: "ipc_inv s \<Longrightarrow> ggipc_connect_with_payload env path pl s = Some (e, s') \<Longrightarrow> ipc_inv s'"
  by (auto simp: ggipc_connect_with_payload_def split: prod.splits sum.splits if_splits)

definition received :: "'w ipc_env \<Rightarrow> 'w ipc \<Rightarrow> (EventStreamCommonHeaders \<times> EventStreamMessage) option \<times> 'w" where
  \<comment> \<open>the next packet, if one can be read, and what reading it leaves\<close>
  "received env s =
     (case eventsteam_get_packet (sock_reader env (ipc_conn_fd s)) (world s) (recv_buffer env) of
        (Inl _, w) \<Rightarrow> (None, w)
      | (Inr msg, w) \<Rightarrow>
          (case eventstream_get_common_headers msg of Some (Inr ch) \<Rightarrow> Some (ch, msg) | _ \<Rightarrow> None, w))"

lemma data_ready_received:
  assumes "data_ready_callback env s = Some (e, s')"
  obtains w w' where "received env s = (None, w)" "s' = s\<lparr>world := w'\<rparr>"
  | w ch msg s1 w' where "received env s = (Some (ch, msg), w)" "dispatch_message env ch msg (s\<lparr>world := w\<rparr>) = Some (e, s1)"
      "s' = s1\<lparr>world := w'\<rparr>"
proof -
  obtain s1 w' where d: "dispatch_incoming_packet env (ipc_conn_fd s) s = Some (e, s1)" "s' = s1\<lparr>world := w'\<rparr>"
  proof -
    obtain s1 where "dispatch_incoming_packet env (ipc_conn_fd s) s = Some (e, s1)" "s' = s1 \<or> (\<exists>w. s' = s1\<lparr>world := w\<rparr>)"
      using assms by (auto simp: data_ready_callback_def split: if_splits)
    then show thesis using that [of s1 "world s'"] by auto
  qed
  obtain m w where g: "eventsteam_get_packet (sock_reader env (ipc_conn_fd s)) (world s) (recv_buffer env) = (m, w)"
    by (meson surj_pair)
  show thesis
  proof (cases m)
    case (Inl x)
    then show ?thesis using d g that(1) [of w w'] by (auto simp: dispatch_incoming_packet_def received_def)
  next
    case (Inr msg)
    obtain r where r: "eventstream_get_common_headers msg = Some r" using d(1) g Inr by (auto simp: dispatch_incoming_packet_def bind_eq_Some_conv)
    show ?thesis using d g Inr r that(1) [of w w'] that(2) [of _ msg w s1 w']
      by (cases r) (auto simp: dispatch_incoming_packet_def received_def)
  qed
qed

lemma send_next_id:
  assumes "table_ok s" "ggipc_subscribe_send env b rq p s = (e, h, s')"
  shows "next_stream_id s' = (if h = None then next_stream_id s else next_stream_id s + 1)"
  by (rule subscribe_send_cases [OF assms(1), of env b rq p]) (use assms(2) in \<open>auto simp: call_opened_def\<close>)

context callbacks
begin

lemma dispatch_message_next_id:
  assumes "ipc_inv s" "dispatch_message env ch msg s = Some (e, s')"
  shows "next_stream_id s' = next_stream_id s"
proof -
  have c: "next_stream_id s1 = next_stream_id s" if "user_run env s s1" for s1
    using user_run_facts [OF that assms(1)] by (simp add: closes_only_def)
  show ?thesis using assms(2)
    by (auto simp: dispatch_message_def response_handler_def response_handler_inner_def set_stream_index_def Let_def bind_eq_Some_conv
        dest!: c [OF pass_response_run] c [OF sub_callback_run] split: if_split_asm option.split_asm prod.split_asm)
qed

lemma data_ready_next_id:
  assumes "ipc_inv s" "data_ready_callback env s = Some (e, s')"
  shows "next_stream_id s' = next_stream_id s"
  using data_ready_received [OF assms(2)]
proof cases
  case (2 w ch msg s1 w')
  then show ?thesis using dispatch_message_next_id [of "s\<lparr>world := w\<rparr>"] assms(1) by auto
qed auto

lemma step_inv:
  assumes step: "ipc_step env ev s s'" and inv: "ipc_inv s" and id: "takes_id ev \<Longrightarrow> sint (next_stream_id s) < 2 ^ 31 - 1"
  shows "ipc_inv s' \<and> sint (next_stream_id s') = (if takes_id ev then sint (next_stream_id s) + 1 else sint (next_stream_id s))"
  using step
proof (cases rule: ipc_step.cases)
  case (step_send p b rq e h)
  have n: "next_stream_id s' = (if h = None then next_stream_id s else next_stream_id s + 1)"
    by (rule send_next_id [OF ipc_invD(1) [OF inv] step_send(3)])
  show ?thesis
  proof (cases h)
    case None
    then have "s' = s" using step_send(3) by (rule_tac subscribe_send_cases [OF ipc_invD(1) [OF inv], of env b rq p]) auto
    then show ?thesis using inv step_send(1) None by simp
  next
    case (Some h')
    then show ?thesis using n sint_Suc id subscribe_send_inv [OF inv step_send(2) _ step_send(3)] step_send(1) by simp
  qed
next
  case (step_receive e)
  obtain e' s'' where "data_ready_callback env s = Some (e', s'')" "ipc_inv s''" by (rule data_ready_inv [OF inv])
  then show ?thesis using step_receive data_ready_next_id [OF inv step_receive(2)] by simp
next
  case (step_ready p e)
  then show ?thesis using ready_inv [OF inv] by (auto simp: ggipc_subscribe_ready_def split: option.splits if_splits)
next
  case (step_timeout p e)
  then show ?thesis using timeout_inv [OF inv] by (auto simp: ggipc_subscribe_timeout_def Let_def split: option.splits)
next
  case (step_connect path pl e)
  then show ?thesis using connect_inv [OF inv]
    by (auto simp: ggipc_connect_with_payload_def split: prod.splits sum.splits if_splits)
next
  case (step_close h)
  moreover have "next_stream_id (ggipc_close_subscription env h s) = next_stream_id s"
    by (rule close_subscription_cases [of env h s]) simp_all
  ultimately show ?thesis using ipc_inv_close_subscription [OF inv] by simp
qed (use inv in simp_all)

lemma runs_inv: "runs env n s \<Longrightarrow> n < 2 ^ 31 - 1 \<Longrightarrow> ipc_inv s \<and> sint (next_stream_id s) = int n + 1"
proof (induction rule: runs.induct)
  case (run_step n s ev s')
  then have s: "ipc_inv s" "sint (next_stream_id s) = int n + 1" by (simp_all split: if_splits)
  have "ipc_inv s' \<and> sint (next_stream_id s') = (if takes_id ev then sint (next_stream_id s) + 1 else sint (next_stream_id s))"
    by (rule step_inv [OF run_step.hyps(2) s(1)]) (use run_step.prems s(2) in simp)
  then show ?case using s(2) by simp
qed (simp add: ipc_inv_init, simp add: ipc_init_def)

end

lemma reachable_inv: "callbacks env \<Longrightarrow> reachable env s \<Longrightarrow> ipc_inv s"
  using callbacks.runs_inv unfolding reachable_def by blast

lemma reach_init: "reachable env (ipc_init w)"
  unfolding reachable_def using run_init [of env w] by (intro exI [of _ 0]) simp

lemma reach_step:
  assumes "callbacks env" "reachable env s" "ipc_step env ev s s'" "takes_id ev \<Longrightarrow> sint (next_stream_id s) < 2 ^ 31 - 2"
  shows "reachable env s'"
proof -
  obtain n where n: "n < 2 ^ 31 - 1" "runs env n s" using assms(2) unfolding reachable_def by blast
  have "sint (next_stream_id s) = int n + 1" using callbacks.runs_inv [OF assms(1) n(2,1)] by simp
  then have "(if takes_id ev then Suc n else n) < 2 ^ 31 - 1" using assms(4) n(1) by (cases "takes_id ev") simp_all
  then show ?thesis unfolding reachable_def using run_step [OF n(2) assms(3)] by blast
qed

section \<open>The table as a map\<close>

datatype owner =
    Waiting ptr                 \<comment> \<open>a call, by its frame\<close>
  | Subscribed ptr ptr ptr      \<comment> \<open>a subscription: callback and contexts\<close>

definition owner_of :: "StreamHandler \<Rightarrow> owner" where
  "owner_of hdl = (case sh_fn hdl of None \<Rightarrow> Waiting (sh_ctx hdl) | Some fn \<Rightarrow> Subscribed fn (sh_ctx hdl) (sh_aux_ctx hdl))"

definition streams :: "'w ipc \<Rightarrow> u32 \<Rightarrow> owner option" where
  "streams s ident = map_option (\<lambda>i. owner_of (stream_state_handler s ! i)) (get_stream_index_from_id s ident)"

lemma get_stream_index_iff:
  assumes "ipc_inv s"
  shows "get_stream_index_from_id s ident = Some i \<longleftrightarrow> i < GG_IPC_MAX_STREAMS \<and> stream_state_id s ! i = ident \<and> ident \<noteq> 0"
proof
  assume *: "i < GG_IPC_MAX_STREAMS \<and> stream_state_id s ! i = ident \<and> ident \<noteq> 0"
  then have "0 < sint ident" using ipc_invD(2) [OF assms, of i] by (auto simp: slot_ok_def)
  moreover have "stream_state_id s ! j \<noteq> ident" if "j < i" for j using * that ipc_invD(3) [OF assms, of j i] by auto
  ultimately show "get_stream_index_from_id s ident = Some i" using * by (simp add: get_stream_index_from_id_def find_upt)
qed (auto dest: get_stream_index_Some)

lemma streams_iff:
  assumes "ipc_inv s"
  shows "streams s ident = Some ow \<longleftrightarrow>
    (\<exists>i < GG_IPC_MAX_STREAMS. stream_state_id s ! i = ident \<and> ident \<noteq> 0 \<and> owner_of (stream_state_handler s ! i) = ow)"
  using get_stream_index_iff [OF assms, of ident] by (auto simp: streams_def)

lemma streams_eqI:
  assumes "ipc_inv s"
    and "\<And>ident ow. m ident = Some ow \<longleftrightarrow>
      (\<exists>i < GG_IPC_MAX_STREAMS. stream_state_id s ! i = ident \<and> ident \<noteq> 0 \<and> owner_of (stream_state_handler s ! i) = ow)"
  shows "streams s = m"
proof
  fix x
  have "streams s x = Some ow \<longleftrightarrow> m x = Some ow" for ow by (simp add: streams_iff [OF assms(1)] assms(2))
  then show "streams s x = m x" by (cases "m x"; cases "streams s x") auto
qed

lemma streams_put_slot:
  assumes inv: "ipc_inv s" "ipc_inv (put_slot i ident hdl gen s)" and i: "i < GG_IPC_MAX_STREAMS"
  shows "streams (put_slot i ident hdl gen s) =
    (let m = (streams s)(stream_state_id s ! i := None) in if ident = 0 then m else m(ident \<mapsto> owner_of hdl))"
  (is "_ = ?m")
proof (rule streams_eqI [OF inv(2)])
  fix x ow
  note tab = table_okD [OF ipc_invD(1) [OF inv(1)]]
  have "stream_state_id s ! j \<noteq> stream_state_id s ! i" if "stream_state_id s ! i \<noteq> 0" "j < GG_IPC_MAX_STREAMS" "j \<noteq> i" for j
    using ipc_invD(3) [OF inv(1) i that(2)] that by auto
  then have old: "((streams s)(stream_state_id s ! i := None)) x = Some ow \<longleftrightarrow>
    (\<exists>j < GG_IPC_MAX_STREAMS. j \<noteq> i \<and> stream_state_id s ! j = x \<and> x \<noteq> 0 \<and> owner_of (stream_state_handler s ! j) = ow)"
    using i by (auto simp: streams_iff [OF inv(1)])
  have fresh: "stream_state_id s ! j \<noteq> ident" if "ident \<noteq> 0" "j < GG_IPC_MAX_STREAMS" "j \<noteq> i" for j
    using ipc_invD(3) [OF inv(2) i that(2)] that i tab by auto
  have new: "(\<exists>j < GG_IPC_MAX_STREAMS. stream_state_id (put_slot i ident hdl gen s) ! j = x \<and> x \<noteq> 0 \<and>
       owner_of (stream_state_handler (put_slot i ident hdl gen s) ! j) = ow) \<longleftrightarrow>
     ident = x \<and> x \<noteq> 0 \<and> owner_of hdl = ow \<or>
     (\<exists>j < GG_IPC_MAX_STREAMS. j \<noteq> i \<and> stream_state_id s ! j = x \<and> x \<noteq> 0 \<and> owner_of (stream_state_handler s ! j) = ow)"
    using i tab by (auto simp: nth_list_update split: if_splits)
  show "?m x = Some ow \<longleftrightarrow>
    (\<exists>j < GG_IPC_MAX_STREAMS. stream_state_id (put_slot i ident hdl gen s) ! j = x \<and> x \<noteq> 0 \<and>
       owner_of (stream_state_handler (put_slot i ident hdl gen s) ! j) = ow)"
    unfolding new using old fresh by (cases "x = ident") (auto simp: Let_def)
qed

lemma dom_streams: "ipc_inv s \<Longrightarrow> dom (streams s) = {stream_state_id s ! i | i. i < GG_IPC_MAX_STREAMS \<and> stream_state_id s ! i \<noteq> 0}"
  by (auto simp: dom_def streams_iff)

lemma dom_streams_image: "ipc_inv s \<Longrightarrow> dom (streams s) = (!) (stream_state_id s) ` {i. i < GG_IPC_MAX_STREAMS \<and> stream_state_id s ! i \<noteq> 0}"
  by (auto simp: dom_streams)

lemma finite_streams: "ipc_inv s \<Longrightarrow> finite (dom (streams s))"
  by (simp add: dom_streams_image)

lemma card_streams:
  assumes "ipc_inv s"
  shows "card (dom (streams s)) = card {i. i < GG_IPC_MAX_STREAMS \<and> stream_state_id s ! i \<noteq> 0}"
  unfolding dom_streams_image [OF assms] by (rule card_image) (use ipc_invD(3) [OF assms] in \<open>auto simp: inj_on_def\<close>)

lemma card_streams_le: "ipc_inv s \<Longrightarrow> card (dom (streams s)) \<le> GG_IPC_MAX_STREAMS"
  using card_mono [OF finite_lessThan, of "{i. i < GG_IPC_MAX_STREAMS \<and> stream_state_id s ! i \<noteq> 0}" GG_IPC_MAX_STREAMS]
  by (auto simp: card_streams)

lemma card_streams_free:
  assumes "ipc_inv s" "i < GG_IPC_MAX_STREAMS" "stream_state_id s ! i = 0"
  shows "card (dom (streams s)) < GG_IPC_MAX_STREAMS"
proof -
  have "{j. j < GG_IPC_MAX_STREAMS \<and> stream_state_id s ! j \<noteq> 0} \<subset> {..<GG_IPC_MAX_STREAMS}" using assms(2,3) by auto
  from psubset_card_mono [OF _ this] show ?thesis by (simp add: card_streams [OF assms(1)])
qed

lemma streams_cong [simp]:
  "streams (s\<lparr>world := w\<rparr>) = streams s" "streams (s\<lparr>calls := fs\<rparr>) = streams s" "streams (s\<lparr>ipc_conn_fd := c\<rparr>) = streams s"
  "streams (s\<lparr>next_stream_id := n\<rparr>) = streams s"
  by (rule ext, simp add: streams_def get_stream_index_from_id_def)+

lemma streams_closes_only:
  assumes "ipc_inv s" "ipc_inv s'" "closes_only s s'"
  shows "streams s' \<subseteq>\<^sub>m streams s"
proof -
  have "streams s x = Some ow" if "streams s' x = Some ow" for x ow
    using that assms(3) unfolding streams_iff [OF assms(2)] streams_iff [OF assms(1)] closes_only_def by metis
  then show ?thesis by (auto simp: map_le_def dom_def)
qed

lemma streams_0 [simp]: "streams s 0 = None"
  by (simp add: streams_def get_stream_index_from_id_def)

lemma streams_clear:
  assumes "ipc_inv s" "i < GG_IPC_MAX_STREAMS"
  shows "streams (clear_stream_index i s) = (streams s)(stream_state_id s ! i := None)"
  using streams_put_slot [OF assms(1) ipc_inv_clear [OF assms, unfolded clear_put_slot] assms(2)] by (simp add: clear_put_slot)

lemma streams_close_stream:
  assumes "ipc_inv s" "i < GG_IPC_MAX_STREAMS"
  shows "streams (close_stream env i s) = (streams s)(stream_state_id s ! i := None)"
  using streams_clear [of "s\<lparr>world := w\<rparr>" i for w] assms by (simp add: close_stream_def Let_def)

text \<open>
  The specification: what every event does to the map. A packet on a stream first runs the callbacks
  of its owner, which may close streams; after that only the entry of this stream changes.
\<close>

definition map_received :: "'w ipc_env \<Rightarrow> EventStreamCommonHeaders \<Rightarrow> EventStreamMessage \<Rightarrow> 'w ipc \<Rightarrow> u32 \<Rightarrow> owner option" where
  "map_received env ch msg s =
     (let ident = ch_stream_id ch; terminate = ch_message_flags ch AND EVENTSTREAM_TERMINATE_STREAM \<noteq> 0 in
      case streams s ident of
        None \<Rightarrow> streams s
      | Some (Waiting p) \<Rightarrow>
          (let f = the (calls s p) in
           case pass_response_to_user_callback env ch msg (rc_result_callback f) (rc_error_callback f) (rc_response_ctx f) s of
             (ret, s1) \<Rightarrow>
               (streams s1)(ident :=
                  (if ret \<noteq> GG_ERR_OK \<or> terminate then None
                   else map_option (\<lambda>fn. Subscribed fn (rc_sub_callback_ctx f) (rc_sub_callback_aux_ctx f)) (rc_sub_callback f))))
      | Some (Subscribed fn c aux) \<Rightarrow>
          (case call_sub_callback env (get_current_handle s (the (get_stream_index_from_id s ident))) fn c aux ch msg s of
             None \<Rightarrow> streams s
           | Some (ret, s1) \<Rightarrow> if terminate \<or> ret \<noteq> GG_ERR_OK then (streams s1)(ident := None) else streams s1))"

fun map_after :: "'w ipc_env \<Rightarrow> ipc_event \<Rightarrow> 'w ipc \<Rightarrow> u32 \<Rightarrow> owner option" where
  "map_after env (Send p h None) s = (streams s)(next_stream_id s \<mapsto> Waiting p)"
| "map_after env (Timeout p) s = (streams s)(stream_state_id s ! rc_stream_index (the (calls s p)) := None)"
| "map_after env (Close h) s =
     (case validate_handle s h of Inl _ \<Rightarrow> streams s | Inr i \<Rightarrow> (streams s)(stream_state_id s ! i := None))"
| "map_after env (Receive e) s =
     (case received env s of (None, w) \<Rightarrow> streams s | (Some (ch, msg), w) \<Rightarrow> map_received env ch msg (s\<lparr>world := w\<rparr>))"
| "map_after env _ s = streams s"

lemma streams_drop:
  \<comment> \<open>clearing a slot whose stream may have been closed before\<close>
  assumes "ipc_inv s" "ipc_inv s1" "closes_only s s1" "i < GG_IPC_MAX_STREAMS" "stream_state_id s ! i = ident" "ident \<noteq> 0"
  shows "streams (clear_stream_index i s1) = (streams s1)(ident := None)" "streams (close_stream env i s1) = (streams s1)(ident := None)"
proof -
  have id: "stream_state_id s1 ! i = 0 \<or> stream_state_id s1 ! i = ident" using assms(3,4,5) unfolding closes_only_def by metis
  have gone: "streams s1 ident = None" if "stream_state_id s1 ! i = 0"
  proof (rule ccontr)
    assume "streams s1 ident \<noteq> None"
    then obtain j where j: "j < GG_IPC_MAX_STREAMS" "stream_state_id s1 ! j = ident" using streams_iff [OF assms(2)] by blast
    then have "stream_state_id s ! j = ident" using assms(3,6) unfolding closes_only_def by metis
    then have "j = i" using ipc_invD(3) [OF assms(1) j(1) assms(4)] assms(5,6) by simp
    then show False using j(2) that assms(6) by simp
  qed
  show "streams (clear_stream_index i s1) = (streams s1)(ident := None)" "streams (close_stream env i s1) = (streams s1)(ident := None)"
    using streams_clear [OF assms(2,4)] streams_close_stream [OF assms(2,4), of env] id gone by (auto simp: fun_upd_idem)
qed

context callbacks
begin

lemma handler_inner_streams:
  assumes inv: "ipc_inv s" and i: "i < GG_IPC_MAX_STREAMS" and id: "stream_state_id s ! i = ch_stream_id ch" "0 < sint (ch_stream_id ch)"
    and r: "response_handler_inner env i f ch msg s = (ret, s')"
    and e: "pass_response_to_user_callback env ch msg (rc_result_callback f) (rc_error_callback f) (rc_response_ctx f) s = (e, s1)"
  shows "streams s' = (streams s1)(ch_stream_id ch :=
    (if e \<noteq> GG_ERR_OK \<or> ch_message_flags ch AND EVENTSTREAM_TERMINATE_STREAM \<noteq> 0 then None
     else map_option (\<lambda>fn. Subscribed fn (rc_sub_callback_ctx f) (rc_sub_callback_aux_ctx f)) (rc_sub_callback f)))"
proof -
  have s1: "ipc_inv s1" "closes_only s s1" using user_run_facts [OF pass_response_run [OF e] inv] by auto
  note tab = table_okD [OF ipc_invD(1) [OF s1(1)]]
  have nz: "ch_stream_id ch \<noteq> 0" using id(2) by auto
  note drop = streams_drop [OF inv s1 i id(1) nz]
  let ?h = "\<lparr>sh_fn = rc_sub_callback f, sh_ctx = rc_sub_callback_ctx f, sh_aux_ctx = rc_sub_callback_aux_ctx f\<rparr>"
  have "streams s' = (streams s1)(ch_stream_id ch \<mapsto> Subscribed fn (rc_sub_callback_ctx f) (rc_sub_callback_aux_ctx f))"
    if s': "s' = set_stream_index i (ch_stream_id ch) ?h s1" and fn: "rc_sub_callback f = Some fn" for fn
  proof -
    have "ipc_inv s'" using handler_inner_run [OF inv i id r] by simp
    then have "streams s' = ((streams s1)(stream_state_id s1 ! i := None))(ch_stream_id ch \<mapsto> owner_of ?h)"
      using streams_put_slot [OF s1(1) _ i, of "ch_stream_id ch" ?h "stream_state_generation s1 ! i"]
        set_put_slot [of i s1] tab(2) i nz s' by simp
    also have "(streams s1)(stream_state_id s1 ! i := None) = (streams s1)(ch_stream_id ch := None)"
      using drop(1) streams_clear [OF s1(1) i] by simp
    finally show ?thesis by (simp add: owner_of_def fn fun_eq_iff)
  qed
  then show ?thesis using r e drop
    by (auto simp: response_handler_inner_def Let_def split: if_splits)
qed

lemma dispatch_message_streams:
  assumes inv: "ipc_inv s" and r: "dispatch_message env ch msg s = Some (e, s')"
  shows "streams s' = map_received env ch msg s"
proof (cases "get_stream_index_from_id s (ch_stream_id ch)")
  case None
  then show ?thesis using r by (auto simp: dispatch_message_def map_received_def streams_def Let_def split: if_splits)
next
  case (Some i)
  then have i': "i < GG_IPC_MAX_STREAMS" "stream_state_id s ! i = ch_stream_id ch" "0 < sint (ch_stream_id ch)"
    using get_stream_index_Some by blast+
  have nz: "ch_stream_id ch \<noteq> 0" using i'(3) by auto
  let ?h = "stream_state_handler s ! i"
  have o: "streams s (ch_stream_id ch) = Some (owner_of ?h)" using Some by (simp add: streams_def)
  show ?thesis
  proof (cases "sh_fn ?h")
    case None
    have r': "response_handler env i (sh_ctx ?h) ch msg s = Some s'"
      using r Some i'(3) None by (auto simp: dispatch_message_def Let_def)
    then obtain f where f: "calls s (sh_ctx ?h) = Some f" by (auto simp: response_handler_def bind_eq_Some_conv)
    obtain ret s1 where s1: "response_handler_inner env i f ch msg s = (ret, s1)" by (meson surj_pair)
    obtain e1 s2 where p: "pass_response_to_user_callback env ch msg (rc_result_callback f) (rc_error_callback f) (rc_response_ctx f) s = (e1, s2)"
      by (meson surj_pair)
    have "streams s' = streams s1" using r' f s1 by (auto simp: response_handler_def)
    then show ?thesis using handler_inner_streams [OF inv i' s1 p] o None f p by (simp add: map_received_def owner_of_def Let_def)
  next
    case (Some fn)
    obtain e1 s1 where c: "call_sub_callback env (get_current_handle s i) fn (sh_ctx ?h) (sh_aux_ctx ?h) ch msg s = Some (e1, s1)" and
      s': "s' = (if ch_message_flags ch AND EVENTSTREAM_TERMINATE_STREAM \<noteq> 0 then clear_stream_index i s1
                 else if e1 \<noteq> GG_ERR_OK then close_stream env i s1 else s1)"
      using r \<open>get_stream_index_from_id s (ch_stream_id ch) = Some i\<close> i'(3) Some by (auto simp: dispatch_message_def Let_def)
    have s1: "ipc_inv s1" "closes_only s s1" using user_run_facts [OF sub_callback_run [OF c] inv] by simp_all
    show ?thesis using o Some c s' \<open>get_stream_index_from_id s (ch_stream_id ch) = Some i\<close> streams_drop [OF inv s1 i'(1,2) nz]
      by (simp add: map_received_def owner_of_def Let_def)
  qed
qed

lemma data_ready_streams:
  assumes inv: "ipc_inv s" and r: "data_ready_callback env s = Some (e, s')"
  shows "streams s' = map_after env (Receive e) s"
  using data_ready_received [OF r]
proof cases
  case (2 w ch msg s1 w')
  then show ?thesis using dispatch_message_streams [of "s\<lparr>world := w\<rparr>" ch msg e s1] inv by simp
qed simp

end

lemma streams_opened:
  assumes "ipc_inv s" "i < GG_IPC_MAX_STREAMS" "stream_state_id s ! i = 0" "calls s p = None" "sint (next_stream_id s) < 2 ^ 31 - 1"
  shows "streams (call_opened rq p i s) = (streams s)(next_stream_id s \<mapsto> Waiting p)" "streams s (next_stream_id s) = None"
proof -
  let ?s = "s\<lparr>next_stream_id := next_stream_id s + 1, calls := (calls s)(p \<mapsto> call_frame rq i)\<rparr>"
  have n: "0 < sint (next_stream_id s)" by (rule table_okD(4) [OF ipc_invD(1) [OF assms(1)]])
  show "streams s (next_stream_id s) = None"
    using ipc_invD(2) [OF assms(1)] n by (fastforce simp: streams_def get_stream_index_from_id_def find_upt_None slot_ok_def)
  have "ipc_inv (call_opened rq p i s)" by (rule ipc_inv_opened [OF assms])
  moreover have "ipc_inv (put_slot i 0 no_handler (stream_state_generation s ! i) (call_opened rq p i s))"
    by (rule ipc_inv_put_slot [OF \<open>ipc_inv (call_opened rq p i s)\<close> assms(2)]) auto
  moreover have "put_slot i 0 no_handler (stream_state_generation s ! i) (call_opened rq p i s) = ?s"
    using assms(2,3) ipc_invD(2) [OF assms(1,2)] table_okD [OF ipc_invD(1) [OF assms(1)]]
    by (auto simp: call_opened_def put_slot_def slot_ok_def list_update_same_conv)
  ultimately have "ipc_inv ?s" by simp
  then show "streams (call_opened rq p i s) = (streams s)(next_stream_id s \<mapsto> Waiting p)"
    using streams_put_slot [OF \<open>ipc_inv ?s\<close> _ assms(2), of "next_stream_id s" "\<lparr>sh_fn = None, sh_ctx = p, sh_aux_ctx = 0\<rparr>"
        "stream_state_generation s ! i + 1"] \<open>ipc_inv (call_opened rq p i s)\<close> n assms(3)
    by (auto simp: call_opened_def owner_of_def fun_upd_idem Let_def)
qed

lemma streams_opened_cleared:
  assumes "ipc_inv s" "i < GG_IPC_MAX_STREAMS" "stream_state_id s ! i = 0" "calls s p = None" "sint (next_stream_id s) < 2 ^ 31 - 1"
  shows "streams (clear_stream_index i (call_opened rq p i s\<lparr>world := w\<rparr>)) = streams s"
proof -
  have "stream_state_id (call_opened rq p i s) ! i = next_stream_id s"
    using assms(2) table_okD(1) [OF ipc_invD(1) [OF assms(1)]] by (simp add: call_opened_def)
  then show ?thesis
    using streams_opened(1) [OF assms, of rq] streams_opened(2) [OF assms] ipc_inv_opened [OF assms, of rq] assms(2)
      streams_clear [of "call_opened rq p i s\<lparr>world := w\<rparr>" i] by (simp add: fun_upd_idem)
qed

end
