(* ===== verification/Ipc_Properties.thy ===== *)
theory Ipc_Properties
  imports Ipc_Streams
begin

text \<open>
  What the IPC client guarantees.

  \<^item> Packets on the wire: a request that fits is sent as one event-stream packet with the JSON text of
    its parameters as payload.
  \<^item> A scripted server, an environment for executions on concrete packets.
  \<^item> The properties of all executions: the invariant, memory safety, refinement of a map, delivery of
    responses, handles, and the effect of a time-out that comes too late.
\<close>

section \<open>Packets on the wire\<close>

definition request_fits :: "'w ipc_env \<Rightarrow> EventStreamHeader list \<Rightarrow> GgObject \<Rightarrow> byte list \<Rightarrow> bool" where
  \<comment> \<open>the object has the JSON text \<open>t\<close>, and the packet fits \<open>ipc_send_mem\<close>\<close>
  "request_fits env hdrs obj t \<longleftrightarrow>
     list_all header_ok hdrs \<and> json_text (f64_text env) obj = Some t \<and>
     obj_depth obj \<le> GG_MAX_OBJECT_DEPTH \<and> obj_subobjects obj \<le> GG_MAX_OBJECT_SUBOBJECTS \<and>
     16 + length (concat (map header_bytes hdrs)) + length t \<le> GG_IPC_MAX_MSG_LEN"

lemma ipc_send_packet_fits:
  assumes "request_fits env hdrs obj t"
  shows "ipc_send_packet env conn hdrs (gg_json_reader (f64_text env) obj) w =
    sock_write env conn (packet (concat (map header_bytes hdrs)) t) w"
proof -
  let ?H = "concat (map header_bytes hdrs)" and ?mem = "replicate GG_IPC_MAX_MSG_LEN 0 :: byte list"
  note a = assms [unfolded request_fits_def]
  have n: "min (length ?mem) UINT32_MAX = GG_IPC_MAX_MSG_LEN" by (simp add: GG_IPC_MAX_MSG_LEN_def UINT32_MAX_def)
  have "obj_read (f64_text env) (Some obj) \<lparr>data = 1, mem = replicate (GG_IPC_MAX_MSG_LEN - 12 - length ?H) 0\<rparr> =
    Some (Inr \<lparr>data = data \<lparr>data = 1, mem = replicate (GG_IPC_MAX_MSG_LEN - 12 - length ?H) 0\<rparr>, mem = t\<rparr>)"
    by (rule obj_read_text) (use a in \<open>auto simp: GG_IPC_MAX_MSG_LEN_def\<close>)
  then have "gg_reader_call (gg_json_reader (f64_text env) obj) () (min (length ?mem) UINT32_MAX - 12 - length ?H) = (Inr t, ())"
    unfolding n by (simp add: gg_json_reader_def)
  from eventstream_encode_fits [OF _ this] a n obtain m where
    "eventstream_encode ?mem hdrs (gg_json_reader (f64_text env) obj) () = (GG_ERR_OK, packet ?H t @ m, 16 + length ?H + length t, ())"
    by auto
  then show ?thesis by (simp add: ipc_send_packet_def)
qed

lemma subscribe_send_opened:
  assumes "table_ok s" "connected s" "i < GG_IPC_MAX_STREAMS" "stream_state_id s ! i = 0" "\<forall>j < i. stream_state_id s ! j \<noteq> 0"
    and fits: "request_fits env (request_headers rq (next_stream_id s)) (gg_obj_map (rq_params rq)) t"
    and w: "sock_write env (ipc_conn_fd s) (packet (concat (map header_bytes (request_headers rq (next_stream_id s)))) t) (world s) = (ret, w)"
  shows "ggipc_subscribe_send env False rq p s =
    (if ret = GG_ERR_OK
     then (None, Some (get_current_handle (call_opened rq p i s) i), (call_opened rq p i s)\<lparr>world := w\<rparr>)
     else (Some ret, Some (get_current_handle (call_opened rq p i s) i),
           (clear_stream_index i (call_opened rq p i s\<lparr>world := w\<rparr>))\<lparr>calls := (calls s)(p := None)\<rparr>))"
proof -
  note tab = table_okD [OF assms(1)]
  obtain j s1 where c: "claim_stream_index s = Some (j, s1)" using assms(3,4) claim_stream_index_None [of s] by fastforce
  have "j = i" using claim_stream_index_Some [OF c] assms(3-5) by (meson linorder_neqE_nat)
  have o: "set_stream_index i (next_stream_id s) \<lparr>sh_fn = None, sh_ctx = p, sh_aux_ctx = 0\<rparr>
      (s1\<lparr>next_stream_id := next_stream_id s + 1, calls := (calls s1)(p \<mapsto> call_frame rq i)\<rparr>) = call_opened rq p i s"
    using claim_stream_index_Some [OF c] assms(3) tab \<open>j = i\<close> by (auto simp: set_stream_index_def call_opened_def put_slot_def)
  have "(calls (call_opened rq p i s))(p := None) = (calls s)(p := None)" "ipc_conn_fd (call_opened rq p i s) = ipc_conn_fd s"
    "world (call_opened rq p i s) = world s" "next_stream_id s1 = next_stream_id s"
    using claim_stream_index_Some [OF c] by (auto simp: call_opened_def)
  then show ?thesis using assms(2) c \<open>j = i\<close> ipc_send_packet_fits [OF fits] w
    by (auto simp: ggipc_subscribe_send_def Let_def o)
qed

lemma free_slot:
  assumes "ipc_inv s" "card (dom (streams s)) < GG_IPC_MAX_STREAMS"
  obtains i where "i < GG_IPC_MAX_STREAMS" "stream_state_id s ! i = 0" "\<forall>j < i. stream_state_id s ! j \<noteq> 0"
proof -
  have "\<exists>i < GG_IPC_MAX_STREAMS. stream_state_id s ! i = 0"
  proof (rule ccontr)
    assume "\<not> ?thesis"
    then have "{i. i < GG_IPC_MAX_STREAMS \<and> stream_state_id s ! i \<noteq> 0} = {..<GG_IPC_MAX_STREAMS}" by auto
    then show False using assms(2) by (simp add: card_streams [OF assms(1)])
  qed
  then show thesis using that claim_stream_index_None [of s] claim_stream_index_Some [of s] by (metis option.exhaust surj_pair)
qed

section \<open>A scripted server\<close>

definition script_env :: "byte list ipc_env" where
  \<comment> \<open>writing succeeds, the bytes to be received are the world, callbacks do nothing\<close>
  "script_env =
     \<lparr>sock_write = (\<lambda>_ _ w. (GG_ERR_OK, w)), sock_reader = (\<lambda>_. stream_reader), sock_connect = (\<lambda>_ w. (Inr 3, w)),
      sock_close = (\<lambda>_ w. w), epoll_add = (\<lambda>_ w. (GG_ERR_OK, w)), extra_header_handler = (\<lambda>_. GG_ERR_OK),
      f64_text = (\<lambda>_. None), strtod_of = (\<lambda>_. (0, False)), recv_mem_at = 1000, decode_mem_at = 20000, memory_around = (\<lambda>_ _. 57),
      result_cb = (\<lambda>_ _ _ s. (GG_ERR_OK, s)), error_cb = (\<lambda>_ _ _ _ s. (GG_ERR_OK, s)),
      sub_cb = (\<lambda>_ _ _ _ _ _ s. (GG_ERR_OK, s))\<rparr>"

lemma script_callbacks: "callbacks script_env"
  by unfold_locales (simp_all add: script_env_def user_done)

definition server_headers :: "u32 \<Rightarrow> u32 \<Rightarrow> u32 \<Rightarrow> EventStreamHeader list" where
  "server_headers type flags stream =
     [int32_header '':message-type'' type, int32_header '':message-flags'' flags, int32_header '':stream-id'' stream]"

definition server_packet :: "u32 \<Rightarrow> u32 \<Rightarrow> u32 \<Rightarrow> byte list" where
  "server_packet type flags stream = packet (concat (map header_bytes (server_headers type flags stream))) []"

lemma get_server_packet:
  obtains msg where "eventsteam_get_packet stream_reader (server_packet type flags stream @ rest) (recv_buffer script_env) = (Inr msg, rest)"
    "eventstream_get_common_headers msg = Some (Inr \<lparr>ch_stream_id = stream, ch_message_type = type, ch_message_flags = flags\<rparr>)"
proof -
  let ?hs = "server_headers type flags stream"
  have ok: "list_all header_ok ?hs" by (simp add: server_headers_def int32_header_def header_ok_def value_ok_def)
  have l: "length (concat (map header_bytes ?hs)) \<le> 100"
    by (simp add: server_headers_def int32_header_def header_bytes_def value_bytes_def)
  have c: "common_of ?hs \<lparr>ch_stream_id = 0, ch_message_type = 0, ch_message_flags = 0\<rparr> =
    Inr \<lparr>ch_stream_id = stream, ch_message_type = type, ch_message_flags = flags\<rparr>"
    by (simp add: server_headers_def int32_header_def)
  obtain msg hs' where "eventsteam_get_packet stream_reader (server_packet type flags stream @ rest) (recv_buffer script_env) = (Inr msg, rest)"
    "eventstream_get_common_headers msg = Some (common_of ?hs \<lparr>ch_stream_id = 0, ch_message_type = 0, ch_message_flags = 0\<rparr>)"
    using get_packet_stream [OF ok refl, of "[]" "recv_buffer script_env" rest] l
    by (auto simp: server_packet_def UINT32_MAX_def recv_buffer_def GG_IPC_MAX_MSG_LEN_def)
  then show thesis using that c by simp
qed

definition ping :: ipc_request where
  "ping = \<lparr>rq_operation = GG_STR ''a'', rq_service_model_type = GG_STR ''b'', rq_params = (0, []), rq_result_callback = None,
    rq_error_callback = None, rq_response_ctx = 0, rq_sub_callback = None, rq_sub_callback_ctx = 0, rq_sub_callback_aux_ctx = 0\<rparr>"

lemma ping_fits: "request_fits env (request_headers ping n) (gg_obj_map (rq_params ping)) [123, 125]"
  by (simp add: request_fits_def ping_def request_headers_def int32_header_def string_header_def header_ok_def value_ok_def
      gg_obj_map_def header_bytes_def value_bytes_def GG_IPC_MAX_MSG_LEN_def GG_MAX_OBJECT_DEPTH_def GG_MAX_OBJECT_SUBOBJECTS_def)

definition connect_headers :: "EventStreamHeader list" where
  "connect_headers =
     [int32_header '':message-type'' EVENTSTREAM_CONNECT, int32_header '':message-flags'' 0, int32_header '':stream-id'' 0,
      string_header '':version'' (GG_STR ''0.1.0'')]"

lemma connect_accepted:
  assumes "sock_connect env path (world s) = (Inr conn, w0)" "request_fits env connect_headers payload t"
    and "sock_write env conn (packet (concat (map header_bytes connect_headers)) t) w0 = (GG_ERR_OK, w1)"
    and "eventsteam_get_packet (sock_reader env conn) w1 (recv_buffer env) = (Inr msg, w2)"
    and "eventstream_get_common_headers msg = Some (Inr \<lparr>ch_stream_id = 0, ch_message_type = EVENTSTREAM_CONNECT_ACK,
       ch_message_flags = EVENTSTREAM_CONNECTION_ACCEPTED\<rparr>)"
    and "extra_header_handler env (msg_headers msg) = GG_ERR_OK" "epoll_add env conn w2 = (GG_ERR_OK, w3)"
  shows "ggipc_connect_with_payload env path payload s = Some (GG_ERR_OK, s\<lparr>world := w3, ipc_conn_fd := conn\<rparr>)"
proof -
  have "ipc_send_packet env conn connect_headers (gg_json_reader (f64_text env) payload) w0 = (GG_ERR_OK, w1)"
    using ipc_send_packet_fits [OF assms(2)] assms(3) by simp
  then have "connect_handshake env conn payload w0 = Some (GG_ERR_OK, w3)"
    using assms(4-7) unfolding connect_handshake_def Let_def connect_headers_def by (simp add: es_consts)
  then show ?thesis using assms(1) by (simp add: ggipc_connect_with_payload_def)
qed

lemma connect_fits: "request_fits env connect_headers (OBJ_MAP 0 []) [123, 125]"
  by (simp add: request_fits_def connect_headers_def int32_header_def string_header_def header_ok_def value_ok_def
      header_bytes_def value_bytes_def GG_IPC_MAX_MSG_LEN_def GG_MAX_OBJECT_DEPTH_def GG_MAX_OBJECT_SUBOBJECTS_def)

lemma script_connect:
  assumes "world s = server_packet EVENTSTREAM_CONNECT_ACK EVENTSTREAM_CONNECTION_ACCEPTED 0 @ rest"
  shows "ggipc_connect_with_payload script_env path (OBJ_MAP 0 []) s = Some (GG_ERR_OK, s\<lparr>world := rest, ipc_conn_fd := 3\<rparr>)"
proof -
  obtain msg where "eventsteam_get_packet stream_reader (world s) (recv_buffer script_env) = (Inr msg, rest)"
    "eventstream_get_common_headers msg = Some (Inr \<lparr>ch_stream_id = 0, ch_message_type = EVENTSTREAM_CONNECT_ACK,
       ch_message_flags = EVENTSTREAM_CONNECTION_ACCEPTED\<rparr>)"
    unfolding assms by (rule get_server_packet)
  then show ?thesis by (intro connect_accepted [OF _ connect_fits]) (simp_all add: script_env_def)
qed

lemma script_send [simp]: "snd (ipc_send_packet script_env c hdrs pl w) = w"
  by (simp add: ipc_send_packet_def script_env_def split: prod.splits)

lemma script_reader [simp]: "sock_reader script_env c = stream_reader" "sock_write script_env c bs w = (GG_ERR_OK, w)"
  by (simp_all add: script_env_def)

lemma script_ping:
  assumes "table_ok s" "connected s" "stream_state_id s ! 0 = 0"
  shows "ggipc_subscribe_send script_env False ping p s =
    (None, Some (get_current_handle (call_opened ping p 0 s) 0), call_opened ping p 0 s)"
  using subscribe_send_opened [OF assms(1,2) _ assms(3) _ ping_fits, of script_env GG_ERR_OK "world s" p]
  by (simp add: script_env_def GG_IPC_MAX_STREAMS_def call_opened_def put_slot_def)

lemma script_response:
  assumes inv: "ipc_inv s" and w: "world s = server_packet EVENTSTREAM_APPLICATION_MESSAGE 0 ident @ rest"
    and i: "i < GG_IPC_MAX_STREAMS" "stream_state_id s ! i = ident" "pending s i p" "calls s p = Some (call_frame ping i)"
  shows "data_ready_callback script_env s =
    Some (GG_ERR_OK, (clear_stream_index i (s\<lparr>world := rest\<rparr>))\<lparr>calls := (calls s)(p \<mapsto>
      (call_frame ping i)\<lparr>rc_ret := GG_ERR_OK, rc_ready := True\<rparr>)\<rparr>)"
proof -
  let ?s = "s\<lparr>world := rest\<rparr>"
  obtain msg where msg: "eventsteam_get_packet stream_reader (world s) (recv_buffer script_env) = (Inr msg, rest)"
    "eventstream_get_common_headers msg = Some (Inr \<lparr>ch_stream_id = ident, ch_message_type = EVENTSTREAM_APPLICATION_MESSAGE,
       ch_message_flags = 0\<rparr>)"
    unfolding w by (rule get_server_packet)
  have "ident \<noteq> 0" using i(2,3) by (simp add: pending_def)
  then have g: "get_stream_index_from_id ?s ident = Some i" using get_stream_index_iff [of ?s] inv i by simp
  then have pos: "0 < sint ident" using get_stream_index_Some by blast
  have h: "sh_fn (stream_state_handler s ! i) = None" "sh_ctx (stream_state_handler s ! i) = p"
    using i(3) by (auto simp: pending_def)
  have "response_handler script_env i p \<lparr>ch_stream_id = ident, ch_message_type = EVENTSTREAM_APPLICATION_MESSAGE, ch_message_flags = 0\<rparr> msg ?s =
    Some ((clear_stream_index i ?s)\<lparr>calls := (calls s)(p \<mapsto> (call_frame ping i)\<lparr>rc_ret := GG_ERR_OK, rc_ready := True\<rparr>)\<rparr>)"
    using i(4) by (simp add: response_handler_def response_handler_inner_def pass_response_to_user_callback_def es_consts
        call_frame_def ping_def close_stream_def Let_def)
  then show ?thesis using msg g pos h
    by (simp add: data_ready_callback_def dispatch_incoming_packet_def dispatch_message_def Let_def)
qed

lemma script_waiting:
  \<comment> \<open>connected, and one call waits for its response\<close>
  obtains s where "reachable script_env s" "connected s" "streams s = [1 \<mapsto> Waiting 100]" "calls s = [100 \<mapsto> call_frame ping 0]"
    "stream_state_id s ! 0 = 1" "pending s 0 100" "next_stream_id s = 2" "world s = server_packet EVENTSTREAM_APPLICATION_MESSAGE 0 1 @ []"
proof -
  let ?resp = "server_packet EVENTSTREAM_APPLICATION_MESSAGE 0 1"
  let ?w = "server_packet EVENTSTREAM_CONNECT_ACK EVENTSTREAM_CONNECTION_ACCEPTED 0 @ ?resp @ []"
  note inv = reachable_inv [OF script_callbacks]
  define s1 where "s1 = (ipc_init ?w)\<lparr>world := ?resp @ [], ipc_conn_fd := 3\<rparr>"
  have 1: "reachable script_env s1" unfolding s1_def
    by (rule reach_step [OF script_callbacks reach_init step_connect [OF script_connect [of "ipc_init ?w"]]]) (simp_all add: ipc_init_def)
  have f1: "connected s1" "stream_state_id s1 ! 0 = 0" "calls s1 = (\<lambda>_. None)" "next_stream_id s1 = 1" "world s1 = ?resp @ []"
    "length (stream_state_id s1) = 16" "length (stream_state_handler s1) = 16" "0 < GG_IPC_MAX_STREAMS"
    by (simp_all add: s1_def ipc_init_def connected_def GG_IPC_MAX_STREAMS_def)
  have "streams s1 = (\<lambda>_. None)"
    by (rule streams_eqI [OF inv [OF 1]]) (auto simp: s1_def ipc_init_def)
  then have "streams (call_opened ping 100 0 s1) = [1 \<mapsto> Waiting 100]"
    using streams_opened(1) [OF inv [OF 1] f1(8,2), of 100 ping] f1 by simp
  moreover have "reachable script_env (call_opened ping 100 0 s1)"
    by (rule reach_step [OF script_callbacks 1 step_send [OF _ script_ping [OF ipc_invD(1) [OF inv [OF 1]] f1(1,2)]]]) (simp_all add: f1)
  ultimately show thesis using f1
    by (intro that [of "call_opened ping 100 0 s1"]) (simp_all add: call_opened_def pending_def connected_def)
qed

section \<open>All executions\<close>

lemma sent_streams:
  assumes inv: "ipc_inv s" and p: "calls s p = None" and n: "h \<noteq> None \<Longrightarrow> sint (next_stream_id s) < 2 ^ 31 - 1"
    and r: "ggipc_subscribe_send env b rq p s = (e, h, s')"
  shows "if e = None
    then streams s' = (streams s)(next_stream_id s \<mapsto> Waiting p) \<and> streams s (next_stream_id s) = None \<and> card (dom (streams s)) < GG_IPC_MAX_STREAMS
    else streams s' = streams s"
proof (rule subscribe_send_cases [OF ipc_invD(1) [OF inv], of env b rq p])
  fix i e' w
  assume i: "i < GG_IPC_MAX_STREAMS" "stream_state_id s ! i = 0" and
    s: "ggipc_subscribe_send env b rq p s = (Some e', Some (get_current_handle (call_opened rq p i s) i),
      (clear_stream_index i (call_opened rq p i s\<lparr>world := w\<rparr>))\<lparr>calls := (calls s)(p := None)\<rparr>)"
  then have "sint (next_stream_id s) < 2 ^ 31 - 1" using r n by simp
  then show ?thesis using r s streams_opened_cleared [OF inv i p, where rq = rq and w = w] by auto
next
  fix i w
  assume i: "i < GG_IPC_MAX_STREAMS" "stream_state_id s ! i = 0" and
    s: "ggipc_subscribe_send env b rq p s = (None, Some (get_current_handle (call_opened rq p i s) i), (call_opened rq p i s)\<lparr>world := w\<rparr>)"
  then have "sint (next_stream_id s) < 2 ^ 31 - 1" using r n by simp
  then show ?thesis using r s streams_opened(1) [OF inv i p, where rq = rq] streams_opened(2) [OF inv i p] card_streams_free [OF inv i] by auto
qed (use r in auto)

text \<open>
  C4: As long as fewer than \<open>2 ^ 31 - 1\<close> stream ids have been given out, the stream table is well-formed in
  every state of every execution, with calls, time-outs, incoming packets, closed subscriptions and
  reconnections interleaved in any order: ids in use are positive, pairwise different and smaller
  than the next id to be given out, a free slot has no handler, and a slot that waits for a response
  refers to the stack frame of a call that is still waiting, not yet answered, and for which the call
  remembers this very slot. The ids are given out in order, without gaps and never twice: after \<open>n\<close> of
  them the next one is \<open>n + 1\<close>. The code does not enforce the bound; see \<open>stream_ids_overflow\<close>.
\<close>
theorem reachable_ipc_inv:
  assumes "callbacks env" "runs env n s" "n < 2 ^ 31 - 1"
  shows "ipc_inv s \<and> sint (next_stream_id s) = int n + 1"
  using callbacks.runs_inv [OF assms] .

lemma script_many:
  \<comment> \<open>\<open>n\<close> calls one after the other, each of which times out\<close>
  "n < 2 ^ 31 \<Longrightarrow> \<exists>s. runs script_env n s \<and> connected s \<and> stream_state_id s ! 0 = 0 \<and> calls s = Map.empty \<and> next_stream_id s = of_nat (Suc n)"
proof (induction n)
  case 0
  let ?w = "server_packet EVENTSTREAM_CONNECT_ACK EVENTSTREAM_CONNECTION_ACCEPTED 0 @ []"
  let ?s = "(ipc_init ?w)\<lparr>world := [], ipc_conn_fd := 3\<rparr>"
  have "ipc_step script_env (Connect GG_ERR_OK) (ipc_init ?w) ?s"
    by (rule step_connect [OF script_connect]) (simp add: ipc_init_def)
  from run_step [OF run_init this] have "runs script_env 0 ?s" by simp
  then show ?case by (intro exI [of _ ?s]) (simp add: ipc_init_def connected_def GG_IPC_MAX_STREAMS_def)
next
  case (Suc n)
  then obtain s where s: "runs script_env n s" "connected s" "stream_state_id s ! 0 = 0" "calls s = Map.empty"
    "next_stream_id s = of_nat (Suc n)" by auto
  have t: "table_ok s" using callbacks.runs_inv [OF script_callbacks s(1)] Suc.prems by (auto dest: ipc_invD(1))
  let ?o = "call_opened ping 100 0 s"
  let ?s = "(close_stream script_env 0 ?o)\<lparr>calls := (calls ?o)(100 := None)\<rparr>"
  have "ipc_step script_env (Send 100 (Some (get_current_handle ?o 0)) None) s ?o"
    by (rule step_send [OF _ script_ping [OF t s(2,3)]]) (simp add: s)
  from run_step [OF s(1) this] have 1: "runs script_env (Suc n) ?o" by simp
  have "ipc_step script_env (Timeout 100) ?o ?s"
    by (rule step_timeout [where e = GG_ERR_TIMEOUT]) (simp add: ggipc_subscribe_timeout_def Let_def call_opened_def call_frame_def)
  from run_step [OF 1 this] have "runs script_env (Suc n) ?s" by simp
  moreover have "connected ?s" "stream_state_id ?s ! 0 = 0" "calls ?s = Map.empty" "next_stream_id ?s = of_nat (Suc (Suc n))"
    using s table_okD(1) [OF t] by (simp_all add: call_opened_def connected_def GG_IPC_MAX_STREAMS_def fun_eq_iff)
  ultimately show ?case by blast
qed

text \<open>
  Nothing in the code keeps the stream ids from overflowing: there is an execution with \<open>2 ^ 31 - 1\<close>
  requests after which the next id, of type \<open>int32_t\<close>, is negative if the addition wraps around (it is
  undefined behaviour in C). Packets on a stream with a negative id are refused with an error that closes the
  connection, so no later request can be answered.
\<close>
theorem stream_ids_overflow:
  "\<exists>s. runs script_env (2 ^ 31 - 1) s \<and> connected s \<and> sint (next_stream_id s) = - (2 ^ 31) \<and> \<not> ipc_inv s"
proof -
  obtain s where s: "runs script_env (2 ^ 31 - 1) s" "connected s" "next_stream_id s = of_nat (Suc (2 ^ 31 - 1))"
    using script_many [of "2 ^ 31 - 1"] by auto
  have "Suc (2 ^ 31 - 1) = 2 ^ 31" by simp
  then have "sint (next_stream_id s) = - (2 ^ 31)" unfolding s(3) by (simp add: sint_uint signed_take_bit_def not_eq_complement mask_eq_exp_minus_1)
  moreover from this have "\<not> ipc_inv s" using table_okD(4) [OF ipc_invD(1)] by fastforce
  ultimately show ?thesis using s by blast
qed

text \<open>
  C5: Handling an incoming packet, in every state reachable before the stream ids overflow, whatever
  bytes arrive and whatever is in memory around them, never follows a pointer to the stack frame of a
  call that has returned and never leaves the packet while it goes through its headers, and it leaves
  a well-formed stream table. What \<open>strtod\<close> reads behind a number that ends the payload is not covered:
  it is given no length, and the bytes it finds there are arbitrary.
\<close>
theorem data_ready_callback_safe:
  assumes "callbacks env" "reachable env s"
  shows "\<exists>e s'. data_ready_callback env s = Some (e, s') \<and> ipc_inv s'"
  by (rule callbacks.data_ready_inv [OF assms(1) reachable_inv [OF assms]]) blast

text \<open>
  C6: The stream table implements a map from stream ids to owners, event by event. A request that is
  sent enters its call under the next id, which is not in use, and there is room for it; one that
  fails changes nothing. A time-out removes the id in the slot the call remembers, closing a handle
  the id in the slot whose current handle it is, and nothing if it is no current handle. A packet
  whose stream is not in the map changes nothing; otherwise the callback of the owner runs, and after
  it only the entry of the stream of the packet changes: the waiting call becomes its subscription or
  leaves the map, a subscription stays unless the stream is terminated or the callback fails. Every
  other event keeps the map. It never has more than \<open>GG_IPC_MAX_STREAMS\<close> entries. A request that takes
  an id is assumed to find one that \<open>int32_t\<close> can still count on from.
\<close>
theorem ipc_refines_stream_map:
  assumes "callbacks env" "reachable env s" "ipc_step env ev s s'" "takes_id ev \<Longrightarrow> sint (next_stream_id s) < 2 ^ 31 - 1"
  shows "streams s' = map_after env ev s \<and> card (dom (streams s')) \<le> GG_IPC_MAX_STREAMS \<and>
    (\<forall>p h. ev = Send p h None \<longrightarrow> streams s (next_stream_id s) = None \<and> card (dom (streams s)) < GG_IPC_MAX_STREAMS)"
proof -
  have inv: "ipc_inv s" by (rule reachable_inv [OF assms(1,2)])
  have "ipc_inv s'" using callbacks.step_inv [OF assms(1,3) inv assms(4)] by simp
  then have card: "card (dom (streams s')) \<le> GG_IPC_MAX_STREAMS" by (rule card_streams_le)
  from assms(3) show ?thesis
  proof (cases rule: ipc_step.cases)
    case (step_send p b rq e h)
    show ?thesis using step_send(1,3) card sent_streams [OF inv step_send(2) assms(4) step_send(3)] by (cases e) auto
  next
    case (step_timeout p e)
    then obtain f where f: "calls s p = Some f" "streams s' = streams (close_stream env (rc_stream_index f) s)"
      by (auto simp: ggipc_subscribe_timeout_def Let_def split: option.splits)
    then show ?thesis using streams_close_stream [OF inv ipc_invD(4) [OF inv f(1)], of env] card step_timeout(1) by simp
  next
    case (step_receive e)
    then show ?thesis using callbacks.data_ready_streams [OF assms(1) inv step_receive(2)] card by simp
  next
    case (step_close h)
    then show ?thesis using card streams_close_stream [OF inv, of _ env] validate_handle_iff [of s h]
      by (cases "validate_handle s h") (auto simp: ggipc_close_subscription_def)
  next
    case (step_ready p e)
    then show ?thesis using card by (auto simp: ggipc_subscribe_ready_def split: option.splits if_splits)
  next
    case (step_connect path pl e)
    then show ?thesis using card by (auto simp: ggipc_connect_with_payload_def split: prod.splits sum.splits if_splits)
  qed (use card in simp)
qed

text \<open>
  C7: A response is delivered to the call that waits for it. In every reachable state, a packet on a
  stream owned by the waiting call \<open>p\<close> is handled without error, runs the callbacks of that call, and
  leaves the call ready with their result: it returns it as soon as it is scheduled. No other call
  becomes ready, and \<open>p\<close> no longer owns a stream.
\<close>
theorem dispatch_message_wakes_caller:
  assumes "callbacks env" "reachable env s" "streams s (ch_stream_id ch) = Some (Waiting p)"
  shows "\<exists>f s' s''. calls s p = Some f \<and> dispatch_message env ch msg s = Some (GG_ERR_OK, s') \<and>
    ggipc_subscribe_ready p s' =
      Some (fst (pass_response_to_user_callback env ch msg (rc_result_callback f) (rc_error_callback f) (rc_response_ctx f) s), s'') \<and>
    (\<forall>q. q \<noteq> p \<longrightarrow> calls s' q = calls s q) \<and> (\<forall>ident. streams s' ident \<noteq> Some (Waiting p))"
proof -
  have inv: "ipc_inv s" by (rule reachable_inv [OF assms(1,2)])
  obtain i where i: "i < GG_IPC_MAX_STREAMS" "stream_state_id s ! i = ch_stream_id ch" "ch_stream_id ch \<noteq> 0"
    "owner_of (stream_state_handler s ! i) = Waiting p" using assms(3) streams_iff [OF inv] by blast
  have g: "get_stream_index_from_id s (ch_stream_id ch) = Some i" using i get_stream_index_iff [OF inv] by blast
  then have pos: "0 < sint (ch_stream_id ch)" using get_stream_index_Some by blast
  have h: "sh_fn (stream_state_handler s ! i) = None" "sh_ctx (stream_state_handler s ! i) = p"
    using i(4) by (auto simp: owner_of_def split: option.splits)
  then have "pending s i p" using i(2,3) by (simp add: pending_def)
  then obtain s' f where s': "response_handler env i p ch msg s = Some s'" "ipc_inv s'" "calls s p = Some f"
    "calls s' = (calls s)(p \<mapsto> f\<lparr>rc_ret := fst (pass_response_to_user_callback env ch msg (rc_result_callback f)
       (rc_error_callback f) (rc_response_ctx f) s), rc_ready := True\<rparr>)"
    by (rule callbacks.response_handler_returns [OF assms(1) inv i(1,2) pos, where msg = msg])
  have "streams s' ident \<noteq> Some (Waiting p)" for ident
  proof
    assume "streams s' ident = Some (Waiting p)"
    then obtain j where "j < GG_IPC_MAX_STREAMS" "pending s' j p"
      by (auto simp: streams_iff [OF s'(2)] pending_def owner_of_def split: option.splits)
    then show False using pending_frame [OF s'(2)] s'(4) by fastforce
  qed
  moreover have "dispatch_message env ch msg s = Some (GG_ERR_OK, s')"
    using g h s'(1) pos by (simp add: dispatch_message_def Let_def)
  ultimately show ?thesis using s'(3,4) by (auto simp: ggipc_subscribe_ready_def)
qed

text \<open>
  A handle is accepted for a slot exactly if it is the handle the slot has now; once the stream of
  a slot is closed, the handle given out for it is refused.
\<close>
theorem validate_handle_current:
  assumes "table_ok s" "i < GG_IPC_MAX_STREAMS"
  shows "(validate_handle s h = Inr i \<longleftrightarrow> h = get_current_handle s i) \<and>
    validate_handle (close_stream env i s) (get_current_handle s i) = Inl GG_ERR_NOENTRY"
proof
  show 1: "validate_handle s h = Inr i \<longleftrightarrow> h = get_current_handle s i" for h using validate_handle_iff assms(2) by blast
  have "validate_handle s (get_current_handle s i) = Inr i" using 1 by simp
  then show "validate_handle (close_stream env i s) (get_current_handle s i) = Inl GG_ERR_NOENTRY"
    using assms table_okD(2) [OF assms(1)] by (auto simp: validate_handle_def Let_def split: if_splits)
qed

text \<open>
  C8: A call that times out may close the stream of another call. The wait of \<open>ggipc_subscribe\<close> can end
  with \<open>ETIMEDOUT\<close> although the response has been handled in the meantime, and \<open>ready\<close> is not looked at
  again; the stream slot is then closed by its index. If another call has taken the slot since, it is
  that call's stream that is terminated and forgotten: it will never get its response. There is such
  an execution with two calls to a server that answers correctly.
\<close>
theorem timeout_closes_other_stream:
  "\<exists>s s' p q ident. reachable script_env s \<and> p \<noteq> q \<and> (\<exists>f. calls s p = Some f \<and> rc_ready f \<and> rc_ret f = GG_ERR_OK) \<and>
     streams s ident = Some (Waiting q) \<and>
     ggipc_subscribe_timeout script_env p s = Some (GG_ERR_TIMEOUT, s') \<and>
     streams s' ident = None \<and> (\<exists>g. calls s' q = Some g \<and> \<not> rc_ready g)"
proof -
  note inv = reachable_inv [OF script_callbacks]
  obtain s2 where f2: "reachable script_env s2" "connected s2" "streams s2 = [1 \<mapsto> Waiting 100]" "calls s2 = [100 \<mapsto> call_frame ping 0]"
    "stream_state_id s2 ! 0 = 1" "pending s2 0 100" "next_stream_id s2 = 2" "world s2 = server_packet EVENTSTREAM_APPLICATION_MESSAGE 0 1 @ []"
    by (rule script_waiting)
  define s3 where "s3 = (clear_stream_index 0 (s2\<lparr>world := []\<rparr>))\<lparr>calls := (calls s2)(100 \<mapsto>
      (call_frame ping 0)\<lparr>rc_ret := GG_ERR_OK, rc_ready := True\<rparr>)\<rparr>"
  define s4 where "s4 = call_opened ping 200 0 s3"
  have "data_ready_callback script_env s2 = Some (GG_ERR_OK, s3)" unfolding s3_def
    by (rule script_response [OF inv [OF f2(1)] f2(8) _ f2(5,6)]) (simp_all add: f2 GG_IPC_MAX_STREAMS_def)
  then have 3: "reachable script_env s3" by (rule reach_step [OF script_callbacks f2(1) step_receive]) simp
  have f3: "connected s3" "stream_state_id s3 ! 0 = 0" "calls s3 200 = None" "next_stream_id s3 = 2"
    using f2 table_okD(1) [OF ipc_invD(1) [OF inv [OF f2(1)]]] by (simp_all add: s3_def connected_def GG_IPC_MAX_STREAMS_def)
  have 4: "reachable script_env s4" unfolding s4_def
    by (rule reach_step [OF script_callbacks 3 step_send [OF _ script_ping [OF ipc_invD(1) [OF inv [OF 3]] f3(1,2)]]]) (simp_all add: f3)
  have i: "(0 :: nat) < GG_IPC_MAX_STREAMS" by (simp add: GG_IPC_MAX_STREAMS_def)
  have st: "streams s4 2 = Some (Waiting 200)"
    unfolding s4_def using streams_opened(1) [OF inv [OF 3] i f3(2,3)] f3(4) by simp
  have c4: "calls s4 100 = Some ((call_frame ping 0)\<lparr>rc_ret := GG_ERR_OK, rc_ready := True\<rparr>)" "calls s4 200 = Some (call_frame ping 0)"
    by (simp_all add: s4_def s3_def call_opened_def)
  have "stream_state_id s4 ! 0 = 2" using f3(4) table_okD(1) [OF ipc_invD(1) [OF inv [OF 3]]] i by (simp add: s4_def call_opened_def)
  then have "streams (close_stream script_env 0 s4) 2 = None" using streams_close_stream [OF inv [OF 4] i] by simp
  then show ?thesis using 4 st c4
    by (intro exI [of _ s4] exI [of _ "(close_stream script_env 0 s4)\<lparr>calls := (calls s4)(100 := None)\<rparr>"] exI [of _ 100] exI [of _ 200] exI [of _ 2])
      (simp add: ggipc_subscribe_timeout_def Let_def call_frame_def)
qed

text \<open>
  A request is sent as one packet: if a slot is free and the packet fits \<open>ipc_send_mem\<close>, what is
  written to the connection is the event-stream packet whose headers announce an application message
  on the new stream, the operation and the service model type, and whose payload is the JSON text of
  the parameters. If the write succeeds the call waits as owner of the new stream, otherwise it
  returns the error of the write.
\<close>
theorem ggipc_subscribe_send_packet:
  assumes "ipc_inv s" "connected s" "card (dom (streams s)) < GG_IPC_MAX_STREAMS" "calls s p = None" "sint (next_stream_id s) < 2 ^ 31 - 1"
    and "request_fits env (request_headers rq (next_stream_id s)) (gg_obj_map (rq_params rq)) t"
  shows "\<exists>ret w h s'.
    sock_write env (ipc_conn_fd s) (packet (concat (map header_bytes (request_headers rq (next_stream_id s)))) t) (world s) = (ret, w) \<and>
    ggipc_subscribe_send env False rq p s = (if ret = GG_ERR_OK then None else Some ret, Some h, s') \<and> world s' = w \<and>
    streams s' = (if ret = GG_ERR_OK then (streams s)(next_stream_id s \<mapsto> Waiting p) else streams s)"
proof -
  obtain i where i: "i < GG_IPC_MAX_STREAMS" "stream_state_id s ! i = 0" "\<forall>j < i. stream_state_id s ! j \<noteq> 0"
    by (rule free_slot [OF assms(1,3)])
  obtain ret w where w: "sock_write env (ipc_conn_fd s)
      (packet (concat (map header_bytes (request_headers rq (next_stream_id s)))) t) (world s) = (ret, w)" by (meson surj_pair)
  from subscribe_send_opened [OF ipc_invD(1) [OF assms(1)] assms(2) i assms(6) w, of p]
  show ?thesis using w streams_opened(1) [OF assms(1) i(1,2) assms(4,5), of rq] streams_opened_cleared [OF assms(1) i(1,2) assms(4,5), where rq = rq and w = w]
    by (cases "ret = GG_ERR_OK") (simp_all add: clear_put_slot)
qed

text \<open>
  A call that fails before it waits leaves nothing behind: whatever the error (no connection, called
  from the receive thread, no free slot, the request does not fit or cannot be written), no stream is
  added or lost and no frame is registered.
\<close>
theorem ggipc_subscribe_send_error:
  assumes "ipc_inv s" "calls s p = None" "sint (next_stream_id s) < 2 ^ 31 - 1"
    and "ggipc_subscribe_send env b rq p s = (Some e, h, s')"
  shows "streams s' = streams s \<and> calls s' = calls s \<and> ipc_inv s'"
proof (intro conjI)
  show "ipc_inv s'" by (rule subscribe_send_inv [OF assms])
  show "streams s' = streams s" using sent_streams [OF assms(1,2) _ assms(4)] assms(3) by simp
  show "calls s' = calls s"
    by (rule subscribe_send_cases [OF ipc_invD(1) [OF assms(1)], of env b rq p]) (use assms(2,4) in \<open>auto simp: fun_upd_idem\<close>)
qed

section \<open>Concrete instances\<close>

theorem reachable_ipc_inv_witness:
  "\<exists>n s. streams s 1 = Some (Waiting 100) \<and> runs script_env n s \<and> n < 2 ^ 31 - 1 \<and> ipc_inv s \<and> n = 1"
proof -
  obtain s where s: "reachable script_env s" "streams s = [1 \<mapsto> Waiting 100]" "next_stream_id s = 2" by (rule script_waiting)
  then obtain n where n: "n < 2 ^ 31 - 1" "runs script_env n s" unfolding reachable_def by blast
  from reachable_ipc_inv [OF script_callbacks n(2,1)] s(2,3) n show ?thesis by (intro exI [of _ n] exI [of _ s]) simp
qed

theorem data_ready_callback_safe_witness:
  "\<exists>s e s'. streams s 1 = Some (Waiting 100) \<and> reachable script_env s \<and> data_ready_callback script_env s = Some (e, s') \<and> ipc_inv s'"
proof -
  obtain s where s: "reachable script_env s" "streams s = [1 \<mapsto> Waiting 100]" by (rule script_waiting)
  from data_ready_callback_safe [OF script_callbacks s(1)] s show ?thesis by (intro exI [of _ s]) simp
qed

theorem ipc_refines_stream_map_witness:
  "\<exists>s s'. reachable script_env s \<and> streams s = [1 \<mapsto> Waiting 100] \<and> ipc_step script_env (Timeout 100) s s' \<and> streams s' = Map.empty"
proof -
  obtain s where s: "reachable script_env s" "connected s" "streams s = [1 \<mapsto> Waiting 100]" "calls s = [100 \<mapsto> call_frame ping 0]"
    "stream_state_id s ! 0 = 1" "pending s 0 100" "next_stream_id s = 2" "world s = server_packet EVENTSTREAM_APPLICATION_MESSAGE 0 1 @ []"
    by (rule script_waiting)
  let ?s = "(close_stream script_env 0 s)\<lparr>calls := (calls s)(100 := None)\<rparr>"
  have step: "ipc_step script_env (Timeout 100) s ?s"
    by (rule step_timeout [where e = GG_ERR_TIMEOUT]) (simp add: s ggipc_subscribe_timeout_def Let_def call_frame_def)
  have "streams ?s = map_after script_env (Timeout 100) s" using ipc_refines_stream_map [OF script_callbacks s(1) step] by simp
  then show ?thesis using s step by (intro exI [of _ s] exI [of _ ?s]) (simp add: call_frame_def)
qed

theorem dispatch_message_wakes_caller_witness:
  "\<exists>s s' s''. reachable script_env s \<and> streams s 1 = Some (Waiting 100) \<and>
     dispatch_message script_env \<lparr>ch_stream_id = 1, ch_message_type = 0, ch_message_flags = 0\<rparr>
       \<lparr>msg_headers = \<lparr>iter_count = 0, iter_rest = GG_STR []\<rparr>, msg_payload = GG_STR []\<rparr> s = Some (GG_ERR_OK, s') \<and>
     ggipc_subscribe_ready 100 s' = Some (GG_ERR_OK, s'')"
proof -
  obtain s where s: "reachable script_env s" "connected s" "streams s = [1 \<mapsto> Waiting 100]" "calls s = [100 \<mapsto> call_frame ping 0]"
    "stream_state_id s ! 0 = 1" "pending s 0 100" "next_stream_id s = 2" "world s = server_packet EVENTSTREAM_APPLICATION_MESSAGE 0 1 @ []"
    by (rule script_waiting)
  let ?ch = "\<lparr>ch_stream_id = 1, ch_message_type = 0, ch_message_flags = 0\<rparr> :: EventStreamCommonHeaders"
  have "streams s (ch_stream_id ?ch) = Some (Waiting 100)" using s(3) by simp
  from dispatch_message_wakes_caller [OF script_callbacks s(1) this, where
      msg = "\<lparr>msg_headers = \<lparr>iter_count = 0, iter_rest = GG_STR []\<rparr>, msg_payload = GG_STR []\<rparr>"] s(1,3,4)
  show ?thesis by (auto simp: pass_response_to_user_callback_def call_frame_def ping_def es_consts)
qed

theorem validate_handle_current_witness:
  "validate_handle (ipc_init ([] :: byte list)) 3 = Inr 2 \<and>
   validate_handle (close_stream script_env 2 (ipc_init [])) (get_current_handle (ipc_init []) 2) = Inl GG_ERR_NOENTRY"
proof -
  have "table_ok (ipc_init ([] :: byte list))" "2 < GG_IPC_MAX_STREAMS"
    by (simp_all add: table_ok_def ipc_init_def GG_IPC_MAX_STREAMS_def)
  from validate_handle_current [OF this, of 3 script_env] show ?thesis
    by (simp add: get_current_handle_def ipc_init_def GG_IPC_MAX_STREAMS_def)
qed

theorem ggipc_subscribe_send_packet_witness:
  "\<exists>s h s'. ggipc_subscribe_send script_env False ping 7 s = (None, Some h, s') \<and> streams s' 2 = Some (Waiting 7)"
proof -
  obtain s where s: "reachable script_env s" "connected s" "streams s = [1 \<mapsto> Waiting 100]" "calls s = [100 \<mapsto> call_frame ping 0]"
    "stream_state_id s ! 0 = 1" "pending s 0 100" "next_stream_id s = 2" "world s = server_packet EVENTSTREAM_APPLICATION_MESSAGE 0 1 @ []"
    by (rule script_waiting)
  have "card (dom (streams s)) < GG_IPC_MAX_STREAMS" "calls s 7 = None" "sint (next_stream_id s) < 2 ^ 31 - 1"
    by (simp_all add: s GG_IPC_MAX_STREAMS_def)
  from ggipc_subscribe_send_packet [OF reachable_inv [OF script_callbacks s(1)] s(2) this ping_fits, of script_env] s(7)
  show ?thesis by (intro exI [of _ s]) auto
qed

theorem ggipc_subscribe_send_error_witness:
  "\<exists>s s'. streams s = [1 \<mapsto> Waiting 100] \<and> ggipc_subscribe_send script_env True ping 7 s = (Some GG_ERR_INVALID, None, s') \<and>
     streams s' = [1 \<mapsto> Waiting 100]"
proof -
  obtain s where s: "reachable script_env s" "connected s" "streams s = [1 \<mapsto> Waiting 100]" "calls s = [100 \<mapsto> call_frame ping 0]"
    "stream_state_id s ! 0 = 1" "pending s 0 100" "next_stream_id s = 2" "world s = server_packet EVENTSTREAM_APPLICATION_MESSAGE 0 1 @ []"
    by (rule script_waiting)
  have r: "ggipc_subscribe_send script_env True ping 7 s = (Some GG_ERR_INVALID, None, s)"
    using s(2) by (simp add: ggipc_subscribe_send_def)
  have "calls s 7 = None" "sint (next_stream_id s) < 2 ^ 31 - 1" by (simp_all add: s)
  from ggipc_subscribe_send_error [OF reachable_inv [OF script_callbacks s(1)] this r] r s(3) show ?thesis by metis
qed

end
