(* ===== verification/Ipc_Socket.thy ===== *)
theory Ipc_Socket
  imports Posix Ipc_Properties
begin

text \<open>
  The IPC client on sockets: the environment in which \<open>src/ipc/client.c\<close> reads and writes through
  \<open>src/socket.c\<close> and \<open>src/file.c\<close>, so that the state of the client's world is that of the system.

  A packet arrives in the pieces in which the system delivers it; the lemmas show that the reader
  over a socket behaves as the reader over the whole byte stream, and that connecting keeps the
  descriptors balanced.

  A call that never returns, because signals interrupt it forever, has no result that the functions of \<open>ipc_env\<close> could
  give; \<open>os_env\<close> and \<open>gg_socket_reader\<close> put \<open>GG_ERR_FATAL\<close> there. The theorems are about systems that keep the
  contract \<open>posix\<close>, and on them this case does not arise: \<open>file_read_keeps\<close> and \<open>file_write_keeps\<close> show that
  every read and write returns.
\<close>

section \<open>The environment\<close>

definition os_env :: "'w os \<Rightarrow> 'w ipc_env \<Rightarrow> 'w ipc_env" where
  \<comment> \<open>\<open>None\<close> does not occur under \<open>posix\<close>, by \<open>file_write_keeps\<close>\<close>
  "os_env os env =
     env\<lparr>sock_write := (\<lambda>fd bs w. case gg_socket_write os fd bs w of Some r \<Rightarrow> r | None \<Rightarrow> (GG_ERR_FATAL, w)),
         sock_reader := gg_socket_reader os, sock_connect := gg_connect os, sock_close := (\<lambda>fd w. snd (gg_close os fd w))\<rparr>"

section \<open>Packets in pieces\<close>

definition follows :: "'w GgReader \<Rightarrow> ('w \<Rightarrow> byte list) \<Rightarrow> bool" where
  \<comment> \<open>the reader takes bytes off the stream \<open>incoming\<close>\<close>
  "follows R incoming \<longleftrightarrow>
     (\<forall>w n. \<exists>w'. gg_reader_call R w n = (Inr (take n (incoming w)), w') \<and> incoming w' = drop n (incoming w))"

lemma follows_exact:
  assumes "follows R incoming"
  obtains w' where "gg_reader_call_exact R w n = (fst (gg_reader_call_exact stream_reader (incoming w) n), w')"
    "incoming w' = snd (gg_reader_call_exact stream_reader (incoming w) n)"
proof -
  obtain w' where "gg_reader_call R w n = (Inr (take n (incoming w)), w')" "incoming w' = drop n (incoming w)"
    using assms unfolding follows_def by blast
  then show thesis using that by (simp add: gg_reader_call_exact_def stream_reader_def)
qed

lemma get_packet_follows:
  assumes R: "follows R incoming"
  obtains w' where "eventsteam_get_packet R w buffer = (fst (eventsteam_get_packet stream_reader (incoming w) buffer), w')"
    "incoming w' = snd (eventsteam_get_packet stream_reader (incoming w) buffer)"
proof -
  let ?p = "gg_buffer_substr buffer 0 12"
  obtain w1 where 1: "gg_reader_call_exact R w (len ?p) = (fst (gg_reader_call_exact stream_reader (incoming w) (len ?p)), w1)"
    "incoming w1 = snd (gg_reader_call_exact stream_reader (incoming w) (len ?p))" by (rule follows_exact [OF R])
  obtain r s1 where s: "gg_reader_call_exact stream_reader (incoming w) (len ?p) = (r, s1)" by fastforce
  have two: "\<exists>w2. gg_reader_call_exact R w1 k = (fst (gg_reader_call_exact stream_reader s1 k), w2) \<and>
      incoming w2 = snd (gg_reader_call_exact stream_reader s1 k)" for k
    using follows_exact [OF R, of w1 k] 1(2) s by simp metis
  show thesis
  proof (cases r)
    case (Inl e)
    then show thesis using that 1 s by (simp add: eventsteam_get_packet_def Let_def)
  next
    case (Inr bs)
    then have r: "gg_reader_call_exact R w (len ?p) = (Inr bs, w1)" "incoming w1 = s1"
      "gg_reader_call_exact stream_reader (incoming w) (len ?p) = (Inr bs, s1)" using 1 s by simp_all
    show thesis
    proof (cases "eventstream_decode_prelude (?p\<lparr>mem := bs\<rparr>)")
      case (Inl e)
      then show thesis using that r by (simp add: eventsteam_get_packet_def Let_def)
    next
      case (Inr prelude)
      obtain w2 where w2: "gg_reader_call_exact R w1 k = (fst (gg_reader_call_exact stream_reader s1 k), w2)"
        "incoming w2 = snd (gg_reader_call_exact stream_reader s1 k)" if "k = len (gg_buffer_substr buffer 0 (unat (pre_data_len prelude)))" for k
        using two by blast
      obtain r2 s2 where s2: "gg_reader_call_exact stream_reader s1 (len (gg_buffer_substr buffer 0 (unat (pre_data_len prelude)))) = (r2, s2)" by fastforce
      show thesis using that r Inr w2 [OF refl] s2 by (cases r2; cases "unat (pre_data_len prelude) > len buffer") (simp_all add: eventsteam_get_packet_def Let_def)
    qed
  qed
qed

lemma get_packet_invariant:
  assumes I: "\<And>w n. I w \<Longrightarrow> I (snd (gg_reader_call R w n))" and w: "I w"
  shows "I (snd (eventsteam_get_packet R w buffer))"
proof -
  have e: "I (snd (gg_reader_call_exact R w n))" if "I w" for w n
    using I [OF that, of n] by (auto simp: gg_reader_call_exact_def split: prod.splits sum.splits)
  then have "I w2" if "gg_reader_call_exact R w1 n = (r, w2)" "I w1" for w1 n r w2 using that by (metis snd_conv)
  then show ?thesis using w by (auto simp: eventsteam_get_packet_def Let_def split: prod.splits sum.splits)
qed

section \<open>Descriptors of the client\<close>

lemma connect_error: "gg_connect os path w = (r, w') \<Longrightarrow> r \<noteq> Inl GG_ERR_OK"
  by (auto simp: gg_connect_def split: prod.splits sum.splits if_splits)

lemma connect_returns: "ggipc_connect_with_payload env path payload s \<noteq> None"
proof -
  have "connect_handshake env conn payload w \<noteq> None" for conn w
    by (auto simp: connect_handshake_def Let_def bind_eq_None_conv dest: packet_headers(1) split: prod.splits sum.splits if_splits)
  then show ?thesis by (auto simp: ggipc_connect_with_payload_def simp del: not_None_eq split: prod.splits sum.splits)
qed

context posix
begin

lemma file_read_keeps: obtains r w' where "gg_file_read os fd n w = Some (r, w')" "keeps w w'"
proof -
  have "\<exists>r w'. read_loop os fd n [] w = Some (r, w') \<and> keeps w w'"
    by (rule read_loop_total [where Q = "\<lambda>got w r w'. keeps w w'"]) (auto simp: keeps_def dest!: read_law)
  then show thesis using that by (auto simp: gg_file_read_def)
qed

lemma file_write_keeps: obtains r w' where "gg_file_write os fd bs w = Some (r, w')" "keeps w w'"
proof -
  have "\<exists>r w'. gg_file_write os fd bs w = Some (r, w') \<and> keeps w w'"
    by (rule write_total [where Q = "\<lambda>bs w r w'. keeps w w'"]) (auto simp: keeps_def dest!: write_law)
  then show thesis using that by blast
qed

lemma send_packet_keeps: "keeps w (snd (ipc_send_packet (os_env os env) conn hdrs payload w))"
proof -
  have "keeps w w" by (simp add: keeps_def)
  moreover obtain ret memory n x where "eventstream_encode (replicate GG_IPC_MAX_MSG_LEN 0) hdrs payload () = (ret, memory, n, x)"
    by (metis prod_cases4)
  moreover obtain r w' where "gg_file_write os conn (take n memory) w = Some (r, w')" "keeps w w'" by (rule file_write_keeps)
  ultimately show ?thesis by (simp add: ipc_send_packet_def os_env_def gg_socket_write_def)
qed

lemma get_packet_keeps: "keeps w (snd (eventsteam_get_packet (gg_socket_reader os conn) w buffer))"
proof (rule get_packet_invariant)
  fix w1 n assume k: "keeps w w1"
  obtain r w2 where "gg_file_read os conn n w1 = Some (r, w2)" "keeps w1 w2" by (rule file_read_keeps)
  then show "keeps w (snd (gg_reader_call (gg_socket_reader os conn) w1 n))"
    using keeps_trans [OF k] by (simp add: gg_socket_reader_def)
qed (simp add: keeps_def)

lemma connect_handshake_keeps:
  assumes epoll: "\<And>w. fds (snd (epoll_add env conn w)) = fds w"
    and c: "connect_handshake (os_env os env) conn payload w = Some (ret, w')"
  shows "fds w' = fds w"
proof -
  have e: "sock_reader (os_env os env) = gg_socket_reader os" "recv_buffer (os_env os env) = recv_buffer env"
    "epoll_add (os_env os env) = epoll_add env" "f64_text (os_env os env) = f64_text env"
    "extra_header_handler (os_env os env) = extra_header_handler env"
    by (simp_all add: os_env_def recv_buffer_def)
  have s: "fds w2 = fds w1" if "ipc_send_packet (os_env os env) conn hdrs pl w1 = (r, w2)" for hdrs pl w1 r w2
    using send_packet_keeps [of w1 env conn hdrs pl] that by (simp add: keeps_def)
  have g: "fds w2 = fds w1" if "eventsteam_get_packet (gg_socket_reader os conn) w1 b = (r, w2)" for b w1 r w2
    using get_packet_keeps [of w1 conn b] that by (simp add: keeps_def)
  have a: "fds w2 = fds w1" if "epoll_add env conn w1 = (r, w2)" for w1 r w2 using epoll [of w1] that by simp
  obtain r1 w1 where 1: "ipc_send_packet (os_env os env) conn [int32_header '':message-type'' EVENTSTREAM_CONNECT, int32_header '':message-flags'' 0,
      int32_header '':stream-id'' 0, string_header '':version'' (GG_STR ''0.1.0'')] (gg_json_reader (f64_text env) payload) w = (r1, w1)"
    by fastforce
  obtain r2 w2 where 2: "eventsteam_get_packet (gg_socket_reader os conn) w1 (recv_buffer env) = (r2, w2)" by fastforce
  obtain r3 w3 where 3: "epoll_add env conn w2 = (r3, w3)" by fastforce
  have "w' \<in> {w1, w2, w3}" using c 1 2 3 unfolding connect_handshake_def Let_def e
    by (cases r2) (auto split: sum.splits if_splits bind_splits)
  then show ?thesis using s [OF 1] g [OF 2] a [OF 3] by auto
qed

lemma connect_with_payload_balanced:
  assumes epoll: "\<And>conn w. fds (snd (epoll_add env conn w)) = fds w"
    and c: "ggipc_connect_with_payload (os_env os env) path payload s = Some (ret, s')"
  shows "if ret = GG_ERR_OK
    then 0 \<le> ipc_conn_fd s' \<and> ipc_conn_fd s' \<notin> fds (world s) \<and> fds (world s') = insert (ipc_conn_fd s') (fds (world s))
    else ipc_conn_fd s' = ipc_conn_fd s \<and> fds (world s') = fds (world s)"
proof -
  obtain r w1 where 1: "gg_connect os path (world s) = (r, w1)" by (cases "gg_connect os path (world s)")
  then have o: "opens (world s) r w1" using connect_opens [of "world s" path] by simp
  have e: "sock_connect (os_env os env) = gg_connect os" "sock_close (os_env os env) conn w = snd (gg_close os conn w)" for conn w
    by (simp_all add: os_env_def)
  show ?thesis
  proof (cases r)
    case (Inl err)
    then have "err \<noteq> GG_ERR_OK" using connect_error [OF 1] by blast
    moreover have "ggipc_connect_with_payload (os_env os env) path payload s = Some (err, s\<lparr>world := w1\<rparr>)"
      using 1 Inl by (simp add: ggipc_connect_with_payload_def e)
    ultimately show ?thesis using c o Inl by (auto simp: yields_def)
  next
    case (Inr conn)
    have u: "ggipc_connect_with_payload (os_env os env) path payload s = map_option (\<lambda>(ret, w).
        if ret \<noteq> GG_ERR_OK then (ret, s\<lparr>world := snd (gg_close os conn w)\<rparr>) else (GG_ERR_OK, s\<lparr>world := w, ipc_conn_fd := conn\<rparr>))
        (connect_handshake (os_env os env) conn payload w1)"
      using 1 Inr by (simp add: ggipc_connect_with_payload_def e cong: if_cong)
    obtain r2 w2 where h: "connect_handshake (os_env os env) conn payload w1 = Some (r2, w2)"
      using c u by (cases "connect_handshake (os_env os env) conn payload w1") auto
    have "owns (fds (world s)) conn w2" using o Inr connect_handshake_keeps [OF epoll h] by (simp add: yields_def owns_def)
    then show ?thesis using c u h close_owned [of "fds (world s)" conn w2] by (cases "r2 = GG_ERR_OK") (auto simp: owns_def)
  qed
qed

end

section \<open>Properties\<close>

text \<open>
  C13: A packet is received whole however the system cuts the byte stream into pieces and however often
  a signal interrupts the reads: if the bytes that arrive on the socket start with an encoded
  packet and the buffer is large enough, then \<open>eventsteam_get_packet\<close> over the socket gives the
  headers, the common header fields and the payload of that packet, and the byte after it is
  the next one to be read.
\<close>
theorem packet_received_in_pieces:
  assumes sock: "stream_fd os fds interrupts fd incoming outgoing"
    and ok: "list_all header_ok hs" and H: "H = concat (map header_bytes hs)"
    and small: "16 + length H + length P \<le> UINT32_MAX"
    and buf: "12 \<le> len buffer" "4 + length H + length P \<le> len buffer"
    and arrives: "incoming w = packet H P @ rest"
  shows "\<exists>msg w' hs'. eventsteam_get_packet (gg_socket_reader os fd) w buffer = (Inr msg, w') \<and> incoming w' = rest \<and>
     header_list (unat (iter_count (msg_headers msg))) (msg_headers msg) = Some hs' \<and>
     map header_view hs' = map header_view hs \<and> mem (msg_payload msg) = P \<and>
     eventstream_get_common_headers msg =
       Some (common_of hs \<lparr>ch_stream_id = 0, ch_message_type = 0, ch_message_flags = 0\<rparr>)"
proof -
  have "follows (gg_socket_reader os fd) incoming"
    unfolding follows_def using stream_fd.socket_reader_stream [OF sock] by metis
  from get_packet_follows [OF this, of w buffer] get_packet_stream [OF ok H small buf, of rest] arrives
  show ?thesis by (metis fst_conv snd_conv)
qed

text \<open>
  C14: Connecting returns and leaks no socket. On success the connection is a new descriptor and it is
  the only one added; if any step fails (the socket, the connect packet, the answer of the
  server, the registration with the receive thread) the socket is closed and the client keeps
  the connection it had.
\<close>
theorem ggipc_connect_balanced:
  assumes sys: "posix os fds interrupts" and epoll: "\<And>conn w. fds (snd (epoll_add env conn w)) = fds w"
  shows "\<exists>ret s'. ggipc_connect_with_payload (os_env os env) path payload s = Some (ret, s') \<and>
    (if ret = GG_ERR_OK
     then 0 \<le> ipc_conn_fd s' \<and> ipc_conn_fd s' \<notin> fds (world s) \<and> fds (world s') = insert (ipc_conn_fd s') (fds (world s))
     else ipc_conn_fd s' = ipc_conn_fd s \<and> fds (world s') = fds (world s))"
proof -
  obtain ret s' where c: "ggipc_connect_with_payload (os_env os env) path payload s = Some (ret, s')"
    using connect_returns by fastforce
  from posix.connect_with_payload_balanced [OF sys epoll c] c show ?thesis by blast
qed

section \<open>Concrete instances\<close>

definition packet_arrives :: memsys where
  \<comment> \<open>a packet in pieces of two bytes, with interrupts\<close>
  "packet_arrives = memory_start\<lparr>m_in := packet [] [1, 2, 3] @ [9, 9]\<rparr>"

definition socket_env :: "memsys ipc_env" where
  "socket_env =
     \<lparr>sock_write = (\<lambda>_ _ w. (GG_ERR_OK, w)), sock_reader = (\<lambda>_. None), sock_connect = (\<lambda>_ w. (Inl GG_ERR_FAILURE, w)),
      sock_close = (\<lambda>_ w. w), epoll_add = (\<lambda>_ w. (GG_ERR_OK, w)), extra_header_handler = (\<lambda>_. GG_ERR_OK),
      f64_text = (\<lambda>_. None), strtod_of = (\<lambda>_. (0, False)), recv_mem_at = 1000, decode_mem_at = 20000, memory_around = (\<lambda>_ _. 57),
      result_cb = (\<lambda>_ _ _ s. (GG_ERR_OK, s)), error_cb = (\<lambda>_ _ _ _ s. (GG_ERR_OK, s)),
      sub_cb = (\<lambda>_ _ _ _ _ _ s. (GG_ERR_OK, s))\<rparr>"

theorem packet_received_in_pieces_witness:
  "\<exists>msg w'. eventsteam_get_packet (gg_socket_reader memory_os 5) packet_arrives \<lparr>data = 0, mem = replicate 20 0\<rparr> = (Inr msg, w') \<and>
     m_in w' = [9, 9] \<and> mem (msg_payload msg) = [1, 2, 3]"
  using packet_received_in_pieces [OF memory.stream_fd_axioms, of "[]" "[]" "[1, 2, 3]" "\<lparr>data = 0, mem = replicate 20 0\<rparr>"
      packet_arrives "[9, 9]" 5]
  by (auto simp: UINT32_MAX_def packet_arrives_def)

theorem ggipc_connect_balanced_witness:
  "\<exists>ret s'. ggipc_connect_with_payload (os_env memory_os socket_env) (GG_STR ''/ipc'') (OBJ_MAP 0 []) (ipc_init memory_start) = Some (ret, s') \<and>
    (ret \<noteq> GG_ERR_OK \<longrightarrow> mem_fds (world s') = mem_fds memory_start)"
proof -
  have "mem_fds (snd (epoll_add socket_env conn w)) = mem_fds w" for conn w by (simp add: socket_env_def)
  from ggipc_connect_balanced [OF memory.posix_axioms this, of "GG_STR ''/ipc''" "OBJ_MAP 0 []" "ipc_init memory_start"]
  show ?thesis by (auto simp: ipc_init_def split: if_splits)
qed

end
