(* ===== verification/Runtime.thy ===== *)
theory Runtime
  imports Posix
begin

text \<open>
  Random bytes, sleeping, retries with backoff, absolute values and start-up
  (\<open>src/rand.c\<close>, \<open>src/sleep.c\<close>, \<open>src/backoff.c\<close>, \<open>src/math.c\<close>, \<open>src/init.c\<close>).

  These functions end the process when something goes wrong that they cannot report, so
  their results are of type \<open>run\<close>. The system call \<open>nanosleep\<close> is an argument; the locale \<open>runtime\<close>
  states what it promises about the clock. The properties are that sleeping takes at least the
  time asked for, and that \<open>gg_backoff\<close> makes exactly the attempts and pauses it should.
\<close>

section \<open>Absolute value\<close>

definition INT32_MIN :: int where
  "INT32_MIN = - (2 ^ 31)"

definition gg_abs :: "int \<Rightarrow> u64" where
  \<comment> \<open>for an argument in the range of \<open>int64_t\<close>; division truncates\<close>
  "gg_abs i64 =
     (if i64 \<ge> 0 then of_int i64
      else if i64 \<ge> INT32_MIN then of_int (- i64)
      else of_int (i64 sdiv INT32_MIN) * of_int (- INT32_MIN) + of_int (- (i64 smod INT32_MIN)))"

section \<open>Random bytes\<close>

datatype 'a run = Exit int | Done 'a  \<comment> \<open>\<open>_Exit\<close> ends the process\<close>

definition init_urandom_fd :: "'w os \<Rightarrow> 'w \<Rightarrow> int run \<times> 'w" where
  \<comment> \<open>the value of \<open>random_fd\<close>\<close>
  "init_urandom_fd os w =
     (case sys_open os (bytes_of ''/dev/random'') (O_RDONLY OR O_CLOEXEC) w of
        (Inl _, w) \<Rightarrow> (Exit 1, w)
      | (Inr random_fd, w) \<Rightarrow> (Done random_fd, w))"

definition gg_rand_fill :: "'w os \<Rightarrow> int \<Rightarrow> nat \<Rightarrow> 'w \<Rightarrow> (byte list run \<times> 'w) option" where
  "gg_rand_fill os random_fd n w =
     (case gg_file_read_exact os random_fd n w of
        None \<Rightarrow> None
      | Some (Inl _, w) \<Rightarrow> Some (Exit 1, w)
      | Some (Inr bs, w) \<Rightarrow> Some (Done bs, w))"

section \<open>Sleeping\<close>

record timespec =
  tv_sec :: int
  tv_nsec :: int

type_synonym 'w nanosleep = "timespec \<Rightarrow> 'w \<Rightarrow> (errno \<times> timespec + unit) \<times> 'w"
  \<comment> \<open>a call that fails gives \<open>errno\<close> and what it stored as the remaining time\<close>

partial_function (option) sleep_timespec :: "'w nanosleep \<Rightarrow> timespec \<Rightarrow> 'w \<Rightarrow> (GgError \<times> 'w) option" where
  "sleep_timespec nanosleep remain w =
     (case nanosleep remain w of (r, w) \<Rightarrow>
        (case r of
           Inr _ \<Rightarrow> Some (GG_ERR_OK, w)
         | Inl er \<Rightarrow>
             if fst er \<noteq> EINTR then Some (GG_ERR_FAILURE, w) else sleep_timespec nanosleep (snd er) w))"

definition gg_sleep :: "'w nanosleep \<Rightarrow> int \<Rightarrow> 'w \<Rightarrow> (GgError \<times> 'w) option" where
  "gg_sleep nanosleep seconds w = sleep_timespec nanosleep \<lparr>tv_sec = seconds, tv_nsec = 0\<rparr> w"

definition gg_sleep_ms :: "'w nanosleep \<Rightarrow> int \<Rightarrow> 'w \<Rightarrow> (GgError \<times> 'w) option" where
  \<comment> \<open>the conversion to \<open>int32_t\<close> is written out\<close>
  "gg_sleep_ms nanosleep ms w =
     sleep_timespec nanosleep
       \<lparr>tv_sec = ms sdiv 1000, tv_nsec = sint (of_int (ms smod 1000 * 1000 * 1000) :: 32 word)\<rparr> w"

section \<open>Retries\<close>

definition le_word :: "byte list \<Rightarrow> 'a::len word" where
  \<comment> \<open>an integer of a little-endian machine, read from its bytes\<close>
  "le_word bs = foldr (\<lambda>b acc. ucast b OR push_bit 8 acc) bs 0"

definition backoff_get_rand :: "'w os \<Rightarrow> int \<Rightarrow> 'w \<Rightarrow> (u64 run \<times> 'w) option" where
  "backoff_get_rand os random_fd w =
     (case gg_rand_fill os random_fd 8 w of
        None \<Rightarrow> None
      | Some (Exit status, w) \<Rightarrow> Some (Exit status, w)
      | Some (Done bs, w) \<Rightarrow> Some (Done (le_word bs), w))"

definition backoff_sleep :: "'w nanosleep \<Rightarrow> u32 \<Rightarrow> 'w \<Rightarrow> (unit run \<times> 'w) option" where
  "backoff_sleep nanosleep ms w =
     (case gg_sleep_ms nanosleep (uint ms) w of
        None \<Rightarrow> None
      | Some (sleep_err, w) \<Rightarrow> Some (if sleep_err \<noteq> GG_ERR_OK then Exit 1 else Done (), w))"

partial_function (option) backoff_loop ::
  "'w os \<Rightarrow> 'w nanosleep \<Rightarrow> int \<Rightarrow> u32 \<Rightarrow> u32 \<Rightarrow> ('w \<Rightarrow> GgError \<times> 'w) \<Rightarrow> u32 \<Rightarrow> u32 \<Rightarrow> 'w \<Rightarrow> (GgError run \<times> 'w) option" where
  "backoff_loop os nanosleep random_fd max_ms max_attempts fn current_max_ms attempts w =
     (case fn w of (ret, w) \<Rightarrow>
        if ret = GG_ERR_OK then Some (Done GG_ERR_OK, w)
        else if max_attempts \<noteq> 0 \<and> attempts + 1 = max_attempts then Some (Done ret, w)
        else
     (case backoff_get_rand os random_fd w of
        None \<Rightarrow> None
      | Some (Exit status, w) \<Rightarrow> Some (Exit status, w)
      | Some (Done rand, w) \<Rightarrow>
     (case backoff_sleep nanosleep (ucast (rand mod ucast current_max_ms)) w of
        None \<Rightarrow> None
      | Some (Exit status, w) \<Rightarrow> Some (Exit status, w)
      | Some (Done _, w) \<Rightarrow>
          backoff_loop os nanosleep random_fd max_ms max_attempts fn
            (if current_max_ms \<le> max_ms div 2 then current_max_ms * 2 else max_ms)
            (if max_attempts \<noteq> 0 then attempts + 1 else attempts) w)))"

definition gg_backoff ::
  "'w os \<Rightarrow> 'w nanosleep \<Rightarrow> int \<Rightarrow> u32 \<Rightarrow> u32 \<Rightarrow> u32 \<Rightarrow> ('w \<Rightarrow> GgError \<times> 'w) option \<Rightarrow> 'w \<Rightarrow> (GgError run \<times> 'w) option" where
  "gg_backoff os nanosleep random_fd base_ms max_ms max_attempts fn w =
     (case fn of
        None \<Rightarrow> Some (Done GG_ERR_UNSUPPORTED, w)
      | Some fn \<Rightarrow>
          if base_ms = 0 then Some (Done GG_ERR_UNSUPPORTED, w)
          else if max_ms = 0 then Some (Done GG_ERR_UNSUPPORTED, w)
          else backoff_loop os nanosleep random_fd max_ms max_attempts fn base_ms 0 w)"

section \<open>Start-up\<close>

type_synonym 'w init_list = "('w \<Rightarrow> GgError \<times> 'w) list"  \<comment> \<open>the functions of the entries, from the head on\<close>

definition gg_register_init_fn :: "('w \<Rightarrow> GgError \<times> 'w) \<Rightarrow> 'w init_list \<Rightarrow> 'w init_list" where
  "gg_register_init_fn entry init_list = entry # init_list"

fun run_init :: "'w init_list \<Rightarrow> 'w \<Rightarrow> unit run \<times> 'w" where
  "run_init [] w = (Done (), w)"
| "run_init (fn # list) w =
     (case fn w of (ret, w) \<Rightarrow> if ret \<noteq> GG_ERR_OK then (Exit 1, w) else run_init list w)"

definition gg_sdk_init :: "'w init_list \<Rightarrow> 'w \<Rightarrow> unit run \<times> 'w init_list \<times> 'w" where
  \<comment> \<open>the list is emptied first, so that a second call does nothing; the functions register no others\<close>
  "gg_sdk_init init_list w = (case run_init init_list w of (r, w) \<Rightarrow> (r, [], w))"

section \<open>Absolute value: lemma\<close>

lemma uint_of_int_small: "0 \<le> x \<Longrightarrow> x < 2 ^ 64 \<Longrightarrow> uint (of_int x :: u64) = x"
  by (simp add: of_int_uint uint_word_of_int)

lemma abs_split:
  assumes "x < - (2 ^ 31)"
  shows "x sdiv INT32_MIN = \<bar>x\<bar> div 2 ^ 31" "x smod INT32_MIN = - (\<bar>x\<bar> mod 2 ^ 31)"
  using assms by (simp_all add: INT32_MIN_def signed_divide_int_def signed_modulo_int_def minus_div_mult_eq_mod [symmetric] sgn_if abs_if)

section \<open>Sleeping: lemmas\<close>

lemma sint_of_int_small: "- (2 ^ 31) \<le> x \<Longrightarrow> x < 2 ^ 31 \<Longrightarrow> sint (of_int x :: 32 word) = x"
  by (simp add: signed_of_int signed_take_bit_int_eq_self)

definition nanos :: "timespec \<Rightarrow> int" where
  "nanos t = tv_sec t * 1000000000 + tv_nsec t"

definition timespec_ok :: "timespec \<Rightarrow> bool" where
  "timespec_ok t \<longleftrightarrow> 0 \<le> tv_sec t \<and> 0 \<le> tv_nsec t \<and> tv_nsec t < 1000000000"

text \<open>
  What the code relies on: the sleep lasts as long as asked for; a signal cuts it short and the time
  that is left is stored. The random device never ends.
\<close>

locale runtime = posix os fds interrupts for os :: "'w os" and fds interrupts +
  fixes nanosleep :: "'w nanosleep" and clock :: "'w \<Rightarrow> int" and random_fd :: int
  assumes nanosleep_law: "nanosleep t w = (r, w') \<Longrightarrow> timespec_ok t \<Longrightarrow>
      (case r of
         Inr _ \<Rightarrow> clock w + nanos t \<le> clock w'
       | Inl er \<Rightarrow> fst er = EINTR \<and> timespec_ok (snd er) \<and> clock w + nanos t \<le> clock w' + nanos (snd er) \<and> interrupts w' < interrupts w)"
    and random_law: "sys_read os random_fd n w = (bytes, w') \<Longrightarrow> 0 < n \<Longrightarrow>
      (case bytes of Inr bs \<Rightarrow> bs \<noteq> [] \<and> length bs \<le> n | Inl e \<Rightarrow> e = EINTR)"
begin

lemma sleep_timespec_total:
  "timespec_ok t \<Longrightarrow> \<exists>w'. sleep_timespec nanosleep t w = Some (GG_ERR_OK, w') \<and> clock w + nanos t \<le> clock w'"
proof (induction "interrupts w" arbitrary: t w rule: less_induct)
  case less
  obtain r w1 where r: "nanosleep t w = (r, w1)" by fastforce
  note law = nanosleep_law [OF r less.prems]
  show ?case
  proof (cases r)
    case (Inl er)
    then obtain w' where "sleep_timespec nanosleep (snd er) w1 = Some (GG_ERR_OK, w')" "clock w1 + nanos (snd er) \<le> clock w'"
      using less.hyps law by fastforce
    then show ?thesis using Inl r law by (subst sleep_timespec.simps) simp
  next
    case (Inr u)
    then show ?thesis using r law by (subst sleep_timespec.simps) simp
  qed
qed

lemma sleep_ms_total:
  assumes "0 \<le> ms"
  shows "\<exists>w'. gg_sleep_ms nanosleep ms w = Some (GG_ERR_OK, w') \<and> clock w + ms * 1000000 \<le> clock w'"
proof -
  let ?n = "ms mod 1000 * 1000000"
  have d: "ms sdiv 1000 = ms div 1000" "ms smod 1000 * 1000 * 1000 = ?n"
    using assms by (simp_all add: signed_divide_int_def signed_modulo_int_def sgn_if minus_div_mult_eq_mod)
  have b: "0 \<le> ?n" "?n < 1000000000" by simp_all
  then have n: "sint (of_int ?n :: 32 word) = ?n" by (intro sint_of_int_small) simp_all
  let ?t = "\<lparr>tv_sec = ms div 1000, tv_nsec = ?n\<rparr>"
  have "timespec_ok ?t" "nanos ?t = ms * 1000000"
    using assms b by (auto simp: timespec_ok_def nanos_def algebra_simps pos_imp_zdiv_nonneg_iff) presburger
  then show ?thesis using sleep_timespec_total [of ?t w] unfolding gg_sleep_ms_def d n by simp
qed

lemma rand_fill_total: "\<exists>bs w'. gg_rand_fill os random_fd n w = Some (Done bs, w') \<and> length bs = n"
proof -
  have "\<exists>r w'. read_loop os random_fd n [] w = Some (r, w') \<and> (length ([] :: byte list) \<le> n \<longrightarrow> (\<exists>bs. r = Inr bs \<and> length bs = n))"
    by (rule read_loop_total [where Q = "\<lambda>got w r w'. length got \<le> n \<longrightarrow> (\<exists>bs. r = Inr bs \<and> length bs = n)"])
       (auto dest!: random_law)
  then show ?thesis by (auto simp: gg_rand_fill_def gg_file_read_exact_def gg_file_read_def)
qed

end

section \<open>Retries: lemmas\<close>

lemma unat_u32_less: "unat (x :: u32) < 2 ^ 32"
  using unsigned_less [of x] by simp

definition delay_cap :: "nat \<Rightarrow> nat \<Rightarrow> nat \<Rightarrow> nat" where
  \<comment> \<open>the bound for the pause after attempt number \<open>k\<close>, counted from 0\<close>
  "delay_cap base limit k = (if k = 0 then base else min limit (base * 2 ^ k))"

definition backoff_pause :: "'w os \<Rightarrow> 'w nanosleep \<Rightarrow> int \<Rightarrow> nat \<Rightarrow> 'w \<Rightarrow> 'w" where
  \<comment> \<open>a pause of a random number of milliseconds below \<open>cap\<close>\<close>
  "backoff_pause os nanosleep random_fd cap w =
     (case backoff_get_rand os random_fd w of
        Some (Done rand, w) \<Rightarrow>
          (case gg_sleep_ms nanosleep (int (unat rand mod cap)) w of Some (_, w) \<Rightarrow> w | None \<Rightarrow> w)
      | _ \<Rightarrow> w)"

fun backoff_after :: "'w os \<Rightarrow> 'w nanosleep \<Rightarrow> int \<Rightarrow> nat \<Rightarrow> nat \<Rightarrow> ('w \<Rightarrow> GgError \<times> 'w) \<Rightarrow> 'w \<Rightarrow> nat \<Rightarrow> 'w" where
  \<comment> \<open>the state before attempt number \<open>k\<close>\<close>
  "backoff_after os nanosleep random_fd base limit fn w 0 = w"
| "backoff_after os nanosleep random_fd base limit fn w (Suc k) =
     backoff_pause os nanosleep random_fd (delay_cap base limit k)
       (snd (fn (backoff_after os nanosleep random_fd base limit fn w k)))"

lemma delay_cap_Suc:
  fixes cur limit :: u32
  assumes "unat cur = delay_cap base (unat limit) k" "0 < base" "0 < unat limit"
  shows "unat (if cur \<le> limit div 2 then cur * 2 else limit) = delay_cap base (unat limit) (Suc k)"
proof -
  have le: "cur \<le> limit div 2 \<longleftrightarrow> unat cur \<le> unat limit div 2" by (simp add: word_le_nat_alt unat_div)
  have d: "unat (cur * 2) = 2 * unat cur" if "unat cur \<le> unat limit div 2"
    using that unat_u32_less [of limit] unat_mult_lem [of cur 2] by (simp add: mult.commute) linarith
  have c: "unat cur = base \<or> unat cur = min (unat limit) (base * 2 ^ k)" "k = 0 \<longrightarrow> unat cur = base"
    "k \<noteq> 0 \<longrightarrow> unat cur = min (unat limit) (base * 2 ^ k)" using assms(1) by (auto simp: delay_cap_def)
  have p: "base * 2 ^ Suc k = 2 * (base * 2 ^ k)" by simp
  show ?thesis
  proof (cases "unat cur \<le> unat limit div 2")
    case True
    then have "unat cur < unat limit" using assms(3) by linarith
    then have "unat cur = base * 2 ^ k" using c by (cases "k = 0") auto
    then show ?thesis using True le d [OF True] by (simp add: delay_cap_def)
  next
    case False
    then have "unat limit \<le> 2 * (base * 2 ^ k)" using c by (cases "k = 0") auto
    then show ?thesis using False le by (simp add: delay_cap_def)
  qed
qed

lemma unat_rand_mod:
  assumes "cur \<noteq> (0 :: u32)"
  shows "unat (ucast ((rand :: u64) mod ucast cur) :: u32) = unat rand mod unat cur"
proof -
  have lt: "unat cur < 2 ^ 32" using unat_u32_less [of cur] by simp
  then have u: "unat (ucast cur :: u64) = unat cur" by (simp add: unsigned_ucast_eq take_bit_nat_eq_self)
  have "unat rand mod unat cur < unat cur" using assms by (intro mod_less_divisor) (simp add: unat_gt_0)
  then show ?thesis using lt by (simp add: unsigned_ucast_eq unat_mod u take_bit_nat_eq_self)
qed

context runtime
begin

lemma pause_total:
  assumes "cur \<noteq> (0 :: u32)"
  obtains rand w1 where "backoff_get_rand os random_fd w = Some (Done rand, w1)"
    "backoff_sleep nanosleep (ucast (rand mod ucast cur)) w1 = Some (Done (), backoff_pause os nanosleep random_fd (unat cur) w)"
proof -
  obtain bs w1 where r: "gg_rand_fill os random_fd 8 w = Some (Done bs, w1)" using rand_fill_total by blast
  let ?rand = "le_word bs :: u64" and ?ms = "int (unat (le_word bs :: u64) mod unat cur)"
  obtain w2 where s: "gg_sleep_ms nanosleep ?ms w1 = Some (GG_ERR_OK, w2)" using sleep_ms_total [of ?ms w1] by auto
  have "uint (ucast (?rand mod ucast cur) :: u32) = ?ms" using unat_rand_mod [OF assms, of ?rand] by (metis uint_nat)
  with r s that show thesis by (simp add: backoff_get_rand_def backoff_sleep_def backoff_pause_def)
qed

lemma backoff_loop_runs:
  fixes base limit max_attempts :: u32 and fn and w :: 'w
  assumes base: "base \<noteq> 0" and limit: "limit \<noteq> 0"
  defines "after \<equiv> backoff_after os nanosleep random_fd (unat base) (unat limit) fn w"
  assumes stop: "fst (fn (after m)) = GG_ERR_OK \<and> (max_attempts = 0 \<or> m < unat max_attempts) \<or> Suc m = unat max_attempts"
    and fails: "\<forall>j < m. fst (fn (after j)) \<noteq> GG_ERR_OK"
  shows "k \<le> m \<Longrightarrow> unat cur = delay_cap (unat base) (unat limit) k \<Longrightarrow>
    backoff_loop os nanosleep random_fd limit max_attempts fn cur (if max_attempts \<noteq> 0 then of_nat k else 0) (after k) =
    Some (Done (fst (fn (after m))), snd (fn (after m)))"
proof (induction "m - k" arbitrary: k cur)
  case 0
  then have "k = m" by simp
  have a: "of_nat m + 1 = max_attempts" if "Suc m = unat max_attempts"
    using arg_cong [OF that, of "of_nat :: nat \<Rightarrow> u32"] by (simp add: add.commute)
  obtain r w1 where "fn (after m) = (r, w1)" by fastforce
  then show ?case using stop a \<open>k = m\<close> by (subst backoff_loop.simps) auto
next
  case (Suc d)
  then have k: "k < m" "d = m - Suc k" by auto
  obtain r w1 where f: "fn (after k) = (r, w1)" "r \<noteq> GG_ERR_OK" using fails k(1) by (metis prod.collapse)
  have cap: "0 < unat base" "0 < unat limit" using base limit by (auto simp: unat_gt_0)
  then have "cur \<noteq> 0" using Suc.prems(2) by (auto simp: delay_cap_def min_def split: if_splits)
  then obtain rand w2 where p: "backoff_get_rand os random_fd w1 = Some (Done rand, w2)"
    "backoff_sleep nanosleep (ucast (rand mod ucast cur)) w2 = Some (Done (), after (Suc k))"
    using pause_total [of cur w1] Suc.prems(2) f unfolding after_def by auto
  have n: "max_attempts \<noteq> 0 \<longrightarrow> Suc k < unat max_attempts" using stop k(1) by (auto simp: unat_gt_0)
  have "(of_nat k + 1 :: u32) \<noteq> max_attempts" if "max_attempts \<noteq> 0"
  proof
    assume a: "(of_nat k + 1 :: u32) = max_attempts"
    have "Suc k < 2 ^ 32" using n that unat_u32_less [of max_attempts] by simp
    then have "unat (of_nat (Suc k) :: u32) = Suc k" by (simp add: unsigned_of_nat take_bit_nat_eq_self del: of_nat_Suc)
    then show False using n that a by (simp add: add.commute)
  qed
  then show ?case using Suc.hyps(1) [OF k(2)] k(1) delay_cap_Suc [OF Suc.prems(2) cap] f p
    by (subst backoff_loop.simps) (auto simp: add.commute)
qed

end

section \<open>An in-memory system with a clock and a random device\<close>

definition memory_runtime :: "memsys os" where
  "memory_runtime = memory_os\<lparr>sys_read := (\<lambda>_ n. m_interruptible (\<lambda>w. (Inr (replicate n 7), w)))\<rparr>"

definition memory_nanosleep :: "memsys nanosleep" where
  \<comment> \<open>an interrupt wakes the sleeper at once\<close>
  "memory_nanosleep t w =
     (if m_eintr w > 0 then (Inl (EINTR, t), w\<lparr>m_eintr := m_eintr w - 1\<rparr>)
      else (Inr (), w\<lparr>m_clock := m_clock w + nanos t\<rparr>))"

interpretation memory_clock: runtime memory_runtime mem_fds m_eintr memory_nanosleep m_clock fd for fd
proof
  fix w w' :: memsys and r t assume "memory_nanosleep t w = (r, w')" "timespec_ok t"
  then show "case r of Inl er \<Rightarrow> fst er = EINTR \<and> timespec_ok (snd er) \<and> m_clock w + nanos t \<le> m_clock w' + nanos (snd er) \<and> m_eintr w' < m_eintr w
    | Inr _ \<Rightarrow> m_clock w + nanos t \<le> m_clock w'"
    by (auto simp: memory_nanosleep_def split: if_splits)
qed (auto simp: memory_runtime_def memory_os_def m_interruptible_def m_open_dir_def Let_def fresh_fd min_def split: if_splits option.splits)

section \<open>Properties\<close>

text \<open>
  \<open>gg_abs\<close> gives the exact absolute value of every \<open>int64_t\<close>, the smallest one included, whose absolute
  value is not an \<open>int64_t\<close>.
\<close>
theorem gg_abs_correct:
  assumes "- (2 ^ 63) \<le> i64" "i64 < 2 ^ 63"
  shows "uint (gg_abs i64) = \<bar>i64\<bar>"
proof -
  consider "0 \<le> i64" | "- (2 ^ 31) \<le> i64" "i64 < 0" | "i64 < - (2 ^ 31)" by linarith
  then show ?thesis
  proof cases
    case 3
    let ?a = "\<bar>i64\<bar>"
    have "gg_abs i64 = of_int (?a div 2 ^ 31) * of_int (2 ^ 31) + of_int (?a mod 2 ^ 31)"
      using 3 abs_split [OF 3] by (simp add: gg_abs_def INT32_MIN_def)
    also have "\<dots> = of_int (?a div 2 ^ 31 * 2 ^ 31 + ?a mod 2 ^ 31)" by (simp only: of_int_add of_int_mult)
    finally show ?thesis using assms uint_of_int_small [of ?a] by simp
  next
    case 2
    then show ?thesis using uint_of_int_small [of "- i64"] by (simp add: gg_abs_def INT32_MIN_def)
  qed (use assms uint_of_int_small in \<open>simp add: gg_abs_def\<close>)
qed

text \<open>
  A sleep lasts at least as long as asked for and returns, however often signals interrupt it, as
  long as they come to an end: \<open>gg_sleep_ms\<close> goes on with the remaining time, and its conversion of
  milliseconds to a \<open>timespec\<close> is exact.
\<close>
theorem gg_sleep_ms_lasts:
  assumes "runtime os fds interrupts nanosleep clock random_fd" "0 \<le> ms"
  shows "\<exists>w'. gg_sleep_ms nanosleep ms w = Some (GG_ERR_OK, w') \<and> clock w + ms * 1000000 \<le> clock w'"
  using runtime.sleep_ms_total [OF assms] .

text \<open>
  C35: \<open>gg_backoff\<close> calls the function until it succeeds or the attempts run out (0 attempts mean no
  bound), and returns the result of the last call. Between two calls it pauses for a random time
  below a bound that starts with \<open>base_ms\<close>, doubles after every attempt and is at most \<open>max_ms\<close> from the
  second pause on; doubling does not overflow.
\<close>
theorem gg_backoff_attempts:
  fixes base_ms max_ms max_attempts :: u32 and fn and w :: 'w
  assumes "runtime os fds interrupts nanosleep clock random_fd" "base_ms \<noteq> 0" "max_ms \<noteq> 0"
  defines "after \<equiv> backoff_after os nanosleep random_fd (unat base_ms) (unat max_ms) fn w"
  assumes "fst (fn (after m)) = GG_ERR_OK \<and> (max_attempts = 0 \<or> m < unat max_attempts) \<or> Suc m = unat max_attempts"
    and "\<forall>j < m. fst (fn (after j)) \<noteq> GG_ERR_OK"
  shows "gg_backoff os nanosleep random_fd base_ms max_ms max_attempts (Some fn) w =
    Some (Done (fst (fn (after m))), snd (fn (after m)))"
  using runtime.backoff_loop_runs [OF assms(1-3), of fn w m max_attempts 0 base_ms] assms(2-)
  by (simp add: gg_backoff_def delay_cap_def cong: if_cong)

section \<open>Concrete instances\<close>

theorem gg_backoff_attempts_witness:
  "\<exists>w'. gg_backoff memory_runtime memory_nanosleep 5 10 1000 3 (Some (\<lambda>w. (GG_ERR_FAILURE, w))) memory_start = Some (Done GG_ERR_FAILURE, w')"
  using gg_backoff_attempts [OF memory_clock.runtime_axioms, of 10 1000 "\<lambda>w. (GG_ERR_FAILURE, w)" 5 memory_start 2 3] by simp

end
