(* ===== verification/Ipc_Thread.thy ===== *)
theory Ipc_Thread
  imports Runtime Ipc_Properties
begin

text \<open>
  The receive thread (\<open>src/socket_epoll.c\<close>, and the start of the thread in \<open>src/ipc/client.c\<close>).

  The system calls on the epoll descriptor are arguments. While the thread waits, and between
  two packets, it does not hold the mutex of the stream table and the other threads go on, so
  waiting is a function on the whole state of the client, and what the others do before a packet is
  handled is an argument too. The result of the loop is \<open>None\<close> if it runs forever, \<open>Some None\<close>
  if a callback follows a pointer to a frame that is gone, and otherwise the error that ended it,
  which the thread only logs before it ends the process.
\<close>

record 's epoll =
  sys_epoll_create :: "'s \<Rightarrow> int sys \<times> 's"
  sys_epoll_ctl_add :: "int \<Rightarrow> int \<Rightarrow> u64 \<Rightarrow> 's \<Rightarrow> unit sys \<times> 's"  \<comment> \<open>for \<open>EPOLLIN\<close>\<close>
  sys_epoll_wait :: "int \<Rightarrow> nat \<Rightarrow> 's \<Rightarrow> u64 list sys \<times> 's"  \<comment> \<open>the data of the events\<close>

definition gg_socket_epoll_create :: "'s epoll \<Rightarrow> 's \<Rightarrow> int res \<times> 's" where
  "gg_socket_epoll_create ep s =
     (case sys_epoll_create ep s of
        (Inl _, s) \<Rightarrow> (Inl GG_ERR_FAILURE, s)
      | (Inr fd, s) \<Rightarrow> (Inr fd, s))"

definition gg_socket_epoll_add :: "'s epoll \<Rightarrow> int \<Rightarrow> int \<Rightarrow> u64 \<Rightarrow> 's \<Rightarrow> GgError \<times> 's" where
  "gg_socket_epoll_add ep epoll_fd target_fd event_data s =
     (case sys_epoll_ctl_add ep epoll_fd target_fd event_data s of
        (Inl _, s) \<Rightarrow> (GG_ERR_FAILURE, s)
      | (Inr _, s) \<Rightarrow> (GG_ERR_OK, s))"

fun epoll_events :: "(u64 \<Rightarrow> 's \<Rightarrow> (GgError \<times> 's) option) \<Rightarrow> u64 list \<Rightarrow> 's \<Rightarrow> (GgError \<times> 's) option" where
  \<comment> \<open>the callback for every event\<close>
  "epoll_events fd_ready [] s = Some (GG_ERR_OK, s)"
| "epoll_events fd_ready (event # events) s =
     (case fd_ready event s of
        None \<Rightarrow> None
      | Some (ret, s) \<Rightarrow> if ret \<noteq> GG_ERR_OK then Some (ret, s) else epoll_events fd_ready events s)"

partial_function (option) gg_socket_epoll_run ::
  "'s epoll \<Rightarrow> int \<Rightarrow> (u64 \<Rightarrow> 's \<Rightarrow> (GgError \<times> 's) option) \<Rightarrow> 's \<Rightarrow> (GgError \<times> 's) option option" where
  "gg_socket_epoll_run ep epoll_fd fd_ready s =
     (case sys_epoll_wait ep epoll_fd 10 s of (r, s) \<Rightarrow>
        (case r of
           Inl e \<Rightarrow> if e = EINTR then gg_socket_epoll_run ep epoll_fd fd_ready s else Some (Some (GG_ERR_FAILURE, s))
         | Inr events \<Rightarrow>
             (case epoll_events fd_ready events s of
                None \<Rightarrow> Some None
              | Some (ret, s) \<Rightarrow>
                  if ret \<noteq> GG_ERR_OK then Some (Some (ret, s)) else gg_socket_epoll_run ep epoll_fd fd_ready s)))"

definition register_ipc_socket :: "'w epoll \<Rightarrow> int \<Rightarrow> int \<Rightarrow> 'w \<Rightarrow> GgError \<times> 'w" where
  "register_ipc_socket ep epoll_fd conn w = gg_socket_epoll_add ep epoll_fd conn (of_int conn) w"

definition init_ipc_recv_thread :: "'w epoll \<Rightarrow> ('w \<Rightarrow> int \<times> 'w) \<Rightarrow> int \<Rightarrow> 'w \<Rightarrow> GgError \<times> int \<times> 'w" where
  \<comment> \<open>with \<open>pthread_create\<close> for the thread, and the new value of \<open>epoll_fd\<close>\<close>
  "init_ipc_recv_thread ep pthread_create epoll_fd w =
     (case gg_socket_epoll_create ep w of
        (Inl ret, w) \<Rightarrow> (ret, epoll_fd, w)
      | (Inr fd, w) \<Rightarrow>
          (case pthread_create w of (sys_ret, w) \<Rightarrow> (if sys_ret \<noteq> 0 then GG_ERR_FATAL else GG_ERR_OK, fd, w)))"

definition recv_thread ::
  "'w ipc epoll \<Rightarrow> int \<Rightarrow> 'w ipc_env \<Rightarrow> ('w ipc \<Rightarrow> 'w ipc) \<Rightarrow> 'w ipc \<Rightarrow> (unit run \<times> GgError \<times> 'w ipc) option option" where
  \<comment> \<open>\<open>others\<close>: the steps of the other threads before a packet is handled. The code does not look at the
     result of the loop; it is kept here beside the end of the process\<close>
  "recv_thread ep epoll_fd env others s =
     map_option (map_option (\<lambda>(ret, s). (Exit 1, ret, s)))
       (gg_socket_epoll_run ep epoll_fd (\<lambda>_ s. data_ready_callback env (others s)) s)"

section \<open>Lemmas\<close>

lemma epoll_events_invariant:
  assumes "\<And>d s. I s \<Longrightarrow> \<exists>ret s'. fd_ready d s = Some (ret, s') \<and> I s'" and "I s"
  obtains ret s' where "epoll_events fd_ready events s = Some (ret, s')" "I s'"
    "ret \<noteq> GG_ERR_OK \<longrightarrow> (\<exists>d s1. I s1 \<and> fd_ready d s1 = Some (ret, s'))"
  using assms(2)
proof (induction events arbitrary: s thesis)
  case (Cons event events)
  obtain ret s1 where 1: "fd_ready event s = Some (ret, s1)" "I s1" using assms(1) Cons.prems(2) by blast
  show ?case
  proof (cases "ret = GG_ERR_OK")
    case True
    obtain ret' s' where "epoll_events fd_ready events s1 = Some (ret', s')" "I s'"
      "ret' \<noteq> GG_ERR_OK \<longrightarrow> (\<exists>d s1. I s1 \<and> fd_ready d s1 = Some (ret', s'))" by (rule Cons.IH [OF _ 1(2)])
    then show ?thesis using Cons.prems(1) [of ret' s'] 1 True by simp
  next
    case False
    then show ?thesis using Cons.prems(1) [of ret s1] Cons.prems(2) 1 by auto
  qed
qed simp

definition left_by :: "'s epoll \<Rightarrow> int \<Rightarrow> (u64 \<Rightarrow> 's \<Rightarrow> (GgError \<times> 's) option) \<Rightarrow> ('s \<Rightarrow> bool) \<Rightarrow> GgError \<Rightarrow> 's \<Rightarrow> bool" where
  \<comment> \<open>the last thing that happened in the loop: the wait has failed, or a callback has\<close>
  "left_by ep epoll_fd fd_ready I ret s' \<longleftrightarrow>
     ret = GG_ERR_FAILURE \<and> (\<exists>s e. I s \<and> e \<noteq> EINTR \<and> sys_epoll_wait ep epoll_fd 10 s = (Inl e, s')) \<or>
     ret \<noteq> GG_ERR_OK \<and> (\<exists>d s. I s \<and> fd_ready d s = Some (ret, s'))"

lemma epoll_run_invariant:
  assumes "gg_socket_epoll_run ep epoll_fd fd_ready s = Some res"
    and "\<forall>s r s'. I s \<longrightarrow> sys_epoll_wait ep epoll_fd 10 s = (r, s') \<longrightarrow> I s'"
    and "\<forall>d s. I s \<longrightarrow> (\<exists>ret s'. fd_ready d s = Some (ret, s') \<and> I s')" and "I s"
  shows "\<exists>ret s'. res = Some (ret, s') \<and> I s' \<and> left_by ep epoll_fd fd_ready I ret s'"
  using assms
proof (induction rule: gg_socket_epoll_run.raw_induct [rotated, consumes 1, case_names loop])
  case (loop f ep epoll_fd fd_ready s res)
  obtain r s1 where w: "sys_epoll_wait ep epoll_fd 10 s = (r, s1)" by fastforce
  then have I1: "I s1" using loop.prems by blast
  have again: "\<exists>ret s'. res = Some (ret, s') \<and> I s' \<and> left_by ep epoll_fd fd_ready I ret s'"
    if "f ep epoll_fd fd_ready s2 = Some res" "I s2" for s2
    using loop.IH [OF that(1) loop.prems(1,2) that(2)] .
  show ?case
  proof (cases r)
    case (Inl e)
    show ?thesis
    proof (cases "e = EINTR")
      case False
      then have "left_by ep epoll_fd fd_ready I GG_ERR_FAILURE s1" using w Inl loop.prems(3) by (auto simp: left_by_def)
      then show ?thesis using loop.hyps w Inl False I1 by auto
    qed (use loop.hyps w I1 again Inl in auto)
  next
    case (Inr events)
    obtain ret s2 where e: "epoll_events fd_ready events s1 = Some (ret, s2)" "I s2"
      "ret \<noteq> GG_ERR_OK \<longrightarrow> (\<exists>d s1. I s1 \<and> fd_ready d s1 = Some (ret, s2))"
      by (rule epoll_events_invariant [where I = I and s = s1 and fd_ready = fd_ready and events = events]) (use loop.prems(2) I1 in blast)+
    have "f ep epoll_fd fd_ready s2 = Some res \<or> res = Some (ret, s2) \<and> ret \<noteq> GG_ERR_OK"
      using loop.hyps by (cases "ret = GG_ERR_OK") (simp_all add: w Inr e(1))
    then show ?thesis using again e(2,3) unfolding left_by_def by blast
  qed
qed

section \<open>Properties\<close>

text \<open>
  C12: The receive thread is safe for as long as it runs, whatever arrives on the socket and however the other
  threads are scheduled (until the stream ids overflow): no packet makes it follow the frame of a
  call that has returned or leave the packet while going through its headers. It leaves its loop
  only when waiting for events has failed with another error than \<open>EINTR\<close>, or the handling of a packet,
  in a reachable state, has failed; the result of the loop is that error, and the process is
  ended in a state in which the stream table is well-formed.
\<close>
theorem recv_thread_safe:
  assumes env: "callbacks env" and s: "reachable env s"
    and wait: "\<And>s r s'. reachable env s \<Longrightarrow> sys_epoll_wait ep epoll_fd 10 s = (r, s') \<Longrightarrow> reachable env s'"
    and others: "\<And>s. reachable env s \<Longrightarrow> reachable env (others s)"
  shows "recv_thread ep epoll_fd env others s = None \<or>
    (\<exists>ret s'. recv_thread ep epoll_fd env others s = Some (Some (Exit 1, ret, s')) \<and> ipc_inv s' \<and> ret \<noteq> GG_ERR_OK \<and>
      ((\<exists>s e. reachable env s \<and> e \<noteq> EINTR \<and> sys_epoll_wait ep epoll_fd 10 s = (Inl e, s')) \<or>
       (\<exists>s. reachable env s \<and> data_ready_callback env s = Some (ret, s'))))"
proof (cases "gg_socket_epoll_run ep epoll_fd (\<lambda>_ s. data_ready_callback env (others s)) s")
  case (Some res)
  have "\<exists>ret s'. data_ready_callback env (others s) = Some (ret, s') \<and> reachable env s'" if r: "reachable env s" for s
  proof -
    obtain ret s' where d: "data_ready_callback env (others s) = Some (ret, s')"
      by (rule callbacks.data_ready_inv [OF env reachable_inv [OF env others [OF r]]])
    then show ?thesis using reach_step [OF env others [OF r] step_receive [OF d]] by simp
  qed
  then obtain ret s' where "res = Some (ret, s')" "reachable env s'"
    "left_by ep epoll_fd (\<lambda>_ s. data_ready_callback env (others s)) (reachable env) ret s'"
    using epoll_run_invariant [OF Some, of "reachable env"] wait s by blast
  then show ?thesis using Some reachable_inv [OF env] others by (auto simp: recv_thread_def left_by_def)
qed (simp add: recv_thread_def)

section \<open>Concrete instances\<close>

definition script_epoll :: "byte list ipc epoll" where
  \<comment> \<open>an event for as long as there are bytes, then an error\<close>
  "script_epoll =
     \<lparr>sys_epoll_create = (\<lambda>s. (Inr 4, s)), sys_epoll_ctl_add = (\<lambda>_ _ _ s. (Inr (), s)),
      sys_epoll_wait = (\<lambda>_ _ s. (if world s = [] then Inl EINVAL else Inr [3], s))\<rparr>"

theorem recv_thread_safe_witness:
  \<comment> \<open>a call waits, its response is handled, then waiting for events fails\<close>
  "\<exists>s ret s' f. reachable script_env s \<and> streams s = [1 \<mapsto> Waiting 100] \<and>
     recv_thread script_epoll 4 script_env id s = Some (Some (Exit 1, ret, s')) \<and> ipc_inv s' \<and> ret \<noteq> GG_ERR_OK \<and>
     calls s' 100 = Some f \<and> rc_ready f \<and> rc_ret f = GG_ERR_OK"
proof -
  obtain s where s: "reachable script_env s" "connected s" "streams s = [1 \<mapsto> Waiting 100]" "calls s = [100 \<mapsto> call_frame ping 0]"
    "stream_state_id s ! 0 = 1" "pending s 0 100" "next_stream_id s = 2" "world s = server_packet EVENTSTREAM_APPLICATION_MESSAGE 0 1 @ []"
    by (rule script_waiting)
  define s2 where "s2 = (clear_stream_index 0 (s\<lparr>world := []\<rparr>))\<lparr>calls := (calls s)(100 \<mapsto>
      (call_frame ping 0)\<lparr>rc_ret := GG_ERR_OK, rc_ready := True\<rparr>)\<rparr>"
  have d: "data_ready_callback script_env s = Some (GG_ERR_OK, s2)" unfolding s2_def
    by (rule script_response [OF reachable_inv [OF script_callbacks s(1)] s(8) _ s(5,6)]) (simp_all add: s GG_IPC_MAX_STREAMS_def)
  have "world s \<noteq> []" "world s2 = []" by (simp_all add: s server_packet_def packet_def packet_head_def write_be_u32_def Let_def s2_def clear_put_slot)
  then have "gg_socket_epoll_run script_epoll 4 (\<lambda>_ s. data_ready_callback script_env (id s)) s = Some (Some (GG_ERR_FAILURE, s2))"
    using d by (subst gg_socket_epoll_run.simps, subst gg_socket_epoll_run.simps) (simp add: script_epoll_def)
  then have r: "recv_thread script_epoll 4 script_env id s = Some (Some (Exit 1, GG_ERR_FAILURE, s2))" by (simp add: recv_thread_def)
  have "ipc_inv s2" using recv_thread_safe [OF script_callbacks s(1), of script_epoll 4 id] r by (auto simp: script_epoll_def)
  then show ?thesis using s(1,3) r by (intro exI [of _ s]) (auto simp: s2_def)
qed

end
