(* ===== verification/Object_Layout.thy ===== *)
theory Object_Layout
  imports Object
begin

text \<open>
  The bytes of objects (\<open>src/object.c\<close>, \<open>src/map.c\<close>): a \<open>GgObject\<close> is 11 bytes on a 64-bit platform and
  a \<open>GgKV\<close> is 21, without padding; a pointer and a 16-bit length, or a number, and the tag
  in the last byte. The names start with \<open>raw_\<close> where the tree of theory \<open>Object\<close> has the plain name.

  \<open>stores h raw obj\<close> says that the bytes \<open>raw\<close> stand for the tree \<open>obj\<close> in the memory \<open>h\<close>. The lemmas show
  that the constructors and accessors on bytes implement those on trees, that memory
  determines the tree, and that the lookup in a map through pointers finds what the lookup in
  the tree finds.
\<close>

section \<open>Bytes of numbers\<close>

fun le_bytes :: "nat \<Rightarrow> nat \<Rightarrow> byte list" where
  \<comment> \<open>an integer of \<open>n\<close> bytes in memory, little-endian\<close>
  "le_bytes 0 v = []"
| "le_bytes (Suc n) v = of_nat v # le_bytes n (v div 256)"

fun le_nat :: "byte list \<Rightarrow> nat" where
  "le_nat [] = 0"
| "le_nat (b # bs) = unat b + 256 * le_nat bs"

definition memcpy_at :: "byte list \<Rightarrow> nat \<Rightarrow> byte list \<Rightarrow> byte list" where
  \<comment> \<open>\<open>memcpy(&dst[off], src, sizeof(src))\<close> inside \<open>dst\<close>\<close>
  "memcpy_at dst off src = take off dst @ src @ drop (off + length src) dst"

section \<open>Objects\<close>

definition raw_obj_type :: "byte list \<Rightarrow> nat" where
  "raw_obj_type obj = unat (obj ! 10)"

definition raw_obj_bool :: "bool \<Rightarrow> byte list" where
  "raw_obj_bool val = (memcpy_at (replicate 11 0) 0 [of_bool val])[10 := 1]"

definition raw_obj_into_bool :: "byte list \<Rightarrow> bool" where
  "raw_obj_into_bool boolean \<longleftrightarrow> boolean ! 0 \<noteq> 0"

definition raw_obj_i64 :: "u64 \<Rightarrow> byte list" where
  "raw_obj_i64 val = (memcpy_at (replicate 11 0) 0 (le_bytes 8 (unat val)))[10 := 2]"

definition raw_obj_into_i64 :: "byte list \<Rightarrow> u64" where
  "raw_obj_into_i64 i64 = of_nat (le_nat (take 8 i64))"

definition raw_obj_f64 :: "f64 \<Rightarrow> byte list" where
  "raw_obj_f64 val = (memcpy_at (replicate 11 0) 0 (le_bytes 8 (unat val)))[10 := 3]"

definition raw_obj_into_f64 :: "byte list \<Rightarrow> f64" where
  "raw_obj_into_f64 f64 = of_nat (le_nat (take 8 f64))"

definition length_err :: "nat \<Rightarrow> nat" where
  \<comment> \<open>the new value of \<open>*len\<close>\<close>
  "length_err n = UINT16_MAX"

definition raw_sized :: "nat \<Rightarrow> ptr \<times> nat \<Rightarrow> byte list" where
  \<comment> \<open>the common body of \<open>gg_obj_buf\<close>, \<open>gg_obj_list\<close> and \<open>gg_obj_map\<close>, for a tag\<close>
  "raw_sized tag val =
     (let n = (if snd val > UINT16_MAX then length_err (snd val) else snd val)
      in (memcpy_at (memcpy_at (replicate 11 0) 0 (le_bytes 8 (fst val))) 8 (le_bytes 2 n))[10 := of_nat tag])"

definition raw_into_sized :: "byte list \<Rightarrow> ptr \<times> nat" where
  "raw_into_sized obj = (le_nat (take 8 obj), le_nat (take 2 (drop 8 obj)))"

definition raw_obj_buf :: "ptr \<times> nat \<Rightarrow> byte list" where
  "raw_obj_buf val = raw_sized 4 val"

definition raw_obj_into_buf :: "byte list \<Rightarrow> ptr \<times> nat" where
  "raw_obj_into_buf buf = raw_into_sized buf"

definition raw_obj_list :: "ptr \<times> nat \<Rightarrow> byte list" where
  "raw_obj_list val = raw_sized 5 val"

definition raw_obj_into_list :: "byte list \<Rightarrow> ptr \<times> nat" where
  "raw_obj_into_list obj = raw_into_sized obj"

definition raw_obj_map :: "ptr \<times> nat \<Rightarrow> byte list" where
  "raw_obj_map val = raw_sized 6 val"

definition raw_obj_into_map :: "byte list \<Rightarrow> ptr \<times> nat" where
  "raw_obj_into_map obj = raw_into_sized obj"

section \<open>Pairs\<close>

definition raw_kv_set_key :: "byte list \<Rightarrow> ptr \<times> nat \<Rightarrow> byte list" where
  "raw_kv_set_key kv key =
     (let key_len = (if snd key > UINT16_MAX then length_err (snd key) else snd key)
      in memcpy_at (memcpy_at kv 0 (le_bytes 8 (fst key))) 8 (le_bytes 2 key_len))"

definition raw_kv :: "ptr \<times> nat \<Rightarrow> byte list \<Rightarrow> byte list" where
  "raw_kv key val = memcpy_at (raw_kv_set_key (replicate 21 0) key) 10 val"

definition raw_kv_key :: "byte list \<Rightarrow> ptr \<times> nat" where
  "raw_kv_key kv = (le_nat (take 8 kv), le_nat (take 2 (drop 8 kv)))"

definition raw_kv_val :: "ptr \<Rightarrow> ptr" where
  \<comment> \<open>the address of the value in the pair at an address\<close>
  "raw_kv_val kv = kv + 10"

definition load :: "(ptr \<Rightarrow> byte) \<Rightarrow> ptr \<Rightarrow> nat \<Rightarrow> byte list" where
  "load h a n = map h [a..<a + n]"

fun raw_map_get :: "(ptr \<Rightarrow> byte) \<Rightarrow> ptr \<times> nat \<Rightarrow> GgBuffer \<Rightarrow> ptr option" where
  \<comment> \<open>\<open>*result\<close>, if found\<close>
  "raw_map_get h (pairs, 0) key = None"
| "raw_map_get h (pairs, Suc n) key =
     (case raw_kv_key (load h pairs 21) of (k, k_len) \<Rightarrow>
        if gg_buffer_eq key \<lparr>data = k, mem = load h k k_len\<rparr> then Some (raw_kv_val pairs)
        else raw_map_get h (pairs + 21, n) key)"

section \<open>What the bytes stand for\<close>

definition sized_ok :: "ptr \<Rightarrow> nat \<Rightarrow> bool" where
  \<comment> \<open>a pointer and a length that can be stored\<close>
  "sized_ok p n \<longleftrightarrow> p < 2 ^ 64 \<and> n \<le> UINT16_MAX"

fun stores :: "(ptr \<Rightarrow> byte) \<Rightarrow> byte list \<Rightarrow> GgObject \<Rightarrow> bool"
  and stores_list :: "(ptr \<Rightarrow> byte) \<Rightarrow> ptr \<Rightarrow> GgObject list \<Rightarrow> bool"
  and stores_map :: "(ptr \<Rightarrow> byte) \<Rightarrow> ptr \<Rightarrow> (GgBuffer \<times> GgObject) list \<Rightarrow> bool" where
  "stores h raw OBJ_NULL \<longleftrightarrow> raw = replicate 11 0"
| "stores h raw (OBJ_BOOLEAN b) \<longleftrightarrow> raw = raw_obj_bool b"
| "stores h raw (OBJ_I64 v) \<longleftrightarrow> raw = raw_obj_i64 v"
| "stores h raw (OBJ_F64 v) \<longleftrightarrow> raw = raw_obj_f64 v"
| "stores h raw (OBJ_BUF b) \<longleftrightarrow> raw = raw_obj_buf (data b, len b) \<and> sized_ok (data b) (len b) \<and> load h (data b) (len b) = mem b"
| "stores h raw (OBJ_LIST p xs) \<longleftrightarrow> raw = raw_obj_list (p, length xs) \<and> sized_ok p (length xs) \<and> stores_list h p xs"
| "stores h raw (OBJ_MAP p kvs) \<longleftrightarrow> raw = raw_obj_map (p, length kvs) \<and> sized_ok p (length kvs) \<and> stores_map h p kvs"
| "stores_list h p [] \<longleftrightarrow> True"
| "stores_list h p (x # xs) \<longleftrightarrow> stores h (load h p 11) x \<and> stores_list h (p + 11) xs"
| "stores_map h p [] \<longleftrightarrow> True"
| "stores_map h p ((k, v) # kvs) \<longleftrightarrow>
     load h p 21 = raw_kv (data k, len k) (load h (p + 10) 11) \<and> sized_ok (data k) (len k) \<and> load h (data k) (len k) = mem k \<and>
     stores h (load h (p + 10) 11) v \<and> stores_map h (p + 21) kvs"

section \<open>Lemmas\<close>

lemma length_le_bytes [simp]: "length (le_bytes n v) = n"
  by (induction n arbitrary: v) auto

lemma le_nat_bytes: "le_nat (le_bytes n v) = v mod 256 ^ n"
proof (induction n arbitrary: v)
  case (Suc n)
  have "unat (of_nat v :: byte) = v mod 256" by (simp add: unsigned_of_nat take_bit_eq_mod)
  then show ?case using Suc [of "v div 256"] by (simp add: mod_mult2_eq)
qed simp

lemma length_memcpy_at: "off + length src \<le> length dst \<Longrightarrow> length (memcpy_at dst off src) = length dst"
  by (simp add: memcpy_at_def)

lemma memcpy_at_replicate: "length src \<le> n \<Longrightarrow> memcpy_at (replicate n 0) 0 src = src @ replicate (n - length src) 0"
  by (simp add: memcpy_at_def)

lemma raw_sized_eq:
  "snd val \<le> UINT16_MAX \<Longrightarrow> raw_sized tag val = le_bytes 8 (fst val) @ le_bytes 2 (snd val) @ [of_nat tag]"
  by (simp add: raw_sized_def memcpy_at_def Let_def list_update_append)

lemma raw_sized_clamped: "raw_sized tag (p, n) = raw_sized tag (p, min n UINT16_MAX)"
  by (simp add: raw_sized_def length_err_def min_def)

lemma raw_sized_into:
  assumes "sized_ok p n"
  shows "raw_into_sized (raw_sized tag (p, n)) = (p, n)"
  using assms by (simp add: sized_ok_def raw_into_sized_def raw_sized_eq le_nat_bytes UINT16_MAX_def)

lemma raw_sized_inj:
  "raw_sized tag (p, n) = raw_sized tag (p', n') \<Longrightarrow> sized_ok p n \<Longrightarrow> sized_ok p' n' \<Longrightarrow> (p', n') = (p, n)"
  by (metis raw_sized_into)

lemma raw_type_simps:
  "raw_obj_type (replicate 11 0) = 0" "raw_obj_type (raw_obj_bool b) = 1" "raw_obj_type (raw_obj_i64 v) = 2"
  "raw_obj_type (raw_obj_f64 f) = 3"
  by (simp_all add: raw_obj_type_def raw_obj_bool_def raw_obj_i64_def raw_obj_f64_def memcpy_at_def)

lemma raw_sized_type: "tag < 256 \<Longrightarrow> raw_obj_type (raw_sized tag val) = tag"
  by (simp add: raw_obj_type_def raw_sized_def Let_def memcpy_at_def unsigned_of_nat take_bit_nat_eq_self)

lemma raw_word_into:
  "raw_obj_into_i64 (raw_obj_i64 v) = v" "raw_obj_into_f64 (raw_obj_f64 f) = f" "raw_obj_into_bool (raw_obj_bool b) = b"
proof -
  have u: "unat (w :: u64) < 256 ^ 8" for w using unsigned_less [of w] by simp
  show "raw_obj_into_i64 (raw_obj_i64 v) = v" "raw_obj_into_f64 (raw_obj_f64 f) = f" "raw_obj_into_bool (raw_obj_bool b) = b"
    using u by (simp_all add: raw_obj_into_i64_def raw_obj_i64_def raw_obj_into_f64_def raw_obj_f64_def raw_obj_into_bool_def
        raw_obj_bool_def memcpy_at_replicate list_update_append le_nat_bytes)
qed

lemma raw_word_inj:
  "raw_obj_i64 v = raw_obj_i64 v' \<Longrightarrow> v = v'" "raw_obj_f64 f = raw_obj_f64 f' \<Longrightarrow> f = f'" "raw_obj_bool b = raw_obj_bool b' \<Longrightarrow> b = b'"
  by (metis raw_word_into(1), metis raw_word_into(2), metis raw_word_into(3))

lemma raw_kv_eq:
  "sized_ok p n \<Longrightarrow> length val = 11 \<Longrightarrow> raw_kv (p, n) val = le_bytes 8 p @ le_bytes 2 n @ val"
  by (simp add: sized_ok_def raw_kv_def raw_kv_set_key_def memcpy_at_def)

lemma raw_kv_into:
  assumes "sized_ok p n" "length val = 11"
  shows "raw_kv_key (raw_kv (p, n) val) = (p, n)" "drop 10 (raw_kv (p, n) val) = val"
  using assms(1) raw_kv_eq [OF assms] by (simp_all add: raw_kv_key_def le_nat_bytes sized_ok_def UINT16_MAX_def)

lemma raw_kv_inj:
  "raw_kv (p, n) val = raw_kv (p', n') val' \<Longrightarrow> sized_ok p n \<Longrightarrow> sized_ok p' n' \<Longrightarrow> length val = 11 \<Longrightarrow> length val' = 11 \<Longrightarrow> (p', n') = (p, n)"
  by (metis raw_kv_into(1))

lemma length_load [simp]: "length (load h a n) = n"
  by (simp add: load_def)

lemma nth_load [simp]: "i < n \<Longrightarrow> load h a n ! i = h (a + i)"
  by (simp add: load_def)

lemma load_inj:
  assumes "load h (data b) (len b) = mem b" "load h (data b') (len b') = mem b'" "(data b', len b') = (data b, len b)"
  shows "b = b'"
proof -
  have "mem b = mem b'" using assms by (metis prod.inject)
  then show ?thesis using assms(3) by simp
qed

fun type_code :: "GgObjectType \<Rightarrow> nat" where
  "type_code GG_TYPE_NULL = 0"
| "type_code GG_TYPE_BOOLEAN = 1"
| "type_code GG_TYPE_I64 = 2"
| "type_code GG_TYPE_F64 = 3"
| "type_code GG_TYPE_BUF = 4"
| "type_code GG_TYPE_LIST = 5"
| "type_code GG_TYPE_MAP = 6"

lemma stores_type: "stores h raw obj \<Longrightarrow> raw_obj_type raw = type_code (gg_obj_type obj)"
  by (cases obj) (simp_all add: raw_type_simps raw_sized_type raw_obj_buf_def raw_obj_list_def raw_obj_map_def)

text \<open>The memory determines the object.\<close>

lemma type_code_inj: "type_code t = type_code t' \<Longrightarrow> t = t'"
  by (cases t; cases t') simp_all

lemma stores_same_type: "stores h raw obj \<Longrightarrow> stores h raw obj' \<Longrightarrow> gg_obj_type obj' = gg_obj_type obj"
  using stores_type type_code_inj by metis

lemma stores_unique:
  "stores h raw obj \<Longrightarrow> stores h raw obj' \<Longrightarrow> obj = obj'"
  "stores_list h p xs \<Longrightarrow> stores_list h p xs' \<Longrightarrow> length xs = length xs' \<Longrightarrow> xs = xs'"
  "stores_map h p kvs \<Longrightarrow> stores_map h p kvs' \<Longrightarrow> length kvs = length kvs' \<Longrightarrow> kvs = kvs'"
proof (induction h raw obj and h p xs and h p kvs arbitrary: obj' and xs' and kvs' rule: stores_stores_list_stores_map.induct)
  case (1 h raw)
  then show ?case using stores_same_type [OF 1] by (cases obj') simp_all
next
  case (2 h raw b)
  obtain b' where "obj' = OBJ_BOOLEAN b'" using stores_same_type [OF 2] by (cases obj') simp_all
  then show ?case using 2 raw_word_inj(3) [of b b'] by simp
next
  case (3 h raw v)
  obtain v' where "obj' = OBJ_I64 v'" using stores_same_type [OF 3] by (cases obj') simp_all
  then show ?case using 3 raw_word_inj(1) [of v v'] by simp
next
  case (4 h raw v)
  obtain v' where "obj' = OBJ_F64 v'" using stores_same_type [OF 4] by (cases obj') simp_all
  then show ?case using 4 raw_word_inj(2) [of v v'] by simp
next
  case (5 h raw b)
  obtain b' where b': "obj' = OBJ_BUF b'" using stores_same_type [OF 5] by (cases obj') simp_all
  have "(data b', len b') = (data b, len b)"
    by (rule raw_sized_inj [of 4]) (use "5.prems" b' in \<open>simp_all add: raw_obj_buf_def\<close>)
  moreover have "load h (data b) (len b) = mem b" "load h (data b') (len b') = mem b'" using "5.prems" b' by simp_all
  ultimately show ?case using load_inj b' by blast
next
  case (6 h raw p xs)
  obtain p' xs' where b': "obj' = OBJ_LIST p' xs'" using stores_same_type [OF "6.prems"] by (cases obj') simp_all
  have e: "(p', length xs') = (p, length xs)"
    by (rule raw_sized_inj [of 5]) (use "6.prems" b' in \<open>simp_all add: raw_obj_list_def\<close>)
  have "stores_list h p xs" "stores_list h p' xs'" using "6.prems" b' by simp_all
  then show ?case using "6.IH" [of xs'] e b' by simp
next
  case (7 h raw p kvs)
  obtain p' kvs' where b': "obj' = OBJ_MAP p' kvs'" using stores_same_type [OF "7.prems"] by (cases obj') simp_all
  have e: "(p', length kvs') = (p, length kvs)"
    by (rule raw_sized_inj [of 6]) (use "7.prems" b' in \<open>simp_all add: raw_obj_map_def\<close>)
  have "stores_map h p kvs" "stores_map h p' kvs'" using "7.prems" b' by simp_all
  then show ?case using "7.IH" [of kvs'] e b' by simp
next
  case (9 h p x xs)
  then show ?case by (cases xs') auto
next
  case (11 h p k v kvs)
  then obtain k' v' kvs'' where k': "kvs' = (k', v') # kvs''" by (cases kvs') auto
  have "(data k', len k') = (data k, len k)"
    by (rule raw_kv_inj [of _ _ "load h (p + 10) 11" _ _ "load h (p + 10) 11"]) (use "11.prems" k' in simp_all)
  then have "k = k'" by (rule load_inj [of h, rotated 2]) (use "11.prems" k' in simp_all)
  moreover have "v = v'" "kvs = kvs''" using "11.IH" "11.prems" k' by simp_all
  ultimately show ?case using k' by simp
qed simp_all

lemma stores_list_nth: "stores_list h p xs \<Longrightarrow> i < length xs \<Longrightarrow> stores h (load h (p + 11 * i) 11) (xs ! i)"
proof (induction xs arbitrary: p i)
  case (Cons x xs)
  then show ?case using Cons.IH [of "p + 11" "i - 1"] by (cases i) (auto simp: algebra_simps)
qed simp

lemma stores_map_nth: "stores_map h p kvs \<Longrightarrow> i < length kvs \<Longrightarrow> stores h (load h (p + 21 * i + 10) 11) (snd (kvs ! i))"
proof (induction kvs arbitrary: p i)
  case (Cons kv kvs)
  then show ?case using Cons.IH [of "p + 21" "i - 1"] by (cases kv; cases i) (auto simp: algebra_simps)
qed simp

lemma raw_map_get_from:
  "stores_map h p kvs \<Longrightarrow> raw_map_get h (p, length kvs) key = map_option (\<lambda>j. p + 21 * (j - i) + 10) (gg_map_get_from i kvs key)
    \<and> (\<forall>j. gg_map_get_from i kvs key = Some j \<longrightarrow> i \<le> j \<and> j < i + length kvs)"
proof (induction kvs arbitrary: p i)
  case (Cons kv kvs)
  obtain k v where kv: "kv = (k, v)" by (cases kv)
  have k: "raw_kv_key (load h p 21) = (data k, len k)" "load h (data k) (len k) = mem k"
    using Cons.prems kv raw_kv_into(1) [of "data k" "len k" "load h (p + 10) 11"] by auto
  note ih = Cons.IH [of "p + 21" "Suc i"]
  show ?case
  proof (cases "gg_buffer_eq key k")
    case True
    then show ?thesis using k kv by (cases k) (simp add: raw_kv_val_def)
  next
    case False
    have "p + 21 + 21 * (j - Suc i) + 10 = p + 21 * (j - i) + 10" if "Suc i \<le> j" for j using that by (simp add: algebra_simps)
    then show ?thesis using ih Cons.prems k kv False by (cases k; cases "gg_map_get_from (Suc i) kvs key") auto
  qed
qed simp

lemma raw_map_get_tree:
  assumes "stores_map h p kvs"
  shows "raw_map_get h (p, length kvs) key = map_option (\<lambda>i. p + 21 * i + 10) (gg_map_get kvs key)"
    and "gg_map_get kvs key = Some i \<Longrightarrow> i < length kvs"
  using raw_map_get_from [OF assms, of key 0] by (simp_all add: gg_map_get_def)

lemma stores_take:
  "stores_list h p xs \<Longrightarrow> stores_list h p (take n xs)"
  "stores_map h p kvs \<Longrightarrow> stores_map h p (take n kvs)"
proof -
  show "stores_list h p xs \<Longrightarrow> stores_list h p (take n xs)"
    by (induction xs arbitrary: p n) (auto simp: take_Cons split: nat.splits)
  show "stores_map h p kvs \<Longrightarrow> stores_map h p (take n kvs)"
    by (induction kvs arbitrary: p n) (auto simp: take_Cons split: nat.splits)
qed

lemma load_take: "take k (load h a n) = load h a (min k n)"
  by (simp add: load_def take_map min_def)

definition raw_agrees :: "(ptr \<Rightarrow> byte) \<Rightarrow> byte list \<Rightarrow> GgObject \<Rightarrow> bool" where
  \<comment> \<open>the accessors on the bytes give the parts of the tree, or their addresses\<close>
  "raw_agrees h raw obj \<longleftrightarrow> raw_obj_type raw = type_code (gg_obj_type obj) \<and>
     (case obj of
        OBJ_NULL \<Rightarrow> True
      | OBJ_BOOLEAN v \<Rightarrow> raw_obj_into_bool raw = v
      | OBJ_I64 v \<Rightarrow> raw_obj_into_i64 raw = v
      | OBJ_F64 v \<Rightarrow> raw_obj_into_f64 raw = v
      | OBJ_BUF v \<Rightarrow> raw_obj_into_buf raw = (data v, len v) \<and> load h (data v) (len v) = mem v
      | OBJ_LIST a ys \<Rightarrow> raw_obj_into_list raw = (a, length ys) \<and> (\<forall>i < length ys. stores h (load h (a + 11 * i) 11) (ys ! i))
      | OBJ_MAP a pairs \<Rightarrow> raw_obj_into_map raw = (a, length pairs) \<and>
          (\<forall>key. case gg_map_get pairs key of
             None \<Rightarrow> raw_map_get h (raw_obj_into_map raw) key = None
           | Some i \<Rightarrow> raw_map_get h (raw_obj_into_map raw) key = Some (a + 21 * i + 10) \<and>
               stores h (load h (a + 21 * i + 10) 11) (snd (pairs ! i))))"

lemma stores_agrees:
  assumes "stores h raw obj"
  shows "raw_agrees h raw obj"
proof (cases obj)
  case (OBJ_BUF b)
  then show ?thesis using assms stores_type [OF assms] raw_sized_into [of "data b" "len b" 4]
    by (simp add: raw_agrees_def raw_obj_into_buf_def raw_obj_buf_def)
next
  case (OBJ_LIST a ys)
  then show ?thesis using assms stores_type [OF assms] raw_sized_into [of a "length ys" 5] stores_list_nth [of h a ys]
    by (simp add: raw_agrees_def raw_obj_into_list_def raw_obj_list_def)
next
  case (OBJ_MAP a pairs)
  then have m: "stores_map h a pairs" "raw_obj_into_map raw = (a, length pairs)"
    using assms raw_sized_into [of a "length pairs" 6] by (auto simp: raw_obj_into_map_def raw_obj_map_def)
  have "case gg_map_get pairs key of
      None \<Rightarrow> raw_map_get h (a, length pairs) key = None
    | Some i \<Rightarrow> raw_map_get h (a, length pairs) key = Some (a + 21 * i + 10) \<and>
        stores h (load h (a + 21 * i + 10) 11) (snd (pairs ! i))" for key
    using raw_map_get_tree [OF m(1), of key] stores_map_nth [OF m(1)] by (cases "gg_map_get pairs key") simp_all
  then show ?thesis using stores_type [OF assms] OBJ_MAP unfolding raw_agrees_def by (simp only: m(2) GgObject.case) simp
qed (use assms stores_type [OF assms] raw_word_into in \<open>simp_all add: raw_agrees_def\<close>)

lemma stores_constructed:
  "data b < 2 ^ 64 \<Longrightarrow> load h (data b) (len b) = mem b \<Longrightarrow> stores h (raw_obj_buf (data b, len b)) (gg_obj_buf b)"
  "p < 2 ^ 64 \<Longrightarrow> stores_list h p xs \<Longrightarrow> stores h (raw_obj_list (p, length xs)) (gg_obj_list (p, xs))"
  "p < 2 ^ 64 \<Longrightarrow> stores_map h p kvs \<Longrightarrow> stores h (raw_obj_map (p, length kvs)) (gg_obj_map (p, kvs))"
proof -
  note clamp = raw_sized_clamped [of 4 "data b" "len b"] raw_sized_clamped [of 5 p "length xs"] raw_sized_clamped [of 6 p "length kvs"]
  show "data b < 2 ^ 64 \<Longrightarrow> load h (data b) (len b) = mem b \<Longrightarrow> stores h (raw_obj_buf (data b, len b)) (gg_obj_buf b)"
    using clamp(1) load_take [of UINT16_MAX h "data b" "len b"]
    by (cases "len b > UINT16_MAX") (simp_all add: gg_obj_buf_def raw_obj_buf_def sized_ok_def min_def)
  show "p < 2 ^ 64 \<Longrightarrow> stores_list h p xs \<Longrightarrow> stores h (raw_obj_list (p, length xs)) (gg_obj_list (p, xs))"
    using clamp(2) stores_take(1) [of h p xs UINT16_MAX]
    by (cases "length xs > UINT16_MAX") (simp_all add: gg_obj_list_def raw_obj_list_def sized_ok_def min_def)
  show "p < 2 ^ 64 \<Longrightarrow> stores_map h p kvs \<Longrightarrow> stores h (raw_obj_map (p, length kvs)) (gg_obj_map (p, kvs))"
    using clamp(3) stores_take(2) [of h p kvs UINT16_MAX]
    by (cases "length kvs > UINT16_MAX") (simp_all add: gg_obj_map_def raw_obj_map_def sized_ok_def min_def)
qed

section \<open>Properties\<close>

text \<open>
  C32: The 11 bytes of an object implement the tree it stands for. The bytes that \<open>gg_obj_map\<close> makes of a map in
  memory, cut to the 65535 pairs that its 16-bit length can express, stand for a tree; the memory
  determines this tree; its tag is the tag in the bytes; and looking a key up through the pointers
  in the bytes finds the address of the value that looking it up in the tree finds. The
  same holds of buffers and lists.
\<close>
theorem object_bytes_implement_tree:
  fixes b :: GgBuffer
  assumes "data b < 2 ^ 64" "load h (data b) (len b) = mem b" "p < 2 ^ 64" "stores_list h p xs" "q < 2 ^ 64" "stores_map h q kvs"
    and "(raw, obj) \<in> {(raw_obj_buf (data b, len b), gg_obj_buf b), (raw_obj_list (p, length xs), gg_obj_list (p, xs)),
      (raw_obj_map (q, length kvs), gg_obj_map (q, kvs))}"
  shows "stores h raw obj \<and> (\<forall>obj'. stores h raw obj' \<longrightarrow> obj' = obj) \<and> raw_agrees h raw obj"
proof -
  have "stores h raw obj" using stores_constructed assms by blast
  then show ?thesis using stores_unique(1) stores_agrees by blast
qed

section \<open>Concrete instance\<close>

definition layout_example :: "ptr \<Rightarrow> byte" where
  \<comment> \<open>a pair with the key "k", kept at address 50, and the value true\<close>
  "layout_example = (\<lambda>a. if a < 21 then raw_kv (50, 1) (raw_obj_bool True) ! a else if a = 50 then 107 else 0)"

theorem object_bytes_implement_tree_witness:
  "stores layout_example (raw_obj_map (0, 1)) (OBJ_MAP 0 [(\<lparr>data = 50, mem = [107]\<rparr>, OBJ_BOOLEAN True)]) \<and>
   raw_agrees layout_example (raw_obj_map (0, 1)) (OBJ_MAP 0 [(\<lparr>data = 50, mem = [107]\<rparr>, OBJ_BOOLEAN True)])"
proof -
  let ?kvs = "[(\<lparr>data = 50, mem = [107]\<rparr>, OBJ_BOOLEAN True)] :: GgKV list"
  let ?kv = "raw_kv (50, Suc 0) (raw_obj_bool True)"
  have l: "length (raw_obj_bool True) = 11" by (simp add: raw_obj_bool_def memcpy_at_def)
  have ok: "sized_ok 50 (Suc 0)" by (simp add: sized_ok_def UINT16_MAX_def)
  note l = l arg_cong [OF raw_kv_eq [OF ok l], of length, simplified l length_append length_le_bytes]
  have "load layout_example 0 21 = ?kv" by (rule nth_equalityI) (simp_all add: layout_example_def l del: upt_Suc)
  moreover have "load layout_example 10 11 = drop 10 ?kv" by (rule nth_equalityI) (simp_all add: layout_example_def l del: upt_Suc)
  moreover have "drop 10 ?kv = raw_obj_bool True" by (rule raw_kv_into(2)) (simp_all add: sized_ok_def UINT16_MAX_def l)
  moreover have "load layout_example 50 1 = [107]" by (simp add: load_def layout_example_def)
  ultimately have m: "stores_map layout_example 0 ?kvs" by (simp add: sized_ok_def UINT16_MAX_def)
  have o: "gg_obj_map (0, ?kvs) = OBJ_MAP 0 ?kvs" by (simp add: gg_obj_map_def UINT16_MAX_def)
  show ?thesis
    using object_bytes_implement_tree [of "\<lparr>data = 0, mem = []\<rparr>" layout_example 0 "[]" 0 ?kvs "raw_obj_map (0, 1)" "OBJ_MAP 0 ?kvs"] m o
    by (simp add: load_def)
qed

end
