(* ===== verification/Cpp_Object.thy ===== *)
theory Cpp_Object
  imports Object_Layout
begin

text \<open>
  The value classes of the C++ interface (\<open>cpp/include/gg/{buffer,list,map,object,schema}.hpp\<close>, \<open>cpp/src/{list,map,object}.cpp\<close>).

  A function that may throw returns a sum, \<open>Inl\<close> for the exception; without exceptions the
  program aborts there (\<open>GG_THROW_OR_ABORT\<close>). Access outside an array, which C++ leaves
  undefined, is the value \<open>None\<close>. \<open>Object\<close> is the bytes of a \<open>GgObject\<close>, so conversions between
  objects and variants work on bytes; everything else works on the trees of theory \<open>Object\<close>.
  An iterator over a map is the address of a pair, as in the code.

  The locale \<open>iterator_range\<close> is what \<open>std::find_if\<close> needs of iterators. Lemmas: lookup in a map finds
  what the C function finds; validation against a C++ schema agrees with \<open>gg_map_validate\<close>; a
  variant survives the conversion to an object and back, except the empty one.
\<close>

section \<open>Exceptions\<close>

datatype cpp_exception =
    Gg_exception GgError
  | Out_of_range

type_synonym 'a throws = "cpp_exception + 'a"

section \<open>Buffers and lists\<close>

definition Buffer_empty :: "GgBuffer \<Rightarrow> bool" where
  "Buffer_empty b \<longleftrightarrow> len b = 0"

definition Buffer_index :: "GgBuffer \<Rightarrow> nat \<Rightarrow> byte option" where
  "Buffer_index b idx = (if idx < len b then Some (mem b ! idx) else None)"

definition Buffer_at :: "GgBuffer \<Rightarrow> nat \<Rightarrow> byte throws option" where
  "Buffer_at b idx = (if idx \<ge> len b then Some (Inl Out_of_range) else map_option Inr (Buffer_index b idx))"

definition Buffer_eq :: "GgBuffer \<Rightarrow> GgBuffer \<Rightarrow> bool" where
  \<comment> \<open>\<open>std::ranges::equal\<close> compares element by element\<close>
  "Buffer_eq b rhs \<longleftrightarrow> len b = len rhs \<and> list_all2 (=) (mem b) (mem rhs)"

definition List_empty :: "GgList \<Rightarrow> bool" where
  "List_empty xs \<longleftrightarrow> length (snd xs) = 0"

definition List_index :: "GgList \<Rightarrow> nat \<Rightarrow> GgObject option" where
  "List_index xs idx = (if idx < length (snd xs) then Some (snd xs ! idx) else None)"

definition List_at :: "GgList \<Rightarrow> nat \<Rightarrow> GgObject throws option" where
  "List_at xs idx =
     (if idx \<ge> length (snd xs) then Some (Inl (Gg_exception GG_ERR_RANGE)) else map_option Inr (List_index xs idx))"

definition List_front :: "GgList \<Rightarrow> GgObject option" where
  "List_front xs = List_index xs 0"

definition List_back :: "GgList \<Rightarrow> GgObject option" where
  \<comment> \<open>\<open>size() - 1\<close> wraps around to the largest index for an empty list\<close>
  "List_back xs = List_index xs (if snd xs = [] then 2 ^ 64 - 1 else length (snd xs) - 1)"

definition List_type_check :: "GgList \<Rightarrow> GgObjectType \<Rightarrow> GgError" where
  "List_type_check xs type = gg_list_type_check (snd xs) type"

section \<open>Iterators\<close>

definition sizeof_KV :: nat where
  "sizeof_KV = 21"

definition MapIterator_inc :: "ptr \<Rightarrow> ptr" where
  "MapIterator_inc kv = kv + sizeof_KV"

definition MapIterator_dec :: "ptr \<Rightarrow> ptr" where
  "MapIterator_dec kv = kv - sizeof_KV"

definition MapIterator_add :: "ptr \<Rightarrow> int \<Rightarrow> ptr" where
  \<comment> \<open>\<open>operator+=\<close>, and \<open>operator+\<close> on a copy\<close>
  "MapIterator_add kv offset = nat (int kv + int sizeof_KV * offset)"

definition MapIterator_sub :: "ptr \<Rightarrow> int \<Rightarrow> ptr" where
  "MapIterator_sub kv offset = nat (int kv - int sizeof_KV * offset)"

definition MapIterator_diff :: "ptr \<Rightarrow> ptr \<Rightarrow> int" where
  \<comment> \<open>\<open>std::distance(rhs.kv, kv)\<close>\<close>
  "MapIterator_diff kv rhs = (int kv - int rhs) div int sizeof_KV"

definition Map_begin :: "GgMap \<Rightarrow> ptr" where
  "Map_begin m = fst m"

definition Map_end :: "GgMap \<Rightarrow> ptr" where
  "Map_end m = fst m + length (snd m) * sizeof_KV"

definition Map_index :: "GgMap \<Rightarrow> nat \<Rightarrow> GgKV option" where
  "Map_index m idx = (if idx < length (snd m) then Some (snd m ! idx) else None)"

definition pair_at :: "GgMap \<Rightarrow> ptr \<Rightarrow> GgKV" where
  \<comment> \<open>the pair of the map at an address inside its array\<close>
  "pair_at m kv = snd m ! ((kv - fst m) div sizeof_KV)"

definition KV_key :: "GgKV \<Rightarrow> byte list" where
  "KV_key kv = mem (fst kv)"

definition MapIterator_deref :: "GgMap \<Rightarrow> ptr \<Rightarrow> byte list \<times> ptr" where
  \<comment> \<open>the key and the address of the value\<close>
  "MapIterator_deref m kv = (KV_key (pair_at m kv), raw_kv_val kv)"

partial_function (option) find_if :: "('i \<Rightarrow> 'i) \<Rightarrow> ('i \<Rightarrow> 'v) \<Rightarrow> ('v \<Rightarrow> bool) \<Rightarrow> 'i \<Rightarrow> 'i \<Rightarrow> 'i option" where
  \<comment> \<open>\<open>std::find_if\<close>; it does not return if \<open>end\<close> cannot be reached\<close>
  "find_if inc deref p first end =
     (if first = end then Some first
      else if p (deref first) then Some first
      else find_if inc deref p (inc first) end)"

definition Map_find :: "GgMap \<Rightarrow> byte list \<Rightarrow> ptr option" where
  "Map_find m key = find_if MapIterator_inc (MapIterator_deref m) (\<lambda>kv. fst kv = key) (Map_begin m) (Map_end m)"

definition Map_at :: "GgMap \<Rightarrow> byte list \<Rightarrow> ptr throws option" where
  \<comment> \<open>the address of the value\<close>
  "Map_at m key =
     map_option (\<lambda>found. if found = Map_end m then Inl Out_of_range else Inr (snd (MapIterator_deref m found))) (Map_find m key)"

definition make_KV :: "GgBuffer \<Rightarrow> GgObject \<Rightarrow> GgKV" where
  "make_KV key val = gg_kv key val"

definition KV_set_key :: "GgBuffer \<Rightarrow> GgKV \<Rightarrow> GgKV" where
  "KV_set_key key kv = gg_kv key (snd kv)"

definition KV_set_value :: "GgObject \<Rightarrow> GgKV \<Rightarrow> GgKV" where
  "KV_set_value obj kv = (fst kv, obj)"

section \<open>Objects\<close>

definition Object_key :: "GgObject \<Rightarrow> byte list \<Rightarrow> ptr throws option" where
  \<comment> \<open>\<open>operator[](std::string_view)\<close>\<close>
  "Object_key obj key =
     (if gg_obj_type obj \<noteq> GG_TYPE_MAP then Some (Inl (Gg_exception GG_ERR_PARSE)) else Map_at (gg_obj_into_map obj) key)"

definition Object_index :: "GgObject \<Rightarrow> nat \<Rightarrow> GgObject throws option" where
  \<comment> \<open>\<open>operator[](std::size_t)\<close>\<close>
  "Object_index obj idx =
     (if gg_obj_type obj \<noteq> GG_TYPE_LIST then Some (Inl (Gg_exception GG_ERR_PARSE))
      else map_option Inr (List_index (gg_obj_into_list obj) idx))"

datatype Variant =
    V_monostate
  | V_bool bool
  | V_i64 u64
  | V_f64 f64
  | V_span "ptr \<times> nat"
  | V_list "ptr \<times> nat"
  | V_map "ptr \<times> nat"
  | V_valueless

definition to_variant :: "byte list \<Rightarrow> Variant option" where
  \<comment> \<open>\<open>None\<close>: \<open>abort()\<close>\<close>
  "to_variant obj =
     (let index = raw_obj_type obj in
      if index = 0 then Some V_monostate
      else if index = 1 then Some (V_bool (raw_obj_into_bool obj))
      else if index = 2 then Some (V_i64 (raw_obj_into_i64 obj))
      else if index = 3 then Some (V_f64 (raw_obj_into_f64 obj))
      else if index = 4 then Some (V_span (raw_obj_into_buf obj))
      else if index = 5 then Some (V_list (raw_obj_into_list obj))
      else if index = 6 then Some (V_map (raw_obj_into_map obj))
      else None)"

definition Object_default :: "byte list" where
  \<comment> \<open>\<open>Object {}\<close>: value-initialised, so zero\<close>
  "Object_default = replicate 11 0"

definition Object_monostate :: "byte list \<Rightarrow> byte list" where
  \<comment> \<open>the constructor has an empty body and the base class \<open>GgObject\<close> no initialisers: the bytes are
      those the storage held\<close>
  "Object_monostate storage = storage"

fun to_object :: "byte list \<Rightarrow> Variant \<Rightarrow> byte list" where
  \<comment> \<open>\<open>storage\<close>: the bytes in the memory of the result before its construction\<close>
  "to_object storage V_valueless = Object_default"
| "to_object storage V_monostate = Object_monostate storage"
| "to_object storage (V_bool b) = raw_obj_bool b"
| "to_object storage (V_i64 v) = raw_obj_i64 v"
| "to_object storage (V_f64 v) = raw_obj_f64 v"
| "to_object storage (V_span s) = raw_obj_buf s"
| "to_object storage (V_list l) = raw_obj_list l"
| "to_object storage (V_map m) = raw_obj_map m"

section \<open>Typed access\<close>

datatype cpp_type =
    T_object
  | T_monostate
  | T_bool
  | T_int nat bool  \<comment> \<open>an integral type: its width in bits, whether it is signed\<close>
  | T_double
  | T_buffer        \<comment> \<open>\<open>std::span<uint8_t>\<close>, \<open>std::string_view\<close> and \<open>Buffer\<close>\<close>
  | T_list
  | T_map

datatype cpp_value =
    Val_object GgObject
  | Val_monostate
  | Val_bool bool
  | Val_int int
  | Val_double f64
  | Val_buffer GgBuffer
  | Val_list GgList
  | Val_map GgMap

definition int_conversion :: "nat \<Rightarrow> bool \<Rightarrow> int \<Rightarrow> int" where
  \<comment> \<open>the conversion of an integer to an integral type: modulo \<open>2 ^ w\<close>\<close>
  "int_conversion w is_signed v =
     (let r = v mod 2 ^ w in if is_signed \<and> r \<ge> 2 ^ (w - 1) then r - 2 ^ w else r)"

definition get_if :: "cpp_type \<Rightarrow> GgObject \<Rightarrow> cpp_value option" where
  "get_if t obj =
     (case (t, obj) of
        (T_monostate, OBJ_NULL) \<Rightarrow> Some Val_monostate
      | (T_bool, OBJ_BOOLEAN b) \<Rightarrow> Some (Val_bool b)
      | (T_int w is_signed, OBJ_I64 v) \<Rightarrow> Some (Val_int (int_conversion w is_signed (sint v)))
      | (T_double, OBJ_F64 v) \<Rightarrow> Some (Val_double v)
      | (T_buffer, OBJ_BUF b) \<Rightarrow> Some (Val_buffer b)
      | (T_list, OBJ_LIST p xs) \<Rightarrow> Some (Val_list (p, xs))
      | (T_map, OBJ_MAP p kvs) \<Rightarrow> Some (Val_map (p, kvs))
      | _ \<Rightarrow> None)"

definition get_value :: "cpp_type \<Rightarrow> GgObject \<Rightarrow> cpp_value throws" where
  \<comment> \<open>\<open>get\<close>\<close>
  "get_value t obj = (case get_if t obj of None \<Rightarrow> Inl (Gg_exception GG_ERR_INVALID) | Some v \<Rightarrow> Inr v)"

section \<open>Schemas\<close>

datatype MapSchema =
    Schema_required "byte list" cpp_type
  | Schema_optional "byte list" cpp_type
  | Schema_missing "byte list"

type_synonym schema_write = "(ptr option \<times> cpp_value option) option"
  \<comment> \<open>what is stored through \<open>object\<close>, if the schema has it (\<open>None\<close> inside: NULL), and \<open>entry\<close>, or nothing\<close>

definition retrieve_value :: "GgMap \<Rightarrow> ptr \<Rightarrow> cpp_type \<Rightarrow> GgError \<times> schema_write" where
  "retrieve_value m iter t =
     (let obj = snd (pair_at m iter); written = (\<lambda>v. (GG_ERR_OK, Some (Some (snd (MapIterator_deref m iter)), Some v))) in
      if t = T_object then written (Val_object obj)
      else (case get_if t obj of None \<Rightarrow> (GG_ERR_PARSE, None) | Some v \<Rightarrow> written v))"

fun MapSchema_validate :: "GgMap \<Rightarrow> MapSchema \<Rightarrow> (GgError \<times> schema_write) option" where
  "MapSchema_validate m (Schema_required key t) =
     map_option (\<lambda>found. if found = Map_end m then (GG_ERR_NOENTRY, None) else retrieve_value m found t) (Map_find m key)"
| "MapSchema_validate m (Schema_optional key t) =
     map_option (\<lambda>found. if found = Map_end m then (GG_ERR_OK, Some (None, None)) else retrieve_value m found t) (Map_find m key)"
| "MapSchema_validate m (Schema_missing key) =
     map_option (\<lambda>found. if found = Map_end m then (GG_ERR_OK, None) else (GG_ERR_PARSE, None)) (Map_find m key)"

fun validate_map :: "GgMap \<Rightarrow> MapSchema list \<Rightarrow> (GgError \<times> schema_write list) option" where
  \<comment> \<open>the fold over \<open>||\<close> stops at the first schema that fails, which is validated a second time for the
      result. The list has what each schema stored, up to the one that failed\<close>
  "validate_map m [] = Some (GG_ERR_OK, [])"
| "validate_map m (schema # schemas) =
     Option.bind (MapSchema_validate m schema) (\<lambda>(err, w).
     if err \<noteq> GG_ERR_OK
     then map_option (\<lambda>(result, w). (result, [])) (MapSchema_validate m schema)
     else map_option (\<lambda>(result, ws). (result, w # ws)) (validate_map m schemas))"


section \<open>Lemmas: iterators\<close>

locale iterator_range =
  \<comment> \<open>iterators over \<open>n\<close> elements: \<open>at i\<close> is the iterator at element \<open>i\<close>, \<open>at n\<close> the end\<close>
  fixes inc :: "'i \<Rightarrow> 'i" and deref :: "'i \<Rightarrow> 'v" and at :: "nat \<Rightarrow> 'i" and n :: nat
  assumes inc_at: "i < n \<Longrightarrow> inc (at i) = at (Suc i)"
    and at_end: "i < n \<Longrightarrow> at i \<noteq> at n"
begin

lemma find_if_at:
  "i \<le> n \<Longrightarrow> find_if inc deref p (at i) (at n) = Some (at (case find (\<lambda>j. p (deref (at j))) [i..<n] of None \<Rightarrow> n | Some j \<Rightarrow> j))"
proof (induction "n - i" arbitrary: i)
  case 0
  then have "i = n" by simp
  then show ?case by (subst find_if.simps) simp
next
  case (Suc k)
  then have i: "i < n" by simp
  then have "[i..<n] = i # [Suc i..<n]" by (simp add: upt_conv_Cons)
  then show ?case using Suc i by (subst find_if.simps) (simp add: inc_at at_end)
qed

end

interpretation map_range: iterator_range MapIterator_inc "MapIterator_deref m" "\<lambda>i. fst m + i * sizeof_KV" "length (snd m)" for m
  by unfold_locales (auto simp: MapIterator_inc_def sizeof_KV_def)

lemma map_range_ends: "Map_begin m = fst m + 0 * sizeof_KV" "Map_end m = fst m + length (snd m) * sizeof_KV"
  by (simp_all add: Map_begin_def Map_end_def)

lemma pair_at_element: "i < length (snd m) \<Longrightarrow> pair_at m (fst m + i * sizeof_KV) = snd m ! i"
  by (simp add: pair_at_def sizeof_KV_def)

definition found_at :: "GgMap \<Rightarrow> byte list \<Rightarrow> nat option" where
  "found_at m key = gg_map_get (snd m) \<lparr>data = 0, mem = key\<rparr>"

lemma found_at_bound: "found_at m key = Some i \<Longrightarrow> i < length (snd m)"
  by (simp add: found_at_def gg_map_get_Some_iff)

lemma Map_find_eq:
  "Map_find m key = Some (case found_at m key of None \<Rightarrow> Map_end m | Some i \<Rightarrow> fst m + i * sizeof_KV)"
proof -
  let ?p = "\<lambda>j. fst (MapIterator_deref m (fst m + j * sizeof_KV)) = key"
  have p: "?p j \<longleftrightarrow> mem (fst (snd m ! j)) = key" if "j < length (snd m)" for j
    using that by (simp add: MapIterator_deref_def KV_key_def pair_at_element)
  have "find ?p [0..<length (snd m)] = found_at m key"
  proof (cases "found_at m key")
    case None
    then have k: "key \<notin> set (keys (snd m))" by (simp add: found_at_def gg_map_get_None_iff)
    have "mem (fst (snd m ! j)) \<noteq> key" if "j < length (snd m)" for j
      using that k nth_mem [of j "keys (snd m)"] by (auto simp: nth_map)
    then have "find ?p [0..<length (snd m)] = None" using p by (simp add: find_None_iff)
    then show ?thesis using None by simp
  next
    case (Some i)
    then have "i < length (snd m)" "mem (fst (snd m ! i)) = key" "\<forall>j < i. mem (fst (snd m ! j)) \<noteq> key"
      by (simp_all add: found_at_def gg_map_get_Some_iff)
    then have "find ?p [0..<length (snd m)] = Some i" using p by (simp add: find_Some_iff exI [of _ i])
    then show ?thesis using Some by simp
  qed
  then show ?thesis using map_range.find_if_at [of 0 m "\<lambda>kv. fst kv = key"]
    by (simp add: Map_find_def map_range_ends split: option.split)
qed

lemma element_not_end: "i < length (snd m) \<Longrightarrow> fst m + i * sizeof_KV \<noteq> Map_end m"
  by (simp add: Map_end_def sizeof_KV_def)

lemma Map_at_eq:
  "Map_at m key = Some (case found_at m key of None \<Rightarrow> Inl Out_of_range | Some i \<Rightarrow> Inr (raw_kv_val (fst m + i * sizeof_KV)))"
  using element_not_end [OF found_at_bound] by (auto simp: Map_at_def Map_find_eq MapIterator_deref_def split: option.split)

lemma iterator_arithmetic:
  assumes "0 \<le> int kv + int sizeof_KV * offset"
  shows "MapIterator_diff (MapIterator_add kv offset) kv = offset" "MapIterator_sub (MapIterator_add kv offset) offset = kv"
  using assms by (simp_all add: MapIterator_diff_def MapIterator_add_def MapIterator_sub_def sizeof_KV_def)

lemma iterator_steps: "MapIterator_add kv 1 = MapIterator_inc kv" "MapIterator_dec (MapIterator_inc kv) = kv"
  "MapIterator_diff (Map_end m) (Map_begin m) = int (length (snd m))"
  by (simp_all add: MapIterator_add_def MapIterator_inc_def MapIterator_dec_def MapIterator_diff_def Map_end_def Map_begin_def
      sizeof_KV_def nat_add_distrib)

section \<open>Lemmas: access\<close>

lemma access_defined:
  "Buffer_at b idx \<noteq> None" "List_at xs idx \<noteq> None" "Map_at m key \<noteq> None" "Object_key obj key \<noteq> None"
  by (auto simp: Buffer_at_def Buffer_index_def List_at_def List_index_def Map_at_eq Object_key_def)

lemma Buffer_eq_iff: "Buffer_eq b c \<longleftrightarrow> mem b = mem c"
  by (auto simp: Buffer_eq_def list_all2_eq [symmetric])

section \<open>Lemmas: schemas\<close>

fun c_type :: "cpp_type \<Rightarrow> GgObjectType" where
  \<comment> \<open>the type a C schema would name; \<open>GG_TYPE_NULL\<close> there means any type\<close>
  "c_type T_object = GG_TYPE_NULL"
| "c_type T_monostate = GG_TYPE_NULL"
| "c_type T_bool = GG_TYPE_BOOLEAN"
| "c_type (T_int _ _) = GG_TYPE_I64"
| "c_type T_double = GG_TYPE_F64"
| "c_type T_buffer = GG_TYPE_BUF"
| "c_type T_list = GG_TYPE_LIST"
| "c_type T_map = GG_TYPE_MAP"

definition c_key :: "byte list \<Rightarrow> GgBuffer" where
  "c_key key = \<lparr>data = 0, mem = key\<rparr>"

fun c_entry :: "MapSchema \<Rightarrow> GgMapSchemaEntry" where
  "c_entry (Schema_required key t) = \<lparr>sch_key = c_key key, sch_required = GG_REQUIRED, sch_type = c_type t\<rparr>"
| "c_entry (Schema_optional key t) = \<lparr>sch_key = c_key key, sch_required = GG_OPTIONAL, sch_type = c_type t\<rparr>"
| "c_entry (Schema_missing key) = \<lparr>sch_key = c_key key, sch_required = GG_MISSING, sch_type = GG_TYPE_NULL\<rparr>"

fun has_c_entry :: "MapSchema \<Rightarrow> bool" where
  "has_c_entry (Schema_required key t) \<longleftrightarrow> t \<noteq> T_monostate"
| "has_c_entry (Schema_optional key t) \<longleftrightarrow> t \<noteq> T_monostate"
| "has_c_entry (Schema_missing key) \<longleftrightarrow> True"

definition pointer_of :: "schema_write \<Rightarrow> ptr option" where
  \<comment> \<open>the pointer stored, or NULL\<close>
  "pointer_of w = (case w of Some (Some p, _) \<Rightarrow> Some p | _ \<Rightarrow> None)"

lemma pointer_of_simps [simp]: "pointer_of (Some (q, v)) = q" "pointer_of None = None"
  by (simp_all add: pointer_of_def split: option.split)

lemma get_if_type: "t \<noteq> T_monostate \<Longrightarrow> t \<noteq> T_object \<Longrightarrow> get_if t obj \<noteq> None \<longleftrightarrow> gg_obj_type obj = c_type t"
  by (cases t; cases obj) (simp_all add: get_if_def)

lemma retrieve_value_c:
  assumes "t \<noteq> T_monostate" "i < length (snd m)"
  shows "retrieve_value m (fst m + i * sizeof_KV) t =
    (if c_type t \<noteq> GG_TYPE_NULL \<and> c_type t \<noteq> gg_obj_type (snd (snd m ! i)) then (GG_ERR_PARSE, None)
     else (GG_ERR_OK, Some (Some (raw_kv_val (fst m + i * sizeof_KV)),
       Some (if t = T_object then Val_object (snd (snd m ! i)) else the (get_if t (snd (snd m ! i)))))))"
proof (cases "t = T_object")
  case False
  then have "c_type t \<noteq> GG_TYPE_NULL" using assms(1) by (cases t) simp_all
  then show ?thesis using get_if_type [OF assms(1) False, of "snd (snd m ! i)"] False assms(2)
    by (cases "get_if t (snd (snd m ! i))") (auto simp: retrieve_value_def pair_at_element MapIterator_deref_def)
qed (simp add: retrieve_value_def pair_at_element assms(2) MapIterator_deref_def)

lemma validate_map_c:
  "list_all has_c_entry schemas \<Longrightarrow>
   \<exists>ws. validate_map m schemas = Some (fst (gg_map_validate (snd m) (map c_entry schemas)), ws) \<and>
     map pointer_of ws = map (map_option (\<lambda>i. raw_kv_val (fst m + i * sizeof_KV))) (snd (gg_map_validate (snd m) (map c_entry schemas)))"
proof (induction schemas)
  case (Cons schema schemas)
  let ?rest = "gg_map_validate (snd m) (map c_entry schemas)"
  obtain ws where ws: "validate_map m schemas = Some (fst ?rest, ws)"
    "map pointer_of ws = map (map_option (\<lambda>i. raw_kv_val (fst m + i * sizeof_KV))) (snd ?rest)"
    using Cons by auto
  obtain e vs where r: "?rest = (e, vs)" by (cases ?rest)
  show ?case
  proof (cases schema)
    case (Schema_required key t)
    show ?thesis using Cons.prems ws r Schema_required retrieve_value_c [of t _ m] element_not_end [of _ m] found_at_bound [of m key]
      by (cases "gg_map_get (snd m) (c_key key)") (auto simp: Map_find_eq found_at_def c_key_def)
  next
    case (Schema_optional key t)
    show ?thesis using Cons.prems ws r Schema_optional retrieve_value_c [of t _ m] element_not_end [of _ m] found_at_bound [of m key]
      by (cases "gg_map_get (snd m) (c_key key)") (auto simp: Map_find_eq found_at_def c_key_def)
  next
    case (Schema_missing key)
    show ?thesis using Cons.prems ws r Schema_missing element_not_end [of _ m] found_at_bound [of m key]
      by (cases "gg_map_get (snd m) (c_key key)") (auto simp: Map_find_eq found_at_def c_key_def)
  qed
qed simp

section \<open>Properties\<close>

text \<open>
  C34: Validating a map against C++ schemas agrees with \<open>gg_map_validate\<close> on the corresponding C
  schema: validation returns, the same error is reported (so for the same, first, entry that fails),
  and the pointers stored up to there are those the C function stores. It holds for
  every schema but those of type \<open>std::monostate\<close>, for which C has no counterpart.
\<close>
theorem validate_map_agrees:
  assumes "list_all has_c_entry schemas"
  shows "\<exists>ws. validate_map m schemas = Some (fst (gg_map_validate (snd m) (map c_entry schemas)), ws) \<and>
    map pointer_of ws = map (map_option (\<lambda>i. raw_kv_val (fst m + i * sizeof_KV))) (snd (gg_map_validate (snd m) (map c_entry schemas)))"
  using validate_map_c [OF assms] .

theorem validate_map_agrees_witness:
  "\<exists>ws. validate_map (100, [(GG_STR ''a'', OBJ_I64 5), (GG_STR ''b'', OBJ_BOOLEAN True)])
     [Schema_required (bytes_of ''b'') T_bool, Schema_optional (bytes_of ''c'') T_map, Schema_required (bytes_of ''a'') T_buffer] =
     Some (GG_ERR_PARSE, ws) \<and> map pointer_of ws = [Some 131, None]"
  using validate_map_agrees [of "[Schema_required (bytes_of ''b'') T_bool, Schema_optional (bytes_of ''c'') T_map, Schema_required (bytes_of ''a'') T_buffer]"
      "(100, [(GG_STR ''a'', OBJ_I64 5), (GG_STR ''b'', OBJ_BOOLEAN True)])"]
  by (simp add: c_key_def raw_kv_val_def sizeof_KV_def)

text \<open>
  Conversions: a variant survives the conversion to an object and back, if its length fits 16
  bits, with one exception: the object made of \<open>std::monostate\<close> has the bytes its storage held
  before, so it may be anything.
\<close>

fun variant_ok :: "Variant \<Rightarrow> bool" where
  "variant_ok (V_span s) \<longleftrightarrow> sized_ok (fst s) (snd s)"
| "variant_ok (V_list s) \<longleftrightarrow> sized_ok (fst s) (snd s)"
| "variant_ok (V_map s) \<longleftrightarrow> sized_ok (fst s) (snd s)"
| "variant_ok V_monostate \<longleftrightarrow> False"
| "variant_ok V_valueless \<longleftrightarrow> False"
| "variant_ok _ \<longleftrightarrow> True"

theorem variant_roundtrip:
  "(variant_ok v \<longrightarrow> to_variant (to_object storage v) = Some v) \<and> to_object storage V_monostate = storage"
proof -
  have s: "raw_obj_type (raw_sized 4 x) = 4" "raw_obj_type (raw_sized 5 x) = 5" "raw_obj_type (raw_sized 6 x) = 6" for x
    by (simp_all add: raw_sized_type)
  have "variant_ok v \<Longrightarrow> to_variant (to_object storage v) = Some v"
    by (cases v) (auto simp: to_variant_def raw_type_simps raw_word_into raw_obj_buf_def raw_obj_list_def raw_obj_map_def
        raw_obj_into_buf_def raw_obj_into_list_def raw_obj_into_map_def s raw_sized_into)
  then show ?thesis by (simp add: Object_monostate_def)
qed

end
