(* ===== verification/Cpp_Subscription.thy ===== *)
theory Cpp_Subscription
  imports Ipc_Properties "HOL-Library.Multiset"
begin

text \<open>
  The class \<open>Subscription\<close> of the C++ interface (\<open>cpp/include/gg/ipc/subscription.hpp\<close>,
  \<open>cpp/src/ipc/subsciption.cpp\<close>), which owns a subscription handle.

  An object is its handle. The members that close a subscription take the function that does,
  \<open>ggipc_close_subscription\<close>, as their first argument, and pass its state along. A program is a sequence of
  operations on objects in a store; an object may be source and target of the same operation. The
  store also counts what happened to each handle: handed to an object, closed, released.

  Lemmas: no handle is lost and none is closed twice; assignment by move does what its comment
  says, except between two objects that both hold a subscription, where it does nothing.
\<close>

section \<open>The class\<close>

definition holds_subscription :: "u32 \<Rightarrow> bool" where
  "holds_subscription handle \<longleftrightarrow> handle \<noteq> 0"

definition Subscription_release :: "u32 \<Rightarrow> u32 \<times> u32" where
  \<comment> \<open>the handle returned, and what the object holds afterwards\<close>
  "Subscription_release handle = (handle, 0)"

definition Subscription_close :: "(u32 \<Rightarrow> 's \<Rightarrow> 's) \<Rightarrow> u32 \<Rightarrow> 's \<Rightarrow> u32 \<times> 's" where
  "Subscription_close close_fn handle s =
     (if holds_subscription handle
      then case Subscription_release handle of (h, handle) \<Rightarrow> (handle, close_fn h s)
      else (handle, s))"

definition Subscription_reset :: "(u32 \<Rightarrow> 's \<Rightarrow> 's) \<Rightarrow> u32 \<Rightarrow> u32 \<Rightarrow> 's \<Rightarrow> u32 \<times> 's" where
  "Subscription_reset close_fn new_handle handle s =
     (case Subscription_close close_fn handle s of (_, s) \<Rightarrow> (new_handle, s))"

definition Subscription_destroy :: "(u32 \<Rightarrow> 's \<Rightarrow> 's) \<Rightarrow> u32 \<Rightarrow> 's \<Rightarrow> 's" where
  "Subscription_destroy close_fn handle s = snd (Subscription_close close_fn handle s)"

definition Subscription_move :: "u32 \<Rightarrow> u32 \<times> u32" where
  \<comment> \<open>the move constructor: the new object, and the one moved from\<close>
  "Subscription_move subscription = Subscription_release subscription"

definition Subscription_move_assign :: "(u32 \<Rightarrow> 's \<Rightarrow> 's) \<Rightarrow> u32 \<Rightarrow> u32 \<Rightarrow> 's \<Rightarrow> u32 \<times> u32 \<times> 's" where
  \<comment> \<open>\<open>*this\<close> and \<open>subscription\<close> are two objects. The class has no \<open>operator==\<close>, and \<open>operator<=>\<close> does not
     supply \<open>!=\<close>, so \<open>subscription != *this\<close> compares the two objects converted to \<open>bool\<close>\<close>
  "Subscription_move_assign close_fn this subscription s =
     (if holds_subscription subscription \<noteq> holds_subscription this
      then case Subscription_release subscription of
             (h, subscription) \<Rightarrow> (case Subscription_reset close_fn h this s of (this, s) \<Rightarrow> (this, subscription, s))
      else (this, subscription, s))"

definition Subscription_swap :: "u32 \<Rightarrow> u32 \<Rightarrow> u32 \<times> u32" where
  "Subscription_swap handle other = (other, handle)"

datatype strong_ordering = Ord_less | Ord_equal | Ord_greater

definition Subscription_compare :: "u32 \<Rightarrow> u32 \<Rightarrow> strong_ordering" where
  "Subscription_compare handle other =
     (if handle < other then Ord_less else if handle = other then Ord_equal else Ord_greater)"

section \<open>Programs\<close>

record 'w program =
  objects :: "u32 option list"  \<comment> \<open>\<open>None\<close>: destroyed\<close>
  ipc_and_closed :: "'w ipc \<times> u32 list"  \<comment> \<open>the client, and the handles closed so far\<close>
  released :: "u32 list"
  acquired :: "u32 list"

datatype sub_op =
    Default_construct
  | Construct u32
  | Move_construct nat
  | Move_assign nat nat  \<comment> \<open>target, source\<close>
  | Swap nat nat
  | Reset nat u32
  | Release nat
  | Close nat
  | Destroy nat

definition logged_close :: "'w ipc_env \<Rightarrow> u32 \<Rightarrow> 'w ipc \<times> u32 list \<Rightarrow> 'w ipc \<times> u32 list" where
  "logged_close env h s = (ggipc_close_subscription env h (fst s), snd s @ [h])"

definition object_at :: "'w program \<Rightarrow> nat \<Rightarrow> u32 option" where
  "object_at p i = (if i < length (objects p) then objects p ! i else None)"

fun sub_step :: "'w ipc_env \<Rightarrow> sub_op \<Rightarrow> 'w program \<Rightarrow> 'w program option" where
  \<comment> \<open>\<open>None\<close>: an object is used that does not exist\<close>
  "sub_step env Default_construct p = Some (p\<lparr>objects := objects p @ [Some 0]\<rparr>)"
| "sub_step env (Construct h) p = Some (p\<lparr>objects := objects p @ [Some h], acquired := acquired p @ [h]\<rparr>)"
| "sub_step env (Move_construct i) p =
     map_option (\<lambda>h. case Subscription_move h of (new, old) \<Rightarrow> p\<lparr>objects := (objects p)[i := Some old] @ [Some new]\<rparr>) (object_at p i)"
| "sub_step env (Move_assign i j) p =
     Option.bind (object_at p i) (\<lambda>h. Option.bind (object_at p j) (\<lambda>h'.
     if i = j then Some p
     else case Subscription_move_assign (logged_close env) h h' (ipc_and_closed p) of
            (h, h', s) \<Rightarrow> Some (p\<lparr>objects := (objects p)[i := Some h, j := Some h'], ipc_and_closed := s\<rparr>)))"
| "sub_step env (Swap i j) p =
     Option.bind (object_at p i) (\<lambda>h. Option.bind (object_at p j) (\<lambda>h'.
     case Subscription_swap h h' of (h, h') \<Rightarrow> Some (p\<lparr>objects := (objects p)[i := Some h, j := Some h']\<rparr>)))"
| "sub_step env (Reset i h') p =
     map_option (\<lambda>h. case Subscription_reset (logged_close env) h' h (ipc_and_closed p) of
       (h, s) \<Rightarrow> p\<lparr>objects := (objects p)[i := Some h], ipc_and_closed := s, acquired := acquired p @ [h']\<rparr>) (object_at p i)"
| "sub_step env (Release i) p =
     map_option (\<lambda>h. case Subscription_release h of
       (h', h) \<Rightarrow> p\<lparr>objects := (objects p)[i := Some h], released := released p @ [h']\<rparr>) (object_at p i)"
| "sub_step env (Close i) p =
     map_option (\<lambda>h. case Subscription_close (logged_close env) h (ipc_and_closed p) of
       (h, s) \<Rightarrow> p\<lparr>objects := (objects p)[i := Some h], ipc_and_closed := s\<rparr>) (object_at p i)"
| "sub_step env (Destroy i) p =
     map_option (\<lambda>h. p\<lparr>objects := (objects p)[i := None],
       ipc_and_closed := Subscription_destroy (logged_close env) h (ipc_and_closed p)\<rparr>) (object_at p i)"

fun run_ops :: "'w ipc_env \<Rightarrow> sub_op list \<Rightarrow> 'w program \<Rightarrow> 'w program option" where
  "run_ops env [] p = Some p"
| "run_ops env (op # ops) p = Option.bind (sub_step env op p) (run_ops env ops)"

definition program_start :: "'w ipc \<Rightarrow> 'w program" where
  "program_start s = \<lparr>objects = [], ipc_and_closed = (s, []), released = [], acquired = []\<rparr>"

section \<open>Lemmas: ownership\<close>

definition own :: "u32 \<Rightarrow> u32 multiset" where
  "own h = (if holds_subscription h then {#h#} else {#})"

definition owned :: "u32 option list \<Rightarrow> u32 multiset" where
  "owned xs = (\<Sum>x\<leftarrow>xs. case x of None \<Rightarrow> {#} | Some h \<Rightarrow> own h)"

definition handles :: "u32 list \<Rightarrow> u32 multiset" where
  "handles hs = (\<Sum>h\<leftarrow>hs. own h)"

lemma owned_simps [simp]: "owned [] = {#}" "owned (xs @ ys) = owned xs + owned ys"
  "owned [Some h] = own h" "owned (None # xs) = owned xs" "owned (Some h # xs) = own h + owned xs"
  by (simp_all add: owned_def)

lemma handles_simps [simp]: "handles [] = {#}" "handles (xs @ ys) = handles xs + handles ys" "handles [h] = own h"
  by (simp_all add: handles_def)

lemma own_zero [simp]: "own 0 = {#}"
  by (simp add: own_def holds_subscription_def)

lemma owned_update:
  "i < length xs \<Longrightarrow> xs ! i = Some h \<Longrightarrow> owned (xs[i := Some h']) + own h = owned xs + own h'"
  "i < length xs \<Longrightarrow> xs ! i = Some h \<Longrightarrow> owned (xs[i := None]) + own h = owned xs"
proof (induction xs arbitrary: i)
  case (Cons x xs)
  { case 1 then show ?case using Cons(1) [of "i - 1"] by (cases i; cases x) (simp_all add: ac_simps) }
  { case 2 then show ?case using Cons(2) [of "i - 1"] by (cases i; cases x) (simp_all add: ac_simps) }
qed simp_all


lemma owned_count:
  assumes "object_at p i = Some h"
  shows "count (owned ((objects p)[i := Some h'])) x + count (own h) x = count (owned (objects p)) x + count (own h') x"
    and "count (owned ((objects p)[i := None])) x + count (own h) x = count (owned (objects p)) x"
  using assms owned_update(1) [of i "objects p" h h'] owned_update(2) [of i "objects p" h]
  by (simp_all add: object_at_def count_union [symmetric] del: count_union split: if_splits)

lemma owned_count2:
  assumes "object_at p i = Some h" "object_at p j = Some h'" "i \<noteq> j"
  shows "count (owned ((objects p)[i := Some g, j := Some g'])) x + count (own h) x + count (own h') x =
    count (owned (objects p)) x + count (own g) x + count (own g') x"
  using owned_count(1) [of "p\<lparr>objects := (objects p)[i := Some g]\<rparr>" j h' g' x] owned_count(1) [OF assms(1), of g x] assms
  by (simp add: object_at_def split: if_splits)

definition closing :: "(u32 \<Rightarrow> 's \<Rightarrow> 's) \<Rightarrow> u32 \<Rightarrow> 's \<Rightarrow> 's" where
  "closing close_fn h s = (if h = 0 then s else close_fn h s)"

lemma Subscription_close_eq: "Subscription_close close_fn h s = (0, closing close_fn h s)"
  by (simp add: Subscription_close_def Subscription_release_def holds_subscription_def closing_def)

lemma handles_closing [simp]: "handles (snd (closing (logged_close env) h s)) = handles (snd s) + own h"
  by (simp add: closing_def logged_close_def)

definition balanced :: "'w program \<Rightarrow> bool" where
  "balanced p \<longleftrightarrow> owned (objects p) + handles (snd (ipc_and_closed p)) + handles (released p) = handles (acquired p)"

definition closes_logged :: "'w ipc_env \<Rightarrow> 'w ipc \<Rightarrow> 'w ipc \<times> u32 list \<Rightarrow> bool" where
  "closes_logged env s0 s \<longleftrightarrow> fst s = fold (ggipc_close_subscription env) (snd s) s0 \<and> 0 \<notin> set (snd s)"

lemma closes_logged_closing: "closes_logged env s0 s \<Longrightarrow> closes_logged env s0 (closing (logged_close env) h s)"
  by (simp add: closes_logged_def logged_close_def closing_def)

lemmas subscription_members = Subscription_move_def Subscription_move_assign_def Subscription_swap_def Subscription_reset_def
  Subscription_release_def Subscription_destroy_def Subscription_close_eq holds_subscription_def

lemma sub_step_closes:
  "sub_step env op p = Some q \<Longrightarrow> closes_logged env s0 (ipc_and_closed p) \<Longrightarrow> closes_logged env s0 (ipc_and_closed q)"
  by (cases op) (auto simp: subscription_members closes_logged_closing bind_eq_Some_conv split: if_splits)

lemma sub_step_balanced: "sub_step env op p = Some q \<Longrightarrow> balanced p \<Longrightarrow> balanced q"
proof -
  assume q: "sub_step env op p = Some q" and "balanced p"
  then have p: "count (owned (objects p)) x + count (handles (snd (ipc_and_closed p))) x + count (handles (released p)) x =
      count (handles (acquired p)) x" for x
    unfolding balanced_def count_union [symmetric] by simp
  have "count (owned (objects q)) x + count (handles (snd (ipc_and_closed q))) x + count (handles (released q)) x =
      count (handles (acquired q)) x" for x
  proof (cases op)
    case (Move_assign i j)
    show ?thesis
    proof (cases "i = j")
      case False
      obtain h h' where h: "object_at p i = Some h" "object_at p j = Some h'"
        using q Move_assign by (auto simp: bind_eq_Some_conv)
      then show ?thesis using q Move_assign False p [of x] owned_count2 [OF h False, of h' 0 x] owned_count2 [OF h False, of h h' x]
        by (auto simp: subscription_members object_at_def split: if_splits)
    qed (use q Move_assign p in \<open>auto simp: bind_eq_Some_conv\<close>)
  next
    case (Swap i j)
    show ?thesis
    proof (cases "i = j")
      case True
      then obtain h where h: "object_at p i = Some h" using q Swap by (auto simp: bind_eq_Some_conv)
      then show ?thesis using True q Swap p [of x] owned_count(1) [OF h, of h x] by (auto simp: subscription_members)
    next
      case False
      obtain h h' where h: "object_at p i = Some h" "object_at p j = Some h'"
        using q Swap by (auto simp: bind_eq_Some_conv)
      then show ?thesis using q Swap p [of x] owned_count2 [OF h False, of h' h x] by (auto simp: subscription_members)
    qed
  next
    case (Move_construct i)
    then show ?thesis using q p [of x] owned_count(1) [of p i _ 0 x] by (auto simp: subscription_members)
  next
    case (Reset i h)
    then show ?thesis using q p [of x] owned_count(1) [of p i _ h x] by (auto simp: subscription_members)
  next
    case (Release i)
    then show ?thesis using q p [of x] owned_count(1) [of p i _ 0 x] by (auto simp: subscription_members)
  next
    case (Close i)
    then show ?thesis using q p [of x] owned_count(1) [of p i _ 0 x] by (auto simp: subscription_members)
  next
    case (Destroy i)
    then show ?thesis using q p [of x] owned_count(2) [of p i _ x] by (auto simp: subscription_members)
  qed (use q p [of x] in auto)
  then show ?thesis by (simp add: balanced_def multiset_eq_iff)
qed

lemma run_ops_accounted:
  "run_ops env ops p = Some q \<Longrightarrow> balanced p \<Longrightarrow> closes_logged env s0 (ipc_and_closed p) \<Longrightarrow>
   balanced q \<and> closes_logged env s0 (ipc_and_closed q)"
proof (induction ops arbitrary: p)
  case (Cons op ops)
  then show ?case using sub_step_balanced sub_step_closes by (fastforce simp: bind_eq_Some_conv)
qed simp

lemma owned_destroyed: "set xs \<subseteq> {None} \<Longrightarrow> owned xs = {#}"
  by (induction xs) auto

lemma Subscription_compare_linear:
  "Subscription_compare h h' = Ord_less \<longleftrightarrow> Subscription_compare h' h = Ord_greater"
  "Subscription_compare h h' = Ord_equal \<longleftrightarrow> h = h'"
  "Subscription_compare h h' = Ord_less \<Longrightarrow> Subscription_compare h' h'' = Ord_less \<Longrightarrow> Subscription_compare h h'' = Ord_less"
  by (auto simp: Subscription_compare_def split: if_splits)

section \<open>Properties\<close>

text \<open>
  C9: Ownership of subscription handles. After any sequence of operations on \<open>Subscription\<close> objects, every
  handle given to an object is still held by exactly one object, or has been closed
  once, or has been released to the caller (handles are counted with multiplicity; the value 0 is no handle).
  The client has seen exactly the calls of \<open>ggipc_close_subscription\<close> in the list, in this order. Once all
  objects are destroyed, every handle has been closed or released.
\<close>
theorem subscription_ownership:
  assumes "run_ops env ops (program_start s0) = Some p"
  shows "owned (objects p) + handles (snd (ipc_and_closed p)) + handles (released p) = handles (acquired p) \<and>
    fst (ipc_and_closed p) = fold (ggipc_close_subscription env) (snd (ipc_and_closed p)) s0 \<and> 0 \<notin> set (snd (ipc_and_closed p)) \<and>
    (set (objects p) \<subseteq> {None} \<longrightarrow> handles (snd (ipc_and_closed p)) + handles (released p) = handles (acquired p))"
proof -
  have "balanced (program_start s0)" "closes_logged env s0 (ipc_and_closed (program_start s0))"
    by (simp_all add: balanced_def closes_logged_def program_start_def)
  from run_ops_accounted [OF assms this] have p: "balanced p" "closes_logged env s0 (ipc_and_closed p)" by simp_all
  then have "set (objects p) \<subseteq> {None} \<Longrightarrow> handles (snd (ipc_and_closed p)) + handles (released p) = handles (acquired p)"
    using owned_destroyed [of "objects p"] by (simp add: balanced_def)
  then show ?thesis using p by (simp add: balanced_def closes_logged_def)
qed

theorem subscription_ownership_witness:
  "\<exists>p. run_ops script_env [Construct 3, Default_construct, Construct 7, Move_assign 1 0, Move_construct 2, Swap 1 3,
       Reset 1 5, Release 3, Destroy 0, Destroy 1, Destroy 2, Destroy 3] (program_start (ipc_init [])) = Some p \<and>
     handles (snd (ipc_and_closed p)) + {#3#} = {#3, 5, 7#}"
proof -
  let ?ops = "[Construct 3, Default_construct, Construct 7, Move_assign 1 0, Move_construct 2, Swap 1 3,
       Reset 1 5, Release 3, Destroy 0, Destroy 1, Destroy 2, Destroy 3]"
  obtain p where p: "run_ops script_env ?ops (program_start (ipc_init [])) = Some p" "objects p = [None, None, None, None]"
    "released p = [3]" "acquired p = [3, 7, 5]"
    by (simp add: program_start_def object_at_def subscription_members)
  from subscription_ownership [OF p(1)] show ?thesis using p
    by (auto simp: handles_def own_def holds_subscription_def)
qed

text \<open>
  C39: Assignment by move. Unless both objects hold a subscription, \<open>operator=\<close> does
  what its documentation says: the subscription of the target is closed, the target takes over the handle
  of the source, and the source refers to none. If both hold one, nothing happens: the target keeps its
  subscription open and the source keeps its handle.
\<close>
theorem Subscription_move_assign_cases:
  "(\<not> (holds_subscription this \<and> holds_subscription source) \<longrightarrow>
      Subscription_move_assign close_fn this source s = (source, 0, snd (Subscription_close close_fn this s))) \<and>
   (holds_subscription this \<and> holds_subscription source \<longrightarrow>
      Subscription_move_assign close_fn this source s = (this, source, s))"
  by (auto simp: subscription_members closing_def)

theorem Subscription_move_assign_cases_witness:
  "Subscription_move_assign (\<lambda>h hs. hs @ [h]) 3 0 [] = (0, 0, [3]) \<and> Subscription_move_assign (\<lambda>h hs. hs @ [h]) 3 7 [] = (3, 7, [])"
  using Subscription_move_assign_cases [of 3 0 "\<lambda>h hs. hs @ [h]" "[]"] Subscription_move_assign_cases [of 3 7 "\<lambda>h hs. hs @ [h]" "[]"]
  by (simp add: Subscription_close_eq closing_def holds_subscription_def)

end
