(* ===== verification/Base64.thy ===== *)
theory Base64
  imports Arena
begin

text \<open>
  Base64 (\<open>priv_include/gg/base64.h\<close>, \<open>src/base64.c\<close>).

  The decoder may be called in place, so it is modelled on one block of memory: the source
  and the target are ranges of it and every write goes to that block. The encoder allocates
  its result from an arena and fills it.

  Lemmas: encoding and decoding are inverse to each other in both directions (the decoder
  accepts canonical encodings only), decoding in place is as good as decoding elsewhere,
  and a failed decoding leaves the length of the target alone.
\<close>

section \<open>Decoding\<close>

definition base64_char_to_byte :: "byte \<Rightarrow> byte option" where
  "base64_char_to_byte digit =
     (if digit \<ge> chr CHR ''A'' \<and> digit \<le> chr CHR ''Z'' then Some (digit - 65)
      else if digit \<ge> chr CHR ''a'' \<and> digit \<le> chr CHR ''z'' then Some (digit - 97 + 26)
      else if digit \<ge> chr CHR ''0'' \<and> digit \<le> chr CHR ''9'' then Some (digit - 48 + 26 + 26)
      else if digit = chr CHR ''+'' then Some 62
      else if digit = chr CHR ''/'' then Some 63
      else None)"

abbreviation b64_pad :: byte where
  "b64_pad \<equiv> 61"

definition segment_value :: "byte \<Rightarrow> byte \<Rightarrow> byte \<Rightarrow> byte \<Rightarrow> byte list option" where
  \<comment> \<open>the first \<open>len\<close> bytes of \<open>value\<close> for the four characters of a segment\<close>
  "segment_value c0 c1 c2 c3 =
     Option.bind (base64_char_to_byte c0) (\<lambda>d0.
     Option.bind (base64_char_to_byte c1) (\<lambda>d1.
     let value0 = push_bit 2 d0 OR drop_bit 4 d1; value1 = push_bit 4 d1 in
     if c2 = b64_pad
     then (if c3 \<noteq> b64_pad then None else if value1 \<noteq> 0 then None else Some [value0])
     else
       Option.bind (base64_char_to_byte c2) (\<lambda>d2.
       let value1 = value1 OR drop_bit 2 d2; value2 = push_bit 6 d2 in
       if c3 = b64_pad
       then (if value2 \<noteq> 0 then None else Some [value0, value1])
       else
         Option.bind (base64_char_to_byte c3) (\<lambda>d3. Some [value0, value1, value2 OR d3]))))"

definition base64_decode_segment ::
  "byte list \<Rightarrow> nat \<Rightarrow> nat \<Rightarrow> nat \<Rightarrow> (byte list \<times> nat \<times> bool) option" where
  \<comment> \<open>memory, address of the segment, start and end of the target; the memory, the new start
      of the target and the padding flag\<close>
  "base64_decode_segment m i out out_end =
     Option.bind (segment_value (m ! i) (m ! (i + 1)) (m ! (i + 2)) (m ! (i + 3))) (\<lambda>value.
     if length value > out_end - out then None
     else Some (mem_write m out value, out + length value, length value \<noteq> 3))"

function base64_loop :: "byte list \<Rightarrow> nat \<Rightarrow> nat \<Rightarrow> nat \<Rightarrow> nat \<Rightarrow> bool \<Rightarrow> byte list \<times> nat option" where
  \<comment> \<open>the memory afterwards, and the end of the output on success\<close>
  "base64_loop m i src_end out out_end is_last =
     (if i < src_end
      then if is_last then (m, None)
           else (case base64_decode_segment m i out out_end of
                   None \<Rightarrow> (m, None)
                 | Some (m', out', is_last') \<Rightarrow> base64_loop m' (i + 4) src_end out' out_end is_last')
      else (m, Some out))"
  by pat_completeness auto
termination
  by (relation "measure (\<lambda>(m, i, src_end, _). src_end - i)") auto

definition gg_base64_decode ::
  "byte list \<Rightarrow> nat \<Rightarrow> nat \<Rightarrow> nat \<Rightarrow> nat \<Rightarrow> bool \<times> byte list \<times> nat" where
  \<comment> \<open>memory, address and length of the source and of the target; returns the result, the memory
      and \<open>target->len\<close>\<close>
  "gg_base64_decode m src slen dst dlen =
     (if slen mod 4 \<noteq> 0 then (False, m, dlen)
      else if dlen < (slen div 4) * 3 then (False, m, dlen)
      else (case base64_loop m src (src + slen) dst (dst + dlen) False of
              (m', None) \<Rightarrow> (False, m', dlen)
            | (m', Some out) \<Rightarrow> (True, m', out - dst)))"

definition gg_base64_decode_in_place :: "byte list \<Rightarrow> nat \<Rightarrow> nat \<Rightarrow> bool \<times> byte list \<times> nat" where
  "gg_base64_decode_in_place m addr n = gg_base64_decode m addr n addr n"

section \<open>Encoding\<close>

definition BASE64_TABLE :: "byte list" where
  "BASE64_TABLE = bytes_of ''ABCDEFGHIJKLMNOPQRSTUVWXYZabcdefghijklmnopqrstuvwxyz0123456789+/''"

definition chunk_of :: "byte \<Rightarrow> byte \<Rightarrow> byte \<Rightarrow> u32" where
  "chunk_of a b c = push_bit 16 (ucast a) + push_bit 8 (ucast b) + ucast c"

definition b64_digit :: "u32 \<Rightarrow> byte" where
  "b64_digit v = BASE64_TABLE ! unat v"

definition encode_chunk :: "byte \<Rightarrow> byte \<Rightarrow> byte \<Rightarrow> byte list" where
  "encode_chunk a b c =
     (let chunk = chunk_of a b c
      in [b64_digit (drop_bit 18 chunk), b64_digit (drop_bit 12 chunk AND 0x3F),
          b64_digit (drop_bit 6 chunk AND 0x3F), b64_digit (chunk AND 0x3F)])"

definition encode_rest :: "byte list \<Rightarrow> byte list" where
  \<comment> \<open>the one or two bytes after the last full chunk\<close>
  "encode_rest rest =
     (if length rest > 0
      then (let chunk = (if length rest > 1 then chunk_of (rest ! 0) (rest ! 1) 0 else chunk_of (rest ! 0) 0 0)
            in [b64_digit (drop_bit 18 chunk), b64_digit (drop_bit 12 chunk AND 0x3F),
                (if length rest > 1 then b64_digit (drop_bit 6 chunk AND 0x3F) else b64_pad), b64_pad])
      else [])"

definition base64_bytes :: "byte list \<Rightarrow> byte list" where
  \<comment> \<open>what the loop and the tail of \<open>gg_base64_encode\<close> write\<close>
  "base64_bytes bs =
     (let chunks = length bs div 3
      in concat (map (\<lambda>i. encode_chunk (bs ! (i * 3)) (bs ! (i * 3 + 1)) (bs ! (i * 3 + 2))) [0..<chunks]) @
         encode_rest (drop (chunks * 3) bs))"

definition gg_base64_encode :: "GgBuffer \<Rightarrow> GgArena option \<Rightarrow> GgBuffer res \<times> GgArena option" where
  "gg_base64_encode buf alloc =
     (let base64_len = ((len buf + 2) div 3) * 4
      in case gg_arena_alloc alloc (base64_len * 1) 1 of
           (None, alloc') \<Rightarrow> (Inl GG_ERR_NOMEM, alloc')
         | (Some p, alloc') \<Rightarrow> (Inr \<lparr>data = p, mem = base64_bytes (mem buf)\<rparr>, alloc'))"

section \<open>Recursive forms\<close>

fun b64_enc :: "byte list \<Rightarrow> byte list" where
  "b64_enc (a # b # c # bs) = encode_chunk a b c @ b64_enc bs"
| "b64_enc bs = encode_rest bs"

fun b64_dec :: "byte list \<Rightarrow> byte list option" where
  "b64_dec [] = Some []"
| "b64_dec (c0 # c1 # c2 # c3 # cs) =
     Option.bind (segment_value c0 c1 c2 c3) (\<lambda>v.
     if cs \<noteq> [] \<and> length v \<noteq> 3 then None else map_option ((@) v) (b64_dec cs))"
| "b64_dec _ = None"

lemma base64_bytes_enc: "base64_bytes bs = b64_enc bs"
proof (induction bs rule: b64_enc.induct)
  case (1 a b c bs)
  let ?f = "\<lambda>bs i. encode_chunk (bs ! (i * 3)) (bs ! (i * 3 + 1)) (bs ! (i * 3 + 2))"
  have n: "length (a # b # c # bs) div 3 = Suc (length bs div 3)" by simp
  have "[0..<Suc (length bs div 3)] = 0 # map Suc [0..<length bs div 3]"
    by (simp only: map_Suc_upt) (simp add: upt_conv_Cons)
  then have f: "map (?f (a # b # c # bs)) [0..<Suc (length bs div 3)] = encode_chunk a b c # map (?f bs) [0..<length bs div 3]"
    by (simp add: comp_def)
  have d: "drop (Suc (length bs div 3) * 3) (a # b # c # bs) = drop (length bs div 3 * 3) bs"
    using drop_drop [of "length bs div 3 * 3" 3 "a # b # c # bs"] by (simp add: add.commute)
  show ?case using 1 unfolding base64_bytes_def n Let_def f d by simp
qed (auto simp: base64_bytes_def)

section \<open>Lemmas: one segment\<close>

lemma table_char: "v < 64 \<Longrightarrow> base64_char_to_byte (BASE64_TABLE ! v) = Some (of_nat v)"
proof -
  have "list_all (\<lambda>v. base64_char_to_byte (BASE64_TABLE ! v) = Some (of_nat v)) [0..<64]" by code_simp
  then show "v < 64 \<Longrightarrow> ?thesis" by (simp add: list_all_iff)
qed

lemma table_not_pad: "v < 64 \<Longrightarrow> BASE64_TABLE ! v \<noteq> b64_pad"
proof -
  have "list_all (\<lambda>v. BASE64_TABLE ! v \<noteq> b64_pad) [0..<64]" by code_simp
  then show "v < 64 \<Longrightarrow> ?thesis" by (simp add: list_all_iff)
qed

lemma char_in_table: "base64_char_to_byte c = Some d \<Longrightarrow> c \<in> set BASE64_TABLE"
proof -
  let ?codes = "[65..<91] @ [97..<123] @ [48..<58] @ [43, 47]"
  assume "base64_char_to_byte c = Some d"
  then have "unat c \<in> set ?codes"
    by (auto simp: base64_char_to_byte_def word_le_nat_alt unat_eq simp del: upt_rec_numeral split: if_splits)
  moreover have "set BASE64_TABLE = of_nat ` set ?codes"
    by (simp add: BASE64_TABLE_def upt_rec_numeral insert_commute)
  ultimately show ?thesis by (metis imageI of_nat_unat ucast_id)
qed

lemma char_table: "base64_char_to_byte c = Some d \<Longrightarrow> unat d < 64 \<and> BASE64_TABLE ! unat d = c"
proof -
  assume *: "base64_char_to_byte c = Some d"
  have "length BASE64_TABLE = 64" by (simp add: BASE64_TABLE_def)
  then obtain v where "v < 64" "BASE64_TABLE ! v = c"
    using char_in_table [OF *] by (auto simp: in_set_conv_nth)
  then show ?thesis using * table_char [of v] by (auto simp: unat_of_nat take_bit_nat_eq_self_iff)
qed

lemma byte_eq_bits: "a = b \<longleftrightarrow> (\<forall>n\<in>{0, 1, 2, 3, 4, 5, 6, 7}. bit (a :: byte) n = bit b n)"
proof
  assume *: "\<forall>n\<in>{0, 1, 2, 3, 4, 5, 6, 7}. bit a n = bit b n"
  show "a = b"
  proof (rule bit_word_eqI)
    fix n assume "n < LENGTH(8)"
    then have "n \<in> {0, 1, 2, 3, 4, 5, 6, 7}" by auto
    then show "bit a n = bit b n" using * by blast
  qed
qed simp

lemma bit_Suc_index: "bit (a :: byte) (Suc (Suc 0)) = bit a 2" "bit (a :: byte) (Suc (Suc (Suc 0))) = bit a 3"
  by (simp_all add: numeral_2_eq_2 numeral_3_eq_3)

lemmas byte_bits = byte_eq_bits bit_simps bit_Suc_index

lemma digit_bits: "unat (x :: byte) < 64 \<longleftrightarrow> \<not> bit x 6 \<and> \<not> bit x 7"
proof -
  have "unat x < 64 \<longleftrightarrow> take_bit 6 x = x"
    by (simp add: word_unat_eq_iff unsigned_take_bit_eq take_bit_nat_eq_self_iff)
  also have "\<dots> \<longleftrightarrow> \<not> bit x 6 \<and> \<not> bit x 7" by (auto simp: byte_eq_bits bit_simps)
  finally show ?thesis .
qed

text \<open>The four digits of a chunk, as bytes, and how the decoder puts them together again.\<close>

definition digit0 :: "byte \<Rightarrow> byte" where
  "digit0 a = drop_bit 2 a"

definition digit1 :: "byte \<Rightarrow> byte \<Rightarrow> byte" where
  "digit1 a b = push_bit 4 (take_bit 2 a) OR drop_bit 4 b"

definition digit2 :: "byte \<Rightarrow> byte \<Rightarrow> byte" where
  "digit2 b c = push_bit 2 (take_bit 4 b) OR drop_bit 6 c"

definition digit3 :: "byte \<Rightarrow> byte" where
  "digit3 c = take_bit 6 c"

abbreviation sym :: "byte \<Rightarrow> byte" where
  "sym d \<equiv> BASE64_TABLE ! unat d"

lemmas digit_defs = digit0_def digit1_def digit2_def digit3_def

lemma chunk_of_or: "chunk_of a b c = push_bit 16 (ucast a) OR push_bit 8 (ucast b) OR ucast c"
proof -
  have "push_bit 16 (ucast a) + push_bit 8 (ucast b) = (push_bit 16 (ucast a) OR push_bit 8 (ucast b) :: u32)"
    by (rule disjunctive_add_eq_or, rule bit_eqI) (auto simp: bit_simps dest: bit_imp_le_length)
  moreover have "(push_bit 16 (ucast a) OR push_bit 8 (ucast b)) + ucast c =
      (push_bit 16 (ucast a) OR push_bit 8 (ucast b) OR ucast c :: u32)"
    by (subst disjunctive_add_eq_or, rule bit_eqI) (auto simp: bit_simps or.assoc dest: bit_imp_le_length)
  ultimately show ?thesis by (simp add: chunk_of_def)
qed

lemma and_3F: "w AND 0x3F = take_bit 6 (w :: u32)"
  by (simp add: take_bit_eq_mask mask_eq_exp_minus_1)

lemma chunk_fields:
  "drop_bit 18 (chunk_of a b c) = ucast (digit0 a)"
  "drop_bit 12 (chunk_of a b c) AND 0x3F = ucast (digit1 a b)"
  "drop_bit 6 (chunk_of a b c) AND 0x3F = ucast (digit2 b c)"
  "chunk_of a b c AND 0x3F = ucast (digit3 c)"
  unfolding and_3F digit_defs
  by (rule bit_word_eqI; auto simp: chunk_of_or bit_simps dest: bit_imp_le_length)+

lemma unat_ucast_byte [simp]: "unat (ucast (d :: byte) :: u32) = unat d"
  using unat_bound [of d] by (simp add: unsigned_ucast_eq take_bit_nat_eq_self_iff)

lemma encode_chunk_sym: "encode_chunk a b c = [sym (digit0 a), sym (digit1 a b), sym (digit2 b c), sym (digit3 c)]"
  by (simp add: encode_chunk_def Let_def chunk_fields b64_digit_def)

lemma encode_rest_sym:
  "encode_rest [] = []"
  "encode_rest [a] = [sym (digit0 a), sym (digit1 a 0), b64_pad, b64_pad]"
  "encode_rest [a, b] = [sym (digit0 a), sym (digit1 a b), sym (digit2 b 0), b64_pad]"
  by (simp_all add: encode_rest_def Let_def chunk_fields b64_digit_def)

lemma digit_less: "unat (digit0 a) < 64" "unat (digit1 a b) < 64" "unat (digit2 b c) < 64" "unat (digit3 c) < 64"
  by (auto simp: digit_bits digit_defs bit_simps dest: bit_imp_le_length)

lemma sym_char: "unat d < 64 \<Longrightarrow> base64_char_to_byte (sym d) = Some d"
  by (simp add: table_char)

lemma join_digits:
  "push_bit 2 (digit0 a) OR drop_bit 4 (digit1 a b) = a"
  "push_bit 4 (digit1 a b) OR drop_bit 2 (digit2 b c) = b"
  "push_bit 6 (digit2 b c) OR digit3 c = c"
  "push_bit 4 (digit1 a 0) = 0"
  "push_bit 6 (digit2 b 0) = 0"
  by (auto simp: byte_bits digit_defs dest: bit_imp_le_length)

lemma split_value:
  assumes "unat d0 < 64" "unat d1 < 64" "unat d2 < 64" "unat d3 < 64"
  shows "digit0 (push_bit 2 d0 OR drop_bit 4 d1) = d0"
    "digit1 (push_bit 2 d0 OR drop_bit 4 d1) (push_bit 4 d1 OR drop_bit 2 d2) = d1"
    "digit2 (push_bit 4 d1 OR drop_bit 2 d2) (push_bit 6 d2 OR d3) = d2"
    "digit3 (push_bit 6 d2 OR d3) = d3"
    "push_bit 4 d1 = 0 \<Longrightarrow> digit1 (push_bit 2 d0 OR drop_bit 4 d1) 0 = d1"
    "push_bit 6 d2 = 0 \<Longrightarrow> digit2 (push_bit 4 d1 OR drop_bit 2 d2) 0 = d2"
  using assms by (auto simp: byte_bits digit_bits digit_defs dest: bit_imp_le_length)

lemma segment_value_encode:
  "segment_value (sym (digit0 a)) (sym (digit1 a b)) (sym (digit2 b c)) (sym (digit3 c)) = Some [a, b, c]"
  "segment_value (sym (digit0 a)) (sym (digit1 a b)) (sym (digit2 b 0)) b64_pad = Some [a, b]"
  "segment_value (sym (digit0 a)) (sym (digit1 a 0)) b64_pad b64_pad = Some [a]"
  by (simp_all add: segment_value_def sym_char digit_less table_not_pad Let_def join_digits)

lemma segment_value_decode:
  assumes "segment_value c0 c1 c2 c3 = Some v"
  shows "(\<exists>a b c. v = [a, b, c] \<and> [c0, c1, c2, c3] = encode_chunk a b c) \<or>
    length v \<in> {1, 2} \<and> [c0, c1, c2, c3] = encode_rest v"
proof -
  obtain d0 d1 where d: "base64_char_to_byte c0 = Some d0" "base64_char_to_byte c1 = Some d1"
    using assms by (auto simp: segment_value_def bind_eq_Some_conv)
  note s = char_table [OF d(1)] char_table [OF d(2)]
  consider "c2 = b64_pad" "c3 = b64_pad" "push_bit 4 d1 = 0" "v = [push_bit 2 d0 OR drop_bit 4 d1]"
    | d2 where "base64_char_to_byte c2 = Some d2" "c3 = b64_pad" "push_bit 6 d2 = 0"
        "v = [push_bit 2 d0 OR drop_bit 4 d1, push_bit 4 d1 OR drop_bit 2 d2]"
    | d2 d3 where "base64_char_to_byte c2 = Some d2" "base64_char_to_byte c3 = Some d3"
        "v = [push_bit 2 d0 OR drop_bit 4 d1, push_bit 4 d1 OR drop_bit 2 d2, push_bit 6 d2 OR d3]"
    using assms d by (auto simp: segment_value_def bind_eq_Some_conv Let_def split: if_splits)
  then show ?thesis
  proof cases
    case 1
    then show ?thesis using s split_value [of d0 d1 d0 d0] by (simp add: encode_rest_sym)
  next
    case 2
    then show ?thesis using s char_table [OF 2(1)] split_value [of d0 d1 d2 d0] by (simp add: encode_rest_sym)
  next
    case 3
    then show ?thesis using s char_table [OF 3(1)] char_table [OF 3(2)] split_value [of d0 d1 d2 d3]
      by (simp add: encode_chunk_sym)
  qed
qed

section \<open>Lemmas: whole strings\<close>

lemma dec_enc: "b64_dec (b64_enc bs) = Some bs"
  by (induction bs rule: b64_enc.induct)
    (simp_all add: encode_chunk_sym encode_rest_sym segment_value_encode)

lemma enc_dec: "b64_dec cs = Some bs \<Longrightarrow> b64_enc bs = cs"
proof (induction cs arbitrary: bs rule: b64_dec.induct)
  case (2 c0 c1 c2 c3 cs)
  then obtain v ws where v: "segment_value c0 c1 c2 c3 = Some v" "b64_dec cs = Some ws"
    "cs \<noteq> [] \<Longrightarrow> length v = 3" "bs = v @ ws"
    by (auto simp: bind_eq_Some_conv split: if_splits)
  then have ws: "b64_enc ws = cs" using 2(1) [of v] by auto
  show ?case using segment_value_decode [OF v(1)]
  proof (elim disjE exE conjE)
    fix a b c assume "v = [a, b, c]" "[c0, c1, c2, c3] = encode_chunk a b c"
    then show ?thesis using v ws by auto
  next
    assume l: "length v \<in> {1, 2}" "[c0, c1, c2, c3] = encode_rest v"
    then have "length v \<noteq> 3" by auto
    then have "cs = []" using v(3) by blast
    moreover from this have "ws = []" using v(2) by simp
    moreover have "b64_enc v = encode_rest v" using l(1) by (auto simp: length_Suc_conv numeral_2_eq_2)
    ultimately show ?thesis using v l by simp
  qed
qed (auto simp: encode_rest_def)

lemma length_b64_enc: "length (b64_enc bs) = ((length bs + 2) div 3) * 4"
proof (induction bs rule: b64_enc.induct)
  case (1 a b c bs)
  have "(length (a # b # c # bs) + 2) div 3 = Suc ((length bs + 2) div 3)" by simp
  then show ?case using 1 by (simp only: b64_enc.simps length_append encode_chunk_sym) simp
qed (simp_all add: encode_rest_sym)

lemma segment_value_length: "segment_value c0 c1 c2 c3 = Some v \<Longrightarrow> length v \<le> 3"
  by (auto simp: segment_value_def bind_eq_Some_conv Let_def split: if_splits)

lemma take_4_drop:
  assumes "i + 4 * Suc k \<le> length m"
  shows "take (4 * Suc k) (drop i m) = m ! i # m ! (i + 1) # m ! (i + 2) # m ! (i + 3) # take (4 * k) (drop (i + 4) m)"
proof -
  have "drop i m = m ! i # m ! (i + 1) # m ! (i + 2) # m ! (i + 3) # drop (i + 4) m"
    using assms by (simp add: Cons_nth_drop_Suc [symmetric] numeral_2_eq_2 numeral_3_eq_3 eval_nat_numeral)
  moreover have "4 * Suc k = Suc (Suc (Suc (Suc (4 * k))))" by simp
  ultimately show ?thesis by (simp only: take_Suc_Cons)
qed

lemma source_kept:
  assumes "out \<le> i \<or> i + 4 + n \<le> out" "out + length v \<le> length m" "length v \<le> 3"
  shows "take n (drop (i + 4) (mem_write m out v)) = take n (drop (i + 4) m)"
proof (cases "out \<le> i")
  case True
  then show ?thesis using assms by simp
next
  case False
  then show ?thesis using assms by (simp add: take_drop)
qed

declare base64_loop.simps [simp del]

lemma base64_loop_spec:
  assumes "i + 4 * k \<le> length m" "out + 3 * k \<le> out_end" "out_end \<le> length m" "out \<le> i \<or> i + 4 * k \<le> out"
  shows "case b64_dec (take (4 * k) (drop i m)) of
      Some v \<Rightarrow> base64_loop m i (i + 4 * k) out out_end False = (mem_write m out v, Some (out + length v)) \<and> length v \<le> 3 * k
    | None \<Rightarrow> \<exists>m'. base64_loop m i (i + 4 * k) out out_end False = (m', None) \<and> length m' = length m \<and>
        take out m' = take out m \<and> drop out_end m' = drop out_end m"
  using assms
proof (induction k arbitrary: i m out)
  case (Suc k)
  let ?v = "segment_value (m ! i) (m ! (i + 1)) (m ! (i + 2)) (m ! (i + 3))"
  note src = take_4_drop [OF Suc.prems(1)]
  show ?case
  proof (cases ?v)
    case None
    then have "base64_loop m i (i + 4 * Suc k) out out_end False = (m, None)"
      by (subst base64_loop.simps) (simp add: base64_decode_segment_def)
    then show ?thesis unfolding src using None by simp
  next
    case (Some v)
    let ?m = "mem_write m out v"
    have lv: "length v \<le> 3" using Some by (rule segment_value_length)
    then have fits: "out + length v \<le> out_end" "out + length v \<le> length m" using Suc.prems by auto
    have loop: "base64_loop m i (i + 4 * Suc k) out out_end False =
        base64_loop ?m (i + 4) ((i + 4) + 4 * k) (out + length v) out_end (length v \<noteq> 3)"
    proof -
      have "\<not> length v > out_end - out" using fits by simp
      then show ?thesis using Some by (subst base64_loop.simps) (simp add: base64_decode_segment_def add_ac)
    qed
    have frame: "length ?m = length m \<and> take out ?m = take out m \<and> drop out_end ?m = drop out_end m"
      using fits Suc.prems by simp
    consider "k = 0" | "k > 0" "length v \<noteq> 3" | "k > 0" "length v = 3" by blast
    then show ?thesis
    proof cases
      case 1
      then show ?thesis unfolding src loop using Some lv by (simp add: base64_loop.simps)
    next
      case 2
      moreover have "take (4 * k) (drop (i + 4) m) \<noteq> []" using 2 Suc.prems(1) by simp
      ultimately show ?thesis unfolding src loop using Some frame by (simp add: base64_loop.simps)
    next
      case 3
      have kept: "take (4 * k) (drop (i + 4) ?m) = take (4 * k) (drop (i + 4) m)"
        by (rule source_kept) (use Suc.prems fits lv in auto)
      have IH: "case b64_dec (take (4 * k) (drop (i + 4) ?m)) of
          Some w \<Rightarrow> base64_loop ?m (i + 4) (i + 4 + 4 * k) (out + 3) out_end False = (mem_write ?m (out + 3) w, Some (out + 3 + length w)) \<and> length w \<le> 3 * k
        | None \<Rightarrow> \<exists>m'. base64_loop ?m (i + 4) (i + 4 + 4 * k) (out + 3) out_end False = (m', None) \<and> length m' = length ?m \<and>
            take (out + 3) m' = take (out + 3) ?m \<and> drop out_end m' = drop out_end ?m"
        by (rule Suc.IH) (use Suc.prems fits 3 in auto)
      have merge: "mem_write ?m (out + 3) w = mem_write m out (v @ w)" for w
        using mem_write_mem_write [of out m v] fits 3 by simp
      have shorter: "take (out + 3) m' = take (out + 3) ?m \<Longrightarrow> take out m' = take out ?m" for m'
        by (metis le_add1 min.absorb1 take_take)
      show ?thesis unfolding src loop using IH Some 3 frame unfolding kept
        by (auto simp: merge split: option.splits dest: shorter)
    qed
  qed
qed (simp add: base64_loop.simps)

lemma gg_base64_decode_cases:
  assumes "src + slen \<le> length m" "dst + dlen \<le> length m" "dst \<le> src \<or> src + slen \<le> dst"
  shows "case b64_dec (take slen (drop src m)) of
      Some v \<Rightarrow> gg_base64_decode m src slen dst dlen =
        (if (slen div 4) * 3 \<le> dlen then (True, mem_write m dst v, length v) else (False, m, dlen))
    | None \<Rightarrow> \<exists>m'. gg_base64_decode m src slen dst dlen = (False, m', dlen) \<and> length m' = length m \<and>
        take dst m' = take dst m \<and> drop (dst + dlen) m' = drop (dst + dlen) m"
proof -
  have odd: "b64_dec cs = None" if "length cs mod 4 \<noteq> 0" for cs
    using that by (induction cs rule: b64_dec.induct) (auto split: bind_splits)
  show ?thesis
  proof (cases "slen mod 4 = 0")
    case True
    then obtain k where k: "slen = 4 * k" by (auto simp: mod_eq_0_iff_dvd)
    show ?thesis
    proof (cases "slen div 4 * 3 \<le> dlen")
      case fits: True
      have "case b64_dec (take (4 * k) (drop src m)) of
          Some v \<Rightarrow> base64_loop m src (src + 4 * k) dst (dst + dlen) False = (mem_write m dst v, Some (dst + length v)) \<and> length v \<le> 3 * k
        | None \<Rightarrow> \<exists>m'. base64_loop m src (src + 4 * k) dst (dst + dlen) False = (m', None) \<and> length m' = length m \<and>
            take dst m' = take dst m \<and> drop (dst + dlen) m' = drop (dst + dlen) m"
        by (rule base64_loop_spec) (use assms fits k in auto)
      then show ?thesis using k fits by (auto simp: gg_base64_decode_def split: option.splits)
    next
      case False
      then show ?thesis using k by (auto simp: gg_base64_decode_def split: option.splits)
    qed
  next
    case False
    then show ?thesis using odd [of "take slen (drop src m)"] assms by (simp add: gg_base64_decode_def)
  qed
qed

section \<open>Properties\<close>

text \<open>
  C25: Decoding accepts exactly the canonical encodings and returns what was encoded: when the
  target is large enough and does not lie ahead of the source inside it (decoding in place is
  the case \<open>dst = src\<close>), \<open>gg_base64_decode\<close> succeeds if and only if the source is the text
  \<open>gg_base64_encode\<close> produces for some bytes, and it has then written those bytes, and nothing
  else, to the target and set its length.
\<close>
theorem gg_base64_decode_correct:
  assumes "src + slen \<le> length m" "dst + dlen \<le> length m" "dst \<le> src \<or> src + slen \<le> dst"
    and "(slen div 4) * 3 \<le> dlen"
  shows "gg_base64_decode m src slen dst dlen = (True, m', n) \<longleftrightarrow>
    (\<exists>bs. base64_bytes bs = take slen (drop src m) \<and> m' = mem_write m dst bs \<and> n = length bs)"
proof (cases "b64_dec (take slen (drop src m))")
  case None
  then have "\<nexists>bs. base64_bytes bs = take slen (drop src m)"
    using dec_enc by (metis base64_bytes_enc option.distinct(1))
  then show ?thesis using gg_base64_decode_cases [OF assms(1-3)] None by auto
next
  case (Some v)
  then have "base64_bytes bs = take slen (drop src m) \<longleftrightarrow> bs = v" for bs
    using dec_enc [of bs] enc_dec [OF Some] by (auto simp: base64_bytes_enc)
  then show ?thesis using gg_base64_decode_cases [OF assms(1-3)] Some assms(4) by auto
qed

theorem gg_base64_decode_correct_witness:
  "gg_base64_decode (bytes_of ''Z3J1YQ=='') 0 8 0 8 = (True, bytes_of ''gruaYQ=='', 4)"
proof -
  have "base64_bytes (bytes_of ''grua'') = bytes_of ''Z3J1YQ==''" by code_simp
  then show ?thesis
    by (subst gg_base64_decode_correct) (auto intro!: exI [of _ "bytes_of ''grua''"] simp: mem_write_def)
qed

text \<open>
  A decoding that fails (malformed text, text after the padding, unused bits that are not
  zero, a target that is too small) leaves the length of the target and every byte outside the
  target as they were.
\<close>
theorem gg_base64_decode_failure:
  assumes "src + slen \<le> length m" "dst + dlen \<le> length m" "dst \<le> src \<or> src + slen \<le> dst"
    and "gg_base64_decode m src slen dst dlen = (False, m', n)"
  shows "n = dlen \<and> length m' = length m \<and> take dst m' = take dst m \<and> drop (dst + dlen) m' = drop (dst + dlen) m \<and>
    ((\<nexists>bs. base64_bytes bs = take slen (drop src m)) \<or> dlen < (slen div 4) * 3)"
proof (cases "b64_dec (take slen (drop src m))")
  case None
  then have "\<nexists>bs. base64_bytes bs = take slen (drop src m)"
    using dec_enc by (metis base64_bytes_enc option.distinct(1))
  then show ?thesis using gg_base64_decode_cases [OF assms(1-3)] None assms(4) by auto
next
  case (Some v)
  then show ?thesis using gg_base64_decode_cases [OF assms(1-3)] assms(4) by (auto split: if_splits)
qed

theorem gg_base64_decode_failure_witness:
  "fst (gg_base64_decode (bytes_of ''grubZ3J1YR=='') 4 8 4 8) = False \<and>
   take 4 (fst (snd (gg_base64_decode (bytes_of ''grubZ3J1YR=='') 4 8 4 8))) = bytes_of ''grub''"
proof -
  have "fst (gg_base64_decode (bytes_of ''grubZ3J1YR=='') 4 8 4 8) = False" by code_simp
  then obtain m' n where r: "gg_base64_decode (bytes_of ''grubZ3J1YR=='') 4 8 4 8 = (False, m', n)"
    by (metis prod.collapse)
  show ?thesis using gg_base64_decode_failure [OF _ _ _ r] r by simp
qed

text \<open>
  Encoding followed by decoding in place gives the bytes back: whenever \<open>gg_base64_encode\<close>
  succeeds, its result has the length announced to the arena, and \<open>gg_base64_decode_in_place\<close> on that
  result succeeds and leaves the original bytes at its start.
\<close>
theorem gg_base64_roundtrip:
  assumes "gg_base64_encode buf alloc = (Inr r, alloc')"
  shows "length (mem r) = ((len buf + 2) div 3) * 4 \<and>
    (\<exists>m'. gg_base64_decode_in_place (mem r) 0 (len r) = (True, m', len buf) \<and> take (len buf) m' = mem buf)"
proof -
  have r: "mem r = b64_enc (mem buf)"
    using assms by (auto simp: gg_base64_encode_def Let_def base64_bytes_enc split: prod.splits option.splits)
  then have "b64_dec (take (len r) (drop 0 (mem r))) = Some (mem buf)" by (simp add: dec_enc)
  moreover have "len r div 4 * 3 \<le> len r" by simp
  ultimately have "gg_base64_decode_in_place (mem r) 0 (len r) = (True, mem_write (mem r) 0 (mem buf), len buf)"
    using gg_base64_decode_cases [of 0 "len r" "mem r" 0 "len r"] by (simp add: gg_base64_decode_in_place_def)
  then show ?thesis using r by (simp add: length_b64_enc mem_write_def)
qed

theorem gg_base64_roundtrip_witness:
  "\<exists>m'. gg_base64_decode_in_place (bytes_of ''Z3J1'') 0 4 = (True, m', 3) \<and> take 3 m' = bytes_of ''gru''"
proof -
  have "base64_bytes (bytes_of ''gru'') = bytes_of ''Z3J1''" by code_simp
  then obtain alloc' where "gg_base64_encode \<lparr>data = 0, mem = bytes_of ''gru''\<rparr> (Some (gg_arena_init \<lparr>data = 100, mem = replicate 12 0\<rparr>)) =
    (Inr \<lparr>data = 100, mem = bytes_of ''Z3J1''\<rparr>, alloc')"
    by (simp add: gg_base64_encode_def gg_arena_init_def UINT32_MAX_def gg_arena_alloc_def)
  moreover have "length (bytes_of ''Z3J1'') = 4" "length (bytes_of ''gru'') = 3" by simp_all
  ultimately show ?thesis
    using gg_base64_roundtrip [of "\<lparr>data = 0, mem = bytes_of ''gru''\<rparr>" _ "\<lparr>data = 100, mem = bytes_of ''Z3J1''\<rparr>"]
    unfolding GgBuffer.simps by metis
qed

end
