(* ===== verification/Ipc_Requests.thy ===== *)
theory Ipc_Requests
  imports Ipc_Client Base64
begin

text \<open>
  The typed IPC operations, sending side (\<open>src/ipc/client/*.c\<close>): how each function of
  \<open>include/gg/ipc/client.h\<close> builds the parameters of its request and which callbacks it registers.

  An operation works on a blocking call, an argument here: \<open>ggipc_call\<close> or \<open>ggipc_subscribe\<close> from the
  request to the return of the call, under some schedule of the other threads; not returning is
  \<open>None\<close>. The schedule in which only the receive thread runs is defined at the end. Output
  parameters and the context structures on the callers' stacks are objects in the memory of the
  application, by address, because the callbacks write them while the call waits.

  The functions a request registers are static functions of the SDK; each has an address.
  The addresses of local arrays and of compound literals do not matter and are \<open>0\<close>.
\<close>

section \<open>Addresses of the callbacks\<close>

datatype sdk_error_handler =
    Create_local_deployment_error | Delete_thing_shadow_error | Get_config_error | Get_thing_shadow_error
  | List_named_shadows_error | Publish_to_iot_core_error | Publish_to_topic_error | Restart_component_error
  | Subscribe_to_configuration_update_error | Subscribe_to_iot_core_error | Subscribe_to_iot_core_connection_status_error
  | Subscribe_to_topic_error | Update_config_error | Update_state_error | Update_thing_shadow_error

datatype sdk_result_handler =
    Create_local_deployment_response | Delete_thing_shadow_response | Copy_config_obj | Copy_config_buf
  | Forward_config_object | Get_thing_shadow_response | List_named_shadows_response | Restart_component_response
  | Update_thing_shadow_response

datatype sdk_sub_handler =
    Subscribe_to_configuration_update_resp | Subscribe_to_iot_core_resp | Subscribe_to_iot_core_connection_status_resp
  | Subscribe_to_topic_resp

fun error_handler_at :: "sdk_error_handler \<Rightarrow> ptr" where
  "error_handler_at Create_local_deployment_error = 101"
| "error_handler_at Delete_thing_shadow_error = 102"
| "error_handler_at Get_config_error = 103"
| "error_handler_at Get_thing_shadow_error = 104"
| "error_handler_at List_named_shadows_error = 105"
| "error_handler_at Publish_to_iot_core_error = 106"
| "error_handler_at Publish_to_topic_error = 107"
| "error_handler_at Restart_component_error = 108"
| "error_handler_at Subscribe_to_configuration_update_error = 109"
| "error_handler_at Subscribe_to_iot_core_error = 110"
| "error_handler_at Subscribe_to_iot_core_connection_status_error = 111"
| "error_handler_at Subscribe_to_topic_error = 112"
| "error_handler_at Update_config_error = 113"
| "error_handler_at Update_state_error = 114"
| "error_handler_at Update_thing_shadow_error = 115"

fun result_handler_at :: "sdk_result_handler \<Rightarrow> ptr" where
  "result_handler_at Create_local_deployment_response = 201"
| "result_handler_at Delete_thing_shadow_response = 202"
| "result_handler_at Copy_config_obj = 203"
| "result_handler_at Copy_config_buf = 204"
| "result_handler_at Forward_config_object = 205"
| "result_handler_at Get_thing_shadow_response = 206"
| "result_handler_at List_named_shadows_response = 207"
| "result_handler_at Restart_component_response = 208"
| "result_handler_at Update_thing_shadow_response = 209"

fun sub_handler_at :: "sdk_sub_handler \<Rightarrow> ptr" where
  "sub_handler_at Subscribe_to_configuration_update_resp = 301"
| "sub_handler_at Subscribe_to_iot_core_resp = 302"
| "sub_handler_at Subscribe_to_iot_core_connection_status_resp = 303"
| "sub_handler_at Subscribe_to_topic_resp = 304"

section \<open>Contexts of the calls\<close>

record CopyObjectCtx =
  co_value :: "GgObject option"  \<comment> \<open>the object behind the pointer; \<open>None\<close>: NULL\<close>
  co_mem :: GgBuffer
  co_final_key :: "GgBuffer option"

record CopyBufferCtx =
  cb_value :: "GgBuffer option"
  cb_final_key :: "GgBuffer option"

record ForwardConfigCtx =
  fc_submit :: "ptr option"  \<comment> \<open>the two fields of \<open>receiver\<close>\<close>
  fc_ctx :: ptr
  fc_final_key :: "GgBuffer option"

record ListShadowsCtx =
  ls_callback :: ptr
  ls_ctx :: ptr
  ls_next_token_buf :: "byte list"
  ls_next_token :: GgBuffer
  ls_has_next :: bool

datatype call_ctx =
    CtxBuffer GgBuffer
  | CtxCopyObject CopyObjectCtx
  | CtxCopyBuffer CopyBufferCtx
  | CtxForward ForwardConfigCtx
  | CtxListShadows ListShadowsCtx
  | CtxList ptr ptr  \<comment> \<open>\<open>ListCtx\<close> of the C++ binding: a callback and its context\<close>

record 'u app =
  app_ctx :: "ptr \<Rightarrow> call_ctx option"
  app_fault :: bool  \<comment> \<open>the behaviour of a callback was undefined; nothing is said about what follows\<close>
  app_state :: 'u

type_synonym 'u client = "'u app ipc"
type_synonym 'u blocking_call = "ipc_request \<Rightarrow> 'u client \<Rightarrow> (GgError \<times> 'u client) option"
type_synonym 'u blocking_sub = "ipc_request \<Rightarrow> 'u client \<Rightarrow> (GgError \<times> u32 option \<times> 'u client) option"

definition put_ctx :: "ptr \<Rightarrow> call_ctx option \<Rightarrow> 'u client \<Rightarrow> 'u client" where
  "put_ctx c x s = s\<lparr>world := (world s)\<lparr>app_ctx := (app_ctx (world s))(c := x)\<rparr>\<rparr>"

section \<open>Parameters of requests\<close>

definition GG_KV_VEC :: "nat \<Rightarrow> GgKVVec" where
  "GG_KV_VEC n = \<lparr>vec_addr = 0, vec_array = replicate n (\<lparr>data = 0, mem = []\<rparr>, OBJ_NULL), vec_len = 0, vec_capacity = n\<rparr>"

definition GG_OBJ_VEC :: "nat \<Rightarrow> GgObjVec" where
  "GG_OBJ_VEC n = \<lparr>vec_addr = 0, vec_array = replicate n OBJ_NULL, vec_len = 0, vec_capacity = n\<rparr>"

definition push_kv :: "GgBuffer \<Rightarrow> GgObject \<Rightarrow> GgKVVec \<Rightarrow> GgKVVec" where
  \<comment> \<open>\<open>(void) gg_kv_vec_push(&args, gg_kv(key, val))\<close>: the error is ignored\<close>
  "push_kv k val v = snd (gg_kv_vec_push v (gg_kv k val))"

definition kv_vec_map :: "GgKVVec \<Rightarrow> GgMap" where
  "kv_vec_map v = (vec_addr v, take (vec_len v) (vec_array v))"

definition GG_MAP :: "GgKV list \<Rightarrow> GgMap" where
  "GG_MAP kvs = (0, kvs)"

fun key_path_loop :: "GgBuffer list \<Rightarrow> GgError \<Rightarrow> GgObjVec \<Rightarrow> GgError \<times> GgObjVec" where
  "key_path_loop [] ret path_vec = (ret, path_vec)"
| "key_path_loop (k # ks) ret path_vec =
     (case gg_obj_vec_chain_push ret path_vec (gg_obj_buf k) of (ret, path_vec) \<Rightarrow> key_path_loop ks ret path_vec)"

definition key_path_list :: "GgBuffer list \<Rightarrow> GgList res" where
  \<comment> \<open>the key path as a list object, in an array of \<open>GG_MAX_OBJECT_DEPTH - 1\<close> elements\<close>
  "key_path_list key_path =
     (case key_path_loop key_path GG_ERR_OK (GG_OBJ_VEC (GG_MAX_OBJECT_DEPTH - 1)) of
        (ret, path_vec) \<Rightarrow>
          if ret \<noteq> GG_ERR_OK then Inl GG_ERR_NOMEM
          else Inr (vec_addr path_vec, take (vec_len path_vec) (vec_array path_vec)))"

definition final_key_of :: "GgBuffer list \<Rightarrow> GgBuffer option" where
  "final_key_of key_path = (if key_path = [] then None else Some (key_path ! (length key_path - 1)))"

definition b64_payload :: "ptr \<Rightarrow> GgBuffer \<Rightarrow> GgBuffer res" where
  \<comment> \<open>base64 into an arena over \<open>gg_ipc_b64_encode_mem\<close>, which lies at address \<open>b64_at\<close>\<close>
  "b64_payload b64_at payload =
     fst (gg_base64_encode payload (Some (gg_arena_init \<lparr>data = b64_at, mem = replicate GG_IPC_MAX_MSG_LEN 0\<rparr>)))"

definition call_request ::
  "string \<Rightarrow> string \<Rightarrow> GgMap \<Rightarrow> sdk_result_handler option \<Rightarrow> sdk_error_handler \<Rightarrow> ptr \<Rightarrow> ipc_request" where
  \<comment> \<open>the arguments of \<open>ggipc_call\<close>\<close>
  "call_request operation service_model_type params result_callback error_callback response_ctx =
     \<lparr>rq_operation = GG_STR operation, rq_service_model_type = GG_STR service_model_type, rq_params = params,
      rq_result_callback = map_option result_handler_at result_callback,
      rq_error_callback = Some (error_handler_at error_callback), rq_response_ctx = response_ctx,
      rq_sub_callback = None, rq_sub_callback_ctx = 0, rq_sub_callback_aux_ctx = 0\<rparr>"

definition sub_request ::
  "string \<Rightarrow> string \<Rightarrow> GgMap \<Rightarrow> sdk_error_handler \<Rightarrow> sdk_sub_handler \<Rightarrow> ptr \<Rightarrow> ptr \<Rightarrow> ipc_request" where
  \<comment> \<open>the arguments of \<open>ggipc_subscribe\<close>\<close>
  "sub_request operation service_model_type params error_callback sub_callback callback ctx' =
     \<lparr>rq_operation = GG_STR operation, rq_service_model_type = GG_STR service_model_type, rq_params = params,
      rq_result_callback = None, rq_error_callback = Some (error_handler_at error_callback), rq_response_ctx = 0,
      rq_sub_callback = Some (sub_handler_at sub_callback), rq_sub_callback_ctx = callback, rq_sub_callback_aux_ctx = ctx'\<rparr>"

section \<open>Publishing\<close>

definition publish_to_topic_common :: "'u blocking_call \<Rightarrow> GgBuffer \<Rightarrow> GgMap \<Rightarrow> 'u client \<Rightarrow> (GgError \<times> 'u client) option" where
  "publish_to_topic_common call topic publish_message s =
     (let args = GG_MAP [gg_kv (GG_STR ''topic'') (gg_obj_buf topic),
                         gg_kv (GG_STR ''publishMessage'') (gg_obj_map publish_message)]
      in call (call_request ''aws.greengrass#PublishToTopic'' ''aws.greengrass#PublishToTopicRequest'' args None
                 Publish_to_topic_error 0) s)"

definition ggipc_publish_to_topic_json :: "'u blocking_call \<Rightarrow> GgBuffer \<Rightarrow> GgMap \<Rightarrow> 'u client \<Rightarrow> (GgError \<times> 'u client) option" where
  "ggipc_publish_to_topic_json call topic payload s =
     (let json_message = GG_MAP [gg_kv (GG_STR ''message'') (gg_obj_map payload)];
          publish_message = GG_MAP [gg_kv (GG_STR ''jsonMessage'') (gg_obj_map json_message)]
      in publish_to_topic_common call topic publish_message s)"

definition ggipc_publish_to_topic_binary ::
  "ptr \<Rightarrow> 'u blocking_call \<Rightarrow> GgBuffer \<Rightarrow> GgBuffer \<Rightarrow> 'u client \<Rightarrow> (GgError \<times> 'u client) option" where
  "ggipc_publish_to_topic_binary b64_at call topic payload s =
     (case b64_payload b64_at payload of
        Inl ret \<Rightarrow> Some (ret, s)
      | Inr b64 \<Rightarrow>
          (let binary_message = GG_MAP [gg_kv (GG_STR ''message'') (gg_obj_buf b64)];
               publish_message = GG_MAP [gg_kv (GG_STR ''binaryMessage'') (gg_obj_map binary_message)]
           in publish_to_topic_common call topic publish_message s))"

definition qos_buffer :: "u8 \<Rightarrow> GgBuffer" where
  "qos_buffer qos = \<lparr>data = 0, mem = [qos + chr CHR ''0'']\<rparr>"

definition ggipc_publish_to_iot_core ::
  "ptr \<Rightarrow> 'u blocking_call \<Rightarrow> GgBuffer \<Rightarrow> GgBuffer \<Rightarrow> u8 \<Rightarrow> 'u client \<Rightarrow> (GgError \<times> 'u client) option" where
  "ggipc_publish_to_iot_core b64_at call topic_name payload qos s =
     (case b64_payload b64_at payload of
        Inl ret \<Rightarrow> Some (ret, s)
      | Inr b64 \<Rightarrow>
          (let args = GG_MAP [gg_kv (GG_STR ''topicName'') (gg_obj_buf topic_name), gg_kv (GG_STR ''payload'') (gg_obj_buf b64),
                              gg_kv (GG_STR ''qos'') (gg_obj_buf (qos_buffer qos))]
           in call (call_request ''aws.greengrass#PublishToIoTCore'' ''aws.greengrass#PublishToIoTCoreRequest'' args None
                      Publish_to_iot_core_error 0) s))"

section \<open>Component life cycle and deployments\<close>

definition ggipc_update_state :: "'u blocking_call \<Rightarrow> nat \<Rightarrow> 'u client \<Rightarrow> (GgError \<times> 'u client) option" where
  \<comment> \<open>enumerations are their underlying integers\<close>
  "ggipc_update_state call state s =
     (case (if state = 0 then Some ''RUNNING'' else if state = 1 then Some ''ERRORED'' else None) of
        None \<Rightarrow> Some (GG_ERR_INVALID, s)
      | Some state_str \<Rightarrow>
          (let args = GG_MAP [gg_kv (GG_STR ''state'') (gg_obj_buf (GG_STR state_str))]
           in call (call_request ''aws.greengrass#UpdateState'' ''aws.greengrass#UpdateStateRequest'' args None
                      Update_state_error 0) s))"

definition ggipc_restart_component :: "'u blocking_call \<Rightarrow> GgBuffer \<Rightarrow> 'u client \<Rightarrow> (GgError \<times> 'u client) option" where
  "ggipc_restart_component call component_name s =
     (let args = GG_MAP [gg_kv (GG_STR ''componentName'') (gg_obj_buf component_name)]
      in call (call_request ''aws.greengrass#RestartComponent'' ''aws.greengrass#RestartComponentRequest'' args
                 (Some Restart_component_response) Restart_component_error 0) s)"

record GgCreateLocalDeploymentArgs =
  recipe_directory_path :: GgBuffer
  artifacts_directory_path :: GgBuffer
  root_component_versions_to_add :: GgMap
  root_components_to_remove :: GgList
  component_to_configuration :: GgMap
  component_to_run_with_info :: GgMap
  group_name :: GgBuffer
  failure_handling_policy :: nat

definition deployment_args :: "GgCreateLocalDeploymentArgs \<Rightarrow> GgKVVec" where
  \<comment> \<open>up to the group name\<close>
  "deployment_args args =
     (let v = GG_KV_VEC 8;
          v = (if data (recipe_directory_path args) \<noteq> 0 \<and> len (recipe_directory_path args) > 0
               then push_kv (GG_STR ''recipeDirectoryPath'') (gg_obj_buf (recipe_directory_path args)) v else v);
          v = (if data (artifacts_directory_path args) \<noteq> 0 \<and> len (artifacts_directory_path args) > 0
               then push_kv (GG_STR ''artifactsDirectoryPath'') (gg_obj_buf (artifacts_directory_path args)) v else v);
          v = (if length (snd (root_component_versions_to_add args)) > 0
               then push_kv (GG_STR ''rootComponentVersionsToAdd'') (gg_obj_map (root_component_versions_to_add args)) v else v);
          v = (if length (snd (root_components_to_remove args)) > 0
               then push_kv (GG_STR ''rootComponentsToRemove'') (gg_obj_list (root_components_to_remove args)) v else v);
          v = (if length (snd (component_to_configuration args)) > 0
               then push_kv (GG_STR ''componentToConfiguration'') (gg_obj_map (component_to_configuration args)) v else v);
          v = (if length (snd (component_to_run_with_info args)) > 0
               then push_kv (GG_STR ''componentToRunWithInfo'') (gg_obj_map (component_to_run_with_info args)) v else v)
      in if data (group_name args) \<noteq> 0 \<and> len (group_name args) > 0
         then push_kv (GG_STR ''groupName'') (gg_obj_buf (group_name args)) v else v)"

definition policy_str :: "nat \<Rightarrow> string option" where
  "policy_str policy = (if policy = 1 then Some ''ROLLBACK'' else if policy = 2 then Some ''DO_NOTHING'' else None)"

definition ggipc_create_local_deployment ::
  "'u blocking_call \<Rightarrow> GgCreateLocalDeploymentArgs \<Rightarrow> ptr \<Rightarrow> 'u client \<Rightarrow> (GgError \<times> 'u client) option" where
  \<comment> \<open>\<open>deployment_id\<close> points to a buffer, or is NULL\<close>
  "ggipc_create_local_deployment call args deployment_id s =
     (let kv_vec = deployment_args args;
          request = (\<lambda>v. call_request ''aws.greengrass#CreateLocalDeployment'' ''aws.greengrass#CreateLocalDeploymentRequest''
            (kv_vec_map v) (if deployment_id \<noteq> 0 then Some Create_local_deployment_response else None)
            Create_local_deployment_error deployment_id)
      in if failure_handling_policy args \<noteq> 0
         then (case policy_str (failure_handling_policy args) of
                 None \<Rightarrow> Some (GG_ERR_INVALID, s)
               | Some p \<Rightarrow> call (request (push_kv (GG_STR ''failureHandlingPolicy'') (gg_obj_buf (GG_STR p)) kv_vec)) s)
         else call (request kv_vec) s)"

section \<open>Configuration\<close>

definition ggipc_get_config_common ::
  "'u blocking_call \<Rightarrow> GgBuffer list \<Rightarrow> GgBuffer option \<Rightarrow> sdk_result_handler \<Rightarrow> ptr \<Rightarrow> 'u client \<Rightarrow> (GgError \<times> 'u client) option" where
  "ggipc_get_config_common call key_path component_name result_callback result_ctx s =
     (case key_path_list key_path of
        Inl ret \<Rightarrow> Some (ret, s)
      | Inr path \<Rightarrow>
          (let args = push_kv (GG_STR ''keyPath'') (gg_obj_list path) (GG_KV_VEC 2);
               args = (case component_name of
                         None \<Rightarrow> args
                       | Some c \<Rightarrow> push_kv (GG_STR ''componentName'') (gg_obj_buf c) args)
           in call (call_request ''aws.greengrass#GetConfiguration'' ''aws.greengrass#GetConfigurationRequest'' (kv_vec_map args)
                      (Some result_callback) Get_config_error result_ctx) s))"

definition ggipc_get_config ::
  "'u blocking_call \<Rightarrow> ptr \<Rightarrow> GgBuffer list \<Rightarrow> GgBuffer option \<Rightarrow> GgBuffer \<Rightarrow> bool \<Rightarrow> 'u client \<Rightarrow>
   (GgError \<times> GgObject option \<times> 'u client) option" where
  \<comment> \<open>\<open>response_ctx\<close> lies at address \<open>c\<close>; the flag says that \<open>value\<close> is not NULL. The second component
     is \<open>*value\<close> afterwards\<close>
  "ggipc_get_config call c key_path component_name value_mem want s =
     map_option (\<lambda>(ret, s).
       (ret, case app_ctx (world s) c of Some (CtxCopyObject copy_ctx) \<Rightarrow> co_value copy_ctx | _ \<Rightarrow> None, put_ctx c None s))
     (ggipc_get_config_common call key_path component_name Copy_config_obj c
        (put_ctx c (Some (CtxCopyObject \<lparr>co_value = (if want then Some OBJ_NULL else None), co_mem = value_mem,
                                          co_final_key = final_key_of key_path\<rparr>)) s))"

definition ggipc_get_config_str ::
  "'u blocking_call \<Rightarrow> ptr \<Rightarrow> GgBuffer list \<Rightarrow> GgBuffer option \<Rightarrow> GgBuffer option \<Rightarrow> 'u client \<Rightarrow>
   (GgError \<times> GgBuffer option \<times> 'u client) option" where
  \<comment> \<open>\<open>copy_ctx\<close> lies at address \<open>c\<close>; the second component is \<open>*value\<close> afterwards\<close>
  "ggipc_get_config_str call c key_path component_name value s =
     map_option (\<lambda>(ret, s).
       (ret,
        (if ret \<noteq> GG_ERR_OK \<and> value \<noteq> None then Some (GG_STR '''')
         else case app_ctx (world s) c of Some (CtxCopyBuffer copy_ctx) \<Rightarrow> cb_value copy_ctx | _ \<Rightarrow> None),
        put_ctx c None s))
     (ggipc_get_config_common call key_path component_name Copy_config_buf c
        (put_ctx c (Some (CtxCopyBuffer \<lparr>cb_value = value, cb_final_key = final_key_of key_path\<rparr>)) s))"

definition ggipc_get_config_receive ::
  "'u blocking_call \<Rightarrow> ptr \<Rightarrow> GgBuffer list \<Rightarrow> GgBuffer option \<Rightarrow> ptr option \<Rightarrow> ptr \<Rightarrow> 'u client \<Rightarrow> (GgError \<times> 'u client) option" where
  \<comment> \<open>\<open>write_ctx\<close> lies at address \<open>c\<close>; the two fields of \<open>receiver\<close> are two arguments\<close>
  "ggipc_get_config_receive call c key_path component_name submit submit_ctx s =
     map_option (\<lambda>(ret, s). (ret, put_ctx c None s))
     (ggipc_get_config_common call key_path component_name Forward_config_object c
        (put_ctx c (Some (CtxForward \<lparr>fc_submit = submit, fc_ctx = submit_ctx, fc_final_key = final_key_of key_path\<rparr>)) s))"

definition ggipc_update_config ::
  "(int \<Rightarrow> int \<Rightarrow> f64) \<Rightarrow> 'u blocking_call \<Rightarrow> GgBuffer list \<Rightarrow> (int \<times> int) option \<Rightarrow> GgObject \<Rightarrow> 'u client \<Rightarrow> (GgError \<times> 'u client) option" where
  \<comment> \<open>the first argument computes \<open>(double) tv_sec + ((double) tv_nsec * 1e-9)\<close>; the \<open>double\<close> zero is the
     word zero\<close>
  "ggipc_update_config timespec_f64 call key_path timestamp value_to_merge s =
     (if (case timestamp of Some (tv_sec, tv_nsec) \<Rightarrow> tv_sec < 0 \<or> tv_nsec < 0 | None \<Rightarrow> False)
      then Some (GG_ERR_UNSUPPORTED, s)
      else if gg_obj_type value_to_merge \<noteq> GG_TYPE_MAP \<and> key_path = [] then Some (GG_ERR_INVALID, s)
      else
     (let (key_path, value_to_merge) =
            (if gg_obj_type value_to_merge \<noteq> GG_TYPE_MAP
             then (take (length key_path - 1) key_path,
                   gg_obj_map (0, [gg_kv (key_path ! (length key_path - 1)) value_to_merge]))
             else (key_path, value_to_merge))
      in case key_path_list key_path of
           Inl ret \<Rightarrow> Some (ret, s)
         | Inr path \<Rightarrow>
             (let timestamp_float = (case timestamp of Some (tv_sec, tv_nsec) \<Rightarrow> timespec_f64 tv_sec tv_nsec | None \<Rightarrow> 0);
                  args = GG_MAP [gg_kv (GG_STR ''keyPath'') (gg_obj_list path),
                                 gg_kv (GG_STR ''timestamp'') (OBJ_F64 timestamp_float),
                                 gg_kv (GG_STR ''valueToMerge'') value_to_merge]
              in call (call_request ''aws.greengrass#UpdateConfiguration'' ''aws.greengrass#UpdateConfigurationRequest'' args None
                         Update_config_error 0) s)))"

section \<open>Shadows\<close>

definition shadow_args :: "nat \<Rightarrow> GgBuffer \<Rightarrow> GgBuffer option \<Rightarrow> GgKVVec" where
  \<comment> \<open>the pairs the shadow operations share, in a vector of capacity \<open>n\<close>\<close>
  "shadow_args n thing_name shadow_name =
     (let args = push_kv (GG_STR ''thingName'') (gg_obj_buf thing_name) (GG_KV_VEC n)
      in case shadow_name of
           None \<Rightarrow> args
         | Some name \<Rightarrow> push_kv (GG_STR ''shadowName'') (gg_obj_buf name) args)"

definition ggipc_get_thing_shadow ::
  "'u blocking_call \<Rightarrow> GgBuffer \<Rightarrow> GgBuffer option \<Rightarrow> ptr \<Rightarrow> 'u client \<Rightarrow> (GgError \<times> 'u client) option" where
  \<comment> \<open>\<open>payload\<close> points to a buffer, or is NULL\<close>
  "ggipc_get_thing_shadow call thing_name shadow_name payload s =
     call (call_request ''aws.greengrass#GetThingShadow'' ''aws.greengrass#GetThingShadowRequest''
             (kv_vec_map (shadow_args 2 thing_name shadow_name)) (Some Get_thing_shadow_response) Get_thing_shadow_error payload) s"

definition ggipc_update_thing_shadow ::
  "ptr \<Rightarrow> 'u blocking_call \<Rightarrow> GgBuffer \<Rightarrow> GgBuffer option \<Rightarrow> GgBuffer \<Rightarrow> ptr \<Rightarrow> 'u client \<Rightarrow> (GgError \<times> 'u client) option" where
  \<comment> \<open>\<open>response\<close> points to a buffer, or is NULL\<close>
  "ggipc_update_thing_shadow b64_at call thing_name shadow_name payload response s =
     (case b64_payload b64_at payload of
        Inl ret \<Rightarrow> Some (ret, s)
      | Inr b64 \<Rightarrow>
          (let args = push_kv (GG_STR ''payload'') (gg_obj_buf b64) (shadow_args 3 thing_name shadow_name)
           in call (call_request ''aws.greengrass#UpdateThingShadow'' ''aws.greengrass#UpdateThingShadowRequest'' (kv_vec_map args)
                      (Some Update_thing_shadow_response) Update_thing_shadow_error response) s))"

definition ggipc_delete_thing_shadow ::
  "'u blocking_call \<Rightarrow> GgBuffer \<Rightarrow> GgBuffer option \<Rightarrow> 'u client \<Rightarrow> (GgError \<times> 'u client) option" where
  "ggipc_delete_thing_shadow call thing_name shadow_name s =
     call (call_request ''aws.greengrass#DeleteThingShadow'' ''aws.greengrass#DeleteThingShadowRequest''
             (kv_vec_map (shadow_args 2 thing_name shadow_name)) (Some Delete_thing_shadow_response) Delete_thing_shadow_error 0) s"

definition list_ctx_at :: "ptr \<Rightarrow> 'u client \<Rightarrow> ListShadowsCtx" where
  \<comment> \<open>the structure \<open>list_ctx\<close> at address \<open>c\<close>; other contents do not arise there\<close>
  "list_ctx_at c s =
     (case app_ctx (world s) c of
        Some (CtxListShadows list_ctx) \<Rightarrow> list_ctx
      | _ \<Rightarrow> \<lparr>ls_callback = 0, ls_ctx = 0, ls_next_token_buf = [], ls_next_token = \<lparr>data = 0, mem = []\<rparr>, ls_has_next = False\<rparr>)"

definition list_shadows_request :: "GgBuffer \<Rightarrow> ptr \<Rightarrow> GgBuffer \<Rightarrow> ipc_request" where
  "list_shadows_request thing_name c next_token =
     (let args = push_kv (GG_STR ''thingName'') (gg_obj_buf thing_name) (GG_KV_VEC 2);
          args = (if len next_token > 0 then push_kv (GG_STR ''nextToken'') (gg_obj_buf next_token) args else args)
      in call_request ''aws.greengrass#ListNamedShadowsForThing'' ''aws.greengrass#ListNamedShadowsForThingRequest'' (kv_vec_map args)
           (Some List_named_shadows_response) List_named_shadows_error c)"

partial_function (option) list_shadows_loop ::
  "'u blocking_call \<Rightarrow> GgBuffer \<Rightarrow> ptr \<Rightarrow> 'u client \<Rightarrow> (GgError \<times> 'u client) option" where
  "list_shadows_loop call thing_name c s =
     (let list_ctx = (list_ctx_at c s)\<lparr>ls_has_next := False\<rparr>
      in case call (list_shadows_request thing_name c (ls_next_token list_ctx)) (put_ctx c (Some (CtxListShadows list_ctx)) s) of
           None \<Rightarrow> None
         | Some (ret, s) \<Rightarrow>
             if ret \<noteq> GG_ERR_OK then Some (ret, s)
             else if ls_has_next (list_ctx_at c s) then list_shadows_loop call thing_name c s
             else Some (GG_ERR_OK, s))"

definition ggipc_list_named_shadows_for_thing ::
  "'u blocking_call \<Rightarrow> ptr \<Rightarrow> GgBuffer \<Rightarrow> ptr \<Rightarrow> ptr \<Rightarrow> 'u client \<Rightarrow> (GgError \<times> 'u client) option" where
  \<comment> \<open>\<open>list_ctx\<close> lies at address \<open>c\<close>\<close>
  "ggipc_list_named_shadows_for_thing call c thing_name callback callback_ctx s =
     map_option (\<lambda>(ret, s). (ret, put_ctx c None s))
     (list_shadows_loop call thing_name c
        (put_ctx c (Some (CtxListShadows \<lparr>ls_callback = callback, ls_ctx = callback_ctx, ls_next_token_buf = replicate 256 0,
           ls_next_token = \<lparr>data = 0, mem = []\<rparr>, ls_has_next = False\<rparr>)) s))"

section \<open>Subscriptions\<close>

definition ggipc_subscribe_to_topic ::
  "'u blocking_sub \<Rightarrow> GgBuffer \<Rightarrow> ptr \<Rightarrow> ptr \<Rightarrow> 'u client \<Rightarrow> (GgError \<times> u32 option \<times> 'u client) option" where
  "ggipc_subscribe_to_topic subscribe topic callback callback_ctx s =
     (let args = GG_MAP [gg_kv (GG_STR ''topic'') (gg_obj_buf topic)]
      in subscribe (sub_request ''aws.greengrass#SubscribeToTopic'' ''aws.greengrass#SubscribeToTopicRequest'' args
           Subscribe_to_topic_error Subscribe_to_topic_resp callback callback_ctx) s)"

definition ggipc_subscribe_to_iot_core ::
  "'u blocking_sub \<Rightarrow> GgBuffer \<Rightarrow> u8 \<Rightarrow> ptr \<Rightarrow> ptr \<Rightarrow> 'u client \<Rightarrow> (GgError \<times> u32 option \<times> 'u client) option" where
  "ggipc_subscribe_to_iot_core subscribe topic_filter qos callback callback_ctx s =
     (if qos > 2 then Some (GG_ERR_INVALID, None, s)
      else
     (let args = GG_MAP [gg_kv (GG_STR ''topicName'') (gg_obj_buf topic_filter),
                         gg_kv (GG_STR ''qos'') (gg_obj_buf (qos_buffer qos))]
      in subscribe (sub_request ''aws.greengrass#SubscribeToIoTCore'' ''aws.greengrass#SubscribeToIoTCoreRequest'' args
           Subscribe_to_iot_core_error Subscribe_to_iot_core_resp callback callback_ctx) s))"

definition ggipc_subscribe_to_iot_core_connection_status ::
  "'u blocking_sub \<Rightarrow> ptr \<Rightarrow> ptr \<Rightarrow> 'u client \<Rightarrow> (GgError \<times> u32 option \<times> 'u client) option" where
  "ggipc_subscribe_to_iot_core_connection_status subscribe callback callback_ctx s =
     subscribe (sub_request ''aws.greengrass#SubscribeToIoTCoreConnectionStatus''
       ''aws.greengrass#SubscribeToIoTCoreConnectionStatusResponse'' (GG_MAP [])
       Subscribe_to_iot_core_connection_status_error Subscribe_to_iot_core_connection_status_resp callback callback_ctx) s"

definition ggipc_subscribe_to_configuration_update ::
  "'u blocking_sub \<Rightarrow> GgBuffer option \<Rightarrow> GgBuffer list \<Rightarrow> ptr \<Rightarrow> ptr \<Rightarrow> 'u client \<Rightarrow> (GgError \<times> u32 option \<times> 'u client) option" where
  "ggipc_subscribe_to_configuration_update subscribe component_name key_path callback callback_ctx s =
     (let args = (case component_name of
                    None \<Rightarrow> GG_KV_VEC 2
                  | Some c \<Rightarrow> push_kv (GG_STR ''componentName'') (gg_obj_buf c) (GG_KV_VEC 2))
      in case key_path_list key_path of
           Inl ret \<Rightarrow> Some (ret, None, s)
         | Inr path \<Rightarrow>
             subscribe (sub_request ''aws.greengrass#SubscribeToConfigurationUpdate''
               ''aws.greengrass#SubscribeToConfigurationUpdateRequest''
               (kv_vec_map (push_kv (GG_STR ''keyPath'') (gg_obj_list path) args))
               Subscribe_to_configuration_update_error Subscribe_to_configuration_update_resp callback callback_ctx) s)"

section \<open>A call while only the receive thread runs\<close>

partial_function (option) wait_loop :: "'w ipc_env \<Rightarrow> ptr \<Rightarrow> 'w ipc \<Rightarrow> (GgError \<times> 'w ipc) option" where
  \<comment> \<open>the receive thread handles one packet after the other; once it has stopped with an error the
     call times out\<close>
  "wait_loop env p s =
     (case ggipc_subscribe_ready p s of
        Some r \<Rightarrow> Some r
      | None \<Rightarrow>
          (case data_ready_callback env s of
             None \<Rightarrow> None
           | Some (ret, s) \<Rightarrow> if ret \<noteq> GG_ERR_OK then ggipc_subscribe_timeout env p s else wait_loop env p s))"

definition call_alone :: "'w ipc_env \<Rightarrow> ptr \<Rightarrow> ipc_request \<Rightarrow> 'w ipc \<Rightarrow> (GgError \<times> 'w ipc) option" where
  \<comment> \<open>\<open>ggipc_call\<close>, with its frame at address \<open>p\<close>\<close>
  "call_alone env p rq s =
     (case ggipc_call env False rq p s of
        (Some ret, _, s) \<Rightarrow> Some (ret, s)
      | (None, _, s) \<Rightarrow> wait_loop env p s)"

definition subscribe_alone :: "'w ipc_env \<Rightarrow> ptr \<Rightarrow> ipc_request \<Rightarrow> 'w ipc \<Rightarrow> (GgError \<times> u32 option \<times> 'w ipc) option" where
  "subscribe_alone env p rq s =
     (case ggipc_subscribe_send env False rq p s of
        (Some ret, handle, s) \<Rightarrow> Some (ret, handle, s)
      | (None, handle, s) \<Rightarrow> map_option (\<lambda>(ret, s). (ret, handle, s)) (wait_loop env p s))"

end
