(* ===== verification/Ipc_Handlers.thy ===== *)
theory Ipc_Handlers
  imports Ipc_Requests Ipc_Streams
begin

text \<open>
  The typed IPC operations, receiving side (\<open>src/ipc/client/*.c\<close>): the error handlers, result
  handlers and subscription handlers the SDK registers, and the environment of the client in
  which they stand behind their addresses.

  An error handler maps the error code of the server to an error of the SDK. A result handler
  takes the context of its call and gives the context back updated. A subscription handler
  checks and decodes an event and passes it to the callback of the application.

  The callbacks of the application are the record \<open>app_callbacks\<close>; the locale \<open>application\<close> states
  what they may do to the client. The environment \<open>sdk_env\<close> then satisfies the contract
  \<open>callbacks\<close> of \<open>Ipc_Streams\<close>.
\<close>

section \<open>Error handlers\<close>

definition create_local_deployment_error_handler :: "GgBuffer \<Rightarrow> GgError" where
  "create_local_deployment_error_handler error_code =
     (if gg_buffer_eq error_code (GG_STR ''InvalidArgumentsError'') then GG_ERR_INVALID
      else if gg_buffer_eq error_code (GG_STR ''InvalidRecipeDirectoryPathError'') then GG_ERR_INVALID
      else if gg_buffer_eq error_code (GG_STR ''InvalidArtifactsDirectoryPathError'') then GG_ERR_INVALID
      else if gg_buffer_eq error_code (GG_STR ''ServiceError'') then GG_ERR_FAILURE
      else GG_ERR_FAILURE)"

definition delete_thing_shadow_error_handler :: "GgBuffer \<Rightarrow> GgError" where
  "delete_thing_shadow_error_handler error_code =
     (if gg_buffer_eq error_code (GG_STR ''InvalidArgumentsError'') then GG_ERR_INVALID
      else if gg_buffer_eq error_code (GG_STR ''ResourceNotFoundError'') then GG_ERR_NOENTRY
      else if gg_buffer_eq error_code (GG_STR ''ServiceError'') then GG_ERR_RETRY
      else if gg_buffer_eq error_code (GG_STR ''UnauthorizedError'') then GG_ERR_UNAUTHORIZED
      else GG_ERR_FAILURE)"

definition get_config_error_handler :: "GgBuffer \<Rightarrow> GgError" where
  "get_config_error_handler error_code =
     (if gg_buffer_eq error_code (GG_STR ''ResourceNotFoundError'') then GG_ERR_NOENTRY else GG_ERR_FAILURE)"

definition get_thing_shadow_error_handler :: "GgBuffer \<Rightarrow> GgError" where
  "get_thing_shadow_error_handler error_code =
     (if gg_buffer_eq error_code (GG_STR ''InvalidArgumentsError'') then GG_ERR_INVALID
      else if gg_buffer_eq error_code (GG_STR ''ResourceNotFoundError'') then GG_ERR_NOENTRY
      else if gg_buffer_eq error_code (GG_STR ''ServiceError'') then GG_ERR_RETRY
      else if gg_buffer_eq error_code (GG_STR ''UnauthorizedError'') then GG_ERR_UNAUTHORIZED
      else GG_ERR_FAILURE)"

definition list_named_shadows_error_handler :: "GgBuffer \<Rightarrow> GgError" where
  "list_named_shadows_error_handler error_code =
     (if gg_buffer_eq error_code (GG_STR ''InvalidArgumentsError'') then GG_ERR_INVALID
      else if gg_buffer_eq error_code (GG_STR ''ResourceNotFoundError'') then GG_ERR_NOENTRY
      else if gg_buffer_eq error_code (GG_STR ''ServiceError'') then GG_ERR_RETRY
      else if gg_buffer_eq error_code (GG_STR ''UnauthorizedError'') then GG_ERR_UNAUTHORIZED
      else GG_ERR_FAILURE)"

definition publish_to_iot_core_error_handler :: "GgBuffer \<Rightarrow> GgError" where
  "publish_to_iot_core_error_handler error_code =
     (if gg_buffer_eq error_code (GG_STR ''UnauthorizedError'') then GG_ERR_UNSUPPORTED else GG_ERR_FAILURE)"

definition publish_to_topic_error_handler :: "GgBuffer \<Rightarrow> GgError" where
  "publish_to_topic_error_handler error_code =
     (if gg_buffer_eq error_code (GG_STR ''UnauthorizedError'') then GG_ERR_UNSUPPORTED else GG_ERR_FAILURE)"

definition restart_component_error_handler :: "GgBuffer \<Rightarrow> GgError" where
  "restart_component_error_handler error_code = GG_ERR_FAILURE"

definition subscribe_to_configuration_update_error_handler :: "GgBuffer \<Rightarrow> GgError" where
  "subscribe_to_configuration_update_error_handler error_code =
     (if gg_buffer_eq error_code (GG_STR ''ServiceError'') then GG_ERR_INVALID
      else if gg_buffer_eq error_code (GG_STR ''ResourceNotFoundError'') then GG_ERR_NOENTRY
      else GG_ERR_FAILURE)"

definition subscribe_to_iot_core_error_handler :: "GgBuffer \<Rightarrow> GgError" where
  "subscribe_to_iot_core_error_handler error_code =
     (if gg_buffer_eq error_code (GG_STR ''UnauthorizedError'') then GG_ERR_UNSUPPORTED else GG_ERR_FAILURE)"

definition subscribe_to_iot_core_connection_status_error_handler :: "GgBuffer \<Rightarrow> GgError" where
  "subscribe_to_iot_core_connection_status_error_handler error_code = GG_ERR_FAILURE"

definition subscribe_to_topic_error_handler :: "GgBuffer \<Rightarrow> GgError" where
  "subscribe_to_topic_error_handler error_code =
     (if gg_buffer_eq error_code (GG_STR ''UnauthorizedError'') then GG_ERR_UNSUPPORTED else GG_ERR_FAILURE)"

definition update_config_error_handler :: "GgBuffer \<Rightarrow> GgError" where
  "update_config_error_handler error_code = GG_ERR_FAILURE"

definition update_state_error_handler :: "GgBuffer \<Rightarrow> GgError" where
  "update_state_error_handler error_code = GG_ERR_FAILURE"

definition update_thing_shadow_error_handler :: "GgBuffer \<Rightarrow> GgError" where
  "update_thing_shadow_error_handler error_code =
     (if gg_buffer_eq error_code (GG_STR ''InvalidArgumentsError'') then GG_ERR_INVALID
      else if gg_buffer_eq error_code (GG_STR ''ConflictError'') then GG_ERR_CONFLICT
      else if gg_buffer_eq error_code (GG_STR ''ServiceError'') then GG_ERR_RETRY
      else if gg_buffer_eq error_code (GG_STR ''UnauthorizedError'') then GG_ERR_UNAUTHORIZED
      else GG_ERR_FAILURE)"

fun sdk_error :: "sdk_error_handler \<Rightarrow> GgBuffer \<Rightarrow> GgError" where
  "sdk_error Create_local_deployment_error = create_local_deployment_error_handler"
| "sdk_error Delete_thing_shadow_error = delete_thing_shadow_error_handler"
| "sdk_error Get_config_error = get_config_error_handler"
| "sdk_error Get_thing_shadow_error = get_thing_shadow_error_handler"
| "sdk_error List_named_shadows_error = list_named_shadows_error_handler"
| "sdk_error Publish_to_iot_core_error = publish_to_iot_core_error_handler"
| "sdk_error Publish_to_topic_error = publish_to_topic_error_handler"
| "sdk_error Restart_component_error = restart_component_error_handler"
| "sdk_error Subscribe_to_configuration_update_error = subscribe_to_configuration_update_error_handler"
| "sdk_error Subscribe_to_iot_core_error = subscribe_to_iot_core_error_handler"
| "sdk_error Subscribe_to_iot_core_connection_status_error = subscribe_to_iot_core_connection_status_error_handler"
| "sdk_error Subscribe_to_topic_error = subscribe_to_topic_error_handler"
| "sdk_error Update_config_error = update_config_error_handler"
| "sdk_error Update_state_error = update_state_error_handler"
| "sdk_error Update_thing_shadow_error = update_thing_shadow_error_handler"

section \<open>Result handlers\<close>

definition entry :: "string \<Rightarrow> GgPresence \<Rightarrow> GgObjectType \<Rightarrow> GgMapSchemaEntry" where
  "entry k required type = \<lparr>sch_key = GG_STR k, sch_required = required, sch_type = type\<rparr>"

definition validated :: "GgKV list \<Rightarrow> GgMapSchemaEntry list \<Rightarrow> GgObject option list option" where
  \<comment> \<open>the values behind the pointers \<open>gg_map_validate\<close> writes, or \<open>None\<close> if it fails\<close>
  "validated pairs schema =
     (case gg_map_validate pairs schema of
        (ret, objs) \<Rightarrow> if ret \<noteq> GG_ERR_OK then None else Some (map (map_option (\<lambda>i. snd (pairs ! i))) objs))"

definition claim_into :: "GgBuffer \<Rightarrow> GgBuffer \<Rightarrow> GgBuffer res" where
  \<comment> \<open>\<open>gg_arena_claim_buf\<close> with an arena over \<open>target\<close>\<close>
  "claim_into buf target =
     (case gg_arena_claim_buf buf (Some (gg_arena_init target)) of
        (ret, _, buf) \<Rightarrow> if ret \<noteq> GG_ERR_OK then Inl ret else Inr buf)"

definition create_local_deployment_response_handler :: "GgBuffer option \<Rightarrow> GgMap \<Rightarrow> GgError \<times> GgBuffer option" where
  \<comment> \<open>the first argument is what \<open>ctx\<close> points to; \<open>None\<close>: NULL\<close>
  "create_local_deployment_response_handler deployment_id result =
     (case validated (snd result) [entry ''deploymentId'' GG_REQUIRED GG_TYPE_BUF] of
        None \<Rightarrow> (GG_ERR_INVALID, deployment_id)
      | Some objs \<Rightarrow>
          (case deployment_id of
             None \<Rightarrow> (GG_ERR_OK, None)
           | Some target \<Rightarrow>
               (case claim_into (gg_obj_into_buf (the (objs ! 0))) target of
                  Inl ret \<Rightarrow> (ret, deployment_id)
                | Inr i \<Rightarrow> (GG_ERR_OK, Some i))))"

definition delete_thing_shadow_response_handler :: "GgMap \<Rightarrow> GgError" where
  "delete_thing_shadow_response_handler result =
     (case validated (snd result) [entry ''payload'' GG_OPTIONAL GG_TYPE_BUF] of
        None \<Rightarrow> GG_ERR_INVALID
      | Some _ \<Rightarrow> GG_ERR_OK)"

definition ggipc_get_config_resp_value :: "GgMap \<Rightarrow> GgBuffer option \<Rightarrow> GgObject res" where
  "ggipc_get_config_resp_value resp final_key =
     (case validated (snd resp) [entry ''value'' GG_REQUIRED GG_TYPE_MAP] of
        None \<Rightarrow> Inl GG_ERR_INVALID
      | Some objs \<Rightarrow>
          (let val = the (objs ! 0);
               pairs = snd (gg_obj_into_map val)
           in case final_key of
                None \<Rightarrow> Inr val
              | Some k \<Rightarrow>
                  if length pairs = 1 \<and> gg_buffer_eq (fst (pairs ! 0)) k \<and> gg_obj_type (snd (pairs ! 0)) \<noteq> GG_TYPE_MAP
                  then Inr (snd (pairs ! 0)) else Inr val))"

definition copy_config_obj :: "CopyObjectCtx \<Rightarrow> GgMap \<Rightarrow> GgError \<times> CopyObjectCtx" where
  \<comment> \<open>\<open>gg_arena_claim_obj\<close> returns (\<open>Arena\<close>), so its \<open>None\<close> does not arise\<close>
  "copy_config_obj copy_ctx result =
     (case ggipc_get_config_resp_value result (co_final_key copy_ctx) of
        Inl _ \<Rightarrow> (GG_ERR_INVALID, copy_ctx)
      | Inr val \<Rightarrow>
          (case co_value copy_ctx of
             None \<Rightarrow> (GG_ERR_OK, copy_ctx)
           | Some _ \<Rightarrow>
               (case gg_arena_claim_obj val (Some (gg_arena_init (co_mem copy_ctx))) of
                  Some (ret, _, obj) \<Rightarrow>
                    if ret \<noteq> GG_ERR_OK then (ret, copy_ctx) else (GG_ERR_OK, copy_ctx\<lparr>co_value := Some obj\<rparr>)
                | None \<Rightarrow> (GG_ERR_FATAL, copy_ctx))))"

definition copy_config_buf :: "CopyBufferCtx \<Rightarrow> GgMap \<Rightarrow> GgError \<times> CopyBufferCtx" where
  "copy_config_buf resp_ctx result =
     (case ggipc_get_config_resp_value result (cb_final_key resp_ctx) of
        Inl _ \<Rightarrow> (GG_ERR_INVALID, resp_ctx)
      | Inr val \<Rightarrow>
          if gg_obj_type val \<noteq> GG_TYPE_BUF then (GG_ERR_FAILURE, resp_ctx)
          else
     (case cb_value resp_ctx of
        None \<Rightarrow> (GG_ERR_OK, resp_ctx)
      | Some target \<Rightarrow>
          (case claim_into (gg_obj_into_buf val) target of
             Inl ret \<Rightarrow> (ret, resp_ctx)
           | Inr value_buf \<Rightarrow> (GG_ERR_OK, resp_ctx\<lparr>cb_value := Some value_buf\<rparr>))))"

definition decode_into :: "GgBuffer \<Rightarrow> GgBuffer \<Rightarrow> bool \<times> GgBuffer" where
  \<comment> \<open>\<open>gg_base64_decode\<close> into memory apart from the source\<close>
  "decode_into src target =
     (case gg_base64_decode (mem src @ mem target) 0 (len src) (len src) (len target) of
        (ok, m, n) \<Rightarrow> (ok, target\<lparr>mem := take n (drop (len src) m)\<rparr>))"

definition get_thing_shadow_response_handler :: "GgBuffer option \<Rightarrow> GgMap \<Rightarrow> GgError \<times> GgBuffer option" where
  "get_thing_shadow_response_handler payload result =
     (case validated (snd result) [entry ''payload'' GG_REQUIRED GG_TYPE_BUF] of
        None \<Rightarrow> (GG_ERR_INVALID, payload)
      | Some objs \<Rightarrow>
          (case payload of
             None \<Rightarrow> (GG_ERR_OK, None)
           | Some target \<Rightarrow>
               (case decode_into (gg_obj_into_buf (the (objs ! 0))) target of
                  (ok, target) \<Rightarrow> (if ok then GG_ERR_OK else GG_ERR_PARSE, Some target))))"

definition update_thing_shadow_response_handler :: "GgBuffer option \<Rightarrow> GgMap \<Rightarrow> GgError \<times> GgBuffer option" where
  "update_thing_shadow_response_handler payload result =
     (case validated (snd result) [entry ''payload'' GG_REQUIRED GG_TYPE_BUF] of
        None \<Rightarrow> (GG_ERR_INVALID, payload)
      | Some objs \<Rightarrow>
          (case payload of
             None \<Rightarrow> (GG_ERR_OK, None)
           | Some target \<Rightarrow>
               (case decode_into (gg_obj_into_buf (the (objs ! 0))) target of
                  (ok, target) \<Rightarrow> (if ok then GG_ERR_OK else GG_ERR_PARSE, Some target))))"

definition restart_component_response_handler :: "GgMap \<Rightarrow> GgError" where
  "restart_component_response_handler response =
     (case validated (snd response) [entry ''restartStatus'' GG_REQUIRED GG_TYPE_BUF] of
        None \<Rightarrow> GG_ERR_FAILURE
      | Some objs \<Rightarrow>
          if gg_buffer_eq (gg_obj_into_buf (the (objs ! 0))) (GG_STR ''FAILED'') then GG_ERR_FAILURE else GG_ERR_OK)"

section \<open>Handlers that call the application\<close>

record 'u app_callbacks =
  topic_cb :: "ptr \<Rightarrow> ptr \<Rightarrow> GgBuffer \<Rightarrow> GgObject \<Rightarrow> u32 \<Rightarrow> 'u client \<Rightarrow> 'u client"
  iot_core_cb :: "ptr \<Rightarrow> ptr \<Rightarrow> GgBuffer \<Rightarrow> GgBuffer \<Rightarrow> u32 \<Rightarrow> 'u client \<Rightarrow> 'u client"
  connection_status_cb :: "ptr \<Rightarrow> ptr \<Rightarrow> bool \<Rightarrow> u32 \<Rightarrow> 'u client \<Rightarrow> 'u client"
  configuration_update_cb :: "ptr \<Rightarrow> ptr \<Rightarrow> GgBuffer \<Rightarrow> GgList \<Rightarrow> u32 \<Rightarrow> 'u client \<Rightarrow> 'u client"
  shadow_name_cb :: "ptr \<Rightarrow> ptr \<Rightarrow> GgBuffer \<Rightarrow> 'u client \<Rightarrow> 'u client"
  submit_cb :: "ptr \<Rightarrow> ptr \<Rightarrow> GgObject \<Rightarrow> 'u client \<Rightarrow> GgError \<times> 'u client"

definition gg_object_receiver_submit ::
  "'u app_callbacks \<Rightarrow> ptr option \<Rightarrow> ptr \<Rightarrow> GgObject \<Rightarrow> 'u client \<Rightarrow> GgError \<times> 'u client" where
  "gg_object_receiver_submit cbs submit submit_ctx obj s =
     (case submit of
        None \<Rightarrow> (if gg_obj_type obj = GG_TYPE_NULL then GG_ERR_OK else GG_ERR_FAILURE, s)
      | Some f \<Rightarrow> submit_cb cbs f submit_ctx obj s)"

definition forward_config_object :: "'u app_callbacks \<Rightarrow> ForwardConfigCtx \<Rightarrow> GgMap \<Rightarrow> 'u client \<Rightarrow> GgError \<times> 'u client" where
  "forward_config_object cbs fwd_ctx result s =
     (case ggipc_get_config_resp_value result (fc_final_key fwd_ctx) of
        Inl _ \<Rightarrow> (GG_ERR_INVALID, s)
      | Inr val \<Rightarrow> gg_object_receiver_submit cbs (fc_submit fwd_ctx) (fc_ctx fwd_ctx) val s)"

fun each_shadow :: "'u app_callbacks \<Rightarrow> ptr \<Rightarrow> ptr \<Rightarrow> GgObject list \<Rightarrow> 'u client \<Rightarrow> 'u client" where
  "each_shadow cbs callback callback_ctx [] s = s"
| "each_shadow cbs callback callback_ctx (item # items) s =
     each_shadow cbs callback callback_ctx items
       (if gg_obj_type item = GG_TYPE_BUF then shadow_name_cb cbs callback callback_ctx (gg_obj_into_buf item) s else s)"

definition next_page :: "GgObject option \<Rightarrow> ListShadowsCtx \<Rightarrow> ListShadowsCtx" where
  "next_page next_token_obj list_ctx =
     (case next_token_obj of
        None \<Rightarrow> list_ctx\<lparr>ls_has_next := False\<rparr>
      | Some obj \<Rightarrow>
          (let token = gg_obj_into_buf obj
           in if len token > 0
              then if len token > 256 then list_ctx\<lparr>ls_has_next := False\<rparr>
                   else list_ctx\<lparr>ls_next_token_buf := array_write (ls_next_token_buf list_ctx) 0 (mem token),
                                 ls_next_token := \<lparr>data = 0, mem = mem token\<rparr>, ls_has_next := True\<rparr>
              else list_ctx\<lparr>ls_has_next := False\<rparr>))"

definition list_named_shadows_response_handler :: "'u app_callbacks \<Rightarrow> ptr \<Rightarrow> GgMap \<Rightarrow> 'u client \<Rightarrow> GgError \<times> 'u client" where
  \<comment> \<open>\<open>list_ctx\<close> lies at address \<open>c\<close>, and is read again after the callbacks\<close>
  "list_named_shadows_response_handler cbs c result s =
     (case validated (snd result)
             [entry ''results'' GG_REQUIRED GG_TYPE_LIST, entry ''nextToken'' GG_OPTIONAL GG_TYPE_BUF,
              entry ''timestamp'' GG_OPTIONAL GG_TYPE_F64] of
        None \<Rightarrow> (GG_ERR_INVALID, s)
      | Some objs \<Rightarrow>
          (let list_ctx = list_ctx_at c s;
               s = each_shadow cbs (ls_callback list_ctx) (ls_ctx list_ctx) (snd (gg_obj_into_list (the (objs ! 0)))) s
           in (GG_ERR_OK, put_ctx c (Some (CtxListShadows (next_page (objs ! 1) (list_ctx_at c s)))) s)))"

section \<open>Subscription handlers\<close>

definition subscribe_to_topic_resp_handler ::
  "'u app_callbacks \<Rightarrow> ptr \<Rightarrow> ptr \<Rightarrow> u32 \<Rightarrow> GgBuffer \<Rightarrow> GgMap \<Rightarrow> 'u client \<Rightarrow> GgError \<times> 'u client" where
  "subscribe_to_topic_resp_handler cbs callback aux_ctx handle service_model_type event s =
     (if \<not> gg_buffer_eq service_model_type (GG_STR ''aws.greengrass#SubscriptionResponseMessage'') then (GG_ERR_INVALID, s)
      else
     (case validated (snd event) [entry ''jsonMessage'' GG_OPTIONAL GG_TYPE_MAP, entry ''binaryMessage'' GG_OPTIONAL GG_TYPE_MAP] of
        None \<Rightarrow> (GG_ERR_INVALID, s)
      | Some objs \<Rightarrow>
          if (objs ! 0 = None) = (objs ! 1 = None) then (GG_ERR_INVALID, s)
          else
     (let is_json = (objs ! 0 \<noteq> None);
          message = gg_obj_into_map (if is_json then the (objs ! 0) else the (objs ! 1))
      in case validated (snd message) [entry ''message'' GG_REQUIRED (if is_json then GG_TYPE_MAP else GG_TYPE_BUF),
                                       entry ''context'' GG_REQUIRED GG_TYPE_MAP] of
           None \<Rightarrow> (GG_ERR_INVALID, s)
         | Some msg_objs \<Rightarrow>
     (case validated (snd (gg_obj_into_map (the (msg_objs ! 1)))) [entry ''topic'' GG_REQUIRED GG_TYPE_BUF] of
        None \<Rightarrow> (GG_ERR_INVALID, s)
      | Some ctx_objs \<Rightarrow>
          (let topic = gg_obj_into_buf (the (ctx_objs ! 0));
               message_obj = the (msg_objs ! 0)
           in if \<not> is_json
              then (case gg_obj_into_buf message_obj of b \<Rightarrow>
                    case gg_base64_decode_in_place (mem b) 0 (len b) of
                      (ok, m, n) \<Rightarrow>
                        if \<not> ok then (GG_ERR_INVALID, s)
                        else (GG_ERR_OK, topic_cb cbs callback aux_ctx topic (gg_obj_buf (b\<lparr>mem := take n m\<rparr>)) handle s))
              else (GG_ERR_OK, topic_cb cbs callback aux_ctx topic message_obj handle s))))))"

definition subscribe_to_iot_core_resp_handler ::
  "'u app_callbacks \<Rightarrow> ptr \<Rightarrow> ptr \<Rightarrow> u32 \<Rightarrow> GgBuffer \<Rightarrow> GgMap \<Rightarrow> 'u client \<Rightarrow> GgError \<times> 'u client" where
  "subscribe_to_iot_core_resp_handler cbs callback aux_ctx handle service_model_type event s =
     (if \<not> gg_buffer_eq service_model_type (GG_STR ''aws.greengrass#IoTCoreMessage'') then (GG_ERR_INVALID, s)
      else
     (case validated (snd event) [entry ''message'' GG_REQUIRED GG_TYPE_MAP] of
        None \<Rightarrow> (GG_ERR_INVALID, s)
      | Some objs \<Rightarrow>
     (case validated (snd (gg_obj_into_map (the (objs ! 0))))
             [entry ''topicName'' GG_REQUIRED GG_TYPE_BUF, entry ''payload'' GG_REQUIRED GG_TYPE_BUF] of
        None \<Rightarrow> (GG_ERR_INVALID, s)
      | Some msg_objs \<Rightarrow>
          (let topic = gg_obj_into_buf (the (msg_objs ! 0));
               payload = gg_obj_into_buf (the (msg_objs ! 1))
           in case gg_base64_decode_in_place (mem payload) 0 (len payload) of
                (ok, m, n) \<Rightarrow>
                  if \<not> ok then (GG_ERR_INVALID, s)
                  else (GG_ERR_OK, iot_core_cb cbs callback aux_ctx topic (payload\<lparr>mem := take n m\<rparr>) handle s)))))"

definition subscribe_to_iot_core_connection_status_resp_handler ::
  "'u app_callbacks \<Rightarrow> ptr \<Rightarrow> ptr \<Rightarrow> u32 \<Rightarrow> GgBuffer \<Rightarrow> GgMap \<Rightarrow> 'u client \<Rightarrow> GgError \<times> 'u client" where
  "subscribe_to_iot_core_connection_status_resp_handler cbs callback aux_ctx handle service_model_type event s =
     (if \<not> gg_buffer_eq service_model_type (GG_STR ''aws.greengrass#IoTCoreConnectionStatusEvent'') then (GG_ERR_INVALID, s)
      else
     (case validated (snd event) [entry ''connectionStatusEvent'' GG_REQUIRED GG_TYPE_MAP] of
        None \<Rightarrow> (GG_ERR_INVALID, s)
      | Some objs \<Rightarrow>
     (case validated (snd (gg_obj_into_map (the (objs ! 0)))) [entry ''status'' GG_REQUIRED GG_TYPE_BUF] of
        None \<Rightarrow> (GG_ERR_INVALID, s)
      | Some status_objs \<Rightarrow>
          (let status = gg_obj_into_buf (the (status_objs ! 0))
           in if gg_buffer_eq status (GG_STR ''CONNECTED'')
              then (GG_ERR_OK, connection_status_cb cbs callback aux_ctx True handle s)
              else if gg_buffer_eq status (GG_STR ''DISCONNECTED'')
              then (GG_ERR_OK, connection_status_cb cbs callback aux_ctx False handle s)
              else (GG_ERR_OK, s)))))"

definition subscribe_to_configuration_update_resp_handler ::
  "'u app_callbacks \<Rightarrow> ptr \<Rightarrow> ptr \<Rightarrow> u32 \<Rightarrow> GgBuffer \<Rightarrow> GgMap \<Rightarrow> 'u client \<Rightarrow> GgError \<times> 'u client" where
  "subscribe_to_configuration_update_resp_handler cbs callback aux_ctx handle service_model_type event s =
     (if \<not> gg_buffer_eq service_model_type (GG_STR ''aws.greengrass#ConfigurationUpdateEvents'') then (GG_ERR_INVALID, s)
      else
     (case validated (snd event) [entry ''configurationUpdateEvent'' GG_REQUIRED GG_TYPE_MAP] of
        None \<Rightarrow> (GG_ERR_INVALID, s)
      | Some objs \<Rightarrow>
     (case validated (snd (gg_obj_into_map (the (objs ! 0))))
             [entry ''componentName'' GG_REQUIRED GG_TYPE_BUF, entry ''keyPath'' GG_REQUIRED GG_TYPE_LIST] of
        None \<Rightarrow> (GG_ERR_INVALID, s)
      | Some event_objs \<Rightarrow>
          (let component_name = gg_obj_into_buf (the (event_objs ! 0));
               key_path = gg_obj_into_list (the (event_objs ! 1))
           in if gg_list_type_check (snd key_path) GG_TYPE_BUF \<noteq> GG_ERR_OK then (GG_ERR_INVALID, s)
              else if length (snd key_path) > GG_MAX_OBJECT_DEPTH - 1 then (GG_ERR_INVALID, s)
              else (GG_ERR_OK, configuration_update_cb cbs callback aux_ctx component_name key_path handle s)))))"

section \<open>The environment\<close>

definition buffer_at :: "ptr \<Rightarrow> 'u client \<Rightarrow> GgBuffer option" where
  "buffer_at c s = (case app_ctx (world s) c of Some (CtxBuffer b) \<Rightarrow> Some b | _ \<Rightarrow> None)"

definition on_buffer :: "(GgBuffer option \<Rightarrow> GgMap \<Rightarrow> GgError \<times> GgBuffer option) \<Rightarrow> ptr \<Rightarrow> GgMap \<Rightarrow> 'u client \<Rightarrow> GgError \<times> 'u client" where
  \<comment> \<open>a handler whose context is a pointer to a buffer, or NULL\<close>
  "on_buffer f c result s =
     (case f (buffer_at c s) result of
        (ret, None) \<Rightarrow> (ret, s)
      | (ret, Some b) \<Rightarrow> (ret, put_ctx c (Some (CtxBuffer b)) s))"

fun sdk_result :: "'u app_callbacks \<Rightarrow> sdk_result_handler \<Rightarrow> ptr \<Rightarrow> GgMap \<Rightarrow> 'u client \<Rightarrow> GgError \<times> 'u client" where
  \<comment> \<open>each request registers a context of the kind its handler expects; the last cases of the
     handlers of the configuration do not arise\<close>
  "sdk_result cbs Create_local_deployment_response c result s = on_buffer create_local_deployment_response_handler c result s"
| "sdk_result cbs Delete_thing_shadow_response c result s = (delete_thing_shadow_response_handler result, s)"
| "sdk_result cbs Copy_config_obj c result s =
     (case app_ctx (world s) c of
        Some (CtxCopyObject copy_ctx) \<Rightarrow>
          (case copy_config_obj copy_ctx result of (ret, copy_ctx) \<Rightarrow> (ret, put_ctx c (Some (CtxCopyObject copy_ctx)) s))
      | _ \<Rightarrow> (GG_ERR_FATAL, s))"
| "sdk_result cbs Copy_config_buf c result s =
     (case app_ctx (world s) c of
        Some (CtxCopyBuffer copy_ctx) \<Rightarrow>
          (case copy_config_buf copy_ctx result of (ret, copy_ctx) \<Rightarrow> (ret, put_ctx c (Some (CtxCopyBuffer copy_ctx)) s))
      | _ \<Rightarrow> (GG_ERR_FATAL, s))"
| "sdk_result cbs Forward_config_object c result s =
     (case app_ctx (world s) c of
        Some (CtxForward fwd_ctx) \<Rightarrow> forward_config_object cbs fwd_ctx result s
      | _ \<Rightarrow> (GG_ERR_FATAL, s))"
| "sdk_result cbs Get_thing_shadow_response c result s = on_buffer get_thing_shadow_response_handler c result s"
| "sdk_result cbs List_named_shadows_response c result s = list_named_shadows_response_handler cbs c result s"
| "sdk_result cbs Restart_component_response c result s = (restart_component_response_handler result, s)"
| "sdk_result cbs Update_thing_shadow_response c result s = on_buffer update_thing_shadow_response_handler c result s"

fun sdk_sub :: "'u app_callbacks \<Rightarrow> sdk_sub_handler \<Rightarrow> ptr \<Rightarrow> ptr \<Rightarrow> u32 \<Rightarrow> GgBuffer \<Rightarrow> GgMap \<Rightarrow> 'u client \<Rightarrow> GgError \<times> 'u client" where
  "sdk_sub cbs Subscribe_to_configuration_update_resp = subscribe_to_configuration_update_resp_handler cbs"
| "sdk_sub cbs Subscribe_to_iot_core_resp = subscribe_to_iot_core_resp_handler cbs"
| "sdk_sub cbs Subscribe_to_iot_core_connection_status_resp = subscribe_to_iot_core_connection_status_resp_handler cbs"
| "sdk_sub cbs Subscribe_to_topic_resp = subscribe_to_topic_resp_handler cbs"

definition error_handler_of :: "ptr \<Rightarrow> sdk_error_handler option" where
  "error_handler_of p = List.find (\<lambda>f. error_handler_at f = p)
     [Create_local_deployment_error, Delete_thing_shadow_error, Get_config_error, Get_thing_shadow_error, List_named_shadows_error,
      Publish_to_iot_core_error, Publish_to_topic_error, Restart_component_error, Subscribe_to_configuration_update_error,
      Subscribe_to_iot_core_error, Subscribe_to_iot_core_connection_status_error, Subscribe_to_topic_error, Update_config_error,
      Update_state_error, Update_thing_shadow_error]"

definition result_handler_of :: "ptr \<Rightarrow> sdk_result_handler option" where
  "result_handler_of p = List.find (\<lambda>f. result_handler_at f = p)
     [Create_local_deployment_response, Delete_thing_shadow_response, Copy_config_obj, Copy_config_buf, Forward_config_object,
      Get_thing_shadow_response, List_named_shadows_response, Restart_component_response, Update_thing_shadow_response]"

definition sub_handler_of :: "ptr \<Rightarrow> sdk_sub_handler option" where
  "sub_handler_of p = List.find (\<lambda>f. sub_handler_at f = p)
     [Subscribe_to_configuration_update_resp, Subscribe_to_iot_core_resp, Subscribe_to_iot_core_connection_status_resp,
      Subscribe_to_topic_resp]"

definition sdk_env :: "'u app_callbacks \<Rightarrow> 'u app ipc_env \<Rightarrow> 'u app ipc_env" where
  \<comment> \<open>the functions of the SDK at their addresses; at other addresses functions of the application\<close>
  "sdk_env cbs env =
     env\<lparr>result_cb := (\<lambda>f c result s.
           case result_handler_of f of Some g \<Rightarrow> sdk_result cbs g c result s | None \<Rightarrow> result_cb env f c result s),
         error_cb := (\<lambda>f c error_code message s.
           case error_handler_of f of Some g \<Rightarrow> (sdk_error g error_code, s) | None \<Rightarrow> error_cb env f c error_code message s),
         sub_cb := (\<lambda>f c aux_ctx handle service_model_type event s.
           case sub_handler_of f of
             Some g \<Rightarrow> sdk_sub cbs g c aux_ctx handle service_model_type event s
           | None \<Rightarrow> sub_cb env f c aux_ctx handle service_model_type event s)\<rparr>"

lemma handler_of_at [simp]:
  "error_handler_of (error_handler_at e) = Some e"
  "result_handler_of (result_handler_at r) = Some r"
  "sub_handler_of (sub_handler_at b) = Some b"
  by (cases e; simp add: error_handler_of_def) (cases r; simp add: result_handler_of_def; fail | cases b; simp add: sub_handler_of_def)+

end
