(* ===== verification/Ipc_Api.thy ===== *)
theory Ipc_Api
  imports Ipc_Handlers Ipc_Properties
begin

text \<open>
  The typed IPC operations: what an application may do in its callbacks and that the client with
  the handlers of the SDK is then safe, and what the operations promise: requests hold what the
  caller passed, and sending and receiving sides of an operation fit together.
\<close>

section \<open>Callbacks of the application\<close>

lemma sdk_env_socket: "sock_write (sdk_env cbs env) = sock_write env"
  by (simp add: sdk_env_def)

locale application = callbacks env for env :: "'u app ipc_env" +
  fixes cbs :: "'u app_callbacks"
  assumes topic_run: "user_run env s (topic_cb cbs f c topic payload h s)"
    and iot_core_run: "user_run env s (iot_core_cb cbs f c topic buf h s)"
    and connection_status_run: "user_run env s (connection_status_cb cbs f c up h s)"
    and configuration_update_run: "user_run env s (configuration_update_cb cbs f c name path h s)"
    and shadow_name_run: "user_run env s (shadow_name_cb cbs f c name s)"
    and submit_run: "user_run env s (snd (submit_cb cbs f c obj s))"
begin

lemmas app_runs = topic_run iot_core_run connection_status_run configuration_update_run submit_run

lemma close_subscription_sdk [simp]: "ggipc_close_subscription (sdk_env cbs env) h s = ggipc_close_subscription env h s"
  unfolding ggipc_close_subscription_def close_stream_def ipc_send_packet_def sdk_env_socket ..

lemma user_run_sdk: "user_run (sdk_env cbs env) = user_run env"
proof (intro ext iffI)
  show "user_run env s s'" if "user_run (sdk_env cbs env) s s'" for s s'
    using that by (induction rule: user_run.induct) (auto intro: user_run.intros)
  show "user_run (sdk_env cbs env) s s'" if "user_run env s s'" for s s'
    using that
  proof (induction rule: user_run.induct)
    case (user_close s s' h)
    then show ?case using user_run.user_close [of "sdk_env cbs env" s s' h] by simp
  qed (auto intro: user_run.intros)
qed

lemma run_trans: "user_run env s s' \<Longrightarrow> user_run env s' s'' \<Longrightarrow> user_run env s s''"
  by (rotate_tac, induction rule: user_run.induct) (auto intro: user_run.intros)

lemma run_put_ctx: "user_run env s s' \<Longrightarrow> user_run env s (put_ctx c x s')"
  unfolding put_ctx_def by (rule user_world)

lemma each_shadow_run: "user_run env s (each_shadow cbs f c items s)"
proof (induction items arbitrary: s)
  case (Cons item items)
  then show ?case using run_trans [OF shadow_name_run Cons] by simp
qed (simp add: user_done)

lemma on_buffer_run: "user_run env s (snd (on_buffer f c m s))"
  by (auto simp: on_buffer_def split: prod.splits option.splits intro: user_done run_put_ctx)

lemma forward_run: "user_run env s (snd (forward_config_object cbs x m s))"
  by (auto simp: forward_config_object_def gg_object_receiver_submit_def split: sum.splits option.splits
      intro: user_done submit_run)

lemma list_shadows_run: "user_run env s (snd (list_named_shadows_response_handler cbs c m s))"
  by (auto simp: list_named_shadows_response_handler_def Let_def split: option.splits
      intro: user_done run_put_ctx each_shadow_run)

lemma sdk_result_run: "user_run env s (snd (sdk_result cbs g c m s))"
  by (cases g) (auto split: option.splits call_ctx.splits prod.splits
      intro: user_done run_put_ctx on_buffer_run forward_run list_shadows_run)

lemma sdk_sub_run: "user_run env s (snd (sdk_sub cbs g f c h smt m s))"
  by (cases g) (auto simp: subscribe_to_topic_resp_handler_def subscribe_to_iot_core_resp_handler_def
      subscribe_to_iot_core_connection_status_resp_handler_def subscribe_to_configuration_update_resp_handler_def Let_def
      split: option.splits prod.splits intro: user_done app_runs)

end

sublocale application \<subseteq> sdk: callbacks "sdk_env cbs env"
proof
  fix s f c m show "user_run (sdk_env cbs env) s (snd (result_cb (sdk_env cbs env) f c m s))"
    unfolding user_run_sdk by (auto simp: sdk_env_def split: option.splits intro: sdk_result_run result_run)
next
  fix s f c code message
  show "user_run (sdk_env cbs env) s (snd (error_cb (sdk_env cbs env) f c code message s))"
    unfolding user_run_sdk by (auto simp: sdk_env_def split: option.splits intro: user_done error_run)
next
  fix s f c aux h smt m
  show "user_run (sdk_env cbs env) s (snd (sub_cb (sdk_env cbs env) f c aux h smt m s))"
    unfolding user_run_sdk by (auto simp: sdk_env_def split: option.splits intro: sdk_sub_run sub_run)
qed

context application
begin

lemma packet_handled:
  assumes "reachable (sdk_env cbs env) s"
  obtains e s' where "data_ready_callback (sdk_env cbs env) s = Some (e, s')" "ipc_inv s'"
  using sdk.data_ready_inv [OF reachable_inv [OF sdk.callbacks_axioms assms]] by blast

end

section \<open>An application that records what it receives\<close>

datatype app_event =
    Topic_message GgBuffer GgObject u32
  | Iot_core_message GgBuffer GgBuffer u32
  | Connection_status bool u32
  | Configuration_update GgBuffer GgList u32
  | Shadow_name GgBuffer
  | Config_object GgObject

type_synonym recorder = "byte list \<times> app_event list"  \<comment> \<open>bytes to be received, events so far\<close>

definition record_event :: "app_event \<Rightarrow> recorder client \<Rightarrow> recorder client" where
  "record_event e s = s\<lparr>world := (world s)\<lparr>app_state := map_prod id (\<lambda>es. es @ [e]) (app_state (world s))\<rparr>\<rparr>"

definition recorder_callbacks :: "recorder app_callbacks" where
  "recorder_callbacks =
     \<lparr>topic_cb = (\<lambda>_ _ topic payload h. record_event (Topic_message topic payload h)),
      iot_core_cb = (\<lambda>_ _ topic payload h. record_event (Iot_core_message topic payload h)),
      connection_status_cb = (\<lambda>_ _ up h. record_event (Connection_status up h)),
      configuration_update_cb = (\<lambda>_ _ name path h. record_event (Configuration_update name path h)),
      shadow_name_cb = (\<lambda>_ _ name. record_event (Shadow_name name)),
      submit_cb = (\<lambda>_ _ obj s. (GG_ERR_OK, record_event (Config_object obj) s))\<rparr>"

definition recorder_env :: "recorder app ipc_env" where
  \<comment> \<open>as \<open>script_env\<close>, with the bytes to be received in the state of the application\<close>
  "recorder_env =
     \<lparr>sock_write = (\<lambda>_ _ w. (GG_ERR_OK, w)),
      sock_reader = (\<lambda>_. Some (\<lambda>w n. (Inr (take n (fst (app_state w))), w\<lparr>app_state := map_prod (drop n) id (app_state w)\<rparr>))),
      sock_connect = (\<lambda>_ w. (Inr 3, w)), sock_close = (\<lambda>_ w. w), epoll_add = (\<lambda>_ w. (GG_ERR_OK, w)),
      extra_header_handler = (\<lambda>_. GG_ERR_OK), f64_text = (\<lambda>_. None), strtod_of = (\<lambda>_. (0, False)),
      recv_mem_at = 1000, decode_mem_at = 20000, memory_around = (\<lambda>_ _. 57), result_cb = (\<lambda>_ _ _ s. (GG_ERR_OK, s)),
      error_cb = (\<lambda>_ _ _ _ s. (GG_ERR_OK, s)), sub_cb = (\<lambda>_ _ _ _ _ _ s. (GG_ERR_OK, s))\<rparr>"

lemma record_event_run: "user_run env s (record_event e s)"
  unfolding record_event_def by (rule user_world [OF user_done])

interpretation recorder: application recorder_env recorder_callbacks
  by unfold_locales (simp_all add: recorder_env_def recorder_callbacks_def user_done record_event_run)

section \<open>Responses and events as maps\<close>

lemma validated_Nil [simp]: "validated pairs [] = Some []"
  by (simp add: validated_def)

lemma validated_Cons [simp]:
  "validated pairs (entry k required type # schema) =
     (case map_val pairs (bytes_of k) of
        None \<Rightarrow> if required = GG_REQUIRED then None else map_option (Cons None) (validated pairs schema)
      | Some obj \<Rightarrow>
          if required = GG_MISSING \<or> type \<noteq> GG_TYPE_NULL \<and> type \<noteq> gg_obj_type obj then None
          else map_option (Cons (Some obj)) (validated pairs schema))"
  unfolding gg_map_get_val [of pairs "GG_STR k", unfolded mem_GG_STR, symmetric]
  by (cases "gg_map_get pairs (GG_STR k)"; cases "gg_map_validate pairs schema")
    (auto simp: validated_def entry_def)

section \<open>Vectors of parameters\<close>

lemma key_path_loop_chain: "key_path_loop ks ret v = obj_push.chain ret v (map gg_obj_buf ks)"
  by (induction ks arbitrary: ret v) (auto simp: gg_obj_vec_chain_push_def split: prod.splits)

lemma GG_OBJ_VEC_inv: "n < 2 ^ 64 \<Longrightarrow> vec_inv (GG_OBJ_VEC n)"
  by (simp add: GG_OBJ_VEC_def vec_inv_def)

lemma key_path_list_eq:
  "key_path_list ks =
     (if length ks < GG_MAX_OBJECT_DEPTH then Inr (0, map gg_obj_buf ks) else Inl GG_ERR_NOMEM)"
proof -
  let ?v = "GG_OBJ_VEC (GG_MAX_OBJECT_DEPTH - 1)" and ?xs = "map gg_obj_buf ks"
  have inv: "vec_inv ?v" by (rule GG_OBJ_VEC_inv) (simp add: GG_MAX_OBJECT_DEPTH_def)
  have l: "vec_capacity ?v - vec_len ?v = GG_MAX_OBJECT_DEPTH - 1" by (simp add: GG_OBJ_VEC_def)
  have f: "obj_push.fitting (GG_MAX_OBJECT_DEPTH - 1) ?xs = ?xs \<longleftrightarrow> length ks < GG_MAX_OBJECT_DEPTH"
    by (auto simp: obj_push.fitting_eq_iff concat_map_singleton o_def GG_MAX_OBJECT_DEPTH_def)
  have c: "take (length ks) (vec_array (vec_put ?v ?xs)) = ?xs"
    using vec_contents_put [OF inv, of ?xs] by (simp add: vec_contents_def GG_OBJ_VEC_def)
  have "vec_addr ?v = 0" "vec_len ?v = 0" by (simp_all add: GG_OBJ_VEC_def)
  then show ?thesis using f c unfolding key_path_list_def key_path_loop_chain obj_push.chain_spec [OF inv] Let_def l
    by (cases "length ks < GG_MAX_OBJECT_DEPTH") (simp_all add: concat_map_singleton o_def)
qed

lemma GG_KV_VEC_contents [simp]: "vec_inv (GG_KV_VEC n) = (n < 2 ^ 64)" "vec_capacity (GG_KV_VEC n) = n"
  "vec_contents (GG_KV_VEC n) = []" "vec_len (GG_KV_VEC n) = 0"
  by (simp_all add: GG_KV_VEC_def vec_inv_def vec_contents_def)

lemma push_kv_put: "vec_inv v \<Longrightarrow> vec_len v < vec_capacity v \<Longrightarrow> push_kv k val v = vec_put v [gg_kv k val]"
  by (simp add: push_kv_def kv_push.app_ok)

lemma kv_vec_map_eq: "kv_vec_map v = (vec_addr v, vec_contents v)"
  by (simp add: kv_vec_map_def vec_contents_def)

section \<open>Lemmas: base64 payloads\<close>

lemma b64_payload_eq:
  "b64_payload b64_at payload =
     (if (len payload + 2) div 3 * 4 \<le> GG_IPC_MAX_MSG_LEN then Inr \<lparr>data = b64_at, mem = b64_enc (mem payload)\<rparr> else Inl GG_ERR_NOMEM)"
  by (simp add: b64_payload_def gg_base64_encode_def gg_arena_alloc_def gg_arena_init_def Let_def GG_IPC_MAX_MSG_LEN_def
      UINT32_MAX_def base64_bytes_enc)

lemma decode_in_place_enc:
  "mem b = b64_enc bs \<Longrightarrow>
   \<exists>m. gg_base64_decode_in_place (mem b) 0 (len b) = (True, m, length bs) \<and> take (length bs) m = bs"
  using gg_base64_decode_cases [of 0 "len b" "mem b" 0 "len b"]
  by (simp add: gg_base64_decode_in_place_def dec_enc mem_write_def)

definition binary_event :: "GgKV list \<Rightarrow> GgBuffer \<Rightarrow> GgBuffer \<Rightarrow> bool" where
  \<comment> \<open>an event with a binary message, its topic and its text\<close>
  "binary_event event topic text \<longleftrightarrow>
     map_val event (bytes_of ''jsonMessage'') = None \<and>
     (\<exists>q msg r cx. map_val event (bytes_of ''binaryMessage'') = Some (OBJ_MAP q msg) \<and>
        map_val msg (bytes_of ''message'') = Some (OBJ_BUF text) \<and>
        map_val msg (bytes_of ''context'') = Some (OBJ_MAP r cx) \<and> map_val cx (bytes_of ''topic'') = Some (OBJ_BUF topic))"

lemma binary_event_handled:
  assumes "binary_event event topic text" "mem text = b64_enc bs" "length bs \<le> UINT16_MAX"
  shows "subscribe_to_topic_resp_handler cbs callback aux_ctx h (GG_STR ''aws.greengrass#SubscriptionResponseMessage'') (p, event) s =
    (GG_ERR_OK, topic_cb cbs callback aux_ctx topic (OBJ_BUF (text\<lparr>mem := bs\<rparr>)) h s)"
proof -
  obtain m where "gg_base64_decode_in_place (mem text) 0 (len text) = (True, m, length bs)" "take (length bs) m = bs"
    using decode_in_place_enc [OF assms(2)] by auto
  then show ?thesis using assms(1,3)
    by (auto simp: binary_event_def subscribe_to_topic_resp_handler_def gg_buffer_eq_def Let_def gg_obj_buf_def)
qed

section \<open>Properties\<close>

text \<open>
  The SDK with all its handlers is safe for every application whose callbacks work on their own memory and
  close subscriptions: in every reachable state the next packet is handled without following a dangling pointer,
  and the stream table stays well-formed.
\<close>
theorem sdk_packet_handled:
  assumes "application env cbs" "reachable (sdk_env cbs env) s"
  shows "\<exists>e s'. data_ready_callback (sdk_env cbs env) s = Some (e, s') \<and> ipc_inv s'"
  using application.packet_handled [OF assms] by metis

text \<open>
  C15: Binary messages arrive as they were published. If the base64 text of the payload fits into the
  encoding memory, \<open>ggipc_publish_to_topic_binary\<close> makes one call whose message is a string, and any
  event that carries this string as a binary message leads to a call of the application's callback
  with the topic of the event and the published bytes. Otherwise it returns \<open>GG_ERR_NOMEM\<close> without a call.
\<close>
theorem publish_binary_received:
  "if (len payload + 2) div 3 * 4 \<le> GG_IPC_MAX_MSG_LEN
   then \<exists>b :: GgBuffer.
     (\<forall>(call :: 'u blocking_call) s. ggipc_publish_to_topic_binary b64_at call topic payload s =
        publish_to_topic_common call topic (GG_MAP [gg_kv (GG_STR ''binaryMessage'')
          (gg_obj_map (GG_MAP [gg_kv (GG_STR ''message'') (OBJ_BUF b)]))]) s) \<and>
     (\<forall>(cbs :: 'u app_callbacks) callback aux_ctx h p event t text s. binary_event event t text \<longrightarrow> mem text = mem b \<longrightarrow>
        subscribe_to_topic_resp_handler cbs callback aux_ctx h (GG_STR ''aws.greengrass#SubscriptionResponseMessage'') (p, event) s =
          (GG_ERR_OK, topic_cb cbs callback aux_ctx t (OBJ_BUF (text\<lparr>mem := mem payload\<rparr>)) h s))
   else \<forall>(call :: 'u blocking_call) s. ggipc_publish_to_topic_binary b64_at call topic payload s = Some (GG_ERR_NOMEM, s)"
proof (cases "(len payload + 2) div 3 * 4 \<le> GG_IPC_MAX_MSG_LEN")
  case True
  let ?b = "\<lparr>data = b64_at, mem = b64_enc (mem payload)\<rparr>"
  have "len payload \<le> UINT16_MAX" "len ?b \<le> UINT16_MAX"
    using True by (simp_all add: GG_IPC_MAX_MSG_LEN_def UINT16_MAX_def length_b64_enc)
  then show ?thesis using True
    by (auto simp: binary_event_handled ggipc_publish_to_topic_binary_def b64_payload_eq gg_obj_buf_def intro!: exI [of _ ?b])
qed (simp add: ggipc_publish_to_topic_binary_def b64_payload_eq)

text \<open>
  C17: Configuration values survive the mapping of scalars to one-element maps. \<open>ggipc_update_config\<close> sends a
  value that is not a map as the map from the last key to the value, under the path before that
  key; a map is sent as it is. In the answer to a read of the same path, a map with one pair, whose
  key is the last key of the path and whose value is not a map, is delivered as that value, and
  every other map as it is.
\<close>
theorem update_config_read_back:
  fixes call :: "'u blocking_call"
  assumes path: "length path < GG_MAX_OBJECT_DEPTH" "path \<noteq> []" "len (last path) \<le> UINT16_MAX"
    and ts: "\<forall>sec nsec. ts = Some (sec, nsec) \<longrightarrow> sec \<ge> 0 \<and> nsec \<ge> 0"
    and resp: "map_val resp (bytes_of ''value'') = Some (OBJ_MAP q kvs)"
  shows "ggipc_update_config to_f call path ts v s =
      call (call_request ''aws.greengrass#UpdateConfiguration'' ''aws.greengrass#UpdateConfigurationRequest''
        (GG_MAP [gg_kv (GG_STR ''keyPath'') (gg_obj_list (0, map gg_obj_buf (if gg_obj_type v = GG_TYPE_MAP then path else butlast path))),
           gg_kv (GG_STR ''timestamp'') (OBJ_F64 (case ts of None \<Rightarrow> 0 | Some (sec, nsec) \<Rightarrow> to_f sec nsec)),
           gg_kv (GG_STR ''valueToMerge'') (if gg_obj_type v = GG_TYPE_MAP then v else OBJ_MAP 0 [(last path, v)])])
        None Update_config_error 0) s \<and>
    ggipc_get_config_resp_value (p, resp) (final_key_of path) =
      Inr (case kvs of
             [(k, x)] \<Rightarrow> if mem k = mem (last path) \<and> gg_obj_type x \<noteq> GG_TYPE_MAP then x else OBJ_MAP q kvs
           | _ \<Rightarrow> OBJ_MAP q kvs)"
proof
  have ends: "take (length path - Suc 0) path = butlast path" "path ! (length path - Suc 0) = last path"
    using path(2) by (simp_all add: butlast_conv_take last_conv_nth)
  have "\<not> (case ts of None \<Rightarrow> False | Some (tv_sec, tv_nsec) \<Rightarrow> tv_sec < 0 \<or> tv_nsec < 0)"
    using ts by (auto split: option.splits)
  then show "ggipc_update_config to_f call path ts v s = call (call_request ''aws.greengrass#UpdateConfiguration''
    ''aws.greengrass#UpdateConfigurationRequest''
        (GG_MAP [gg_kv (GG_STR ''keyPath'') (gg_obj_list (0, map gg_obj_buf (if gg_obj_type v = GG_TYPE_MAP then path else butlast path))),
           gg_kv (GG_STR ''timestamp'') (OBJ_F64 (case ts of None \<Rightarrow> 0 | Some (sec, nsec) \<Rightarrow> to_f sec nsec)),
           gg_kv (GG_STR ''valueToMerge'') (if gg_obj_type v = GG_TYPE_MAP then v else OBJ_MAP 0 [(last path, v)])])
        None Update_config_error 0) s"
    using path less_imp_diff_less [OF path(1), of "Suc 0"]
    by (simp add: ggipc_update_config_def key_path_list_eq ends gg_kv_def gg_obj_map_def UINT16_MAX_def)
next
  show "ggipc_get_config_resp_value (p, resp) (final_key_of path) = Inr (case kvs of
       [(k, x)] \<Rightarrow> if mem k = mem (last path) \<and> gg_obj_type x \<noteq> GG_TYPE_MAP then x else OBJ_MAP q kvs
     | _ \<Rightarrow> OBJ_MAP q kvs)"
    using path resp by (auto simp: ggipc_get_config_resp_value_def final_key_of_def last_conv_nth gg_buffer_eq_def length_Suc_conv
        split: list.splits)
qed


section \<open>Lemmas: parameters of a deployment\<close>

definition given :: "string \<Rightarrow> bool \<Rightarrow> GgObject \<Rightarrow> (string \<times> GgObject) list" where
  "given k present x = (if present then [(k, x)] else [])"

abbreviation given_buf :: "string \<Rightarrow> GgBuffer \<Rightarrow> (string \<times> GgObject) list" where
  "given_buf k b \<equiv> given k (data b \<noteq> 0 \<and> mem b \<noteq> []) (gg_obj_buf b)"

definition deployment_params :: "GgCreateLocalDeploymentArgs \<Rightarrow> (string \<times> GgObject) list" where
  \<comment> \<open>the arguments that are not empty, with their values, in the order of the request\<close>
  "deployment_params args =
     given_buf ''recipeDirectoryPath'' (recipe_directory_path args) @
     given_buf ''artifactsDirectoryPath'' (artifacts_directory_path args) @
     given ''rootComponentVersionsToAdd'' (snd (root_component_versions_to_add args) \<noteq> []) (gg_obj_map (root_component_versions_to_add args)) @
     given ''rootComponentsToRemove'' (snd (root_components_to_remove args) \<noteq> []) (gg_obj_list (root_components_to_remove args)) @
     given ''componentToConfiguration'' (snd (component_to_configuration args) \<noteq> []) (gg_obj_map (component_to_configuration args)) @
     given ''componentToRunWithInfo'' (snd (component_to_run_with_info args) \<noteq> []) (gg_obj_map (component_to_run_with_info args)) @
     given_buf ''groupName'' (group_name args)"

lemma length_given [simp]: "length (given k c x) = of_bool c"
  by (simp add: given_def)

definition holds :: "(string \<times> GgObject) list \<Rightarrow> GgKVVec \<Rightarrow> bool" where
  \<comment> \<open>the contents of the vector of capacity 8\<close>
  "holds ps v \<longleftrightarrow> vec_inv v \<and> vec_capacity v = 8 \<and> vec_addr v = 0 \<and> vec_contents v = map (\<lambda>(k, x). (GG_STR k, x)) ps"

lemma holds_len: "holds ps v \<Longrightarrow> vec_len v = length ps"
proof -
  assume h: "holds ps v"
  then have "length (vec_contents v) = length ps" by (simp add: holds_def)
  then show ?thesis using h by (auto simp: holds_def vec_contents_def vec_inv_def)
qed

lemma gg_kv_literal: "length k \<le> UINT16_MAX \<Longrightarrow> gg_kv (GG_STR k) x = (GG_STR k, x)"
  by (simp add: gg_kv_def)

lemma holds_push:
  "holds ps v \<Longrightarrow> length ps < 8 \<Longrightarrow> length k \<le> UINT16_MAX \<Longrightarrow> holds (ps @ [(k, x)]) (push_kv (GG_STR k) x v)"
  using holds_len [of ps v] by (simp add: holds_def push_kv_put vec_inv_put vec_contents_put gg_kv_literal)

lemma holds_given:
  assumes "holds ps v" "length ps < 8" "length k \<le> UINT16_MAX"
  shows "holds (ps @ given k c x) (if c then push_kv (GG_STR k) x v else v)"
  using holds_push [OF assms] assms(1) by (simp add: given_def)

lemma holds_empty: "holds [] (GG_KV_VEC 8)"
  by (simp add: holds_def) (simp add: GG_KV_VEC_def)

lemma deployment_args_holds: "holds (deployment_params args) (deployment_args args)"
  unfolding deployment_args_def deployment_params_def Let_def append_assoc [symmetric] length_greater_0_conv
  by (intro holds_given [OF holds_given [OF holds_given [OF holds_given [OF holds_given [OF holds_given [OF holds_given
      [OF holds_empty, simplified]]]]]]]) (simp_all add: UINT16_MAX_def)

lemma holds_kv_vec_map: "holds ps v \<Longrightarrow> kv_vec_map v = GG_MAP (map (\<lambda>(k, x). (GG_STR k, x)) ps)"
  by (simp add: holds_def kv_vec_map_eq GG_MAP_def)

text \<open>
  A deployment request carries every argument that is not empty, under its name and once, although the
  code ignores whether pushing a pair succeeds: the eight places of the vector are enough. An
  unknown failure handling policy is refused before anything is sent.
\<close>
theorem create_local_deployment_params:
  "ggipc_create_local_deployment call args deployment_id s =
     (if failure_handling_policy args > 2 then Some (GG_ERR_INVALID, s)
      else call (call_request ''aws.greengrass#CreateLocalDeployment'' ''aws.greengrass#CreateLocalDeploymentRequest''
        (GG_MAP (map (\<lambda>(k, x). (GG_STR k, x))
           (deployment_params args @
            given ''failureHandlingPolicy'' (failure_handling_policy args \<noteq> 0)
              (gg_obj_buf (GG_STR (if failure_handling_policy args = 1 then ''ROLLBACK'' else ''DO_NOTHING''))))))
        (if deployment_id \<noteq> 0 then Some Create_local_deployment_response else None)
        Create_local_deployment_error deployment_id) s)"
proof -
  have "length (deployment_params args) < 8" by (simp add: deployment_params_def)
  note p = holds_kv_vec_map [OF holds_push [OF deployment_args_holds this, of "''failureHandlingPolicy''"]]
  show ?thesis
    using p holds_kv_vec_map [OF deployment_args_holds [of args]]
    by (auto simp: ggipc_create_local_deployment_def policy_str_def given_def UINT16_MAX_def Let_def)
qed

section \<open>Concrete instances\<close>

theorem sdk_packet_handled_witness:
  "\<exists>e s'. data_ready_callback (sdk_env recorder_callbacks recorder_env)
     (ipc_init \<lparr>app_ctx = (\<lambda>_. None), app_fault = False, app_state = ([1, 2, 3], [])\<rparr>) = Some (e, s') \<and> ipc_inv s'"
  by (rule sdk_packet_handled [OF recorder.application_axioms reach_init])

theorem publish_binary_received_witness:
  "\<exists>b :: GgBuffer. \<forall>s. subscribe_to_topic_resp_handler recorder_callbacks 5 6 7 (GG_STR ''aws.greengrass#SubscriptionResponseMessage'')
        (0, [(GG_STR ''binaryMessage'', OBJ_MAP 0 [(GG_STR ''context'', OBJ_MAP 0 [(GG_STR ''topic'', OBJ_BUF (GG_STR ''t''))]),
           (GG_STR ''message'', OBJ_BUF b)])]) s =
      (GG_ERR_OK, record_event (Topic_message (GG_STR ''t'') (OBJ_BUF (b\<lparr>mem := bytes_of ''gru''\<rparr>)) 7) s)"
proof -
  let ?event = "\<lambda>b. [(GG_STR ''binaryMessage'', OBJ_MAP 0 [(GG_STR ''context'', OBJ_MAP 0 [(GG_STR ''topic'', OBJ_BUF (GG_STR ''t''))]),
    (GG_STR ''message'', OBJ_BUF b)])]"
  have 1: "(len (GG_STR ''gru'') + 2) div 3 * 4 \<le> GG_IPC_MAX_MSG_LEN" by (simp add: GG_IPC_MAX_MSG_LEN_def)
  have 2: "binary_event (?event b) (GG_STR ''t'') b" for b by (simp add: binary_event_def)
  have t: "topic_cb recorder_callbacks 5 6 topic payload 7 = record_event (Topic_message topic payload 7)" for topic payload
    by (simp add: recorder_callbacks_def)
  obtain b :: GgBuffer where "\<forall>(cbs :: recorder app_callbacks) callback aux_ctx h p event t text s. binary_event event t text \<longrightarrow>
      mem text = mem b \<longrightarrow> subscribe_to_topic_resp_handler cbs callback aux_ctx h
        (GG_STR ''aws.greengrass#SubscriptionResponseMessage'') (p, event) s =
      (GG_ERR_OK, topic_cb cbs callback aux_ctx t (OBJ_BUF (text\<lparr>mem := mem (GG_STR ''gru'')\<rparr>)) h s)"
    using publish_binary_received [of "GG_STR ''gru''" 100 "GG_STR ''t''", where 'u = recorder, unfolded if_P [OF 1]]
    by (elim exE conjE) (rule that)
  from this [rule_format, OF 2 refl, of recorder_callbacks 5 6 7 0] show ?thesis unfolding t mem_GG_STR by blast
qed

theorem update_config_read_back_witness:
  "ggipc_get_config_resp_value (0, [(GG_STR ''value'', OBJ_MAP 9 [(GG_STR ''a'', OBJ_I64 5)])]) (final_key_of [GG_STR ''a'']) = Inr (OBJ_I64 5)"
  using update_config_read_back [where path = "[GG_STR ''a'']" and ts = None and q = 9 and kvs = "[(GG_STR ''a'', OBJ_I64 5)]"
      and resp = "[(GG_STR ''value'', OBJ_MAP 9 [(GG_STR ''a'', OBJ_I64 5)])]" and call = "\<lambda>_ _. None" and p = 0
      and to_f = "\<lambda>_ _. 0" and v = "OBJ_I64 5" and s = "ipc_init \<lparr>app_ctx = (\<lambda>_. None), app_fault = False, app_state = ()\<rparr>"]
  by (simp add: GG_MAX_OBJECT_DEPTH_def UINT16_MAX_def)

end
