(* ===== verification/Ipc_Listing.thy ===== *)
theory Ipc_Listing
  imports Ipc_Api Json_Roundtrip
begin

text \<open>
  Listing named shadows page by page (\<open>src/ipc/client/list_named_shadows_for_thing.c\<close>), down to the packets on
  the socket: \<open>ggipc_list_named_shadows_for_thing\<close> over \<open>ggipc_call\<close>, the receive thread and the response
  handler, with a server that is described by the packets it answers with.

  \<^item> A call that is answered: from the request to the return of \<open>ggipc_call\<close>.
  \<^item> Servers: \<open>serves\<close> says which pages a server has, asked with the token of each page for the next one.
    It does not mention the client.
  \<^item> The names passed to the application are those of the pages, up to a token the client cannot store.
\<close>

section \<open>A call that is answered\<close>

definition close_packet :: "u32 \<Rightarrow> byte list" where
  "close_packet ident =
     packet (concat (map header_bytes
       [int32_header '':message-type'' EVENTSTREAM_APPLICATION_MESSAGE, int32_header '':message-flags'' EVENTSTREAM_TERMINATE_STREAM,
        int32_header '':stream-id'' ident])) []"

lemma send_close_packet:
  "ipc_send_packet env conn [int32_header '':message-type'' EVENTSTREAM_APPLICATION_MESSAGE,
     int32_header '':message-flags'' EVENTSTREAM_TERMINATE_STREAM, int32_header '':stream-id'' ident] None w =
   sock_write env conn (close_packet ident) w"
proof -
  let ?hs = "[int32_header '':message-type'' EVENTSTREAM_APPLICATION_MESSAGE,
     int32_header '':message-flags'' EVENTSTREAM_TERMINATE_STREAM, int32_header '':stream-id'' ident]"
  let ?mem = "replicate GG_IPC_MAX_MSG_LEN 0 :: byte list"
  have ok: "list_all header_ok ?hs" by (simp add: int32_header_def header_ok_def value_ok_def)
  have l: "length (concat (map header_bytes ?hs)) \<le> 100" by (simp add: int32_header_def header_bytes_def value_bytes_def)
  have n: "min (length ?mem) UINT32_MAX = GG_IPC_MAX_MSG_LEN" by (simp add: GG_IPC_MAX_MSG_LEN_def UINT32_MAX_def)
  have "\<exists>m. eventstream_encode ?mem ?hs None () =
      (GG_ERR_OK, packet (concat (map header_bytes ?hs)) [] @ m, 16 + length (concat (map header_bytes ?hs)) + length ([] :: byte list), ())"
    by (rule eventstream_encode_fits [OF ok]) (use l n in \<open>simp_all add: GG_IPC_MAX_MSG_LEN_def\<close>)
  then show ?thesis by (auto simp: ipc_send_packet_def close_packet_def)
qed

definition closed_world :: "'w ipc_env \<Rightarrow> int \<Rightarrow> EventStreamCommonHeaders \<Rightarrow> 'w \<Rightarrow> 'w" where
  \<comment> \<open>after a response: unless it ends the stream, the client does\<close>
  "closed_world env conn ch w =
     (if ch_message_flags ch AND EVENTSTREAM_TERMINATE_STREAM \<noteq> 0 then w else snd (sock_write env conn (close_packet (ch_stream_id ch)) w))"

lemma call_answered:
  assumes inv: "ipc_inv s" and conn: "connected s" and free: "card (dom (streams s)) < GG_IPC_MAX_STREAMS"
    and p: "calls s p = None" and n: "sint (next_stream_id s) < 2 ^ 31 - 1"
    and rq: "rq_sub_callback rq = None" "rq_sub_callback_ctx rq = 0" "rq_sub_callback_aux_ctx rq = 0" "rq_result_callback rq = Some cb"
    and fits: "request_fits env (request_headers rq (next_stream_id s)) (gg_obj_map (rq_params rq)) t"
    and sent: "sock_write env (ipc_conn_fd s) (packet (concat (map header_bytes (request_headers rq (next_stream_id s)))) t) (world s) = (GG_ERR_OK, w1)"
    and read: "eventsteam_get_packet (sock_reader env (ipc_conn_fd s)) w1 (recv_buffer env) = (Inr msg, w2)"
    and ch: "eventstream_get_common_headers msg = Some (Inr ch)" "ch_stream_id ch = next_stream_id s"
      "ch_message_type ch = EVENTSTREAM_APPLICATION_MESSAGE"
    and obj: "json_payload env w2 msg = Inr (OBJ_MAP q kvs)"
    and cbk: "\<And>s1. world s1 = w2 \<Longrightarrow> result_cb env cb (rq_response_ctx rq) (q, kvs) s1 = (GG_ERR_OK, s1\<lparr>world := w3\<rparr>)"
  shows "\<exists>s'. call_alone env p rq s = Some (GG_ERR_OK, s') \<and> ipc_inv s' \<and> streams s' = streams s \<and> calls s' = calls s \<and>
    ipc_conn_fd s' = ipc_conn_fd s \<and> next_stream_id s' = next_stream_id s + 1 \<and> world s' = closed_world env (ipc_conn_fd s) ch w3"
proof -
  obtain i where i: "i < GG_IPC_MAX_STREAMS" "stream_state_id s ! i = 0" "\<forall>j < i. stream_state_id s ! j \<noteq> 0"
    using free_slot [OF inv free] by blast
  let ?o = "call_opened rq p i s" and ?f = "call_frame rq i"
  note tab = table_okD [OF ipc_invD(1) [OF inv]]
  have same: "rq\<lparr>rq_sub_callback := None, rq_sub_callback_ctx := 0, rq_sub_callback_aux_ctx := 0\<rparr> = rq" using rq by simp
  have send: "ggipc_call env False rq p s = (None, Some (get_current_handle ?o i), ?o\<lparr>world := w1\<rparr>)"
    using subscribe_send_opened [OF ipc_invD(1) [OF inv] conn i fits sent, of p] by (simp add: ggipc_call_def same)
  have o: "ipc_inv ?o" by (rule ipc_inv_opened [OF inv i(1,2) p n])
  have id: "stream_state_id ?o ! i = next_stream_id s" "stream_state_handler ?o ! i = \<lparr>sh_fn = None, sh_ctx = p, sh_aux_ctx = 0\<rparr>"
    "calls ?o = (calls s)(p \<mapsto> ?f)" "ipc_conn_fd ?o = ipc_conn_fd s" "next_stream_id ?o = next_stream_id s + 1"
    using i(1) tab by (simp_all add: call_opened_def)
  have pos: "0 < sint (next_stream_id s)" by (rule tab(4))
  have idx: "get_stream_index_from_id (?o\<lparr>world := w2\<rparr>) (next_stream_id s) = Some i"
    using get_stream_index_iff [of "?o\<lparr>world := w2\<rparr>" "next_stream_id s" i] o i(1) id(1) pos by auto
  have "pass_response_to_user_callback env ch msg (rc_result_callback ?f) (rc_error_callback ?f) (rc_response_ctx ?f) (?o\<lparr>world := w2\<rparr>) =
      (GG_ERR_OK, ?o\<lparr>world := w3\<rparr>)"
    using ch(3) rq(4) obj cbk [of "?o\<lparr>world := w2\<rparr>"] by (simp add: pass_response_to_user_callback_def call_frame_def es_consts)
  then have inner: "response_handler_inner env i ?f ch msg (?o\<lparr>world := w2\<rparr>) =
      (GG_ERR_OK, clear_stream_index i (?o\<lparr>world := closed_world env (ipc_conn_fd s) ch w3\<rparr>))"
    using rq(1) ch(2) by (simp add: response_handler_inner_def Let_def call_frame_def closed_world_def close_stream_def send_close_packet id)
  let ?c = "clear_stream_index i (?o\<lparr>world := closed_world env (ipc_conn_fd s) ch w3\<rparr>)"
  let ?r = "?c\<lparr>calls := (calls s)(p \<mapsto> ?f\<lparr>rc_ret := GG_ERR_OK, rc_ready := True\<rparr>)\<rparr>"
  have "response_handler env i p ch msg (?o\<lparr>world := w2\<rparr>) = Some ?r"
    by (simp add: response_handler_def id inner)
  then have "data_ready_callback env (?o\<lparr>world := w1\<rparr>) = Some (GG_ERR_OK, ?r)"
    using read ch idx pos by (simp add: data_ready_callback_def dispatch_incoming_packet_def dispatch_message_def Let_def id)
  moreover have "ggipc_subscribe_ready p (?o\<lparr>world := w1\<rparr>) = None" by (simp add: ggipc_subscribe_ready_def id call_frame_def)
  moreover have "ggipc_subscribe_ready p ?r = Some (GG_ERR_OK, ?c\<lparr>calls := calls s\<rparr>)"
    using p by (simp add: ggipc_subscribe_ready_def fun_upd_idem)
  ultimately have run: "call_alone env p rq s = Some (GG_ERR_OK, ?c\<lparr>calls := calls s\<rparr>)"
    using send by (simp add: call_alone_def) (subst wait_loop.simps, simp, subst wait_loop.simps, simp)
  have c: "ipc_inv ?c" using o i(1) by (simp add: ipc_inv_clear)
  have "ipc_inv (?c\<lparr>calls := calls s\<rparr>)"
  proof (rule ipc_inv_frames [OF c])
    fix j r assume j: "j < GG_IPC_MAX_STREAMS" "pending ?c j r"
    obtain f where "calls ?c r = Some f" "rc_stream_index f = j" using pending_frame [OF c j] by blast
    moreover have "j \<noteq> i" using j i tab by (auto simp: pending_def id clear_put_slot call_opened_def)
    ultimately show "calls s r = calls ?c r" using p by (auto simp: id call_frame_def split: if_splits)
  qed (use ipc_invD(4) [OF inv] in auto)
  moreover have "streams (?c\<lparr>calls := calls s\<rparr>) = streams s"
    using streams_opened_cleared [OF inv i(1,2) p n, where rq = rq and w = "closed_world env (ipc_conn_fd s) ch w3"] by simp
  ultimately show ?thesis using run by (intro exI [of _ "?c\<lparr>calls := calls s\<rparr>"]) (simp add: id clear_put_slot)
qed

section \<open>Servers\<close>

text \<open>
  The state of the socket and of the server behind it is the first component of the state of the
  application, and nothing but reading and writing changes it.
\<close>

definition set_net :: "'n \<Rightarrow> ('n \<times> 'a) app \<Rightarrow> ('n \<times> 'a) app" where
  "set_net n w = w\<lparr>app_state := (n, snd (app_state w))\<rparr>"

definition lift_reader :: "'n GgReader \<Rightarrow> ('n \<times> 'a) app GgReader" where
  "lift_reader rd = map_option (\<lambda>f w k. case f (fst (app_state w)) k of (r, n) \<Rightarrow> (r, set_net n w)) rd"

definition socket_is ::
  "('n \<times> 'a) app ipc_env \<Rightarrow> (int \<Rightarrow> byte list \<Rightarrow> 'n \<Rightarrow> GgError \<times> 'n) \<Rightarrow> (int \<Rightarrow> 'n GgReader) \<Rightarrow> bool" where
  "socket_is env wr rd \<longleftrightarrow>
     (\<forall>c bs w. sock_write env c bs w = (case wr c bs (fst (app_state w)) of (e, n) \<Rightarrow> (e, set_net n w))) \<and>
     (\<forall>c. sock_reader env c = lift_reader (rd c))"

type_synonym page = "byte list list \<times> byte list option"  \<comment> \<open>the names, and the token of the next page\<close>

definition page_of :: "GgKV list \<Rightarrow> page option" where
  \<comment> \<open>what the map of a response says; an empty token is none\<close>
  "page_of kvs =
     (if validated kvs [entry ''results'' GG_REQUIRED GG_TYPE_LIST, entry ''nextToken'' GG_OPTIONAL GG_TYPE_BUF,
           entry ''timestamp'' GG_OPTIONAL GG_TYPE_F64] = None then None
      else Some
        (case map_val kvs (bytes_of ''results'') of Some (OBJ_LIST _ xs) \<Rightarrow> [mem b. OBJ_BUF b \<leftarrow> xs] | _ \<Rightarrow> [],
         case map_val kvs (bytes_of ''nextToken'') of Some (OBJ_BUF b) \<Rightarrow> if mem b = [] then None else Some (mem b) | _ \<Rightarrow> None))"

definition shadows_params :: "GgBuffer \<Rightarrow> byte list option \<Rightarrow> GgMap" where
  "shadows_params thing tok =
     (0, (GG_STR ''thingName'', gg_obj_buf thing) #
         (case tok of None \<Rightarrow> [] | Some t \<Rightarrow> [(GG_STR ''nextToken'', gg_obj_buf \<lparr>data = 0, mem = t\<rparr>)]))"

definition shadows_request :: "GgBuffer \<Rightarrow> byte list option \<Rightarrow> ipc_request" where
  "shadows_request thing tok =
     call_request ''aws.greengrass#ListNamedShadowsForThing'' ''aws.greengrass#ListNamedShadowsForThingRequest''
       (shadows_params thing tok) (Some List_named_shadows_response) List_named_shadows_error 0"

definition answers ::
  "(int \<Rightarrow> byte list \<Rightarrow> 'n \<Rightarrow> GgError \<times> 'n) \<Rightarrow> (int \<Rightarrow> 'n GgReader) \<Rightarrow> 'w ipc_env \<Rightarrow> int \<Rightarrow> GgBuffer \<Rightarrow>
   u32 \<Rightarrow> byte list option \<Rightarrow> 'n \<Rightarrow> page \<Rightarrow> 'n \<Rightarrow> bool" where
  \<comment> \<open>the request for \<open>tok\<close> fits a packet and can be written, and the next packet is an application message on
     its stream with a JSON payload that is the page, whatever is in memory around it\<close>
  "answers wr rd env conn thing ident tok n page n' \<longleftrightarrow>
     (let rq = shadows_request thing tok
      in \<exists>t n1 msg ch n2.
           request_fits env (request_headers rq ident) (gg_obj_map (rq_params rq)) t \<and>
           wr conn (packet (concat (map header_bytes (request_headers rq ident))) t) n = (GG_ERR_OK, n1) \<and>
           eventsteam_get_packet (rd conn) n1 (recv_buffer env) = (Inr msg, n2) \<and>
           eventstream_get_common_headers msg = Some (Inr ch) \<and>
           ch_stream_id ch = ident \<and> ch_message_type ch = EVENTSTREAM_APPLICATION_MESSAGE \<and>
           (\<forall>w. \<exists>q kvs. json_payload env w msg = Inr (OBJ_MAP q kvs) \<and> page_of kvs = Some page) \<and>
           n' = (if ch_message_flags ch AND EVENTSTREAM_TERMINATE_STREAM \<noteq> 0 then n2 else snd (wr conn (close_packet ident) n2)))"

inductive serves for wr rd env conn thing where
  \<comment> \<open>the pages of a server, if it is asked on the streams from \<open>ident\<close> on for the page of \<open>tok\<close> and then for
     the page of each token it has sent\<close>
  last_page: "answers wr rd env conn thing ident tok n (names, None) n' \<Longrightarrow> serves wr rd env conn thing ident tok n [(names, None)]"
| more_pages: "answers wr rd env conn thing ident tok n (names, Some t) n' \<Longrightarrow> serves wr rd env conn thing (ident + 1) (Some t) n' pages \<Longrightarrow>
    serves wr rd env conn thing ident tok n ((names, Some t) # pages)"

fun listed :: "page list \<Rightarrow> byte list list" where
  \<comment> \<open>the names up to a token of more than 256 bytes, for which the client has no room\<close>
  "listed [] = []"
| "listed ((names, tok) # pages) = names @ (case tok of Some t \<Rightarrow> if length t \<le> 256 then listed pages else [] | None \<Rightarrow> [])"

lemma listed_all:
  "serves wr rd env conn thing ident tok n pages \<Longrightarrow> \<forall>(names, tok) \<in> set pages. \<forall>t. tok = Some t \<longrightarrow> length t \<le> 256 \<Longrightarrow>
   listed pages = concat (map fst pages)"
  by (induction rule: serves.induct) auto

section \<open>One page\<close>

lemma net_simps [simp]:
  "fst (app_state (set_net n w)) = n" "snd (app_state (set_net n w)) = snd (app_state w)" "app_ctx (set_net n w) = app_ctx w"
  "set_net n (set_net m w) = set_net n w" "app_fault (set_net n w) = app_fault w"
  by (simp_all add: set_net_def)

lemma lifted_exact:
  "gg_reader_call_exact rd (fst (app_state w)) k = (r, n) \<Longrightarrow> gg_reader_call_exact (lift_reader rd) w k = (r, set_net n w)"
  by (cases rd) (auto simp: gg_reader_call_exact_def lift_reader_def set_net_def split: prod.splits sum.splits if_splits)

lemma lifted_packet:
  assumes "eventsteam_get_packet rd (fst (app_state w)) buf = (Inr msg, n)"
  shows "eventsteam_get_packet (lift_reader rd) w buf = (Inr msg, set_net n w)"
proof -
  obtain bs n1 prelude ds where 1: "gg_reader_call_exact rd (fst (app_state w)) (len (gg_buffer_substr buf 0 12)) = (Inr bs, n1)"
    "eventstream_decode_prelude ((gg_buffer_substr buf 0 12)\<lparr>mem := bs\<rparr>) = Inr prelude" "unat (pre_data_len prelude) \<le> len buf"
    "gg_reader_call_exact rd n1 (len (gg_buffer_substr buf 0 (unat (pre_data_len prelude)))) = (Inr ds, n)"
    "eventstream_decode prelude ((gg_buffer_substr buf 0 (unat (pre_data_len prelude)))\<lparr>mem := ds\<rparr>) = Inr msg"
    using assms by (auto simp: eventsteam_get_packet_def Let_def split: prod.splits sum.splits if_splits)
  have "gg_reader_call_exact (lift_reader rd) (set_net n1 w) (len (gg_buffer_substr buf 0 (unat (pre_data_len prelude)))) = (Inr ds, set_net n w)"
    using lifted_exact [of rd "set_net n1 w"] 1(4) by simp
  then show ?thesis using lifted_exact [OF 1(1)] 1 by (simp add: eventsteam_get_packet_def Let_def)
qed

lemma sdk_env_simps [simp]:
  "sock_write (sdk_env cbs env) = sock_write env" "sock_reader (sdk_env cbs env) = sock_reader env"
  "f64_text (sdk_env cbs env) = f64_text env" "recv_buffer (sdk_env cbs env) = recv_buffer env"
  "json_payload (sdk_env cbs env) = json_payload env" "request_fits (sdk_env cbs env) = request_fits env"
  by (simp_all add: sdk_env_def recv_buffer_def json_payload_def request_fits_def fun_eq_iff)

lemma sdk_env_list [simp]:
  "result_cb (sdk_env cbs env) (result_handler_at List_named_shadows_response) c m s = list_named_shadows_response_handler cbs c m s"
  by (simp add: sdk_env_def del: result_handler_at.simps)

definition token_buf :: "byte list option \<Rightarrow> GgBuffer" where
  "token_buf tok = \<lparr>data = 0, mem = (case tok of None \<Rightarrow> [] | Some t \<Rightarrow> t)\<rparr>"

lemma list_request_params:
  assumes "tok \<noteq> Some []"
  shows "rq_params (list_shadows_request thing c (token_buf tok)) = shadows_params thing tok"
    and "request_headers (list_shadows_request thing c (token_buf tok)) ident = request_headers (shadows_request thing tok) ident"
    and "rq_params (shadows_request thing tok) = shadows_params thing tok"
proof -
  let ?v = "push_kv (GG_STR ''thingName'') (gg_obj_buf thing) (GG_KV_VEC 2)"
  have v: "vec_inv ?v" "vec_contents ?v = [(GG_STR ''thingName'', gg_obj_buf thing)]" "vec_len ?v = 1" "vec_capacity ?v = 2" "vec_addr ?v = 0"
    by (simp_all add: push_kv_put vec_inv_put vec_contents_put gg_kv_literal UINT16_MAX_def) (simp add: GG_KV_VEC_def)
  then show "rq_params (list_shadows_request thing c (token_buf tok)) = shadows_params thing tok" using assms
    by (cases tok) (auto simp: list_shadows_request_def call_request_def kv_vec_map_eq Let_def push_kv_put token_buf_def
        vec_contents_put gg_kv_literal UINT16_MAX_def shadows_params_def)
  show "request_headers (list_shadows_request thing c (token_buf tok)) ident = request_headers (shadows_request thing tok) ident"
    by (simp add: request_headers_def list_shadows_request_def shadows_request_def call_request_def Let_def)
  show "rq_params (shadows_request thing tok) = shadows_params thing tok" by (simp add: shadows_request_def call_request_def)
qed

definition own_state :: "('a \<Rightarrow> 'a) \<Rightarrow> ('n \<times> 'a) app \<Rightarrow> ('n \<times> 'a) app" where
  "own_state g w = w\<lparr>app_state := (fst (app_state w), g (snd (app_state w)))\<rparr>"

lemma own_state_simps [simp]:
  "fst (app_state (own_state g w)) = fst (app_state w)" "snd (app_state (own_state g w)) = g (snd (app_state w))"
  "app_ctx (own_state g w) = app_ctx w" "own_state g (own_state h w) = own_state (g \<circ> h) w" "own_state id w = w"
  by (simp_all add: own_state_def)

definition delivers_to :: "('n \<times> 'a) app_callbacks \<Rightarrow> ptr \<Rightarrow> ptr \<Rightarrow> (byte list \<Rightarrow> 'a \<Rightarrow> 'a) \<Rightarrow> bool" where
  \<comment> \<open>the callback only works on the state of the application, and looks at the bytes of the name\<close>
  "delivers_to cbs f x upd \<longleftrightarrow> (\<forall>b s. shadow_name_cb cbs f x b s = s\<lparr>world := own_state (upd (mem b)) (world s)\<rparr>)"

lemma each_shadow_delivers:
  assumes "delivers_to cbs f x upd"
  shows "each_shadow cbs f x items s = s\<lparr>world := own_state (fold upd [mem b. OBJ_BUF b \<leftarrow> items]) (world s)\<rparr>"
proof (induction items arbitrary: s)
  case (Cons item items)
  have "each_shadow cbs f x items (s\<lparr>world := own_state g (world s)\<rparr>) =
    s\<lparr>world := own_state (fold upd [mem b. OBJ_BUF b \<leftarrow> items] \<circ> g) (world s)\<rparr>" for g
    using Cons.IH [of "s\<lparr>world := own_state g (world s)\<rparr>"] by simp
  then show ?case using assms Cons.IH [of s] by (cases item) (simp_all add: delivers_to_def comp_def)
qed (simp add: id_def [symmetric])

lemma page_ofD:
  assumes "page_of kvs = Some (names, tok)"
  obtains r xs where "validated kvs [entry ''results'' GG_REQUIRED GG_TYPE_LIST, entry ''nextToken'' GG_OPTIONAL GG_TYPE_BUF,
       entry ''timestamp'' GG_OPTIONAL GG_TYPE_F64] =
     Some [Some (OBJ_LIST r xs), map_val kvs (bytes_of ''nextToken''), map_val kvs (bytes_of ''timestamp'')]"
    "names = [mem b. OBJ_BUF b \<leftarrow> xs]"
    "map_val kvs (bytes_of ''nextToken'') = None \<and> tok = None \<or>
     (\<exists>b. map_val kvs (bytes_of ''nextToken'') = Some (OBJ_BUF b) \<and> tok = (if mem b = [] then None else Some (mem b)))"
proof -
  have buf: "GG_TYPE_BUF = gg_obj_type obj \<Longrightarrow> \<exists>b. obj = OBJ_BUF b" for obj by (cases obj) simp_all
  have lst: "GG_TYPE_LIST = gg_obj_type obj \<Longrightarrow> \<exists>p xs. obj = OBJ_LIST p xs" for obj by (cases obj) simp_all
  show thesis using assms that
    by (auto simp: page_of_def split: option.splits if_splits dest!: lst buf)
qed

lemma answers_token: "answers wr rd env conn thing ident tok n (names, Some t) n' \<Longrightarrow> t \<noteq> []"
  by (auto simp: answers_def Let_def elim!: page_ofD split: if_splits)

definition next_ctx :: "byte list option \<Rightarrow> ListShadowsCtx \<Rightarrow> ListShadowsCtx" where
  \<comment> \<open>the context after a page with this token\<close>
  "next_ctx tok L =
     (case tok of
        Some t \<Rightarrow>
          if length t \<le> 256
          then L\<lparr>ls_next_token_buf := array_write (ls_next_token_buf L) 0 t, ls_next_token := \<lparr>data = 0, mem = t\<rparr>, ls_has_next := True\<rparr>
          else L\<lparr>ls_has_next := False\<rparr>
      | None \<Rightarrow> L\<lparr>ls_has_next := False\<rparr>)"

lemma page_handled:
  assumes "delivers_to cbs f x upd" "page_of kvs = Some (names, tok)"
    and "app_ctx (world s) c = Some (CtxListShadows L)" "ls_callback L = f" "ls_ctx L = x"
  shows "list_named_shadows_response_handler cbs c (q, kvs) s =
    (GG_ERR_OK, s\<lparr>world := (own_state (fold upd names) (world s))\<lparr>app_ctx := (app_ctx (world s))(c \<mapsto> CtxListShadows (next_ctx tok L))\<rparr>\<rparr>)"
proof -
  obtain r xs where v: "validated kvs [entry ''results'' GG_REQUIRED GG_TYPE_LIST, entry ''nextToken'' GG_OPTIONAL GG_TYPE_BUF,
       entry ''timestamp'' GG_OPTIONAL GG_TYPE_F64] =
     Some [Some (OBJ_LIST r xs), map_val kvs (bytes_of ''nextToken''), map_val kvs (bytes_of ''timestamp'')]"
    "names = [mem b. OBJ_BUF b \<leftarrow> xs]"
    and t: "map_val kvs (bytes_of ''nextToken'') = None \<and> tok = None \<or>
     (\<exists>b. map_val kvs (bytes_of ''nextToken'') = Some (OBJ_BUF b) \<and> tok = (if mem b = [] then None else Some (mem b)))"
    by (rule page_ofD [OF assms(2)])
  have L: "list_ctx_at c s = L" "list_ctx_at c (s\<lparr>world := own_state (fold upd names) (world s)\<rparr>) = L"
    using assms(3) by (simp_all add: list_ctx_at_def)
  have n: "next_page (map_val kvs (bytes_of ''nextToken'')) L = next_ctx tok L"
    using t by (auto simp: next_page_def next_ctx_def Let_def)
  show ?thesis unfolding list_named_shadows_response_handler_def snd_conv v(1)
    using each_shadow_delivers [OF assms(1), of xs s] assms(4,5) n by (simp add: L Let_def v(2) [symmetric] put_ctx_def)
qed

lemma page_call:
  assumes env: "socket_is env wr rd" "delivers_to cbs f x upd"
    and s: "ipc_inv s" "connected s" "card (dom (streams s)) < GG_IPC_MAX_STREAMS" "calls s p = None" "sint (next_stream_id s) < 2 ^ 31 - 1"
    and L: "app_ctx (world s) c = Some (CtxListShadows L)" "ls_callback L = f" "ls_ctx L = x" "tok \<noteq> Some []"
    and ans: "answers wr rd env (ipc_conn_fd s) thing (next_stream_id s) tok (fst (app_state (world s))) (names, next) n'"
  shows "\<exists>s'. call_alone (sdk_env cbs env) p (list_shadows_request thing c (token_buf tok)) s = Some (GG_ERR_OK, s') \<and> ipc_inv s' \<and>
    streams s' = streams s \<and> calls s' = calls s \<and> ipc_conn_fd s' = ipc_conn_fd s \<and> next_stream_id s' = next_stream_id s + 1 \<and>
    fst (app_state (world s')) = n' \<and> snd (app_state (world s')) = fold upd names (snd (app_state (world s))) \<and>
    app_ctx (world s') c = Some (CtxListShadows (next_ctx next L))"
proof -
  let ?rq = "list_shadows_request thing c (token_buf tok)" and ?fd = "ipc_conn_fd s" and ?env = "sdk_env cbs env"
  note rq = list_request_params [OF L(4), of thing]
  obtain t n1 msg ch n2 where a:
    "request_fits env (request_headers ?rq (next_stream_id s)) (gg_obj_map (rq_params ?rq)) t"
    "wr ?fd (packet (concat (map header_bytes (request_headers ?rq (next_stream_id s)))) t) (fst (app_state (world s))) = (GG_ERR_OK, n1)"
    "eventsteam_get_packet (rd ?fd) n1 (recv_buffer env) = (Inr msg, n2)"
    "eventstream_get_common_headers msg = Some (Inr ch)"
    "ch_stream_id ch = next_stream_id s" "ch_message_type ch = EVENTSTREAM_APPLICATION_MESSAGE"
    "\<forall>w. \<exists>q kvs. json_payload env w msg = Inr (OBJ_MAP q kvs) \<and> page_of kvs = Some (names, next)"
    "n' = (if ch_message_flags ch AND EVENTSTREAM_TERMINATE_STREAM \<noteq> 0 then n2 else snd (wr ?fd (close_packet (next_stream_id s)) n2))"
    using ans unfolding answers_def Let_def rq by blast
  let ?w1 = "set_net n1 (world s)" and ?w2 = "set_net n2 (world s)"
  obtain q kvs where obj: "json_payload ?env ?w2 msg = Inr (OBJ_MAP q kvs)" "page_of kvs = Some (names, next)"
    using a(7) unfolding sdk_env_simps by blast
  let ?w3 = "(own_state (fold upd names) ?w2)\<lparr>app_ctx := (app_ctx (world s))(c \<mapsto> CtxListShadows (next_ctx next L))\<rparr>"
  have sent: "sock_write ?env ?fd (packet (concat (map header_bytes (request_headers ?rq (next_stream_id s)))) t) (world s) = (GG_ERR_OK, ?w1)"
    using env(1) a(2) by (simp add: socket_is_def)
  have got: "eventsteam_get_packet (sock_reader ?env ?fd) ?w1 (recv_buffer ?env) = (Inr msg, ?w2)"
    using env(1) lifted_packet [of "rd ?fd" ?w1] a(3) by (simp add: socket_is_def)
  have cb: "rq_result_callback ?rq = Some (result_handler_at List_named_shadows_response)" "rq_response_ctx ?rq = c"
    "rq_sub_callback ?rq = None" "rq_sub_callback_ctx ?rq = 0" "rq_sub_callback_aux_ctx ?rq = 0"
    by (simp_all add: list_shadows_request_def call_request_def Let_def)
  have handled: "result_cb ?env (result_handler_at List_named_shadows_response) (rq_response_ctx ?rq) (q, kvs) s1 =
      (GG_ERR_OK, s1\<lparr>world := ?w3\<rparr>)" if "world s1 = ?w2" for s1
    using page_handled [OF env(2) obj(2), of s1 c L q] that L by (simp add: cb del: result_handler_at.simps)
  obtain s' where "call_alone ?env p ?rq s = Some (GG_ERR_OK, s')" "ipc_inv s'" "streams s' = streams s" "calls s' = calls s"
    "ipc_conn_fd s' = ?fd" "next_stream_id s' = next_stream_id s + 1" "world s' = closed_world ?env ?fd ch ?w3"
    using call_answered [OF s cb(3-5,1) _ sent got a(4-6) obj(1) handled] a(1) by auto
  moreover have "closed_world ?env ?fd ch ?w3 = set_net n' ?w3"
    using env(1) a(5,8) by (auto simp: closed_world_def socket_is_def set_net_def own_state_def split: prod.split)
  ultimately show ?thesis by (intro exI [of _ s']) simp
qed

section \<open>All pages\<close>

lemma list_shadows_loop_serves:
  assumes env: "socket_is env wr rd" "delivers_to cbs f x upd"
  shows "serves wr rd env conn thing ident tok n pages \<Longrightarrow> ipc_conn_fd s = conn \<Longrightarrow> next_stream_id s = ident \<Longrightarrow>
    fst (app_state (world s)) = n \<Longrightarrow> ipc_inv s \<Longrightarrow> connected s \<Longrightarrow> card (dom (streams s)) < GG_IPC_MAX_STREAMS \<Longrightarrow> calls s p = None \<Longrightarrow>
    sint (next_stream_id s) + int (length pages) < 2 ^ 31 \<Longrightarrow>
    app_ctx (world s) c = Some (CtxListShadows L) \<Longrightarrow> ls_callback L = f \<Longrightarrow> ls_ctx L = x \<Longrightarrow> ls_next_token L = token_buf tok \<Longrightarrow> tok \<noteq> Some [] \<Longrightarrow>
    \<exists>s'. list_shadows_loop (call_alone (sdk_env cbs env) p) thing c s = Some (GG_ERR_OK, s') \<and> ipc_inv s' \<and> streams s' = streams s \<and>
      calls s' = calls s \<and> snd (app_state (world s')) = fold upd (listed pages) (snd (app_state (world s)))"
proof (induction arbitrary: s L rule: serves.induct)
  case (last_page ident tok n names n')
  let ?L = "L\<lparr>ls_has_next := False\<rparr>"
  let ?s = "put_ctx c (Some (CtxListShadows ?L)) s"
  have "\<exists>s'. call_alone (sdk_env cbs env) p (list_shadows_request thing c (token_buf tok)) ?s = Some (GG_ERR_OK, s') \<and> ipc_inv s' \<and>
    streams s' = streams ?s \<and> calls s' = calls ?s \<and> ipc_conn_fd s' = ipc_conn_fd ?s \<and> next_stream_id s' = next_stream_id ?s + 1 \<and>
    fst (app_state (world s')) = n' \<and> snd (app_state (world s')) = fold upd names (snd (app_state (world ?s))) \<and>
    app_ctx (world s') c = Some (CtxListShadows (next_ctx None ?L))"
    by (rule page_call [OF env]) (use last_page in \<open>simp_all add: put_ctx_def connected_def\<close>)
  then show ?case using last_page
    by (subst list_shadows_loop.simps) (auto simp: list_ctx_at_def next_ctx_def put_ctx_def)
next
  case (more_pages ident tok n names t n' pages)
  let ?L = "L\<lparr>ls_has_next := False\<rparr>"
  let ?s = "put_ctx c (Some (CtxListShadows ?L)) s"
  have "\<exists>s'. call_alone (sdk_env cbs env) p (list_shadows_request thing c (token_buf tok)) ?s = Some (GG_ERR_OK, s') \<and> ipc_inv s' \<and>
    streams s' = streams ?s \<and> calls s' = calls ?s \<and> ipc_conn_fd s' = ipc_conn_fd ?s \<and> next_stream_id s' = next_stream_id ?s + 1 \<and>
    fst (app_state (world s')) = n' \<and> snd (app_state (world s')) = fold upd names (snd (app_state (world ?s))) \<and>
    app_ctx (world s') c = Some (CtxListShadows (next_ctx (Some t) ?L))"
    by (rule page_call [OF env]) (use more_pages in \<open>simp_all add: put_ctx_def connected_def\<close>)
  then obtain s' where s': "call_alone (sdk_env cbs env) p (list_shadows_request thing c (token_buf tok)) ?s = Some (GG_ERR_OK, s')" "ipc_inv s'"
    "streams s' = streams s" "calls s' = calls s" "ipc_conn_fd s' = ipc_conn_fd s" "next_stream_id s' = next_stream_id s + 1"
    "fst (app_state (world s')) = n'" "snd (app_state (world s')) = fold upd names (snd (app_state (world s)))"
    "app_ctx (world s') c = Some (CtxListShadows (next_ctx (Some t) ?L))"
    by (auto simp: put_ctx_def)
  show ?case
  proof (cases "length t \<le> 256")
    case True
    have "t \<noteq> []" by (rule answers_token [OF more_pages.hyps(1)])
    have "\<exists>s''. list_shadows_loop (call_alone (sdk_env cbs env) p) thing c s' = Some (GG_ERR_OK, s'') \<and> ipc_inv s'' \<and> streams s'' = streams s' \<and>
      calls s'' = calls s' \<and> snd (app_state (world s'')) = fold upd (listed pages) (snd (app_state (world s')))"
      by (rule more_pages.IH [where L = "next_ctx (Some t) ?L"])
        (use more_pages.prems s' True \<open>t \<noteq> []\<close> in \<open>simp_all add: connected_def next_ctx_def token_buf_def sint_Suc\<close>)
    then show ?thesis using s' more_pages.prems True
      by (subst list_shadows_loop.simps) (auto simp: list_ctx_at_def next_ctx_def)
  next
    case False
    then show ?thesis using s' more_pages.prems
      by (subst list_shadows_loop.simps) (auto simp: list_ctx_at_def next_ctx_def)
  qed
qed

section \<open>Properties\<close>

text \<open>
  C16: Listing named shadows follows the pages, over the real client: requests are written to the socket, the
  receive thread handles the packets the server answers with, and the response handler passes
  the names on. For every server whose pages come to an end, \<open>ggipc_list_named_shadows_for_thing\<close> returns \<open>GG_ERR_OK\<close>
  and the callback of the application has been called, in order, once for every name of every page,
  provided that no token has more than 256 bytes. If one has, the listing ends with its page,
  and the result is \<open>GG_ERR_OK\<close> all the same. No stream and no call is left behind. The callback works on
  the state of the application only; the stream ids suffice, a slot is free, and no other thread
  but the receive thread runs.
\<close>
theorem list_named_shadows_complete:
  assumes "socket_is env wr rd" "delivers_to cbs f x upd"
    and "ipc_inv s" "connected s" "card (dom (streams s)) < GG_IPC_MAX_STREAMS" "calls s p = None"
    and "sint (next_stream_id s) + int (length pages) < 2 ^ 31"
    and "serves wr rd env (ipc_conn_fd s) thing (next_stream_id s) None (fst (app_state (world s))) pages"
  shows "\<exists>s'. ggipc_list_named_shadows_for_thing (call_alone (sdk_env cbs env) p) c thing f x s = Some (GG_ERR_OK, s') \<and>
    snd (app_state (world s')) = fold upd (listed pages) (snd (app_state (world s))) \<and>
    ((\<forall>(names, tok) \<in> set pages. \<forall>t. tok = Some t \<longrightarrow> length t \<le> 256) \<longrightarrow> listed pages = concat (map fst pages)) \<and>
    ipc_inv s' \<and> streams s' = streams s \<and> calls s' = calls s"
proof -
  let ?L = "\<lparr>ls_callback = f, ls_ctx = x, ls_next_token_buf = replicate 256 0, ls_next_token = \<lparr>data = 0, mem = []\<rparr>, ls_has_next = False\<rparr>"
  let ?s = "put_ctx c (Some (CtxListShadows ?L)) s"
  have "\<exists>s'. list_shadows_loop (call_alone (sdk_env cbs env) p) thing c ?s = Some (GG_ERR_OK, s') \<and> ipc_inv s' \<and> streams s' = streams ?s \<and>
      calls s' = calls ?s \<and> snd (app_state (world s')) = fold upd (listed pages) (snd (app_state (world ?s)))"
    by (rule list_shadows_loop_serves [OF assms(1,2,8), where L = ?L]) (use assms(3-7) in \<open>simp_all add: put_ctx_def connected_def token_buf_def\<close>)
  then obtain s' where s': "list_shadows_loop (call_alone (sdk_env cbs env) p) thing c ?s = Some (GG_ERR_OK, s')" "ipc_inv s'"
    "streams s' = streams s" "calls s' = calls s" "snd (app_state (world s')) = fold upd (listed pages) (snd (app_state (world s)))"
    by (auto simp: put_ctx_def)
  have "ggipc_list_named_shadows_for_thing (call_alone (sdk_env cbs env) p) c thing f x s = Some (GG_ERR_OK, put_ctx c None s')"
    using s'(1) by (simp add: ggipc_list_named_shadows_for_thing_def)
  moreover have "ipc_inv (put_ctx c None s')" "streams (put_ctx c None s') = streams s'" "calls (put_ctx c None s') = calls s'"
    "app_state (world (put_ctx c None s')) = app_state (world s')"
    using s'(2) by (simp_all add: put_ctx_def)
  ultimately show ?thesis using s' listed_all [OF assms(8)]
    by (intro exI [of _ "put_ctx c None s'"] conjI impI) (assumption | simp)+
qed

section \<open>JSON payloads\<close>

lemma substr_in_memory: "view (memory_of b around) (span_of (gg_buffer_substr b i j)) = gg_buffer_substr b i j"
  by (auto simp: view_def memory_of_def span_of_def gg_buffer_substr_def Let_def intro!: nth_equalityI)

lemma payload_in_memory:
  assumes "eventsteam_get_packet rd n buf = (Inr msg, n')"
  shows "view (memory_of (iter_rest (msg_headers msg)) around) (span_of (msg_payload msg)) = msg_payload msg"
proof -
  obtain prelude b where "eventstream_decode prelude b = Inr msg"
    using assms by (auto simp: eventsteam_get_packet_def Let_def split: prod.splits sum.splits if_splits)
  then show ?thesis by (auto simp: eventstream_decode_def Let_def substr_in_memory split: sum.splits if_splits)
qed

lemma json_payload_text:
  assumes "\<And>around. view (memory_of (iter_rest (msg_headers msg)) around) (span_of (msg_payload msg)) = msg_payload msg"
    and "mem (msg_payload msg) = t"
    and "portable fmt (strtod_of env) (OBJ_MAP q kvs)" "json_text fmt (OBJ_MAP q kvs) = Some t"
    and "decoded_size (OBJ_MAP q kvs) \<le> GG_MAX_OBJECT_SUBOBJECTS * sizeof_GgObject"
  shows "\<exists>q' lvs. json_payload env w msg = Inr (OBJ_MAP q' lvs) \<and> same_obj (OBJ_MAP q kvs) (OBJ_MAP q' lvs)"
proof -
  let ?h = "memory_of (iter_rest (msg_headers msg)) (memory_around env w)" and ?p = "data (msg_payload msg)"
  let ?a = "gg_arena_init \<lparr>data = decode_mem_at env, mem = replicate (GG_MAX_OBJECT_SUBOBJECTS * sizeof_GgObject) 0\<rparr>"
  have s: "span_of (msg_payload msg) = (?p, length t)" using assms(2) by (simp add: span_of_def)
  have "view ?h (?p, length t) = \<lparr>data = ?p, mem = t\<rparr>"
    using assms(1) [of "memory_around env w"] assms(2) s by (cases "msg_payload msg") simp
  then have h: "Json_Roundtrip.holds ?h ?p t" using holds_view by blast
  have room: "has_room ?a (decoded_size (OBJ_MAP q kvs))"
    using assms(5) by (simp add: has_room_def gg_arena_init_def arena_inv_def GG_MAX_OBJECT_SUBOBJECTS_def sizeof_GgObject_def sizeof_ptr_def UINT32_MAX_def)
  obtain h' obj' where "gg_json_decode_destructive (strtod_of env) ?h (?p, length t) (Some ?a) True =
      Some (GG_ERR_OK, h', Some (bump ?a (decoded_size (OBJ_MAP q kvs))), Some obj')" "same_obj (OBJ_MAP q kvs) obj'"
    using gg_json_decode_text [OF assms(3,4) h _ room] by (auto simp: ends_def)
  then show ?thesis by (cases obj') (auto simp: json_payload_def s)
qed

section \<open>Concrete instances\<close>

lemma same_obj_simps:
  "same_obj (OBJ_BUF a) y \<longleftrightarrow> (\<exists>b. y = OBJ_BUF b \<and> mem b = mem a)"
  "same_obj (OBJ_LIST p xs) y \<longleftrightarrow> (\<exists>q ys. y = OBJ_LIST q ys \<and> list_all2 same_obj xs ys)"
  "same_obj (OBJ_MAP p kvs) y \<longleftrightarrow> (\<exists>q lvs. y = OBJ_MAP q lvs \<and>
     list_all2 (\<lambda>kv lv. mem (fst lv) = mem (fst kv) \<and> same_obj (snd kv) (snd lv)) kvs lvs)"
  by (cases y; auto elim!: list.rel_mono_strong)+

definition listing_callbacks :: "recorder app_callbacks" where
  "listing_callbacks = recorder_callbacks\<lparr>shadow_name_cb :=
     (\<lambda>_ _ name s. s\<lparr>world := own_state (\<lambda>es. es @ [Shadow_name \<lparr>data = 0, mem = mem name\<rparr>]) (world s)\<rparr>)\<rparr>"

lemma listing_delivers: "delivers_to listing_callbacks f x (\<lambda>name es. es @ [Shadow_name \<lparr>data = 0, mem = name\<rparr>])"
  by (simp add: delivers_to_def listing_callbacks_def)

abbreviation quiet_write :: "int \<Rightarrow> byte list \<Rightarrow> byte list \<Rightarrow> GgError \<times> byte list" where
  "quiet_write \<equiv> \<lambda>_ _ n. (GG_ERR_OK, n)"

lemma recorder_socket: "socket_is recorder_env quiet_write (\<lambda>_. stream_reader)"
  by (simp add: socket_is_def recorder_env_def lift_reader_def stream_reader_def set_net_def map_prod_def split_beta)

definition page_packet :: "u32 \<Rightarrow> byte list \<Rightarrow> byte list" where
  "page_packet ident t = packet (concat (map header_bytes (server_headers EVENTSTREAM_APPLICATION_MESSAGE 0 ident))) t"

lemma page_packet_answers:
  assumes fits: "request_fits recorder_env (request_headers (shadows_request thing tok) ident) (gg_obj_map (rq_params (shadows_request thing tok))) rt"
    and obj: "portable fmt (strtod_of recorder_env) (OBJ_MAP q kvs)" "json_text fmt (OBJ_MAP q kvs) = Some t" "length t \<le> 1000"
      "decoded_size (OBJ_MAP q kvs) \<le> GG_MAX_OBJECT_SUBOBJECTS * sizeof_GgObject"
    and page: "\<And>q' lvs. same_obj (OBJ_MAP q kvs) (OBJ_MAP q' lvs) \<Longrightarrow> page_of lvs = Some page"
  shows "answers quiet_write (\<lambda>_. stream_reader) recorder_env conn thing ident tok (page_packet ident t @ rest) page rest"
proof -
  let ?hs = "server_headers EVENTSTREAM_APPLICATION_MESSAGE 0 ident"
  have ok: "list_all header_ok ?hs" by (simp add: server_headers_def int32_header_def header_ok_def value_ok_def)
  have l: "length (concat (map header_bytes ?hs)) \<le> 100"
    by (simp add: server_headers_def int32_header_def header_bytes_def value_bytes_def)
  have c: "common_of ?hs \<lparr>ch_stream_id = 0, ch_message_type = 0, ch_message_flags = 0\<rparr> =
    Inr \<lparr>ch_stream_id = ident, ch_message_type = EVENTSTREAM_APPLICATION_MESSAGE, ch_message_flags = 0\<rparr>"
    by (simp add: server_headers_def int32_header_def)
  obtain msg where m: "eventsteam_get_packet stream_reader (page_packet ident t @ rest) (recv_buffer recorder_env) = (Inr msg, rest)"
    "mem (msg_payload msg) = t"
    "eventstream_get_common_headers msg = Some (Inr \<lparr>ch_stream_id = ident, ch_message_type = EVENTSTREAM_APPLICATION_MESSAGE, ch_message_flags = 0\<rparr>)"
    using get_packet_stream [OF ok refl, of t "recv_buffer recorder_env" rest] l obj(3) c
    by (auto simp: page_packet_def UINT32_MAX_def recv_buffer_def GG_IPC_MAX_MSG_LEN_def)
  have "\<exists>q kvs. json_payload recorder_env w msg = Inr (OBJ_MAP q kvs) \<and> page_of kvs = Some page" for w
    using json_payload_text [OF payload_in_memory [OF m(1)] m(2) obj(1,2,4), of w] page by blast
  then show ?thesis unfolding answers_def Let_def using fits m by (auto simp: es_consts)
qed

definition first_page :: "GgKV list" where
  "first_page = [(GG_STR ''nextToken'', OBJ_BUF (GG_STR ''2'')), (GG_STR ''results'', OBJ_LIST 0 [OBJ_BUF (GG_STR ''x''), OBJ_BUF (GG_STR ''y'')])]"

definition second_page :: "GgKV list" where
  "second_page = [(GG_STR ''results'', OBJ_LIST 0 [OBJ_BUF (GG_STR ''z'')])]"

definition first_text :: "byte list" where
  "first_text = [123, 34, 110, 101, 120, 116, 84, 111, 107, 101, 110, 34, 58, 34, 50, 34, 44, 34, 114, 101, 115, 117, 108, 116, 115, 34, 58, 91, 34, 120, 34, 44, 34, 121, 34, 93, 125]"

definition second_text :: "byte list" where
  "second_text = [123, 34, 114, 101, 115, 117, 108, 116, 115, 34, 58, 91, 34, 122, 34, 93, 125]"

lemma page_texts:
  "json_text fmt (OBJ_MAP 0 first_page) = Some first_text" "json_text fmt (OBJ_MAP 0 second_page) = Some second_text"
  by (simp_all add: first_page_def second_page_def first_text_def second_text_def json_string_def json_char_def)

lemma pages_portable: "portable fmt strtod (OBJ_MAP 0 first_page)" "portable fmt strtod (OBJ_MAP 0 second_page)"
  by (simp_all add: first_page_def second_page_def UINT16_MAX_def gg_map_is_canonical_iff utf8_len_def)

lemma pages_same:
  "same_obj (OBJ_MAP 0 first_page) (OBJ_MAP q lvs) \<Longrightarrow> page_of lvs = Some ([bytes_of ''x'', bytes_of ''y''], Some (bytes_of ''2''))"
  "same_obj (OBJ_MAP 0 second_page) (OBJ_MAP q lvs) \<Longrightarrow> page_of lvs = Some ([bytes_of ''z''], None)"
  by (auto simp: first_page_def second_page_def list_all2_Cons1 same_obj_simps page_of_def simp del: same_obj.simps)

lemma example_requests_fit:
  "request_fits env (request_headers (shadows_request (GG_STR ''d'') None) ident) (gg_obj_map (rq_params (shadows_request (GG_STR ''d'') None))) [123, 34, 116, 104, 105, 110, 103, 78, 97, 109, 101, 34, 58, 34, 100, 34, 125]"
  "request_fits env (request_headers (shadows_request (GG_STR ''d'') (Some (bytes_of ''2''))) ident)
     (gg_obj_map (rq_params (shadows_request (GG_STR ''d'') (Some (bytes_of ''2''))))) [123, 34, 116, 104, 105, 110, 103, 78, 97, 109, 101, 34, 58, 34, 100, 34, 44, 34, 110, 101, 120, 116, 84, 111, 107, 101, 110, 34, 58, 34, 50, 34, 125]"
  by (simp_all add: request_fits_def shadows_request_def shadows_params_def call_request_def request_headers_def int32_header_def string_header_def
      header_ok_def value_ok_def gg_obj_map_def gg_obj_buf_def header_bytes_def value_bytes_def GG_IPC_MAX_MSG_LEN_def GG_MAX_OBJECT_DEPTH_def
      GG_MAX_OBJECT_SUBOBJECTS_def UINT16_MAX_def json_string_def json_char_def)

theorem list_named_shadows_complete_witness:
  "\<exists>s'. ggipc_list_named_shadows_for_thing (call_alone (sdk_env listing_callbacks recorder_env) 100) 50 (GG_STR ''d'') 5 6
     ((ipc_init \<lparr>app_ctx = (\<lambda>_. None), app_fault = False,
         app_state = (page_packet 1 first_text @ page_packet 2 second_text, [])\<rparr>)\<lparr>ipc_conn_fd := 3\<rparr>) = Some (GG_ERR_OK, s') \<and>
   snd (app_state (world s')) = [Shadow_name \<lparr>data = 0, mem = bytes_of ''x''\<rparr>, Shadow_name \<lparr>data = 0, mem = bytes_of ''y''\<rparr>,
     Shadow_name \<lparr>data = 0, mem = bytes_of ''z''\<rparr>]"
proof -
  let ?s = "(ipc_init \<lparr>app_ctx = (\<lambda>_. None), app_fault = False, app_state = (page_packet 1 first_text @ page_packet 2 second_text, [] :: app_event list)\<rparr>)\<lparr>ipc_conn_fd := 3\<rparr>"
  let ?pages = "[([bytes_of ''x'', bytes_of ''y''], Some (bytes_of ''2'')), ([bytes_of ''z''], None)]"
  have len: "length first_text \<le> 1000" "length second_text \<le> 1000" by (simp_all add: first_text_def second_text_def)
  have size: "decoded_size (OBJ_MAP 0 first_page) \<le> GG_MAX_OBJECT_SUBOBJECTS * sizeof_GgObject"
    "decoded_size (OBJ_MAP 0 second_page) \<le> GG_MAX_OBJECT_SUBOBJECTS * sizeof_GgObject"
    by (simp_all add: first_page_def second_page_def GG_MAX_OBJECT_SUBOBJECTS_def sizeof_GgObject_def sizeof_GgKV_def sizeof_ptr_def)
  have "answers quiet_write (\<lambda>_. stream_reader) recorder_env 3 (GG_STR ''d'') 2 (Some (bytes_of ''2'')) (page_packet 2 second_text @ []) ([bytes_of ''z''], None) []"
    by (rule page_packet_answers [OF example_requests_fit(2) pages_portable(2) page_texts(2) len(2) size(2) pages_same(2)])
  then have "serves quiet_write (\<lambda>_. stream_reader) recorder_env 3 (GG_STR ''d'') (1 + 1) (Some (bytes_of ''2'')) (page_packet 2 second_text) [([bytes_of ''z''], None)]"
    using last_page by fastforce
  moreover have "answers quiet_write (\<lambda>_. stream_reader) recorder_env 3 (GG_STR ''d'') 1 None (page_packet 1 first_text @ page_packet 2 second_text)
      ([bytes_of ''x'', bytes_of ''y''], Some (bytes_of ''2'')) (page_packet 2 second_text)"
    by (rule page_packet_answers [OF example_requests_fit(1) pages_portable(1) page_texts(1) len(1) size(1) pages_same(1)])
  ultimately have srv: "serves quiet_write (\<lambda>_. stream_reader) recorder_env 3 (GG_STR ''d'') 1 None (page_packet 1 first_text @ page_packet 2 second_text) ?pages"
    by (rule more_pages [rotated])
  have s: "ipc_inv ?s" "connected ?s" "calls ?s 100 = None" "next_stream_id ?s = 1" "ipc_conn_fd ?s = 3"
    "fst (app_state (world ?s)) = page_packet 1 first_text @ page_packet 2 second_text" "snd (app_state (world ?s)) = []"
    by (simp_all add: ipc_inv_init connected_def) (simp_all add: ipc_init_def)
  have "streams ?s = Map.empty" by (rule streams_eqI [OF s(1)]) (auto simp: ipc_init_def)
  then have free: "card (dom (streams ?s)) < GG_IPC_MAX_STREAMS" by (simp add: GG_IPC_MAX_STREAMS_def)
  have "sint (next_stream_id ?s) + int (length ?pages) < 2 ^ 31" unfolding s(4) by simp
  from list_named_shadows_complete [OF recorder_socket listing_delivers [of 5 6] s(1,2) free s(3) this, of "GG_STR ''d''" 50] srv
  show ?thesis unfolding s(4-7) by fastforce
qed

end
