(* ===== verification/Cpp_Client.thy ===== *)
theory Cpp_Client
  imports Cpp_Object Cpp_Subscription Ipc_Listing Runtime
begin

text \<open>
  The class \<open>Client\<close> of the C++ interface (\<open>cpp/include/gg/ipc/client.hpp\<close>, \<open>cpp/src/ipc/*.cpp\<close>) over the C
  functions of the other theories, and the functions through which the receive thread
  calls the callback objects of a C++ application.

  A \<open>std::string_view\<close>, a \<open>std::span\<close> and a \<open>Buffer\<close> are buffers, a \<open>std::error_code\<close> is a \<open>GgError\<close>, an output
  parameter is part of the result (\<open>None\<close>: not written). A callback of the application
  gives the exception it throws, if any, what is left in the \<open>Subscription\<close> passed to it, and the new
  state. Variables of a function whose address is passed on have an address that is an argument.

  The locale \<open>cpp_application\<close> states what C++ callbacks may do; the functions of this theory then satisfy
  the contract \<open>application\<close> of \<open>Ipc_Api\<close>, so they keep the stream table well-formed, and a message on a topic
  reaches its callback object. A callback of a subscription may throw: the function that calls it catches the
  exception and closes the subscription. A callback that lists shadows must not: nothing catches its exception
  before the frames of the C library, which is undefined behaviour, as is a wrong context pointer. The flag
  \<open>app_fault\<close> records it; a state in which it is set stands for no state of the program.
\<close>

section \<open>Errors\<close>

definition GgError_values :: "GgError list" where
  \<comment> \<open>in the order of the enumeration\<close>
  "GgError_values =
     [GG_ERR_OK, GG_ERR_FAILURE, GG_ERR_RETRY, GG_ERR_BUSY, GG_ERR_FATAL, GG_ERR_INVALID, GG_ERR_UNSUPPORTED, GG_ERR_PARSE,
      GG_ERR_RANGE, GG_ERR_NOMEM, GG_ERR_NOCONN, GG_ERR_NODATA, GG_ERR_NOENTRY, GG_ERR_CONFIG, GG_ERR_REMOTE, GG_ERR_EXPECTED,
      GG_ERR_TIMEOUT, GG_ERR_UNAUTHORIZED, GG_ERR_CONFLICT]"

definition make_error_code :: "GgError \<Rightarrow> nat" where
  \<comment> \<open>the value of the code; its category is always \<open>gg::category\<close>\<close>
  "make_error_code gg_error_value = length (takeWhile (\<lambda>e. e \<noteq> gg_error_value) GgError_values)"

definition category_message :: "nat \<Rightarrow> string option" where
  \<comment> \<open>\<open>None\<close>: no value of the enumeration\<close>
  "category_message val = (if val < length GgError_values then Some (gg_strerror (GgError_values ! val)) else None)"

section \<open>Start\<close>

definition Sdk_get :: "'w init_list \<times> bool \<times> 'w \<Rightarrow> unit run \<times> 'w init_list \<times> bool \<times> 'w" where
  \<comment> \<open>the flag: \<open>singleton\<close> has been constructed. Its constructor calls \<open>gg_sdk_init\<close>\<close>
  "Sdk_get s =
     (case s of (init_list, constructed, w) \<Rightarrow>
        if constructed then (Done (), init_list, True, w)
        else case gg_sdk_init init_list w of (r, init_list, w) \<Rightarrow> (r, init_list, True, w))"

definition Client_get :: "'w init_list \<times> bool \<times> 'w \<Rightarrow> unit run \<times> 'w init_list \<times> bool \<times> 'w" where
  \<comment> \<open>a \<open>Client\<close> has no members of its own\<close>
  "Client_get s = Sdk_get s"

section \<open>Callback objects\<close>

datatype thrown =
    Std_exception string
  | Other_thrown

record 'u cpp_callbacks =
  local_topic_call :: "ptr \<Rightarrow> GgBuffer \<Rightarrow> GgObject \<Rightarrow> u32 \<Rightarrow> 'u client \<Rightarrow> thrown option \<times> u32 \<times> 'u client"
  iot_topic_call :: "ptr \<Rightarrow> GgBuffer \<Rightarrow> GgBuffer \<Rightarrow> u32 \<Rightarrow> 'u client \<Rightarrow> thrown option \<times> u32 \<times> 'u client"
  configuration_update_call :: "ptr \<Rightarrow> GgBuffer \<Rightarrow> GgList \<Rightarrow> u32 \<Rightarrow> 'u client \<Rightarrow> thrown option \<times> u32 \<times> 'u client"
  connection_status_call :: "ptr \<Rightarrow> bool \<Rightarrow> u32 \<Rightarrow> 'u client \<Rightarrow> thrown option \<times> u32 \<times> 'u client"
  shadow_name_call :: "ptr \<Rightarrow> ptr \<Rightarrow> GgBuffer \<Rightarrow> 'u client \<Rightarrow> thrown option \<times> 'u client"

definition invoke_locked ::
  "'u app ipc_env \<Rightarrow> (u32 \<Rightarrow> 'u client \<Rightarrow> thrown option \<times> u32 \<times> 'u client) \<Rightarrow> u32 \<Rightarrow> 'u client \<Rightarrow> 'u client" where
  \<comment> \<open>the body of the four functions below: \<open>locked\<close> is destroyed at the end of the block, or when the
     exception leaves it. The messages on \<open>std::cerr\<close> are left out\<close>
  "invoke_locked env call handle s =
     (case call handle s of
        (None, locked, s) \<Rightarrow>
          (case Subscription_release locked of (_, locked) \<Rightarrow> Subscription_destroy (ggipc_close_subscription env) locked s)
      | (Some e, locked, s) \<Rightarrow> Subscription_destroy (ggipc_close_subscription env) locked s)"

definition subscribe_to_topic_callback ::
  "'u app ipc_env \<Rightarrow> 'u cpp_callbacks \<Rightarrow> ptr \<Rightarrow> GgBuffer \<Rightarrow> GgObject \<Rightarrow> u32 \<Rightarrow> 'u client \<Rightarrow> 'u client" where
  "subscribe_to_topic_callback env ccbs callback topic payload handle s =
     invoke_locked env (local_topic_call ccbs callback topic payload) handle s"

definition subscribe_to_iot_core_callback ::
  "'u app ipc_env \<Rightarrow> 'u cpp_callbacks \<Rightarrow> ptr \<Rightarrow> GgBuffer \<Rightarrow> GgBuffer \<Rightarrow> u32 \<Rightarrow> 'u client \<Rightarrow> 'u client" where
  "subscribe_to_iot_core_callback env ccbs callback topic payload handle s =
     invoke_locked env (iot_topic_call ccbs callback topic payload) handle s"

definition subscribe_to_iot_core_connection_status_callback ::
  "'u app ipc_env \<Rightarrow> 'u cpp_callbacks \<Rightarrow> ptr \<Rightarrow> bool \<Rightarrow> u32 \<Rightarrow> 'u client \<Rightarrow> 'u client" where
  "subscribe_to_iot_core_connection_status_callback env ccbs callback connected' handle s =
     invoke_locked env (connection_status_call ccbs callback connected') handle s"

definition subscribe_to_configuration_update_callback ::
  "'u app ipc_env \<Rightarrow> 'u cpp_callbacks \<Rightarrow> ptr \<Rightarrow> GgBuffer \<Rightarrow> GgList \<Rightarrow> u32 \<Rightarrow> 'u client \<Rightarrow> 'u client" where
  "subscribe_to_configuration_update_callback env ccbs callback component_name key_path handle s =
     invoke_locked env (configuration_update_call ccbs callback component_name key_path) handle s"

definition set_fault :: "'u client \<Rightarrow> 'u client" where
  "set_fault s = s\<lparr>world := (world s)\<lparr>app_fault := True\<rparr>\<rparr>"

definition list_trampoline :: "'u cpp_callbacks \<Rightarrow> ptr \<Rightarrow> GgBuffer \<Rightarrow> 'u client \<Rightarrow> 'u client" where
  \<comment> \<open>\<open>raw_ctx\<close> points to a \<open>ListCtx\<close>. There is no handler here: an exception leaves through the C frames
     of the receive thread, which C++ does not define. That, and a pointer to something else, is a fault\<close>
  "list_trampoline ccbs raw_ctx shadow_name s =
     (case app_ctx (world s) raw_ctx of
        Some (CtxList callback callback_ctx) \<Rightarrow>
          (case shadow_name_call ccbs callback callback_ctx shadow_name s of
             (None, s) \<Rightarrow> s
           | (Some e, s) \<Rightarrow> set_fault s)
      | _ \<Rightarrow> set_fault s)"

datatype cpp_function = Topic_callback | Iot_core_callback | Connection_status_callback | Configuration_update_callback | List_trampoline

fun cpp_function_at :: "cpp_function \<Rightarrow> ptr" where
  \<comment> \<open>the addresses of these functions\<close>
  "cpp_function_at Topic_callback = 401"
| "cpp_function_at Iot_core_callback = 402"
| "cpp_function_at Connection_status_callback = 403"
| "cpp_function_at Configuration_update_callback = 404"
| "cpp_function_at List_trampoline = 405"

definition cpp_app_callbacks :: "'u app ipc_env \<Rightarrow> 'u cpp_callbacks \<Rightarrow> 'u app_callbacks \<Rightarrow> 'u app_callbacks" where
  \<comment> \<open>the callbacks as the C functions see them: at other addresses, functions of the application\<close>
  "cpp_app_callbacks env ccbs cbs =
     cbs\<lparr>topic_cb := (\<lambda>f c. if f = cpp_function_at Topic_callback then subscribe_to_topic_callback env ccbs c else topic_cb cbs f c),
         iot_core_cb := (\<lambda>f c. if f = cpp_function_at Iot_core_callback then subscribe_to_iot_core_callback env ccbs c else iot_core_cb cbs f c),
         connection_status_cb := (\<lambda>f c. if f = cpp_function_at Connection_status_callback
           then subscribe_to_iot_core_connection_status_callback env ccbs c else connection_status_cb cbs f c),
         configuration_update_cb := (\<lambda>f c. if f = cpp_function_at Configuration_update_callback
           then subscribe_to_configuration_update_callback env ccbs c else configuration_update_cb cbs f c),
         shadow_name_cb := (\<lambda>f c. if f = cpp_function_at List_trampoline then list_trampoline ccbs c else shadow_name_cb cbs f c)\<rparr>"

section \<open>The client\<close>

definition AuthToken_from_environment :: "(string \<Rightarrow> GgBuffer option) \<Rightarrow> GgBuffer option" where
  "AuthToken_from_environment getenv = (case getenv ''SVCUID'' of None \<Rightarrow> None | Some svcuid \<Rightarrow> Some svcuid)"

definition Client_connect_with_token :: "'w ipc_env \<Rightarrow> GgBuffer \<Rightarrow> GgBuffer \<Rightarrow> 'w ipc \<Rightarrow> (GgError \<times> 'w ipc) option" where
  "Client_connect_with_token env socket_path auth_token s = ggipc_connect_with_token env socket_path auth_token s"

definition Client_connect :: "'w ipc_env \<Rightarrow> (string \<Rightarrow> GgBuffer option) \<Rightarrow> 'w ipc \<Rightarrow> (GgError \<times> 'w ipc) option" where
  "Client_connect env getenv s =
     (case AuthToken_from_environment getenv of
        None \<Rightarrow> Some (GG_ERR_CONFIG, s)
      | Some auth_token \<Rightarrow>
          (case getenv ''AWS_GG_NUCLEUS_DOMAIN_SOCKET_FILEPATH_FOR_COMPONENT'' of
             None \<Rightarrow> Some (GG_ERR_CONFIG, s)
           | Some socket_path \<Rightarrow> Client_connect_with_token env socket_path auth_token s))"

definition Client_update_component_state :: "'u blocking_call \<Rightarrow> nat \<Rightarrow> 'u client \<Rightarrow> (GgError \<times> 'u client) option" where
  "Client_update_component_state call state s = ggipc_update_state call state s"

definition Client_publish_to_topic_binary ::
  "ptr \<Rightarrow> 'u blocking_call \<Rightarrow> GgBuffer \<Rightarrow> GgBuffer \<Rightarrow> 'u client \<Rightarrow> (GgError \<times> 'u client) option" where
  "Client_publish_to_topic_binary b64_at call topic bytes s = ggipc_publish_to_topic_binary b64_at call topic bytes s"

definition Client_publish_to_topic_json :: "'u blocking_call \<Rightarrow> GgBuffer \<Rightarrow> GgMap \<Rightarrow> 'u client \<Rightarrow> (GgError \<times> 'u client) option" where
  "Client_publish_to_topic_json call topic json s = ggipc_publish_to_topic_json call topic json s"

definition Client_publish_to_iot_core ::
  "ptr \<Rightarrow> 'u blocking_call \<Rightarrow> GgBuffer \<Rightarrow> GgBuffer \<Rightarrow> u8 \<Rightarrow> 'u client \<Rightarrow> (GgError \<times> 'u client) option" where
  "Client_publish_to_iot_core b64_at call topic bytes qos s = ggipc_publish_to_iot_core b64_at call topic bytes qos s"

definition Client_restart_component :: "'u blocking_call \<Rightarrow> GgBuffer \<Rightarrow> 'u client \<Rightarrow> (GgError \<times> 'u client) option" where
  "Client_restart_component call component_name s = ggipc_restart_component call component_name s"

definition with_buffer ::
  "ptr \<Rightarrow> GgBuffer option \<Rightarrow> (ptr \<Rightarrow> 'u client \<Rightarrow> (GgError \<times> 'u client) option) \<Rightarrow> 'u client \<Rightarrow> (GgError \<times> GgBuffer option \<times> 'u client) option" where
  \<comment> \<open>a call with the address \<open>b\<close> of a buffer, or with NULL; afterwards the buffer is copied to
     the output parameter if the call has succeeded\<close>
  "with_buffer b buf call s =
     map_option (\<lambda>(ret, s). (ret, if ret = GG_ERR_OK \<and> buf \<noteq> None then buffer_at b s else None, put_ctx b None s))
     (case buf of
        None \<Rightarrow> call 0 s
      | Some x \<Rightarrow> call b (put_ctx b (Some (CtxBuffer x)) s))"

definition Client_create_local_deployment ::
  "'u blocking_call \<Rightarrow> ptr \<Rightarrow> GgCreateLocalDeploymentArgs \<Rightarrow> GgBuffer \<Rightarrow> bool \<Rightarrow> 'u client \<Rightarrow> (GgError \<times> GgBuffer option \<times> 'u client) option" where
  \<comment> \<open>\<open>id_buf\<close> lies at address \<open>b\<close>; the flag says that \<open>deployment_id\<close> is not null. The arguments of the C++
     interface have the fields of those of C\<close>
  "Client_create_local_deployment call b args deployment_id_mem want s =
     with_buffer b (if want then Some deployment_id_mem else None) (ggipc_create_local_deployment call args) s"

definition Client_get_thing_shadow ::
  "'u blocking_call \<Rightarrow> ptr \<Rightarrow> GgBuffer \<Rightarrow> GgBuffer option \<Rightarrow> GgBuffer \<Rightarrow> 'u client \<Rightarrow> (GgError \<times> GgBuffer option \<times> 'u client) option" where
  "Client_get_thing_shadow call b thing_name shadow_name payload_mem s =
     with_buffer b (Some payload_mem) (ggipc_get_thing_shadow call thing_name shadow_name) s"

definition Client_update_thing_shadow ::
  "ptr \<Rightarrow> 'u blocking_call \<Rightarrow> ptr \<Rightarrow> GgBuffer \<Rightarrow> GgBuffer option \<Rightarrow> GgBuffer \<Rightarrow> GgBuffer \<Rightarrow> bool \<Rightarrow> 'u client \<Rightarrow>
   (GgError \<times> GgBuffer option \<times> 'u client) option" where
  "Client_update_thing_shadow b64_at call b thing_name shadow_name payload response_mem want s =
     with_buffer b (if want then Some response_mem else None) (ggipc_update_thing_shadow b64_at call thing_name shadow_name payload) s"

definition Client_delete_thing_shadow ::
  "'u blocking_call \<Rightarrow> GgBuffer \<Rightarrow> GgBuffer option \<Rightarrow> 'u client \<Rightarrow> (GgError \<times> 'u client) option" where
  "Client_delete_thing_shadow call thing_name shadow_name s = ggipc_delete_thing_shadow call thing_name shadow_name s"

definition Client_list_named_shadows_for_thing ::
  "'u blocking_call \<Rightarrow> ptr \<Rightarrow> ptr \<Rightarrow> GgBuffer \<Rightarrow> ptr \<Rightarrow> ptr \<Rightarrow> 'u client \<Rightarrow> (GgError \<times> 'u client) option" where
  \<comment> \<open>\<open>list_ctx\<close> lies at address \<open>l\<close>, the context of the C function at \<open>c\<close>\<close>
  "Client_list_named_shadows_for_thing call c l thing_name callback callback_ctx s =
     map_option (\<lambda>(ret, s). (ret, put_ctx l None s))
     (ggipc_list_named_shadows_for_thing call c thing_name (cpp_function_at List_trampoline) l
        (put_ctx l (Some (CtxList callback callback_ctx)) s))"

section \<open>Configuration\<close>

definition Client_get_config_str ::
  "'u blocking_call \<Rightarrow> ptr \<Rightarrow> GgBuffer list \<Rightarrow> GgBuffer option \<Rightarrow> GgBuffer \<Rightarrow> 'u client \<Rightarrow> (GgError \<times> GgBuffer option \<times> 'u client) option" where
  "Client_get_config_str call c key_path component_name value_mem s =
     map_option (\<lambda>(ret, result, s). if ret \<noteq> GG_ERR_OK then (ret, None, s) else (GG_ERR_OK, result, s))
     (ggipc_get_config_str call c key_path component_name (Some value_mem) s)"

definition Client_get_config ::
  "'u blocking_call \<Rightarrow> ptr \<Rightarrow> GgBuffer list \<Rightarrow> GgBuffer option \<Rightarrow> GgBuffer \<Rightarrow> 'u client \<Rightarrow> (GgError \<times> GgObject option \<times> 'u client) option" where
  "Client_get_config call c key_path component_name value_mem s =
     map_option (\<lambda>(ret, result, s). if ret \<noteq> GG_ERR_OK then (ret, None, s) else (GG_ERR_OK, result, s))
     (ggipc_get_config call c key_path component_name value_mem True s)"

definition get_config_scalar ::
  "cpp_type \<Rightarrow> 'u blocking_call \<Rightarrow> ptr \<Rightarrow> ptr \<Rightarrow> GgBuffer list \<Rightarrow> GgBuffer option \<Rightarrow> 'u client \<Rightarrow> (GgError \<times> cpp_value option \<times> 'u client) option" where
  \<comment> \<open>the first argument is the type \<open>T\<close>; the array \<open>mem\<close> of \<open>sizeof(Object)\<close> bytes lies at address \<open>mem_at\<close>. The
     alternative of the variant is that of the object\<close>
  "get_config_scalar t call c mem_at key_path component_name s =
     map_option (\<lambda>(ret, result, s).
       if make_error_code ret \<noteq> 0 then (ret, None, s)
       else (case Option.bind result (get_if t) of
               None \<Rightarrow> (GG_ERR_INVALID, None, s)
             | Some val \<Rightarrow> (GG_ERR_OK, Some val, s)))
     (Client_get_config call c key_path component_name \<lparr>data = mem_at, mem = replicate 11 0\<rparr> s)"

definition Client_get_config_i64 ::
  "'u blocking_call \<Rightarrow> ptr \<Rightarrow> ptr \<Rightarrow> GgBuffer list \<Rightarrow> GgBuffer option \<Rightarrow> 'u client \<Rightarrow> (GgError \<times> cpp_value option \<times> 'u client) option" where
  "Client_get_config_i64 = get_config_scalar (T_int 64 True)"

definition Client_get_config_double ::
  "'u blocking_call \<Rightarrow> ptr \<Rightarrow> ptr \<Rightarrow> GgBuffer list \<Rightarrow> GgBuffer option \<Rightarrow> 'u client \<Rightarrow> (GgError \<times> cpp_value option \<times> 'u client) option" where
  "Client_get_config_double = get_config_scalar T_double"

definition Client_get_config_bool ::
  "'u blocking_call \<Rightarrow> ptr \<Rightarrow> ptr \<Rightarrow> GgBuffer list \<Rightarrow> GgBuffer option \<Rightarrow> 'u client \<Rightarrow> (GgError \<times> cpp_value option \<times> 'u client) option" where
  "Client_get_config_bool = get_config_scalar T_bool"

definition duration_cast :: "int \<Rightarrow> int \<Rightarrow> int" where
  \<comment> \<open>to a coarser unit of \<open>d\<close> ticks: division towards zero\<close>
  "duration_cast d ticks = sgn ticks * (\<bar>ticks\<bar> div d)"

definition to_timespec :: "int \<Rightarrow> int \<times> int" where
  \<comment> \<open>\<open>std::chrono::system_clock\<close> counts nanoseconds\<close>
  "to_timespec rel_time = (let sec = duration_cast 1000000000 rel_time in (sec, rel_time - sec * 1000000000))"

definition Client_update_config ::
  "(int \<Rightarrow> int \<Rightarrow> f64) \<Rightarrow> 'u blocking_call \<Rightarrow> GgBuffer list \<Rightarrow> GgObject \<Rightarrow> int \<Rightarrow> 'u client \<Rightarrow> (GgError \<times> 'u client) option" where
  "Client_update_config timespec_f64 call key_path val timestamp s =
     ggipc_update_config timespec_f64 call key_path (Some (to_timespec timestamp)) val s"

section \<open>Subscriptions\<close>

definition store_handle ::
  "'u app ipc_env \<Rightarrow> u32 option \<Rightarrow> (GgError \<times> u32 option \<times> 'u client) option \<Rightarrow> (GgError \<times> u32 option \<times> 'u client) option" where
  \<comment> \<open>the end of the four functions below. \<open>handle\<close> is the object behind the pointer, \<open>None\<close> for NULL, and the
     second component of the result the object afterwards. \<open>None\<close> as the result: \<open>raw_handle\<close> would be
     used without having been written\<close>
  "store_handle env handle result =
     Option.bind result (\<lambda>(ret, raw_handle, s).
     case handle of
       Some h \<Rightarrow>
         if ret = GG_ERR_OK
         then map_option (\<lambda>raw. case Subscription_reset (ggipc_close_subscription env) raw h s of (h, s) \<Rightarrow> (ret, Some h, s)) raw_handle
         else Some (ret, Some h, s)
     | None \<Rightarrow> Some (ret, None, s))"

definition Client_subscribe_to_topic ::
  "'u app ipc_env \<Rightarrow> 'u blocking_sub \<Rightarrow> GgBuffer \<Rightarrow> ptr \<Rightarrow> u32 option \<Rightarrow> 'u client \<Rightarrow> (GgError \<times> u32 option \<times> 'u client) option" where
  "Client_subscribe_to_topic env subscribe topic callback handle s =
     store_handle env handle (ggipc_subscribe_to_topic subscribe topic (cpp_function_at Topic_callback) callback s)"

definition Client_subscribe_to_iot_core ::
  "'u app ipc_env \<Rightarrow> 'u blocking_sub \<Rightarrow> GgBuffer \<Rightarrow> u8 \<Rightarrow> ptr \<Rightarrow> u32 option \<Rightarrow> 'u client \<Rightarrow> (GgError \<times> u32 option \<times> 'u client) option" where
  "Client_subscribe_to_iot_core env subscribe topic_filter qos callback handle s =
     store_handle env handle (ggipc_subscribe_to_iot_core subscribe topic_filter qos (cpp_function_at Iot_core_callback) callback s)"

definition Client_subscribe_to_iot_core_connection_status ::
  "'u app ipc_env \<Rightarrow> 'u blocking_sub \<Rightarrow> ptr \<Rightarrow> u32 option \<Rightarrow> 'u client \<Rightarrow> (GgError \<times> u32 option \<times> 'u client) option" where
  "Client_subscribe_to_iot_core_connection_status env subscribe callback handle s =
     store_handle env handle
       (ggipc_subscribe_to_iot_core_connection_status subscribe (cpp_function_at Connection_status_callback) callback s)"

definition Client_subscribe_to_configuration_update ::
  "'u app ipc_env \<Rightarrow> 'u blocking_sub \<Rightarrow> GgBuffer list \<Rightarrow> GgBuffer option \<Rightarrow> ptr \<Rightarrow> u32 option \<Rightarrow> 'u client \<Rightarrow> (GgError \<times> u32 option \<times> 'u client) option" where
  "Client_subscribe_to_configuration_update env subscribe key_path component_name callback handle s =
     store_handle env handle
       (ggipc_subscribe_to_configuration_update subscribe component_name key_path (cpp_function_at Configuration_update_callback) callback s)"

section \<open>Lemmas: errors and timestamps\<close>

lemma make_error_code_zero [simp]: "make_error_code e = 0 \<longleftrightarrow> e = GG_ERR_OK"
  by (cases e) (simp_all add: make_error_code_def GgError_values_def)

lemma make_error_code_inj: "make_error_code e = make_error_code e' \<longleftrightarrow> e = e'"
  by (cases e; cases e'; simp add: make_error_code_def GgError_values_def)

lemma category_message_code: "category_message (make_error_code e) = Some (gg_strerror e)"
  by (cases e) (simp_all add: make_error_code_def category_message_def GgError_values_def)

lemma Client_get_once: "Client_get s = (r, s') \<Longrightarrow> Client_get s' = (Done (), s')"
  by (cases s; cases s') (auto simp: Client_get_def Sdk_get_def split: if_splits prod.splits)

lemma Client_connect_eq: "Client_connect = ggipc_connect"
  by (intro ext) (simp add: Client_connect_def AuthToken_from_environment_def Client_connect_with_token_def ggipc_connect_def split: option.split)

lemma to_timespec_nonneg:
  "0 \<le> t \<Longrightarrow> to_timespec t = (t div 1000000000, t mod 1000000000)"
  by (cases "t = 0") (auto simp: to_timespec_def duration_cast_def minus_mult_div_eq_mod Let_def mult.commute)

lemma to_timespec_neg: "t < 0 \<Longrightarrow> fst (to_timespec t) < 0 \<or> snd (to_timespec t) < 0"
proof -
  assume t: "t < 0"
  show ?thesis
  proof (cases "- t < 1000000000")
    case True
    then show ?thesis using t by (simp add: to_timespec_def duration_cast_def Let_def)
  next
    case False
    then have "0 < - t div 1000000000" using t by (simp add: pos_imp_zdiv_pos_iff)
    then show ?thesis using t by (simp add: to_timespec_def duration_cast_def Let_def)
  qed
qed

section \<open>Lemmas: callbacks\<close>

lemma invoke_locked_eq:
  "call handle s = (None, locked, s') \<Longrightarrow> invoke_locked env call handle s = s'"
  "call handle s = (Some e, locked, s') \<Longrightarrow> invoke_locked env call handle s = closing (ggipc_close_subscription env) locked s'"
  by (simp_all add: invoke_locked_def subscription_members closing_def)

lemma user_run_closing: "user_run env s s' \<Longrightarrow> user_run env s (closing (ggipc_close_subscription env) h s')"
  by (simp add: closing_def user_close)

locale cpp_application = application env cbs for env :: "'u app ipc_env" and cbs +
  fixes ccbs :: "'u cpp_callbacks"
  assumes local_topic_run: "local_topic_call ccbs this topic payload h s = (e, locked, s') \<Longrightarrow> user_run env s s'"
    and iot_topic_run: "iot_topic_call ccbs this topic buf h s = (e, locked, s') \<Longrightarrow> user_run env s s'"
    and configuration_call_run: "configuration_update_call ccbs this name path h s = (e, locked, s') \<Longrightarrow> user_run env s s'"
    and connection_call_run: "connection_status_call ccbs this up h s = (e, locked, s') \<Longrightarrow> user_run env s s'"
    and shadow_call_run: "shadow_name_call ccbs f c name s = (e, s') \<Longrightarrow> user_run env s s'"
begin

lemma invoke_locked_run:
  assumes "\<And>e locked s'. call h s = (e, locked, s') \<Longrightarrow> user_run env s s'"
  shows "user_run env s (invoke_locked env call h s)"
proof -
  obtain e locked s' where c: "call h s = (e, locked, s')" by (metis prod_cases3)
  show ?thesis using assms [OF c] c by (cases e) (simp_all add: invoke_locked_eq user_run_closing)
qed

lemma list_trampoline_run: "user_run env s (list_trampoline ccbs c name s)"
  by (auto simp: list_trampoline_def set_fault_def split: option.split call_ctx.split prod.split intro: user_done user_world shadow_call_run)

lemmas trampoline_defs = subscribe_to_topic_callback_def subscribe_to_iot_core_callback_def
  subscribe_to_iot_core_connection_status_callback_def subscribe_to_configuration_update_callback_def

lemmas cpp_runs = invoke_locked_run [OF local_topic_run] invoke_locked_run [OF iot_topic_run]
  invoke_locked_run [OF configuration_call_run] invoke_locked_run [OF connection_call_run] list_trampoline_run

end

sublocale cpp_application \<subseteq> cpp: application env "cpp_app_callbacks env ccbs cbs"
  by unfold_locales
    (simp_all add: cpp_app_callbacks_def trampoline_defs cpp_runs topic_run iot_core_run connection_status_run
      configuration_update_run shadow_name_run submit_run)

context cpp_application
begin

lemmas cpp_callbacks = cpp.sdk.callbacks_axioms

lemma cpp_packet:
  assumes "reachable (sdk_env (cpp_app_callbacks env ccbs cbs) env) s"
  obtains e s' where "data_ready_callback (sdk_env (cpp_app_callbacks env ccbs cbs) env) s = Some (e, s')" "ipc_inv s'"
  using cpp.packet_handled [OF assms] .

end

section \<open>Lemmas: messages on topics\<close>

definition topic_event :: "GgKV list \<Rightarrow> GgBuffer \<Rightarrow> GgObject \<Rightarrow> bool" where
  \<comment> \<open>an event for a topic, with a JSON message or the base64 text of a binary one\<close>
  "topic_event event topic payload \<longleftrightarrow>
     (\<exists>text bs. binary_event event topic text \<and> mem text = b64_enc bs \<and> length bs \<le> UINT16_MAX \<and> payload = OBJ_BUF (text\<lparr>mem := bs\<rparr>)) \<or>
     (map_val event (bytes_of ''binaryMessage'') = None \<and>
      (\<exists>q msg r cx. map_val event (bytes_of ''jsonMessage'') = Some (OBJ_MAP q msg) \<and>
         map_val msg (bytes_of ''message'') = Some payload \<and> gg_obj_type payload = GG_TYPE_MAP \<and>
         map_val msg (bytes_of ''context'') = Some (OBJ_MAP r cx) \<and> map_val cx (bytes_of ''topic'') = Some (OBJ_BUF topic)))"

lemma topic_event_handled:
  assumes "topic_event event topic payload" "mem smt = bytes_of ''aws.greengrass#SubscriptionResponseMessage''"
  shows "subscribe_to_topic_resp_handler cbs callback aux_ctx h smt (p, event) s = (GG_ERR_OK, topic_cb cbs callback aux_ctx topic payload h s)"
proof -
  have smt: "subscribe_to_topic_resp_handler cbs callback aux_ctx h smt (p, event) s =
      subscribe_to_topic_resp_handler cbs callback aux_ctx h (GG_STR ''aws.greengrass#SubscriptionResponseMessage'') (p, event) s"
    using assms(2) by (simp add: subscribe_to_topic_resp_handler_def gg_buffer_eq_def)
  show ?thesis using assms(1) unfolding topic_event_def smt
  proof (elim disjE exE conjE)
    fix b bs assume "binary_event event topic b" "mem b = b64_enc bs" "length bs \<le> UINT16_MAX" "payload = OBJ_BUF (b\<lparr>mem := bs\<rparr>)"
    then show "subscribe_to_topic_resp_handler cbs callback aux_ctx h (GG_STR ''aws.greengrass#SubscriptionResponseMessage'') (p, event) s =
      (GG_ERR_OK, topic_cb cbs callback aux_ctx topic payload h s)" by (simp add: binary_event_handled)
  next
    fix q msg r cx assume "map_val event (bytes_of ''binaryMessage'') = None" "map_val event (bytes_of ''jsonMessage'') = Some (OBJ_MAP q msg)"
      "map_val msg (bytes_of ''message'') = Some payload" "gg_obj_type payload = GG_TYPE_MAP"
      "map_val msg (bytes_of ''context'') = Some (OBJ_MAP r cx)" "map_val cx (bytes_of ''topic'') = Some (OBJ_BUF topic)"
    then show "subscribe_to_topic_resp_handler cbs callback aux_ctx h (GG_STR ''aws.greengrass#SubscriptionResponseMessage'') (p, event) s =
      (GG_ERR_OK, topic_cb cbs callback aux_ctx topic payload h s)"
      by (simp add: subscribe_to_topic_resp_handler_def gg_buffer_eq_def Let_def)
  qed
qed

lemma topic_trampoline [simp]:
  "sub_cb (sdk_env (cpp_app_callbacks env ccbs cbs) env) (sub_handler_at Subscribe_to_topic_resp) (cpp_function_at Topic_callback) this h smt m s =
   subscribe_to_topic_resp_handler (cpp_app_callbacks env ccbs cbs) (cpp_function_at Topic_callback) this h smt m s"
  "topic_cb (cpp_app_callbacks env ccbs cbs) (cpp_function_at Topic_callback) this topic payload h s =
   invoke_locked env (local_topic_call ccbs this topic payload) h s"
  by (simp_all add: sdk_env_def cpp_app_callbacks_def subscribe_to_topic_callback_def del: sub_handler_at.simps)

lemma user_run_generation:
  "user_run env s s' \<Longrightarrow> ipc_inv s \<Longrightarrow> i < GG_IPC_MAX_STREAMS \<Longrightarrow> stream_state_id s' ! i \<noteq> 0 \<Longrightarrow>
   stream_state_generation s' ! i = stream_state_generation s ! i"
proof (induction rule: user_run.induct)
  case (user_close s s' h)
  have inv: "ipc_inv s'" using user_run_facts [OF user_close(1)] user_close.prems by blast
  note tab = table_okD [OF ipc_invD(1) [OF inv]]
  show ?case
    by (rule close_subscription_cases [of env h s'])
      (use user_close tab in \<open>auto simp: nth_list_update split: if_splits\<close>)
qed simp_all

lemma handle_slot:
  fixes s s' :: "'w ipc"
  assumes "get_current_handle s i = get_current_handle s' j" "i < GG_IPC_MAX_STREAMS" "j < GG_IPC_MAX_STREAMS"
  shows "i = j"
proof -
  have l: "(ucast (get_current_handle t k AND 0xFFFF) :: u16) = of_nat (Suc k)" for t :: "'w ipc" and k
    using handle_low [of "stream_state_generation t ! k" "Suc k"] by (simp add: get_current_handle_def add.commute)
  have eq: "(of_nat (Suc i) :: u16) = of_nat (Suc j)" unfolding l [symmetric, of i s] l [symmetric, of j s'] assms(1) ..
  have "unat ((of_nat (Suc i) :: u16) - 1) = i" "unat ((of_nat (Suc j) :: u16) - 1) = j"
    using assms(2,3) of_nat_Suc_16 unfolding GG_IPC_MAX_STREAMS_def by blast+
  then show ?thesis unfolding eq by blast
qed

lemma handle_nonzero: "i < GG_IPC_MAX_STREAMS \<Longrightarrow> get_current_handle s i \<noteq> 0"
proof
  assume "i < GG_IPC_MAX_STREAMS" "get_current_handle s i = 0"
  then have "validate_handle s 0 = Inr i" using validate_handle_iff by metis
  moreover have "unat (- 1 :: u16) = 65535" by (simp add: unsigned_minus_1_eq_mask mask_eq_exp_minus_1)
  ultimately show False by (simp add: validate_handle_def Let_def GG_IPC_MAX_STREAMS_def split: if_splits)
qed

lemma close_own_handle:
  assumes inv: "ipc_inv s" and run: "user_run env s s1" and i: "i < GG_IPC_MAX_STREAMS" "stream_state_id s ! i = ident" "ident \<noteq> 0"
  shows "streams (closing (ggipc_close_subscription env) (get_current_handle s i) s1) = (streams s1)(ident := None)"
proof -
  have s1: "ipc_inv s1" "closes_only s s1" using user_run_facts [OF run inv] by simp_all
  let ?h = "get_current_handle s i"
  have slot: "j = i" if "validate_handle s1 ?h = Inr j" for j
    using that handle_slot [of s i s1 j] i(1) unfolding validate_handle_iff by simp
  show ?thesis
  proof (cases "stream_state_id s1 ! i = 0")
    case True
    then have gone: "streams s1 = (streams s1)(ident := None)"
      using streams_clear [OF s1(1) i(1)] streams_drop(1) [OF inv s1 i] by (simp add: fun_upd_idem)
    have "streams (close_stream env i s1) = streams s1" using streams_close_stream [OF s1(1) i(1)] True by (simp add: fun_upd_idem)
    then have "streams (closing (ggipc_close_subscription env) ?h s1) = streams s1"
      using slot by (auto simp: closing_def ggipc_close_subscription_def split: sum.split)
    then show ?thesis using gone by simp
  next
    case False
    then have "validate_handle s1 ?h = Inr i"
      using user_run_generation [OF run inv i(1)] i(1) by (simp add: validate_handle_iff get_current_handle_def)
    moreover have "?h \<noteq> 0" using handle_nonzero [OF i(1)] .
    ultimately have "closing (ggipc_close_subscription env) ?h s1 = close_stream env i s1"
      by (simp add: closing_def ggipc_close_subscription_def)
    then show ?thesis using streams_drop(2) [OF inv s1 i] by simp
  qed
qed

section \<open>An application that records and throws\<close>

definition throwing_callbacks :: "recorder cpp_callbacks" where
  \<comment> \<open>messages with an empty topic and updates with an empty name make the callback throw; a lost connection closes the subscription\<close>
  "throwing_callbacks =
     \<lparr>local_topic_call = (\<lambda>_ topic payload h s. (if mem topic = [] then Some Other_thrown else None, h, record_event (Topic_message topic payload h) s)),
      iot_topic_call = (\<lambda>_ topic payload h s. (if mem topic = [] then Some (Std_exception ''topic'') else None, h, record_event (Iot_core_message topic payload h) s)),
      configuration_update_call = (\<lambda>_ name path h s. (if mem name = [] then Some Other_thrown else None, h, record_event (Configuration_update name path h) s)),
      connection_status_call = (\<lambda>_ up h s.
        (None, if up then (h, record_event (Connection_status up h) s)
               else Subscription_close (ggipc_close_subscription recorder_env) h (record_event (Connection_status up h) s))),
      shadow_name_call = (\<lambda>_ _ name s. (None, record_event (Shadow_name name) s))\<rparr>"

interpretation throwing: cpp_application recorder_env recorder_callbacks throwing_callbacks
  by unfold_locales
    (auto simp: throwing_callbacks_def Subscription_close_eq user_done record_event_run split: if_splits
      intro: user_run_closing record_event_run)

section \<open>Lemmas: subscriptions\<close>

lemma subscribe_alone_handle: "subscribe_alone env p rq s = Some (GG_ERR_OK, raw, s') \<Longrightarrow> raw \<noteq> None"
  by (auto simp: subscribe_alone_def ggipc_subscribe_send_def Let_def split: if_splits option.splits prod.splits)

lemma store_handle_eq:
  assumes "subscribe_alone env p rq s = Some (ret, raw, s')"
  shows "store_handle env (Some h) (subscribe_alone env p rq s) =
    Some (if ret = GG_ERR_OK then (ret, raw, closing (ggipc_close_subscription env) h s') else (ret, Some h, s'))"
  using assms subscribe_alone_handle [of env p rq s raw s'] by (auto simp: store_handle_def subscription_members)

section \<open>Lemmas: reading scalars\<close>

definition answered :: "'u app_callbacks \<Rightarrow> GgMap \<Rightarrow> 'u blocking_call" where
  \<comment> \<open>a server that answers every request with the same response\<close>
  "answered cbs response rq s =
     Some (case Option.bind (rq_result_callback rq) result_handler_of of
             Some g \<Rightarrow> sdk_result cbs g (rq_response_ctx rq) response s
           | None \<Rightarrow> (GG_ERR_OK, s))"

fun scalar :: "GgObject \<Rightarrow> bool" where
  "scalar (OBJ_BUF _) \<longleftrightarrow> False"
| "scalar (OBJ_LIST _ _) \<longleftrightarrow> False"
| "scalar (OBJ_MAP _ _) \<longleftrightarrow> False"
| "scalar _ \<longleftrightarrow> True"

lemma claim_scalar: "scalar v \<Longrightarrow> gg_arena_claim_obj v ar = Some (GG_ERR_OK, ar, v)"
  by (cases v) (simp_all add: gg_arena_claim_obj_def claim_obj.gg_obj_visit_eq)

lemma resp_value_scalar:
  assumes "path \<noteq> []" "map_val resp (bytes_of ''value'') = Some (OBJ_MAP q [(k, v)])" "mem k = mem (last path)" "scalar v"
  shows "ggipc_get_config_resp_value (p, resp) (final_key_of path) = Inr v"
  using assms by (cases v) (simp_all add: ggipc_get_config_resp_value_def final_key_of_def last_conv_nth gg_buffer_eq_def)

section \<open>Properties\<close>

text \<open>
  The stream table survives a C++ application, as long as its callbacks only work on their own memory and close
  subscriptions; the callbacks of subscriptions may throw. (An exception of a callback that lists shadows sets
  \<open>app_fault\<close>, and the state is then none of the program.)
\<close>
theorem cpp_packet_handled:
  assumes "cpp_application env cbs ccbs" "reachable (sdk_env (cpp_app_callbacks env ccbs cbs) env) s"
  shows "\<exists>e s'. data_ready_callback (sdk_env (cpp_app_callbacks env ccbs cbs) env) s = Some (e, s') \<and> ipc_inv s'"
  using cpp_application.cpp_packet [OF assms] by metis

text \<open>
  C10: A message on a topic reaches the C++ callback. In every reachable state, if the stream of a packet belongs to
  a subscription made by \<open>Client::subscribe_to_topic\<close> with the callback object \<open>this\<close>, and the packet is an application
  message that declares and holds a JSON event for a topic, with a JSON or a base64 payload, then the
  packet is handled without error and the callback object is invoked with the topic, the
  payload and the handle of the very stream. If it returns, or has moved the subscription away,
  the streams are as the callback left them, without this one if the packet terminates it. If
  it throws while the subscription is still its own, this stream is closed, and no other. (States with
  \<open>app_fault\<close> set stand for no state of the program.)
\<close>
theorem cpp_topic_message_delivered:
  assumes app: "cpp_application env cbs ccbs" and s: "reachable (sdk_env (cpp_app_callbacks env ccbs cbs) env) s"
    and own: "streams s (ch_stream_id ch) = Some (Subscribed (sub_handler_at Subscribe_to_topic_resp) (cpp_function_at Topic_callback) this)"
    and ch: "ch_message_type ch = EVENTSTREAM_APPLICATION_MESSAGE"
    and hdrs: "sub_headers_loop (msg_headers msg) (GG_STR []) (GG_STR []) = Some (Inr (smt, ct))"
      "mem smt = bytes_of ''aws.greengrass#SubscriptionResponseMessage''" "mem ct = bytes_of ''application/json''"
    and event: "json_payload env (world s) msg = Inr (OBJ_MAP q event)" "topic_event event topic payload"
  shows "\<exists>i s'. get_stream_index_from_id s (ch_stream_id ch) = Some i \<and>
    dispatch_message (sdk_env (cpp_app_callbacks env ccbs cbs) env) ch msg s = Some (GG_ERR_OK, s') \<and> ipc_inv s' \<and>
    (\<forall>e locked s1. local_topic_call ccbs this topic payload (get_current_handle s i) s = (e, locked, s1) \<longrightarrow>
       (e = None \<or> locked = 0 \<longrightarrow> streams s' =
          (if ch_message_flags ch AND EVENTSTREAM_TERMINATE_STREAM \<noteq> 0 then (streams s1)(ch_stream_id ch := None) else streams s1)) \<and>
       (e \<noteq> None \<and> locked = get_current_handle s i \<longrightarrow> streams s' = (streams s1)(ch_stream_id ch := None)))"
proof -
  let ?E = "sdk_env (cpp_app_callbacks env ccbs cbs) env" and ?id = "ch_stream_id ch"
  have cb: "callbacks ?E" by (rule cpp_application.cpp_callbacks [OF app])
  have inv: "ipc_inv s" by (rule reachable_inv [OF cb s])
  obtain i where i: "get_stream_index_from_id s ?id = Some i" "owner_of (stream_state_handler s ! i) =
      Subscribed (sub_handler_at Subscribe_to_topic_resp) (cpp_function_at Topic_callback) this"
    using own by (auto simp: streams_def)
  then have i': "i < GG_IPC_MAX_STREAMS" "stream_state_id s ! i = ?id" "0 < sint ?id" using get_stream_index_Some by blast+
  have h: "sh_fn (stream_state_handler s ! i) = Some (sub_handler_at Subscribe_to_topic_resp)"
    "sh_ctx (stream_state_handler s ! i) = cpp_function_at Topic_callback" "sh_aux_ctx (stream_state_handler s ! i) = this"
    using i(2) by (auto simp: owner_of_def split: option.splits)
  let ?h = "get_current_handle s i"
  obtain e locked s1 where call: "local_topic_call ccbs this topic payload ?h s = (e, locked, s1)" by (metis prod_cases3)
  let ?s2 = "invoke_locked env (local_topic_call ccbs this topic payload) ?h s"
  have sub: "call_sub_callback ?E ?h (sub_handler_at Subscribe_to_topic_resp) (cpp_function_at Topic_callback) this ch msg s = Some (GG_ERR_OK, ?s2)"
    using ch hdrs event(1) topic_event_handled [OF event(2), of smt "cpp_app_callbacks env ccbs cbs" "cpp_function_at Topic_callback" this ?h q s]
    by (simp add: call_sub_callback_def gg_buffer_eq_def topic_trampoline del: sub_handler_at.simps cpp_function_at.simps)
  have run1: "user_run env s s1" using cpp_application.local_topic_run [OF app call] .
  have run2: "user_run env s ?s2" by (rule cpp_application.invoke_locked_run [OF app]) (rule cpp_application.local_topic_run [OF app])
  have nz: "?id \<noteq> 0" using i'(3) by auto
  have s1: "ipc_inv s1" "closes_only s s1" and s2: "ipc_inv ?s2" "closes_only s ?s2" using user_run_facts run1 run2 inv by blast+
  let ?s' = "if ch_message_flags ch AND EVENTSTREAM_TERMINATE_STREAM \<noteq> 0 then clear_stream_index i ?s2 else ?s2"
  have d: "dispatch_message ?E ch msg s = Some (GG_ERR_OK, ?s')"
    using i(1) i'(3) h sub by (simp add: dispatch_message_def Let_def del: sub_handler_at.simps cpp_function_at.simps)
  have "e \<noteq> None \<and> locked = ?h \<longrightarrow> streams ?s2 = (streams s1)(?id := None)"
    using call close_own_handle [OF inv run1 i'(1,2) nz] by (auto simp: invoke_locked_eq)
  moreover have "e = None \<or> locked = 0 \<longrightarrow> ?s2 = s1" using call by (cases e) (auto simp: invoke_locked_eq closing_def)
  ultimately show ?thesis using i(1) d call s2(1) streams_drop(1) [OF inv s2 i'(1,2) nz] ipc_inv_clear [OF s2(1) i'(1)]
    by (intro exI [of _ i] exI [of _ ?s']) auto
qed

lemma string_header_next:
  assumes "header_ok (string_header name v)" "c \<noteq> 0" "mem b = header_bytes (string_header name v) @ T"
  obtains h str b' where "eventstream_header_next \<lparr>iter_count = c, iter_rest = b\<rparr> = Some (Inr (h, \<lparr>iter_count = c - 1, iter_rest = b'\<rparr>))"
    "mem (hdr_name h) = bytes_of name" "hdr_value h = EVENTSTREAM_STRING str" "mem str = mem v" "mem b' = T"
proof -
  obtain h where h: "eventstream_header_next \<lparr>iter_count = c, iter_rest = b\<rparr> =
      Some (Inr (h, \<lparr>iter_count = c - 1, iter_rest = gg_buffer_rest b (length (header_bytes (string_header name v)))\<rparr>))"
    "header_view h = header_view (string_header name v)" using header_next_bytes [OF assms] by blast
  moreover have "mem (gg_buffer_rest b (length (header_bytes (string_header name v)))) = T"
    using assms(3) by (simp add: gg_buffer_rest_def gg_buffer_substr_def)
  ultimately show thesis using that by (cases "hdr_value h") (auto simp: header_view_def string_header_def)
qed

definition cpp_env :: "recorder app ipc_env" where
  "cpp_env = sdk_env (cpp_app_callbacks recorder_env throwing_callbacks recorder_callbacks) recorder_env"

lemma cpp_env_callbacks: "callbacks cpp_env"
  unfolding cpp_env_def by (rule throwing.cpp_callbacks)

lemma recorder_receives:
  obtains msg where "eventsteam_get_packet (sock_reader cpp_env c)
      (w\<lparr>app_state := (server_packet type flags stream @ rest, es)\<rparr>) (recv_buffer cpp_env) = (Inr msg, w\<lparr>app_state := (rest, es)\<rparr>)"
    "eventstream_get_common_headers msg = Some (Inr \<lparr>ch_stream_id = stream, ch_message_type = type, ch_message_flags = flags\<rparr>)"
proof -
  obtain msg where m: "eventsteam_get_packet stream_reader (server_packet type flags stream @ rest) (recv_buffer script_env) = (Inr msg, rest)"
    "eventstream_get_common_headers msg = Some (Inr \<lparr>ch_stream_id = stream, ch_message_type = type, ch_message_flags = flags\<rparr>)"
    by (rule get_server_packet)
  have "recv_buffer cpp_env = recv_buffer script_env" by (simp add: cpp_env_def) (simp add: recv_buffer_def recorder_env_def script_env_def)
  moreover have "sock_reader cpp_env c = lift_reader stream_reader" using recorder_socket by (simp add: cpp_env_def socket_is_def)
  ultimately show thesis using that [of msg] m lifted_packet [of stream_reader "w\<lparr>app_state := (server_packet type flags stream @ rest, es)\<rparr>"]
    by (simp add: set_net_def)
qed

definition topic_subscription :: ipc_request where
  \<comment> \<open>the request of \<open>Client_subscribe_to_topic\<close> for the callback object at address 9\<close>
  "topic_subscription = sub_request ''aws.greengrass#SubscribeToTopic'' ''aws.greengrass#SubscribeToTopicRequest''
     (GG_MAP [gg_kv (GG_STR ''topic'') (gg_obj_buf (GG_STR ''a''))]) Subscribe_to_topic_error Subscribe_to_topic_resp
     (cpp_function_at Topic_callback) 9"

lemma topic_subscription_fits:
  "request_fits env (request_headers topic_subscription n) (gg_obj_map (rq_params topic_subscription)) [123, 34, 116, 111, 112, 105, 99, 34, 58, 34, 97, 34, 125]"
  by (simp add: request_fits_def topic_subscription_def sub_request_def GG_MAP_def request_headers_def int32_header_def string_header_def
      header_ok_def value_ok_def gg_obj_map_def gg_obj_buf_def gg_kv_literal header_bytes_def value_bytes_def GG_IPC_MAX_MSG_LEN_def
      GG_MAX_OBJECT_DEPTH_def GG_MAX_OBJECT_SUBOBJECTS_def UINT16_MAX_def json_string_def json_char_def)

lemma cpp_subscribed:
  obtains s where "reachable cpp_env s"
    "streams s 1 = Some (Subscribed (sub_handler_at Subscribe_to_topic_resp) (cpp_function_at Topic_callback) 9)"
proof -
  let ?resp = "server_packet EVENTSTREAM_APPLICATION_MESSAGE 0 1" and ?W = "\<lambda>bs. \<lparr>app_ctx = (\<lambda>_. None), app_fault = False, app_state = (bs, [] :: app_event list)\<rparr>"
  let ?s0 = "ipc_init (?W (server_packet EVENTSTREAM_CONNECT_ACK EVENTSTREAM_CONNECTION_ACCEPTED 0 @ ?resp @ []))"
  define s1 where "s1 = ?s0\<lparr>world := ?W (?resp @ []), ipc_conn_fd := 3\<rparr>"
  note cb = cpp_env_callbacks and env = cpp_env_def sdk_env_def recorder_env_def
  obtain msg where m: "eventsteam_get_packet (sock_reader cpp_env 3) (world ?s0) (recv_buffer cpp_env) = (Inr msg, ?W (?resp @ []))"
    "eventstream_get_common_headers msg = Some (Inr \<lparr>ch_stream_id = 0, ch_message_type = EVENTSTREAM_CONNECT_ACK,
       ch_message_flags = EVENTSTREAM_CONNECTION_ACCEPTED\<rparr>)"
    using recorder_receives [where w = "?W []" and c = 3 and es = "[]" and stream = 0 and rest = "?resp @ []"] by (auto simp: ipc_init_def)
  have "ggipc_connect_with_payload cpp_env (GG_STR ''p'') (OBJ_MAP 0 []) ?s0 = Some (GG_ERR_OK, s1)" unfolding s1_def
    by (rule connect_accepted [OF _ connect_fits _ m]) (simp_all add: env)
  then have 1: "reachable cpp_env s1" by (rule reach_step [OF cb reach_init step_connect]) simp
  note inv1 = reachable_inv [OF cb 1]
  have f1: "connected s1" "stream_state_id s1 ! 0 = 0" "calls s1 = (\<lambda>_. None)" "next_stream_id s1 = 1" "world s1 = ?W (?resp @ [])"
    "0 < GG_IPC_MAX_STREAMS" "ipc_conn_fd s1 = 3"
    by (simp_all add: s1_def ipc_init_def connected_def GG_IPC_MAX_STREAMS_def)
  let ?rq = topic_subscription
  define s2 where "s2 = call_opened ?rq 100 0 s1"
  have "ggipc_subscribe_send cpp_env False ?rq 100 s1 = (None, Some (get_current_handle s2 0), s2\<lparr>world := world s1\<rparr>)"
    using subscribe_send_opened [OF ipc_invD(1) [OF inv1] f1(1,6,2) _ topic_subscription_fits, of cpp_env GG_ERR_OK "world s1" 100]
    by (simp add: s2_def env)
  moreover have "s2\<lparr>world := world s1\<rparr> = s2" by (simp add: s2_def call_opened_def put_slot_def)
  ultimately have "ipc_step cpp_env (Send 100 (Some (get_current_handle s2 0)) None) s1 s2" using step_send f1(3) by metis
  then have 2: "reachable cpp_env s2" by (rule reach_step [OF cb 1]) (simp add: f1)
  have st2: "streams s2 1 = Some (Waiting 100)" unfolding s2_def using streams_opened(1) [OF inv1 f1(6,2)] f1(3,4) by simp
  obtain e s3 where d: "data_ready_callback cpp_env s2 = Some (e, s3)" by (rule callbacks.data_ready_inv [OF cb reachable_inv [OF cb 2]])
  then have 3: "reachable cpp_env s3" using reach_step [OF cb 2 step_receive] by simp
  obtain msg2 where "eventsteam_get_packet (sock_reader cpp_env 3) (world s2) (recv_buffer cpp_env) = (Inr msg2, ?W [])"
    "eventstream_get_common_headers msg2 = Some (Inr \<lparr>ch_stream_id = 1, ch_message_type = EVENTSTREAM_APPLICATION_MESSAGE, ch_message_flags = 0\<rparr>)"
    using recorder_receives [where w = "?W []" and c = 3 and es = "[]" and stream = 1 and rest = "[]"] f1(5) by (auto simp: s2_def call_opened_def)
  then have "received cpp_env s2 =
      (Some (\<lparr>ch_stream_id = 1, ch_message_type = EVENTSTREAM_APPLICATION_MESSAGE, ch_message_flags = 0\<rparr>, msg2), ?W [])"
    using f1(7) by (simp add: received_def s2_def call_opened_def)
  then have "streams s3 1 = Some (Subscribed (sub_handler_at Subscribe_to_topic_resp) (cpp_function_at Topic_callback) 9)"
    using callbacks.data_ready_streams [OF cb reachable_inv [OF cb 2] d] st2
    by (simp add: map_received_def Let_def pass_response_to_user_callback_def es_consts s2_def call_opened_def call_frame_def
        topic_subscription_def sub_request_def)
  then show thesis using that 3 by blast
qed

definition event_headers :: "EventStreamHeader list" where
  "event_headers =
     [string_header ''service-model-type'' (GG_STR ''aws.greengrass#SubscriptionResponseMessage''),
      string_header '':content-type'' (GG_STR ''application/json'')]"

definition event_object :: "GgKV list" where
  \<comment> \<open>a message on the topic with the empty name\<close>
  "event_object = [(GG_STR ''jsonMessage'', OBJ_MAP 0 [(GG_STR ''context'', OBJ_MAP 0 [(GG_STR ''topic'', OBJ_BUF (GG_STR []))]),
     (GG_STR ''message'', OBJ_MAP 0 [])])]"

definition event_text :: "byte list" where
  "event_text = [123, 34, 106, 115, 111, 110, 77, 101, 115, 115, 97, 103, 101, 34, 58, 123, 34, 99, 111, 110, 116, 101, 120, 116, 34, 58, 123, 34, 116, 111, 112, 105, 99, 34, 58, 34, 34, 125, 44, 34, 109, 101, 115, 115, 97, 103, 101, 34, 58, 123, 125, 125, 125]"

definition event_message :: EventStreamMessage where
  "event_message =
     (let b = \<lparr>data = 1000, mem = concat (map header_bytes event_headers) @ event_text\<rparr>
      in \<lparr>msg_headers = \<lparr>iter_count = 2, iter_rest = b\<rparr>, msg_payload = gg_buffer_rest b (length (concat (map header_bytes event_headers)))\<rparr>)"

lemma event_headers_read:
  obtains smt ct where "sub_headers_loop (msg_headers event_message) (GG_STR []) (GG_STR []) = Some (Inr (smt, ct))"
    "mem smt = bytes_of ''aws.greengrass#SubscriptionResponseMessage''" "mem ct = bytes_of ''application/json''"
proof -
  let ?smt = "string_header ''service-model-type'' (GG_STR ''aws.greengrass#SubscriptionResponseMessage'')"
    and ?ct = "string_header '':content-type'' (GG_STR ''application/json'')"
  let ?b = "\<lparr>data = 1000, mem = concat (map header_bytes event_headers) @ event_text\<rparr>"
  have ok: "header_ok ?smt" "header_ok ?ct" by (simp_all add: string_header_def header_ok_def value_ok_def)
  have c: "(2 :: u32) \<noteq> 0" "(1 :: u32) \<noteq> 0" by simp_all
  have b: "mem ?b = header_bytes ?smt @ header_bytes ?ct @ event_text" by (simp add: event_headers_def)
  obtain h1 v1 b1 where 1: "eventstream_header_next \<lparr>iter_count = 2, iter_rest = ?b\<rparr> = Some (Inr (h1, \<lparr>iter_count = 2 - 1, iter_rest = b1\<rparr>))"
    "mem (hdr_name h1) = bytes_of ''service-model-type''" "hdr_value h1 = EVENTSTREAM_STRING v1"
    "mem v1 = mem (GG_STR ''aws.greengrass#SubscriptionResponseMessage'')" "mem b1 = header_bytes ?ct @ event_text"
    by (rule string_header_next [OF ok(1) c(1) b])
  obtain h2 v2 b2 where 2: "eventstream_header_next \<lparr>iter_count = 1, iter_rest = b1\<rparr> = Some (Inr (h2, \<lparr>iter_count = 1 - 1, iter_rest = b2\<rparr>))"
    "mem (hdr_name h2) = bytes_of '':content-type''" "hdr_value h2 = EVENTSTREAM_STRING v2" "mem v2 = mem (GG_STR ''application/json'')"
    by (rule string_header_next [OF ok(2) c(2) 1(5)])
  have 3: "eventstream_header_next \<lparr>iter_count = 0, iter_rest = b2\<rparr> = Some (Inl GG_ERR_RANGE)" by (simp add: eventstream_header_next_def)
  have "sub_headers_loop \<lparr>iter_count = 2, iter_rest = ?b\<rparr> (GG_STR []) (GG_STR []) = Some (Inr (v1, v2))"
    using 1 2 3 by (subst sub_headers_loop.simps, simp add: gg_buffer_eq_def, subst sub_headers_loop.simps, simp add: gg_buffer_eq_def,
        subst sub_headers_loop.simps, simp)
  then show thesis using that [of v1 v2] 1(4) 2(4) by (simp add: event_message_def Let_def)
qed

lemma event_decoded:
  obtains q event topic m where "json_payload recorder_env w event_message = Inr (OBJ_MAP q event)"
    "topic_event event topic (OBJ_MAP m [])" "mem topic = []"
proof -
  have t: "json_text (\<lambda>_. None) (OBJ_MAP 0 event_object) = Some event_text"
    by (simp add: event_object_def event_text_def json_string_def)
      (simp add: json_char_def)
  have p: "portable (\<lambda>_. None) (strtod_of recorder_env) (OBJ_MAP 0 event_object)"
    by (simp add: event_object_def UINT16_MAX_def gg_map_is_canonical_iff utf8_len_def)
  have d: "decoded_size (OBJ_MAP 0 event_object) \<le> GG_MAX_OBJECT_SUBOBJECTS * sizeof_GgObject"
    by (simp add: event_object_def GG_MAX_OBJECT_SUBOBJECTS_def sizeof_GgObject_def sizeof_GgKV_def sizeof_ptr_def)
  have v: "view (memory_of (iter_rest (msg_headers event_message)) around) (span_of (msg_payload event_message)) = msg_payload event_message" for around
    by (simp add: event_message_def Let_def gg_buffer_rest_def substr_in_memory)
  have l: "mem (msg_payload event_message) = event_text" by (simp add: event_message_def Let_def gg_buffer_rest_def gg_buffer_substr_def)
  obtain q event where e: "json_payload recorder_env w event_message = Inr (OBJ_MAP q event)" "same_obj (OBJ_MAP 0 event_object) (OBJ_MAP q event)"
    using json_payload_text [OF v l p t d, of w] by blast
  obtain topic m where "topic_event event topic (OBJ_MAP m [])" "mem topic = []"
    using e(2) by (auto simp: event_object_def list_all2_Cons1 same_obj_simps topic_event_def simp del: same_obj.simps)
  then show thesis using that e(1) by blast
qed

theorem cpp_topic_message_delivered_witness:
  \<comment> \<open>the callback throws, since the topic is empty, and the subscription is closed\<close>
  "\<exists>s s'. reachable cpp_env s \<and> streams s 1 = Some (Subscribed (sub_handler_at Subscribe_to_topic_resp) (cpp_function_at Topic_callback) 9) \<and>
     dispatch_message cpp_env \<lparr>ch_stream_id = 1, ch_message_type = EVENTSTREAM_APPLICATION_MESSAGE, ch_message_flags = 0\<rparr> event_message s =
       Some (GG_ERR_OK, s') \<and> streams s' 1 = None"
proof -
  let ?ch = "\<lparr>ch_stream_id = 1, ch_message_type = EVENTSTREAM_APPLICATION_MESSAGE, ch_message_flags = 0\<rparr> :: EventStreamCommonHeaders"
  obtain s where s: "reachable cpp_env s" "streams s 1 = Some (Subscribed (sub_handler_at Subscribe_to_topic_resp) (cpp_function_at Topic_callback) 9)"
    by (rule cpp_subscribed)
  obtain smt ct where h: "sub_headers_loop (msg_headers event_message) (GG_STR []) (GG_STR []) = Some (Inr (smt, ct))"
    "mem smt = bytes_of ''aws.greengrass#SubscriptionResponseMessage''" "mem ct = bytes_of ''application/json''"
    by (rule event_headers_read)
  obtain q event topic m where e: "json_payload recorder_env (world s) event_message = Inr (OBJ_MAP q event)"
    "topic_event event topic (OBJ_MAP m [])" "mem topic = []" by (rule event_decoded)
  have own: "streams s (ch_stream_id ?ch) = Some (Subscribed (sub_handler_at Subscribe_to_topic_resp) (cpp_function_at Topic_callback) 9)"
    using s(2) by simp
  have ty: "ch_message_type ?ch = EVENTSTREAM_APPLICATION_MESSAGE" by simp
  show ?thesis
    using cpp_topic_message_delivered [OF throwing.cpp_application_axioms s(1) [unfolded cpp_env_def] own ty h e(1,2), folded cpp_env_def]
  proof (elim exE conjE)
    fix i s'
    assume d: "dispatch_message cpp_env ?ch event_message s = Some (GG_ERR_OK, s')" and
      r: "\<forall>e locked s1. local_topic_call throwing_callbacks 9 topic (OBJ_MAP m []) (get_current_handle s i) s = (e, locked, s1) \<longrightarrow>
         (e = None \<or> locked = 0 \<longrightarrow> streams s' =
            (if ch_message_flags ?ch AND EVENTSTREAM_TERMINATE_STREAM \<noteq> 0 then (streams s1)(ch_stream_id ?ch := None) else streams s1)) \<and>
         (e \<noteq> None \<and> locked = get_current_handle s i \<longrightarrow> streams s' = (streams s1)(ch_stream_id ?ch := None))"
    have "local_topic_call throwing_callbacks 9 topic (OBJ_MAP m []) (get_current_handle s i) s =
        (Some Other_thrown, get_current_handle s i, record_event (Topic_message topic (OBJ_MAP m []) (get_current_handle s i)) s)"
      using e(3) by (simp add: throwing_callbacks_def)
    from r [rule_format, OF this] have "streams s' 1 = None" by simp
    then show ?thesis using s d by blast
  qed
qed

text \<open>
  C11: What a C++ callback leaves behind. If it returns, the subscription stays as the callback left it. If it
  throws while the \<open>Subscription\<close> it was given is still its own, the subscription is closed: its slot is
  free, its handle is no longer valid, and the table is well-formed. If it has moved the \<open>Subscription\<close>
  elsewhere before it throws, nothing is closed.
\<close>
theorem cpp_exception_closes:
  assumes "call h s = (e, locked, s')" "ipc_inv s'" "i < GG_IPC_MAX_STREAMS" "h = get_current_handle s' i"
  shows "(e = None \<or> locked = 0 \<longrightarrow> invoke_locked env call h s = s') \<and>
    (e \<noteq> None \<and> locked = h \<longrightarrow>
       (let t = invoke_locked env call h s
        in ipc_inv t \<and> stream_state_id t ! i = 0 \<and> stream_state_handler t ! i = no_handler \<and>
           validate_handle t h = Inl GG_ERR_NOENTRY))"
proof -
  note tab = table_okD [OF ipc_invD(1) [OF assms(2)]]
  have h: "validate_handle s' h = Inr i" using assms(3,4) validate_handle_iff by blast
  have "h \<noteq> 0" using handle_nonzero [OF assms(3)] assms(4) by simp
  then have c: "closing (ggipc_close_subscription env) h s' = close_stream env i s'"
    using h by (simp add: closing_def ggipc_close_subscription_def)
  have "validate_handle (close_stream env i s') h = Inl GG_ERR_NOENTRY"
    using h tab(2) assms(3) by (auto simp: validate_handle_def Let_def split: if_splits)
  then have "e \<noteq> None \<and> locked = h \<Longrightarrow> ?thesis"
    using c assms(1,3) \<open>h \<noteq> 0\<close> tab ipc_inv_close_stream [OF assms(2,3), of env]
    by (auto simp: invoke_locked_eq Let_def)
  moreover have "\<not> (e \<noteq> None \<and> locked = h) \<Longrightarrow> ?thesis"
    using assms(1) by (cases e) (auto simp: invoke_locked_eq closing_def)
  ultimately show ?thesis by blast
qed

theorem cpp_exception_closes_witness:
  "let t = invoke_locked recorder_env (local_topic_call throwing_callbacks 9 (GG_STR '''') OBJ_NULL) 1
             (ipc_init \<lparr>app_ctx = (\<lambda>_. None), app_fault = False, app_state = ([], [])\<rparr>)
   in ipc_inv t \<and> stream_state_id t ! 0 = 0 \<and> validate_handle t 1 = Inl GG_ERR_NOENTRY"
proof -
  let ?s = "ipc_init \<lparr>app_ctx = (\<lambda>_. None), app_fault = False, app_state = ([], [])\<rparr>" and ?e = "record_event (Topic_message (GG_STR '''') OBJ_NULL 1)"
  have 1: "local_topic_call throwing_callbacks 9 (GG_STR '''') OBJ_NULL 1 ?s = (Some Other_thrown, 1, ?e ?s)"
    by (simp add: throwing_callbacks_def)
  have 2: "ipc_inv (?e ?s)" using user_run_facts [OF record_event_run ipc_inv_init] by blast
  have 3: "1 = get_current_handle (?e ?s) 0" by (simp add: get_current_handle_def record_event_def ipc_init_def GG_IPC_MAX_STREAMS_def)
  have "0 < GG_IPC_MAX_STREAMS" by (simp add: GG_IPC_MAX_STREAMS_def)
  from cpp_exception_closes [where call = "local_topic_call throwing_callbacks 9 (GG_STR '''') OBJ_NULL", OF 1 2 this 3] show ?thesis by (simp add: Let_def)
qed

text \<open>
  C40: Time stamps of configuration updates. A time before the epoch is refused with \<open>GG_ERR_UNSUPPORTED\<close> and
  without a call, also within the first second before it. Any other time is passed
  on exactly, in seconds and nanoseconds less than a second.
\<close>
theorem Client_update_config_timestamp:
  "(t < 0 \<longrightarrow> Client_update_config to_f call path v t s = Some (GG_ERR_UNSUPPORTED, s)) \<and>
   (t \<ge> 0 \<longrightarrow> (\<exists>sec nsec. to_timespec t = (sec, nsec) \<and> 0 \<le> sec \<and> 0 \<le> nsec \<and> nsec < 1000000000 \<and>
      sec * 1000000000 + nsec = t \<and>
      Client_update_config to_f call path v t s = ggipc_update_config to_f call path (Some (sec, nsec)) v s))"
proof -
  have "t < 0 \<Longrightarrow> Client_update_config to_f call path v t s = Some (GG_ERR_UNSUPPORTED, s)"
    using to_timespec_neg [of t] by (cases "to_timespec t") (simp add: Client_update_config_def ggipc_update_config_def)
  then show ?thesis using to_timespec_nonneg [of t]
    by (auto simp: Client_update_config_def pos_imp_zdiv_nonneg_iff)
qed

theorem Client_update_config_timestamp_witness:
  "Client_update_config (\<lambda>_ _. 0) (\<lambda>_ s. Some (GG_ERR_OK, s)) [] OBJ_NULL (- 1) (ipc_init \<lparr>app_ctx = (\<lambda>_. None), app_fault = False, app_state = ()\<rparr>) =
     Some (GG_ERR_UNSUPPORTED, ipc_init \<lparr>app_ctx = (\<lambda>_. None), app_fault = False, app_state = ()\<rparr>) \<and>
   (\<exists>sec nsec. to_timespec 1500000000 = (sec, nsec) \<and> sec * 1000000000 + nsec = 1500000000 \<and> nsec < 1000000000)"
  using Client_update_config_timestamp [of "- 1" "\<lambda>_ _. 0" "\<lambda>_ s. Some (GG_ERR_OK, s)" "[]" OBJ_NULL "ipc_init \<lparr>app_ctx = (\<lambda>_. None), app_fault = False, app_state = ()\<rparr>"]
    Client_update_config_timestamp [of 1500000000 "\<lambda>_ _. 0" "\<lambda>_ s. Some (GG_ERR_OK, s)" "[]" OBJ_NULL "ipc_init \<lparr>app_ctx = (\<lambda>_. None), app_fault = False, app_state = ()\<rparr>"]
  by auto

text \<open>
  Reading a scalar. With a server that answers with a scalar value under the last key of the path,
  the scalar overloads of \<open>get_config\<close> return it if it has the type asked for, and otherwise \<open>GG_ERR_INVALID\<close> without
  writing a value; the eleven bytes of memory they reserve suffice.
\<close>
theorem get_config_scalar_reads:
  assumes "length path < GG_MAX_OBJECT_DEPTH" "path \<noteq> []" "scalar v"
    and "map_val resp (bytes_of ''value'') = Some (OBJ_MAP q [(k, v)])" "mem k = mem (last path)"
  shows "get_config_scalar t (answered cbs (p, resp)) c mem_at path component_name s =
    Some (if get_if t v = None then GG_ERR_INVALID else GG_ERR_OK, get_if t v, put_ctx c None s)"
proof -
  have "ggipc_get_config_resp_value (p, resp) (final_key_of path) = Inr v"
    by (rule resp_value_scalar [OF assms(2,4,5,3)])
  then show ?thesis using assms(1)
    by (auto simp: get_config_scalar_def Client_get_config_def ggipc_get_config_def ggipc_get_config_common_def key_path_list_eq
        answered_def call_request_def Let_def copy_config_obj_def claim_scalar [OF assms(3)] put_ctx_def
        simp del: result_handler_at.simps split: option.split)
qed

theorem get_config_scalar_reads_witness:
  "get_config_scalar T_bool (answered recorder_callbacks (0, [(GG_STR ''value'', OBJ_MAP 9 [(GG_STR ''a'', OBJ_BOOLEAN True)])])) 50 60 [GG_STR ''a''] None
     (ipc_init \<lparr>app_ctx = (\<lambda>_. None), app_fault = False, app_state = ([], [])\<rparr>) =
   Some (GG_ERR_OK, Some (Val_bool True), put_ctx 50 None (ipc_init \<lparr>app_ctx = (\<lambda>_. None), app_fault = False, app_state = ([], [])\<rparr>)) \<and>
   get_config_scalar T_double (answered recorder_callbacks (0, [(GG_STR ''value'', OBJ_MAP 9 [(GG_STR ''a'', OBJ_I64 5)])])) 50 60 [GG_STR ''a''] None
     (ipc_init \<lparr>app_ctx = (\<lambda>_. None), app_fault = False, app_state = ([], [])\<rparr>) =
   Some (GG_ERR_INVALID, None, put_ctx 50 None (ipc_init \<lparr>app_ctx = (\<lambda>_. None), app_fault = False, app_state = ([], [])\<rparr>))"
proof -
  have m: "map_val [(GG_STR ''value'', OBJ_MAP 9 [(GG_STR ''a'', v)])] (bytes_of ''value'') = Some (OBJ_MAP 9 [(GG_STR ''a'', v)])" for v
    by simp
  have l: "length [GG_STR ''a''] < GG_MAX_OBJECT_DEPTH" "[GG_STR ''a''] \<noteq> []" "mem (GG_STR ''a'') = mem (last [GG_STR ''a''])"
    by (simp_all add: GG_MAX_OBJECT_DEPTH_def)
  show ?thesis
    using get_config_scalar_reads [OF l(1,2) _ m l(3), of "OBJ_BOOLEAN True" T_bool recorder_callbacks 0 50 60 None]
      get_config_scalar_reads [OF l(1,2) _ m l(3), of "OBJ_I64 5" T_double recorder_callbacks 0 50 60 None]
    by (simp add: get_if_def)
qed

end
