(* ===== verification/Log_Trail.thy ===== *)
theory Log_Trail
  imports Runtime EventStream Json_Encode
begin

text \<open>
  Log lines and trace contexts (\<open>src/log.c\<close>, \<open>src/log-trail.c\<close>, \<open>priv_include/gg/log-trail.h\<close>), as
  compiled with \<open>GG_LOG_TRAIL_ENABLED\<close>.

  A thread's trace context is three 16-bit ids in thread-local variables: the record \<open>trail\<close>. It
  travels to another process as the headers T, S and P of an event-stream packet. The
  functions that draw a random id work on the state \<open>'w\<close> of the system; log lines are given as
  the bytes written, with the output of \<open>vfprintf\<close> for the message as an argument.
\<close>

section \<open>Context of a thread\<close>

record trail =
  tls_trace_id :: u16
  tls_span_id :: u16
  tls_parent_span_id :: u16

definition gg_log_set_trail :: "u16 \<Rightarrow> u16 \<Rightarrow> u16 \<Rightarrow> trail" where
  "gg_log_set_trail trace_id span_id parent_span_id =
     \<lparr>tls_trace_id = trace_id, tls_span_id = span_id, tls_parent_span_id = parent_span_id\<rparr>"

definition gg_log_clear_trail :: trail where
  "gg_log_clear_trail = \<lparr>tls_trace_id = 0, tls_span_id = 0, tls_parent_span_id = 0\<rparr>"

definition gg_log_current_trail_id :: "trail \<Rightarrow> u16" where
  "gg_log_current_trail_id tls = tls_trace_id tls"

definition gg_log_get_trail :: "trail \<Rightarrow> u16 \<times> u16 \<times> u16" where
  "gg_log_get_trail tls = (tls_trace_id tls, tls_span_id tls, tls_parent_span_id tls)"

section \<open>Log lines\<close>

definition log_prefix :: "bool \<Rightarrow> u32 \<Rightarrow> string" where
  \<comment> \<open>the flag is \<open>enable_systemd_log_prefix\<close>; the levels are 1 (error) to 5 (trace)\<close>
  "log_prefix enable level =
     (if \<not> enable then ''''
      else if level = 1 then ''<3>'' else if level = 2 then ''<4>'' else if level = 3 then ''<6>''
      else if level = 4 \<or> level = 5 then ''<7>'' else '''')"

definition level_c :: "u32 \<Rightarrow> char" where
  "level_c level =
     (if level = 1 then CHR ''E'' else if level = 2 then CHR ''W'' else if level = 3 then CHR ''I''
      else if level = 4 then CHR ''D'' else if level = 5 then CHR ''T'' else CHR ''?'')"

definition hex_digit :: "u16 \<Rightarrow> byte" where
  "hex_digit d = (if d < 10 then 48 + ucast d else 55 + ucast d)"

definition hex4 :: "u16 \<Rightarrow> byte list" where
  \<comment> \<open>\<open>%04X\<close>\<close>
  "hex4 v = map (\<lambda>i. hex_digit (drop_bit (4 * i) v AND 0xF)) [3, 2, 1, 0]"

definition format_int :: "int \<Rightarrow> byte list" where
  \<comment> \<open>\<open>%d\<close>\<close>
  "format_int v = (if v < 0 then [45] else []) @ nat_digits (nat \<bar>v\<bar>)"

definition gg_log :: "bool \<Rightarrow> trail \<Rightarrow> u32 \<Rightarrow> byte list \<Rightarrow> int \<Rightarrow> byte list \<Rightarrow> byte list \<Rightarrow> byte list" where
  \<comment> \<open>what is written to \<open>stderr\<close>, with \<open>log_mutex\<close> held\<close>
  "gg_log enable tls level file_name line tag message =
     (let start = bytes_of (log_prefix enable level) @ bytes_of [level_c level] @ bytes_of ''['' @ tag @ bytes_of ''] '' in
      (if tls_trace_id tls \<noteq> 0
       then start @ bytes_of ''['' @ hex4 (tls_trace_id tls) @ bytes_of '':'' @ hex4 (tls_span_id tls) @ bytes_of '':'' @
            (if tls_parent_span_id tls = 0 then bytes_of ''----'' else hex4 (tls_parent_span_id tls)) @ bytes_of '':'' @
            file_name @ bytes_of '':'' @ format_int line @ bytes_of ''] ''
       else start @ file_name @ bytes_of '':'' @ format_int line @ bytes_of '': '')
      @ message @ [10])"

section \<open>Traces\<close>

definition gen_nonzero_id :: "'w os \<Rightarrow> int \<Rightarrow> 'w \<Rightarrow> (u16 run \<times> 'w) option" where
  "gen_nonzero_id os random_fd w =
     (case gg_rand_fill os random_fd 2 w of
        None \<Rightarrow> None
      | Some (Exit status, w) \<Rightarrow> Some (Exit status, w)
      | Some (Done bs, w) \<Rightarrow> Some (Done (let ident = le_word bs in if ident = 0 then 1 else ident), w))"

definition gg_log_trail_root_begin :: "'w os \<Rightarrow> int \<Rightarrow> trail \<times> 'w \<Rightarrow> (unit run \<times> trail \<times> 'w) option" where
  \<comment> \<open>less the log line\<close>
  "gg_log_trail_root_begin os random_fd s =
     (case s of (tls, w) \<Rightarrow>
        if gg_log_current_trail_id tls \<noteq> 0 then Some (Done (), tls, w)
        else
     (case gen_nonzero_id os random_fd w of
        None \<Rightarrow> None
      | Some (Exit status, w) \<Rightarrow> Some (Exit status, tls, w)
      | Some (Done trace_id, w) \<Rightarrow>
     (case gen_nonzero_id os random_fd w of
        None \<Rightarrow> None
      | Some (Exit status, w) \<Rightarrow> Some (Exit status, tls, w)
      | Some (Done span_id, w) \<Rightarrow> Some (Done (), gg_log_set_trail trace_id span_id 0, w))))"

definition gg_log_trail_attach_headers :: "trail \<Rightarrow> nat \<Rightarrow> EventStreamHeader list" where
  \<comment> \<open>the headers stored; their number is returned\<close>
  "gg_log_trail_attach_headers tls headers_capacity =
     (case gg_log_get_trail tls of (t, s, p) \<Rightarrow>
        if t = 0 then []
        else if headers_capacity < 3 then []
        else [\<lparr>hdr_name = GG_STR ''T'', hdr_value = EVENTSTREAM_INT32 (ucast t)\<rparr>,
              \<lparr>hdr_name = GG_STR ''S'', hdr_value = EVENTSTREAM_INT32 (ucast s)\<rparr>,
              \<lparr>hdr_name = GG_STR ''P'', hdr_value = EVENTSTREAM_INT32 (ucast p)\<rparr>])"

function (sequential) extract_loop :: "EventStreamHeaderIter \<Rightarrow> u16 \<times> u16 \<times> bool \<Rightarrow> (u16 \<times> u16 \<times> bool) option" where
  \<comment> \<open>\<open>trace_id\<close>, \<open>caller_span\<close>, \<open>found_t\<close>\<close>
  "extract_loop it (trace_id, caller_span, found_t) =
     (case eventstream_header_next it of
        None \<Rightarrow> None
      | Some (Inl _) \<Rightarrow> Some (trace_id, caller_span, found_t)
      | Some (Inr (h, it')) \<Rightarrow>
          extract_loop it'
            (case hdr_value h of
               EVENTSTREAM_INT32 v \<Rightarrow>
                 if gg_buffer_eq (hdr_name h) (GG_STR ''T'') then (ucast v, caller_span, True)
                 else if gg_buffer_eq (hdr_name h) (GG_STR ''S'') then (trace_id, ucast v, found_t)
                 else (trace_id, caller_span, found_t)
             | EVENTSTREAM_STRING _ \<Rightarrow> (trace_id, caller_span, found_t)))"
  by pat_completeness auto

termination extract_loop
  by (relation "measure (\<lambda>(it, out). unat (iter_count it))") (auto dest!: header_next_count intro!: unat_dec)

definition gg_log_trail_extract_and_apply ::
  "'w os \<Rightarrow> int \<Rightarrow> EventStreamHeaderIter \<Rightarrow> trail \<times> 'w \<Rightarrow> (bool run \<times> trail \<times> 'w) option" where
  "gg_log_trail_extract_and_apply os random_fd headers s =
     (case s of (tls, w) \<Rightarrow>
     (case extract_loop headers (0, 0, False) of
        None \<Rightarrow> None
      | Some (trace_id, caller_span, found_t) \<Rightarrow>
          if \<not> found_t then Some (Done False, tls, w)
          else
     (case gen_nonzero_id os random_fd w of
        None \<Rightarrow> None
      | Some (Exit status, w) \<Rightarrow> Some (Exit status, tls, w)
      | Some (Done fresh_span, w) \<Rightarrow> Some (Done True, gg_log_set_trail trace_id fresh_span caller_span, w))))"

definition gg_log_trail_subspan_begin :: "'w os \<Rightarrow> int \<Rightarrow> trail \<times> 'w \<Rightarrow> (trail run \<times> trail \<times> 'w) option" where
  \<comment> \<open>the context saved and the new one; less the log line\<close>
  "gg_log_trail_subspan_begin os random_fd s =
     (case s of (saved, w) \<Rightarrow>
        if tls_trace_id saved = 0 then Some (Done saved, saved, w)
        else
     (case gen_nonzero_id os random_fd w of
        None \<Rightarrow> None
      | Some (Exit status, w) \<Rightarrow> Some (Exit status, saved, w)
      | Some (Done new_span_id, w) \<Rightarrow>
          Some (Done saved, gg_log_set_trail (tls_trace_id saved) new_span_id (tls_span_id saved), w)))"

definition gg_log_trail_subspan_end :: "trail \<Rightarrow> trail" where
  "gg_log_trail_subspan_end saved = gg_log_set_trail (tls_trace_id saved) (tls_span_id saved) (tls_parent_span_id saved)"

type_synonym 'w traced = "trail \<times> 'w \<Rightarrow> (unit run \<times> trail \<times> 'w) option"  \<comment> \<open>code that runs in a thread\<close>

definition subspan_scope :: "'w os \<Rightarrow> int \<Rightarrow> 'w traced \<Rightarrow> 'w traced" where
  \<comment> \<open>a block that starts with \<open>GG_LOG_TRAIL_SUBSPAN_SCOPE()\<close>\<close>
  "subspan_scope os random_fd body s =
     (case gg_log_trail_subspan_begin os random_fd s of
        None \<Rightarrow> None
      | Some (Exit status, s) \<Rightarrow> Some (Exit status, s)
      | Some (Done saved, s) \<Rightarrow>
          (case body s of
             None \<Rightarrow> None
           | Some (Exit status, s) \<Rightarrow> Some (Exit status, s)
           | Some (Done u, tls, w) \<Rightarrow> Some (Done u, gg_log_trail_subspan_end saved, w)))"

definition root_scope :: "'w os \<Rightarrow> int \<Rightarrow> 'w traced \<Rightarrow> 'w traced" where
  \<comment> \<open>a block that starts with \<open>GG_LOG_TRAIL_ROOT_SCOPE(...)\<close>\<close>
  "root_scope os random_fd body s =
     (case gg_log_trail_root_begin os random_fd (gg_log_clear_trail, snd s) of
        None \<Rightarrow> None
      | Some (Exit status, s) \<Rightarrow> Some (Exit status, s)
      | Some (Done _, s) \<Rightarrow>
          (case body s of
             None \<Rightarrow> None
           | Some (Exit status, s) \<Rightarrow> Some (Exit status, s)
           | Some (Done u, tls, w) \<Rightarrow> Some (Done u, gg_log_clear_trail, w)))"

definition inherit_scope :: "'w os \<Rightarrow> int \<Rightarrow> EventStreamHeaderIter \<Rightarrow> 'w traced \<Rightarrow> 'w traced" where
  \<comment> \<open>a block that starts with \<open>GG_LOG_TRAIL_INHERIT_SCOPE(headers)\<close>\<close>
  "inherit_scope os random_fd headers body s =
     (case gg_log_trail_extract_and_apply os random_fd headers (gg_log_clear_trail, snd s) of
        None \<Rightarrow> None
      | Some (Exit status, s) \<Rightarrow> Some (Exit status, s)
      | Some (Done _, s) \<Rightarrow>
          (case body s of
             None \<Rightarrow> None
           | Some (Exit status, s) \<Rightarrow> Some (Exit status, s)
           | Some (Done u, tls, w) \<Rightarrow> Some (Done u, gg_log_clear_trail, w)))"

section \<open>Lemmas\<close>

declare extract_loop.simps [simp del]

fun trail_of :: "EventStreamHeader list \<Rightarrow> u16 \<times> u16 \<times> bool \<Rightarrow> u16 \<times> u16 \<times> bool" where
  "trail_of [] out = out"
| "trail_of (h # hs) (trace_id, caller_span, found_t) =
     trail_of hs
       (case hdr_value h of
          EVENTSTREAM_INT32 v \<Rightarrow>
            if mem (hdr_name h) = bytes_of ''T'' then (ucast v, caller_span, True)
            else if mem (hdr_name h) = bytes_of ''S'' then (trace_id, ucast v, found_t)
            else (trace_id, caller_span, found_t)
        | EVENTSTREAM_STRING _ \<Rightarrow> (trace_id, caller_span, found_t))"

lemma extract_loop_list:
  "header_list n it = Some hs \<Longrightarrow> unat (iter_count it) = n \<Longrightarrow> extract_loop it out = Some (trail_of hs out)"
proof (induction n arbitrary: it hs out)
  case 0
  then have "eventstream_header_next it = Some (Inl GG_ERR_RANGE)"
    by (simp add: eventstream_header_next_def unat_eq_0)
  with 0 show ?case by (cases out) (simp add: extract_loop.simps)
next
  case (Suc n)
  then obtain h it' hs' where nx: "eventstream_header_next it = Some (Inr (h, it'))"
    and hs': "header_list n it' = Some hs'" "hs = h # hs'"
    by (auto split: option.splits sum.splits)
  have "unat (iter_count it') = n" using header_next_count [OF nx] Suc.prems(2) unat_pred by auto
  note ih = Suc.IH [OF hs'(1) this]
  show ?case
    by (cases out) (simp add: extract_loop.simps nx hs'(2) ih split: EventStreamHeaderValue.split)
qed

lemma trail_of_view: "map header_view hs = map header_view hs' \<Longrightarrow> trail_of hs out = trail_of hs' out"
proof (induction hs arbitrary: hs' out)
  case (Cons h hs)
  then obtain h' hs'' where h': "hs' = h' # hs''" "header_view h = header_view h'" "map header_view hs = map header_view hs''"
    by (cases hs') auto
  obtain a b c where o: "out = (a, b, c)" by (cases out)
  note ih = Cons.IH [OF h'(3)]
  from h'(2) show ?case unfolding h'(1) o
    by (cases "hdr_value h"; cases "hdr_value h'") (simp_all add: header_view_def ih)
qed simp

lemma trail_of_append: "trail_of (hs @ hs') out = trail_of hs' (trail_of hs out)"
  by (induction hs out rule: trail_of.induct) simp_all

lemma trail_of_other:
  assumes "\<forall>h \<in> set hs. mem (hdr_name h) \<notin> {bytes_of ''T'', bytes_of ''S''}"
  shows "trail_of hs out = out"
  using assms by (induction hs out rule: trail_of.induct) (auto split: EventStreamHeaderValue.splits)

lemma attach_headers_ok: "list_all header_ok (gg_log_trail_attach_headers tls n)"
  by (simp add: gg_log_trail_attach_headers_def gg_log_get_trail_def header_ok_def value_ok_def)

lemma ucast_16_32 [simp]: "ucast (ucast (v :: u16) :: u32) = v"
  by (rule bit_word_eqI) (simp add: bit_simps)

lemma trail_of_attach:
  "tls_trace_id tls \<noteq> 0 \<Longrightarrow> 3 \<le> n \<Longrightarrow>
   trail_of (gg_log_trail_attach_headers tls n) out = (tls_trace_id tls, tls_span_id tls, True)"
  by (cases out) (simp add: gg_log_trail_attach_headers_def gg_log_get_trail_def)

context runtime
begin

lemma gen_nonzero_id_total: obtains ident w' where "gen_nonzero_id os random_fd w = Some (Done ident, w')" "ident \<noteq> 0"
  using rand_fill_total [of 2 w] that by (auto simp: gen_nonzero_id_def Let_def split: if_splits)

lemma subspan_scope_runs:
  obtains new w' where
    "tls_trace_id new = tls_trace_id tls"
    "if tls_trace_id tls = 0 then new = tls else tls_span_id new \<noteq> 0 \<and> tls_parent_span_id new = tls_span_id tls"
    "subspan_scope os random_fd body (tls, w) =
      (case body (new, w') of Some (Done u, tls', w'') \<Rightarrow> Some (Done u, tls, w'') | r \<Rightarrow> r)"
proof -
  obtain ident w' where "gen_nonzero_id os random_fd w = Some (Done ident, w')" "ident \<noteq> 0" by (rule gen_nonzero_id_total)
  then show thesis
    using that [of tls w] that [of "gg_log_set_trail (tls_trace_id tls) ident (tls_span_id tls)" w']
    by (cases "tls_trace_id tls = 0")
       (simp_all add: subspan_scope_def gg_log_trail_subspan_begin_def gg_log_trail_subspan_end_def gg_log_set_trail_def
         split: option.splits run.splits)
qed

end

section \<open>Properties\<close>

text \<open>
  C36: A trace crosses a process boundary: if a thread with an active trace attaches its context to the
  other headers of a packet, then the receiver of the packet finds a context in the headers of
  the message and continues the same trace, in a new span with a non-zero id whose parent is the
  span of the sender.
\<close>
theorem trail_propagates:
  assumes sys: "runtime os fds interrupts nanosleep clock random_fd"
    and active: "tls_trace_id sender \<noteq> 0" "3 \<le> n"
    and hs: "list_all header_ok hs" "\<forall>h \<in> set hs. mem (hdr_name h) \<notin> {bytes_of ''T'', bytes_of ''S''}"
    and H: "H = concat (map header_bytes (hs @ gg_log_trail_attach_headers sender n))"
    and size: "16 + length H + length P \<le> UINT32_MAX" "12 \<le> len buffer" "4 + length H + length P \<le> len buffer"
    and msg: "eventsteam_get_packet stream_reader (packet H P @ rest) buffer = (Inr msg, rest')"
  shows "\<exists>fresh w'. fresh \<noteq> 0 \<and>
    gg_log_trail_extract_and_apply os random_fd (msg_headers msg) (receiver, w) =
      Some (Done True, \<lparr>tls_trace_id = tls_trace_id sender, tls_span_id = fresh, tls_parent_span_id = tls_span_id sender\<rparr>, w')"
proof -
  let ?hs = "hs @ gg_log_trail_attach_headers sender n"
  have ok: "list_all header_ok ?hs" using hs(1) attach_headers_ok by simp
  obtain hs' where hs': "header_list (unat (iter_count (msg_headers msg))) (msg_headers msg) = Some hs'"
    "map header_view hs' = map header_view ?hs"
    using get_packet_stream [OF ok H size, of rest] msg by auto
  have "extract_loop (msg_headers msg) (0, 0, False) = Some (trail_of ?hs (0, 0, False))"
    using extract_loop_list [OF hs'(1) refl] trail_of_view [OF hs'(2)] by simp
  then have e: "extract_loop (msg_headers msg) (0, 0, False) = Some (tls_trace_id sender, tls_span_id sender, True)"
    using trail_of_other [OF hs(2)] trail_of_attach [OF active] by (simp add: trail_of_append)
  obtain fresh w' where "gen_nonzero_id os random_fd w = Some (Done fresh, w')" "fresh \<noteq> 0"
    by (rule runtime.gen_nonzero_id_total [OF sys])
  then show ?thesis by (simp add: gg_log_trail_extract_and_apply_def e gg_log_set_trail_def)
qed

section \<open>Concrete instances\<close>

definition traced_headers :: "byte list" where
  "traced_headers = concat (map header_bytes (gg_log_trail_attach_headers (gg_log_set_trail 0xA34F 0x34BD 0) 3))"

theorem trail_propagates_witness:
  "\<exists>msg fresh w'. eventsteam_get_packet stream_reader (packet traced_headers []) \<lparr>data = 0, mem = replicate 100 0\<rparr> = (Inr msg, []) \<and>
    gg_log_trail_extract_and_apply memory_runtime 5 (msg_headers msg) (gg_log_clear_trail, memory_start) =
      Some (Done True, gg_log_set_trail 0xA34F fresh 0x34BD, w')"
proof -
  let ?tls = "gg_log_set_trail 0xA34F 0x34BD 0"
  have l: "length traced_headers = 21"
    by (simp add: traced_headers_def gg_log_trail_attach_headers_def gg_log_get_trail_def gg_log_set_trail_def header_bytes_def value_bytes_def)
  have H: "traced_headers = concat (map header_bytes ([] @ gg_log_trail_attach_headers ?tls 3))" by (simp add: traced_headers_def)
  obtain msg where m: "eventsteam_get_packet stream_reader (packet traced_headers [] @ []) \<lparr>data = 0, mem = replicate 100 0\<rparr> = (Inr msg, [])"
    using get_packet_stream [OF _ H, of "[]" "\<lparr>data = 0, mem = replicate 100 0\<rparr>" "[]"] attach_headers_ok l
    by (auto simp: UINT32_MAX_def)
  then show ?thesis
    using trail_propagates [OF memory_clock.runtime_axioms _ _ _ _ H _ _ _ m, of 5 gg_log_clear_trail memory_start] l
    by (auto simp: gg_log_set_trail_def UINT32_MAX_def)
qed

end
