(* ===== verification/Log_Config.thy ===== *)
theory Log_Config
  imports Log_Trail
begin

text \<open>
  The start of logging (\<open>configure_logging\<close> of \<open>src/log.c\<close>), the log macros (\<open>priv_include/gg/log.h\<close>), and the
  allocator interface (\<open>src/alloc.c\<close>, \<open>priv_include/gg/alloc.h\<close>), whose functions are found through a table.

  Lemmas: the journal is recognised exactly when the variable names the device and the inode of the standard
  error stream; memory is requested and given back only through the functions of the table.
\<close>

section \<open>Logging\<close>

definition is_space :: "byte \<Rightarrow> bool" where
  "is_space c \<longleftrightarrow> c = 32 \<or> 9 \<le> c \<and> c \<le> 13"

definition strtoul :: "byte list \<Rightarrow> u64 \<times> byte list" where
  \<comment> \<open>\<open>strtoul\<close> of the C library in base 10, with 64-bit \<open>unsigned long\<close>: the value, and the text \<open>*endptr\<close>
     points to. A value that is too large gives \<open>ULONG_MAX\<close>; a minus sign negates the value; without a digit nothing is consumed\<close>
  "strtoul s =
     (let t = dropWhile is_space s;
          neg = (t \<noteq> [] \<and> hd t = chr CHR ''-'');
          u = (if t \<noteq> [] \<and> (hd t = chr CHR ''-'' \<or> hd t = chr CHR ''+'') then tl t else t);
          ds = takeWhile is_digit u
      in if ds = [] then (0, s)
         else (if dec_value ds > 2 ^ 64 - 1 then - 1 else if neg then - of_int (dec_value ds) else of_int (dec_value ds),
               dropWhile is_digit u))"

definition configure_logging :: "(string \<Rightarrow> byte list option) \<Rightarrow> (u64 \<times> u64) option \<Rightarrow> bool" where
  \<comment> \<open>the value of \<open>enable_systemd_log_prefix\<close>. The arguments are \<open>getenv\<close>, and device and inode of
     the standard error stream, \<open>None\<close> if \<open>fstat\<close> fails\<close>
  "configure_logging getenv stderr_stat =
     (case getenv ''JOURNAL_STREAM'' of
        None \<Rightarrow> False
      | Some journal_stream \<Rightarrow>
     (case stderr_stat of
        None \<Rightarrow> False
      | Some (st_dev, st_ino) \<Rightarrow>
     (case strtoul journal_stream of (journal_dev, endptr) \<Rightarrow>
        if endptr = [] \<or> hd endptr \<noteq> chr CHR '':'' then False
        else (case strtoul (tl endptr) of (journal_ino, _) \<Rightarrow> st_dev = journal_dev \<and> st_ino = journal_ino))))"

definition GG_LOG :: "u32 \<Rightarrow> bool \<Rightarrow> trail \<Rightarrow> u32 \<Rightarrow> byte list \<Rightarrow> int \<Rightarrow> byte list \<Rightarrow> byte list \<Rightarrow> byte list" where
  \<comment> \<open>the macros \<open>GG_LOGE\<close> to \<open>GG_LOGT\<close>: a line is written if the level is at most \<open>GG_LOG_LEVEL\<close>, the first argument\<close>
  "GG_LOG log_level enable tls level file_name line tag message =
     (if level \<le> log_level then gg_log enable tls level file_name line tag message else [])"

section \<open>Allocators\<close>

record 'w GgAllocVtable =
  ALLOC :: "(ptr \<Rightarrow> nat \<Rightarrow> nat \<Rightarrow> 'w \<Rightarrow> ptr \<times> 'w) option"
  FREE :: "(ptr \<Rightarrow> ptr \<Rightarrow> 'w \<Rightarrow> 'w) option"

record 'w GgAlloc =
  VTABLE :: "'w GgAllocVtable option"
  alloc_ctx :: ptr

definition gg_alloc :: "'w GgAlloc \<Rightarrow> nat \<Rightarrow> nat \<Rightarrow> 'w \<Rightarrow> ptr \<times> 'w" where
  \<comment> \<open>0 is NULL; less the log lines\<close>
  "gg_alloc alloc size' alignment w =
     (case Option.bind (VTABLE alloc) ALLOC of
        None \<Rightarrow> (0, w)
      | Some f \<Rightarrow> f (alloc_ctx alloc) size' alignment w)"

definition gg_free :: "'w GgAlloc \<Rightarrow> ptr \<Rightarrow> 'w \<Rightarrow> 'w" where
  "gg_free alloc p w =
     (if p = 0 then w
      else case Option.bind (VTABLE alloc) FREE of None \<Rightarrow> w | Some f \<Rightarrow> f (alloc_ctx alloc) p w)"

definition GG_ALLOCN :: "'w GgAlloc \<Rightarrow> nat \<Rightarrow> nat \<Rightarrow> nat \<Rightarrow> 'w \<Rightarrow> ptr \<times> 'w" where
  \<comment> \<open>\<open>n\<close> units of a type of the given size and alignment; the product wraps around\<close>
  "GG_ALLOCN alloc sizeof_type alignof_type n w = gg_alloc alloc (n * sizeof_type mod 2 ^ 64) alignof_type w"

definition GG_ALLOC :: "'w GgAlloc \<Rightarrow> nat \<Rightarrow> nat \<Rightarrow> 'w \<Rightarrow> ptr \<times> 'w" where
  "GG_ALLOC alloc sizeof_type alignof_type w = gg_alloc alloc sizeof_type alignof_type w"

section \<open>Lemmas\<close>

lemma digit_facts: "is_digit c \<Longrightarrow> \<not> is_space c \<and> c \<noteq> 45 \<and> c \<noteq> 43"
  unfolding is_digit_def is_space_def by unat_arith

lemma strtoul_digits:
  assumes "n < 2 ^ 64" "rest = [] \<or> \<not> is_digit (hd rest)"
  shows "strtoul (nat_digits n @ rest) = (of_nat n, rest)"
proof -
  obtain d ds where d: "nat_digits n = d # ds" using nat_digits_nonempty [of n] by (cases "nat_digits n") auto
  have v: "list_all is_digit (d # ds)" "dec_value (d # ds) = int n" using nat_digits_value [of n] d by simp_all
  have tw: "takeWhile is_digit ((d # ds) @ rest) = d # ds" "dropWhile is_digit ((d # ds) @ rest) = rest"
    using v(1) assms(2) by (auto simp: takeWhile_append dropWhile_append list_all_iff takeWhile_eq_Nil_iff dropWhile_eq_self_iff)
  have "\<not> is_space d" "d \<noteq> 45" "d \<noteq> 43" using v(1) digit_facts [of d] by simp_all
  then show ?thesis using tw v(2) assms(1) d by (auto simp: strtoul_def Let_def)
qed

lemma gg_free_NULL: "gg_free alloc 0 w = w"
  by (simp add: gg_free_def)

lemma GG_ALLOCN_exact: "n * sizeof_type < 2 ^ 64 \<Longrightarrow> GG_ALLOCN alloc sizeof_type alignof_type n w = gg_alloc alloc (n * sizeof_type) alignof_type w"
  by (simp add: GG_ALLOCN_def)

text \<open>
  The journal is recognised: with the variable as systemd writes it, device and inode in decimal, the prefixes
  are switched on exactly if the standard error stream is this file.
\<close>
theorem configure_logging_iff:
  fixes dev ino :: u64
  assumes "getenv ''JOURNAL_STREAM'' = Some (nat_digits (unat dev) @ bytes_of '':'' @ nat_digits (unat ino))"
  shows "configure_logging getenv stderr_stat \<longleftrightarrow> stderr_stat = Some (dev, ino)"
proof -
  have "unat (x :: u64) < 2 ^ 64" for x by (rule less_le_trans [OF unsigned_less]) simp
  then have "strtoul (nat_digits (unat dev) @ bytes_of '':'' @ nat_digits (unat ino)) = (dev, bytes_of '':'' @ nat_digits (unat ino))"
    "strtoul (nat_digits (unat ino)) = (ino, [])"
    using strtoul_digits [of "unat dev" "bytes_of '':'' @ nat_digits (unat ino)"] strtoul_digits [of "unat ino" "[]"]
    by (simp_all add: is_digit_def)
  then show ?thesis using assms by (auto simp: configure_logging_def split: option.split)
qed

text \<open>A text whose first number is not followed by a colon never switches the prefixes on.\<close>
lemma configure_logging_other:
  assumes "getenv ''JOURNAL_STREAM'' = Some journal" "snd (strtoul journal) = [] \<or> hd (snd (strtoul journal)) \<noteq> chr CHR '':''"
  shows "\<not> configure_logging getenv stderr_stat"
  using assms by (auto simp: configure_logging_def split: option.split prod.splits)

end
