(* ===== verification/Unit_Tests.thy ===== *)
theory Unit_Tests
  imports Object_Compare Object_Canonical Base64 Json_Encode Vector Crc32
begin

text \<open>
  The unit tests that stand beside the code (the functions under \<open>GG_SDK_TESTING\<close> in \<open>src/map_canonical.c\<close>,
  \<open>src/object_canonical.c\<close>, \<open>src/crc32.c\<close>, \<open>src/base64.c\<close> and \<open>src/json_encode.c\<close>), run on the model: a test is the conjunction of its
  assertions, and the lemmas show that each holds. The assertions of \<open>unity/gg_test/equal.c\<close> are modelled with them.

  Left out: the tests of the encoder and the decoder for doubles, which depend on \<open>snprintf\<close> and \<open>strtod\<close>, and the tests
  that need a running clock or a server.
\<close>

section \<open>Assertions\<close>

definition gg_test_assert_obj_equal :: "GgObject \<Rightarrow> GgObject \<Rightarrow> bool" where
  "gg_test_assert_obj_equal expected actual \<longleftrightarrow> gg_obj_type expected = gg_obj_type actual \<and> gg_obj_eq expected actual = Some True"

definition gg_test_assert_buf_equal_str :: "GgBuffer \<Rightarrow> GgBuffer \<Rightarrow> bool" where
  "gg_test_assert_buf_equal_str expected actual \<longleftrightarrow> len expected = len actual \<and> (len expected > 0 \<longrightarrow> mem expected = mem actual)"

definition gg_test_assert_kv_equal :: "GgKV \<Rightarrow> GgKV \<Rightarrow> bool" where
  "gg_test_assert_kv_equal expected actual \<longleftrightarrow>
     gg_test_assert_buf_equal_str (fst expected) (fst actual) \<and> gg_test_assert_obj_equal (snd expected) (snd actual)"

definition gg_test_assert_map_equal :: "GgKV list \<Rightarrow> GgKV list \<Rightarrow> bool" where
  "gg_test_assert_map_equal expected actual \<longleftrightarrow>
     length expected = length actual \<and> list_all2 gg_test_assert_kv_equal expected actual"

section \<open>Maps\<close>

definition test_buf_compare :: "string \<Rightarrow> string \<Rightarrow> bool" where
  "test_buf_compare lhs rhs = is_key_less (gg_kv (GG_STR lhs) OBJ_NULL) (gg_kv (GG_STR rhs) OBJ_NULL)"

definition kv_key_comparisons :: bool where
  "kv_key_comparisons \<longleftrightarrow>
     test_buf_compare ''a'' ''b'' \<and> test_buf_compare ''a'' ''c'' \<and> test_buf_compare ''b'' ''c'' \<and>
     test_buf_compare ''abc'' ''cab'' \<and> test_buf_compare ''abc'' ''abcd'' \<and> \<not> test_buf_compare ''cab'' ''abc'' \<and>
     \<not> test_buf_compare ''abc'' ''abc'' \<and> \<not> test_buf_compare ''abcd'' ''abc''"

abbreviation kv :: "string \<Rightarrow> GgObject \<Rightarrow> GgKV" where
  "kv k v \<equiv> gg_kv (GG_STR k) v"

definition map_is_canonical :: bool where
  "map_is_canonical \<longleftrightarrow>
     gg_map_is_canonical [] \<and> gg_map_is_canonical [kv ''a'' OBJ_NULL] \<and>
     gg_map_is_canonical [kv ''a'' OBJ_NULL, kv ''b'' OBJ_NULL, kv ''c'' OBJ_NULL] \<and>
     \<not> gg_map_is_canonical [kv ''a'' OBJ_NULL, kv ''a'' OBJ_NULL] \<and> \<not> gg_map_is_canonical [kv ''b'' OBJ_NULL, kv ''a'' OBJ_NULL]"

definition gg_test_prune_duplicates :: "GgKV list \<Rightarrow> GgKV list \<Rightarrow> bool" where
  "gg_test_prune_duplicates expected test_value =
     (case prune_duplicates (length test_value) test_value (length test_value) of
        (pairs, n) \<Rightarrow> gg_test_assert_map_equal expected (take n pairs))"

definition f64_one :: f64 where
  "f64_one = 0x3FF0000000000000"

definition map_prune_duplicates :: bool where
  "map_prune_duplicates \<longleftrightarrow>
     (let identity = [kv ''a'' (OBJ_I64 3), kv ''b'' (OBJ_F64 f64_one), kv ''c'' (OBJ_BOOLEAN False)];
          unstable = [kv ''a'' (OBJ_I64 3), kv ''c'' (OBJ_BOOLEAN False), kv ''b'' (OBJ_F64 f64_one)]
      in gg_test_prune_duplicates [] [] \<and>
         gg_test_prune_duplicates identity identity \<and>
         gg_test_prune_duplicates identity
           [kv ''a'' (OBJ_I64 3), kv ''b'' (OBJ_F64 f64_one), kv ''c'' (OBJ_BOOLEAN False), kv ''c'' (OBJ_I64 2)] \<and>
         gg_test_prune_duplicates identity
           [kv ''a'' (OBJ_I64 3), kv ''b'' (OBJ_F64 f64_one), kv ''c'' (OBJ_BOOLEAN False), kv ''b'' (OBJ_I64 2)] \<and>
         gg_test_prune_duplicates identity
           [kv ''a'' (OBJ_I64 3), kv ''b'' (OBJ_F64 f64_one), kv ''b'' (OBJ_I64 2), kv ''c'' (OBJ_BOOLEAN False)] \<and>
         gg_test_prune_duplicates unstable
           [kv ''a'' (OBJ_I64 3), kv ''a'' (OBJ_I64 2), kv ''b'' (OBJ_F64 f64_one), kv ''c'' (OBJ_BOOLEAN False)])"

definition gg_test_map_sort :: "GgKV list \<Rightarrow> GgKV list \<Rightarrow> bool" where
  "gg_test_map_sort expected actual = gg_test_assert_map_equal expected (sort_keys actual (length actual))"

definition map_sorting :: bool where
  "map_sorting \<longleftrightarrow>
     (let a = kv ''a'' (OBJ_I64 1); b = kv ''b'' (OBJ_F64 f64_one); c = kv ''c'' (OBJ_BOOLEAN False);
          a' = kv ''a'' (OBJ_F64 f64_one); b' = kv ''b'' (OBJ_BOOLEAN True); c' = kv ''c'' (OBJ_BUF (GG_STR ''''));
          sorted_stable = [a, a', b, b', c, c']
      in gg_test_map_sort [] [] \<and> gg_test_map_sort [a, b, c] [a, b, c] \<and> gg_test_map_sort [a, b, c] [b, a, c] \<and>
         gg_test_map_sort [a, b, c] [c, b, a] \<and> gg_test_map_sort [a, b, c] [a, c, b] \<and> gg_test_map_sort [a, b, c] [b, c, a] \<and>
         gg_test_map_sort sorted_stable [c, a, a', b, b', c'] \<and> gg_test_map_sort sorted_stable [a, b, b', c, c', a'] \<and>
         gg_test_map_sort sorted_stable [a, b, c, c', a', b'])"

definition gg_test_map_canonicalize :: "GgKV list \<Rightarrow> GgKV list \<Rightarrow> bool" where
  "gg_test_map_canonicalize expected actual = gg_test_assert_map_equal expected (gg_map_canonicalize_shallow actual)"

definition map_canonicalize :: bool where
  "map_canonicalize \<longleftrightarrow>
     (let a = kv ''a'' (OBJ_I64 1); b = kv ''b'' (OBJ_F64 f64_one); c = kv ''c'' (OBJ_BOOLEAN False);
          a' = kv ''a'' (OBJ_F64 f64_one); b' = kv ''b'' (OBJ_BOOLEAN True); c' = kv ''c'' (OBJ_BUF (GG_STR ''''))
      in gg_test_map_canonicalize [] [] \<and> gg_test_map_canonicalize [a, b, c] [c, a, b, c', a', b'])"

section \<open>Objects\<close>

definition obj_is_canonical_simple_types :: bool where
  "obj_is_canonical_simple_types \<longleftrightarrow>
     list_all (\<lambda>obj. gg_obj_is_canonical obj = Some True)
       [OBJ_NULL, OBJ_I64 1, OBJ_F64 f64_one, OBJ_BOOLEAN True, gg_obj_list (0, []), gg_obj_buf (GG_STR ''1.0'')]"

definition obj_is_canonical_too_long :: bool where
  "obj_is_canonical_too_long \<longleftrightarrow>
     gg_obj_is_canonical (gg_obj_map (0, map (\<lambda>i.
       gg_kv \<lparr>data = 0, mem = [chr CHR ''a'' + of_nat i div 16, chr CHR ''a'' + of_nat i mod 16]\<rparr> OBJ_NULL)
       [0..<GG_MAX_OBJECT_SUBOBJECTS div 2 + 1])) = Some False"

section \<open>Checksums\<close>

definition crc_check :: bool where
  "crc_check \<longleftrightarrow>
     gg_update_crc 0 (GG_STR '''') = 0 \<and> gg_update_crc 1234 (GG_STR '''') = 1234 \<and>
     gg_update_crc 0 (GG_STR ''teststring'') = 0x1F58F83E \<and> gg_update_crc 0 (GG_STR ''123456789'') = 0xCBF43926 \<and>
     gg_update_crc 0 (GG_STR ''The quick brown fox jumps over the lazy dog'') = 0x414FA339"

section \<open>Base64\<close>

definition base64_encode_test :: "string \<Rightarrow> string \<Rightarrow> bool" where
  "base64_encode_test encoded decoded =
     (case gg_base64_encode (GG_STR decoded) (Some (gg_arena_init \<lparr>data = 0, mem = replicate 1024 0\<rparr>)) of
        (Inr actual, _) \<Rightarrow> gg_test_assert_buf_equal_str (GG_STR encoded) actual
      | (Inl _, _) \<Rightarrow> False)"

definition base64_cases :: "(string \<times> string) list" where
  "base64_cases =
     [(''emVybyBwYWRkaW5n'', ''zero padding''), (''aGFzIHBhZGRpbmc='', ''has padding''), (''dGVzdHN0cmluZw=='', ''teststring''),
      (''MTIzNDU2Nzg5MA=='', ''1234567890''),
      (''VGhlIHF1aWNrIGJyb3duIGZveCBqdW1wcyBvdmVyIHRoZSBsYXp5IGRvZw=='', ''The quick brown fox jumps over the lazy dog'')]"

definition base64_encode_okay :: bool where
  "base64_encode_okay \<longleftrightarrow> list_all (\<lambda>(encoded, decoded). base64_encode_test encoded decoded) base64_cases"

definition base64_encode_nomem :: bool where
  \<comment> \<open>an error writes no result, so \<open>unmodified\<close> keeps its value\<close>
  "base64_encode_nomem \<longleftrightarrow> isl (fst (gg_base64_encode (GG_STR ''too big'') (Some (gg_arena_init \<lparr>data = 0, mem = replicate 8 0\<rparr>))))"

definition decode_apart :: "string \<Rightarrow> nat \<Rightarrow> bool \<times> byte list" where
  \<comment> \<open>\<open>gg_base64_decode\<close> into another array of \<open>n\<close> bytes\<close>
  "decode_apart encoded n =
     (case gg_base64_decode (bytes_of encoded @ replicate n 0) 0 (length encoded) (length encoded) n of
        (ok, m, k) \<Rightarrow> (ok, take k (drop (length encoded) m)))"

definition base64_decode_test :: "string \<Rightarrow> string \<Rightarrow> bool" where
  "base64_decode_test encoded decoded =
     (case decode_apart encoded 1024 of (ok, actual) \<Rightarrow> ok \<and> gg_test_assert_buf_equal_str (GG_STR decoded) \<lparr>data = 0, mem = actual\<rparr>)"

definition base64_decode_okay :: bool where
  "base64_decode_okay \<longleftrightarrow> list_all (\<lambda>(encoded, decoded). base64_decode_test encoded decoded) base64_cases"

definition base64_decode_nomem :: bool where
  "base64_decode_nomem \<longleftrightarrow> \<not> fst (decode_apart ''dGVzdHN0cmluZw=='' 8)"

definition base64_decode_invalid :: bool where
  "base64_decode_invalid \<longleftrightarrow>
     \<not> fst (decode_apart ''Not a base64'' 1024) \<and> \<not> fst (decode_apart ''aGFzIHBhZGRpbmc'' 1024) \<and>
     \<not> fst (decode_apart ''aGFzIHBhZG=Rpbmc'' 1024)"

section \<open>JSON\<close>

definition json_encodes :: "f64_format \<Rightarrow> GgObject \<Rightarrow> nat \<Rightarrow> byte list option" where
  \<comment> \<open>the contents of a byte vector of capacity \<open>n\<close> after a successful encoding into it\<close>
  "json_encodes fmt obj n =
     (case gg_json_encode fmt obj gg_byte_vec_writer (gg_byte_vec_init \<lparr>data = 0, mem = replicate n 0\<rparr>) of
        Some (ret, vec) \<Rightarrow> if ret = GG_ERR_OK then Some (mem (vec_buf vec)) else None
      | None \<Rightarrow> None)"

definition json_encode_null_ok :: "f64_format \<Rightarrow> bool" where
  "json_encode_null_ok fmt \<longleftrightarrow> json_encodes fmt OBJ_NULL 4 = Some (bytes_of ''null'')"

definition json_encode_bool_ok :: "f64_format \<Rightarrow> bool" where
  "json_encode_bool_ok fmt \<longleftrightarrow>
     json_encodes fmt (OBJ_BOOLEAN False) 5 = Some (bytes_of ''false'') \<and> json_encodes fmt (OBJ_BOOLEAN True) 4 = Some (bytes_of ''true'')"

definition json_encode_i64_ok :: "f64_format \<Rightarrow> bool" where
  "json_encode_i64_ok fmt \<longleftrightarrow> json_encodes fmt (OBJ_I64 123) 3 = Some (bytes_of ''123'')"

definition json_encode_buf_ok :: "f64_format \<Rightarrow> bool" where
  "json_encode_buf_ok fmt \<longleftrightarrow>
     json_encodes fmt (gg_obj_buf \<lparr>data = 0, mem = [0x1F]\<rparr>) 8 = Some ([34, 92] @ bytes_of ''u001F'' @ [34]) \<and>
     json_encodes fmt (gg_obj_buf (GG_STR ''Hello, world!'')) 15 = Some ([34] @ bytes_of ''Hello, world!'' @ [34]) \<and>
     json_encodes fmt (gg_obj_buf \<lparr>data = 0, mem = [34] @ bytes_of ''escape '' @ [92] @ bytes_of '' me '' @ [34] @ bytes_of '' '' @ [0]\<rparr>) 26 =
       Some ([34, 92, 34] @ bytes_of ''escape '' @ [92, 92] @ bytes_of '' me '' @ [92, 34] @ bytes_of '' '' @ [92] @ bytes_of ''u0000'' @ [34])"

definition json_encode_map_ok :: "f64_format \<Rightarrow> bool" where
  "json_encode_map_ok fmt \<longleftrightarrow>
     json_encodes fmt (gg_obj_map (0, [kv ''a'' (OBJ_I64 1), kv ''b'' (OBJ_I64 2), kv ''c'' (OBJ_I64 3)])) 20 =
       Some (bytes_of ''{'' @ [34] @ bytes_of ''a'' @ [34] @ bytes_of '':1,'' @ [34] @ bytes_of ''b'' @ [34] @ bytes_of '':2,'' @
         [34] @ bytes_of ''c'' @ [34] @ bytes_of '':3}'')"

definition json_encode_list_ok :: "f64_format \<Rightarrow> bool" where
  "json_encode_list_ok fmt \<longleftrightarrow>
     json_encodes fmt (gg_obj_list (0, [OBJ_I64 1, OBJ_I64 2, OBJ_I64 3])) 7 = Some (bytes_of ''[1,2,3]'')"

definition json_encode_map_too_large :: "f64_format \<Rightarrow> bool" where
  "json_encode_map_too_large fmt \<longleftrightarrow>
     (let n = GG_MAX_OBJECT_SUBOBJECTS div 2 + 1
      in map_option fst (gg_json_encode fmt (gg_obj_map (0, map (\<lambda>i. kv ''a'' (OBJ_I64 (of_nat i))) [0..<n])) gg_byte_vec_writer
           (gg_byte_vec_init \<lparr>data = 0, mem = replicate (16 * n) 0\<rparr>)) = Some GG_ERR_RANGE)"

definition json_encode_list_too_large :: "f64_format \<Rightarrow> bool" where
  "json_encode_list_too_large fmt \<longleftrightarrow>
     (let n = GG_MAX_OBJECT_SUBOBJECTS + 1
      in map_option fst (gg_json_encode fmt (gg_obj_list (0, replicate n OBJ_NULL)) gg_byte_vec_writer
           (gg_byte_vec_init \<lparr>data = 0, mem = replicate (16 * n) 0\<rparr>)) = Some GG_ERR_RANGE)"

fun nested_map :: "nat \<Rightarrow> GgObject" where
  \<comment> \<open>maps inside each other; the innermost one holds null\<close>
  "nested_map 0 = OBJ_NULL"
| "nested_map (Suc n) = gg_obj_map (0, [kv ''a'' (nested_map n)])"

fun nested_list :: "nat \<Rightarrow> GgObject" where
  "nested_list 0 = OBJ_NULL"
| "nested_list (Suc n) = gg_obj_list (0, [nested_list n])"

definition json_encode_map_too_nested :: "f64_format \<Rightarrow> bool" where
  "json_encode_map_too_nested fmt \<longleftrightarrow>
     map_option fst (gg_json_encode fmt (nested_map (GG_MAX_OBJECT_DEPTH + 1)) gg_byte_vec_writer
       (gg_byte_vec_init \<lparr>data = 0, mem = replicate (16 * (GG_MAX_OBJECT_DEPTH + 1)) 0\<rparr>)) = Some GG_ERR_RANGE"

definition json_encode_list_too_nested :: "f64_format \<Rightarrow> bool" where
  "json_encode_list_too_nested fmt \<longleftrightarrow>
     map_option fst (gg_json_encode fmt (nested_list GG_MAX_OBJECT_DEPTH) gg_byte_vec_writer
       (gg_byte_vec_init \<lparr>data = 0, mem = replicate (16 * (GG_MAX_OBJECT_DEPTH + 1)) 0\<rparr>)) = Some GG_ERR_RANGE"

section \<open>Lemmas\<close>

lemma kv_simp: "length k < 10 \<Longrightarrow> gg_kv (GG_STR k) v = (GG_STR k, v)"
  by (simp add: gg_kv_def UINT16_MAX_def)

lemma kv_key_comparisons_pass: kv_key_comparisons
  by (simp add: kv_key_comparisons_def test_buf_compare_def is_key_less_def kv_simp)

lemma map_is_canonical_pass: map_is_canonical
  by (simp add: map_is_canonical_def gg_map_is_canonical_def is_key_less_def kv_simp upt_rec)

lemma obj_equal_iff: "gg_test_assert_obj_equal e a \<longleftrightarrow> gg_obj_type e = gg_obj_type a \<and> same_obj e a \<and> obj_depth e \<le> GG_MAX_OBJECT_DEPTH \<and>
   obj_subobjects e \<le> GG_MAX_OBJECT_SUBOBJECTS"
  by (simp add: gg_test_assert_obj_equal_def gg_obj_eq_true)

lemma f64_one_eq [simp]: "f64_eq f64_one f64_one"
  by (simp add: f64_eq_def f64_one_def f64_is_nan_def)

lemmas assertions = gg_test_assert_map_equal_def gg_test_assert_kv_equal_def gg_test_assert_buf_equal_str_def obj_equal_iff GG_MAX_OBJECT_DEPTH_def

lemma map_prune_duplicates_pass: map_prune_duplicates
  by (simp add: map_prune_duplicates_def gg_test_prune_duplicates_def Let_def kv_simp gg_test_assert_map_equal_def
     gg_test_assert_kv_equal_def gg_test_assert_buf_equal_str_def obj_equal_iff f64_one_eq GG_MAX_OBJECT_DEPTH_def)

lemma map_sorting_pass: map_sorting
proof -
  define a b c a' b' c' where d: "a = kv ''a'' (OBJ_I64 1)" "b = kv ''b'' (OBJ_F64 f64_one)" "c = kv ''c'' (OBJ_BOOLEAN False)"
    "a' = kv ''a'' (OBJ_F64 f64_one)" "b' = kv ''b'' (OBJ_BOOLEAN True)" "c' = kv ''c'' (OBJ_BUF (GG_STR []))"
  have k: "mem (fst a) = [97]" "mem (fst a') = [97]" "mem (fst b) = [98]" "mem (fst b') = [98]" "mem (fst c) = [99]" "mem (fst c') = [99]"
    by (simp_all add: d kv_simp)
  have e: "gg_test_assert_kv_equal x x" if "x \<in> {a, a', b, b', c, c'}" for x
    using that by (auto simp: d kv_simp assertions)
  have l: "is_key_less x y \<longleftrightarrow> key_less_loop (mem (fst x)) (mem (fst y))" for x y by (simp add: is_key_less_def)
  have "map_sorting \<longleftrightarrow> gg_test_map_sort [] [] \<and> gg_test_map_sort [a, b, c] [a, b, c] \<and> gg_test_map_sort [a, b, c] [b, a, c] \<and>
         gg_test_map_sort [a, b, c] [c, b, a] \<and> gg_test_map_sort [a, b, c] [a, c, b] \<and> gg_test_map_sort [a, b, c] [b, c, a] \<and>
         gg_test_map_sort [a, a', b, b', c, c'] [c, a, a', b, b', c'] \<and> gg_test_map_sort [a, a', b, b', c, c'] [a, b, b', c, c', a'] \<and>
         gg_test_map_sort [a, a', b, b', c, c'] [a, b, c, c', a', b']"
    unfolding map_sorting_def Let_def d ..
  moreover have "gg_test_map_sort [] []" "gg_test_map_sort [a, b, c] [a, b, c]" "gg_test_map_sort [a, b, c] [b, a, c]"
      "gg_test_map_sort [a, b, c] [c, b, a]" "gg_test_map_sort [a, b, c] [a, c, b]" "gg_test_map_sort [a, b, c] [b, c, a]"
    by (simp_all add: gg_test_map_sort_def sort_keys_def upt_rec l k swap_pairs_def gg_test_assert_map_equal_def e)
  moreover have "gg_test_map_sort [a, a', b, b', c, c'] [c, a, a', b, b', c']"
    by (simp add: gg_test_map_sort_def sort_keys_def upt_rec l k swap_pairs_def gg_test_assert_map_equal_def e)
  moreover have "gg_test_map_sort [a, a', b, b', c, c'] [a, b, b', c, c', a']"
    by (simp add: gg_test_map_sort_def sort_keys_def upt_rec l k swap_pairs_def gg_test_assert_map_equal_def e)
  moreover have "gg_test_map_sort [a, a', b, b', c, c'] [a, b, c, c', a', b']"
    by (simp add: gg_test_map_sort_def sort_keys_def upt_rec l k swap_pairs_def gg_test_assert_map_equal_def e)
  ultimately show ?thesis by blast
qed

lemma map_canonicalize_pass: map_canonicalize
proof -
  define a b c a' b' c' where d: "a = kv ''a'' (OBJ_I64 1)" "b = kv ''b'' (OBJ_F64 f64_one)" "c = kv ''c'' (OBJ_BOOLEAN False)"
    "a' = kv ''a'' (OBJ_F64 f64_one)" "b' = kv ''b'' (OBJ_BOOLEAN True)" "c' = kv ''c'' (OBJ_BUF (GG_STR []))"
  have k: "mem (fst a) = [97]" "mem (fst a') = [97]" "mem (fst b) = [98]" "mem (fst b') = [98]" "mem (fst c) = [99]" "mem (fst c') = [99]"
    by (simp_all add: d kv_simp)
  have e: "gg_test_assert_kv_equal x x" if "x \<in> {a, b, c}" for x
    using that by (auto simp: d kv_simp assertions)
  have l: "is_key_less x y \<longleftrightarrow> key_less_loop (mem (fst x)) (mem (fst y))" for x y by (simp add: is_key_less_def)
  have g: "gg_map_get (x # xs) k = (if mem (fst x) = mem k then Some 0 else map_option Suc (gg_map_get xs k))" for x xs k
    by (cases x) (simp add: gg_buffer_eq_def split: option.split)
  have "map_canonicalize \<longleftrightarrow> gg_test_map_canonicalize [] [] \<and> gg_test_map_canonicalize [a, b, c] [c, a, b, c', a', b']"
    unfolding map_canonicalize_def Let_def d ..
  moreover have "gg_test_map_canonicalize [] []"
    by (simp add: gg_test_map_canonicalize_def gg_map_canonicalize_shallow_def sort_keys_def gg_test_assert_map_equal_def)
  moreover have "gg_test_map_canonicalize [a, b, c] [c, a, b, c', a', b']"
  proof -
    let ?x = "(GG_STR ''<pruned>'', OBJ_NULL)"
    have "prune_duplicates (length [c, a, b, c', a', b']) [c, a, b, c', a', b'] (length [c, a, b, c', a', b']) = ([c, a, b, ?x, ?x, ?x], 3)"
      by (simp add: k g Let_def numeral_3_eq_3)
    then have "gg_map_canonicalize_shallow [c, a, b, c', a', b'] = take 3 (sort_keys [c, a, b, ?x, ?x, ?x] 3)"
      by (simp only: gg_map_canonicalize_shallow_def prod.case)
    also have "\<dots> = [a, b, c]" by (simp add: sort_keys_def upt_rec l k swap_pairs_def)
    finally show ?thesis by (simp add: gg_test_map_canonicalize_def gg_test_assert_map_equal_def e)
  qed
  ultimately show ?thesis by blast
qed

lemma obj_is_canonical_pass: obj_is_canonical_simple_types obj_is_canonical_too_long
  by (simp_all add: obj_is_canonical_simple_types_def obj_is_canonical_too_long_def gg_obj_is_canonical_iff gg_obj_list_def gg_obj_buf_def gg_obj_map_def
    GG_MAX_OBJECT_DEPTH_def GG_MAX_OBJECT_SUBOBJECTS_def UINT16_MAX_def)


lemma crc_eval: "gg_update_crc crc buf = 0xFFFFFFFF XOR foldl crc_byte (0xFFFFFFFF XOR crc) (mem buf)"
proof -
  have m: "(0xFFFFFFFF :: u32) = - 1" by simp
  have "NOT (x :: u32) = 0xFFFFFFFF XOR x" for x unfolding m by (rule bit_eqI) (simp add: bit_simps)
  then show ?thesis by (simp add: gg_update_crc_def crc_step_byte [abs_def])
qed

lemma crc_bits_8: "(crc_bit ^^ 8) c = crc_bit (crc_bit (crc_bit (crc_bit (crc_bit (crc_bit (crc_bit (crc_bit c)))))))"
  by (simp add: numeral_eq_Suc)

lemmas crc_simps = crc_eval crc_byte_def crc_bits_8 crc_bit_def

lemma crc_check_pass: crc_check
proof -
  have "gg_update_crc 0 (GG_STR ''teststring'') = 0x1F58F83E" by (simp add: crc_simps)
  moreover have "gg_update_crc 0 (GG_STR ''123456789'') = 0xCBF43926" by (simp add: crc_simps)
  moreover have "gg_update_crc 0 (GG_STR ''The quick brown fox jumps over the lazy dog'') = 0x414FA339" by (simp add: crc_simps)
  ultimately show ?thesis by (simp add: crc_check_def gg_update_crc_def)
qed

lemmas b64_simps = encode_chunk_def encode_rest_def chunk_of_def b64_digit_def BASE64_TABLE_def

lemma base64_cases_enc: "list_all (\<lambda>(encoded, decoded). bytes_of encoded = b64_enc (bytes_of decoded)) base64_cases"
  by (simp add: base64_cases_def b64_simps)

lemma gg_base64_encode_room:
  "((length s + 2) div 3) * 4 \<le> n \<Longrightarrow> n < 2 ^ 32 \<Longrightarrow>
   gg_base64_encode (GG_STR s) (Some (gg_arena_init \<lparr>data = 0, mem = replicate n 0\<rparr>)) =
     (Inr \<lparr>data = 0, mem = b64_enc (bytes_of s)\<rparr>, Some \<lparr>arena_mem = 0, capacity = of_nat n, index = of_nat (((length s + 2) div 3) * 4)\<rparr>)"
  by (simp add: gg_base64_encode_def gg_arena_alloc_def gg_arena_init_def Let_def UINT32_MAX_def base64_bytes_enc unat_of_nat)

lemma decode_apart_eq:
  "case b64_dec (bytes_of e) of
     Some v \<Rightarrow> decode_apart e n = (if (length e div 4) * 3 \<le> n then (True, v) else (False, replicate n 0))
   | None \<Rightarrow> \<not> fst (decode_apart e n)"
proof -
  let ?m = "bytes_of e @ replicate n 0"
  have l: "length (bytes_of e) = length e" by (simp add: bytes_of_def)
  have b: "length v \<le> (length e div 4) * 3" if "b64_dec (bytes_of e) = Some v" for v
    using enc_dec [OF that] length_b64_enc [of v] l by simp
  show ?thesis using gg_base64_decode_cases [of 0 "length e" ?m "length e" n] b l
    by (auto simp: decode_apart_def mem_write_def split: option.splits if_splits)
qed

lemma base64_pass: base64_encode_okay base64_encode_nomem base64_decode_okay base64_decode_nomem base64_decode_invalid
proof -
  have e: "base64_encode_test encoded decoded" "base64_decode_test encoded decoded" if "(encoded, decoded) \<in> set base64_cases" for encoded decoded
  proof -
    have enc: "bytes_of encoded = b64_enc (bytes_of decoded)" and len: "length decoded \<le> 100"
      using base64_cases_enc that by (auto simp: list_all_iff base64_cases_def)
    then have "((length decoded + 2) div 3) * 4 \<le> 1024" by simp
    from gg_base64_encode_room [OF this] show "base64_encode_test encoded decoded"
      by (simp add: base64_encode_test_def enc gg_test_assert_buf_equal_str_def)
    have "length encoded div 4 * 3 \<le> 1024" using that by (auto simp: base64_cases_def)
    moreover have "b64_dec (bytes_of encoded) = Some (bytes_of decoded)" by (simp add: enc dec_enc)
    ultimately show "base64_decode_test encoded decoded" using decode_apart_eq [of encoded 1024]
      by (simp add: base64_decode_test_def gg_test_assert_buf_equal_str_def)
  qed
  show base64_encode_okay base64_decode_okay
    using e by (auto simp: base64_encode_okay_def base64_decode_okay_def list_all_iff)
  show base64_encode_nomem
    by (simp add: base64_encode_nomem_def gg_base64_encode_def gg_arena_alloc_def gg_arena_init_def Let_def UINT32_MAX_def)
  show base64_decode_nomem
    using decode_apart_eq [of "''dGVzdHN0cmluZw==''" 8] by (simp add: base64_decode_nomem_def split: option.splits)
  have n: "b64_dec (bytes_of ''Not a base64'') = None" "b64_dec (bytes_of ''aGFzIHBhZGRpbmc'') = None" "b64_dec (bytes_of ''aGFzIHBhZG=Rpbmc'') = None"
    by (simp_all add: segment_value_def base64_char_to_byte_def split: bind_splits)
  show base64_decode_invalid
    using decode_apart_eq [of "''Not a base64''" 1024] decode_apart_eq [of "''aGFzIHBhZGRpbmc''" 1024]
      decode_apart_eq [of "''aGFzIHBhZG=Rpbmc''" 1024] unfolding n by (simp add: base64_decode_invalid_def)
qed

lemma json_encodes_text:
  assumes "json_text fmt obj = Some t" "obj_depth obj \<le> GG_MAX_OBJECT_DEPTH" "obj_subobjects obj \<le> GG_MAX_OBJECT_SUBOBJECTS"
    and "length t \<le> n" "n < 2 ^ 64"
  shows "json_encodes fmt obj n = Some t"
proof -
  let ?v = "gg_byte_vec_init \<lparr>data = 0, mem = replicate n 0\<rparr>"
  have inv: "vec_inv ?v" using assms(5) by (simp add: vec_inv_def gg_byte_vec_init_def)
  from gg_json_encode_vec [OF inv, of fmt obj] assms(1-4)
  have "gg_json_encode fmt obj gg_byte_vec_writer ?v = Some (GG_ERR_OK, vec_put ?v t)" by (auto simp: gg_byte_vec_init_def)
  then show ?thesis using vec_contents_put [OF inv, of t]
    by (simp add: json_encodes_def vec_buf_def vec_contents_def gg_byte_vec_init_def)
qed

lemmas text_simps = json_string_def json_char_def hex_digit_def encoded_out_def sprintf_buf_def format_i64_def nat_digits.simps
  GG_MAX_OBJECT_DEPTH_def GG_MAX_OBJECT_SUBOBJECTS_def gg_obj_buf_def gg_obj_list_def gg_obj_map_def UINT16_MAX_def

lemma json_encode_scalars_pass: "json_encode_null_ok fmt" "json_encode_bool_ok fmt" "json_encode_i64_ok fmt"
  unfolding json_encode_null_ok_def json_encode_bool_ok_def json_encode_i64_ok_def
  by (intro conjI json_encodes_text; simp add: text_simps)+

lemma json_encode_buf_pass: "json_encode_buf_ok fmt"
  unfolding json_encode_buf_ok_def by (intro conjI json_encodes_text; simp add: text_simps)

lemma json_encode_nested_pass: "json_encode_map_ok fmt" "json_encode_list_ok fmt"
  unfolding json_encode_map_ok_def json_encode_list_ok_def by (rule json_encodes_text; simp add: text_simps kv_simp)+

lemma json_encode_too_large_pass: "json_encode_map_too_large fmt" "json_encode_list_too_large fmt"
  by (simp_all add: json_encode_map_too_large_def json_encode_list_too_large_def gg_json_encode_eq GG_MAX_OBJECT_SUBOBJECTS_def
      gg_obj_map_def gg_obj_list_def UINT16_MAX_def)

lemma vec_write_room:
  "vec_inv v \<Longrightarrow> vec_len v + length bs \<le> vec_capacity v \<Longrightarrow> gg_writer_call gg_byte_vec_writer v bs = (GG_ERR_OK, vec_put v bs)"
  by (auto simp: gg_byte_vec_writer_def byte_vec_write_def gg_byte_vec_append_def size_minus_le vec_inv_def vec_put_def array_write_def)

lemma vec_put_room [simp]: "vec_inv v \<Longrightarrow> vec_len v + length bs \<le> vec_capacity v \<Longrightarrow> vec_inv (vec_put v bs)"
  "vec_len (vec_put v bs) = vec_len v + length bs" "vec_capacity (vec_put v bs) = vec_capacity v"
  by (simp_all add: vec_inv_put)

lemma json_handlers [simp]:
  "on_list (json_encode_handlers fmt w) = Some (json_encode_on_list w)" "on_map (json_encode_handlers fmt w) = Some (json_encode_on_map w)"
  "on_map_key (json_encode_handlers fmt w) = Some (json_encode_on_map_key w)"
  by (simp_all add: json_encode_handlers_def)

lemma visit_one_item:
  "fst (visit_items h d s c (OBJ_LIST p [x]) 0) = GG_ERR_RANGE"
  if "Suc d < GG_MAX_OBJECT_DEPTH \<Longrightarrow> fst (visit_obj h (Suc d) s c x) = GG_ERR_RANGE"
  using that by (subst visit_items.simps) (auto split: prod.split)

lemma visit_one_pair:
  "fst (visit_pairs h d s c (OBJ_MAP p [q]) 0) = GG_ERR_RANGE"
  if "call2 (on_map_key h) c (fst q) q = (GG_ERR_OK, c', q)"
    and "Suc d < GG_MAX_OBJECT_DEPTH \<Longrightarrow> fst (visit_obj h (Suc d) s c' (snd q)) = GG_ERR_RANGE"
  using that by (subst visit_pairs.simps) (auto split: prod.split)

lemma nested_list_range:
  assumes "vec_inv v" "vec_len v + n \<le> vec_capacity v" "d < GG_MAX_OBJECT_DEPTH" "GG_MAX_OBJECT_DEPTH \<le> d + n"
    and "s + n \<le> GG_MAX_OBJECT_SUBOBJECTS"
  shows "fst (visit_obj (json_encode_handlers fmt gg_byte_vec_writer) d s v (nested_list n)) = GG_ERR_RANGE"
  using assms
proof (induction n arbitrary: d s v)
  case (Suc n)
  have w: "json_encode_on_list gg_byte_vec_writer v (0, [nested_list n]) obj = (GG_ERR_OK, vec_put v [91], obj)" for obj
    using Suc.prems(1,2) by (simp add: json_encode_on_list_def vec_write_room)
  have "Suc d < GG_MAX_OBJECT_DEPTH \<Longrightarrow>
    fst (visit_obj (json_encode_handlers fmt gg_byte_vec_writer) (Suc d) (s + 1) (vec_put v [91]) (nested_list n)) = GG_ERR_RANGE"
    by (rule Suc.IH) (use Suc.prems in simp_all)
  note visit_one_item [OF this]
  then show ?case using Suc.prems w by (simp add: gg_obj_list_def UINT16_MAX_def)
qed simp

lemma key_a_written:
  assumes "vec_inv v" "vec_len v + 4 \<le> vec_capacity v"
  shows "json_encode_on_map_key gg_byte_vec_writer v (GG_STR ''a'') p = (GG_ERR_OK, vec_put v [34, 97, 34, 58], p)"
  using assms
  by (simp add: json_encode_on_map_key_def json_encode_buf_def write_then_def json_write_buf_byte_def vec_write_room vec_put_put)

lemma nested_map_range:
  assumes "vec_inv v" "vec_len v + 5 * n \<le> vec_capacity v" "d < GG_MAX_OBJECT_DEPTH" "GG_MAX_OBJECT_DEPTH \<le> d + n"
    and "s + 2 * n \<le> GG_MAX_OBJECT_SUBOBJECTS"
  shows "fst (visit_obj (json_encode_handlers fmt gg_byte_vec_writer) d s v (nested_map n)) = GG_ERR_RANGE"
  using assms
proof (induction n arbitrary: d s v)
  case (Suc n)
  have w: "json_encode_on_map gg_byte_vec_writer v (0, [(GG_STR ''a'', nested_map n)]) obj = (GG_ERR_OK, vec_put v [123], obj)" for obj
    using Suc.prems(1,2) by (simp add: json_encode_on_map_def vec_write_room)
  have k: "json_encode_on_map_key gg_byte_vec_writer (vec_put v [123]) (GG_STR ''a'') p = (GG_ERR_OK, vec_put v [123, 34, 97, 34, 58], p)" for p
    using Suc.prems(1,2) key_a_written [of "vec_put v [123]" p] by (simp add: vec_put_put)
  have "Suc d < GG_MAX_OBJECT_DEPTH \<Longrightarrow>
    fst (visit_obj (json_encode_handlers fmt gg_byte_vec_writer) (Suc d) (s + 2) (vec_put v [123, 34, 97, 34, 58]) (nested_map n)) = GG_ERR_RANGE"
    by (rule Suc.IH) (use Suc.prems in simp_all)
  then have "fst (visit_pairs (json_encode_handlers fmt gg_byte_vec_writer) d (s + 2) (vec_put v [123]) (OBJ_MAP 0 [(GG_STR ''a'', nested_map n)]) 0) = GG_ERR_RANGE"
    by (intro visit_one_pair [where c' = "vec_put v [123, 34, 97, 34, 58]"]) (simp_all add: k)
  then show ?case using Suc.prems w by (simp add: gg_obj_map_def kv_simp UINT16_MAX_def)
qed simp

lemma json_encode_too_nested_pass: "json_encode_map_too_nested fmt" "json_encode_list_too_nested fmt"
proof -
  let ?v = "gg_byte_vec_init \<lparr>data = 0, mem = replicate (16 * (GG_MAX_OBJECT_DEPTH + 1)) 0\<rparr>"
  have v: "vec_inv ?v" "vec_len ?v = 0" "vec_capacity ?v = 16 * (GG_MAX_OBJECT_DEPTH + 1)"
    by (simp_all add: vec_inv_def gg_byte_vec_init_def GG_MAX_OBJECT_DEPTH_def)
  have c: "GG_MAX_OBJECT_DEPTH > 0" "2 * (GG_MAX_OBJECT_DEPTH + 1) \<le> GG_MAX_OBJECT_SUBOBJECTS"
    by (simp_all add: GG_MAX_OBJECT_DEPTH_def GG_MAX_OBJECT_SUBOBJECTS_def)
  show "json_encode_list_too_nested fmt" "json_encode_map_too_nested fmt"
    using nested_list_range [OF v(1), of GG_MAX_OBJECT_DEPTH 0 0 fmt] nested_map_range [OF v(1), of "GG_MAX_OBJECT_DEPTH + 1" 0 0 fmt] v c
    by (auto simp: json_encode_list_too_nested_def json_encode_map_too_nested_def gg_json_encode_eq split: prod.splits)
qed

section \<open>Properties\<close>

text \<open>
  The model passes the repository's own unit tests of map canonicalisation, canonical objects, the checksum, base64 and the
  JSON encoder, with the inputs and expected results of the source; the result does not depend on how doubles are printed.
\<close>
theorem unit_tests_pass:
  "kv_key_comparisons \<and> map_is_canonical \<and> map_prune_duplicates \<and> map_sorting \<and> map_canonicalize \<and>
   obj_is_canonical_simple_types \<and> obj_is_canonical_too_long \<and> crc_check \<and>
   base64_encode_okay \<and> base64_encode_nomem \<and> base64_decode_okay \<and> base64_decode_nomem \<and> base64_decode_invalid \<and>
   json_encode_null_ok fmt \<and> json_encode_bool_ok fmt \<and> json_encode_i64_ok fmt \<and> json_encode_buf_ok fmt \<and>
   json_encode_map_ok fmt \<and> json_encode_list_ok fmt \<and> json_encode_map_too_nested fmt \<and> json_encode_map_too_large fmt \<and>
   json_encode_list_too_nested fmt \<and> json_encode_list_too_large fmt"
  by (intro conjI kv_key_comparisons_pass map_is_canonical_pass map_prune_duplicates_pass map_sorting_pass map_canonicalize_pass
      obj_is_canonical_pass crc_check_pass base64_pass json_encode_scalars_pass json_encode_buf_pass json_encode_nested_pass
      json_encode_too_large_pass json_encode_too_nested_pass)

end
