(* ===== verification/Spec2Isabelle.thy ===== *)
theory Spec2Isabelle
  imports Json_Roundtrip Ipc_Socket Ipc_Thread Cpp_Client Log_Config Unit_Tests
begin

text \<open>
  Verification of the AWS Greengrass component SDK: its library in C and the C++ interface over it.

  \<^bold>\<open>The program.\<close> A component uses the SDK to talk to the Greengrass nucleus over a local socket. It
  calls functions such as \<open>ggipc_publish_to_topic_binary\<close>; these build a generic object for the
  parameters, the JSON encoder writes it into an event-stream packet, and the packet is sent. A
  receive thread reads packets, finds the stream they belong to in a table, decodes the JSON
  payload in place into an arena, and calls the handler of the stream, which wakes a waiting call or
  passes an event to a callback of the application. Everything works in memory of fixed size,
  so most functions have a way to fail, and the buffers, arenas and vectors are bounded. The C++ interface
  wraps the objects in classes with iterators and checked access, the client in a class with a method
  for each function, and subscription handles in a class that closes them when it is destroyed.

  \<^bold>\<open>Theories and sources\<close> (paths below \<open>src/\<close> of the repository).
  \<^item> \<open>Prelude\<close>: error codes (\<open>include/gg/error.h\<close>), word types, the collections \<open>gg_len\<close> and others,
    shared lemmas.
  \<^item> \<open>Buffer\<close>: \<open>src/buffer.c\<close> and the readers and writers of \<open>priv_include/gg/io.h\<close>. A buffer is the address and
    the bytes it spans; decimal parsing with its overflow checks.
  \<^item> \<open>Object\<close>: \<open>src/object.c\<close>, \<open>src/list.c\<close>, \<open>src/map.c\<close>. An object is the tree it stands for, with the addresses
    of its arrays. \<open>Object_Layout\<close>: the bytes of the same objects in memory, and that they implement
    the trees.
  \<^item> \<open>Map_Canonical\<close>, \<open>Object_Visit\<close>, \<open>Object_Canonical\<close>, \<open>Object_Compare\<close>: the files of the same names.
    The traversal with its fixed stack is a step function over a stack record; the handlers are
    a record of functions on a context.
  \<^item> \<open>Arena\<close>: \<open>src/arena.c\<close>, with its 32-bit arithmetic on words, and copying objects into an arena.
  \<^item> \<open>Crc32\<close>, \<open>Base64\<close>, \<open>Vector\<close>, \<open>EventStream\<close>: \<open>src/crc32.c\<close>, \<open>src/base64.c\<close>, \<open>src/vector.c\<close>,
    \<open>src/eventstream/*.c\<close>.
  \<^item> \<open>Json_Encode\<close>: \<open>src/json_encode.c\<close>. \<open>Json_Parser\<close>, \<open>Json_Decode\<close>: the recogniser and the decoder of
    \<open>src/json_decode.c\<close>; the decoder modifies its input, so it works on an explicit memory of bytes.
    \<open>Json_Text\<close>, \<open>Json_Roundtrip\<close>: the encoder's texts in the decoder's grammar, and decoding them.
  \<^item> \<open>Ipc_Client\<close>: \<open>src/ipc/client.c\<close>. Its static variables are the record \<open>ipc\<close>; the stack frames of calls that
    wait are part of the state, by address, because the stream table points to them. \<open>Ipc_Streams\<close>
    has the step relation of the critical sections and the lemmas about its executions,
    \<open>Ipc_Properties\<close> the theorems.
  \<^item> \<open>Ipc_Requests\<close>, \<open>Ipc_Handlers\<close>, \<open>Ipc_Api\<close>: \<open>src/ipc/client/*.c\<close>, the typed operations: requests, handlers of
    responses and events, and how they fit together. \<open>Ipc_Listing\<close>: the operation with several calls, listing
    named shadows, over the client, its receive thread and the packets of a server.
  \<^item> \<open>File\<close>: \<open>src/file.c\<close> and \<open>src/socket.c\<close> over system calls that are arguments (the record \<open>os\<close>). \<open>Posix\<close>: what
    they promise on a system that keeps the contract of POSIX. \<open>Ipc_Socket\<close>: the client over
    these sockets. \<open>Ipc_Thread\<close>: \<open>src/socket_epoll.c\<close> and the receive thread.
  \<^item> \<open>Runtime\<close>: \<open>src/rand.c\<close>, \<open>src/sleep.c\<close>, \<open>src/backoff.c\<close>, \<open>src/math.c\<close>, \<open>src/init.c\<close>.
    \<open>Log_Trail\<close>: \<open>src/log.c\<close>, \<open>src/log-trail.c\<close>. \<open>Log_Config\<close>: how logging starts, the logging macros, and the
    table of allocator functions of \<open>src/alloc.c\<close>.
  \<^item> \<open>Cpp_Object\<close>: \<open>cpp/include/gg/{buffer,list,map,object,schema}.hpp\<close> with \<open>cpp/src/{list,map,object}.cpp\<close>. Exceptions are
    values, undefined behaviour of an unchecked access is \<open>None\<close>, objects made by constructors are bytes.
    \<open>Cpp_Subscription\<close>: the class of \<open>cpp/include/gg/ipc/subscription.hpp\<close>, and programs that use its objects.
    \<open>Cpp_Client\<close>: \<open>cpp/src/ipc/*.cpp\<close>, the methods over the functions of \<open>Ipc_Requests\<close> and the functions
    between the C callbacks and the callback objects.
  \<^item> \<open>Unit_Tests\<close>: the tests that the sources of the library carry (\<open>GG_TEST_DEFINE\<close>), with the assertions of
    \<open>unity/gg_test/equal.c\<close>.

  \<^bold>\<open>Interfaces\<close> are locales: handler contracts of the traversal and of copying into arenas, writers that append,
  parsers of the elements of a container (\<open>items_parser\<close>), what user callbacks may do
  (\<open>callbacks\<close> and its extension \<open>application\<close>), the operating system (\<open>posix\<close>, \<open>stream_fd\<close>, \<open>runtime\<close>).
  They are interpreted on the handlers of the code, and those of the system on an in-memory system.

  \<^bold>\<open>What is shown.\<close>
  \<^item> Objects: the loop over a fixed stack equals recursion, its limits are exactly 15 levels and 255
    subobjects; comparison, canonicalisation, sorting, lookup and validation do what
    their specifications say; the packed bytes implement the trees. Comparison logs where a mismatch is, and
    for some nested maps reads pairs that do not exist to do so: its result is then \<open>None\<close>, undefined behaviour.
  \<^item> Memory: arena blocks are disjoint, aligned and inside the arena; copying an object moves every
    part and needs no more than \<open>gg_obj_mem_usage\<close> bytes.
  \<^item> Encodings: CRC against its bitwise definition, base64 and event-stream round trips, decoding
    accepts no message whose headers run out of it; JSON text of an object; JSON decoding
    returns on every input, stores elements and pairs only inside the arrays it has allocated and writes
    otherwise only inside its buffer, and delivers canonical objects; an object that is
    encoded and decoded again compares equal.
  \<^item> Client: an invariant of the stream table over all interleavings; the table as a map from
    stream ids to owners, with the effect of every event on it; no access to the frame of a call that has
    returned, and no header read outside its packet; delivery of responses,
    packets over sockets that split data, no leaked descriptors, typed operations whose sending
    and receiving sides agree. The receive loop ends only on an error. All this holds until
    \<open>2 ^ 31 - 1\<close> stream ids have been given out: the code counts them in an \<open>int32_t\<close> without a check, and
    \<open>stream_ids_overflow\<close> shows the execution. Listing named shadows passes on the names of all pages, unless a token
    is longer than 256 bytes, where it stops.
  \<^item> System: paths are walked by their components, reads and writes are complete, retries
    follow the documented schedule, trace contexts reach the receiver.
  \<^item> C++: handles are neither lost nor closed twice by any sequence of operations; the move assignment that
    does nothing between two active subscriptions; an application in C++ keeps the contract of
    callbacks, a message on a topic reaches its callback object, and the subscription of a callback that throws is
    closed; validation agrees with that of C; scalars and time stamps are converted exactly.
  \<^item> The tests beside the code hold of the definitions here, which ties the model to the
    inputs and outputs that the authors of the code had in mind.

  \<^bold>\<open>Loops and bounds.\<close> Loops with a bound are total functions with a measure. Loops that depend on a
  server, a signal or a callback are partial functions into \<open>option\<close>, \<open>None\<close> meaning that they do not return:
  \<open>until_done\<close>, \<open>read_loop\<close>, \<open>gg_file_write\<close>, \<open>sleep_timespec\<close>, \<open>backoff_loop\<close>, \<open>wait_loop\<close>, \<open>list_shadows_loop\<close>, \<open>gg_socket_epoll_run\<close>;
  theorems about them say under which contract they return. The recogniser \<open>parser_call\<close> is such a
  function too, and is proved to return on every input. The decoder \<open>take_json_val\<close> has fuel; it starts
  with one more than the length of the input, every nested value is shorter than its surroundings, and
  it is proved not to run out. Pointers are natural numbers; sizes are natural numbers where the code
  has \<open>size_t\<close> and no wrap-around can occur, and words where the width matters. The platform is 64-bit
  and little-endian, assertions are compiled out (\<open>NDEBUG\<close>).

  \<^bold>\<open>Memory.\<close> Undefined behaviour that the model can reach is a value: \<open>None\<close> for a dangling frame, a store outside an
  array, a pair that does not exist, a header outside its packet; \<open>app_fault\<close> for an exception that leaves through C
  frames. Objects are trees where the code copies or moves arrays, so an arena, the objects copied into it and
  the buffer that is decoded are separate memory, as their callers have to provide. Reads of the C library are not
  tracked: \<open>strtod\<close> has no length and reads on behind a number that ends its buffer. The bytes there are
  arbitrary in the model (\<open>memory_around\<close>), and no theorem says that they are not read.

  \<^bold>\<open>Parameters.\<close> Code outside the repository is an argument: system calls, \<open>strtod\<close> and the \<open>%g\<close> conversion, the
  conversion of a \<open>timespec\<close> to a double, \<open>getenv\<close>, the callbacks of the application, the server.

  \<^bold>\<open>Not modelled.\<close> The calls of the log functions inside the other components (but for what \<open>print_state\<close> of
  \<open>src/object_compare.c\<close> reads), and messages on \<open>std::cerr\<close>; masking of signals in \<open>gg_close\<close>, the handler for SIGPIPE and the creation of the
  recursive mutex, which have no state that the model shows; \<open>std::hash\<close> of subscriptions, whose values are
  up to the C++ library; of the unit tests those of the JSON decoder, of doubles and of the pauses of
  \<open>gg_backoff\<close>, which need the C library or the clock; the Rust bindings, which wrap the same
  functions for another language; the samples, the system tests with their mock server, and the Unity test framework, which
  are not part of the library.
\<close>

end
